(* ===== verification/Prelude.thy ===== *)
theory Prelude
  imports Main "HOL-Library.Word" "HOL-Library.AList" "HOL-Library.Signed_Division"
begin

text \<open>
  Shared vocabulary of the development: byte strings, in-place writes into a byte array,
  the conversion of C integers to characters, and a few list lemmas used by several
  components.  A byte is a \<open>char\<close> (8 bits), a byte buffer a \<open>string\<close>.
\<close>

unbundle bit_operations_syntax

named_theorems layout_simps "offsets and widths of the cached log header"
named_theorems buf_simps "functional behaviour of the byte buffers"

type_synonym u8 = "8 word"
type_synonym u32 = "32 word"
type_synonym u64 = "64 word"

section \<open>Characters\<close>

text \<open>\<open>static_cast<char>('0' + n)\<close> for an \<open>int\<close> n: the low eight bits of the sum.\<close>

definition digit_char :: "int \<Rightarrow> char" where
  "digit_char n = char_of (48 + n)"

lemma digit_char_simps [simp]:
  "digit_char 0 = CHR ''0''" "digit_char 1 = CHR ''1''" "digit_char 2 = CHR ''2''"
  "digit_char 3 = CHR ''3''" "digit_char 4 = CHR ''4''" "digit_char 5 = CHR ''5''"
  "digit_char 6 = CHR ''6''" "digit_char 7 = CHR ''7''" "digit_char 8 = CHR ''8''"
  "digit_char 9 = CHR ''9''"
  by (simp_all add: digit_char_def char_of_def)

definition is_digit :: "char \<Rightarrow> bool" where
  "is_digit c \<longleftrightarrow> 48 \<le> (of_char c :: nat) \<and> (of_char c :: nat) \<le> 57"

text \<open>The number a digit character stands for: \<open>c - '0'\<close>.\<close>

definition digit_val :: "char \<Rightarrow> nat" where
  "digit_val c = of_char c - 48"

lemma of_char_digit_char:
  assumes "0 \<le> n" "n \<le> 9"
  shows "(of_char (digit_char n) :: nat) = 48 + nat n"
proof -
  have "(of_char (digit_char n) :: int) = 48 + n"
    using assms by (simp add: digit_char_def)
  then show ?thesis
    using assms by (metis (mono_tags) add_nonneg_nonneg nat_0_le nat_eq_iff2 of_nat_of_char
      nat_add_distrib nat_numeral zero_le_numeral)
qed

lemmas is_digit_iff = is_digit_def

lemma is_digit_digit_char [simp]: "0 \<le> n \<Longrightarrow> n \<le> 9 \<Longrightarrow> is_digit (digit_char n)"
  by (simp add: is_digit_iff of_char_digit_char)

lemma digit_val_digit_char [simp]: "0 \<le> n \<Longrightarrow> n \<le> 9 \<Longrightarrow> digit_val (digit_char n) = nat n"
  by (simp add: digit_val_def of_char_digit_char)

lemma digit_char_of_val: "is_digit c \<Longrightarrow> digit_char (int (digit_val c)) = c"
  by (simp add: digit_char_def digit_val_def is_digit_iff of_nat_diff)

lemma digit_val_le: "is_digit c \<Longrightarrow> digit_val c \<le> 9"
  unfolding digit_val_def is_digit_iff by linarith

text \<open>Reading a run of digits as a number, most significant digit first.\<close>

definition dec_val :: "string \<Rightarrow> nat" where
  "dec_val s = foldl (\<lambda>v c. v * 10 + digit_val c) 0 s"

lemma foldl_dec: "foldl (\<lambda>v c. v * 10 + digit_val c) a s = a * 10 ^ length s + dec_val s"
proof (induction s arbitrary: a)
  case Nil
  show ?case by (simp add: dec_val_def)
next
  case (Cons c s)
  have "dec_val (c # s) = foldl (\<lambda>v c. v * 10 + digit_val c) (digit_val c) s"
    by (simp add: dec_val_def)
  then show ?case
    using Cons[of "a * 10 + digit_val c"] Cons[of "digit_val c"] by (simp add: algebra_simps)
qed

lemma dec_val_Nil [simp]: "dec_val [] = 0"
  by (simp add: dec_val_def)

lemma dec_val_Cons: "dec_val (c # s) = digit_val c * 10 ^ length s + dec_val s"
  using foldl_dec[of "digit_val c" s] by (simp add: dec_val_def)

lemma dec_val_append: "dec_val (s @ t) = dec_val s * 10 ^ length t + dec_val t"
proof -
  have "dec_val (s @ t) = foldl (\<lambda>v c. v * 10 + digit_val c) (dec_val s) t"
    by (simp add: dec_val_def)
  then show ?thesis by (simp add: foldl_dec)
qed

text \<open>\<open>std::to_string\<close> of an unsigned number: its decimal digits without leading zeros.\<close>

fun dec_string :: "nat \<Rightarrow> string" where
  "dec_string n = (if n < 10 then [digit_char (int n)]
                   else dec_string (n div 10) @ [digit_char (int (n mod 10))])"

declare dec_string.simps [simp del]

lemma dec_string_small [simp]: "n < 10 \<Longrightarrow> dec_string n = [digit_char (int n)]"
  by (simp add: dec_string.simps)

lemma dec_string_step: "10 \<le> n \<Longrightarrow> dec_string n = dec_string (n div 10) @ [digit_char (int (n mod 10))]"
  by (subst dec_string.simps) simp

lemma dec_string_not_Nil [simp]: "dec_string n \<noteq> []"
  by (subst dec_string.simps) simp

lemma dec_string_digits: "c \<in> set (dec_string n) \<Longrightarrow> is_digit c"
proof (induction n rule: dec_string.induct)
  case (1 n)
  show ?case
  proof (cases "n < 10")
    case True
    with "1.prems" show ?thesis by simp
  next
    case False
    have "c \<in> set (dec_string (n div 10)) \<or> c = digit_char (int (n mod 10))"
      using "1.prems" False by (auto simp add: dec_string_step)
    moreover have "is_digit (digit_char (int (n mod 10)))" by (rule is_digit_digit_char) simp_all
    ultimately show ?thesis using "1.IH"[OF False] by blast
  qed
qed

lemma dec_val_dec_string [simp]: "dec_val (dec_string n) = n"
proof (induction n rule: dec_string.induct)
  case (1 n)
  show ?case
  proof (cases "n < 10")
    case True
    then show ?thesis by (simp add: dec_val_Cons)
  next
    case False
    have d: "digit_val (digit_char (int (n mod 10))) = n mod 10"
      by (subst digit_val_digit_char) simp_all
    have "dec_val (dec_string n) = dec_val (dec_string (n div 10)) * 10 + n mod 10"
      using False by (simp only: dec_string_step not_less dec_val_append) (simp add: dec_val_Cons d)
    with "1.IH"[OF False] show ?thesis by simp
  qed
qed

lemma dec_string_inj [simp]: "dec_string m = dec_string n \<longleftrightarrow> m = n"
  using dec_val_dec_string by metis

lemma dec_string_length_le: "n < 10 ^ k \<Longrightarrow> 0 < k \<Longrightarrow> length (dec_string n) \<le> k"
proof (induction n arbitrary: k rule: dec_string.induct)
  case (1 n)
  show ?case
  proof (cases "n < 10")
    case True
    with "1.prems" show ?thesis by simp
  next
    case False
    then obtain j where j: "k = Suc j" "0 < j"
      using "1.prems" by (cases k; cases "k - 1") auto
    have "n div 10 < 10 ^ j" using "1.prems"(1) j(1) by (simp add: div_less_iff_less_mult mult.commute)
    from "1.IH"[OF False this j(2)] False j(1) show ?thesis by (simp add: dec_string_step)
  qed
qed

lemma dec_string_lead: "0 < n \<Longrightarrow> hd (dec_string n) \<noteq> CHR ''0''"
proof (induction n rule: dec_string.induct)
  case (1 n)
  show ?case
  proof (cases "n < 10")
    case True
    then have "n \<in> {1, 2, 3, 4, 5, 6, 7, 8, 9}" using "1.prems" by auto
    then show ?thesis by auto
  next
    case False
    with "1.IH"[OF False] show ?thesis by (simp add: dec_string_step)
  qed
qed

section \<open>Writing into a byte array\<close>

text \<open>\<open>memcpy(xs + off, s, |s|)\<close> inside the array.\<close>

definition patch :: "nat \<Rightarrow> 'a list \<Rightarrow> 'a list \<Rightarrow> 'a list" where
  "patch off s xs = take off xs @ s @ drop (off + length s) xs"

lemma length_patch [simp]: "off + length s \<le> length xs \<Longrightarrow> length (patch off s xs) = length xs"
  by (simp add: patch_def)

lemma patch_Nil [simp]: "patch off [] xs = xs"
  by (simp add: patch_def)

lemma take_patch_before: "k \<le> off \<Longrightarrow> off \<le> length xs \<Longrightarrow> take k (patch off s xs) = take k xs"
  by (simp add: patch_def min_def)

lemma drop_patch_after:
  "off + length s \<le> k \<Longrightarrow> off + length s \<le> length xs \<Longrightarrow> drop k (patch off s xs) = drop k xs"
  by (simp add: patch_def)

lemma take_patch_end: "off \<le> length xs \<Longrightarrow> take (off + length s) (patch off s xs) = take off xs @ s"
  by (simp add: patch_def)

lemma nth_patch:
  assumes "off + length s \<le> length xs" "i < length xs"
  shows "patch off s xs ! i = (if off \<le> i \<and> i < off + length s then s ! (i - off) else xs ! i)"
  using assms by (auto simp: patch_def nth_append min_def)

lemma patch_read: "off + length s \<le> length xs \<Longrightarrow> take (length s) (drop off (patch off s xs)) = s"
  by (simp add: patch_def)

lemma patch_same:
  assumes "off + length t \<le> length xs" "length s = length t"
  shows "patch off s (patch off t xs) = patch off s xs"
  using assms by (simp add: patch_def)

lemma patch_append_left: "off + length s \<le> length xs \<Longrightarrow> patch off s (xs @ ys) = patch off s xs @ ys"
  by (simp add: patch_def)

lemma patch_append_right:
  "patch (length xs + off) s (xs @ ys) = xs @ patch off s ys"
  by (simp add: patch_def)

lemma patch_middle: "length t = length s \<Longrightarrow> patch (length xs) s (xs @ t @ ys) = xs @ s @ ys"
  by (simp add: patch_def)

lemma list_update_patch: "i < length xs \<Longrightarrow> xs[i := c] = patch i [c] xs"
  by (simp add: patch_def upd_conv_take_nth_drop)

lemma patch_patch_adjacent:
  assumes "off + length s + length t \<le> length xs" "off2 = off + length s"
  shows "patch off2 t (patch off s xs) = patch off (s @ t) xs"
  using assms by (simp add: patch_def add.assoc add.commute add.left_commute)

lemma patch_commute:
  assumes "off + length s \<le> off2" "off2 + length t \<le> length xs"
  shows "patch off2 t (patch off s xs) = patch off s (patch off2 t xs)"
  using assms by (auto intro!: nth_equalityI simp: nth_patch)

section \<open>Lists\<close>

lemma concat_map_singleton [simp]: "concat (map (\<lambda>x. [x]) xs) = xs"
  by (induction xs) auto

lemma foldl_append_concat: "foldl (\<lambda>a x. a @ f x) a xs = a @ concat (map f xs)"
  by (induction xs arbitrary: a) auto

section \<open>Words\<close>

lemma unat_low: "unat (ucast w :: 'b::len word) = unat w mod 2 ^ LENGTH('b)" for w :: "'a::len word"
  by (simp add: unsigned_ucast_eq take_bit_eq_mod)

lemma unat_up: "LENGTH('a) \<le> LENGTH('b) \<Longrightarrow> unat (ucast w :: 'b::len word) = unat w" for w :: "'a::len word"
proof -
  assume "LENGTH('a) \<le> LENGTH('b)"
  then have "(2 :: nat) ^ LENGTH('a) \<le> 2 ^ LENGTH('b)" by (rule power_increasing) simp
  then have "unat w < 2 ^ LENGTH('b)" by (rule order.strict_trans2[OF unsigned_less])
  then show ?thesis by (simp add: unat_low)
qed

lemma unat_plus_exact: "unat a + unat b < 2 ^ LENGTH('a) \<Longrightarrow> unat (a + b) = unat a + unat b" for a b :: "'a::len word"
  by (simp add: unat_word_ariths)

lemma unat_times_exact: "unat a * unat b < 2 ^ LENGTH('a) \<Longrightarrow> unat (a * b) = unat a * unat b" for a b :: "'a::len word"
  by (simp add: unat_word_ariths)

lemma unat_drop_bit: "unat (drop_bit k w) = unat w div 2 ^ k" for w :: "'a::len word"
proof -
  have "unat (drop_bit k w) = drop_bit k (take_bit LENGTH('a) (unat w))" by (rule unsigned_drop_bit_eq)
  also have "take_bit LENGTH('a) (unat w) = unat w" by (intro take_bit_nat_eq_self unsigned_less)
  finally show ?thesis by (simp only: drop_bit_eq_div)
qed

end
