(* ===== verification/Calendar.thy ===== *)
theory Calendar
  imports Prelude
begin

text \<open>
  The part of \<open><ctime>\<close> the formatter uses: \<open>std::tm\<close>, \<open>gmtime_r\<close> as the proleptic
  Gregorian calendar, and \<open>localtime_r\<close> as \<open>gmtime_r\<close> shifted by the offset the time zone
  database gives for that instant (an argument of the model).
\<close>

record tm =
  tm_year :: int
  tm_mon :: int
  tm_mday :: int
  tm_hour :: int
  tm_min :: int
  tm_sec :: int

text \<open>
  Days are counted from 0000-03-01, so that the leap day ends a year.  \<open>civil_year\<close> gives
  the March-based year and the day of that year: 400-year eras of 146097 days, centuries of
  36524, four-year groups of 1461.
\<close>

definition civil_year :: "int \<Rightarrow> int \<times> int" where
  "civil_year z =
     (let era = z div 146097; doe = z mod 146097;
          c = min 3 (doe div 36524); r = doe - c * 36524;
          q = r div 1461; s = r mod 1461;
          y = min 3 (s div 365)
      in (400 * era + 100 * c + 4 * q + y, s - 365 * y))"

definition civil_month :: "int \<Rightarrow> int" where
  "civil_month doy = (5 * doy + 2) div 153"

definition gmtime_r :: "int \<Rightarrow> tm" where
  "gmtime_r t =
     (let days = t div 86400; sod = t mod 86400;
          (y, doy) = civil_year (days + 719468);
          mp = civil_month doy;
          mon = (if mp < 10 then mp + 2 else mp - 10)
      in \<lparr>tm_year = (if mon \<le> 1 then y + 1 else y) - 1900, tm_mon = mon,
          tm_mday = doy - (153 * mp + 2) div 5 + 1,
          tm_hour = sod div 3600, tm_min = sod mod 3600 div 60, tm_sec = sod mod 60\<rparr>)"

definition localtime_r :: "(int \<Rightarrow> int) \<Rightarrow> int \<Rightarrow> tm" where
  "localtime_r tz t = gmtime_r (t + tz t)"

lemma civil_year_day:
  assumes "civil_year z = (y, doy)"
  shows "0 \<le> doy" "doy \<le> 365"
proof -
  define doe where "doe = z mod 146097"
  define c where "c = min 3 (doe div 36524)"
  define s where "s = (doe - c * 36524) mod 1461"
  define yr where "yr = min 3 (s div 365)"
  have "snd (civil_year z) = s - 365 * yr"
    unfolding civil_year_def Let_def doe_def c_def s_def yr_def by (rule snd_conv)
  with assms have doy: "doy = s - 365 * yr" by simp
  have s: "0 \<le> s" "s < 1461" by (simp_all add: s_def)
  have "yr * 365 \<le> s" using s unfolding yr_def by linarith
  moreover have "s \<le> 365 * yr + 365" using s unfolding yr_def by linarith
  ultimately show "0 \<le> doy" "doy \<le> 365" using doy by linarith+
qed

lemma civil_month_range: "0 \<le> doy \<Longrightarrow> doy \<le> 365 \<Longrightarrow> 0 \<le> civil_month doy \<and> civil_month doy \<le> 11"
  unfolding civil_month_def by linarith

lemma civil_mday_range:
  "0 \<le> doy \<Longrightarrow> doy \<le> 365 \<Longrightarrow>
   1 \<le> doy - (153 * civil_month doy + 2) div 5 + 1 \<and> doy - (153 * civil_month doy + 2) div 5 + 1 \<le> 31"
  unfolding civil_month_def by linarith

text \<open>Every field of a broken-down time other than the year is in the documented range.\<close>

definition tm_valid :: "tm \<Rightarrow> bool" where
  "tm_valid t \<longleftrightarrow> 0 \<le> tm_mon t \<and> tm_mon t \<le> 11 \<and> 1 \<le> tm_mday t \<and> tm_mday t \<le> 31 \<and>
     0 \<le> tm_hour t \<and> tm_hour t \<le> 23 \<and> 0 \<le> tm_min t \<and> tm_min t \<le> 59 \<and>
     0 \<le> tm_sec t \<and> tm_sec t \<le> 59"

lemma gmtime_valid: "tm_valid (gmtime_r t)"
proof -
  obtain y doy where cy: "civil_year (t div 86400 + 719468) = (y, doy)" by fastforce
  note r = civil_year_day[OF cy]
  note m = civil_month_range[OF r] and d = civil_mday_range[OF r]
  have sod: "0 \<le> t mod 86400" "t mod 86400 < 86400" by simp_all
  have "0 \<le> t mod 86400 div 3600 \<and> t mod 86400 div 3600 \<le> 23" using sod by linarith
  moreover have "0 \<le> t mod 86400 mod 3600 div 60 \<and> t mod 86400 mod 3600 div 60 \<le> 59"
  proof -
    have "0 \<le> t mod 86400 mod 3600" "t mod 86400 mod 3600 < 3600" by simp_all
    then show ?thesis by linarith
  qed
  moreover have "0 \<le> t mod 86400 mod 60 \<and> t mod 86400 mod 60 \<le> 59" by simp
  ultimately show ?thesis using m d by (simp add: gmtime_r_def cy Let_def tm_valid_def)
qed

lemma localtime_valid: "tm_valid (localtime_r tz t)"
  by (simp add: localtime_r_def gmtime_valid)

text \<open>The calendar is the right one: counting days from the civil date gives back the
  timestamp.\<close>

definition days_from_civil :: "int \<Rightarrow> int \<Rightarrow> int \<Rightarrow> int" where
  "days_from_civil year mon mday =
     (let y = (if mon \<le> 1 then year - 1 else year);
          mp = (if mon \<ge> 2 then mon - 2 else mon + 10)
      in 365 * y + y div 4 - y div 100 + y div 400 + (153 * mp + 2) div 5 + (mday - 1) - 719468)"

lemma civil_year_days:
  assumes "civil_year z = (y, doy)"
  shows "365 * y + y div 4 - y div 100 + y div 400 + doy = z"
proof -
  define era where "era = z div 146097"
  define doe where "doe = z mod 146097"
  define c where "c = min 3 (doe div 36524)"
  define r where "r = doe - c * 36524"
  define q where "q = r div 1461"
  define s where "s = r mod 1461"
  define yr where "yr = min 3 (s div 365)"
  have "civil_year z = (400 * era + 100 * c + 4 * q + yr, s - 365 * yr)"
    unfolding civil_year_def Let_def era_def doe_def c_def r_def q_def s_def yr_def by (rule refl)
  with assms have y: "y = 400 * era + 100 * c + 4 * q + yr" and doy: "doy = s - 365 * yr"
    by simp_all
  have doe: "0 \<le> doe" "doe < 146097" by (simp_all add: doe_def)
  have c: "0 \<le> c" "c \<le> 3" using doe unfolding c_def by linarith+
  have r: "0 \<le> r" "r \<le> 36524" using doe unfolding r_def c_def by linarith+
  have q: "0 \<le> q" "q \<le> 24" using r unfolding q_def by linarith+
  have s: "0 \<le> s" "s < 1461" by (simp_all add: s_def)
  have yr: "0 \<le> yr" "yr \<le> 3" using s unfolding yr_def by linarith+
  have "y div 4 = 100 * era + 25 * c + q" using yr unfolding y by linarith
  moreover have "y div 100 = 4 * era + c" using q yr unfolding y by linarith
  moreover have "y div 400 = era" using c q yr unfolding y by linarith
  moreover have "z = 146097 * era + doe" unfolding era_def doe_def by simp
  moreover have "r = 1461 * q + s" unfolding q_def s_def by simp
  ultimately have "365 * y + (y div 4 - y div 100 + y div 400) + doy = z"
    using y doy r_def by (simp add: algebra_simps)
  then show ?thesis by simp
qed

lemma gmtime_roundtrip:
  fixes t :: int
  defines "m \<equiv> gmtime_r t"
  shows "days_from_civil (tm_year m + 1900) (tm_mon m) (tm_mday m) * 86400
         + tm_hour m * 3600 + tm_min m * 60 + tm_sec m = t"
proof -
  obtain y doy where cy: "civil_year (t div 86400 + 719468) = (y, doy)" by fastforce
  note r = civil_year_day[OF cy]
  note mr = civil_month_range[OF r]
  have fields: "tm_hour m = t mod 86400 div 3600" "tm_min m = t mod 86400 mod 3600 div 60"
      "tm_sec m = t mod 86400 mod 60"
    by (simp_all add: m_def gmtime_r_def cy Let_def)
  have "days_from_civil (tm_year m + 1900) (tm_mon m) (tm_mday m) =
      365 * y + y div 4 - y div 100 + y div 400 + doy - 719468"
    using mr by (auto simp: m_def gmtime_r_def cy Let_def days_from_civil_def)
  with civil_year_days[OF cy]
  have d: "days_from_civil (tm_year m + 1900) (tm_mon m) (tm_mday m) = t div 86400" by simp
  have "t mod 86400 div 3600 * 3600 + t mod 86400 mod 3600 = t mod 86400" by simp
  moreover have "t mod 86400 mod 3600 div 60 * 60 + t mod 86400 mod 3600 mod 60 = t mod 86400 mod 3600"
    by simp
  moreover have "t mod 86400 mod 3600 mod 60 = t mod 86400 mod 60"
    by (simp add: mod_mod_cancel)
  moreover have "t div 86400 * 86400 + t mod 86400 = t" by simp
  ultimately show ?thesis unfolding d fields by linarith
qed

end
