(* ===== verification/Common.thy ===== *)
theory Common
  imports Prelude
begin

text \<open>
  \<open>include/spdlite/common.h\<close>: the severity levels and their tags, the stack/heap buffer
  \<open>stack_buf\<close> of the \<open>SPDLITE_USE_STD_FORMAT\<close> build, and the message descriptor
  handed to the sinks.
\<close>

section \<open>Levels\<close>

text \<open>\<open>enum class level : std::uint8_t\<close>; comparison of two levels compares the underlying
  bytes, which is the declaration order.\<close>

datatype level = Trace | Debug | Info | Warn | Err | Critical | Off | N_levels

fun level_code :: "level \<Rightarrow> nat" where
  "level_code Trace = 0"
| "level_code Debug = 1"
| "level_code Info = 2"
| "level_code Warn = 3"
| "level_code Err = 4"
| "level_code Critical = 5"
| "level_code Off = 6"
| "level_code N_levels = 7"

lemma level_code_inj [simp]: "level_code a = level_code b \<longleftrightarrow> a = b"
  by (cases a; cases b) auto

instantiation level :: linorder
begin

definition less_eq_level :: "level \<Rightarrow> level \<Rightarrow> bool" where
  "less_eq_level a b \<longleftrightarrow> level_code a \<le> level_code b"

definition less_level :: "level \<Rightarrow> level \<Rightarrow> bool" where
  "less_level a b \<longleftrightarrow> level_code a < level_code b"

instance
  by standard (auto simp: less_eq_level_def less_level_def)

end

lemma level_le_Off: "l \<le> Off \<longleftrightarrow> l \<noteq> N_levels"
  by (cases l) (auto simp: less_eq_level_def)

definition levels_count :: nat where
  "levels_count = level_code N_levels"

definition level_width :: nat where
  "level_width = 3"

definition level_names :: "string list" where
  "level_names = [''TRC'', ''DBG'', ''INF'', ''WRN'', ''ERR'', ''CRT'', ''OFF'']"

text \<open>The \<open>assert\<close> on the index is the \<open>None\<close> branch.\<close>

definition to_string_view :: "level \<Rightarrow> string option" where
  "to_string_view lvl =
     (if level_code lvl < levels_count then Some (level_names ! level_code lvl) else None)"

lemma to_string_view_simps [simp]:
  "to_string_view Trace = Some ''TRC''" "to_string_view Debug = Some ''DBG''"
  "to_string_view Info = Some ''INF''" "to_string_view Warn = Some ''WRN''"
  "to_string_view Err = Some ''ERR''" "to_string_view Critical = Some ''CRT''"
  "to_string_view Off = Some ''OFF''" "to_string_view N_levels = None"
  by (simp_all add: to_string_view_def levels_count_def level_names_def)

lemma to_string_view_None_iff: "to_string_view lvl = None \<longleftrightarrow> lvl = N_levels"
  by (cases lvl) auto

lemma to_string_view_width: "to_string_view lvl = Some s \<Longrightarrow> length s = level_width"
  by (cases lvl) (auto simp: level_width_def)

lemma to_string_view_inj:
  "to_string_view a = Some s \<Longrightarrow> to_string_view b = Some s \<Longrightarrow> a = b"
  by (cases a; cases b) auto

section \<open>\<open>detail::stack_buf\<close>\<close>

text \<open>
  The pointer \<open>heap_\<close> is null or points to the object's own \<open>heap_storage_\<close>, so it is
  a Boolean here.  \<open>sb_stack\<close> is the array \<open>stack_\<close>; its elements from \<open>size_\<close> on
  are not initialised in the code and never read.
\<close>

record stack_buf =
  sb_stack :: string
  sb_size :: nat
  sb_heap :: bool
  sb_storage :: string

definition sb_new :: "nat \<Rightarrow> stack_buf" where
  "sb_new n = \<lparr>sb_stack = replicate n (CHR 0x00), sb_size = 0, sb_heap = False, sb_storage = []\<rparr>"

definition spill_to_heap :: "stack_buf \<Rightarrow> stack_buf" where
  "spill_to_heap b = b\<lparr>sb_storage := take (sb_size b) (sb_stack b), sb_heap := True\<rparr>"

definition sb_push_back :: "nat \<Rightarrow> char \<Rightarrow> stack_buf \<Rightarrow> stack_buf" where
  "sb_push_back n c b =
     (if sb_heap b then b\<lparr>sb_storage := sb_storage b @ [c]\<rparr>
      else if sb_size b < n
      then b\<lparr>sb_stack := (sb_stack b)[sb_size b := c], sb_size := sb_size b + 1\<rparr>
      else let b' = spill_to_heap b in b'\<lparr>sb_storage := sb_storage b' @ [c]\<rparr>)"

definition sb_append :: "nat \<Rightarrow> string \<Rightarrow> stack_buf \<Rightarrow> stack_buf" where
  "sb_append n s b =
     (if sb_heap b then b\<lparr>sb_storage := sb_storage b @ s\<rparr>
      else if sb_size b + length s \<le> n
      then b\<lparr>sb_stack := patch (sb_size b) s (sb_stack b), sb_size := sb_size b + length s\<rparr>
      else let b' = spill_to_heap b in b'\<lparr>sb_storage := sb_storage b' @ s\<rparr>)"

definition sb_clear :: "stack_buf \<Rightarrow> stack_buf" where
  "sb_clear b = b\<lparr>sb_heap := False, sb_size := 0\<rparr>"

definition sb_length :: "stack_buf \<Rightarrow> nat" where
  "sb_length b = (if sb_heap b then length (sb_storage b) else sb_size b)"

text \<open>\<open>{data(), size()}\<close> as a view.\<close>

definition sb_view :: "stack_buf \<Rightarrow> string" where
  "sb_view b = (if sb_heap b then sb_storage b else take (sb_size b) (sb_stack b))"

text \<open>The move constructor: (new object, moved-from object).  A moved-from
  \<open>std::string\<close> is left empty.\<close>

definition sb_move :: "nat \<Rightarrow> stack_buf \<Rightarrow> stack_buf \<times> stack_buf" where
  "sb_move n other =
     (let b = (sb_new n)\<lparr>sb_storage := sb_storage other\<rparr>;
          b' = (if sb_heap other then b\<lparr>sb_heap := True\<rparr>
                else b\<lparr>sb_size := sb_size other,
                       sb_stack := patch 0 (take (sb_size other) (sb_stack other)) (sb_stack b)\<rparr>)
      in (b', other\<lparr>sb_storage := [], sb_size := 0, sb_heap := False\<rparr>))"

definition sb_inv :: "nat \<Rightarrow> stack_buf \<Rightarrow> bool" where
  "sb_inv n b \<longleftrightarrow> length (sb_stack b) = n \<and> sb_size b \<le> n"

lemma sb_inv_new [simp]: "sb_inv n (sb_new n)"
  by (simp add: sb_inv_def sb_new_def)

lemma sb_inv_push_back: "sb_inv n b \<Longrightarrow> sb_inv n (sb_push_back n c b)"
  by (auto simp: sb_inv_def sb_push_back_def spill_to_heap_def Let_def)

lemma sb_inv_append: "sb_inv n b \<Longrightarrow> sb_inv n (sb_append n s b)"
  by (auto simp: sb_inv_def sb_append_def spill_to_heap_def Let_def)

lemma sb_inv_clear: "sb_inv n b \<Longrightarrow> sb_inv n (sb_clear b)"
  by (auto simp: sb_inv_def sb_clear_def)

lemma sb_view_new: "sb_view (sb_new n) = []"
  by (simp add: sb_view_def sb_new_def)

lemma sb_view_clear: "sb_view (sb_clear b) = []"
  by (simp add: sb_view_def sb_clear_def)

lemma sb_view_push_back: "sb_inv n b \<Longrightarrow> sb_view (sb_push_back n c b) = sb_view b @ [c]"
  by (auto simp: sb_inv_def sb_view_def sb_push_back_def spill_to_heap_def Let_def
      take_Suc_conv_app_nth)

lemma sb_view_append: "sb_inv n b \<Longrightarrow> sb_view (sb_append n s b) = sb_view b @ s"
  by (auto simp: sb_inv_def sb_view_def sb_append_def spill_to_heap_def Let_def take_patch_end)

lemma sb_length_view: "sb_inv n b \<Longrightarrow> sb_length b = length (sb_view b)"
  by (auto simp: sb_inv_def sb_view_def sb_length_def)

lemma sb_move_view:
  assumes "sb_inv n b" and "sb_move n b = (new, old)"
  shows "sb_inv n new" "sb_inv n old" "sb_view new = sb_view b" "sb_view old = []"
  using assms
  by (auto simp: sb_inv_def sb_move_def sb_new_def sb_view_def Let_def min_def patch_def)

section \<open>The buffer contract\<close>

text \<open>
  What the logger and the console sink rely on in \<open>memory_buf_t\<close>, whichever of the two
  buffer classes the build selects: \<open>clear\<close>, \<open>append\<close>, \<open>push_back\<close>, and a view of
  everything appended since the last \<open>clear\<close>.
\<close>

locale byte_buffer =
  fixes inv :: "'b \<Rightarrow> bool"
    and view :: "'b \<Rightarrow> string"
    and clear :: "'b \<Rightarrow> 'b"
    and append :: "string \<Rightarrow> 'b \<Rightarrow> 'b"
    and push_back :: "char \<Rightarrow> 'b \<Rightarrow> 'b"
  assumes inv_clear: "inv b \<Longrightarrow> inv (clear b)"
    and inv_append: "inv b \<Longrightarrow> inv (append s b)"
    and inv_push_back: "inv b \<Longrightarrow> inv (push_back c b)"
    and view_clear: "inv b \<Longrightarrow> view (clear b) = []"
    and view_append: "inv b \<Longrightarrow> view (append s b) = view b @ s"
    and view_push_back: "inv b \<Longrightarrow> view (push_back c b) = view b @ [c]"
begin

lemma fold_append:
  "inv b \<Longrightarrow> inv (fold append ss b) \<and> view (fold append ss b) = view b @ concat ss"
  by (induction ss arbitrary: b) (auto simp: inv_append view_append)

text \<open>A line assembled from pieces after \<open>clear\<close> is exactly their concatenation: nothing
  of an earlier message survives in the reused buffer.\<close>

lemma line_after_clear:
  assumes "inv b"
  shows "view (push_back c (append p (append h (clear b)))) = h @ p @ [c]"
  using assms
  by (simp add: inv_clear inv_append view_clear view_append view_push_back)

end

interpretation sb: byte_buffer "sb_inv n" sb_view sb_clear "sb_append n" "sb_push_back n" for n
  by unfold_locales
    (simp_all add: sb_inv_clear sb_inv_append sb_inv_push_back sb_view_clear sb_view_append
      sb_view_push_back)

section \<open>\<open>log_msg\<close>\<close>

text \<open>Time is the clock's count of nanoseconds since the epoch.\<close>

record log_msg =
  m_time :: int
  m_logger_name :: string
  m_log_level :: level
  m_formatted :: string
  m_payload :: string
  m_level_offset :: nat

definition mk_log_msg :: "int \<Rightarrow> string \<Rightarrow> level \<Rightarrow> string \<Rightarrow> string \<Rightarrow> nat \<Rightarrow> log_msg" where
  "mk_log_msg log_time name lvl line raw lvl_offset =
     \<lparr>m_time = log_time, m_logger_name = name, m_log_level = lvl, m_formatted = line,
      m_payload = raw, m_level_offset = lvl_offset\<rparr>"

end
