(* ===== verification/Stdio.thy ===== *)
theory Stdio
  imports Prelude
begin

text \<open>
  The part of \<open><cstdio>\<close> and \<open><filesystem>\<close> the sinks use, as a world that is passed
  through: a file system, a table of open streams and the terminals.  Every call that may
  fail asks \<open>w_oracle\<close>, indexed by the number of such calls so far, so a theorem about an
  arbitrary world covers every pattern of failures.
\<close>

section \<open>Exceptions\<close>

datatype exn =
    Runtime_error string
  | Invalid_argument string
  | Filesystem_error string
  | Format_error string

section \<open>Paths\<close>

text \<open>
  \<open>std::filesystem::path\<close> on POSIX: a string cut at \<open>'/'\<close>.
\<close>

definition slash :: char where
  "slash = CHR ''/''"

definition dot :: char where
  "dot = CHR ''.''"

definition path_filename :: "string \<Rightarrow> string" where
  "path_filename p = rev (takeWhile (\<lambda>c. c \<noteq> slash) (rev p))"

definition path_parent :: "string \<Rightarrow> string" where
  "path_parent p =
     (let d = rev (dropWhile (\<lambda>c. c \<noteq> slash) (rev p));
          d' = rev (dropWhile (\<lambda>c. c = slash) (rev d))
      in if d' = [] then take 1 d else d')"

text \<open>\<open>operator/\<close> with a relative right operand.\<close>

definition path_join :: "string \<Rightarrow> string \<Rightarrow> string" where
  "path_join d n = (if d = [] then n else if last d = slash then d @ n else d @ [slash] @ n)"

text \<open>Stem and extension of a file name: cut at the last dot, unless that is the first
  character or the name is \<open>.\<close> or \<open>..\<close>.\<close>

definition name_stem_len :: "string \<Rightarrow> nat" where
  "name_stem_len n =
     (let k = length n - 1 - length (takeWhile (\<lambda>c. c \<noteq> dot) (rev n))
      in if n = [dot] \<or> n = [dot, dot] \<or> dot \<notin> set n \<or> k = 0 then length n else k)"

definition path_stem :: "string \<Rightarrow> string" where
  "path_stem p = take (name_stem_len (path_filename p)) (path_filename p)"

definition path_extension :: "string \<Rightarrow> string" where
  "path_extension p = drop (name_stem_len (path_filename p)) (path_filename p)"

lemma stem_ext_append: "path_stem p @ path_extension p = path_filename p"
  by (simp add: path_stem_def path_extension_def)

lemma path_filename_no_slash:
  assumes "slash \<notin> set p"
  shows "path_filename p = p"
proof -
  have "\<forall>x\<in>set (rev p). x \<noteq> slash" using assms by auto
  then have "takeWhile (\<lambda>c. c \<noteq> slash) (rev p) = rev p"
    by (simp only: takeWhile_eq_all_conv)
  then show ?thesis unfolding path_filename_def by (simp only: rev_rev_ident)
qed

lemma slash_not_in_filename: "slash \<notin> set (path_filename p)"
  by (auto simp: path_filename_def dest: set_takeWhileD)

lemma path_filename_join:
  assumes "slash \<notin> set n"
  shows "path_filename (path_join d n) = n"
proof -
  have n: "takeWhile (\<lambda>c. c \<noteq> slash) (rev n @ slash # xs) = rev n" for xs
    using assms by (subst takeWhile_append2) auto
  have all: "takeWhile (\<lambda>c. c \<noteq> slash) (rev n) = rev n"
    using assms by (subst takeWhile_eq_all_conv) auto
  show ?thesis
  proof (cases "d = [] \<or> last d \<noteq> slash")
    case True
    then show ?thesis by (auto simp: path_join_def path_filename_def n all)
  next
    case False
    then obtain d' where "d = d' @ [slash]" by (cases d rule: rev_cases) auto
    then show ?thesis by (simp add: path_join_def path_filename_def n)
  qed
qed

text \<open>The shape of a name with a stem and an extension.\<close>

lemma name_stem_len_append:
  assumes "s \<noteq> []" and "dot \<notin> set e" and "e \<noteq> [] \<or> s \<noteq> [dot]"
  shows "name_stem_len (s @ dot # e) = length s"
proof -
  have "takeWhile (\<lambda>c. c \<noteq> dot) (rev e @ dot # rev s) = rev e"
    using assms(2) by (subst takeWhile_append2) auto
  then show ?thesis
    using assms by (auto simp: name_stem_len_def Let_def append_eq_Cons_conv)
qed

lemma path_extension_cases:
  "path_extension p = [] \<or> (\<exists>e. path_extension p = dot # e \<and> dot \<notin> set e)"
proof (cases "path_extension p = []")
  case False
  define n where "n = path_filename p"
  define k where "k = length n - 1 - length (takeWhile (\<lambda>c. c \<noteq> dot) (rev n))"
  from False have ext: "dot \<in> set n" "name_stem_len n = k"
    by (auto simp: path_extension_def n_def[symmetric] name_stem_len_def k_def Let_def split: if_splits)
  then have "dot \<in> set (rev n)" by simp
  then obtain a b where ab: "rev n = a @ dot # b" "dot \<notin> set a"
    by (meson split_list_first)
  then have "takeWhile (\<lambda>c. c \<noteq> dot) (rev n) = a" by (subst ab(1), subst takeWhile_append2) auto
  moreover have "n = rev b @ dot # rev a" using ab(1) by (metis append.assoc append_Cons append_Nil rev_append rev_rev_ident rev_singleton_conv rev.simps(2))
  ultimately have "drop k n = dot # rev a" by (simp add: k_def)
  with ab(2) ext show ?thesis by (auto simp: path_extension_def n_def[symmetric])
qed simp

section \<open>The file system\<close>

text \<open>
  A directory entry is found under its directory and name, the empty parent path being the
  current directory.  The list order is the order a directory iterator visits.
\<close>

type_synonym fs_key = "string \<times> string"

datatype node = Regular string | Symlink fs_key | Directory

definition fs_dir :: "string \<Rightarrow> string" where
  "fs_dir d = (if d = [] then [dot] else d)"

definition fs_key :: "string \<Rightarrow> fs_key" where
  "fs_key p = (fs_dir (path_parent p), path_filename p)"

datatype target = Tty nat | Disk fs_key

record stream =
  st_target :: target
  st_buf :: string

record world =
  w_fs :: "(fs_key \<times> node) list"
  w_streams :: "(nat \<times> stream) list"
  w_tty :: "nat \<Rightarrow> string"
  w_isatty :: "nat \<Rightarrow> bool"
  w_next :: nat
  w_oracle :: "nat \<Rightarrow> bool"
  w_short :: "nat \<Rightarrow> nat"
  w_tick :: nat

definition stdout_h :: nat where "stdout_h = 1"

definition stderr_h :: nat where "stderr_h = 2"

text \<open>Does this call succeed?\<close>

definition ask :: "world \<Rightarrow> bool \<times> world" where
  "ask w = (w_oracle w (w_tick w), w\<lparr>w_tick := w_tick w + 1\<rparr>)"

definition fs_get :: "world \<Rightarrow> fs_key \<Rightarrow> node option" where
  "fs_get w k = map_of (w_fs w) k"

definition fs_put :: "fs_key \<Rightarrow> node \<Rightarrow> world \<Rightarrow> world" where
  "fs_put k n w = w\<lparr>w_fs := AList.update k n (w_fs w)\<rparr>"

definition fs_del :: "fs_key \<Rightarrow> world \<Rightarrow> world" where
  "fs_del k w = w\<lparr>w_fs := AList.delete k (w_fs w)\<rparr>"

definition resolve :: "world \<Rightarrow> fs_key \<Rightarrow> fs_key" where
  "resolve w k = (case fs_get w k of Some (Symlink k') \<Rightarrow> k' | _ \<Rightarrow> k)"

definition is_directory :: "world \<Rightarrow> string \<Rightarrow> bool" where
  "is_directory w d \<longleftrightarrow> d = [dot] \<or> d = [slash] \<or> fs_get w (fs_key d) = Some Directory"

definition fs_exists :: "string \<Rightarrow> world \<Rightarrow> bool" where
  "fs_exists p w \<longleftrightarrow> is_directory w p \<or> fs_get w (fs_key p) \<noteq> None"

text \<open>\<open>std::filesystem::create_directories\<close>: every missing ancestor, outermost first.\<close>

definition ancestors :: "string \<Rightarrow> string list" where
  "ancestors p = map (\<lambda>i. take i p) (filter (\<lambda>i. 0 < i \<and> p ! i = slash) [0..<length p]) @ [p]"

fun make_dirs :: "string list \<Rightarrow> world \<Rightarrow> (exn + unit) \<times> world" where
  "make_dirs [] w = (Inr (), w)"
| "make_dirs (d # ds) w =
     (if is_directory w d then make_dirs ds w
      else let (ok, w) = ask w
           in if ok \<and> fs_get w (fs_key d) = None then make_dirs ds (fs_put (fs_key d) Directory w)
              else (Inl (Filesystem_error d), w))"

definition create_directories :: "string \<Rightarrow> world \<Rightarrow> (exn + unit) \<times> world" where
  "create_directories p w = make_dirs (ancestors p) w"

text \<open>
  \<open>std::fopen\<close> in mode \<open>wb\<close> (truncate) or \<open>ab\<close>: the handle, or null.  It fails for a
  directory, for a link to a link, or when the directory is missing.
\<close>

definition regular_at :: "world \<Rightarrow> fs_key \<Rightarrow> string" where
  "regular_at w k = (case fs_get w k of Some (Regular s) \<Rightarrow> s | _ \<Rightarrow> [])"

definition openable :: "world \<Rightarrow> fs_key \<Rightarrow> bool" where
  "openable w k \<longleftrightarrow> is_directory w (fst k) \<and> snd k \<noteq> [] \<and>
     (case fs_get w k of None \<Rightarrow> True | Some (Regular s) \<Rightarrow> True | _ \<Rightarrow> False)"

definition fopen :: "string \<Rightarrow> bool \<Rightarrow> world \<Rightarrow> nat option \<times> world" where
  "fopen p trunc w =
     (let (ok, w) = ask w; k = resolve w (fs_key p); h = w_next w
      in if \<not> ok \<or> \<not> openable w k then (None, w)
         else (Some h, (fs_put k (Regular (if trunc then [] else regular_at w k)) w)
                 \<lparr>w_streams := AList.update h \<lparr>st_target = Disk k, st_buf = []\<rparr> (w_streams w),
                  w_next := h + 1\<rparr>))"

text \<open>
  Draining a stream's buffer.  The C library may do it earlier than the program asks; what a
  stream has accepted is always the target's content followed by the buffer.
\<close>

definition drain :: "nat \<Rightarrow> world \<Rightarrow> world" where
  "drain h w =
     (case map_of (w_streams w) h of
        None \<Rightarrow> w
      | Some s \<Rightarrow>
          let w' = w\<lparr>w_streams := AList.update h (s\<lparr>st_buf := []\<rparr>) (w_streams w)\<rparr>
          in case st_target s of
               Tty n \<Rightarrow> w'\<lparr>w_tty := (w_tty w)(n := w_tty w n @ st_buf s)\<rparr>
             | Disk k \<Rightarrow> (case fs_get w k of
                           Some (Regular c) \<Rightarrow> fs_put k (Regular (c @ st_buf s)) w'
                         | _ \<Rightarrow> w'))"

text \<open>\<open>std::fflush\<close>; the sinks ignore its result.  A failing flush leaves the buffer.\<close>

definition fflush :: "nat \<Rightarrow> world \<Rightarrow> world" where
  "fflush h w = (let (ok, w) = ask w in if ok then drain h w else w)"

text \<open>\<open>std::fclose\<close>: drain, then give up the stream; a failing drain loses the buffer.\<close>

definition fclose :: "nat \<Rightarrow> world \<Rightarrow> world" where
  "fclose h w =
     (let (ok, w) = ask w; w = (if ok then drain h w else w)
      in w\<lparr>w_streams := AList.delete h (w_streams w)\<rparr>)"

text \<open>\<open>fwrite\<close>: all the bytes, or on failure a strictly shorter prefix.  The result is the
  number of bytes accepted.\<close>

definition fwrite :: "string \<Rightarrow> nat \<Rightarrow> world \<Rightarrow> nat \<times> world" where
  "fwrite s h w =
     (let (ok, w) = ask w;
          n = (if ok then length s else min (w_short w (w_tick w)) (length s - 1))
      in case map_of (w_streams w) h of
           None \<Rightarrow> (0, w)
         | Some st \<Rightarrow>
             (n, w\<lparr>w_streams := AList.update h (st\<lparr>st_buf := st_buf st @ take n s\<rparr>) (w_streams w)\<rparr>))"

text \<open>\<open>std::filesystem::file_size\<close>, \<open>remove\<close> and \<open>rename\<close> with an \<open>error_code\<close>; the
  Boolean of the last two says that no error was reported.\<close>

definition file_size :: "string \<Rightarrow> world \<Rightarrow> nat option \<times> world" where
  "file_size p w =
     (let (ok, w) = ask w
      in (case fs_get w (resolve w (fs_key p)) of
            Some (Regular s) \<Rightarrow> if ok then Some (length s) else None
          | _ \<Rightarrow> None, w))"

definition fs_remove :: "string \<Rightarrow> world \<Rightarrow> bool \<times> world" where
  "fs_remove p w =
     (let (ok, w) = ask w
      in case fs_get w (fs_key p) of
           None \<Rightarrow> (True, w)
         | Some n \<Rightarrow>
             if ok \<and> (n = Directory \<longrightarrow> list_all (\<lambda>e. fst (fst e) \<noteq> p) (w_fs w))
             then (True, fs_del (fs_key p) w) else (False, w))"

definition fs_rename :: "string \<Rightarrow> string \<Rightarrow> world \<Rightarrow> bool \<times> world" where
  "fs_rename src dst w =
     (let (ok, w) = ask w
      in case fs_get w (fs_key src) of
           None \<Rightarrow> (False, w)
         | Some n \<Rightarrow>
             if \<not> ok \<or> n = Directory \<or> fs_get w (fs_key dst) = Some Directory then (False, w)
             else if fs_key src = fs_key dst then (True, w)
             else (True, fs_put (fs_key dst) n (fs_del (fs_key src) w)))"

text \<open>\<open>directory_iterator\<close>: the entries of a directory, in the order of the file system.\<close>

definition dir_entries :: "world \<Rightarrow> string \<Rightarrow> (string \<times> node) list" where
  "dir_entries w d = map (\<lambda>e. (snd (fst e), snd e)) (filter (\<lambda>e. fst (fst e) = d) (w_fs w))"

section \<open>Lemmas\<close>

lemma fs_get_put [simp]: "fs_get (fs_put k n w) k' = (if k' = k then Some n else fs_get w k')"
  by (simp add: fs_get_def fs_put_def update_conv)

lemma fs_get_del [simp]: "fs_get (fs_del k w) k' = (if k' = k then None else fs_get w k')"
  by (simp add: fs_get_def fs_del_def delete_conv)

lemma world_frame [simp]:
  "fs_get (w\<lparr>w_tick := t\<rparr>) k = fs_get w k" "fs_get (w\<lparr>w_streams := ss\<rparr>) k = fs_get w k"
  "fs_get (w\<lparr>w_next := m\<rparr>) k = fs_get w k" "fs_get (w\<lparr>w_tty := tt\<rparr>) k = fs_get w k"
  "w_streams (fs_put k n w) = w_streams w" "w_streams (fs_del k w) = w_streams w"
  "w_next (fs_put k n w) = w_next w" "w_next (fs_del k w) = w_next w"
  "w_oracle (fs_put k n w) = w_oracle w" "w_oracle (fs_del k w) = w_oracle w"
  "w_tty (fs_put k n w) = w_tty w" "w_tty (fs_del k w) = w_tty w"
  "w_tick (fs_put k n w) = w_tick w" "w_tick (fs_del k w) = w_tick w"
  by (simp_all add: fs_get_def fs_put_def fs_del_def)

lemma snd_ask [simp]: "snd (ask w) = w\<lparr>w_tick := w_tick w + 1\<rparr>"
  by (simp add: ask_def)

text \<open>What a stream's target holds once the stream is drained.\<close>

definition target_content :: "world \<Rightarrow> target \<Rightarrow> string" where
  "target_content w t =
     (case t of Tty n \<Rightarrow> w_tty w n
      | Disk k \<Rightarrow> (case fs_get w k of Some (Regular s) \<Rightarrow> s | _ \<Rightarrow> []))"

definition stream_content :: "world \<Rightarrow> nat \<Rightarrow> string option" where
  "stream_content w h =
     map_option (\<lambda>s. target_content w (st_target s) @ st_buf s) (map_of (w_streams w) h)"

lemma target_content_simps [simp]:
  "target_content w (Tty n) = w_tty w n"
  "fs_get w k = Some (Regular s) \<Longrightarrow> target_content w (Disk k) = s"
  by (simp_all add: target_content_def)

text \<open>A stream that is open on a terminal or on an existing regular file.\<close>

fun target_open :: "world \<Rightarrow> target \<Rightarrow> bool" where
  "target_open w (Tty n) = True"
| "target_open w (Disk k) = (case fs_get w k of Some (Regular c) \<Rightarrow> True | _ \<Rightarrow> False)"

definition stream_open :: "world \<Rightarrow> nat \<Rightarrow> bool" where
  "stream_open w h \<longleftrightarrow>
     (case map_of (w_streams w) h of None \<Rightarrow> False | Some s \<Rightarrow> target_open w (st_target s))"

lemma target_open_Disk: "target_open w (Disk k) \<longleftrightarrow> (\<exists>c. fs_get w k = Some (Regular c))"
  by (auto split: option.splits node.splits)

lemma stream_openE:
  assumes "stream_open w h"
  obtains s where "map_of (w_streams w) h = Some s" "target_open w (st_target s)"
  using assms by (auto simp: stream_open_def split: option.splits)

lemma target_frame [simp]:
  "target_content (w\<lparr>w_tick := t\<rparr>) g = target_content w g"
  "target_content (w\<lparr>w_streams := ss\<rparr>) g = target_content w g"
  "target_open (w\<lparr>w_tick := t\<rparr>) g = target_open w g"
  "target_open (w\<lparr>w_streams := ss\<rparr>) g = target_open w g"
  by (cases g; simp add: target_content_def)+

lemma ask_content [simp]:
  "stream_content (w\<lparr>w_tick := t\<rparr>) h = stream_content w h"
  "stream_open (w\<lparr>w_tick := t\<rparr>) h = stream_open w h"
  by (simp_all add: stream_content_def stream_open_def split: option.split)

lemma drain_eq:
  assumes "map_of (w_streams w) h = Some s" "target_open w (st_target s)"
  shows "stream_content (drain h w) h = Some (target_content w (st_target s) @ st_buf s)"
    "stream_open (drain h w) h"
proof -
  have "stream_content (drain h w) h = Some (target_content w (st_target s) @ st_buf s) \<and>
    stream_open (drain h w) h"
  proof (cases "st_target s")
    case (Tty n)
    with assms show ?thesis
      by (simp add: drain_def stream_content_def stream_open_def update_conv Let_def)
  next
    case (Disk k)
    then obtain c where "fs_get w k = Some (Regular c)"
      using assms(2) by (auto simp: target_open_Disk simp del: target_open.simps)
    with assms Disk show ?thesis
      by (simp add: drain_def stream_content_def stream_open_def update_conv Let_def)
  qed
  then show "stream_content (drain h w) h = Some (target_content w (st_target s) @ st_buf s)"
    "stream_open (drain h w) h" by auto
qed

lemma drain_content: "stream_open w h \<Longrightarrow> stream_content (drain h w) h = stream_content w h"
  by (erule stream_openE, subst drain_eq(1)) (simp_all add: stream_content_def)

lemma drain_open: "stream_open w h \<Longrightarrow> stream_open (drain h w) h"
  by (erule stream_openE) (simp add: drain_eq)

text \<open>Flushing never changes what the stream has accepted, whether it succeeds or not.\<close>

lemma fflush_content:
  "stream_open w h \<Longrightarrow> stream_content (fflush h w) h = stream_content w h"
  by (simp add: fflush_def ask_def drain_content)

lemma fflush_open: "stream_open w h \<Longrightarrow> stream_open (fflush h w) h"
  by (simp add: fflush_def ask_def drain_open)

lemma fwrite_content:
  assumes "stream_open w h" and "fwrite s h w = (n, w')"
  shows "stream_content w' h = map_option (\<lambda>c. c @ take n s) (stream_content w h)"
    and "stream_open w' h" and "n \<le> length s" and "n = length s \<longleftrightarrow> w_oracle w (w_tick w) \<or> s = []"
proof -
  obtain st where st: "map_of (w_streams w) h = Some st" "target_open w (st_target st)"
    using assms(1) by (rule stream_openE)
  define m where "m = (if w_oracle w (w_tick w) then length s
    else min (w_short w (Suc (w_tick w))) (length s - 1))"
  have "(n, w') = (m, w\<lparr>w_tick := w_tick w + 1,
      w_streams := AList.update h (st\<lparr>st_buf := st_buf st @ take m s\<rparr>) (w_streams w)\<rparr>)"
    using assms(2) st by (cases "w_oracle w (w_tick w)") (auto simp: fwrite_def ask_def m_def Let_def)
  then have n: "n = m" and w': "w' = w\<lparr>w_tick := w_tick w + 1,
      w_streams := AList.update h (st\<lparr>st_buf := st_buf st @ take m s\<rparr>) (w_streams w)\<rparr>" by simp_all
  show "stream_content w' h = map_option (\<lambda>c. c @ take n s) (stream_content w h)"
    "stream_open w' h"
    using st by (simp_all add: w' n stream_content_def stream_open_def update_conv)
  show "n \<le> length s" "n = length s \<longleftrightarrow> w_oracle w (w_tick w) \<or> s = []"
    by (cases s; auto simp: n m_def)+
qed

section \<open>Paths beside a given path\<close>

lemma path_parent_shape: "path_parent p = [] \<or> path_parent p = [slash] \<or> last (path_parent p) \<noteq> slash"
proof -
  define d where "d = rev (dropWhile (\<lambda>c. c \<noteq> slash) (rev p))"
  define d' where "d' = rev (dropWhile (\<lambda>c. c = slash) (rev d))"
  have p: "path_parent p = (if d' = [] then take 1 d else d')"
    unfolding path_parent_def d_def d'_def Let_def by (rule refl)
  show ?thesis
  proof (cases "d' = []")
    case True
    then have "\<forall>c \<in> set d. c = slash" by (simp add: d'_def)
    with True p show ?thesis by (cases d) auto
  next
    case False
    then have ne: "dropWhile (\<lambda>c. c = slash) (rev d) \<noteq> []" by (simp add: d'_def)
    have "last d' = hd (dropWhile (\<lambda>c. c = slash) (rev d))" by (simp add: d'_def last_rev)
    moreover have "hd (dropWhile (\<lambda>c. c = slash) (rev d)) \<noteq> slash" using ne by (rule hd_dropWhile)
    ultimately show ?thesis using p False by simp
  qed
qed

lemma path_parent_join:
  assumes n: "slash \<notin> set n" and d: "d \<noteq> []" "d = [slash] \<or> last d \<noteq> slash"
  shows "path_parent (path_join d n) = d"
proof -
  have dw: "dropWhile (\<lambda>c. c \<noteq> slash) (rev n @ slash # xs) = slash # xs" for xs
    using n by (subst dropWhile_append2) auto
  show ?thesis
  proof (cases "last d = slash")
    case True
    with d have "d = [slash]" by simp
    then show ?thesis by (simp add: path_parent_def path_join_def dw)
  next
    case False
    then obtain y ys where "rev d = y # ys" "y \<noteq> slash" using d(1)
      by (cases d rule: rev_cases) auto
    moreover then have "d = rev ys @ [y]" by (metis rev.simps(2) rev_rev_ident)
    ultimately show ?thesis using False d(1) by (simp add: path_parent_def path_join_def dw)
  qed
qed

lemma fs_key_beside:
  assumes "slash \<notin> set n"
  shows "fs_key (path_join (path_parent p) n) = (fs_dir (path_parent p), n)"
proof (cases "path_parent p = []")
  case True
  have "dropWhile (\<lambda>c. c \<noteq> slash) (rev n) = []" using assms by auto
  then have "path_parent n = []" by (simp only: path_parent_def Let_def) simp
  with True show ?thesis
    by (simp add: fs_key_def path_join_def path_filename_no_slash[OF assms])
next
  case False
  with path_parent_shape[of p] show ?thesis
    by (simp add: fs_key_def path_filename_join[OF assms] path_parent_join[OF assms])
qed

end
