(* ===== verification/Fmt_Buffer.thy ===== *)
theory Fmt_Buffer
  imports Common
begin

text \<open>
  The output buffers of the bundled fmt library: class \<open>buffer\<close> of \<open>fmt/base.h\<close> and the
  classes derived from it.  A derived class extends the record of its base, and the function
  pointer \<open>grow_\<close> set by its constructor is an argument of the base operations.
\<close>

section \<open>\<open>buffer<T>\<close>\<close>

text \<open>\<open>b_data\<close> is the memory \<open>ptr_\<close> points to, \<open>capacity_\<close> elements of which the
  first \<open>size_\<close> are in use.\<close>

record buffer =
  b_data :: string
  b_size :: nat
  b_cap :: nat

definition buf_set :: "string \<Rightarrow> nat \<Rightarrow> 'a buffer_scheme \<Rightarrow> 'a buffer_scheme" where
  "buf_set data cap b = b\<lparr>b_data := data, b_cap := cap\<rparr>"

definition buf_clear :: "'a buffer_scheme \<Rightarrow> 'a buffer_scheme" where
  "buf_clear b = b\<lparr>b_size := 0\<rparr>"

definition try_reserve ::
    "('a buffer_scheme \<Rightarrow> nat \<Rightarrow> 'a buffer_scheme) \<Rightarrow> nat \<Rightarrow> 'a buffer_scheme \<Rightarrow> 'a buffer_scheme" where
  "try_reserve grow new_capacity b = (if new_capacity > b_cap b then grow b new_capacity else b)"

definition try_resize ::
    "('a buffer_scheme \<Rightarrow> nat \<Rightarrow> 'a buffer_scheme) \<Rightarrow> nat \<Rightarrow> 'a buffer_scheme \<Rightarrow> 'a buffer_scheme" where
  "try_resize grow count b =
     (let b' = try_reserve grow count b in b'\<lparr>b_size := min count (b_cap b')\<rparr>)"

definition buf_push_back ::
    "('a buffer_scheme \<Rightarrow> nat \<Rightarrow> 'a buffer_scheme) \<Rightarrow> char \<Rightarrow> 'a buffer_scheme \<Rightarrow> 'a buffer_scheme" where
  "buf_push_back grow c b =
     (let b' = try_reserve grow (b_size b + 1) b
      in b'\<lparr>b_data := (b_data b')[b_size b' := c], b_size := b_size b' + 1\<rparr>)"

text \<open>The store of \<open>count\<close> elements behind the used ones, and \<open>size_ += count\<close>.\<close>

definition buf_put :: "string \<Rightarrow> 'a buffer_scheme \<Rightarrow> 'a buffer_scheme" where
  "buf_put s b = b\<lparr>b_data := patch (b_size b) s (b_data b), b_size := b_size b + length s\<rparr>"

text \<open>The \<open>append\<close> loop.  Nothing in this class makes it stop (that depends on what
  \<open>grow\<close> does), so not returning is \<open>None\<close>.\<close>

partial_function (option) buf_append ::
    "('a buffer_scheme \<Rightarrow> nat \<Rightarrow> 'a buffer_scheme) \<Rightarrow> string \<Rightarrow> 'a buffer_scheme \<Rightarrow>
     'a buffer_scheme option" where
  "buf_append grow s b =
     (if s = [] then Some b
      else let count = length s;
               b' = (if b_cap b - b_size b < count then grow b (b_size b + count) else b);
               count' = min count (b_cap b' - b_size b')
           in buf_append grow (drop count' s) (buf_put (take count' s) b'))"

section \<open>The contract of \<open>grow\<close>\<close>

text \<open>
  \<open>grow\<close> may add less room than asked for, or flush the buffer instead, but leaves room for
  one element.  \<open>out\<close> is what has reached the buffer's destination in total and \<open>snoc\<close> how
  a piece of text changes it: appending for a buffer that keeps everything, counting for one
  that only counts, cutting at a limit for one that truncates.
\<close>

locale growing =
  fixes grow :: "'a buffer_scheme \<Rightarrow> nat \<Rightarrow> 'a buffer_scheme"
    and inv :: "'a buffer_scheme \<Rightarrow> bool"
    and out :: "'a buffer_scheme \<Rightarrow> 'o"
    and snoc :: "'o \<Rightarrow> string \<Rightarrow> 'o"
  assumes room: "inv b \<Longrightarrow> b_size b \<le> b_cap b"
    and data_len: "inv b \<Longrightarrow> length (b_data b) = b_cap b"
    and grow_inv: "inv b \<Longrightarrow> n > b_cap b \<Longrightarrow> inv (grow b n)"
    and grow_room: "inv b \<Longrightarrow> n > b_cap b \<Longrightarrow> b_size (grow b n) < b_cap (grow b n)"
    and grow_out: "inv b \<Longrightarrow> n > b_cap b \<Longrightarrow> out (grow b n) = out b"
    and put_inv: "inv b \<Longrightarrow> b_size b + length s \<le> b_cap b \<Longrightarrow> inv (buf_put s b)"
    and put_out: "inv b \<Longrightarrow> b_size b + length s \<le> b_cap b \<Longrightarrow> out (buf_put s b) = snoc (out b) s"
    and snoc_Nil: "snoc p [] = p"
    and snoc_append: "snoc (snoc p s) t = snoc p (s @ t)"
begin

lemma append_total:
  "inv b \<Longrightarrow> \<exists>b'. buf_append grow s b = Some b' \<and> inv b' \<and> out b' = snoc (out b) s"
proof (induction "length s" arbitrary: s b rule: less_induct)
  case less
  show ?case
  proof (cases "s = []")
    case True
    with less.prems show ?thesis by (simp add: buf_append.simps snoc_Nil)
  next
    case False
    define b1 where "b1 = (if b_cap b - b_size b < length s then grow b (b_size b + length s) else b)"
    define k where "k = min (length s) (b_cap b1 - b_size b1)"
    have over: "b_cap b - b_size b < length s \<Longrightarrow> b_size b + length s > b_cap b" by simp
    have b1: "inv b1" "out b1 = out b"
      using less.prems over by (auto simp: b1_def grow_inv grow_out)
    have "0 < b_cap b1 - b_size b1"
    proof (cases "b_cap b - b_size b < length s")
      case True
      with less.prems over grow_room[of b "b_size b + length s"] show ?thesis by (simp add: b1_def)
    next
      case False
      moreover have "0 < length s" using \<open>s \<noteq> []\<close> by simp
      ultimately have "b_size b < b_cap b" by linarith
      with \<open>\<not> b_cap b - b_size b < length s\<close> show ?thesis by (simp add: b1_def)
    qed
    then have k: "0 < k" "k \<le> length s" "b_size b1 + k \<le> b_cap b1"
      using False by (auto simp: k_def)
    have put: "inv (buf_put (take k s) b1)" "out (buf_put (take k s) b1) = snoc (out b) (take k s)"
      using b1 k put_inv[of b1 "take k s"] put_out[of b1 "take k s"] by simp_all
    have "length (drop k s) < length s" using k False by simp
    from less.hyps[OF this put(1)] obtain b' where
      b': "buf_append grow (drop k s) (buf_put (take k s) b1) = Some b'" "inv b'"
      "out b' = snoc (out b) s"
      using put(2) by (auto simp: snoc_append)
    have "buf_append grow s b = buf_append grow (drop k s) (buf_put (take k s) b1)"
      by (subst buf_append.simps) (simp add: False Let_def b1_def k_def)
    with b' show ?thesis by simp
  qed
qed

lemma push_back_correct:
  assumes "inv b"
  shows "inv (buf_push_back grow c b) \<and> out (buf_push_back grow c b) = snoc (out b) [c]"
proof -
  define b1 where "b1 = try_reserve grow (b_size b + 1) b"
  have b1: "inv b1" "out b1 = out b" "b_size b1 < b_cap b1"
    using assms room[of b] grow_room[of b "b_size b + 1"]
    by (auto simp: b1_def try_reserve_def grow_inv grow_out)
  have "buf_push_back grow c b = b1\<lparr>b_data := (b_data b1)[b_size b1 := c], b_size := b_size b1 + 1\<rparr>"
    by (simp add: buf_push_back_def b1_def Let_def)
  moreover have "buf_put [c] b1 = b1\<lparr>b_data := patch (b_size b1) [c] (b_data b1),
      b_size := b_size b1 + 1\<rparr>" by (simp add: buf_put_def)
  moreover have "inv (buf_put [c] b1)" "out (buf_put [c] b1) = snoc (out b) [c]"
    using b1 put_inv[of b1 "[c]"] put_out[of b1 "[c]"] by simp_all
  moreover have "(b_data b1)[b_size b1 := c] = patch (b_size b1) [c] (b_data b1)"
    if "b_size b1 < length (b_data b1)" using that by (rule list_update_patch)
  ultimately show ?thesis
    using b1 data_len[of b1] by auto
qed

end

section \<open>\<open>basic_memory_buffer\<close>\<close>

text \<open>
  \<open>SIZE\<close> bytes inside the object, then heap blocks.  \<open>mb_inline\<close> says that \<open>ptr_\<close> is the
  array \<open>store_\<close>.  A fresh block's bytes are unspecified (zero here) and never read before
  they are written.  Allocation is taken to succeed.
\<close>

record membuf = buffer +
  mb_inline :: bool

text \<open>\<open>std::allocator_traits<Allocator>::max_size\<close> for \<open>char\<close>.\<close>

definition max_alloc_size :: nat where
  "max_alloc_size = 2 ^ 64 - 1"

definition new_capacity :: "nat \<Rightarrow> nat \<Rightarrow> nat" where
  "new_capacity old_capacity sz =
     (let n = old_capacity + old_capacity div 2
      in if sz > n then sz
         else if n > max_alloc_size then max sz max_alloc_size else n)"

definition mb_grow :: "membuf \<Rightarrow> nat \<Rightarrow> membuf" where
  "mb_grow b sz =
     (let n = new_capacity (b_cap b) sz;
          new_data = patch 0 (take (b_size b) (b_data b)) (replicate n (CHR 0x00))
      in (buf_set new_data n b)\<lparr>mb_inline := False\<rparr>)"

definition mb_new :: "nat \<Rightarrow> membuf" where
  "mb_new SIZE = \<lparr>b_data = replicate SIZE (CHR 0x00), b_size = 0, b_cap = SIZE, mb_inline = True\<rparr>"

definition mb_append :: "string \<Rightarrow> membuf \<Rightarrow> membuf option" where
  "mb_append s b = buf_append mb_grow s b"

definition mb_push_back :: "char \<Rightarrow> membuf \<Rightarrow> membuf" where
  "mb_push_back c b = buf_push_back mb_grow c b"

definition mb_resize :: "nat \<Rightarrow> membuf \<Rightarrow> membuf" where
  "mb_resize count b = try_resize mb_grow count b"

definition mb_reserve :: "nat \<Rightarrow> membuf \<Rightarrow> membuf" where
  "mb_reserve n b = try_reserve mb_grow n b"

definition mb_view :: "membuf \<Rightarrow> string" where
  "mb_view b = take (b_size b) (b_data b)"

text \<open>
  The move constructor, and \<open>move\<close>: the stateless allocator moves trivially
  (\<open>move_alloc\<close> is true), inline bytes are copied, a heap block changes hands.
\<close>

definition mb_move :: "nat \<Rightarrow> membuf \<Rightarrow> membuf \<times> membuf" where
  "mb_move SIZE other =
     (let sz = b_size other; capacity = b_cap other;
          this = mb_new SIZE;
          (this, other) =
            (if mb_inline other
             then ((buf_set (patch 0 (take sz (b_data other)) (b_data this)) capacity this)
                     \<lparr>mb_inline := True\<rparr>, other)
             else ((buf_set (b_data other) capacity this)\<lparr>mb_inline := False\<rparr>,
                   buf_clear ((buf_set [] 0 other)\<lparr>mb_inline := True\<rparr>)))
      in (mb_resize sz this, other))"

definition mb_inv :: "nat \<Rightarrow> membuf \<Rightarrow> bool" where
  "mb_inv SIZE b \<longleftrightarrow> length (b_data b) = b_cap b \<and> b_size b \<le> b_cap b \<and>
     (mb_inline b \<longrightarrow> b_cap b = SIZE)"

lemma new_capacity_ge: "sz \<le> new_capacity old sz"
  by (simp add: new_capacity_def Let_def)

lemma mb_inv_new [simp]: "mb_inv n (mb_new n)"
  by (simp add: mb_inv_def mb_new_def)

lemma mb_view_new [simp]: "mb_view (mb_new n) = []"
  by (simp add: mb_view_def mb_new_def)

lemma buf_put_view:
  "length (b_data b) = b_cap b \<Longrightarrow> b_size b + length s \<le> b_cap b \<Longrightarrow>
   take (b_size (buf_put s b)) (b_data (buf_put s b)) = take (b_size b) (b_data b) @ s"
  by (simp add: buf_put_def take_patch_end)

lemma mb_grow_spec:
  assumes "mb_inv n b" and "sz > b_cap b"
  shows "mb_inv n (mb_grow b sz)" "b_size (mb_grow b sz) = b_size b"
    "b_cap (mb_grow b sz) \<ge> sz" "mb_view (mb_grow b sz) = mb_view b"
proof -
  have c: "sz \<le> new_capacity (b_cap b) sz" by (rule new_capacity_ge)
  have s: "b_size b \<le> new_capacity (b_cap b) sz" using assms c by (simp add: mb_inv_def)
  show "mb_inv n (mb_grow b sz)" "b_size (mb_grow b sz) = b_size b"
    "b_cap (mb_grow b sz) \<ge> sz" "mb_view (mb_grow b sz) = mb_view b"
    using assms c s by (simp_all add: mb_inv_def mb_grow_def buf_set_def mb_view_def Let_def patch_def)
qed

interpretation mb: growing mb_grow "mb_inv n" mb_view "(@)" for n
proof unfold_locales
  fix b :: membuf and k
  assume b: "mb_inv n b" "b_cap b < k"
  show "mb_inv n (mb_grow b k)" "mb_view (mb_grow b k) = mb_view b"
    using mb_grow_spec[OF b] by simp_all
  show "b_size (mb_grow b k) < b_cap (mb_grow b k)"
    using mb_grow_spec[OF b] b by (simp add: mb_inv_def)
next
  fix b :: membuf and s :: string
  assume b: "mb_inv n b" "b_size b + length s \<le> b_cap b"
  then show "mb_inv n (buf_put s b)" by (simp add: mb_inv_def buf_put_def)
  show "mb_view (buf_put s b) = mb_view b @ s"
    using b buf_put_view[of b s] by (simp add: mb_inv_def mb_view_def)
qed (simp_all add: mb_inv_def)

text \<open>The buffer as the logger uses it: appending always returns.\<close>

definition mb_app :: "string \<Rightarrow> membuf \<Rightarrow> membuf" where
  "mb_app s b = (case mb_append s b of Some b' \<Rightarrow> b' | None \<Rightarrow> b)"

lemma mb_append_total:
  "mb_inv n b \<Longrightarrow> \<exists>b'. mb_append s b = Some b' \<and> mb_inv n b' \<and> mb_view b' = mb_view b @ s"
  unfolding mb_append_def by (rule mb.append_total)

lemma mb_app_spec: "mb_inv n b \<Longrightarrow> mb_inv n (mb_app s b) \<and> mb_view (mb_app s b) = mb_view b @ s"
  using mb_append_total[of n b s] by (auto simp: mb_app_def)

lemma mb_clear_spec: "mb_inv n b \<Longrightarrow> mb_inv n (buf_clear b) \<and> mb_view (buf_clear b) = []"
  by (simp add: mb_inv_def buf_clear_def mb_view_def)

interpretation mbb: byte_buffer "mb_inv n" mb_view buf_clear mb_app mb_push_back for n
  by unfold_locales
    (simp_all add: mb_clear_spec mb_app_spec mb_push_back_def mb.push_back_correct)

lemma mb_size_view: "mb_inv n b \<Longrightarrow> b_size b = length (mb_view b)"
  by (simp add: mb_inv_def mb_view_def)

lemma mb_move_spec:
  assumes "mb_inv n b" and "mb_move n b = (this, other)"
  shows "mb_inv n this \<and> mb_view this = mb_view b"
  using assms
  by (auto simp: mb_inv_def mb_move_def mb_new_def mb_view_def mb_resize_def try_resize_def
      try_reserve_def buf_set_def Let_def patch_def min_def split: if_splits)

end
