(* ===== verification/Sinks.thy ===== *)
theory Sinks
  imports Stdio Fmt_Buffer
begin

text \<open>
  The plain sinks of \<open>include/spdlite/sinks/\<close>: \<open>null_sink\<close>, \<open>stdout_sink\<close> and \<open>file_sink\<close>, and the
  contract of a sink that keeps what it gets.
\<close>

section \<open>Helpers of \<open>common.h\<close>\<close>

definition fwrite_bytes :: "string \<Rightarrow> nat \<Rightarrow> world \<Rightarrow> bool \<times> world" where
  "fwrite_bytes s h w = (let (n, w') = fwrite s h w in (n = length s, w'))"

text \<open>\<open>file_closer\<close>, run when a \<open>unique_ptr\<close> holding a \<open>FILE*\<close> gives it up.\<close>

definition file_closer :: "nat option \<Rightarrow> world \<Rightarrow> world" where
  "file_closer f w = (case f of None \<Rightarrow> w | Some h \<Rightarrow> fclose h w)"

section \<open>The sink contract\<close>

text \<open>
  What a sink promises the logger: \<open>write\<close> hands the whole formatted line to the
  destination, after everything accepted before, when the system accepts it (\<open>fits\<close>), and
  \<open>flush\<close> changes nothing that was accepted.  A sink is ready while it has somewhere to write.
\<close>

locale text_sink =
  fixes ready :: "'s \<Rightarrow> world \<Rightarrow> bool"
    and accepted :: "'s \<Rightarrow> world \<Rightarrow> string"
    and render :: "'s \<Rightarrow> log_msg \<Rightarrow> string"
    and fits :: "world \<Rightarrow> bool"
    and wr :: "log_msg \<Rightarrow> 's \<Rightarrow> world \<Rightarrow> 's \<times> world"
    and fl :: "'s \<Rightarrow> world \<Rightarrow> world"
  assumes write_ready: "ready s w \<Longrightarrow> wr m s w = (s', w') \<Longrightarrow> ready s' w'"
    and write_accepted:
      "ready s w \<Longrightarrow> fits w \<Longrightarrow> wr m s w = (s', w') \<Longrightarrow> accepted s' w' = accepted s w @ render s m"
    and write_fits: "ready s w \<Longrightarrow> fits w \<Longrightarrow> wr m s w = (s', w') \<Longrightarrow> fits w'"
    and write_render: "ready s w \<Longrightarrow> wr m s w = (s', w') \<Longrightarrow> render s' = render s"
    and flush_ready: "ready s w \<Longrightarrow> ready s (fl s w)"
    and flush_accepted: "ready s w \<Longrightarrow> accepted s (fl s w) = accepted s w"
begin

fun write_many :: "log_msg list \<Rightarrow> 's \<Rightarrow> world \<Rightarrow> 's \<times> world" where
  "write_many [] s w = (s, w)"
| "write_many (m # ms) s w = (let (s', w') = wr m s w in write_many ms s' w')"

lemma write_many_accepted:
  assumes "fits w" and "ready s w" and "write_many ms s w = (s', w')"
  shows "accepted s' w' = accepted s w @ concat (map (render s) ms)"
  using assms
proof (induction ms arbitrary: s w)
  case Nil
  then show ?case by simp
next
  case (Cons m ms)
  obtain s1 w1 where 1: "wr m s w = (s1, w1)" by fastforce
  with Cons show ?case
    using write_ready[OF Cons.prems(2) 1] write_accepted[OF Cons.prems(2,1) 1]
      write_fits[OF Cons.prems(2,1) 1] write_render[OF Cons.prems(2) 1] by auto
qed

end

section \<open>\<open>null_sink\<close>\<close>

definition null_write :: "log_msg \<Rightarrow> unit \<Rightarrow> world \<Rightarrow> unit \<times> world" where
  "null_write m s w = (s, w)"

definition null_flush :: "unit \<Rightarrow> world \<Rightarrow> world" where
  "null_flush s w = w"

interpretation null_sink: text_sink "\<lambda>_ _. True" "\<lambda>_ _. []" "\<lambda>_ _. []" "\<lambda>_. True" null_write null_flush
  by unfold_locales (auto simp: null_write_def null_flush_def)

section \<open>\<open>stdout_sink\<close> and \<open>stderr_sink\<close>\<close>

record stdout_sink =
  so_file :: nat

definition mk_stdout_sink :: stdout_sink where
  "mk_stdout_sink = \<lparr>so_file = stdout_h\<rparr>"

definition mk_stderr_sink :: stdout_sink where
  "mk_stderr_sink = \<lparr>so_file = stderr_h\<rparr>"

definition stdout_write :: "log_msg \<Rightarrow> stdout_sink \<Rightarrow> world \<Rightarrow> stdout_sink \<times> world" where
  "stdout_write m s w = (s, snd (fwrite_bytes (m_formatted m) (so_file s) w))"

definition stdout_flush :: "stdout_sink \<Rightarrow> world \<Rightarrow> world" where
  "stdout_flush s w = fflush (so_file s) w"

text \<open>The next call on a stream is accepted in full.\<close>

definition next_ok :: "world \<Rightarrow> bool" where
  "next_ok w \<longleftrightarrow> w_oracle w (w_tick w)"

text \<open>From here on every call succeeds.\<close>

definition all_ok :: "world \<Rightarrow> bool" where
  "all_ok w \<longleftrightarrow> (\<forall>t \<ge> w_tick w. w_oracle w t)"

lemma all_ok_next: "all_ok w \<Longrightarrow> next_ok w"
  by (simp add: all_ok_def next_ok_def)

lemma all_ok_step: "all_ok w \<Longrightarrow> w_oracle w' = w_oracle w \<Longrightarrow> w_tick w \<le> w_tick w' \<Longrightarrow> all_ok w'"
  by (auto simp: all_ok_def)

lemma fwrite_bytes_frame:
  assumes "fwrite_bytes s h w = (ok, w')"
  shows "w_oracle w' = w_oracle w" "w_tick w' = w_tick w + 1" "w_fs w' = w_fs w" "w_next w' = w_next w"
    "\<And>h'. h' \<noteq> h \<Longrightarrow> map_of (w_streams w') h' = map_of (w_streams w) h'"
  using assms
  by (auto simp: fwrite_bytes_def fwrite_def ask_def Let_def update_conv split: prod.splits option.splits)

lemma fwrite_bytes_all_ok: "all_ok w \<Longrightarrow> fwrite_bytes s h w = (ok, w') \<Longrightarrow> all_ok w'"
  using fwrite_bytes_frame(1,2)[of s h w ok w'] all_ok_step[of w w'] by simp

definition stream_text :: "nat \<Rightarrow> world \<Rightarrow> string" where
  "stream_text h w = (case stream_content w h of Some c \<Rightarrow> c | None \<Rightarrow> [])"

lemma stream_open_content: "stream_open w h \<Longrightarrow> stream_content w h = Some (stream_text h w)"
  by (erule stream_openE) (simp add: stream_text_def stream_content_def)

lemma fwrite_bytes_text:
  assumes "stream_open w h" and "fwrite_bytes s h w = (ok, w')"
  shows "stream_open w' h" "next_ok w \<Longrightarrow> ok \<and> stream_text h w' = stream_text h w @ s"
    "ok \<Longrightarrow> stream_text h w' = stream_text h w @ s"
    "\<exists>n \<le> length s. stream_text h w' = stream_text h w @ take n s"
proof -
  obtain n where n: "fwrite s h w = (n, w')" "ok = (n = length s)"
    using assms(2) by (auto simp: fwrite_bytes_def split: prod.splits)
  note c = fwrite_content[OF assms(1) n(1)]
  show "stream_open w' h" by (rule c(2))
  have t: "stream_text h w' = stream_text h w @ take n s"
  proof -
    have "stream_content w' h = Some (stream_text h w @ take n s)"
      using c(1) unfolding stream_open_content[OF assms(1)] by simp
    then show ?thesis by (simp add: stream_text_def[of h w'])
  qed
  have ok: "next_ok w \<Longrightarrow> ok" using n(2) c(4) by (simp add: next_ok_def)
  show full: "ok \<Longrightarrow> stream_text h w' = stream_text h w @ s" using t n(2) by simp
  show "next_ok w \<Longrightarrow> ok \<and> stream_text h w' = stream_text h w @ s" using ok full by simp
  show "\<exists>n \<le> length s. stream_text h w' = stream_text h w @ take n s" using t c(3) by blast
qed

lemma fflush_text: "stream_open w h \<Longrightarrow> stream_text h (fflush h w) = stream_text h w"
  by (simp add: stream_text_def fflush_content)

interpretation stdout_sink: text_sink "\<lambda>s w. stream_open w (so_file s)" "\<lambda>s. stream_text (so_file s)"
  "\<lambda>_. m_formatted" all_ok stdout_write stdout_flush
proof unfold_locales
  fix s :: stdout_sink and w m s' w'
  assume op: "stream_open w (so_file s)" and wr: "stdout_write m s w = (s', w')"
  obtain ok where f: "fwrite_bytes (m_formatted m) (so_file s) w = (ok, w')" and s': "s' = s"
    using wr by (cases "fwrite_bytes (m_formatted m) (so_file s) w") (auto simp: stdout_write_def)
  show "stream_open w' (so_file s')" using fwrite_bytes_text[OF op f] s' by simp
  show "all_ok w \<Longrightarrow> stream_text (so_file s') w' = stream_text (so_file s) w @ m_formatted m"
    using fwrite_bytes_text[OF op f] s' all_ok_next by simp
  show "all_ok w \<Longrightarrow> all_ok w'" by (rule fwrite_bytes_all_ok[OF _ f])
qed (simp_all add: stdout_flush_def fflush_open fflush_text)

section \<open>\<open>file_sink\<close>\<close>

datatype open_mode = M_append | M_truncate

record file_sink =
  fs_file :: nat

text \<open>The constructor: the sink, or the exception it throws.\<close>

definition mk_file_sink :: "string \<Rightarrow> open_mode \<Rightarrow> world \<Rightarrow> (exn + file_sink) \<times> world" where
  "mk_file_sink filename mode w =
     (let parent = path_parent filename;
          (r, w) = (if parent \<noteq> [] then create_directories parent w else (Inr (), w))
      in case r of
           Inl e \<Rightarrow> (Inl e, w)
         | Inr _ \<Rightarrow>
             let trunc = (mode = M_truncate);
                 (fp, w) = fopen filename trunc w
             in case fp of
                  None \<Rightarrow> (Inl (Runtime_error (''spdlite: failed to open file: '' @ filename)), w)
                | Some h \<Rightarrow> (Inr \<lparr>fs_file = h\<rparr>, w))"

definition file_write :: "log_msg \<Rightarrow> file_sink \<Rightarrow> world \<Rightarrow> file_sink \<times> world" where
  "file_write m s w = (s, snd (fwrite_bytes (m_formatted m) (fs_file s) w))"

definition file_flush :: "file_sink \<Rightarrow> world \<Rightarrow> world" where
  "file_flush s w = fflush (fs_file s) w"

definition file_destroy :: "file_sink \<Rightarrow> world \<Rightarrow> world" where
  "file_destroy s w = file_closer (Some (fs_file s)) w"

interpretation file_sink: text_sink "\<lambda>s w. stream_open w (fs_file s)" "\<lambda>s. stream_text (fs_file s)"
  "\<lambda>_. m_formatted" all_ok file_write file_flush
proof unfold_locales
  fix s :: file_sink and w m s' w'
  assume op: "stream_open w (fs_file s)" and wr: "file_write m s w = (s', w')"
  obtain ok where f: "fwrite_bytes (m_formatted m) (fs_file s) w = (ok, w')" and s': "s' = s"
    using wr by (cases "fwrite_bytes (m_formatted m) (fs_file s) w") (auto simp: file_write_def)
  show "stream_open w' (fs_file s')" using fwrite_bytes_text[OF op f] s' by simp
  show "all_ok w \<Longrightarrow> stream_text (fs_file s') w' = stream_text (fs_file s) w @ m_formatted m"
    using fwrite_bytes_text[OF op f] s' all_ok_next by simp
  show "all_ok w \<Longrightarrow> all_ok w'" by (rule fwrite_bytes_all_ok[OF _ f])
qed (simp_all add: file_flush_def fflush_open fflush_text)

text \<open>\<open>fopen\<close> gives a fresh stream whose content is the file's, or nothing when truncating.\<close>

lemma fopen_Some:
  assumes "fopen p trunc w = (Some h, w')"
  defines "k \<equiv> resolve w (fs_key p)"
  shows "h = w_next w" "w_next w' = h + 1" "fs_get w' k = Some (Regular (if trunc then [] else regular_at w k))"
    "\<And>k'. k' \<noteq> k \<Longrightarrow> fs_get w' k' = fs_get w k'"
    "map_of (w_streams w') h = Some \<lparr>st_target = Disk k, st_buf = []\<rparr>"
    "\<And>h'. h' \<noteq> h \<Longrightarrow> map_of (w_streams w') h' = map_of (w_streams w) h'"
    "w_oracle w' = w_oracle w" "w_tick w' = w_tick w + 1"
proof -
  have r: "resolve (w\<lparr>w_tick := t\<rparr>) k = resolve w k" for t k by (simp add: resolve_def)
  have g: "regular_at (w\<lparr>w_tick := t\<rparr>) k = regular_at w k" for t k by (simp add: regular_at_def)
  have "h = w_next w \<and> w' = (fs_put k (Regular (if trunc then [] else regular_at w k))
      (w\<lparr>w_tick := w_tick w + 1\<rparr>))
      \<lparr>w_streams := AList.update h \<lparr>st_target = Disk k, st_buf = []\<rparr> (w_streams w), w_next := h + 1\<rparr>"
    using assms(1) by (auto simp: fopen_def ask_def Let_def k_def r g split: if_splits)
  then show "h = w_next w" "w_next w' = h + 1" "fs_get w' k = Some (Regular (if trunc then [] else regular_at w k))"
    "\<And>k'. k' \<noteq> k \<Longrightarrow> fs_get w' k' = fs_get w k'"
    "map_of (w_streams w') h = Some \<lparr>st_target = Disk k, st_buf = []\<rparr>"
    "\<And>h'. h' \<noteq> h \<Longrightarrow> map_of (w_streams w') h' = map_of (w_streams w) h'"
    "w_oracle w' = w_oracle w" "w_tick w' = w_tick w + 1"
    by (simp_all add: update_conv)
qed

lemma fopen_None: "fopen p trunc w = (None, w') \<Longrightarrow> w' = w\<lparr>w_tick := w_tick w + 1\<rparr>"
  by (auto simp: fopen_def ask_def Let_def split: if_splits)

lemma fopen_text:
  assumes "fopen p trunc w = (Some h, w')"
  shows "stream_open w' h"
    "stream_text h w' = (if trunc then [] else regular_at w (resolve w (fs_key p)))"
  using fopen_Some[OF assms]
  by (simp_all add: stream_open_def stream_text_def stream_content_def)

end
