(* ===== verification/Console.thy ===== *)
theory Console
  imports Sinks
begin

text \<open>
  \<open>include/spdlite/sinks/console_sink.h\<close>: the ANSI console sinks of Linux and macOS, which
  rebuild the line with escape codes around the level tag, and the Windows ones, modelled by
  the sequence of console calls a \<open>write\<close> makes.
\<close>

section \<open>Colour modes\<close>

datatype color_mode = C_automatic | C_always | C_never

section \<open>ANSI\<close>

definition esc :: char where "esc = CHR 0x1B"

definition ansi_reset :: string where "ansi_reset = esc # ''[m''"
definition ansi_white :: string where "ansi_white = esc # ''[37m''"
definition ansi_cyan :: string where "ansi_cyan = esc # ''[36m''"
definition ansi_green :: string where "ansi_green = esc # ''[32m''"
definition ansi_yellow_bold :: string where "ansi_yellow_bold = esc # ''[33m'' @ esc # ''[1m''"
definition ansi_red_bold :: string where "ansi_red_bold = esc # ''[31m'' @ esc # ''[1m''"
definition ansi_bold_on_red :: string where "ansi_bold_on_red = esc # ''[1m'' @ esc # ''[41m''"

record console_sink =
  cs_file :: nat
  cs_mode :: color_mode
  cs_is_tty :: bool
  cs_should_color :: bool
  cs_cbuf :: membuf
  cs_colors :: "string list"

definition memory_buf_size :: nat where "memory_buf_size = 250"

definition update_should_color :: "console_sink \<Rightarrow> console_sink" where
  "update_should_color c =
     (case cs_mode c of
        C_always \<Rightarrow> c\<lparr>cs_should_color := True\<rparr>
      | C_never \<Rightarrow> c\<lparr>cs_should_color := False\<rparr>
      | C_automatic \<Rightarrow> c\<lparr>cs_should_color := cs_is_tty c\<rparr>)"

definition set_color_mode :: "color_mode \<Rightarrow> console_sink \<Rightarrow> console_sink" where
  "set_color_mode mode c = update_should_color (c\<lparr>cs_mode := mode\<rparr>)"

definition set_color :: "level \<Rightarrow> string \<Rightarrow> console_sink \<Rightarrow> console_sink" where
  "set_color lvl color c = c\<lparr>cs_colors := (cs_colors c)[level_code lvl := color]\<rparr>"

definition default_colors :: "string list" where
  "default_colors = (replicate levels_count [])
     [level_code Trace := ansi_white, level_code Debug := ansi_cyan, level_code Info := ansi_green,
      level_code Warn := ansi_yellow_bold, level_code Err := ansi_red_bold,
      level_code Critical := ansi_bold_on_red, level_code Off := ansi_reset]"

text \<open>The constructor on \<open>file\<close>; \<open>isatty\<close> is asked of the world.\<close>

definition mk_console :: "nat \<Rightarrow> color_mode \<Rightarrow> world \<Rightarrow> console_sink" where
  "mk_console file mode w =
     update_should_color
       \<lparr>cs_file = file, cs_mode = mode, cs_is_tty = w_isatty w file, cs_should_color = False,
        cs_cbuf = mb_new memory_buf_size, cs_colors = default_colors\<rparr>"

definition mk_console_sink :: "color_mode \<Rightarrow> world \<Rightarrow> console_sink" where
  "mk_console_sink mode w = mk_console stdout_h mode w"

definition mk_console_err_sink :: "color_mode \<Rightarrow> world \<Rightarrow> console_sink" where
  "mk_console_err_sink mode w = mk_console stderr_h mode w"

definition console_write :: "log_msg \<Rightarrow> console_sink \<Rightarrow> world \<Rightarrow> console_sink \<times> world" where
  "console_write m c w =
     (let data = m_formatted m
      in if \<not> cs_should_color c then (c, snd (fwrite_bytes data (cs_file c) w))
         else let color = cs_colors c ! level_code (m_log_level m);
                  level_start = m_level_offset m;
                  level_end = level_start + level_width;
                  b = buf_clear (cs_cbuf c);
                  b = mb_app (take level_start data) b;
                  b = mb_app color b;
                  b = mb_app (take (level_end - level_start) (drop level_start data)) b;
                  b = mb_app ansi_reset b;
                  b = mb_app (drop level_end data) b
              in (c\<lparr>cs_cbuf := b\<rparr>, snd (fwrite_bytes (mb_view b) (cs_file c) w)))"

definition console_flush :: "console_sink \<Rightarrow> world \<Rightarrow> world" where
  "console_flush c w = fflush (cs_file c) w"

text \<open>What the sink shows for a message: the line, or the line with its tag coloured.\<close>

definition console_render :: "console_sink \<Rightarrow> log_msg \<Rightarrow> string" where
  "console_render c m =
     (if cs_should_color c
      then take (m_level_offset m) (m_formatted m) @ cs_colors c ! level_code (m_log_level m) @
           take level_width (drop (m_level_offset m) (m_formatted m)) @ ansi_reset @
           drop (m_level_offset m + level_width) (m_formatted m)
      else m_formatted m)"

definition console_ready :: "console_sink \<Rightarrow> world \<Rightarrow> bool" where
  "console_ready c w \<longleftrightarrow> mb_inv memory_buf_size (cs_cbuf c) \<and> stream_open w (cs_file c)"

lemma cbuf_line:
  assumes "mb_inv n b"
  shows "mb_inv n (mb_app e (mb_app d (mb_app c (mb_app b' (mb_app a (buf_clear b)))))) \<and>
    mb_view (mb_app e (mb_app d (mb_app c (mb_app b' (mb_app a (buf_clear b)))))) = a @ b' @ c @ d @ e"
  using assms by (simp add: mb_app_spec[of n] mb_clear_spec[of n])

lemma console_write_eq:
  assumes "console_ready c w"
  shows "\<exists>b. mb_inv memory_buf_size b \<and>
    console_write m c w = (c\<lparr>cs_cbuf := b\<rparr>, snd (fwrite_bytes (console_render c m) (cs_file c) w))"
proof (cases "cs_should_color c")
  case False
  with assms show ?thesis
    by (intro exI[of _ "cs_cbuf c"]) (simp add: console_write_def console_render_def console_ready_def)
next
  case True
  have inv: "mb_inv memory_buf_size (cs_cbuf c)" using assms by (simp add: console_ready_def)
  show ?thesis
    using True cbuf_line[OF inv]
    by (simp add: console_write_def console_render_def Let_def) blast
qed

interpretation console_sink: text_sink console_ready "\<lambda>c. stream_text (cs_file c)" console_render
  all_ok console_write console_flush
proof unfold_locales
  fix c w m c' w'
  assume rd: "console_ready c w" and wr: "console_write m c w = (c', w')"
  obtain b ok where b: "mb_inv memory_buf_size b" "c' = c\<lparr>cs_cbuf := b\<rparr>"
    and f: "fwrite_bytes (console_render c m) (cs_file c) w = (ok, w')"
    using console_write_eq[OF rd, of m] wr
    by (cases "fwrite_bytes (console_render c m) (cs_file c) w") auto
  have op: "stream_open w (cs_file c)" using rd by (simp add: console_ready_def)
  note t = fwrite_bytes_text[OF op f]
  show "console_ready c' w'" using b t by (simp add: console_ready_def)
  show "all_ok w \<Longrightarrow> stream_text (cs_file c') w' = stream_text (cs_file c) w @ console_render c m"
    using b t all_ok_next by simp
  show "all_ok w \<Longrightarrow> all_ok w'" by (rule fwrite_bytes_all_ok[OF _ f])
  show "console_render c' = console_render c" using b by (auto simp: console_render_def)
qed (simp_all add: console_flush_def console_ready_def fflush_open fflush_text)

section \<open>Windows\<close>

text \<open>
  The calls on the console handle.  A \<open>DWORD\<close> count is the size modulo \<open>2^32\<close>; the
  attribute words are the constants of \<open>windows.h\<close>.
\<close>

datatype console_call = WriteConsole string | WriteFile string | SetAttr nat

definition fg_blue :: nat where "fg_blue = 1"
definition fg_green :: nat where "fg_green = 2"
definition fg_red :: nat where "fg_red = 4"
definition fg_intensity :: nat where "fg_intensity = 8"
definition bg_red :: nat where "bg_red = 64"

record win_sink =
  ws_handle :: "nat option"
  ws_mode :: color_mode
  ws_orig_attribs :: nat
  ws_is_console :: bool
  ws_should_color :: bool
  ws_colors :: "nat list"

definition win_update_should_color :: "win_sink \<Rightarrow> win_sink" where
  "win_update_should_color c =
     (case ws_mode c of
        C_always \<Rightarrow> c\<lparr>ws_should_color := True\<rparr>
      | C_never \<Rightarrow> c\<lparr>ws_should_color := False\<rparr>
      | C_automatic \<Rightarrow> c\<lparr>ws_should_color := ws_is_console c\<rparr>)"

definition win_set_color_mode :: "color_mode \<Rightarrow> win_sink \<Rightarrow> win_sink" where
  "win_set_color_mode mode c = win_update_should_color (c\<lparr>ws_mode := mode\<rparr>)"

definition win_set_color :: "level \<Rightarrow> nat \<Rightarrow> win_sink \<Rightarrow> win_sink" where
  "win_set_color lvl color c = c\<lparr>ws_colors := (ws_colors c)[level_code lvl := color]\<rparr>"

text \<open>The constructor; \<open>is_con\<close> and \<open>attrs\<close> are what \<open>GetConsoleMode\<close> and
  \<open>GetConsoleScreenBufferInfo\<close> report.\<close>

definition mk_win_sink :: "nat option \<Rightarrow> color_mode \<Rightarrow> bool \<Rightarrow> nat option \<Rightarrow> win_sink" where
  "mk_win_sink handle mode is_con attrs =
     (let orig = (if is_con then (case attrs of Some a \<Rightarrow> a | None \<Rightarrow> fg_red OR fg_green OR fg_blue)
                  else fg_red OR fg_green OR fg_blue);
          cols = (replicate levels_count 0)
            [level_code Trace := fg_red OR fg_green OR fg_blue, level_code Debug := fg_green OR fg_blue,
             level_code Info := fg_green, level_code Warn := fg_red OR fg_green OR fg_intensity,
             level_code Err := fg_red OR fg_intensity,
             level_code Critical := bg_red OR fg_red OR fg_green OR fg_blue OR fg_intensity,
             level_code Off := 0]
      in win_update_should_color
           \<lparr>ws_handle = handle, ws_mode = mode, ws_orig_attribs = orig, ws_is_console = is_con,
            ws_should_color = False, ws_colors = cols\<rparr>)"

definition dword_take :: "nat \<Rightarrow> string \<Rightarrow> string" where
  "dword_take n s = take (n mod 2 ^ 32) s"

definition write_console :: "string \<Rightarrow> console_call list" where
  "write_console s = (if length s > 0 then [WriteConsole (dword_take (length s) s)] else [])"

definition win_write :: "log_msg \<Rightarrow> win_sink \<Rightarrow> console_call list" where
  "win_write m c =
     (if ws_handle c = None then []
      else let data = m_formatted m
           in if \<not> ws_should_color c
              then (if ws_is_console c then write_console data
                    else [WriteFile (dword_take (length data) data)])
              else if \<not> ws_is_console c then [WriteFile (dword_take (length data) data)]
              else let level_start = m_level_offset m; level_end = level_start + level_width
                   in write_console (take level_start data) @
                      [SetAttr (ws_colors c ! level_code (m_log_level m))] @
                      write_console (take level_width (drop level_start data)) @
                      [SetAttr (ws_orig_attribs c)] @ write_console (drop level_end data))"

fun call_text :: "console_call \<Rightarrow> string" where
  "call_text (WriteConsole s) = s"
| "call_text (WriteFile s) = s"
| "call_text (SetAttr a) = []"

definition calls_text :: "console_call list \<Rightarrow> string" where
  "calls_text cs = concat (map call_text cs)"

text \<open>The attribute in force after a sequence of calls.\<close>

fun attr_after :: "nat \<Rightarrow> console_call list \<Rightarrow> nat" where
  "attr_after a [] = a"
| "attr_after a (SetAttr b # cs) = attr_after b cs"
| "attr_after a (_ # cs) = attr_after a cs"

lemma attr_after_append [simp]: "attr_after a (xs @ ys) = attr_after (attr_after a xs) ys"
  by (induction a xs rule: attr_after.induct) auto

lemma attr_after_write_console [simp]: "attr_after a (write_console s) = a"
  by (simp add: write_console_def)

lemma calls_text_append [simp]: "calls_text (xs @ ys) = calls_text xs @ calls_text ys"
  by (simp add: calls_text_def)

lemma calls_text_simps [simp]:
  "calls_text [] = []" "calls_text (SetAttr a # cs) = calls_text cs"
  "calls_text [WriteFile s] = s"
  by (simp_all add: calls_text_def)

lemma calls_text_write_console: "length s < 2 ^ 32 \<Longrightarrow> calls_text (write_console s) = s"
  by (auto simp: calls_text_def write_console_def dword_take_def)

section \<open>Properties\<close>

text \<open>Colouring only adds bytes around the tag: the coloured line with the two escape
  sequences taken out is the line, so the tag is wrapped and nothing else moves.\<close>

theorem console_render_wraps_tag:
  assumes "cs_should_color c" and "m_level_offset m + level_width \<le> length (m_formatted m)"
  shows "\<exists>pre tag post. m_formatted m = pre @ tag @ post \<and> length pre = m_level_offset m \<and>
    length tag = level_width \<and>
    console_render c m = pre @ cs_colors c ! level_code (m_log_level m) @ tag @ ansi_reset @ post"
proof -
  let ?f = "m_formatted m" and ?o = "m_level_offset m"
  have "?f = take ?o ?f @ take level_width (drop ?o ?f) @ drop (?o + level_width) ?f"
    by (metis append_take_drop_id drop_drop add.commute)
  then show ?thesis
    using assms
    by (intro exI[of _ "take ?o ?f"] exI[of _ "take level_width (drop ?o ?f)"]
        exI[of _ "drop (?o + level_width) ?f"]) (simp add: console_render_def)
qed

text \<open>What a program does with a console sink: lines, a new mode, a new colour for a level.\<close>

datatype console_action = Show log_msg | Use_mode color_mode | Use_color level string

fun console_run :: "console_action list \<Rightarrow> console_sink \<Rightarrow> world \<Rightarrow> console_sink \<times> world" where
  "console_run [] c w = (c, w)"
| "console_run (Show m # acts) c w = (let (c, w) = console_write m c w in console_run acts c w)"
| "console_run (Use_mode mode # acts) c w = console_run acts (set_color_mode mode c) w"
| "console_run (Use_color lvl color # acts) c w = console_run acts (set_color lvl color c) w"

text \<open>What a reader of the terminal sees: the lines, coloured when the mode of the moment asks for it.\<close>

definition coloured :: "color_mode \<Rightarrow> bool \<Rightarrow> bool" where
  "coloured mode tty \<longleftrightarrow> mode = C_always \<or> mode = C_automatic \<and> tty"

fun first_color :: "level \<Rightarrow> string" where
  "first_color Trace = CHR 0x1B # ''[37m''"
| "first_color Debug = CHR 0x1B # ''[36m''"
| "first_color Info = CHR 0x1B # ''[32m''"
| "first_color Warn = CHR 0x1B # ''[33m'' @ CHR 0x1B # ''[1m''"
| "first_color Err = CHR 0x1B # ''[31m'' @ CHR 0x1B # ''[1m''"
| "first_color Critical = CHR 0x1B # ''[1m'' @ CHR 0x1B # ''[41m''"
| "first_color _ = CHR 0x1B # ''[m''"

definition wrap_tag :: "string \<Rightarrow> log_msg \<Rightarrow> string" where
  "wrap_tag color m =
     (let pre = take (m_level_offset m) (m_formatted m); rest = drop (m_level_offset m) (m_formatted m)
      in pre @ color @ take 3 rest @ CHR 0x1B # ''[m'' @ drop 3 rest)"

fun shown_lines :: "bool \<Rightarrow> color_mode \<Rightarrow> (level \<Rightarrow> string) \<Rightarrow> console_action list \<Rightarrow> string" where
  "shown_lines tty mode col [] = []"
| "shown_lines tty mode col (Show m # acts) =
     (if coloured mode tty then wrap_tag (col (m_log_level m)) m else m_formatted m) @ shown_lines tty mode col acts"
| "shown_lines tty mode col (Use_mode mode' # acts) = shown_lines tty mode' col acts"
| "shown_lines tty mode col (Use_color lvl color # acts) = shown_lines tty mode (col(lvl := color)) acts"

text \<open>\<open>n_levels\<close> is the number of levels and no level.\<close>

fun real_level :: "console_action \<Rightarrow> bool" where
  "real_level (Show m) \<longleftrightarrow> m_log_level m \<noteq> N_levels"
| "real_level (Use_mode mode) \<longleftrightarrow> True"
| "real_level (Use_color lvl color) \<longleftrightarrow> lvl \<noteq> N_levels"

definition console_inv :: "bool \<Rightarrow> color_mode \<Rightarrow> (level \<Rightarrow> string) \<Rightarrow> console_sink \<Rightarrow> bool" where
  "console_inv tty mode col c \<longleftrightarrow> cs_is_tty c = tty \<and> cs_mode c = mode \<and> cs_should_color c = coloured mode tty \<and>
     length (cs_colors c) = 7 \<and> (\<forall>lvl. lvl \<noteq> N_levels \<longrightarrow> cs_colors c ! level_code lvl = col lvl)"

lemma level_code_less: "lvl \<noteq> N_levels \<Longrightarrow> level_code lvl < 7"
  by (cases lvl) simp_all

lemma update_should_color_inv:
  "cs_is_tty c = tty \<Longrightarrow> cs_mode c = mode \<Longrightarrow> length (cs_colors c) = 7 \<Longrightarrow>
   (\<And>lvl. lvl \<noteq> N_levels \<Longrightarrow> cs_colors c ! level_code lvl = col lvl) \<Longrightarrow> console_inv tty mode col (update_should_color c)"
  by (cases mode) (simp_all add: console_inv_def update_should_color_def coloured_def)

lemma mk_console_inv: "console_inv (w_isatty w file) mode first_color (mk_console file mode w)"
proof -
  have "default_colors ! level_code lvl = first_color lvl" if "lvl \<noteq> N_levels" for lvl
    using that by (cases lvl) (simp_all add: default_colors_def levels_count_def ansi_white_def ansi_cyan_def ansi_green_def
        ansi_yellow_bold_def ansi_red_bold_def ansi_bold_on_red_def ansi_reset_def esc_def)
  then show ?thesis unfolding mk_console_def
    by (intro update_should_color_inv) (simp_all add: default_colors_def levels_count_def)
qed

lemma set_color_mode_inv: "console_inv tty mode col c \<Longrightarrow> console_inv tty mode' col (set_color_mode mode' c)"
  unfolding set_color_mode_def by (intro update_should_color_inv) (simp_all add: console_inv_def)

lemma set_color_inv:
  "console_inv tty mode col c \<Longrightarrow> lvl \<noteq> N_levels \<Longrightarrow> console_inv tty mode (col(lvl := color)) (set_color lvl color c)"
  using level_code_less[of lvl] by (auto simp: console_inv_def set_color_def nth_list_update)

lemma console_render_shown:
  assumes "console_inv tty mode col c" "m_log_level m \<noteq> N_levels"
  shows "console_render c m = (if coloured mode tty then wrap_tag (col (m_log_level m)) m else m_formatted m)"
  using assms
  by (simp add: console_inv_def console_render_def wrap_tag_def Let_def level_width_def ansi_reset_def esc_def add.commute)

lemma console_ready_setters:
  "console_ready (set_color_mode mode c) w \<longleftrightarrow> console_ready c w" "cs_file (set_color_mode mode c) = cs_file c"
  "console_ready (set_color lvl color c) w \<longleftrightarrow> console_ready c w" "cs_file (set_color lvl color c) = cs_file c"
  by (cases mode; simp add: console_ready_def set_color_mode_def update_should_color_def set_color_def)+

lemma console_run_shows:
  assumes "console_ready c w" "all_ok w" "console_inv tty mode col c" "list_all real_level acts"
    and "console_run acts c w = (c', w')"
  shows "cs_file c' = cs_file c \<and> stream_text (cs_file c) w' = stream_text (cs_file c) w @ shown_lines tty mode col acts"
  using assms
proof (induction acts arbitrary: mode col c w)
  case Nil
  then show ?case by simp
next
  case (Cons act acts)
  show ?case
  proof (cases act)
    case (Show m)
    obtain c1 w1 where 1: "console_write m c w = (c1, w1)" by fastforce
    obtain b where b: "c1 = c\<lparr>cs_cbuf := b\<rparr>" using console_write_eq[OF Cons.prems(1), of m] 1 by auto
    note step = console_sink.write_ready[OF Cons.prems(1) 1] console_sink.write_fits[OF Cons.prems(1,2) 1]
    have out: "stream_text (cs_file c) w1 = stream_text (cs_file c) w @ console_render c m"
      using console_sink.write_accepted[OF Cons.prems(1,2) 1] by (simp add: b)
    have "console_inv tty mode col c1" using Cons.prems(3) by (simp add: b console_inv_def)
    from Cons.IH[OF step this] Cons.prems(4,5) 1 out console_render_shown[OF Cons.prems(3), of m] show ?thesis
      by (simp add: Show b)
  next
    case (Use_mode mode')
    with Cons.IH[of "set_color_mode mode' c" w mode' col] Cons.prems set_color_mode_inv[OF Cons.prems(3), of mode']
    show ?thesis by (simp add: console_ready_setters)
  next
    case (Use_color lvl color)
    have ok: "lvl \<noteq> N_levels" "list_all real_level acts" using Cons.prems(4) by (simp_all add: Use_color)
    have run: "console_run acts (set_color lvl color c) w = (c', w')" using Cons.prems(5) by (simp add: Use_color)
    have ready: "console_ready (set_color lvl color c) w" using Cons.prems(1) by (simp add: console_ready_setters)
    from Cons.IH[OF ready Cons.prems(2) set_color_inv[OF Cons.prems(3) ok(1)] ok(2) run] show ?thesis
      unfolding Use_color shown_lines.simps console_ready_setters .
  qed
qed

text \<open>C27: a console sink shows every line, in order, after what was there before, as long as its stream accepts what
  is written: in the mode \<open>never\<close> as it is, in the mode \<open>always\<close>, and in the mode \<open>automatic\<close> when the stream was a
  terminal at the construction, with the three characters of the level wrapped in the colour of the level and the reset
  sequence.  A new mode or a new colour is for the lines after it; the colours before are those of the constructor.\<close>

theorem console_run_shows_lines:
  assumes "stream_open w file" and "all_ok w" and "list_all real_level acts"
    and "console_run acts (mk_console file mode w) w = (c', w')"
  shows "stream_text file w' = stream_text file w @ shown_lines (w_isatty w file) mode first_color acts"
proof -
  let ?c = "mk_console file mode w"
  have c: "cs_file ?c = file" "console_ready ?c w"
    using assms(1) by (cases mode; simp add: mk_console_def update_should_color_def console_ready_def)+
  show ?thesis using console_run_shows[OF c(2) assms(2) mk_console_inv assms(3,4)] by (simp add: c(1))
qed

text \<open>A world with the standard streams open on the terminals and no failures.\<close>

definition clean_world :: world where
  "clean_world =
     \<lparr>w_fs = [], w_streams = [(stdout_h, \<lparr>st_target = Tty 1, st_buf = []\<rparr>),
                             (stderr_h, \<lparr>st_target = Tty 2, st_buf = []\<rparr>)],
      w_tty = (\<lambda>_. []), w_isatty = (\<lambda>_. True), w_next = 3, w_oracle = (\<lambda>_. True),
      w_short = (\<lambda>_. 0), w_tick = 0\<rparr>"

definition sample_msg :: log_msg where
  "sample_msg = mk_log_msg 0 ''app'' Err ''[app] [ERR] bad'' ''bad'' 7"

theorem console_render_wraps_tag_witness:
  "\<exists>pre tag post. m_formatted sample_msg = pre @ tag @ post \<and> length pre = m_level_offset sample_msg \<and>
    length tag = level_width \<and>
    console_render (mk_console_sink C_always clean_world) sample_msg =
      pre @ cs_colors (mk_console_sink C_always clean_world) ! level_code (m_log_level sample_msg) @
      tag @ ansi_reset @ post"
  by (rule console_render_wraps_tag)
    (simp_all add: mk_console_sink_def mk_console_def update_should_color_def sample_msg_def
      mk_log_msg_def level_width_def)

theorem console_run_shows_lines_witness:
  "stream_text stdout_h (snd (console_run [Show sample_msg, Use_mode C_always, Use_color Err ''<'', Show sample_msg]
       (mk_console stdout_h C_never clean_world) clean_world)) =
   ''[app] [ERR] bad'' @ ''[app] [<ERR'' @ CHR 0x1B # ''[m] bad''"
proof -
  let ?acts = "[Show sample_msg, Use_mode C_always, Use_color Err ''<'', Show sample_msg]"
  obtain c' w' where r: "console_run ?acts (mk_console stdout_h C_never clean_world) clean_world = (c', w')"
    by fastforce
  have h: "stream_open clean_world stdout_h" "stream_text stdout_h clean_world = []"
    by (simp_all add: stream_open_def clean_world_def stdout_h_def stream_text_def stream_content_def)
  have ok: "all_ok clean_world" "list_all real_level ?acts" by (simp_all add: all_ok_def clean_world_def sample_msg_def mk_log_msg_def)
  show ?thesis unfolding r using console_run_shows_lines[OF h(1) ok r] h(2)
    by (simp add: coloured_def wrap_tag_def sample_msg_def mk_log_msg_def)
qed

text \<open>On Windows the calls of a \<open>write\<close> together output exactly the formatted line, and the
  console's attribute is back at the original one afterwards.\<close>

theorem win_write_output:
  assumes "ws_handle c \<noteq> None" and "length (m_formatted m) < 2 ^ 32"
    and "m_level_offset m + level_width \<le> length (m_formatted m)"
  shows "calls_text (win_write m c) = m_formatted m \<and>
    attr_after (ws_orig_attribs c) (win_write m c) = ws_orig_attribs c"
proof -
  let ?f = "m_formatted m" and ?o = "m_level_offset m"
  have "take ?o ?f @ take level_width (drop ?o ?f) @ drop (?o + level_width) ?f = ?f"
    by (metis append_take_drop_id drop_drop add.commute)
  then show ?thesis
    using assms by (auto simp: win_write_def calls_text_write_console Let_def dword_take_def)
qed

theorem win_write_output_witness:
  "calls_text (win_write sample_msg (mk_win_sink (Some 5) C_always True (Some 7))) = ''[app] [ERR] bad'' \<and>
   attr_after 7 (win_write sample_msg (mk_win_sink (Some 5) C_always True (Some 7))) = 7"
proof -
  let ?c = "mk_win_sink (Some 5) C_always True (Some 7)"
  have "ws_handle ?c \<noteq> None" "ws_orig_attribs ?c = 7"
    by (simp_all add: mk_win_sink_def win_update_should_color_def Let_def)
  moreover have "length (m_formatted sample_msg) < 2 ^ 32"
    "m_level_offset sample_msg + level_width \<le> length (m_formatted sample_msg)"
    by (simp_all add: sample_msg_def mk_log_msg_def level_width_def)
  ultimately show ?thesis
    using win_write_output[of ?c sample_msg] by (simp add: sample_msg_def mk_log_msg_def)
qed

end
