(* ===== verification/Fmt_Specs.thy ===== *)
theory Fmt_Specs
  imports Prelude
begin

text \<open>
  \<open>fmt/base.h\<close>: the format specifiers.  \<open>basic_specs\<close> packs seven fields into one
  32-bit word; the operations are those of the class, on the word.  Also here: the argument
  types and the bit sets of them.
\<close>

section \<open>Enumerations\<close>

text \<open>\<open>presentation_type\<close> has constants with equal values (\<open>debug\<close> and \<open>exp\<close>, \<open>dec\<close>,
  \<open>pointer\<close> and \<open>general\<close>, \<open>hex\<close> and \<open>hexfloat\<close>), so it is its value.\<close>

type_synonym presentation = u32

definition pres_none :: presentation where "pres_none = 0"
definition pres_debug :: presentation where "pres_debug = 1"
definition pres_string :: presentation where "pres_string = 2"
definition pres_dec :: presentation where "pres_dec = 3"
definition pres_hex :: presentation where "pres_hex = 4"
definition pres_oct :: presentation where "pres_oct = 5"
definition pres_bin :: presentation where "pres_bin = 6"
definition pres_chr :: presentation where "pres_chr = 7"
definition pres_pointer :: presentation where "pres_pointer = 3"
definition pres_exp :: presentation where "pres_exp = 1"
definition pres_fixed :: presentation where "pres_fixed = 2"
definition pres_general :: presentation where "pres_general = 3"
definition pres_hexfloat :: presentation where "pres_hexfloat = 4"

lemmas pres_defs = pres_none_def pres_debug_def pres_string_def pres_dec_def pres_hex_def pres_oct_def
  pres_bin_def pres_chr_def pres_pointer_def pres_exp_def pres_fixed_def pres_general_def pres_hexfloat_def

datatype align = A_none | A_left | A_right | A_center | A_numeric
datatype sgn = S_none | S_minus | S_plus | S_space
datatype arg_id_kind = K_none | K_index | K_name

fun align_code :: "align \<Rightarrow> u32" where
  "align_code A_none = 0" | "align_code A_left = 1" | "align_code A_right = 2"
| "align_code A_center = 3" | "align_code A_numeric = 4"

fun sgn_code :: "sgn \<Rightarrow> u32" where
  "sgn_code S_none = 0" | "sgn_code S_minus = 1" | "sgn_code S_plus = 2" | "sgn_code S_space = 3"

fun kind_code :: "arg_id_kind \<Rightarrow> u32" where
  "kind_code K_none = 0" | "kind_code K_index = 1" | "kind_code K_name = 2"

text \<open>The casts back; a value that no constant has cannot come up.\<close>

definition align_of :: "u32 \<Rightarrow> align" where
  "align_of v = (if v = 1 then A_left else if v = 2 then A_right else if v = 3 then A_center
     else if v = 4 then A_numeric else A_none)"

definition sgn_of :: "u32 \<Rightarrow> sgn" where
  "sgn_of v = (if v = 1 then S_minus else if v = 2 then S_plus else if v = 3 then S_space else S_none)"

definition kind_of :: "u32 \<Rightarrow> arg_id_kind" where
  "kind_of v = (if v = 1 then K_index else if v = 2 then K_name else K_none)"

lemma align_of_code [simp]: "align_of (align_code a) = a"
  by (cases a) (simp_all add: align_of_def)

lemma sgn_of_code [simp]: "sgn_of (sgn_code g) = g"
  by (cases g) (simp_all add: sgn_of_def)

lemma kind_of_code [simp]: "kind_of (kind_code k) = k"
  by (cases k) (simp_all add: kind_of_def)

section \<open>Bit fields\<close>

definition fget :: "u32 \<Rightarrow> nat \<Rightarrow> u32 \<Rightarrow> u32" where
  "fget m s d = drop_bit s (d AND m)"

definition fset :: "u32 \<Rightarrow> nat \<Rightarrow> u32 \<Rightarrow> u32 \<Rightarrow> u32" where
  "fset m s v d = (d AND NOT m) OR push_bit s v"

lemma fget_fset:
  assumes "push_bit s v AND m = push_bit s v" "drop_bit s (push_bit s v) = v"
  shows "fget m s (fset m s v d) = v"
proof -
  have "fset m s v d AND m = push_bit s v"
    unfolding fset_def using assms(1) by (simp add: bit_eq_iff bit_simps) blast
  then show ?thesis using assms(2) by (simp add: fget_def)
qed

lemma fget_fset_other:
  assumes "m AND m' = 0" "push_bit s v AND m' = 0"
  shows "fget m' s' (fset m s v d) = fget m' s' d"
proof -
  have "fset m s v d AND m' = d AND m'"
    unfolding fset_def using assms by (simp add: bit_eq_iff bit_simps) blast
  then show ?thesis by (simp add: fget_def)
qed

definition flag :: "u32 \<Rightarrow> u32 \<Rightarrow> bool" where
  "flag m d \<longleftrightarrow> d AND m \<noteq> 0"

lemma flag_fset_other:
  assumes "m AND m' = 0" "push_bit s v AND m' = 0"
  shows "flag m' (fset m s v d) = flag m' d"
proof -
  have "fset m s v d AND m' = d AND m'"
    unfolding fset_def using assms by (simp add: bit_eq_iff bit_simps) blast
  then show ?thesis by (simp add: flag_def)
qed

lemma fget_or_other: "m AND m' = 0 \<Longrightarrow> fget m' s (d OR m) = fget m' s d"
proof -
  assume "m AND m' = 0"
  then have "(d OR m) AND m' = d AND m'" by (simp add: bit_eq_iff bit_simps) blast
  then show ?thesis by (simp add: fget_def)
qed

lemma flag_or: "m \<noteq> 0 \<Longrightarrow> flag m (d OR m)" "m AND m' = 0 \<Longrightarrow> flag m' (d OR m) = flag m' d"
proof -
  assume "m AND m' = 0"
  then have "(d OR m) AND m' = d AND m'" by (simp add: bit_eq_iff bit_simps) blast
  then show "flag m' (d OR m) = flag m' d" by (simp add: flag_def)
next
  assume "m \<noteq> 0"
  moreover have "(d OR m) AND m = m" by (auto simp: bit_eq_iff bit_simps)
  ultimately show "flag m (d OR m)" by (simp add: flag_def)
qed

section \<open>\<open>basic_specs\<close> and \<open>format_specs\<close>\<close>

definition type_mask :: u32 where "type_mask = 0x00007"
definition align_mask :: u32 where "align_mask = 0x00038"
definition width_mask :: u32 where "width_mask = 0x000C0"
definition precision_mask :: u32 where "precision_mask = 0x00300"
definition sign_mask :: u32 where "sign_mask = 0x00C00"
definition uppercase_mask :: u32 where "uppercase_mask = 0x01000"
definition alternate_mask :: u32 where "alternate_mask = 0x02000"
definition localized_mask :: u32 where "localized_mask = 0x04000"
definition fill_size_mask :: u32 where "fill_size_mask = 0x38000"
definition align_shift :: nat where "align_shift = 3"
definition width_shift :: nat where "width_shift = 6"
definition precision_shift :: nat where "precision_shift = 8"
definition sign_shift :: nat where "sign_shift = 10"
definition fill_size_shift :: nat where "fill_size_shift = 15"
definition max_fill_size :: nat where "max_fill_size = 4"

lemmas spec_layout = type_mask_def align_mask_def width_mask_def precision_mask_def sign_mask_def
  uppercase_mask_def alternate_mask_def localized_mask_def fill_size_mask_def align_shift_def
  width_shift_def precision_shift_def sign_shift_def fill_size_shift_def

text \<open>\<open>format_specs\<close> adds \<open>width\<close> and \<open>precision\<close>, of type \<open>int\<close>.\<close>

record specs =
  sp_data :: u32
  sp_fill :: string
  sp_width :: int
  sp_precision :: int

definition default_specs :: specs where
  "default_specs = \<lparr>sp_data = push_bit fill_size_shift 1, sp_fill = [CHR '' '', CHR 0x00, CHR 0x00, CHR 0x00],
     sp_width = 0, sp_precision = -1\<rparr>"

definition spec_type :: "'a specs_scheme \<Rightarrow> presentation" where "spec_type s = fget type_mask 0 (sp_data s)"
definition set_type :: "presentation \<Rightarrow> 'a specs_scheme \<Rightarrow> 'a specs_scheme" where
  "set_type t s = s\<lparr>sp_data := fset type_mask 0 t (sp_data s)\<rparr>"

definition spec_align :: "'a specs_scheme \<Rightarrow> align" where
  "spec_align s = align_of (fget align_mask align_shift (sp_data s))"
definition set_align :: "align \<Rightarrow> 'a specs_scheme \<Rightarrow> 'a specs_scheme" where
  "set_align a s = s\<lparr>sp_data := fset align_mask align_shift (align_code a) (sp_data s)\<rparr>"

definition dynamic_width :: "'a specs_scheme \<Rightarrow> arg_id_kind" where
  "dynamic_width s = kind_of (fget width_mask width_shift (sp_data s))"
definition set_dynamic_width :: "arg_id_kind \<Rightarrow> 'a specs_scheme \<Rightarrow> 'a specs_scheme" where
  "set_dynamic_width k s = s\<lparr>sp_data := fset width_mask width_shift (kind_code k) (sp_data s)\<rparr>"

definition dynamic_precision :: "'a specs_scheme \<Rightarrow> arg_id_kind" where
  "dynamic_precision s = kind_of (fget precision_mask precision_shift (sp_data s))"
definition set_dynamic_precision :: "arg_id_kind \<Rightarrow> 'a specs_scheme \<Rightarrow> 'a specs_scheme" where
  "set_dynamic_precision k s = s\<lparr>sp_data := fset precision_mask precision_shift (kind_code k) (sp_data s)\<rparr>"

definition spec_dynamic :: "'a specs_scheme \<Rightarrow> bool" where
  "spec_dynamic s \<longleftrightarrow> flag (width_mask OR precision_mask) (sp_data s)"

definition spec_sign :: "'a specs_scheme \<Rightarrow> sgn" where
  "spec_sign s = sgn_of (fget sign_mask sign_shift (sp_data s))"
definition set_sign :: "sgn \<Rightarrow> 'a specs_scheme \<Rightarrow> 'a specs_scheme" where
  "set_sign g s = s\<lparr>sp_data := fset sign_mask sign_shift (sgn_code g) (sp_data s)\<rparr>"

definition spec_upper :: "'a specs_scheme \<Rightarrow> bool" where "spec_upper s = flag uppercase_mask (sp_data s)"
definition set_upper :: "'a specs_scheme \<Rightarrow> 'a specs_scheme" where
  "set_upper s = s\<lparr>sp_data := sp_data s OR uppercase_mask\<rparr>"

definition spec_alt :: "'a specs_scheme \<Rightarrow> bool" where "spec_alt s = flag alternate_mask (sp_data s)"
definition set_alt :: "'a specs_scheme \<Rightarrow> 'a specs_scheme" where
  "set_alt s = s\<lparr>sp_data := sp_data s OR alternate_mask\<rparr>"
definition clear_alt :: "'a specs_scheme \<Rightarrow> 'a specs_scheme" where
  "clear_alt s = s\<lparr>sp_data := sp_data s AND NOT alternate_mask\<rparr>"

definition spec_localized :: "'a specs_scheme \<Rightarrow> bool" where "spec_localized s = flag localized_mask (sp_data s)"
definition set_localized :: "'a specs_scheme \<Rightarrow> 'a specs_scheme" where
  "set_localized s = s\<lparr>sp_data := sp_data s OR localized_mask\<rparr>"

definition fill_size :: "'a specs_scheme \<Rightarrow> nat" where
  "fill_size s = unat (fget fill_size_mask fill_size_shift (sp_data s))"
definition set_fill_size :: "nat \<Rightarrow> 'a specs_scheme \<Rightarrow> 'a specs_scheme" where
  "set_fill_size n s = s\<lparr>sp_data := fset fill_size_mask fill_size_shift (of_nat n) (sp_data s)\<rparr>"

text \<open>\<open>fill<char>()\<close> with \<open>fill_size()\<close>: the fill as a string; \<open>fill_unit<char>\<close> its first byte.\<close>

definition spec_fill :: "'a specs_scheme \<Rightarrow> string" where
  "spec_fill s = take (fill_size s) (sp_fill s)"

definition fill_unit :: "'a specs_scheme \<Rightarrow> char" where "fill_unit s = sp_fill s ! 0"

definition set_fill_char :: "char \<Rightarrow> 'a specs_scheme \<Rightarrow> 'a specs_scheme" where
  "set_fill_char c s = set_fill_size 1 (s\<lparr>sp_fill := (sp_fill s)[0 := c]\<rparr>)"

fun fill_loop :: "nat \<Rightarrow> string \<Rightarrow> string \<Rightarrow> string" where
  "fill_loop i [] d = d"
| "fill_loop i (c # cs) d = fill_loop (i + 1) cs (d[i mod 4 := c])"

text \<open>\<open>None\<close> is the failed assertion on the size.\<close>

definition set_fill :: "string \<Rightarrow> 'a specs_scheme \<Rightarrow> 'a specs_scheme option" where
  "set_fill f s =
     (let s = set_fill_size (length f) s
      in if length f = 1 then
           Some (s\<lparr>sp_fill := (sp_fill s)[0 := f ! 0, 1 := CHR 0x00, 2 := CHR 0x00]\<rparr>)
         else if length f \<le> max_fill_size then Some (s\<lparr>sp_fill := fill_loop 0 f (sp_fill s)\<rparr>)
         else None)"

definition copy_fill_from :: "'b specs_scheme \<Rightarrow> 'a specs_scheme \<Rightarrow> 'a specs_scheme" where
  "copy_fill_from t s = (set_fill_size (fill_size t) s)\<lparr>sp_fill := take max_fill_size (sp_fill t)\<rparr>"

section \<open>The fields do not disturb each other\<close>

definition fits :: "u32 \<Rightarrow> nat \<Rightarrow> u32 \<Rightarrow> bool" where
  "fits m s v \<longleftrightarrow> push_bit s v AND m = push_bit s v \<and> drop_bit s (push_bit s v) = v"

lemma align_fits: "fits align_mask align_shift (align_code a)"
  by (cases a) (simp_all add: fits_def spec_layout)

lemma sgn_fits: "fits sign_mask sign_shift (sgn_code g)"
  by (cases g) (simp_all add: fits_def spec_layout)

lemma kind_fits: "fits width_mask width_shift (kind_code k)" "fits precision_mask precision_shift (kind_code k)"
  by (cases k; simp add: fits_def spec_layout)+

lemma size_fits: "n < 8 \<Longrightarrow> fits fill_size_mask fill_size_shift (of_nat n)"
proof -
  assume "n < 8"
  then have "n \<in> {0, 1, 2, 3, 4, 5, 6, 7}" by auto
  then show ?thesis by (auto simp: fits_def spec_layout)
qed

lemma type_fits: "t < 8 \<Longrightarrow> fits type_mask 0 t"
proof -
  assume "t < 8"
  then have n: "unat t < 8" by (simp add: word_less_nat_alt)
  have "fits type_mask 0 (of_nat n)" if "n < 8" for n
  proof -
    from that have "n \<in> {0, 1, 2, 3, 4, 5, 6, 7}" by auto
    then show ?thesis by (auto simp: fits_def type_mask_def)
  qed
  from this[OF n] show ?thesis by simp
qed

lemma fits_fget: "fits m s v \<Longrightarrow> fget m s (fset m s v d) = v"
  by (simp add: fits_def fget_fset)

lemma fits_other:
  assumes "fits m s v" "m AND m' = 0"
  shows "fget m' s' (fset m s v d) = fget m' s' d" "flag m' (fset m s v d) = flag m' d"
proof -
  have "push_bit s v AND m' = (push_bit s v AND m) AND m'" using assms(1) by (simp add: fits_def)
  also have "\<dots> = push_bit s v AND (m AND m')" by (rule and.assoc)
  finally have "push_bit s v AND m' = 0" unfolding assms(2) by simp
  then show "fget m' s' (fset m s v d) = fget m' s' d" "flag m' (fset m s v d) = flag m' d"
    using assms(2) by (simp_all add: fget_fset_other flag_fset_other)
qed

lemma and_not_mask:
  assumes "m AND m' = 0"
  shows "fget m' s (d AND NOT m) = fget m' s d" "flag m' (d AND NOT m) = flag m' d"
proof -
  have "(d AND NOT m) AND m' = d AND m'" using assms by (simp add: bit_eq_iff bit_simps) blast
  then show "fget m' s (d AND NOT m) = fget m' s d" "flag m' (d AND NOT m) = flag m' d"
    by (simp_all add: fget_def flag_def)
qed

lemma flag_cleared [simp]: "\<not> flag m (d AND NOT m)"
  by (simp add: flag_def ac_simps)

text \<open>What a reader of the specifiers sees.\<close>

record spec_view =
  v_type :: presentation
  v_align :: align
  v_width_kind :: arg_id_kind
  v_precision_kind :: arg_id_kind
  v_sign :: sgn
  v_upper :: bool
  v_alt :: bool
  v_localized :: bool
  v_fill_size :: nat

definition spec_view :: "'a specs_scheme \<Rightarrow> spec_view" where
  "spec_view s = \<lparr>v_type = spec_type s, v_align = spec_align s, v_width_kind = dynamic_width s,
     v_precision_kind = dynamic_precision s, v_sign = spec_sign s, v_upper = spec_upper s,
     v_alt = spec_alt s, v_localized = spec_localized s, v_fill_size = fill_size s\<rparr>"

lemmas spec_getters = spec_type_def spec_align_def dynamic_width_def dynamic_precision_def spec_sign_def
  spec_upper_def spec_alt_def spec_localized_def fill_size_def

lemmas spec_setters = set_type_def set_align_def set_dynamic_width_def set_dynamic_precision_def set_sign_def
  set_upper_def set_alt_def clear_alt_def set_localized_def set_fill_size_def

lemma masks_disjoint [simp]:
  "type_mask AND align_mask = 0" "type_mask AND width_mask = 0" "type_mask AND precision_mask = 0"
  "type_mask AND sign_mask = 0" "type_mask AND uppercase_mask = 0"
  "type_mask AND alternate_mask = 0" "type_mask AND localized_mask = 0"
  "type_mask AND fill_size_mask = 0" "align_mask AND type_mask = 0" "align_mask AND width_mask = 0"
  "align_mask AND precision_mask = 0" "align_mask AND sign_mask = 0"
  "align_mask AND uppercase_mask = 0" "align_mask AND alternate_mask = 0"
  "align_mask AND localized_mask = 0" "align_mask AND fill_size_mask = 0"
  "width_mask AND type_mask = 0" "width_mask AND align_mask = 0" "width_mask AND precision_mask = 0"
  "width_mask AND sign_mask = 0" "width_mask AND uppercase_mask = 0"
  "width_mask AND alternate_mask = 0" "width_mask AND localized_mask = 0"
  "width_mask AND fill_size_mask = 0" "precision_mask AND type_mask = 0"
  "precision_mask AND align_mask = 0" "precision_mask AND width_mask = 0"
  "precision_mask AND sign_mask = 0" "precision_mask AND uppercase_mask = 0"
  "precision_mask AND alternate_mask = 0" "precision_mask AND localized_mask = 0"
  "precision_mask AND fill_size_mask = 0" "sign_mask AND type_mask = 0"
  "sign_mask AND align_mask = 0" "sign_mask AND width_mask = 0" "sign_mask AND precision_mask = 0"
  "sign_mask AND uppercase_mask = 0" "sign_mask AND alternate_mask = 0"
  "sign_mask AND localized_mask = 0" "sign_mask AND fill_size_mask = 0"
  "uppercase_mask AND type_mask = 0" "uppercase_mask AND align_mask = 0"
  "uppercase_mask AND width_mask = 0" "uppercase_mask AND precision_mask = 0"
  "uppercase_mask AND sign_mask = 0" "uppercase_mask AND alternate_mask = 0"
  "uppercase_mask AND localized_mask = 0" "uppercase_mask AND fill_size_mask = 0"
  "alternate_mask AND type_mask = 0" "alternate_mask AND align_mask = 0"
  "alternate_mask AND width_mask = 0" "alternate_mask AND precision_mask = 0"
  "alternate_mask AND sign_mask = 0" "alternate_mask AND uppercase_mask = 0"
  "alternate_mask AND localized_mask = 0" "alternate_mask AND fill_size_mask = 0"
  "localized_mask AND type_mask = 0" "localized_mask AND align_mask = 0"
  "localized_mask AND width_mask = 0" "localized_mask AND precision_mask = 0"
  "localized_mask AND sign_mask = 0" "localized_mask AND uppercase_mask = 0"
  "localized_mask AND alternate_mask = 0" "localized_mask AND fill_size_mask = 0"
  "fill_size_mask AND type_mask = 0" "fill_size_mask AND align_mask = 0"
  "fill_size_mask AND width_mask = 0" "fill_size_mask AND precision_mask = 0"
  "fill_size_mask AND sign_mask = 0" "fill_size_mask AND uppercase_mask = 0"
  "fill_size_mask AND alternate_mask = 0" "fill_size_mask AND localized_mask = 0"
  by (simp_all add: spec_layout)

lemma flag_masks_nonzero [simp]: "uppercase_mask \<noteq> 0" "alternate_mask \<noteq> 0" "localized_mask \<noteq> 0"
  by (simp_all add: spec_layout)

lemma spec_view_setters:
  assumes "t < 8" and "n < 8"
  shows "spec_view (set_type t s) = (spec_view s)\<lparr>v_type := t\<rparr> \<and>
    spec_view (set_align a s) = (spec_view s)\<lparr>v_align := a\<rparr> \<and>
    spec_view (set_dynamic_width k s) = (spec_view s)\<lparr>v_width_kind := k\<rparr> \<and>
    spec_view (set_dynamic_precision k s) = (spec_view s)\<lparr>v_precision_kind := k\<rparr> \<and>
    spec_view (set_sign g s) = (spec_view s)\<lparr>v_sign := g\<rparr> \<and>
    spec_view (set_upper s) = (spec_view s)\<lparr>v_upper := True\<rparr> \<and>
    spec_view (set_alt s) = (spec_view s)\<lparr>v_alt := True\<rparr> \<and>
    spec_view (clear_alt s) = (spec_view s)\<lparr>v_alt := False\<rparr> \<and>
    spec_view (set_localized s) = (spec_view s)\<lparr>v_localized := True\<rparr> \<and>
    spec_view (set_fill_size n s) = (spec_view s)\<lparr>v_fill_size := n\<rparr>"
proof -
  note set = fits_fget[OF type_fits[OF assms(1)]] fits_fget[OF align_fits] fits_fget[OF kind_fits(1)]
    fits_fget[OF kind_fits(2)] fits_fget[OF sgn_fits] fits_fget[OF size_fits[OF assms(2)]]
  note other = fits_other[OF type_fits[OF assms(1)]] fits_other[OF align_fits] fits_other[OF kind_fits(1)]
    fits_other[OF kind_fits(2)] fits_other[OF sgn_fits] fits_other[OF size_fits[OF assms(2)]]
  have n: "unat (of_nat n :: u32) = n" using assms(2) by (simp add: unat_of_nat take_bit_nat_eq_self)
  show ?thesis
    by (intro conjI; simp add: n spec_view_def spec_getters spec_setters set other fget_or_other flag_or
        and_not_mask)
qed

text \<open>The packed specifiers behave like a record: every setter changes its field to the
  value given and no other, whatever was packed before, although all share one word.\<close>

theorem specs_fields_independent:
  assumes "t < 8" and "n < 8"
  shows "spec_view (set_type t s) = (spec_view s)\<lparr>v_type := t\<rparr> \<and>
    spec_view (set_align a s) = (spec_view s)\<lparr>v_align := a\<rparr> \<and>
    spec_view (set_dynamic_width k s) = (spec_view s)\<lparr>v_width_kind := k\<rparr> \<and>
    spec_view (set_dynamic_precision k s) = (spec_view s)\<lparr>v_precision_kind := k\<rparr> \<and>
    spec_view (set_sign g s) = (spec_view s)\<lparr>v_sign := g\<rparr> \<and>
    spec_view (set_upper s) = (spec_view s)\<lparr>v_upper := True\<rparr> \<and>
    spec_view (set_alt s) = (spec_view s)\<lparr>v_alt := True\<rparr> \<and>
    spec_view (clear_alt s) = (spec_view s)\<lparr>v_alt := False\<rparr> \<and>
    spec_view (set_localized s) = (spec_view s)\<lparr>v_localized := True\<rparr> \<and>
    spec_view (set_fill_size n s) = (spec_view s)\<lparr>v_fill_size := n\<rparr>"
  using assms by (rule spec_view_setters)

theorem specs_fields_independent_witness:
  "spec_view (set_align A_center (set_type pres_hex default_specs)) =
     (spec_view default_specs)\<lparr>v_type := pres_hex, v_align := A_center\<rparr>"
proof -
  have "pres_hex < 8" by (simp add: pres_defs)
  then have "spec_view (set_type pres_hex s) = (spec_view s)\<lparr>v_type := pres_hex\<rparr> \<and>
      spec_view (set_align a s) = (spec_view s)\<lparr>v_align := a\<rparr>" for a and s :: specs
    using specs_fields_independent[of pres_hex 1 s a] by simp
  then show ?thesis by simp
qed

section \<open>Argument types\<close>

datatype arg_type =
    None_type | Int_type | Uint_type | Long_long_type | Ulong_long_type | Int128_type | Uint128_type
  | Bool_type | Char_type | Float_type | Double_type | Long_double_type | Cstring_type | String_type
  | Pointer_type | Custom_type

fun type_code :: "arg_type \<Rightarrow> nat" where
  "type_code None_type = 0" | "type_code Int_type = 1" | "type_code Uint_type = 2"
| "type_code Long_long_type = 3" | "type_code Ulong_long_type = 4" | "type_code Int128_type = 5"
| "type_code Uint128_type = 6" | "type_code Bool_type = 7" | "type_code Char_type = 8"
| "type_code Float_type = 9" | "type_code Double_type = 10" | "type_code Long_double_type = 11"
| "type_code Cstring_type = 12" | "type_code String_type = 13" | "type_code Pointer_type = 14"
| "type_code Custom_type = 15"

definition is_integral_type :: "arg_type \<Rightarrow> bool" where
  "is_integral_type t \<longleftrightarrow> type_code t > type_code None_type \<and> type_code t \<le> type_code Char_type"

definition is_arithmetic_type :: "arg_type \<Rightarrow> bool" where
  "is_arithmetic_type t \<longleftrightarrow> type_code t > type_code None_type \<and> type_code t \<le> type_code Long_double_type"

definition type_bit :: "arg_type \<Rightarrow> u32" where
  "type_bit t = push_bit (type_code t) 1"

definition type_in :: "arg_type \<Rightarrow> u32 \<Rightarrow> bool" where
  "type_in t s \<longleftrightarrow> drop_bit (type_code t) s AND 1 \<noteq> 0"

definition sint_set :: u32 where "sint_set = type_bit Int_type OR type_bit Long_long_type OR type_bit Int128_type"
definition uint_set :: u32 where "uint_set = type_bit Uint_type OR type_bit Ulong_long_type OR type_bit Uint128_type"
definition bool_set :: u32 where "bool_set = type_bit Bool_type"
definition char_set :: u32 where "char_set = type_bit Char_type"
definition float_set :: u32 where
  "float_set = type_bit Float_type OR type_bit Double_type OR type_bit Long_double_type"
definition string_set :: u32 where "string_set = type_bit String_type"
definition cstring_set :: u32 where "cstring_set = type_bit Cstring_type"
definition pointer_set :: u32 where "pointer_set = type_bit Pointer_type"
definition integral_set :: u32 where "integral_set = sint_set OR uint_set OR bool_set OR char_set"

lemmas type_sets = sint_set_def uint_set_def bool_set_def char_set_def float_set_def string_set_def
  cstring_set_def pointer_set_def integral_set_def type_bit_def

lemma type_in_integral: "type_in t integral_set \<longleftrightarrow> is_integral_type t"
  by (cases t) (simp_all add: type_in_def type_sets is_integral_type_def)

end
