(* ===== verification/Fmt_Args.thy ===== *)
theory Fmt_Args
  imports Fmt_Specs Stdio
begin

text \<open>
  \<open>fmt/base.h\<close>: type-erased formatting arguments.  Up to fifteen argument types are packed as
  four-bit codes into the descriptor, more are stored beside the values; named arguments are a
  table of names and positions.
\<close>

section \<open>Values\<close>

text \<open>
  \<open>basic_format_arg\<close>: a type tag with the value of that type.  Floating-point values are bit
  patterns; a custom value is the address of the object.  A C string is its address and its text; address 0 is the null pointer.
\<close>

datatype arg_value =
    V_none
  | V_int "32 word"
  | V_uint "32 word"
  | V_long_long "64 word"
  | V_ulong_long "64 word"
  | V_int128 "128 word"
  | V_uint128 "128 word"
  | V_bool bool
  | V_char char
  | V_float "32 word"
  | V_double "64 word"
  | V_long_double "128 word"
  | V_cstring "64 word" string
  | V_string string
  | V_pointer "64 word"
  | V_custom nat

fun value_type :: "arg_value \<Rightarrow> arg_type" where
  "value_type V_none = None_type"
| "value_type (V_int v) = Int_type"
| "value_type (V_uint v) = Uint_type"
| "value_type (V_long_long v) = Long_long_type"
| "value_type (V_ulong_long v) = Ulong_long_type"
| "value_type (V_int128 v) = Int128_type"
| "value_type (V_uint128 v) = Uint128_type"
| "value_type (V_bool v) = Bool_type"
| "value_type (V_char v) = Char_type"
| "value_type (V_float v) = Float_type"
| "value_type (V_double v) = Double_type"
| "value_type (V_long_double v) = Long_double_type"
| "value_type (V_cstring p v) = Cstring_type"
| "value_type (V_string v) = String_type"
| "value_type (V_pointer v) = Pointer_type"
| "value_type (V_custom v) = Custom_type"

section \<open>Named arguments\<close>

text \<open>One entry for each argument, with its name if it has one; the table \<open>named_args\<close> is filled
  by \<open>init_named_arg\<close> from left to right.\<close>

definition check_for_duplicate :: "(string \<times> int) list \<Rightarrow> string \<Rightarrow> exn + unit" where
  "check_for_duplicate named_args arg_name =
     (if list_ex (\<lambda>e. fst e = arg_name) named_args then Inl (Format_error ''duplicate named arg'') else Inr ())"

fun init_named_args :: "string option list \<Rightarrow> int \<Rightarrow> (string \<times> int) list \<Rightarrow> exn + (string \<times> int) list" where
  "init_named_args [] arg_index named_args = Inr named_args"
| "init_named_args (None # names) arg_index named_args = init_named_args names (arg_index + 1) named_args"
| "init_named_args (Some n # names) arg_index named_args =
     (case check_for_duplicate named_args n of
        Inl e \<Rightarrow> Inl e
      | Inr _ \<Rightarrow> init_named_args names (arg_index + 1) (named_args @ [(n, arg_index)]))"

section \<open>The argument list\<close>

definition packed_arg_bits :: nat where "packed_arg_bits = 4"
definition max_packed_args :: nat where "max_packed_args = 62 div packed_arg_bits"
definition is_unpacked_bit :: u64 where "is_unpacked_bit = push_bit 63 1"
definition has_named_args_bit :: u64 where "has_named_args_bit = push_bit 62 1"

fun encode_types :: "arg_type list \<Rightarrow> u64" where
  "encode_types [] = 0"
| "encode_types (t # ts) = of_nat (type_code t) OR push_bit packed_arg_bits (encode_types ts)"

definition make_descriptor :: "arg_type list \<Rightarrow> u64" where
  "make_descriptor ts =
     (if length ts \<le> max_packed_args then encode_types ts else is_unpacked_bit OR of_nat (length ts))"

text \<open>
  \<open>values_\<close> or \<open>args_\<close>, with \<open>named_args\<close> what \<open>values_[-1]\<close> points to.  In a packed list only
  the union of a value is kept and the tag comes from the descriptor (\<open>read_union\<close>).
\<close>

record format_args =
  fa_desc :: u64
  fa_values :: "arg_value list"
  fa_named :: "(string \<times> int) list"

definition make_format_args :: "(string option \<times> arg_value) list \<Rightarrow> exn + format_args" where
  "make_format_args args =
     (case init_named_args (map fst args) 0 [] of
        Inl e \<Rightarrow> Inl e
      | Inr named \<Rightarrow>
          Inr \<lparr>fa_desc = make_descriptor (map (value_type \<circ> snd) args) OR
                (if named \<noteq> [] then has_named_args_bit else 0),
               fa_values = map snd args, fa_named = named\<rparr>)"

definition is_packed :: "format_args \<Rightarrow> bool" where
  "is_packed a \<longleftrightarrow> fa_desc a AND is_unpacked_bit = 0"

definition has_named_args :: "format_args \<Rightarrow> bool" where
  "has_named_args a \<longleftrightarrow> fa_desc a AND has_named_args_bit \<noteq> 0"

definition packed_type :: "format_args \<Rightarrow> nat \<Rightarrow> nat" where
  "packed_type a i = unat (drop_bit (i * packed_arg_bits) (fa_desc a) AND (push_bit packed_arg_bits 1 - 1))"

text \<open>\<open>static_cast<int>\<close> keeps the low 32 bits.\<close>

definition max_size :: "format_args \<Rightarrow> int" where
  "max_size a = (if is_packed a then int max_packed_args
     else sint (ucast (fa_desc a AND NOT is_unpacked_bit) :: u32))"

text \<open>
  A union read under the tag of the given code: the value that was stored if that is its type, and nothing is known
  of what is read otherwise.
\<close>

definition read_union :: "nat \<Rightarrow> arg_value \<Rightarrow> arg_value" where
  "read_union code v = (if code = type_code (value_type v) then v else undefined)"

definition get_arg :: "int \<Rightarrow> format_args \<Rightarrow> arg_value" where
  "get_arg i a =
     (if \<not> is_packed a then (if i < max_size a then fa_values a ! nat i else V_none)
      else if unat (word_of_int i :: u32) \<ge> max_packed_args then V_none
      else let code = packed_type a (nat i)
           in if code \<noteq> type_code None_type then read_union code (fa_values a ! nat i) else V_none)"

definition get_id :: "string \<Rightarrow> format_args \<Rightarrow> int" where
  "get_id name a =
     (if \<not> has_named_args a then -1
      else case List.find (\<lambda>e. fst e = name) (fa_named a) of Some e \<Rightarrow> snd e | None \<Rightarrow> -1)"

definition get_arg_by_name :: "string \<Rightarrow> format_args \<Rightarrow> arg_value" where
  "get_arg_by_name name a = (let i = get_id name a in if i \<ge> 0 then get_arg i a else V_none)"

end
