(* ===== verification/Fmt_Parse.thy ===== *)
theory Fmt_Parse
  imports Fmt_Specs Stdio
begin

text \<open>
  \<open>fmt/base.h\<close>: the parse contexts and the parser of format specifiers.  An iterator pair
  \<open>[begin, end)\<close> is the text that is left; a \<open>report_error\<close> throws, so a function that may call
  it returns a sum.
\<close>

section \<open>Results\<close>

definition fail :: "string \<Rightarrow> exn + 'a" where
  "fail message = Inl (Format_error message)"

definition chain :: "exn + 'a \<Rightarrow> ('a \<Rightarrow> exn + 'b) \<Rightarrow> exn + 'b" where
  "chain r f = (case r of Inl e \<Rightarrow> Inl e | Inr a \<Rightarrow> f a)"

lemma chain_simps [simp]: "chain (Inl e) f = Inl e" "chain (Inr a) f = f a"
  by (simp_all add: chain_def)

lemma chain_Inr: "chain r f = Inr b \<longleftrightarrow> (\<exists>a. r = Inr a \<and> f a = Inr b)"
  by (cases r) auto

lemma fail_not_Inr [simp]: "fail m \<noteq> Inr a" by (simp add: fail_def)

definition require :: "bool \<Rightarrow> string \<Rightarrow> exn + unit" where
  "require ok message = (if ok then Inr () else fail message)"

lemma require_simps [simp]: "require True m = Inr ()" "require ok m = Inr u \<longleftrightarrow> ok"
  by (auto simp: require_def)

section \<open>Parse contexts\<close>

text \<open>
  \<open>next_arg_id_\<close>, and the argument types when the check runs at compile time
  (\<open>compile_parse_context\<close>); \<open>None\<close> at run time, where ids are checked when the argument is
  fetched.
\<close>

record parse_context =
  p_next :: int
  p_types :: "arg_type list option"

definition mk_context :: "arg_type list option \<Rightarrow> parse_context" where
  "mk_context types = \<lparr>p_next = 0, p_types = types\<rparr>"

definition num_args :: "parse_context \<Rightarrow> int" where
  "num_args ctx = (case p_types ctx of None \<Rightarrow> 0 | Some ts \<Rightarrow> int (length ts))"

definition do_check_arg_id :: "int \<Rightarrow> parse_context \<Rightarrow> exn + unit" where
  "do_check_arg_id arg_id ctx =
     (if p_types ctx \<noteq> None then require (arg_id < num_args ctx) ''argument not found'' else Inr ())"

definition next_arg_id :: "parse_context \<Rightarrow> exn + (int \<times> parse_context)" where
  "next_arg_id ctx =
     (if p_next ctx < 0 then fail ''cannot switch from manual to automatic argument indexing''
      else let i = p_next ctx; ctx = ctx\<lparr>p_next := i + 1\<rparr>
           in chain (do_check_arg_id i ctx) (\<lambda>_. Inr (i, ctx)))"

definition check_arg_id :: "int \<Rightarrow> parse_context \<Rightarrow> exn + parse_context" where
  "check_arg_id i ctx =
     (if p_next ctx > 0 then fail ''cannot switch from automatic to manual argument indexing''
      else let ctx = ctx\<lparr>p_next := -1\<rparr> in chain (do_check_arg_id i ctx) (\<lambda>_. Inr ctx))"

definition check_arg_name :: "string \<Rightarrow> parse_context \<Rightarrow> parse_context" where
  "check_arg_name n ctx = ctx\<lparr>p_next := -1\<rparr>"

definition check_dynamic_spec :: "int \<Rightarrow> parse_context \<Rightarrow> exn + unit" where
  "check_dynamic_spec arg_id ctx =
     (case p_types ctx of
        None \<Rightarrow> Inr ()
      | Some types \<Rightarrow>
          require (\<not> (arg_id < num_args ctx \<and> \<not> is_integral_type (types ! nat arg_id)))
            ''width/precision is not integer'')"

section \<open>Numbers and argument references\<close>

definition code_point_length :: "char \<Rightarrow> nat" where
  "code_point_length c =
     unat (drop_bit (2 * (of_char c div 8)) (0x3a55000000000000 :: u64) AND 3) + 1"

text \<open>The loop of \<open>parse_nonnegative_int\<close>: previous value, value, digits read, the last of them,
  and the rest.\<close>

fun scan_digits :: "string \<Rightarrow> u32 \<Rightarrow> u32 \<Rightarrow> nat \<Rightarrow> char \<Rightarrow> u32 \<times> u32 \<times> nat \<times> char \<times> string" where
  "scan_digits [] prev val n c = (prev, val, n, c, [])"
| "scan_digits (d # ds) prev val n c =
     (if is_digit d then scan_digits ds val (val * 10 + of_nat (digit_val d)) (n + 1) d
      else (prev, val, n, c, d # ds))"

definition int_max :: int where "int_max = 2147483647"

definition parse_nonnegative_int :: "string \<Rightarrow> int \<Rightarrow> int \<times> string" where
  "parse_nonnegative_int s error_value =
     (let (prev, val, num_digits, last, rest) = scan_digits s 0 0 0 (CHR ''0'');
          digits10 = 32 * 3 div 10
      in (if num_digits \<le> digits10 then sint val
          else if num_digits = digits10 + 1 \<and>
                  (ucast prev :: u64) * 10 + of_nat (digit_val last) \<le> word_of_int int_max
               then sint val else error_value, rest))"

definition parse_align :: "char \<Rightarrow> align" where
  "parse_align c = (if c = CHR ''<'' then A_left else if c = CHR ''>'' then A_right
     else if c = CHR ''^'' then A_center else A_none)"

definition is_name_start :: "char \<Rightarrow> bool" where
  "is_name_start c \<longleftrightarrow> (97 \<le> (of_char c :: nat) \<and> (of_char c :: nat) \<le> 122) \<or>
     (65 \<le> (of_char c :: nat) \<and> (of_char c :: nat) \<le> 90) \<or> c = CHR ''_''"

datatype arg_ref = Ref_index int | Ref_name string

text \<open>\<open>parse_arg_id\<close>: the reference its handler is called with, and the rest.\<close>

definition parse_arg_id :: "string \<Rightarrow> exn + (arg_ref \<times> string)" where
  "parse_arg_id s =
     (let c = hd s
      in if is_digit c then
           (let (index, rest) = (if c \<noteq> CHR ''0'' then parse_nonnegative_int s int_max else (0, tl s))
            in if rest = [] \<or> (hd rest \<noteq> CHR ''}'' \<and> hd rest \<noteq> CHR '':'')
               then fail ''invalid format string'' else Inr (Ref_index index, rest))
         else if \<not> is_name_start c then fail ''invalid format string''
         else let name = c # takeWhile (\<lambda>x. is_name_start x \<or> is_digit x) (tl s)
              in Inr (Ref_name name, drop (length name) s))"

section \<open>Dynamic width and precision\<close>

record dyn_specs = specs +
  ds_width_ref :: arg_ref
  ds_precision_ref :: arg_ref

definition default_dyn_specs :: dyn_specs where
  "default_dyn_specs = specs.extend default_specs
     \<lparr>ds_width_ref = Ref_index 0, ds_precision_ref = Ref_index 0\<rparr>"

text \<open>\<open>dynamic_spec_handler\<close>.\<close>

definition dynamic_spec_ref :: "arg_ref \<Rightarrow> parse_context \<Rightarrow> exn + (arg_id_kind \<times> parse_context)" where
  "dynamic_spec_ref ref ctx =
     (case ref of
        Ref_index i \<Rightarrow>
          chain (check_arg_id i ctx) (\<lambda>ctx. chain (check_dynamic_spec i ctx) (\<lambda>_. Inr (K_index, ctx)))
      | Ref_name n \<Rightarrow> Inr (K_name, check_arg_name n ctx))"

text \<open>\<open>integer | "{" [arg_id] "}"\<close>: the number or the reference found, the kind, the rest.\<close>

record dyn_result =
  dr_value :: "int option"
  dr_ref :: "arg_ref option"
  dr_kind :: arg_id_kind
  dr_rest :: string
  dr_ctx :: parse_context

definition close_brace :: "string \<Rightarrow> exn + string" where
  "close_brace s = (if s \<noteq> [] \<and> hd s = CHR ''}'' then Inr (tl s) else fail ''invalid format string'')"

definition parse_dynamic_spec :: "string \<Rightarrow> parse_context \<Rightarrow> exn + dyn_result" where
  "parse_dynamic_spec s ctx =
     (if is_digit (hd s) then
        (let (val, rest) = parse_nonnegative_int s (-1)
         in chain (require (val \<noteq> -1) ''number is too big'')
              (\<lambda>_. Inr \<lparr>dr_value = Some val, dr_ref = None, dr_kind = K_none, dr_rest = rest, dr_ctx = ctx\<rparr>))
      else if hd s \<noteq> CHR ''{'' then fail ''invalid format string''
      else
        let s = tl s
        in if s = [] then fail ''invalid format string''
           else if hd s = CHR ''}'' \<or> hd s = CHR '':'' then
             chain (next_arg_id ctx) (\<lambda>(i, ctx).
               chain (check_dynamic_spec i ctx) (\<lambda>_.
                 chain (close_brace s) (\<lambda>rest.
                   Inr \<lparr>dr_value = None, dr_ref = Some (Ref_index i), dr_kind = K_index, dr_rest = rest,
                        dr_ctx = ctx\<rparr>)))
           else
             chain (parse_arg_id s) (\<lambda>(ref, s).
               chain (dynamic_spec_ref ref ctx) (\<lambda>(kind, ctx).
                 chain (close_brace s) (\<lambda>rest.
                   Inr \<lparr>dr_value = None, dr_ref = Some ref, dr_kind = kind, dr_rest = rest, dr_ctx = ctx\<rparr>))))"

type_synonym spec_parse = "string \<times> dyn_specs \<times> parse_context"

definition parse_width :: "string \<Rightarrow> dyn_specs \<Rightarrow> parse_context \<Rightarrow> exn + spec_parse" where
  "parse_width s sp ctx =
     chain (parse_dynamic_spec s ctx) (\<lambda>r.
       let sp = (case dr_value r of None \<Rightarrow> sp | Some v \<Rightarrow> sp\<lparr>sp_width := v\<rparr>);
           sp = (case dr_ref r of None \<Rightarrow> sp | Some f \<Rightarrow> sp\<lparr>ds_width_ref := f\<rparr>)
       in Inr (dr_rest r, set_dynamic_width (dr_kind r) sp, dr_ctx r))"

definition parse_precision :: "string \<Rightarrow> dyn_specs \<Rightarrow> parse_context \<Rightarrow> exn + spec_parse" where
  "parse_precision s sp ctx =
     (let s = tl s
      in if s = [] then fail ''invalid precision''
         else chain (parse_dynamic_spec s ctx) (\<lambda>r.
           let sp = (case dr_value r of None \<Rightarrow> sp | Some v \<Rightarrow> sp\<lparr>sp_precision := v\<rparr>);
               sp = (case dr_ref r of None \<Rightarrow> sp | Some f \<Rightarrow> sp\<lparr>ds_precision_ref := f\<rparr>)
           in Inr (dr_rest r, set_dynamic_precision (dr_kind r) sp, dr_ctx r)))"

section \<open>\<open>parse_format_specs\<close>\<close>

text \<open>\<open>enum class state\<close>, by its values.\<close>

definition st_start :: nat where "st_start = 0"
definition st_align :: nat where "st_align = 1"
definition st_sign :: nat where "st_sign = 2"
definition st_hash :: nat where "st_hash = 3"
definition st_zero :: nat where "st_zero = 4"
definition st_width :: nat where "st_width = 5"
definition st_precision :: nat where "st_precision = 6"
definition st_locale :: nat where "st_locale = 7"

lemmas states = st_start_def st_align_def st_sign_def st_hash_def st_zero_def st_width_def
  st_precision_def st_locale_def

definition enter_state :: "nat \<Rightarrow> nat \<Rightarrow> bool \<Rightarrow> exn + unit" where
  "enter_state current st valid = require (\<not> (current \<ge> st \<or> \<not> valid)) ''invalid format specifier''"

text \<open>What one turn of the loop does: return, or go on in a new state.\<close>

datatype spec_turn = Return spec_parse | Continue nat spec_parse

definition parse_presentation_type ::
    "presentation \<Rightarrow> u32 \<Rightarrow> arg_type \<Rightarrow> string \<Rightarrow> dyn_specs \<Rightarrow> parse_context \<Rightarrow> exn + spec_turn" where
  "parse_presentation_type pres types arg_type s sp ctx =
     chain (require (type_in arg_type types) ''invalid format specifier'')
       (\<lambda>_. Inr (Return (tl s, set_type pres sp, ctx)))"

definition quoted :: "char \<Rightarrow> string" where
  "quoted c = [CHR 0x27, c, CHR 0x27]"

definition parse_fill :: "string \<Rightarrow> nat \<Rightarrow> dyn_specs \<Rightarrow> parse_context \<Rightarrow> exn + spec_turn" where
  "parse_fill s st sp ctx =
     (if hd s = CHR ''}'' then Inr (Return (s, sp, ctx))
      else let n = code_point_length (hd s)
           in if length s \<le> n then fail ''invalid format specifier''
              else if hd s = CHR ''{'' then fail (''invalid fill character '' @ quoted (CHR ''{''))
              else let alignment = parse_align (s ! n)
                   in chain (enter_state st st_align (alignment \<noteq> A_none)) (\<lambda>_.
                        case set_fill (take n s) sp of
                          None \<Rightarrow> fail ''invalid fill''
                        | Some sp \<Rightarrow> Inr (Continue st_align (drop (n + 1) s, set_align alignment sp, ctx))))"

text \<open>The labels of the \<open>switch\<close>.  A presentation letter comes with its type, the argument
  types it is for and whether it is the upper-case one.\<close>

datatype spec_char =
    Sc_align | Sc_sign | Sc_hash | Sc_zero | Sc_width | Sc_precision | Sc_locale
  | Sc_type presentation u32 bool | Sc_close | Sc_other

definition spec_char :: "char \<Rightarrow> spec_char" where
  "spec_char c =
     (if c = CHR ''<'' \<or> c = CHR ''>'' \<or> c = CHR ''^'' then Sc_align
      else if c = CHR ''+'' \<or> c = CHR '' '' \<or> c = CHR ''-'' then Sc_sign
      else if c = CHR ''#'' then Sc_hash
      else if c = CHR ''0'' then Sc_zero
      else if is_digit c \<or> c = CHR ''{'' then Sc_width
      else if c = CHR ''.'' then Sc_precision
      else if c = CHR ''L'' then Sc_locale
      else if c = CHR ''d'' then Sc_type pres_dec integral_set False
      else if c = CHR ''X'' then Sc_type pres_hex integral_set True
      else if c = CHR ''x'' then Sc_type pres_hex integral_set False
      else if c = CHR ''o'' then Sc_type pres_oct integral_set False
      else if c = CHR ''B'' then Sc_type pres_bin integral_set True
      else if c = CHR ''b'' then Sc_type pres_bin integral_set False
      else if c = CHR ''E'' then Sc_type pres_exp float_set True
      else if c = CHR ''e'' then Sc_type pres_exp float_set False
      else if c = CHR ''F'' then Sc_type pres_fixed float_set True
      else if c = CHR ''f'' then Sc_type pres_fixed float_set False
      else if c = CHR ''G'' then Sc_type pres_general float_set True
      else if c = CHR ''g'' then Sc_type pres_general float_set False
      else if c = CHR ''A'' then Sc_type pres_hexfloat float_set True
      else if c = CHR ''a'' then Sc_type pres_hexfloat float_set False
      else if c = CHR ''c'' then Sc_type pres_chr integral_set False
      else if c = CHR ''s'' then Sc_type pres_string (bool_set OR string_set OR cstring_set) False
      else if c = CHR ''p'' then Sc_type pres_pointer (pointer_set OR cstring_set) False
      else if c = CHR ''?'' then Sc_type pres_debug (char_set OR string_set OR cstring_set) False
      else if c = CHR ''}'' then Sc_close
      else Sc_other)"

definition spec_turn ::
    "char \<Rightarrow> string \<Rightarrow> nat \<Rightarrow> dyn_specs \<Rightarrow> parse_context \<Rightarrow> arg_type \<Rightarrow> exn + spec_turn" where
  "spec_turn c s st sp ctx arg_type =
     (case spec_char c of
        Sc_align \<Rightarrow>
          chain (enter_state st st_align True)
            (\<lambda>_. Inr (Continue st_align (tl s, set_align (parse_align c) sp, ctx)))
      | Sc_sign \<Rightarrow>
          chain (enter_state st st_sign (type_in arg_type (sint_set OR float_set)))
            (\<lambda>_. Inr (Continue st_sign
               (tl s, if c = CHR ''-'' then sp else set_sign (if c = CHR '' '' then S_space else S_plus) sp, ctx)))
      | Sc_hash \<Rightarrow>
          chain (enter_state st st_hash (is_arithmetic_type arg_type))
            (\<lambda>_. Inr (Continue st_hash (tl s, set_alt sp, ctx)))
      | Sc_zero \<Rightarrow>
          chain (enter_state st st_zero True) (\<lambda>_.
            chain (require (is_arithmetic_type arg_type) ''format specifier requires numeric argument'') (\<lambda>_.
              Inr (Continue st_zero
                (tl s, if spec_align sp = A_none then set_fill_char (CHR ''0'') (set_align A_numeric sp) else sp,
                 ctx))))
      | Sc_width \<Rightarrow>
          chain (enter_state st st_width True)
            (\<lambda>_. chain (parse_width s sp ctx) (\<lambda>p. Inr (Continue st_width p)))
      | Sc_precision \<Rightarrow>
          chain (enter_state st st_precision (type_in arg_type (float_set OR string_set OR cstring_set)))
            (\<lambda>_. chain (parse_precision s sp ctx) (\<lambda>p. Inr (Continue st_precision p)))
      | Sc_locale \<Rightarrow>
          chain (enter_state st st_locale (is_arithmetic_type arg_type))
            (\<lambda>_. Inr (Continue st_locale (tl s, set_localized sp, ctx)))
      | Sc_type pres types upper \<Rightarrow>
          chain (require (\<not> (c = CHR ''c'' \<and> arg_type = Bool_type)) ''invalid format specifier'') (\<lambda>_.
            parse_presentation_type pres types arg_type s (if upper then set_upper sp else sp) ctx)
      | Sc_close \<Rightarrow> Inr (Return (s, sp, ctx))
      | Sc_other \<Rightarrow> parse_fill s st sp ctx)"

lemma scan_digits_rest: "scan_digits s p v n c = (p', v', n', c', rest) \<Longrightarrow> length rest \<le> length s"
proof (induction s arbitrary: p v n c)
  case (Cons d s)
  then show ?case by (auto split: if_splits intro: le_SucI)
qed simp

lemma parse_nonnegative_int_shrinks:
  assumes "is_digit (hd s)" "s \<noteq> []" "parse_nonnegative_int s e = (v, rest)"
  shows "length rest < length s"
proof -
  obtain d ds where s: "s = d # ds" using assms(2) by (cases s) auto
  obtain p v' n c where sc: "scan_digits ds 0 (0 * 10 + of_nat (digit_val d)) (0 + 1) d = (p, v', n, c, rest)"
    using assms(1,3) by (auto simp: parse_nonnegative_int_def s Let_def split: prod.splits)
  with scan_digits_rest[OF sc] show ?thesis by (simp add: s)
qed

lemma parse_arg_id_shrinks:
  assumes "parse_arg_id s = Inr (r, rest)" "s \<noteq> []"
  shows "length rest < length s"
proof (cases "is_digit (hd s)")
  case True
  obtain i rest' where p: "(if hd s \<noteq> CHR ''0'' then parse_nonnegative_int s int_max else (0, tl s)) = (i, rest')"
    by fastforce
  then have "rest = rest'" using assms(1) True by (simp add: parse_arg_id_def Let_def split: if_splits)
  with p parse_nonnegative_int_shrinks[OF True assms(2)] assms(2) show ?thesis
    by (cases "hd s = CHR ''0''") auto
next
  case False
  with assms show ?thesis by (cases s) (auto simp: parse_arg_id_def Let_def split: if_splits)
qed

lemma close_brace_shrinks: "close_brace s = Inr rest \<Longrightarrow> length rest < length s"
  by (cases s) (auto simp: close_brace_def split: if_splits)

lemma parse_dynamic_spec_shrinks:
  assumes "parse_dynamic_spec s ctx = Inr r" "s \<noteq> []"
  shows "length (dr_rest r) < length s"
proof (cases "is_digit (hd s)")
  case True
  then show ?thesis
    using assms parse_nonnegative_int_shrinks[OF True assms(2)]
    by (auto simp: parse_dynamic_spec_def chain_Inr split: prod.splits)
next
  case False
  obtain s' where s: "s = CHR ''{'' # s'" "s' \<noteq> []"
    using assms False by (cases s) (auto simp: parse_dynamic_spec_def Let_def split: if_splits)
  show ?thesis
  proof (cases "hd s' = CHR ''}'' \<or> hd s' = CHR '':''")
    case True
    then show ?thesis
      using assms(1) False s by (auto simp: parse_dynamic_spec_def chain_Inr Let_def dest!: close_brace_shrinks)
  next
    case not: False
    then obtain ref s2 rest where "parse_arg_id s' = Inr (ref, s2)" "close_brace s2 = Inr rest" "dr_rest r = rest"
      using assms(1) False s by (auto simp: parse_dynamic_spec_def chain_Inr Let_def)
    with parse_arg_id_shrinks[of s' ref s2] close_brace_shrinks[of s2 rest] s show ?thesis by simp
  qed
qed

lemma parse_width_shrinks:
  "parse_width s sp ctx = Inr (rest, sp', ctx') \<Longrightarrow> s \<noteq> [] \<Longrightarrow> length rest < length s"
  by (auto simp: parse_width_def chain_Inr Let_def dest: parse_dynamic_spec_shrinks)

lemma parse_precision_shrinks:
  "parse_precision s sp ctx = Inr (rest, sp', ctx') \<Longrightarrow> length rest < length s"
  by (cases s)
    (auto simp: parse_precision_def chain_Inr Let_def dest: parse_dynamic_spec_shrinks split: if_splits)

lemma spec_turn_shrinks:
  assumes "spec_turn c s st sp ctx t = Inr (Continue st' (rest, sp', ctx'))" "s \<noteq> []"
  shows "length rest < length s"
proof -
  have fill: "parse_fill s st sp ctx = Inr (Continue st' (rest, sp', ctx')) \<Longrightarrow> length rest < length s"
    using assms(2) by (auto simp: parse_fill_def chain_Inr Let_def split: if_splits option.splits)
  have pres: "parse_presentation_type p types t s sp2 ctx \<noteq> Inr (Continue st' (rest, sp', ctx'))" for p types sp2
    by (simp add: parse_presentation_type_def chain_def split: sum.split)
  show ?thesis
    using assms fill pres
    by (cases "spec_char c")
      (auto simp: spec_turn_def chain_Inr dest: parse_width_shrinks parse_precision_shrinks)
qed

function spec_loop ::
    "char \<Rightarrow> string \<Rightarrow> nat \<Rightarrow> dyn_specs \<Rightarrow> parse_context \<Rightarrow> arg_type \<Rightarrow> exn + spec_parse" where
  "spec_loop c s st sp ctx t =
     (if s = [] then Inr (s, sp, ctx)
      else case spec_turn c s st sp ctx t of
             Inl e \<Rightarrow> Inl e
           | Inr (Return p) \<Rightarrow> Inr p
           | Inr (Continue st (rest, sp, ctx)) \<Rightarrow>
               if rest = [] then Inr (rest, sp, ctx) else spec_loop (hd rest) rest st sp ctx t)"
  by pat_completeness auto
termination
  by (relation "measure (\<lambda>(c, s, st, sp, ctx, t). length s)") (auto dest: spec_turn_shrinks)

declare spec_loop.simps [simp del]

definition parse_format_specs :: "string \<Rightarrow> dyn_specs \<Rightarrow> parse_context \<Rightarrow> arg_type \<Rightarrow> exn + spec_parse" where
  "parse_format_specs s sp ctx arg_type =
     (if length s > 1 then
        (let next = s ! 1; c = (if parse_align next = A_none then hd s else CHR 0x00)
         in spec_loop c s st_start sp ctx arg_type)
      else if s = [] then Inr (s, sp, ctx)
      else spec_loop (hd s) s st_start sp ctx arg_type)"

lemma spec_loop_suffix:
  "spec_loop c s st sp ctx t = Inr (rest, sp', ctx') \<Longrightarrow> length rest \<le> length s"
proof (induction c s st sp ctx t rule: spec_loop.induct)
  case (1 c s st sp ctx t)
  show ?case
  proof (cases "s = []")
    case True
    with "1.prems" show ?thesis by (subst (asm) spec_loop.simps) simp
  next
    case False
    note unf = "1.prems"[unfolded spec_loop.simps[of c s st sp ctx t]]
    show ?thesis
    proof (cases "spec_turn c s st sp ctx t")
      case (Inl e)
      with unf False show ?thesis by simp
    next
      case (Inr r)
      show ?thesis
      proof (cases r)
        case (Return p)
        have "length (fst p) \<le> length s"
        proof -
          obtain a b d where p: "p = (a, b, d)" using prod_cases3 by blast
          have w: "parse_presentation_type q types t s sp2 ctx = Inr (Return p) \<Longrightarrow> length a \<le> length s" for q types sp2
            by (auto simp: parse_presentation_type_def chain_Inr p)
          have f: "parse_fill s st sp ctx = Inr (Return p) \<Longrightarrow> length a \<le> length s"
            by (auto simp: parse_fill_def chain_Inr Let_def p split: if_splits option.splits)
          show ?thesis
            using Inr Return w f p
            by (cases "spec_char c") (auto simp: spec_turn_def chain_Inr)
        qed
        with unf False Inr Return show ?thesis by simp
      next
        case (Continue st1 p)
        then obtain a b d where p: "p = (a, b, d)" using prod_cases3 by blast
        have lt: "length a < length s" using spec_turn_shrinks[of c s st sp ctx t st1 a b d] Inr Continue p False by simp
        show ?thesis
        proof (cases "a = []")
          case True
          with unf False Inr Continue p show ?thesis by simp
        next
          case ne: False
          have "spec_loop (hd a) a st1 b d t = Inr (rest, sp', ctx')"
            using unf False Inr Continue p ne by simp
          from "1.IH"[OF False Inr Continue p[symmetric] refl ne this] lt show ?thesis by simp
        qed
      qed
    qed
  qed
qed

lemma parse_format_specs_suffix:
  "parse_format_specs s sp ctx t = Inr (rest, sp', ctx') \<Longrightarrow> length rest \<le> length s"
  by (auto simp: parse_format_specs_def Let_def dest: spec_loop_suffix split: if_splits)

section \<open>Char specifiers\<close>

definition check_char_specs :: "'a specs_scheme \<Rightarrow> exn + bool" where
  "check_char_specs sp =
     (let t = spec_type sp
      in if t \<noteq> pres_none \<and> t \<noteq> pres_chr \<and> t \<noteq> pres_debug then Inr False
         else if spec_align sp = A_numeric \<or> spec_sign sp \<noteq> S_none \<or> spec_alt sp
              then fail ''invalid format specifier for char'' else Inr True)"

text \<open>\<open>native_formatter::parse\<close>.\<close>

definition native_parse :: "arg_type \<Rightarrow> string \<Rightarrow> parse_context \<Rightarrow> exn + spec_parse" where
  "native_parse t s ctx =
     (if s = [] \<or> hd s = CHR ''}'' then Inr (s, default_dyn_specs, ctx)
      else chain (parse_format_specs s default_dyn_specs ctx t) (\<lambda>(rest, sp, ctx).
             if t = Char_type then chain (check_char_specs sp) (\<lambda>_. Inr (rest, sp, ctx))
             else Inr (rest, sp, ctx)))"

lemma native_parse_suffix: "native_parse t s ctx = Inr (rest, sp, ctx') \<Longrightarrow> length rest \<le> length s"
  by (auto simp: native_parse_def chain_Inr dest: parse_format_specs_suffix split: if_splits)

section \<open>Properties\<close>

text \<open>\<open>scan_digits\<close> over a run of digits: the value modulo \<open>2^32\<close> and the number of digits.\<close>

lemma scan_digits_run:
  assumes "list_all is_digit ds" "rest = [] \<or> \<not> is_digit (hd rest)"
  shows "scan_digits (ds @ rest) p v n c =
    (if ds = [] then p else of_nat (dec_val (butlast ds)) + v * 10 ^ (length ds - 1),
     of_nat (dec_val ds) + v * 10 ^ length ds, n + length ds, if ds = [] then c else last ds, rest)"
  using assms
proof (induction ds arbitrary: p v n c)
  case Nil
  then show ?case by (cases rest) auto
next
  case (Cons d ds)
  show ?case
  proof (cases "ds = []")
    case True
    with Cons.prems show ?thesis by (cases rest) (auto simp: dec_val_Cons)
  next
    case False
    then obtain m where m: "length ds = Suc m" by (cases ds) auto
    then have bl: "length (butlast ds) = m" by simp
    have "scan_digits (ds @ rest) v (v * 10 + of_nat (digit_val d)) (n + 1) d =
        (of_nat (dec_val (butlast ds)) + (v * 10 + of_nat (digit_val d)) * 10 ^ m,
         of_nat (dec_val ds) + (v * 10 + of_nat (digit_val d)) * 10 ^ Suc m, n + 1 + Suc m, last ds, rest)"
      using Cons.IH[of v "v * 10 + of_nat (digit_val d)" "n + 1" d] Cons.prems False m by simp
    then show ?thesis
      using Cons.prems False m bl by (simp add: dec_val_Cons algebra_simps)
  qed
qed

lemma dec_val_less: "list_all is_digit ds \<Longrightarrow> dec_val ds < 10 ^ length ds"
proof (induction ds)
  case (Cons d ds)
  have "digit_val d * 10 ^ length ds + dec_val ds < (digit_val d + 1) * 10 ^ length ds" using Cons by simp
  also have "\<dots> \<le> 10 * 10 ^ length ds" using digit_val_le[of d] Cons.prems by (intro mult_le_mono1) simp
  finally show ?case by (simp add: dec_val_Cons)
qed simp

lemma sint_of_nat_small: "n < 2 ^ 31 \<Longrightarrow> sint (of_nat n :: u32) = int n"
proof -
  assume n: "n < 2 ^ 31"
  have "- (2 ^ 31) \<le> int n" "int n < 2 ^ 31" using n by simp_all
  then have "signed_take_bit 31 (int n) = int n" by (rule signed_take_bit_int_eq_self)
  moreover have "sint (word_of_int (int n) :: u32) = signed_take_bit 31 (int n)"
    by (simp only: sint_sbintrunc') simp
  ultimately show ?thesis by simp
qed

lemma parse_nonnegative_int_spec:
  assumes "list_all is_digit ds" "ds \<noteq> []" "rest = [] \<or> \<not> is_digit (hd rest)"
  shows "parse_nonnegative_int (ds @ rest) e =
    (if length ds \<le> 10 \<and> int (dec_val ds) \<le> int_max then int (dec_val ds) else e, rest)"
proof -
  note run = scan_digits_run[OF assms(1,3), of 0 0 0 "CHR ''0''"]
  have eq: "parse_nonnegative_int (ds @ rest) e =
      (if length ds \<le> 9 then sint (of_nat (dec_val ds) :: u32)
       else if length ds = 10 \<and>
         (ucast (of_nat (dec_val (butlast ds)) :: u32) :: u64) * 10 + of_nat (digit_val (last ds)) \<le> word_of_int int_max
       then sint (of_nat (dec_val ds) :: u32) else e, rest)"
    using assms(2) by (simp add: parse_nonnegative_int_def run Let_def)
  show ?thesis
  proof (cases "length ds \<le> 9")
    case True
    have "dec_val ds < 10 ^ 9"
      using dec_val_less[OF assms(1)] True by (meson less_le_trans one_le_numeral power_increasing)
    then show ?thesis
      unfolding eq using True by (simp add: sint_of_nat_small int_max_def)
  next
    case long: False
    show ?thesis
    proof (cases "length ds = 10")
      case False
      with long show ?thesis unfolding eq by simp
    next
      case True
      let ?b = "dec_val (butlast ds)" and ?l = "digit_val (last ds)"
      have ds: "ds = butlast ds @ [last ds]" using assms(2) by simp
      have dig: "list_all is_digit (butlast ds)" "is_digit (last ds)"
        using assms(1,2) by (auto simp: list_all_iff dest: in_set_butlastD)
      have val: "dec_val ds = ?b * 10 + ?l"
        by (subst ds, subst dec_val_append) (simp add: dec_val_Cons)
      have b: "?b < 10 ^ 9" using dec_val_less[OF dig(1)] True by simp
      have l: "?l \<le> 9" using digit_val_le[OF dig(2)] .
      have u: "(ucast (of_nat ?b :: u32) :: u64) * 10 + of_nat ?l = of_nat (dec_val ds)"
      proof -
        have "(ucast (of_nat ?b :: u32) :: u64) = of_nat ?b"
        proof -
          have "unat (ucast (of_nat ?b :: u32) :: u64) = ?b"
            using b by (simp add: unsigned_ucast_eq unat_of_nat take_bit_nat_eq_self)
          then show ?thesis by (metis of_nat_unat ucast_id)
        qed
        then show ?thesis by (simp add: val)
      qed
      have lt: "dec_val ds < 2 ^ 64" using b l val by simp
      have cmp: "(of_nat (dec_val ds) :: u64) \<le> word_of_int int_max \<longleftrightarrow> int (dec_val ds) \<le> int_max"
        using lt by (simp add: word_le_nat_alt unat_of_nat take_bit_nat_eq_self int_max_def)
      show ?thesis
        unfolding eq u cmp using True by (auto simp: int_max_def sint_of_nat_small)
    qed
  qed
qed

text \<open>C29: a run of digits in a format string is read as its value when that fits an \<open>int\<close> and as the
  error value otherwise, although the arithmetic wraps at 32 bits; runs of more than ten digits are
  always an error.\<close>

theorem parse_nonnegative_int_correct:
  assumes "list_all is_digit ds" and "ds \<noteq> []" and "rest = [] \<or> \<not> is_digit (hd rest)"
  shows "parse_nonnegative_int (ds @ rest) e =
    (if length ds \<le> 10 \<and> int (dec_val ds) \<le> int_max then int (dec_val ds) else e, rest)"
  using assms by (rule parse_nonnegative_int_spec)

theorem parse_nonnegative_int_correct_witness:
  "parse_nonnegative_int ''4294967297}'' (-1) = (-1, ''}'')"
  using parse_nonnegative_int_correct[of "''4294967297''" "''}''" "-1"]
  by (simp add: is_digit_def dec_val_Cons digit_val_def int_max_def)

section \<open>Printing and parsing specifiers\<close>

text \<open>The standard specifiers of an integer argument, and the text that stands for them.\<close>

record int_spec =
  is_fill :: "char option"
  is_align :: align
  is_sign :: sgn
  is_alt :: bool
  is_zero :: bool
  is_width :: "nat option"
  is_localized :: bool
  is_type :: "char option"

fun align_text :: "align \<Rightarrow> string" where
  "align_text A_left = ''<''" | "align_text A_right = ''>''" | "align_text A_center = ''^''"
| "align_text _ = []"

fun sign_text :: "sgn \<Rightarrow> string" where
  "sign_text S_minus = ''-''" | "sign_text S_plus = ''+''" | "sign_text S_space = '' ''" | "sign_text S_none = []"

definition opt_text :: "bool \<Rightarrow> char \<Rightarrow> string" where
  "opt_text b c = (if b then [c] else [])"

definition width_text :: "nat option \<Rightarrow> string" where
  "width_text w = (case w of None \<Rightarrow> [] | Some n \<Rightarrow> dec_string n)"

definition char_text :: "char option \<Rightarrow> string" where
  "char_text c = (case c of None \<Rightarrow> [] | Some x \<Rightarrow> [x])"

definition tail_text :: "int_spec \<Rightarrow> string" where
  "tail_text v = sign_text (is_sign v) @ opt_text (is_alt v) (CHR ''#'') @ opt_text (is_zero v) (CHR ''0'') @
     width_text (is_width v) @ opt_text (is_localized v) (CHR ''L'') @ char_text (is_type v)"

definition spec_text :: "int_spec \<Rightarrow> string" where
  "spec_text v = char_text (is_fill v) @ align_text (is_align v) @ tail_text v"

text \<open>What the parser makes of each part.\<close>

definition put_sign :: "sgn \<Rightarrow> dyn_specs \<Rightarrow> dyn_specs" where
  "put_sign g sp = (if g = S_plus \<or> g = S_space then set_sign g sp else sp)"

definition put_alt :: "bool \<Rightarrow> dyn_specs \<Rightarrow> dyn_specs" where
  "put_alt b sp = (if b then set_alt sp else sp)"

definition put_zero :: "bool \<Rightarrow> dyn_specs \<Rightarrow> dyn_specs" where
  "put_zero b sp = (if b \<and> spec_align sp = A_none then set_fill_char (CHR ''0'') (set_align A_numeric sp) else sp)"

definition put_width :: "nat option \<Rightarrow> dyn_specs \<Rightarrow> dyn_specs" where
  "put_width w sp = (case w of None \<Rightarrow> sp | Some n \<Rightarrow> set_dynamic_width K_none (sp\<lparr>sp_width := int n\<rparr>))"

definition put_localized :: "bool \<Rightarrow> dyn_specs \<Rightarrow> dyn_specs" where
  "put_localized b sp = (if b then set_localized sp else sp)"

definition put_type :: "char option \<Rightarrow> dyn_specs \<Rightarrow> dyn_specs" where
  "put_type c sp = (case c of None \<Rightarrow> sp
     | Some x \<Rightarrow> (case spec_char x of
          Sc_type p types upper \<Rightarrow> set_type p (if upper then set_upper sp else sp) | _ \<Rightarrow> sp))"

definition put_align :: "char option \<Rightarrow> align \<Rightarrow> dyn_specs \<Rightarrow> dyn_specs" where
  "put_align f a sp =
     (case f of
        None \<Rightarrow> if a = A_none then sp else set_align a sp
      | Some c \<Rightarrow> set_align a ((set_fill_size 1 sp)\<lparr>sp_fill := (sp_fill sp)[0 := c, 1 := CHR 0x00, 2 := CHR 0x00]\<rparr>))"

definition spec_result :: "int_spec \<Rightarrow> dyn_specs" where
  "spec_result v =
     put_type (is_type v) (put_localized (is_localized v) (put_width (is_width v) (put_zero (is_zero v)
       (put_alt (is_alt v) (put_sign (is_sign v) (put_align (is_fill v) (is_align v) default_dyn_specs))))))"

definition int_type_char :: "char \<Rightarrow> bool" where
  "int_type_char c \<longleftrightarrow> c \<in> set ''dxXobBc''"

definition int_spec_ok :: "int_spec \<Rightarrow> bool" where
  "int_spec_ok v \<longleftrightarrow> is_align v \<noteq> A_numeric \<and>
     (case is_fill v of None \<Rightarrow> True
      | Some c \<Rightarrow> is_align v \<noteq> A_none \<and> code_point_length c = 1 \<and> c \<noteq> CHR ''{'' \<and> c \<noteq> CHR ''}'') \<and>
     (case is_width v of None \<Rightarrow> True | Some n \<Rightarrow> 0 < n \<and> int n \<le> int_max) \<and>
     (case is_type v of None \<Rightarrow> True | Some c \<Rightarrow> int_type_char c)"

text \<open>One part at a time.  \<open>loop\<close> is the rest of the run on a text that is not empty.\<close>

abbreviation loop :: "string \<Rightarrow> nat \<Rightarrow> dyn_specs \<Rightarrow> parse_context \<Rightarrow> arg_type \<Rightarrow> exn + spec_parse" where
  "loop s st sp ctx t \<equiv> spec_loop (hd s) s st sp ctx t"

lemma spec_char_signs [simp]:
  "spec_char (CHR ''-'') = Sc_sign" "spec_char (CHR ''+'') = Sc_sign" "spec_char (CHR '' '') = Sc_sign"
  "spec_char (CHR ''#'') = Sc_hash" "spec_char (CHR ''0'') = Sc_zero" "spec_char (CHR ''L'') = Sc_locale"
  "spec_char (CHR ''}'') = Sc_close" "spec_char (CHR ''<'') = Sc_align" "spec_char (CHR ''>'') = Sc_align"
  "spec_char (CHR ''^'') = Sc_align"
  by (simp_all add: spec_char_def is_digit_def)

lemma spec_char_types:
  "spec_char (CHR ''d'') = Sc_type pres_dec integral_set False" "spec_char (CHR ''x'') = Sc_type pres_hex integral_set False"
  "spec_char (CHR ''X'') = Sc_type pres_hex integral_set True" "spec_char (CHR ''o'') = Sc_type pres_oct integral_set False"
  "spec_char (CHR ''b'') = Sc_type pres_bin integral_set False" "spec_char (CHR ''B'') = Sc_type pres_bin integral_set True"
  "spec_char (CHR ''c'') = Sc_type pres_chr integral_set False"
  by (simp_all add: spec_char_def is_digit_def)

lemma int_type_char_spec:
  "int_type_char x \<Longrightarrow> \<exists>p u. spec_char x = Sc_type p integral_set u"
proof -
  assume "int_type_char x"
  then have "x = CHR ''d'' \<or> x = CHR ''x'' \<or> x = CHR ''X'' \<or> x = CHR ''o'' \<or> x = CHR ''b'' \<or>
      x = CHR ''B'' \<or> x = CHR ''c''"
    by (auto simp: int_type_char_def)
  then show ?thesis by (elim disjE; simp add: spec_char_types; blast)
qed

lemma enter_state_ok [simp]: "enter_state st st' valid = Inr u \<longleftrightarrow> st < st' \<and> valid"
  by (auto simp: enter_state_def)

lemma enter_state_chain: "st < st' \<Longrightarrow> valid \<Longrightarrow> chain (enter_state st st' valid) f = f ()"
  by (simp add: enter_state_def)

text \<open>The argument types a text is for: a sign is for signed ones, and \<open>c\<close> not for \<open>bool\<close>.\<close>

definition takes_spec :: "arg_type \<Rightarrow> int_spec \<Rightarrow> bool" where
  "takes_spec t v \<longleftrightarrow> type_in t integral_set \<and> (is_sign v = S_none \<or> type_in t sint_set) \<and>
     (is_type v = Some (CHR ''c'') \<longrightarrow> t \<noteq> Bool_type)"

lemma spec_types:
  "type_in t sint_set \<Longrightarrow> type_in t (sint_set OR float_set)" "type_in t integral_set \<Longrightarrow> is_arithmetic_type t"
  by (cases t; simp add: type_in_def type_sets is_arithmetic_type_def)+

lemma loop_turn:
  assumes "spec_turn (hd s) s st sp ctx t = Inr (Continue st' (rest, sp', ctx'))" "s \<noteq> []" "rest \<noteq> []"
  shows "loop s st sp ctx t = loop rest st' sp' ctx' t"
  using assms by (subst spec_loop.simps) simp

lemma loop_sign:
  assumes "st < st_sign" "g = S_none \<or> type_in t sint_set" "rest \<noteq> []"
  shows "\<exists>st' \<le> st_sign. loop (sign_text g @ rest) st sp ctx t = loop rest st' (put_sign g sp) ctx t"
proof (cases "g = S_none")
  case True
  with assms show ?thesis by (intro exI[of _ st]) (simp add: put_sign_def)
next
  case False
  have "loop (sign_text g @ rest) st sp ctx t = loop rest st_sign (put_sign g sp) ctx t"
    using assms False spec_types(1)[of t]
    by (cases g; intro loop_turn) (simp_all add: spec_turn_def enter_state_chain put_sign_def)
  then show ?thesis by blast
qed

lemma loop_alt:
  assumes "st \<le> st_sign" "is_arithmetic_type t" "rest \<noteq> []"
  shows "\<exists>st' \<le> st_hash. loop (opt_text b (CHR ''#'') @ rest) st sp ctx t = loop rest st' (put_alt b sp) ctx t"
proof (cases b)
  case False
  with assms show ?thesis by (intro exI[of _ st]) (simp add: opt_text_def put_alt_def states)
next
  case True
  have "loop (opt_text b (CHR ''#'') @ rest) st sp ctx t = loop rest st_hash (put_alt b sp) ctx t"
    using assms True
    by (intro loop_turn) (simp_all add: opt_text_def put_alt_def spec_turn_def enter_state_chain states)
  then show ?thesis by blast
qed

lemma loop_zero:
  assumes "st \<le> st_hash" "is_arithmetic_type t" "rest \<noteq> []"
  shows "\<exists>st' \<le> st_zero. loop (opt_text b (CHR ''0'') @ rest) st sp ctx t = loop rest st' (put_zero b sp) ctx t"
proof (cases b)
  case False
  with assms show ?thesis by (intro exI[of _ st]) (simp add: opt_text_def put_zero_def states)
next
  case True
  have "loop (opt_text b (CHR ''0'') @ rest) st sp ctx t = loop rest st_zero (put_zero b sp) ctx t"
    using assms True
    by (intro loop_turn) (simp_all add: opt_text_def put_zero_def spec_turn_def enter_state_chain states)
  then show ?thesis by blast
qed

lemma loop_localized:
  assumes "st \<le> st_width" "is_arithmetic_type t" "rest \<noteq> []"
  shows "\<exists>st'. loop (opt_text b (CHR ''L'') @ rest) st sp ctx t = loop rest st' (put_localized b sp) ctx t"
proof (cases b)
  case False
  then show ?thesis by (intro exI[of _ st]) (simp add: opt_text_def put_localized_def)
next
  case True
  have "loop (opt_text b (CHR ''L'') @ rest) st sp ctx t = loop rest st_locale (put_localized b sp) ctx t"
    using assms True
    by (intro loop_turn) (simp_all add: opt_text_def put_localized_def spec_turn_def enter_state_chain states)
  then show ?thesis by blast
qed

lemma loop_type:
  assumes "type_in t integral_set" "c = Some (CHR ''c'') \<longrightarrow> t \<noteq> Bool_type" "case c of None \<Rightarrow> True | Some x \<Rightarrow> int_type_char x"
  shows "loop (char_text c @ CHR ''}'' # rest) st sp ctx t = Inr (CHR ''}'' # rest, put_type c sp, ctx)"
proof (cases c)
  case None
  then show ?thesis
    by (subst spec_loop.simps) (simp add: char_text_def put_type_def spec_turn_def)
next
  case (Some x)
  with assms(3) obtain p u where x: "spec_char x = Sc_type p integral_set u"
    using int_type_char_spec[of x] by auto
  show ?thesis
    using assms(1,2) Some
    by (subst spec_loop.simps) (simp add: Some char_text_def put_type_def spec_turn_def x parse_presentation_type_def)
qed

lemma loop_width:
  assumes "st \<le> st_zero" "rest \<noteq> []" "\<not> is_digit (hd rest)"
    and "case w of None \<Rightarrow> True | Some n \<Rightarrow> 0 < n \<and> int n \<le> int_max"
  shows "\<exists>st' \<le> st_width. loop (width_text w @ rest) st sp ctx t = loop rest st' (put_width w sp) ctx t"
proof (cases w)
  case None
  with assms show ?thesis by (intro exI[of _ st]) (simp add: width_text_def put_width_def states)
next
  case (Some n)
  with assms(4) have n: "0 < n" "int n \<le> int_max" by simp_all
  let ?ds = "dec_string n"
  have dig: "list_all is_digit ?ds" using dec_string_digits by (simp add: list_all_iff)
  have hd: "is_digit (hd ?ds)" using dec_string_digits[of "hd ?ds" n] by simp
  have sc: "spec_char (hd ?ds) = Sc_width"
    using hd dec_string_lead[OF n(1)] by (auto simp: spec_char_def is_digit_def)
  have len: "length ?ds \<le> 10" using n(2) by (intro dec_string_length_le) (simp_all add: int_max_def)
  have p: "parse_nonnegative_int (?ds @ rest) (-1) = (int n, rest)"
    using parse_nonnegative_int_spec[OF dig _ disjI2[OF assms(3)], of "-1"] len n(2) by simp
  have "parse_width (?ds @ rest) sp ctx = Inr (rest, put_width (Some n) sp, ctx)"
    using hd p by (simp add: parse_width_def parse_dynamic_spec_def put_width_def)
  then have "loop (?ds @ rest) st sp ctx t = loop rest st_width (put_width (Some n) sp) ctx t"
    using assms(1,2) sc by (intro loop_turn) (simp_all add: spec_turn_def enter_state_chain states)
  with Some show ?thesis by (auto simp: width_text_def)
qed

lemma tail_hd: "hd (opt_text b (CHR ''L'') @ char_text c @ CHR ''}'' # rest) =
    (if b then CHR ''L'' else case c of None \<Rightarrow> CHR ''}'' | Some x \<Rightarrow> x)"
  by (simp add: opt_text_def char_text_def split: option.split)

lemma loop_tail:
  assumes "st \<le> st_align" "takes_spec t v" "int_spec_ok v"
  shows "loop (tail_text v @ CHR ''}'' # rest) st sp ctx t =
    Inr (CHR ''}'' # rest, put_type (is_type v) (put_localized (is_localized v) (put_width (is_width v)
      (put_zero (is_zero v) (put_alt (is_alt v) (put_sign (is_sign v) sp))))), ctx)"
proof -
  let ?r5 = "char_text (is_type v) @ CHR ''}'' # rest"
  let ?r4 = "opt_text (is_localized v) (CHR ''L'') @ ?r5"
  let ?r3 = "width_text (is_width v) @ ?r4"
  let ?r2 = "opt_text (is_zero v) (CHR ''0'') @ ?r3"
  let ?r1 = "opt_text (is_alt v) (CHR ''#'') @ ?r2"
  have ok: "case is_width v of None \<Rightarrow> True | Some n \<Rightarrow> 0 < n \<and> int n \<le> int_max"
    "case is_type v of None \<Rightarrow> True | Some c \<Rightarrow> int_type_char c"
    using assms(3) by (simp_all add: int_spec_ok_def)
  have ty: "type_in t integral_set" "is_sign v = S_none \<or> type_in t sint_set" "is_type v = Some (CHR ''c'') \<longrightarrow> t \<noteq> Bool_type"
    "is_arithmetic_type t"
    using assms(2) spec_types(2)[of t] by (simp_all add: takes_spec_def)
  have nd: "\<not> is_digit (hd ?r4)"
    using ok(2) unfolding tail_hd by (auto simp: is_digit_def int_type_char_def split: option.splits)
  have s0: "st < st_sign" using assms(1) by (simp add: states)
  obtain s1 where 1: "s1 \<le> st_sign" "loop (sign_text (is_sign v) @ ?r1) st sp ctx t = loop ?r1 s1 (put_sign (is_sign v) sp) ctx t"
    using loop_sign[OF s0 ty(2), of ?r1 sp ctx] by auto
  obtain s2 where 2: "s2 \<le> st_hash" "loop ?r1 s1 (put_sign (is_sign v) sp) ctx t =
      loop ?r2 s2 (put_alt (is_alt v) (put_sign (is_sign v) sp)) ctx t"
    using loop_alt[OF 1(1) ty(4), of ?r2 "is_alt v" "put_sign (is_sign v) sp" ctx] by auto
  obtain s3 where 3: "s3 \<le> st_zero" "loop ?r2 s2 (put_alt (is_alt v) (put_sign (is_sign v) sp)) ctx t =
      loop ?r3 s3 (put_zero (is_zero v) (put_alt (is_alt v) (put_sign (is_sign v) sp))) ctx t"
    using loop_zero[OF 2(1) ty(4), of ?r3 "is_zero v" "put_alt (is_alt v) (put_sign (is_sign v) sp)" ctx] by auto
  obtain s4 where 4: "s4 \<le> st_width"
    "loop ?r3 s3 (put_zero (is_zero v) (put_alt (is_alt v) (put_sign (is_sign v) sp))) ctx t =
      loop ?r4 s4 (put_width (is_width v) (put_zero (is_zero v) (put_alt (is_alt v) (put_sign (is_sign v) sp)))) ctx t"
    using loop_width[OF 3(1) _ nd ok(1), of "put_zero (is_zero v) (put_alt (is_alt v) (put_sign (is_sign v) sp))" ctx t]
    by auto
  obtain s5 where 5: "loop ?r4 s4 (put_width (is_width v) (put_zero (is_zero v) (put_alt (is_alt v) (put_sign (is_sign v) sp)))) ctx t =
      loop ?r5 s5 (put_localized (is_localized v) (put_width (is_width v) (put_zero (is_zero v) (put_alt (is_alt v) (put_sign (is_sign v) sp))))) ctx t"
    using loop_localized[OF 4(1) ty(4), of ?r5] by blast
  have "tail_text v @ CHR ''}'' # rest = sign_text (is_sign v) @ ?r1" by (simp add: tail_text_def)
  then show ?thesis
    using 1(2) 2(2) 3(2) 4(2) 5 loop_type[OF ty(1,3) ok(2)] by simp
qed

lemma parse_align_text: "a \<noteq> A_none \<Longrightarrow> a \<noteq> A_numeric \<Longrightarrow> \<exists>c. align_text a = [c] \<and> parse_align c = a \<and> spec_char c = Sc_align"
  by (cases a) (auto simp: parse_align_def)

text \<open>No character of the tail is an alignment.\<close>

lemma tail_chars:
  assumes "int_spec_ok v" "c \<in> set (tail_text v)"
  shows "parse_align c = A_none"
proof -
  have d: "is_digit c \<Longrightarrow> parse_align c = A_none" by (auto simp: parse_align_def is_digit_def)
  have "c \<in> set (sign_text (is_sign v)) \<or> c = CHR ''#'' \<or> c = CHR ''0'' \<or> c \<in> set (width_text (is_width v)) \<or>
      c = CHR ''L'' \<or> c \<in> set (char_text (is_type v))"
    using assms(2) by (auto simp: tail_text_def opt_text_def split: if_splits)
  then show ?thesis
  proof (elim disjE)
    assume "c \<in> set (sign_text (is_sign v))"
    then show ?thesis by (cases "is_sign v") (auto simp: parse_align_def)
  next
    assume "c \<in> set (width_text (is_width v))"
    then show ?thesis using d dec_string_digits by (cases "is_width v") (auto simp: width_text_def)
  next
    assume "c \<in> set (char_text (is_type v))"
    then have "is_type v = Some c" by (cases "is_type v") (auto simp: char_text_def)
    then have "int_type_char c" using assms(1) by (simp add: int_spec_ok_def)
    then show ?thesis by (auto simp: int_type_char_def parse_align_def)
  qed (simp_all add: parse_align_def)
qed

lemma parse_spec_text:
  assumes "takes_spec t v" "int_spec_ok v"
  shows "parse_format_specs (spec_text v @ CHR ''}'' # rest) default_dyn_specs ctx t =
    Inr (CHR ''}'' # rest, spec_result v, ctx)"
proof -
  let ?tail = "tail_text v @ CHR ''}'' # rest"
  have close: "parse_align (CHR ''}'') = A_none" by (simp add: parse_align_def)
  have hdt: "parse_align (hd ?tail) = A_none"
    using tail_chars[OF assms(2), of "hd (tail_text v)"] close by (cases "tail_text v") auto
  have nul: "spec_char (CHR 0x00) = Sc_other" by (simp add: spec_char_def is_digit_def)
  have ok: "is_align v \<noteq> A_numeric" using assms(2) by (simp add: int_spec_ok_def)
  show ?thesis
  proof (cases "is_fill v")
    case None
    show ?thesis
    proof (cases "is_align v = A_none")
      case True
      then have eq: "spec_text v = tail_text v" by (simp add: spec_text_def None char_text_def)
      show ?thesis
      proof (cases "tail_text v")
        case Nil
        then have "spec_result v = default_dyn_specs"
          using True None
          by (auto simp: tail_text_def opt_text_def width_text_def char_text_def spec_result_def put_type_def
              put_localized_def put_width_def put_zero_def put_alt_def put_sign_def put_align_def
              split: if_splits option.splits)
        moreover have "spec_loop c (CHR ''}'' # rest) st_start default_dyn_specs ctx t =
            Inr (CHR ''}'' # rest, default_dyn_specs, ctx)" if "c = CHR ''}'' \<or> c = CHR 0x00" for c
          using that by (subst spec_loop.simps) (auto simp: spec_turn_def nul parse_fill_def)
        ultimately show ?thesis by (cases rest) (simp_all add: eq Nil parse_format_specs_def Let_def)
      next
        case (Cons x xs)
        have "parse_align (?tail ! 1) = A_none"
          using tail_chars[OF assms(2)] close Cons by (cases xs) auto
        then have "parse_format_specs ?tail default_dyn_specs ctx t = loop ?tail st_start default_dyn_specs ctx t"
          by (simp add: parse_format_specs_def Cons)
        with loop_tail[of st_start t v rest default_dyn_specs ctx] assms True None show ?thesis
          by (simp add: eq spec_result_def put_align_def states)
      qed
    next
      case False
      then obtain c where c: "align_text (is_align v) = [c]" "parse_align c = is_align v" "spec_char c = Sc_align"
        using parse_align_text ok by blast
      have second: "(c # ?tail) ! 1 = hd ?tail" by (simp add: hd_conv_nth)
      have "parse_format_specs (c # ?tail) default_dyn_specs ctx t = loop (c # ?tail) st_start default_dyn_specs ctx t"
        using hdt unfolding parse_format_specs_def Let_def second by simp
      also have "\<dots> = loop ?tail st_align (set_align (is_align v) default_dyn_specs) ctx t"
        using c by (intro loop_turn) (simp_all add: spec_turn_def enter_state_chain states)
      finally show ?thesis
        using loop_tail[of st_align t v rest "set_align (is_align v) default_dyn_specs" ctx] assms None c False
        by (simp add: spec_text_def char_text_def spec_result_def put_align_def)
    qed
  next
    case (Some f)
    with assms(2) have f: "is_align v \<noteq> A_none" "code_point_length f = 1" "f \<noteq> CHR ''{''" "f \<noteq> CHR ''}''"
      by (simp_all add: int_spec_ok_def)
    then obtain c where c: "align_text (is_align v) = [c]" "parse_align c = is_align v" "spec_char c = Sc_align"
      using parse_align_text ok by blast
    let ?sp = "put_align (Some f) (is_align v) default_dyn_specs"
    have turn: "spec_turn (CHR 0x00) (f # c # ?tail) st_start default_dyn_specs ctx t =
        Inr (Continue st_align (?tail, ?sp, ctx))"
      using f c by (simp add: spec_turn_def nul parse_fill_def enter_state_chain states set_fill_def put_align_def Let_def
          set_fill_size_def)
    have "parse_format_specs (f # c # ?tail) default_dyn_specs ctx t =
        spec_loop (CHR 0x00) (f # c # ?tail) st_start default_dyn_specs ctx t"
      using c(2) f(1) by (simp add: parse_format_specs_def)
    also have "\<dots> = loop ?tail st_align ?sp ctx t"
      by (subst spec_loop.simps) (simp add: turn)
    finally show ?thesis
      using loop_tail[of st_align t v rest ?sp ctx] assms Some c
      by (simp add: spec_text_def char_text_def spec_result_def)
  qed
qed

text \<open>The presentation a letter asks for, as the documentation has it.\<close>

definition letter_presentation :: "char option \<Rightarrow> presentation" where
  "letter_presentation c =
     (case c of None \<Rightarrow> pres_none
      | Some x \<Rightarrow> if x = CHR ''d'' then pres_dec else if x = CHR ''x'' \<or> x = CHR ''X'' then pres_hex
                 else if x = CHR ''o'' then pres_oct else if x = CHR ''b'' \<or> x = CHR ''B'' then pres_bin
                 else if x = CHR ''c'' then pres_chr else pres_none)"

text \<open>The settings a text stands for: a minus sign is the default, and a zero after an alignment has no effect.\<close>

definition spec_view_of :: "int_spec \<Rightarrow> spec_view" where
  "spec_view_of v =
     \<lparr>v_type = letter_presentation (is_type v),
      v_align = (if is_align v = A_none \<and> is_zero v then A_numeric else is_align v),
      v_width_kind = K_none, v_precision_kind = K_none,
      v_sign = (if is_sign v = S_minus then S_none else is_sign v),
      v_upper = (is_type v = Some (CHR ''X'') \<or> is_type v = Some (CHR ''B'')),
      v_alt = is_alt v, v_localized = is_localized v, v_fill_size = 1\<rparr>"

lemma views [simp]:
  "spec_view (set_align a s) = (spec_view s)\<lparr>v_align := a\<rparr>"
  "spec_view (set_dynamic_width k s) = (spec_view s)\<lparr>v_width_kind := k\<rparr>"
  "spec_view (set_sign g s) = (spec_view s)\<lparr>v_sign := g\<rparr>"
  "spec_view (set_upper s) = (spec_view s)\<lparr>v_upper := True\<rparr>"
  "spec_view (set_alt s) = (spec_view s)\<lparr>v_alt := True\<rparr>"
  "spec_view (set_localized s) = (spec_view s)\<lparr>v_localized := True\<rparr>"
  "spec_view (set_fill_size (Suc 0) s) = (spec_view s)\<lparr>v_fill_size := Suc 0\<rparr>"
  "t < 8 \<Longrightarrow> spec_view (set_type t s) = (spec_view s)\<lparr>v_type := t\<rparr>"
  using spec_view_setters[of 0 1 s a k g] spec_view_setters[of t 1 s a k g] by simp_all

lemma view_data [simp]:
  "spec_view (s\<lparr>sp_fill := f\<rparr>) = spec_view s" "spec_view (s\<lparr>sp_width := w\<rparr>) = spec_view s"
  by (simp_all add: spec_view_def spec_getters)

lemma setter_frames [simp]:
  "sp_width (set_align a s) = sp_width s" "sp_width (set_sign g s) = sp_width s"
  "sp_width (set_dynamic_width k s) = sp_width s" "sp_width (set_upper s) = sp_width s"
  "sp_width (set_alt s) = sp_width s" "sp_width (set_localized s) = sp_width s"
  "sp_width (set_type t s) = sp_width s" "sp_width (set_fill_size n s) = sp_width s"
  "sp_fill (set_align a s) = sp_fill s" "sp_fill (set_sign g s) = sp_fill s"
  "sp_fill (set_dynamic_width k s) = sp_fill s" "sp_fill (set_upper s) = sp_fill s"
  "sp_fill (set_alt s) = sp_fill s" "sp_fill (set_localized s) = sp_fill s"
  "sp_fill (set_type t s) = sp_fill s" "sp_fill (set_fill_size n s) = sp_fill s"
  by (simp_all add: spec_setters)

lemma view_fields: "spec_align s = v_align (spec_view s)" by (simp add: spec_view_def)

lemma view_default: "spec_view default_dyn_specs =
    \<lparr>v_type = pres_none, v_align = A_none, v_width_kind = K_none, v_precision_kind = K_none, v_sign = S_none,
     v_upper = False, v_alt = False, v_localized = False, v_fill_size = 1\<rparr>"
  by (simp add: spec_view_def spec_getters default_dyn_specs_def default_specs_def specs.defs fget_def flag_def
      spec_layout align_of_def kind_of_def sgn_of_def pres_defs)

lemma default_data: "sp_width default_dyn_specs = 0"
  "sp_fill default_dyn_specs = [CHR '' '', CHR 0x00, CHR 0x00, CHR 0x00]"
  by (simp_all add: default_dyn_specs_def default_specs_def specs.defs)

definition fill_of :: "int_spec \<Rightarrow> char" where
  "fill_of v = (case is_fill v of Some c \<Rightarrow> c
     | None \<Rightarrow> if is_align v = A_none \<and> is_zero v then CHR ''0'' else CHR '' '')"

lemma type_view:
  assumes "case c of None \<Rightarrow> True | Some x \<Rightarrow> int_type_char x"
  shows "spec_view (put_type c sp) = (spec_view sp)
      \<lparr>v_type := (if c = None then v_type (spec_view sp) else letter_presentation c),
       v_upper := (v_upper (spec_view sp) \<or> c = Some (CHR ''X'') \<or> c = Some (CHR ''B''))\<rparr>"
    "sp_width (put_type c sp) = sp_width sp" "sp_fill (put_type c sp) = sp_fill sp"
proof -
  have "c = None \<or> c = Some (CHR ''d'') \<or> c = Some (CHR ''x'') \<or> c = Some (CHR ''X'') \<or> c = Some (CHR ''o'') \<or>
      c = Some (CHR ''b'') \<or> c = Some (CHR ''B'') \<or> c = Some (CHR ''c'')"
    using assms by (cases c) (auto simp: int_type_char_def)
  then show "spec_view (put_type c sp) = (spec_view sp)
      \<lparr>v_type := (if c = None then v_type (spec_view sp) else letter_presentation c),
       v_upper := (v_upper (spec_view sp) \<or> c = Some (CHR ''X'') \<or> c = Some (CHR ''B''))\<rparr>"
    "sp_width (put_type c sp) = sp_width sp" "sp_fill (put_type c sp) = sp_fill sp"
    by (elim disjE; simp add: put_type_def spec_char_types letter_presentation_def pres_defs)+
qed

lemma spec_result_view:
  assumes "int_spec_ok v"
  shows "spec_view (spec_result v) = spec_view_of v"
    "sp_width (spec_result v) = (case is_width v of None \<Rightarrow> 0 | Some n \<Rightarrow> int n)"
    "fill_unit (spec_result v) = fill_of v"
proof -
  have t: "case is_type v of None \<Rightarrow> True | Some c \<Rightarrow> int_type_char c" using assms by (simp add: int_spec_ok_def)
  have al: "is_fill v \<noteq> None \<Longrightarrow> is_align v \<noteq> A_none" "is_align v \<noteq> A_numeric"
    using assms by (auto simp: int_spec_ok_def)
  define s1 where "s1 = put_align (is_fill v) (is_align v) default_dyn_specs"
  have 1: "spec_view s1 = (spec_view default_dyn_specs)\<lparr>v_align := is_align v\<rparr>"
    "sp_width s1 = 0" "length (sp_fill s1) = 4" "sp_fill s1 ! 0 = (case is_fill v of Some c \<Rightarrow> c | None \<Rightarrow> CHR '' '')"
    by (auto simp: s1_def put_align_def view_default default_data split: option.split)
  define s2 where "s2 = put_alt (is_alt v) (put_sign (is_sign v) s1)"
  have 2: "spec_view s2 = (spec_view s1)\<lparr>v_sign := (if is_sign v = S_minus then S_none else is_sign v), v_alt := is_alt v\<rparr>"
    "sp_width s2 = sp_width s1" "sp_fill s2 = sp_fill s1"
    using 1(1) by (auto simp: s2_def put_alt_def put_sign_def view_default) (cases "is_sign v"; simp)+
  define s3 where "s3 = put_zero (is_zero v) s2"
  have 3: "spec_view s3 = (spec_view s2)\<lparr>v_align := (if is_align v = A_none \<and> is_zero v then A_numeric else is_align v)\<rparr>"
    "sp_width s3 = sp_width s2"
    "sp_fill s3 ! 0 = (if is_align v = A_none \<and> is_zero v then CHR ''0'' else sp_fill s2 ! 0)"
    using 1 2 by (auto simp: s3_def put_zero_def view_fields set_fill_char_def view_default)
  define s4 where "s4 = put_localized (is_localized v) (put_width (is_width v) s3)"
  have 4: "spec_view s4 = (spec_view s3)\<lparr>v_width_kind := K_none, v_localized := is_localized v\<rparr>"
    "sp_width s4 = (case is_width v of None \<Rightarrow> sp_width s3 | Some n \<Rightarrow> int n)" "sp_fill s4 = sp_fill s3"
    using 1(1) 2(1) 3(1)
    by (auto simp: s4_def put_localized_def put_width_def view_default split: option.split)
  have r: "spec_result v = put_type (is_type v) s4"
    by (simp add: spec_result_def s1_def s2_def s3_def s4_def)
  show "spec_view (spec_result v) = spec_view_of v"
    unfolding r type_view[OF t]
    by (cases "is_type v") (simp_all add: 1 2 3 4 view_default spec_view_of_def letter_presentation_def)
  show "sp_width (spec_result v) = (case is_width v of None \<Rightarrow> 0 | Some n \<Rightarrow> int n)"
    unfolding r type_view[OF t] by (cases "is_width v") (simp_all add: 1 2 3 4)
  show "fill_unit (spec_result v) = fill_of v"
    using al unfolding r fill_unit_def type_view[OF t] by (auto simp: 1 2 3 4 fill_of_def split: option.splits)
qed

text \<open>C22: the parser understands the standard integer specifiers, for every argument type they are for: from the text
  of a fill and an alignment, a sign (for signed types), \<open>#\<close>, \<open>0\<close>, a width, \<open>L\<close> and a letter, each present or not, it
  reads these settings, and stops at the closing brace.  The letters \<open>d\<close>, \<open>x\<close>, \<open>X\<close>, \<open>o\<close>, \<open>b\<close>, \<open>B\<close>, \<open>c\<close> mean
  decimal, hexadecimal, octal, binary and character; \<open>-\<close> is the default sign; and \<open>0\<close> means numeric alignment with zeros, but
  nothing after an explicit alignment.\<close>

theorem parse_int_spec_roundtrip:
  assumes "takes_spec t v" and "int_spec_ok v"
  shows "\<exists>sp. parse_format_specs (spec_text v @ CHR ''}'' # rest) default_dyn_specs ctx t =
      Inr (CHR ''}'' # rest, sp, ctx) \<and>
    spec_view sp = spec_view_of v \<and> fill_unit sp = fill_of v \<and>
    sp_width sp = (case is_width v of None \<Rightarrow> 0 | Some n \<Rightarrow> int n)"
  using parse_spec_text[OF assms] spec_result_view[OF assms(2)] by blast

theorem parse_int_spec_roundtrip_witness:
  "\<exists>sp. parse_format_specs ''*^+#12LX} end'' default_dyn_specs (mk_context None) Int_type =
      Inr (''} end'', sp, mk_context None) \<and> sp_width sp = 12 \<and> spec_align sp = A_center \<and> spec_upper sp"
proof -
  let ?v = "\<lparr>is_fill = Some (CHR ''*''), is_align = A_center, is_sign = S_plus, is_alt = True, is_zero = False,
    is_width = Some 12, is_localized = True, is_type = Some (CHR ''X'')\<rparr>"
  have t: "takes_spec Int_type ?v" by (simp add: takes_spec_def type_in_def type_sets)
  have v: "int_spec_ok ?v" by (simp add: int_spec_ok_def code_point_length_def int_max_def int_type_char_def)
  have "spec_text ?v = ''*^+#12LX''"
    by (simp add: spec_text_def tail_text_def char_text_def opt_text_def width_text_def dec_string_step)
  with parse_int_spec_roundtrip[OF t v, of "'' end''" "mk_context None"] show ?thesis
    by (auto simp: spec_view_def spec_view_of_def)
qed

end
