(* ===== verification/Fmt_Args_Props.thy ===== *)
theory Fmt_Args_Props
  imports Fmt_Args Fmt_Parse
begin

text \<open>
  Properties of the argument lists: what is read back from the packed descriptor.
\<close>

section \<open>Reading an argument back\<close>

lemma type_code_less: "type_code t < 2 ^ packed_arg_bits"
  by (cases t) (simp_all add: packed_arg_bits_def)

lemma type_code_0: "type_code t = type_code None_type \<longleftrightarrow> t = None_type"
  by (cases t) simp_all

lemma value_type_none: "value_type v = None_type \<longleftrightarrow> v = V_none"
  by (cases v) simp_all

lemma less_bits: "n < 2 ^ k \<Longrightarrow> bit n j \<Longrightarrow> j < k" for n :: nat
  by (metis bit_take_bit_iff take_bit_nat_eq_self)

text \<open>The nibbles of the descriptor.\<close>

lemma encode_types_bit:
  "j < 4 \<Longrightarrow> 4 * i + j < 64 \<Longrightarrow>
   bit (encode_types ts) (4 * i + j) \<longleftrightarrow> i < length ts \<and> bit (type_code (ts ! i)) j"
proof (induction ts arbitrary: i)
  case (Cons t ts)
  have t: "bit (type_code t) k \<Longrightarrow> k < 4" for k
    using less_bits[OF type_code_less[unfolded packed_arg_bits_def], of t k] by simp
  show ?case
  proof (cases i)
    case 0
    then show ?thesis using Cons.prems
      by (auto simp: packed_arg_bits_def bit_or_iff bit_push_bit_iff bit_of_nat_iff)
  next
    case (Suc k)
    have "bit (encode_types (t # ts)) (4 * i + j) \<longleftrightarrow> bit (encode_types ts) (4 * k + j)"
      using Cons.prems Suc t[of "4 * i + j"] by (auto simp: packed_arg_bits_def bit_or_iff bit_push_bit_iff bit_of_nat_iff)
    then show ?thesis using Cons.IH[of k] Cons.prems Suc by simp
  qed
qed simp

lemma encode_types_high:
  assumes "length ts \<le> max_packed_args"
  shows "\<not> bit (encode_types ts) 63" "\<not> bit (encode_types ts) 62"
  using encode_types_bit[of 3 15 ts] encode_types_bit[of 2 15 ts] assms
  by (simp_all add: max_packed_args_def packed_arg_bits_def)

definition args_desc :: "arg_type list \<Rightarrow> bool \<Rightarrow> u64" where
  "args_desc ts named = make_descriptor ts OR (if named then has_named_args_bit else 0)"

lemma bit_named_mask: "bit has_named_args_bit j \<longleftrightarrow> j = 62" "bit is_unpacked_bit j \<longleftrightarrow> j = 63"
  by (simp_all only: has_named_args_bit_def is_unpacked_bit_def bit_push_bit_iff bit_1_iff) auto

lemma and_bit_0: "w AND push_bit k 1 = 0 \<longleftrightarrow> \<not> bit w k" if "k < LENGTH('a)" for w :: "'a::len word"
  using and_exp_eq_0_iff_not_bit[of w k] by (simp add: push_bit_eq_mult)

lemma args_desc_packed:
  assumes "length ts \<le> max_packed_args"
  shows "args_desc ts named AND is_unpacked_bit = 0"
    "i < max_packed_args \<Longrightarrow> unat (drop_bit (i * packed_arg_bits) (args_desc ts named) AND (push_bit packed_arg_bits 1 - 1)) =
       (if i < length ts then type_code (ts ! i) else 0)"
proof -
  have d: "args_desc ts named = encode_types ts OR (if named then has_named_args_bit else 0)"
    using assms by (simp add: args_desc_def make_descriptor_def)
  show "args_desc ts named AND is_unpacked_bit = 0"
    unfolding is_unpacked_bit_def using encode_types_high[OF assms]
    by (subst and_bit_0) (auto simp: d bit_or_iff bit_named_mask)
  assume i: "i < max_packed_args"
  let ?c = "if i < length ts then type_code (ts ! i) else 0"
  have c: "?c < 2 ^ 64" using type_code_less[of "ts ! i"] by (auto simp: packed_arg_bits_def)
  have mask: "(push_bit packed_arg_bits 1 - 1 :: u64) = mask 4"
    by (simp add: packed_arg_bits_def mask_eq_exp_minus_1 push_bit_eq_mult)
  have "drop_bit (i * packed_arg_bits) (args_desc ts named) AND (push_bit packed_arg_bits 1 - 1) = (of_nat ?c :: u64)"
  proof (rule bit_word_eqI)
    fix j assume "j < LENGTH(64)"
    have "bit ?c j \<Longrightarrow> j < 4"
      using less_bits[OF type_code_less, of "ts ! i" j] by (auto simp: packed_arg_bits_def split: if_splits)
    moreover have "4 * i + j \<noteq> 62" "4 * i + j < 64" if "j < 4"
      using that i by (simp_all add: max_packed_args_def packed_arg_bits_def)
    ultimately show "bit (drop_bit (i * packed_arg_bits) (args_desc ts named) AND (push_bit packed_arg_bits 1 - 1)) j =
        bit (of_nat ?c :: u64) j"
      using encode_types_bit[of j i ts] unfolding mask d
      by (cases "j < 4") (auto simp: bit_and_iff bit_drop_bit_eq bit_or_iff bit_mask_iff bit_named_mask bit_of_nat_iff
          packed_arg_bits_def mult.commute)
  qed
  then show "unat (drop_bit (i * packed_arg_bits) (args_desc ts named) AND (push_bit packed_arg_bits 1 - 1)) = ?c"
    using c by (simp add: unsigned_of_nat take_bit_nat_eq_self)
qed

lemma args_desc_unpacked:
  assumes "max_packed_args < length ts" "length ts < 2 ^ 31"
  shows "args_desc ts named AND is_unpacked_bit \<noteq> 0"
    "sint (ucast (args_desc ts named AND NOT is_unpacked_bit) :: u32) = int (length ts)"
proof -
  have d: "args_desc ts named = is_unpacked_bit OR of_nat (length ts) OR (if named then has_named_args_bit else 0)"
    using assms(1) by (simp add: args_desc_def make_descriptor_def or.assoc)
  show "args_desc ts named AND is_unpacked_bit \<noteq> 0"
    unfolding is_unpacked_bit_def by (subst and_bit_0) (auto simp: d bit_or_iff bit_named_mask)
  have lt: "bit (length ts) j \<Longrightarrow> j < 31" for j using less_bits[OF assms(2)] .
  have "(ucast (args_desc ts named AND NOT is_unpacked_bit) :: u32) = of_nat (length ts)"
    by (rule bit_word_eqI) (auto simp: d bit_ucast_iff bit_and_iff bit_or_iff bit_not_iff bit_named_mask bit_of_nat_iff dest: lt)
  then show "sint (ucast (args_desc ts named AND NOT is_unpacked_bit) :: u32) = int (length ts)"
    using assms(2) by (simp add: sint_of_nat_small)
qed

section \<open>Named arguments\<close>

text \<open>The table of names as it should be: each name with its position.\<close>

fun named_from :: "string option list \<Rightarrow> int \<Rightarrow> (string \<times> int) list" where
  "named_from [] k = []"
| "named_from (None # names) k = named_from names (k + 1)"
| "named_from (Some n # names) k = (n, k) # named_from names (k + 1)"

definition arg_names :: "(string option \<times> arg_value) list \<Rightarrow> string list" where
  "arg_names args = List.map_filter fst args"

lemma named_from_names: "map fst (named_from (map fst args) k) = arg_names args"
proof (induction args arbitrary: k)
  case (Cons a args)
  then show ?case by (cases a; cases "fst a") (auto simp: arg_names_def map_filter_simps)
qed (simp add: arg_names_def map_filter_simps)

lemma init_named_args_eq:
  "distinct (map fst acc) \<Longrightarrow> init_named_args names k acc =
    (if distinct (map fst (acc @ named_from names k)) then Inr (acc @ named_from names k)
     else Inl (Format_error ''duplicate named arg''))"
proof (induction names k arbitrary: acc rule: named_from.induct)
  case (3 n names k)
  show ?case
  proof (cases "n \<in> fst ` set acc")
    case True
    then have "check_for_duplicate acc n = Inl (Format_error ''duplicate named arg'')"
      by (auto simp: check_for_duplicate_def list_ex_iff)
    then show ?thesis using True by simp
  next
    case False
    then have "check_for_duplicate acc n = Inr ()" by (auto simp: check_for_duplicate_def list_ex_iff)
    then show ?thesis using 3(1)[of "acc @ [(n, k)]"] 3(2) False by simp
  qed
qed simp_all

lemma find_named:
  "List.find (\<lambda>e. fst e = n) (named_from (map fst args) (int k)) =
    (case List.find (\<lambda>i. fst (args ! i) = Some n) [0..<length args] of
       None \<Rightarrow> None | Some i \<Rightarrow> Some (n, int (k + i)))"
proof (induction args arbitrary: k)
  case (Cons a args)
  have map: "List.find P (map f xs) = map_option f (List.find (P \<circ> f) xs)" for P f and xs :: "nat list"
    by (induction xs) auto
  have "[0..<length (a # args)] = 0 # map Suc [0..<length args]" 
    using upt_conv_Cons[of 0 "length (a # args)"] by (simp add: map_Suc_upt del: upt_Suc)
  then have f: "List.find (\<lambda>i. fst ((a # args) ! i) = Some n) [0..<length (a # args)] =
      (if fst a = Some n then Some 0
       else map_option Suc (List.find (\<lambda>i. fst (args ! i) = Some n) [0..<length args]))"
    by (simp add: map comp_def)
  show ?case
    unfolding f using Cons.IH[of "Suc k"]
    by (cases a; cases "fst a") (auto split: option.splits simp: add.commute)
qed simp

lemma find_index: "List.find (\<lambda>a. fst a = Some n) args =
    map_option ((!) args) (List.find (\<lambda>i. fst (args ! i) = Some n) [0..<length args])"
proof -
  have "List.find P (map f xs) = map_option f (List.find (P \<circ> f) xs)" for P f and xs :: "nat list"
    by (induction xs) auto
  from this[of "\<lambda>a. fst a = Some n" "(!) args" "[0..<length args]"] show ?thesis by (simp add: map_nth comp_def)
qed

lemma format_args_get:
  assumes "length args < 2 ^ 31"
  shows "case make_format_args args of
      Inl e \<Rightarrow> e = Format_error ''duplicate named arg'' \<and> \<not> distinct (arg_names args)
    | Inr fa \<Rightarrow> distinct (arg_names args) \<and>
        (\<forall>i. 0 \<le> i \<and> i < 2 ^ 31 \<longrightarrow> get_arg i fa = (if i < int (length args) then snd (args ! nat i) else V_none)) \<and>
        (\<forall>n. get_arg_by_name n fa = (case List.find (\<lambda>a. fst a = Some n) args of Some a \<Rightarrow> snd a | None \<Rightarrow> V_none))"
proof -
  let ?named = "named_from (map fst args) 0"
  let ?ts = "map (value_type \<circ> snd) args"
  have init: "init_named_args (map fst args) 0 [] =
      (if distinct (arg_names args) then Inr ?named else Inl (Format_error ''duplicate named arg''))"
    using init_named_args_eq[of "[]" "map fst args" 0] named_from_names[of args 0] by simp
  show ?thesis
  proof (cases "distinct (arg_names args)")
    case False
    then show ?thesis using init by (simp add: make_format_args_def)
  next
    case True
    define fa where "fa = \<lparr>fa_desc = args_desc ?ts (?named \<noteq> []), fa_values = map snd args, fa_named = ?named\<rparr>"
    have mk: "make_format_args args = Inr fa" using True init by (simp add: make_format_args_def fa_def args_desc_def)
    have get: "get_arg i fa = (if i < int (length args) then snd (args ! nat i) else V_none)"
      if i: "0 \<le> i" "i < 2 ^ 31" for i
    proof (cases "length args \<le> max_packed_args")
      case True
      then have "is_packed fa" using args_desc_packed(1)[of ?ts] by (simp add: is_packed_def fa_def)
      moreover have "unat (word_of_int i :: u32) = nat i"
        using i by (simp add: unsigned_of_int nat_take_bit_eq take_bit_nat_eq_self)
      moreover have "packed_type fa (nat i) = (if nat i < length args then type_code (value_type (snd (args ! nat i))) else 0)"
        if "nat i < max_packed_args"
        using args_desc_packed(2)[of ?ts "nat i"] True that by (simp add: packed_type_def fa_def)
      ultimately show ?thesis
        using i True type_code_0[of "value_type (snd (args ! nat i))"] value_type_none[of "snd (args ! nat i)"]
        by (auto simp: get_arg_def fa_def not_le Let_def read_union_def)
    next
      case False
      then have "\<not> is_packed fa" "max_size fa = int (length args)"
        using args_desc_unpacked[of ?ts "?named \<noteq> []"] assms by (simp_all add: is_packed_def max_size_def fa_def)
      then show ?thesis using i by (simp add: get_arg_def fa_def)
    qed
    have "has_named_args fa \<longleftrightarrow> ?named \<noteq> []"
    proof -
      have "bit (args_desc ?ts b) 62 \<longleftrightarrow> b" for b
        using encode_types_high[of ?ts] less_bits[OF assms, of 62]
        by (auto simp: args_desc_def make_descriptor_def bit_or_iff bit_named_mask bit_of_nat_iff)
      then show ?thesis unfolding has_named_args_def has_named_args_bit_def by (subst and_bit_0) (simp_all add: fa_def)
    qed
    moreover have "fa_named fa = ?named" by (simp add: fa_def)
    ultimately have "get_arg_by_name n fa = (case List.find (\<lambda>a. fst a = Some n) args of Some a \<Rightarrow> snd a | None \<Rightarrow> V_none)"
      for n
    proof -
      assume hn: "has_named_args fa \<longleftrightarrow> ?named \<noteq> []" "fa_named fa = ?named"
      note f = find_named[of n args 0]
      show ?thesis
      proof (cases "List.find (\<lambda>i. fst (args ! i) = Some n) [0..<length args]")
        case None
        then have "get_id n fa = -1" using f hn by (simp add: get_id_def)
        then show ?thesis using None by (simp add: get_arg_by_name_def find_index)
      next
        case (Some i)
        then have i: "i < length args" by (auto simp: find_Some_iff)
        have "?named \<noteq> []" using f Some by auto
        then have "get_id n fa = int i" using f hn Some by (simp add: get_id_def)
        then show ?thesis using Some get[of "int i"] i assms by (simp add: get_arg_by_name_def find_index)
      qed
    qed
    then show ?thesis using mk get True by simp
  qed
qed

text \<open>C38: A list of arguments gives back what was put in: by position the argument at that position and
  nothing behind the last one, whether the types are packed into the descriptor (up to fifteen) or
  stored beside the values; each with the type it was put in with, which a packed list keeps only as four bits of
  the descriptor; by name the argument with that name; and a name given twice is rejected.\<close>

theorem make_format_args_get:
  assumes "length args < 2 ^ 31"
  shows "case make_format_args args of
      Inl e \<Rightarrow> e = Format_error ''duplicate named arg'' \<and> \<not> distinct (arg_names args)
    | Inr fa \<Rightarrow> distinct (arg_names args) \<and>
        (\<forall>i. 0 \<le> i \<and> i < 2 ^ 31 \<longrightarrow> get_arg i fa = (if i < int (length args) then snd (args ! nat i) else V_none)) \<and>
        (\<forall>n. get_arg_by_name n fa = (case List.find (\<lambda>a. fst a = Some n) args of Some a \<Rightarrow> snd a | None \<Rightarrow> V_none))"
  using assms by (rule format_args_get)

theorem make_format_args_get_witness:
  "case make_format_args [(None, V_int 7), (Some ''user'', V_string ''ann'')] of
      Inl e \<Rightarrow> False
    | Inr fa \<Rightarrow> get_arg 0 fa = V_int 7 \<and> get_arg_by_name ''user'' fa = V_string ''ann'' \<and> get_arg 2 fa = V_none"
  using make_format_args_get[of "[(None, V_int 7), (Some ''user'', V_string ''ann'')]"]
  by (auto simp: arg_names_def map_filter_simps split: sum.splits)

end
