(* ===== verification/Fmt_Digits.thy ===== *)
theory Fmt_Digits
  imports Prelude
begin

text \<open>
  \<open>fmt/format.h\<close>: digits of integers.  The table-driven digit counters, the two-digits-at-a-time
  decimal writer, the power-of-two writer and class \<open>format_int\<close>.  An unsigned value that is only
  divided and compared is a \<open>nat\<close>; where the code adds or shifts at a width it is a word.  A
  pointer into a character array is an index into the array.
\<close>

section \<open>Counting decimal digits\<close>

function count_digits_loop :: "nat \<Rightarrow> int \<Rightarrow> int" where
  "count_digits_loop n count =
     (if n < 10 then count
      else if n < 100 then count + 1
      else if n < 1000 then count + 2
      else if n < 10000 then count + 3
      else count_digits_loop (n div 10000) (count + 4))"
  by auto
termination by (relation "measure fst") auto

declare count_digits_loop.simps [simp del]

definition count_digits_fallback :: "nat \<Rightarrow> int" where
  "count_digits_fallback n = count_digits_loop n 1"

text \<open>\<open>__builtin_clz\<close> and \<open>__builtin_clzll\<close> on a non-zero argument: the zero bits above the
  highest one.\<close>

definition clz :: "'a::len word \<Rightarrow> nat" where
  "clz w = length (takeWhile (\<lambda>i. \<not> bit w i) (rev [0..<LENGTH('a)]))"

definition bsr2log10 :: "nat list" where
  "bsr2log10 =
     [1,  1,  1,  2,  2,  2,  3,  3,  3,  4,  4,  4,  4,  5,  5,  5,
      6,  6,  6,  7,  7,  7,  7,  8,  8,  8,  9,  9,  9,  10, 10, 10,
      10, 11, 11, 11, 12, 12, 12, 13, 13, 13, 13, 14, 14, 14, 15, 15,
      15, 16, 16, 16, 16, 17, 17, 17, 18, 18, 18, 19, 19, 19, 19, 20]"

definition powers_of_10 :: "u64 \<Rightarrow> u64 list" where
  "powers_of_10 factor = [factor * 10, factor * 100, factor * 1000, factor * 10000,
     factor * 100000, factor * 1000000, factor * 10000000, factor * 100000000, factor * 1000000000]"

definition zero_or_powers_of_10 :: "u64 list" where
  "zero_or_powers_of_10 = [0, 0] @ powers_of_10 1 @ powers_of_10 1000000000 @ [10000000000000000000]"

definition do_count_digits64 :: "u64 \<Rightarrow> int" where
  "do_count_digits64 n =
     (let t = bsr2log10 ! (clz (n OR 1) XOR 63)
      in int t - (if n < zero_or_powers_of_10 ! t then 1 else 0))"

text \<open>\<open>FMT_INC(T)\<close>: \<open>sizeof(#T) - 1\<close> is the number of digits \<open>T\<close> is written with.\<close>

definition fmt_inc :: "nat \<Rightarrow> u64" where
  "fmt_inc t = push_bit 32 (of_nat (length (dec_string t))) - of_nat t"

definition inc_powers :: "nat list" where
  "inc_powers =
     [0, 0, 0, 10, 10, 10, 100, 100, 100, 1000, 1000, 1000, 10000, 10000, 10000,
      100000, 100000, 100000, 1000000, 1000000, 1000000, 10000000, 10000000, 10000000,
      100000000, 100000000, 100000000, 1000000000, 1000000000, 1000000000, 1000000000, 1000000000]"

definition inc_table :: "u64 list" where
  "inc_table = map fmt_inc inc_powers"

definition do_count_digits32 :: "u32 \<Rightarrow> int" where
  "do_count_digits32 n =
     (let inc = inc_table ! (clz (n OR 1) XOR 31)
      in sint (ucast (drop_bit 32 (ucast n + inc)) :: u32))"

section \<open>Counting digits in a power-of-two base\<close>

lemma drop_bit_less: "0 < k \<Longrightarrow> drop_bit k m \<noteq> 0 \<Longrightarrow> drop_bit k m < (m :: nat)"
  by (metis bot_nat_0.not_eq_extremum div_less_dividend drop_bit_eq_div drop_bit_of_0
      one_less_numeral_iff one_less_power semiring_norm(76))

function shift_digits :: "nat \<Rightarrow> nat \<Rightarrow> int \<Rightarrow> int" where
  "shift_digits bits m num_digits =
     (let m' = drop_bit bits m
      in if 0 < bits \<and> m' \<noteq> 0 then shift_digits bits m' (num_digits + 1) else num_digits + 1)"
  by auto
termination
  by (relation "measure (\<lambda>(bits, m, d). m)") (use drop_bit_less in auto)

declare shift_digits.simps [simp del]

definition count_digits_base :: "nat \<Rightarrow> nat \<Rightarrow> int" where
  "count_digits_base bits n = shift_digits bits n 0"

definition count_digits_base32 :: "nat \<Rightarrow> u32 \<Rightarrow> int" where
  "count_digits_base32 bits n = (int (clz (n OR 1)) XOR 31) div int bits + 1"

section \<open>Writing digits\<close>

definition digits2_data :: string where
  "digits2_data =
     ''0001020304050607080910111213141516171819'' @
     ''2021222324252627282930313233343536373839'' @
     ''4041424344454647484950515253545556575859'' @
     ''6061626364656667686970717273747576777879'' @
     ''8081828384858687888990919293949596979899''"

definition digits2 :: "nat \<Rightarrow> string" where
  "digits2 v = take 2 (drop (v * 2) digits2_data)"

definition write2digits :: "nat \<Rightarrow> nat \<Rightarrow> string \<Rightarrow> string" where
  "write2digits off v out = patch off (digits2 v) out"

text \<open>The array after the call and the index the digits start at.  \<open>do_format_decimal\<close> asserts that the array has
  room for the digits; the definition leaves the assertion out, and the facts about it below have it as a
  condition, which the callers meet with the number of digits from \<open>count_digits\<close>.\<close>

function decimal_loop :: "string \<Rightarrow> nat \<Rightarrow> nat \<Rightarrow> string \<times> nat" where
  "decimal_loop out v n =
     (if 100 \<le> v then
        let n = n - 2 in decimal_loop (write2digits n (v mod 100) out) (v div 100) n
      else if 10 \<le> v then
        let n = n - 2 in (write2digits n v out, n)
      else
        let n = n - 1 in (out[n := digit_char (int v)], n))"
  by auto
termination by (relation "measure (\<lambda>(out, v, n). v)") auto

declare decimal_loop.simps [simp del]

definition do_format_decimal :: "string \<Rightarrow> nat \<Rightarrow> nat \<Rightarrow> string \<times> nat" where
  "do_format_decimal out v sz = decimal_loop out v sz"

text \<open>\<open>format_decimal\<close> to an iterator: through a local array, the digits being copied out.\<close>

definition format_decimal :: "nat \<Rightarrow> nat \<Rightarrow> string" where
  "format_decimal v num_digits =
     take num_digits (fst (do_format_decimal (replicate num_digits (CHR 0x00)) v num_digits))"

definition hex_digits :: "bool \<Rightarrow> string" where
  "hex_digits upper = (if upper then ''0123456789ABCDEF'' else ''0123456789abcdef'')"

function base2e_loop :: "nat \<Rightarrow> bool \<Rightarrow> string \<Rightarrow> nat \<Rightarrow> nat \<Rightarrow> string \<times> nat" where
  "base2e_loop base_bits upper out v n =
     (let digit = v AND (push_bit base_bits 1 - 1);
          n = n - 1;
          out = out[n := if base_bits < 4 then digit_char (int digit) else hex_digits upper ! digit];
          v' = drop_bit base_bits v
      in if 0 < base_bits \<and> v' \<noteq> 0 then base2e_loop base_bits upper out v' n else (out, n))"
  by auto
termination
  by (relation "measure (\<lambda>(bits, upper, out, v, n). v)") (use drop_bit_less in auto)

declare base2e_loop.simps [simp del]

definition do_format_base2e :: "nat \<Rightarrow> string \<Rightarrow> nat \<Rightarrow> nat \<Rightarrow> bool \<Rightarrow> string \<times> nat" where
  "do_format_base2e base_bits out v sz upper = base2e_loop base_bits upper out v sz"

definition format_base2e :: "nat \<Rightarrow> string \<Rightarrow> nat \<Rightarrow> nat \<Rightarrow> bool \<Rightarrow> string" where
  "format_base2e base_bits out v num_digits upper = fst (do_format_base2e base_bits out v num_digits upper)"

section \<open>\<open>format_int\<close>\<close>

record format_int =
  fi_buffer :: string
  fi_str :: nat

definition format_int_size :: nat where
  "format_int_size = 19 + 3"

definition format_unsigned :: "nat \<Rightarrow> format_int" where
  "format_unsigned v =
     (let (buf, str) = do_format_decimal (replicate format_int_size (CHR 0x00)) v (format_int_size - 1)
      in \<lparr>fi_buffer = buf, fi_str = str\<rparr>)"

definition format_signed :: "'a::len word \<Rightarrow> format_int" where
  "format_signed v =
     (let negative = sint v < 0; abs_value = (if negative then 0 - v else v);
          f = format_unsigned (unat abs_value)
      in if negative
         then f\<lparr>fi_str := fi_str f - 1, fi_buffer := (fi_buffer f)[fi_str f - 1 := CHR ''-'']\<rparr>
         else f)"

definition format_int_length :: "format_int \<Rightarrow> nat" where
  "format_int_length f = format_int_size - 1 - fi_str f"

definition format_int_text :: "format_int \<Rightarrow> string" where
  "format_int_text f = take (format_int_length f) (drop (fi_str f) (fi_buffer f))"

definition format_int_c_str :: "format_int \<Rightarrow> format_int" where
  "format_int_c_str f = f\<lparr>fi_buffer := (fi_buffer f)[format_int_size - 1 := CHR 0x00]\<rparr>"

section \<open>Two digits at a time\<close>

lemma digits2_table:
  "list_all (\<lambda>v. digits2 v = [digit_char (int (v div 10)), digit_char (int (v mod 10))]) [0..<100]"
  by code_simp

lemma digits2_eq: "v < 100 \<Longrightarrow> digits2 v = [digit_char (int (v div 10)), digit_char (int (v mod 10))]"
  using digits2_table by (simp add: list_all_iff)

lemma digits2_dec: "10 \<le> v \<Longrightarrow> v < 100 \<Longrightarrow> digits2 v = dec_string v"
  by (simp add: digits2_eq dec_string_step)

lemma dec_string_100: "100 \<le> v \<Longrightarrow> dec_string v = dec_string (v div 100) @ digits2 (v mod 100)"
proof -
  assume v: "100 \<le> v"
  have "v mod 100 = 10 * (v div 10 mod 10) + v mod 10" using mod_mult2_eq[of v 10 10] by simp
  then have d: "v div 10 mod 10 = v mod 100 div 10" "v mod 10 = v mod 100 mod 10" by simp_all
  have "dec_string v = dec_string (v div 10) @ [digit_char (int (v mod 10))]"
    using v by (intro dec_string_step) simp
  also have "dec_string (v div 10) = dec_string (v div 10 div 10) @ [digit_char (int (v div 10 mod 10))]"
    using v by (intro dec_string_step) simp
  also have "v div 10 div 10 = v div 100" by (simp add: div_mult2_eq[symmetric])
  finally show ?thesis using d by (simp add: digits2_eq)
qed

lemma length_digits2 [simp]: "v < 100 \<Longrightarrow> length (digits2 v) = 2"
  by (simp add: digits2_eq)

lemma dec_string_length_100: "100 \<le> v \<Longrightarrow> length (dec_string v) = length (dec_string (v div 100)) + 2"
  by (simp add: dec_string_100)

text \<open>The decimal writer puts the digits right in front of \<open>n\<close> and nothing else changes.\<close>

lemma decimal_loop_eq:
  assumes "length (dec_string v) \<le> n" "n \<le> length out"
  shows "decimal_loop out v n =
    (patch (n - length (dec_string v)) (dec_string v) out, n - length (dec_string v))"
  using assms
proof (induction out v n rule: decimal_loop.induct)
  case (1 out v n)
  show ?case
  proof (cases "100 \<le> v")
    case True
    define k where "k = length (dec_string (v div 100))"
    have l: "length (dec_string v) = k + 2" using True by (simp add: k_def dec_string_length_100)
    have n: "k \<le> n - 2" "2 \<le> n" "n \<le> length out" using 1(2,3) l by linarith+
    have len: "length (write2digits (n - 2) (v mod 100) out) = length out"
      using n by (simp add: write2digits_def)
    have "decimal_loop out v n = decimal_loop (write2digits (n - 2) (v mod 100) out) (v div 100) (n - 2)"
      using True by (subst decimal_loop.simps) (simp add: Let_def)
    also have "\<dots> = (patch (n - 2 - k) (dec_string (v div 100)) (write2digits (n - 2) (v mod 100) out), n - 2 - k)"
      using "1.IH"[OF True refl] n len by (simp add: k_def)
    also have "patch (n - 2 - k) (dec_string (v div 100)) (write2digits (n - 2) (v mod 100) out) =
        patch (n - 2) (digits2 (v mod 100)) (patch (n - 2 - k) (dec_string (v div 100)) out)"
      unfolding write2digits_def using n by (intro patch_commute[symmetric]) (simp_all add: k_def)
    also have "\<dots> = patch (n - 2 - k) (dec_string v) out"
      using n True by (subst patch_patch_adjacent) (simp_all add: k_def dec_string_100)
    finally show ?thesis by (simp add: l)
  next
    case small: False
    show ?thesis
    proof (cases "10 \<le> v")
      case True
      then have d: "dec_string v = digits2 v" using small digits2_dec[of v] by simp
      then have "length (dec_string v) = 2" using small by simp
      then show ?thesis using True small d by (subst decimal_loop.simps) (simp add: Let_def write2digits_def)
    next
      case False
      then have d: "dec_string v = [digit_char (int v)]" by simp
      then have "n - 1 < length out" using 1(2,3) by simp
      then show ?thesis using False d small
        by (subst decimal_loop.simps) (simp add: Let_def list_update_patch)
    qed
  qed
qed

lemma do_format_decimal_eq:
  "length (dec_string v) \<le> n \<Longrightarrow> n \<le> length out \<Longrightarrow> do_format_decimal out v n =
    (patch (n - length (dec_string v)) (dec_string v) out, n - length (dec_string v))"
  unfolding do_format_decimal_def by (rule decimal_loop_eq)

lemma format_decimal_eq: "format_decimal v (length (dec_string v)) = dec_string v"
  by (simp add: format_decimal_def do_format_decimal_eq patch_def)

section \<open>The counters agree with the digits written\<close>

lemma dec_string_length_10000:
  assumes "10000 \<le> n"
  shows "length (dec_string n) = length (dec_string (n div 10000)) + 4"
proof -
  have "n div 100 div 100 = n div 10000" by (simp add: div_mult2_eq[symmetric])
  moreover have "100 \<le> n div 100" using assms by simp
  ultimately show ?thesis using assms by (simp add: dec_string_length_100)
qed

lemma count_digits_loop_eq: "count_digits_loop n c = c + int (length (dec_string n)) - 1"
proof (induction n c rule: count_digits_loop.induct)
  case (1 n c)
  consider "n < 10" | "10 \<le> n" "n < 100" | "100 \<le> n" "n < 1000" | "1000 \<le> n" "n < 10000" | "10000 \<le> n"
    by linarith
  then show ?case
  proof cases
    case 3
    then have "n div 100 < 10" by simp
    with 3 show ?thesis by (subst count_digits_loop.simps) (simp add: dec_string_length_100)
  next
    case 4
    then have "10 \<le> n div 100" "n div 100 < 100" by simp_all
    with 4 show ?thesis by (subst count_digits_loop.simps) (simp add: dec_string_length_100 dec_string_step)
  next
    case 5
    then show ?thesis using 1 by (subst count_digits_loop.simps) (simp add: dec_string_length_10000)
  qed (subst count_digits_loop.simps; simp add: dec_string_step)+
qed

lemma count_digits_fallback_eq: "count_digits_fallback n = int (length (dec_string n))"
  by (simp add: count_digits_fallback_def count_digits_loop_eq)

lemma dec_string_length_ge: "10 ^ k \<le> n \<Longrightarrow> k < length (dec_string n)"
proof (induction k arbitrary: n)
  case (Suc k)
  then have n: "10 \<le> n" "10 ^ k \<le> n div 10"
    by (auto simp: le_div_geq less_eq_div_iff_mult_less_eq mult.commute
        intro: order_trans[OF _ Suc.prems])
  from Suc.IH[OF n(2)] n(1) show ?case by (simp add: dec_string_step)
qed simp

lemma dec_string_length_eqI: "10 ^ k \<le> n \<Longrightarrow> n < 10 ^ Suc k \<Longrightarrow> length (dec_string n) = Suc k"
  using dec_string_length_ge[of k n] dec_string_length_le[of n "Suc k"] by simp

lemma clz_eq:
  assumes "2 ^ b \<le> unat w" "unat w < 2 ^ Suc b"
  shows "clz (w :: 'a::len word) = LENGTH('a) - 1 - b" "b < LENGTH('a)"
proof -
  have "(2::nat) ^ b < 2 ^ LENGTH('a)" using assms(1) unsigned_less[of w] by (rule le_less_trans)
  then show b: "b < LENGTH('a)" by simp
  have bit: "bit w i \<longleftrightarrow> i < LENGTH('a) \<and> bit (unat w) i" for i by (simp add: bit_unsigned_iff) (auto dest: bit_imp_le_length)
  have "unat w div 2 ^ b = 1" using assms by (intro div_nat_eqI) simp_all
  then have "bit (unat w) b" by (simp add: bit_iff_odd)
  then have at: "bit w b" using b bit by blast
  have above: "\<not> bit w i" if "b < i" for i
  proof -
    have "unat w < 2 ^ i" using assms(2) that by (meson Suc_leI le_trans less_le_trans power_increasing_iff
        one_less_numeral_iff semiring_norm(76) less_or_eq_imp_le power_increasing one_le_numeral)
    then have "\<not> bit (unat w) i" by (simp add: bit_iff_odd)
    then show ?thesis using bit by blast
  qed
  have "rev [0..<LENGTH('a)] = rev [Suc b..<LENGTH('a)] @ b # rev [0..<b]"
    using b upt_add_eq_append[of 0 b "LENGTH('a) - b"] by (simp add: upt_conv_Cons)
  then have "takeWhile (\<lambda>i. \<not> bit w i) (rev [0..<LENGTH('a)]) = rev [Suc b..<LENGTH('a)]"
    using at above by (simp only:) (subst takeWhile_append2; simp)
  then show "clz w = LENGTH('a) - 1 - b" by (simp add: clz_def)
qed

lemma log2_ex: "0 < (n::nat) \<Longrightarrow> \<exists>b. 2 ^ b \<le> n \<and> n < 2 ^ Suc b"
  using ex_power_ivl1[of 2 n] by simp

lemma unat_or_1: "unat (w OR 1 :: 'a::len word) = unat w + of_bool (even (unat w))"
  by (simp only: unsigned_or_eq unsigned_1 or_one_eq[of "unat w"])

text \<open>The index the tables are read at: the position of the highest set bit of \<open>n | 1\<close>.\<close>

lemma bsr_bounds:
  obtains b where "clz (w OR 1) = LENGTH('a) - 1 - b" "b < LENGTH('a)" "unat (w :: 'a::len word) < 2 ^ Suc b"
    "b = 0 \<or> 2 ^ b \<le> unat w"
proof -
  have "0 < unat (w OR 1)" by (simp only: unat_or_1) (cases "unat w"; simp)
  then obtain b where b: "2 ^ b \<le> unat (w OR 1)" "unat (w OR 1) < 2 ^ Suc b" using log2_ex by blast
  have imp: "2 ^ b \<le> unat w" if "b \<noteq> 0"
  proof (cases "even (unat w)")
    case True
    have e: "even ((2::nat) ^ b)" using that by simp
    have "2 ^ b \<le> unat w + 1" using b(1) True unfolding unat_or_1 by simp
    moreover have "2 ^ b \<noteq> unat w + 1" using e True by (metis even_plus_one_iff)
    ultimately show ?thesis by linarith
  next
    case False
    then show ?thesis using b(1) unfolding unat_or_1 by simp
  qed
  have "unat w \<le> unat (w OR 1)" by (simp only: unat_or_1 le_add1)
  then have lt: "unat w < 2 ^ Suc b" using b(2) by (rule le_less_trans)
  show ?thesis by (rule that[OF clz_eq[OF b] lt]) (use imp in blast)
qed

text \<open>The tables, checked entry by entry.\<close>

lemma upt_64: "[0..<64] = [0, Suc 0, 2, 3, 4, 5, 6, 7, 8, 9, 10, 11, 12, 13, 14, 15, 16, 17, 18, 19, 20, 21, 22, 23, 24, 25, 26, 27, 28, 29, 30, 31, 32, 33, 34, 35, 36, 37, 38, 39, 40, 41, 42, 43, 44, 45, 46, 47, 48, 49, 50, 51, 52, 53, 54, 55, 56, 57, 58, 59, 60, 61, 62, 63]"
  by (simp add: upt_rec[of 0] upt_rec[of "Suc 0"] upt_rec_numeral numeral_2_eq_2[symmetric])

lemma upt_32: "[0..<32] = [0, Suc 0, 2, 3, 4, 5, 6, 7, 8, 9, 10, 11, 12, 13, 14, 15, 16, 17, 18, 19, 20, 21, 22, 23, 24, 25, 26, 27, 28, 29, 30, 31]"
  by (simp add: upt_rec[of 0] upt_rec[of "Suc 0"] upt_rec_numeral numeral_2_eq_2[symmetric])

lemma bsr2log10_table:
  "list_all (\<lambda>b. let t = bsr2log10 ! b in 1 \<le> t \<and> (2::nat) ^ Suc b \<le> 10 ^ t \<and>
     (if t = 1 then zero_or_powers_of_10 ! t = 0
      else b \<noteq> 0 \<and> unat (zero_or_powers_of_10 ! t) = 10 ^ (t - 1) \<and> (10::nat) ^ (t - 2) \<le> 2 ^ b)) [0..<64]"
  by (simp add: upt_64 bsr2log10_def zero_or_powers_of_10_def powers_of_10_def Let_def)

lemma inc_powers_table:
  "list_all (\<lambda>b. inc_powers ! b = 0 \<and> (2::nat) ^ Suc b \<le> 10 \<or>
     (\<exists>k\<in>{1, 2, 3, 4, 5, 6, 7, 8, 9}. inc_powers ! b = 10 ^ k \<and> b \<noteq> 0 \<and> (2::nat) ^ Suc b \<le> 10 ^ Suc k \<and>
        (10::nat) ^ (k - 1) \<le> 2 ^ b)) [0..<32]"
  by (simp add: upt_32 inc_powers_def)

lemma length_inc_powers: "length inc_powers = 32"
  by (simp add: inc_powers_def)

lemma xor_63_table: "list_all (\<lambda>b. (63 - b) XOR 63 = b) [0..<64::nat]"
  by (simp add: upt_64)

lemma xor_31_table: "list_all (\<lambda>b. (31 - b) XOR 31 = b) [0..<32::nat]"
  by (simp add: upt_32)

lemma do_count_digits64_eq: "do_count_digits64 n = int (length (dec_string (unat n)))"
proof -
  obtain b where b: "clz (n OR 1) = 63 - b" "b < 64" "unat n < 2 ^ Suc b" "b = 0 \<or> 2 ^ b \<le> unat n"
    using bsr_bounds[of n] by auto
  define t where "t = bsr2log10 ! b"
  have bsr: "clz (n OR 1) XOR 63 = b" using b xor_63_table by (simp add: list_all_iff)
  have t: "1 \<le> t" "(2::nat) ^ Suc b \<le> 10 ^ t" and
    t2: "t = 1 \<Longrightarrow> zero_or_powers_of_10 ! t = 0"
    "t \<noteq> 1 \<Longrightarrow> b \<noteq> 0 \<and> unat (zero_or_powers_of_10 ! t) = 10 ^ (t - 1) \<and> (10::nat) ^ (t - 2) \<le> 2 ^ b"
    using bsr2log10_table b(2) by (auto simp: list_all_iff Let_def t_def split: if_splits)
  have up: "unat n < 10 ^ t" using b(3) t(2) by linarith
  have r: "do_count_digits64 n = int t - (if n < zero_or_powers_of_10 ! t then 1 else 0)"
    by (simp only: do_count_digits64_def bsr Let_def t_def)
  show ?thesis
  proof (cases "t = 1")
    case True
    then have "length (dec_string (unat n)) = 1" using up by simp
    then show ?thesis using r True t2(1) by simp
  next
    case False
    then obtain k where k: "t = Suc (Suc k)" using t(1) by (metis One_nat_def Suc_pred le_simps(3) not_less_eq_eq
        not0_implies_Suc old.nat.exhaust)
    have low: "10 ^ k \<le> unat n" using t2(2)[OF False] b(4) k by simp
    have lt: "n < zero_or_powers_of_10 ! t \<longleftrightarrow> unat n < 10 ^ Suc k"
      using t2(2)[OF False] k by (simp add: word_less_nat_alt)
    show ?thesis
    proof (cases "unat n < 10 ^ Suc k")
      case True
      then show ?thesis using r lt k dec_string_length_eqI[OF low] by simp
    next
      case False
      then show ?thesis using r lt k dec_string_length_eqI[of "Suc k" "unat n"] up by simp
    qed
  qed
qed

lemma do_count_digits32_eq: "do_count_digits32 n = int (length (dec_string (unat n)))"
proof -
  obtain b where b: "clz (n OR 1) = 31 - b" "b < 32" "unat n < 2 ^ Suc b" "b = 0 \<or> 2 ^ b \<le> unat n"
    using bsr_bounds[of n] by auto
  have bsr: "clz (n OR 1) XOR 31 = b" using b xor_31_table by (simp add: list_all_iff)
  define T where "T = inc_powers ! b"
  define d where "d = length (dec_string T)"
  have T: "T = 0 \<and> (2::nat) ^ Suc b \<le> 10 \<or>
      (\<exists>k\<in>{1, 2, 3, 4, 5, 6, 7, 8, 9}. T = 10 ^ k \<and> b \<noteq> 0 \<and> (2::nat) ^ Suc b \<le> 10 ^ Suc k \<and> (10::nat) ^ (k - 1) \<le> 2 ^ b)"
    using inc_powers_table b(2) by (simp only: list_all_iff T_def) auto
  have Tb: "T \<le> 1000000000" using T by auto
  then have dle: "d \<le> 10" unfolding d_def by (intro dec_string_length_le) simp_all
  have d1: "1 \<le> d" by (simp add: d_def Suc_le_eq)
  have nb: "unat n < 4294967296" using unsigned_less[of n] by simp
  define r where "r = (d * 4294967296 + unat n) - T"
  have rle: "r < 18446744073709551616" using dle nb by (simp add: r_def)
  have "ucast n + inc_table ! b = (of_nat r :: u64)"
  proof -
    have "inc_table ! b = of_nat (d * 4294967296) - of_nat T"
      using b(2) by (simp add: inc_table_def length_inc_powers fmt_inc_def T_def d_def push_bit_of_nat
          push_bit_eq_mult)
    moreover have "T \<le> d * 4294967296 + unat n" using Tb d1 by linarith
    ultimately show ?thesis
      by (simp add: r_def of_nat_diff algebra_simps)
  qed
  then have "do_count_digits32 n = sint (ucast (drop_bit 32 (of_nat r :: u64)) :: u32)"
    by (simp add: do_count_digits32_def bsr Let_def)
  also have "drop_bit 32 (of_nat r :: u64) = of_nat (r div 4294967296)"
  proof -
    have tb: "take_bit 64 r = r" using rle by (simp add: take_bit_nat_eq_self_iff)
    then have "unat (drop_bit 32 (of_nat r :: u64)) = r div 4294967296"
      by (simp only: unsigned_drop_bit_eq) (simp add: drop_bit_eq_div unsigned_of_nat tb)
    then show ?thesis by (metis of_nat_unat ucast_id)
  qed
  finally have e: "do_count_digits32 n = sint (ucast (of_nat (r div 4294967296) :: u64) :: u32)" .
  have q: "r div 4294967296 \<le> 10" using dle nb by (simp add: r_def)
  then have "take_bit 64 (r div 4294967296) = r div 4294967296" by (intro take_bit_nat_eq_self) simp
  then have "(ucast (of_nat (r div 4294967296) :: u64) :: u32) = of_nat (r div 4294967296)"
    by (simp add: unsigned_of_nat)
  moreover have "signed_take_bit 31 (int (r div 4294967296)) = int (r div 4294967296)"
    using q by (intro signed_take_bit_int_eq_self) simp_all
  ultimately have c: "do_count_digits32 n = int (r div 4294967296)"
    using e by (simp add: signed_of_nat)
  show ?thesis
  proof (cases "T \<le> unat n")
    case True
    then have "r = d * 4294967296 + (unat n - T)" by (simp add: r_def)
    moreover have "unat n - T < 4294967296" using nb by simp
    ultimately have "r div 4294967296 = d" by simp
    moreover have "length (dec_string (unat n)) = d"
    proof (cases "T = 0")
      case True
      then have "unat n < 10" using T b(3) by auto
      then show ?thesis by (simp add: d_def True)
    next
      case False
      then obtain k where k: "T = 10 ^ k" "(2::nat) ^ Suc b \<le> 10 ^ Suc k" using T by blast
      then show ?thesis using b(3) True dec_string_length_eqI[of k "unat n"] dec_string_length_eqI[of k T]
        by (simp add: d_def)
    qed
    ultimately show ?thesis using c by simp
  next
    case False
    then have "T \<noteq> 0" by auto
    then obtain j where j: "j \<in> {1, 2, 3, 4, 5, 6, 7, 8, 9}" "T = 10 ^ j" "b \<noteq> 0" "(10::nat) ^ (j - 1) \<le> 2 ^ b"
      using T by blast
    define k where "k = j - 1"
    have k: "T = 10 ^ Suc k" "10 ^ k \<le> unat n" using j b(4) by (auto simp: k_def)
    then have d: "d = Suc (Suc k)" using dec_string_length_eqI[of "Suc k" T] by (simp add: d_def)
    have "r = Suc k * 4294967296 + (4294967296 + unat n - T)" using False Tb by (simp add: r_def d)
    moreover have "4294967296 + unat n - T < 4294967296" using False Tb by simp
    ultimately have "r div 4294967296 = Suc k" by simp
    moreover have "length (dec_string (unat n)) = Suc k" using k False by (intro dec_string_length_eqI) simp_all
    ultimately show ?thesis using c by simp
  qed
qed

section \<open>Power-of-two bases\<close>

text \<open>The digits of \<open>v\<close> in base \<open>2\<^sup>k\<close>, most significant first, as the reference.\<close>

definition base_digit :: "nat \<Rightarrow> bool \<Rightarrow> nat \<Rightarrow> char" where
  "base_digit k upper d = (if k < 4 then digit_char (int d) else hex_digits upper ! d)"

function base_string :: "nat \<Rightarrow> bool \<Rightarrow> nat \<Rightarrow> string" where
  "base_string k upper v =
     (if 0 < k \<and> 2 ^ k \<le> v then base_string k upper (v div 2 ^ k) @ [base_digit k upper (v mod 2 ^ k)]
      else [base_digit k upper (v mod 2 ^ k)])"
  by auto
termination
proof (relation "measure (\<lambda>(k, upper, v). v)", goal_cases)
  case (2 k upper v)
  then have "1 < (2::nat) ^ k" using one_less_power[of "2::nat" k] by simp
  moreover have "0 < v" using 2 by (auto intro: less_le_trans[of 0 "2 ^ k"])
  ultimately show ?case by (simp add: div_less_dividend)
qed simp

declare base_string.simps [simp del]

lemma base_string_small [simp]: "v < 2 ^ k \<Longrightarrow> base_string k upper v = [base_digit k upper v]"
  by (simp add: base_string.simps)

lemma base_string_step:
  "0 < k \<Longrightarrow> 2 ^ k \<le> v \<Longrightarrow>
   base_string k upper v = base_string k upper (v div 2 ^ k) @ [base_digit k upper (v mod 2 ^ k)]"
  by (subst base_string.simps) simp

lemma base_string_not_Nil [simp]: "base_string k upper v \<noteq> []"
  by (subst base_string.simps) simp

lemma low_bits: "v AND (push_bit k 1 - 1) = v mod 2 ^ k" for v :: nat
proof -
  have "push_bit k (1::nat) - 1 = mask k" by (simp add: mask_eq_exp_minus_1 push_bit_eq_mult)
  then show ?thesis by (simp only: flip: take_bit_eq_mask take_bit_eq_mod)
qed

lemma drop_bit_0_iff: "drop_bit k v = 0 \<longleftrightarrow> v < 2 ^ k" for v :: nat
  by (simp add: drop_bit_eq_div div_eq_0_iff)

lemma base2e_loop_eq:
  assumes "0 < k" "length (base_string k upper v) \<le> n" "n \<le> length out"
  shows "base2e_loop k upper out v n =
    (patch (n - length (base_string k upper v)) (base_string k upper v) out, n - length (base_string k upper v))"
  using assms
proof (induction k upper out v n rule: base2e_loop.induct)
  case (1 k upper out v n)
  let ?c = "base_digit k upper (v mod 2 ^ k)"
  have n: "0 < n" using 1(3) by (metis base_string_not_Nil length_0_conv less_nat_zero_code not_gr0 le_zero_eq)
  then have step: "out[n - 1 := ?c] = patch (n - 1) [?c] out" using 1(4) by (intro list_update_patch) simp
  show ?case
  proof (cases "2 ^ k \<le> v")
    case True
    define l where "l = length (base_string k upper (v div 2 ^ k))"
    have s: "base_string k upper v = base_string k upper (v div 2 ^ k) @ [?c]"
      using base_string_step[OF 1(2) True] .
    then have l: "length (base_string k upper v) = Suc l" by (simp add: l_def)
    have more: "0 < k \<and> drop_bit k v \<noteq> 0" using 1(2) True by (simp only: drop_bit_0_iff) simp
    have "base2e_loop k upper out v n = base2e_loop k upper (out[n - 1 := ?c]) (v div 2 ^ k) (n - 1)"
      using more by (subst base2e_loop.simps)
        (simp only: Let_def low_bits base_digit_def drop_bit_eq_div simp_thms if_True)
    also have "\<dots> = (patch (n - 1 - l) (base_string k upper (v div 2 ^ k)) (patch (n - 1) [?c] out), n - 1 - l)"
      using "1.IH"[OF refl refl refl refl more 1(2), unfolded low_bits base_digit_def[symmetric] drop_bit_eq_div]
        1(3,4) l n by (simp add: l_def step[unfolded One_nat_def])
    also have "patch (n - 1 - l) (base_string k upper (v div 2 ^ k)) (patch (n - 1) [?c] out) =
        patch (n - 1) [?c] (patch (n - 1 - l) (base_string k upper (v div 2 ^ k)) out)"
      using 1(3,4) l n by (intro patch_commute[symmetric]) (simp_all add: l_def)
    also have "\<dots> = patch (n - 1 - l) (base_string k upper v) out"
      unfolding s using 1(3,4) l n by (intro patch_patch_adjacent) (simp_all add: l_def)
    finally show ?thesis by (simp add: l)
  next
    case False
    then have "drop_bit k v = 0" by (simp only: drop_bit_0_iff not_le)
    then have "base2e_loop k upper out v n = (out[n - 1 := ?c], n - 1)"
      by (subst base2e_loop.simps) (simp only: Let_def low_bits base_digit_def simp_thms if_False)
    then show ?thesis using False step by simp
  qed
qed

lemma do_format_base2e_eq:
  "0 < k \<Longrightarrow> length (base_string k upper v) \<le> n \<Longrightarrow> n \<le> length out \<Longrightarrow> do_format_base2e k out v n upper =
    (patch (n - length (base_string k upper v)) (base_string k upper v) out, n - length (base_string k upper v))"
  unfolding do_format_base2e_def by (rule base2e_loop_eq)

lemma shift_digits_eq: "0 < k \<Longrightarrow> shift_digits k v c = c + int (length (base_string k upper v))"
proof (induction k v c rule: shift_digits.induct)
  case (1 k v c)
  show ?case
  proof (cases "2 ^ k \<le> v")
    case True
    then have more: "0 < k \<and> drop_bit k v \<noteq> 0" using 1(2) by (simp only: drop_bit_0_iff) simp
    then have "shift_digits k v c = shift_digits k (drop_bit k v) (c + 1)"
      by (subst shift_digits.simps) (simp add: Let_def)
    then show ?thesis using 1(1)[OF refl more 1(2)] base_string_step[OF 1(2) True, of upper]
      by (simp add: drop_bit_eq_div)
  next
    case False
    then have "drop_bit k v = 0" by (simp only: drop_bit_0_iff not_le)
    then show ?thesis using False by (subst shift_digits.simps) simp
  qed
qed

lemma count_digits_base_eq: "0 < k \<Longrightarrow> count_digits_base k n = int (length (base_string k upper n))"
  by (simp add: count_digits_base_def shift_digits_eq[where upper = upper])

lemma format_base2e_eq:
  "0 < k \<Longrightarrow> length out = length (base_string k upper v) \<Longrightarrow>
   format_base2e k out v (length (base_string k upper v)) upper = base_string k upper v"
  by (simp add: format_base2e_def do_format_base2e_eq patch_def)

lemma base_string_length: "0 < k \<Longrightarrow> v < 2 ^ (k * n) \<Longrightarrow> 0 < n \<Longrightarrow> length (base_string k upper v) \<le> n"
proof (induction k upper v arbitrary: n rule: base_string.induct)
  case (1 k upper v)
  show ?case
  proof (cases "2 ^ k \<le> v")
    case True
    obtain m where m: "n = Suc m" using 1(4) by (cases n) auto
    have "v div 2 ^ k < 2 ^ (k * m)"
      using 1(3) by (simp add: m div_less_iff_less_mult power_add mult.commute)
    moreover have "0 < m" using 1(3) True by (cases m) (auto simp: m)
    ultimately have "length (base_string k upper (v div 2 ^ k)) \<le> m" using 1(1,2) True by simp
    then show ?thesis using base_string_step[OF 1(2) True] m by simp
  next
    case False
    then show ?thesis using 1(4) by simp
  qed
qed

lemma base_string_length_eqI:
  assumes "0 < k" "2 ^ (k * j) \<le> v" "v < 2 ^ (k * Suc j)"
  shows "length (base_string k upper v) = Suc j"
  using assms(2,3)
proof (induction j arbitrary: v)
  case 0
  then show ?case by simp
next
  case (Suc j)
  have "(2::nat) ^ k \<le> 2 ^ (k * Suc j)" by (rule power_increasing) simp_all
  then have big: "2 ^ k \<le> v" using Suc.prems(1) by linarith
  have "2 ^ (k * j) \<le> v div 2 ^ k"
    using Suc.prems(1) by (simp add: less_eq_div_iff_mult_less_eq power_add mult.commute)
  moreover have "v div 2 ^ k < 2 ^ (k * Suc j)"
    using Suc.prems(2) by (simp add: div_less_iff_less_mult power_add mult.commute)
  ultimately have "length (base_string k upper (v div 2 ^ k)) = Suc j" by (rule Suc.IH)
  then show ?case using base_string_step[OF assms(1) big] by simp
qed

lemma count_digits_base32_eq:
  assumes "0 < k"
  shows "count_digits_base32 k n = int (length (base_string k upper (unat n)))"
proof -
  obtain b where b: "clz (n OR 1) = 31 - b" "b < 32" "unat n < 2 ^ Suc b" "b = 0 \<or> 2 ^ b \<le> unat n"
    using bsr_bounds[of n] by auto
  have "(int (31 - b)) XOR 31 = int ((31 - b) XOR 31)" by (simp only: of_nat_xor_eq of_nat_numeral)
  then have "count_digits_base32 k n = int b div int k + 1"
    using b xor_31_table by (simp add: count_digits_base32_def list_all_iff)
  also have "\<dots> = int (Suc (b div k))" by (simp add: zdiv_int)
  also have "Suc (b div k) = length (base_string k upper (unat n))"
  proof (cases "unat n < 2 ^ k")
    case True
    have "b < k"
    proof (cases "b = 0")
      case True
      then show ?thesis using assms by simp
    next
      case False
      then have "(2::nat) ^ b < 2 ^ k" using True b(4) by linarith
      then show ?thesis by simp
    qed
    then show ?thesis using True by simp
  next
    case False
    then have "b \<noteq> 0" using b(3) assms power_increasing[of 1 k "2::nat"] by (cases b) auto
    moreover have "k * (b div k) \<le> b" by simp
    ultimately have "2 ^ (k * (b div k)) \<le> unat n"
      using b(4) power_increasing[of "k * (b div k)" b "2::nat"] by linarith
    moreover have "b = k * (b div k) + b mod k" "k * Suc (b div k) = k + k * (b div k)" by simp_all
    then have "Suc b \<le> k * Suc (b div k)" using mod_less_divisor[OF assms, of b] by linarith
    then have "unat n < 2 ^ (k * Suc (b div k))"
      using b(3) power_increasing[of "Suc b" "k * Suc (b div k)" "2::nat"] by linarith
    ultimately show ?thesis using base_string_length_eqI[OF assms] by metis
  qed
  finally show ?thesis .
qed

section \<open>What is claimed of the digit routines\<close>

text \<open>The three ways of counting decimal digits - dividing by ten thousand, the 64-bit
  logarithm table and the 32-bit increment table with its wrapping addition - give the number of
  digits that are written, for every value of their width.\<close>

theorem count_digits_agree:
  "do_count_digits64 n = int (length (dec_string (unat n))) \<and>
   do_count_digits32 m = int (length (dec_string (unat m))) \<and>
   count_digits_fallback k = int (length (dec_string k))"
  by (simp only: do_count_digits64_eq do_count_digits32_eq count_digits_fallback_eq)

lemma unat_of_sint:
  fixes v :: "'a::len word"
  shows "sint v < 0 \<Longrightarrow> unat (0 - v) = nat (- sint v)" "0 \<le> sint v \<Longrightarrow> unat v = nat (sint v)"
proof -
  have "(2::int) ^ (LENGTH('a) - Suc 0) < 2 ^ LENGTH('a)" by simp
  then have b: "- (2 ^ LENGTH('a)) < sint v" "sint v < 2 ^ LENGTH('a)"
    using sint_greater_eq[of v] sint_less[of v] by linarith+
  have w: "unat (word_of_int i :: 'a word) = nat i" if "0 \<le> i" "i < 2 ^ LENGTH('a)" for i
    by (simp only: unat_eq_nat_uint uint_word_of_int_eq take_bit_int_eq_self[OF that])
  show "unat (0 - v) = nat (- sint v)" if "sint v < 0"
    using w[of "- sint v"] that b by simp
  show "unat v = nat (sint v)" if "0 \<le> sint v"
    using w[of "sint v"] that b by simp
qed

lemma format_unsigned_eq:
  assumes "v < 2 ^ 64"
  shows "\<exists>k. fi_str (format_unsigned v) = k \<and> 1 \<le> k \<and> k + length (dec_string v) = format_int_size - 1 \<and>
    length (fi_buffer (format_unsigned v)) = format_int_size \<and>
    take (length (dec_string v)) (drop k (fi_buffer (format_unsigned v))) = dec_string v"
proof -
  have "v < 10 ^ 20" using assms by simp
  then have l: "length (dec_string v) \<le> 20" by (intro dec_string_length_le) simp_all
  then have "format_unsigned v = \<lparr>fi_buffer = patch (21 - length (dec_string v)) (dec_string v)
      (replicate format_int_size (CHR 0x00)), fi_str = 21 - length (dec_string v)\<rparr>"
    by (simp add: format_unsigned_def do_format_decimal_eq format_int_size_def)
  then show ?thesis using l by (simp add: format_int_size_def patch_read)
qed

text \<open>The text of an integer: sign and decimal digits.\<close>

definition int_string :: "int \<Rightarrow> string" where
  "int_string i = (if i < 0 then CHR ''-'' # dec_string (nat (- i)) else dec_string (nat i))"

lemma int_string_inj: "int_string i = int_string j \<longleftrightarrow> i = j"
proof -
  have "\<not> is_digit (CHR ''-'')" by (simp add: is_digit_def)
  then have ne: "CHR ''-'' # t \<noteq> dec_string n" for t n
    using dec_string_digits[of "CHR ''-''" n] by (metis list.set_intros(1))
  then show ?thesis using ne[THEN not_sym] by (auto simp: int_string_def split: if_splits)
qed

lemma drop_patch_cons:
  assumes "1 \<le> k" "k + length t \<le> length xs" "take (length t) (drop k xs) = t"
  shows "take (Suc (length t)) (drop (k - 1) (xs[k - 1 := c])) = c # t"
proof -
  have "drop (k - 1) (xs[k - 1 := c]) = c # drop k xs"
    using assms by (subst Cons_nth_drop_Suc[symmetric]) (simp_all add: drop_update_cancel)
  then show ?thesis using assms(3) by simp
qed

text \<open>An object holds the text of a number: at its place in the buffer, before the room for the terminator.\<close>

definition holds_int :: "format_int \<Rightarrow> int \<Rightarrow> bool" where
  "holds_int f i \<longleftrightarrow> format_int_text f = int_string i \<and> length (fi_buffer f) = format_int_size \<and>
     fi_str f + format_int_length f = format_int_size - 1 \<and> format_int_text (format_int_c_str f) = int_string i"

lemma take_drop_before:
  fixes xs :: string
  shows "i + n \<le> j \<Longrightarrow> take n (drop i (xs[j := c])) = take n (drop i xs)"
  by (simp add: take_drop add.commute)

lemma format_unsigned_holds:
  assumes "v < 2 ^ 64"
  shows "holds_int (format_unsigned v) (int v)"
proof -
  obtain k where k: "fi_str (format_unsigned v) = k" "1 \<le> k" "k + length (dec_string v) = format_int_size - 1"
    "length (fi_buffer (format_unsigned v)) = format_int_size"
    "take (length (dec_string v)) (drop k (fi_buffer (format_unsigned v))) = dec_string v"
    using format_unsigned_eq[OF assms] by blast
  then have n: "format_int_size - 1 - k = length (dec_string v)" by simp
  then show ?thesis using k take_drop_before[of k "length (dec_string v)" "format_int_size - 1"]
    by (simp add: holds_int_def format_int_text_def format_int_length_def format_int_c_str_def int_string_def)
qed

lemma format_negative_holds:
  assumes "v < 2 ^ 64" "0 < v"
  shows "holds_int ((format_unsigned v)\<lparr>fi_str := fi_str (format_unsigned v) - 1,
    fi_buffer := (fi_buffer (format_unsigned v))[fi_str (format_unsigned v) - 1 := CHR ''-'']\<rparr>) (- int v)"
proof -
  let ?s = "dec_string v" and ?f = "format_unsigned v"
  obtain k where k: "fi_str ?f = k" "1 \<le> k" "k + length ?s = format_int_size - 1" "length (fi_buffer ?f) = format_int_size"
    "take (length ?s) (drop k (fi_buffer ?f)) = ?s"
    using format_unsigned_eq[OF assms(1)] by blast
  have n: "format_int_size - 1 - (k - 1) = Suc (length ?s)" using k(2,3) by simp
  have room: "k - 1 + Suc (length ?s) = format_int_size - 1" using k(2,3) by simp
  have len: "k + length ?s \<le> length (fi_buffer ?f)" using k(3,4) by simp
  have tx: "take (Suc (length ?s)) (drop (k - 1) ((fi_buffer ?f)[k - 1 := CHR ''-''])) = CHR ''-'' # ?s"
    by (rule drop_patch_cons[OF k(2) len k(5)])
  then show ?thesis using n room k(1,4) assms(2) take_drop_before[OF eq_refl[OF room]]
    by (simp add: holds_int_def format_int_text_def format_int_length_def format_int_c_str_def int_string_def)
qed

text \<open>C39: \<open>format_int\<close> writes every integer of at most 64 bits, signed or unsigned, inside its 22-byte buffer, with
  room for the sign and the terminator, and the text is the number's: sign and digits, the most negative
  value of each signed width and the largest of each unsigned one included.\<close>

theorem format_int_correct:
  assumes "LENGTH('a::len) \<le> 64"
  shows "holds_int (format_signed (v :: 'a word)) (sint v) \<and> holds_int (format_unsigned (unat v)) (uint v)"
proof
  have b: "unat x < 2 ^ 64" for x :: "'a word"
  proof -
    have "unat x < 2 ^ LENGTH('a)" by (rule unsigned_less)
    also have "(2::nat) ^ LENGTH('a) \<le> 2 ^ 64" using assms by (intro power_increasing) simp_all
    finally show ?thesis .
  qed
  have "holds_int (format_unsigned (unat v)) (int (unat v))" by (rule format_unsigned_holds[OF b])
  then show "holds_int (format_unsigned (unat v)) (uint v)" by simp
  show "holds_int (format_signed v) (sint v)"
  proof (cases "sint v < 0")
    case True
    then have u: "unat (0 - v) = nat (- sint v)" by (rule unat_of_sint)
    then have "0 < unat (0 - v)" "- int (unat (0 - v)) = sint v" using True by simp_all
    then show ?thesis using True format_negative_holds[OF b[of "0 - v"]] by (simp only: format_signed_def Let_def if_True)
  next
    case False
    then have "int (unat v) = sint v" by (simp add: unat_of_sint(2))
    then show ?thesis using False format_unsigned_holds[OF b[of v]] by (simp only: format_signed_def Let_def if_False)
  qed
qed

theorem format_int_correct_witness:
  "holds_int (format_signed (- 2147483648 :: 32 word)) (- 2147483648) \<and>
   holds_int (format_unsigned (unat (0xFFFFFFFFFFFFFFFF :: 64 word))) 18446744073709551615"
  using format_int_correct[of "- 2147483648 :: 32 word"] format_int_correct[of "0xFFFFFFFFFFFFFFFF :: 64 word"] by simp

end
