(* ===== verification/Fmt_Bigint.thy ===== *)
theory Fmt_Bigint
  imports Fmt_Digits
begin

text \<open>
  Class \<open>bigint\<close> of \<open>fmt/format.h\<close>: the unlimited naturals that the exact conversion of floating-point
  numbers computes with, as a list of 32-bit digits (\<open>bigits\<close>, the lowest first) and an exponent, and
  the refinement of its operations to the natural numbers.
\<close>

section \<open>The state\<close>

text \<open>The radix.\<close>

definition radix :: nat where
  "radix = 2 ^ 32"

lemma radix_pos [simp]: "0 < radix"
  by (simp add: radix_def)

lemma radix_neq_0 [simp]: "radix \<noteq> 0"
  by (simp add: radix_def)

lemma unat_u32 [simp]: "unat (w :: u32) < radix"
  using unsigned_less[of w] by (simp add: radix_def)

lemma radix_div [simp]: "(unat (w :: u32) + radix * n) div radix = n" "(unat (w :: u32) + radix * n) mod radix = unat w"
  by (simp_all add: add.commute[of "unat w"])

text \<open>\<open>exp_\<close> is an \<open>int\<close> that counts whole digits of zeros; no operation makes it negative, and the numbers of
  the conversion have at most some tens of digits, so it is a natural number here.\<close>

record bigint =
  bi_bigits :: "u32 list"
  bi_exp :: nat

abbreviation digits_val :: "u32 list \<Rightarrow> nat" where
  "digits_val \<equiv> horner_sum unat radix"

definition bi_val :: "bigint \<Rightarrow> nat" where
  "bi_val b = digits_val (bi_bigits b) * radix ^ bi_exp b"

text \<open>No leading zero, which every operation keeps for a number that is not zero.\<close>

definition bi_ok :: "bigint \<Rightarrow> bool" where
  "bi_ok b \<longleftrightarrow> bi_bigits b \<noteq> [] \<and> (last (bi_bigits b) = 0 \<longrightarrow> bi_bigits b = [0])"

definition num_bigits :: "bigint \<Rightarrow> nat" where
  "num_bigits b = length (bi_bigits b) + bi_exp b"

definition get_bigit :: "nat \<Rightarrow> bigint \<Rightarrow> u32" where
  "get_bigit i b = (if i \<ge> bi_exp b \<and> i < num_bigits b then bi_bigits b ! (i - bi_exp b) else 0)"

lemma digits_bound: "digits_val ws < radix ^ length ws"
proof (induction ws)
  case (Cons w ws)
  have "unat w + radix * digits_val ws < radix * (digits_val ws + 1)" using unat_u32[of w] by (simp add: algebra_simps)
  also have "\<dots> \<le> radix * radix ^ length ws" using Cons by (simp only: mult_le_mono2 Suc_eq_plus1 [symmetric] Suc_le_eq)
  finally show ?case by simp
qed simp

lemma digits_append: "digits_val (xs @ ys) = digits_val xs + radix ^ length xs * digits_val ys"
  by (rule horner_sum_append)

lemma digits_split: "digits_val ws = digits_val (take k ws) + radix ^ min k (length ws) * digits_val (drop k ws)"
  using digits_append[of "take k ws" "drop k ws"] by (simp add: min.commute)

lemma digits_nth: "k < length ws \<Longrightarrow> digits_val ws div radix ^ k mod radix = unat (ws ! k)"
proof (induction ws arbitrary: k)
  case (Cons w ws)
  show ?case
  proof (cases k)
    case (Suc j)
    have "(unat w + radix * digits_val ws) div radix ^ k = (unat w + radix * digits_val ws) div radix div radix ^ j"
      unfolding Suc by (simp add: div_mult2_eq)
    also have "(unat w + radix * digits_val ws) div radix = digits_val ws" by simp
    finally show ?thesis using Cons Suc by simp
  qed simp
qed simp

lemma digits_last:
  assumes "ws \<noteq> []" "last ws \<noteq> 0"
  shows "radix ^ (length ws - 1) \<le> digits_val ws"
proof -
  have "digits_val ws = digits_val (butlast ws @ [last ws])" using assms(1) by simp
  also have "\<dots> = digits_val (butlast ws) + radix ^ (length ws - 1) * unat (last ws)" by (simp add: digits_append)
  finally have v: "digits_val ws = digits_val (butlast ws) + radix ^ (length ws - 1) * unat (last ws)" .
  have "1 \<le> unat (last ws)" using assms(2) by (simp add: Suc_le_eq unat_gt_0)
  then have "radix ^ (length ws - 1) * 1 \<le> radix ^ (length ws - 1) * unat (last ws)" by (rule mult_le_mono2)
  then show ?thesis unfolding v by linarith
qed

text \<open>A bigit is a digit of the value.\<close>

lemma get_bigit_val: "unat (get_bigit i b) = bi_val b div radix ^ i mod radix"
proof (cases "i < bi_exp b")
  case True
  then have "radix ^ bi_exp b = radix ^ i * (radix * radix ^ (bi_exp b - Suc i))"
    by (simp flip: power_add power_Suc)
  then have "bi_val b = radix ^ i * (radix * (digits_val (bi_bigits b) * radix ^ (bi_exp b - Suc i)))"
    by (simp add: bi_val_def)
  then show ?thesis using True by (simp add: get_bigit_def)
next
  case False
  then have "radix ^ i = radix ^ bi_exp b * radix ^ (i - bi_exp b)"
    by (simp flip: power_add)
  then have v: "bi_val b div radix ^ i = digits_val (bi_bigits b) div radix ^ (i - bi_exp b)"
    by (simp add: bi_val_def div_mult2_eq)
  show ?thesis
  proof (cases "i < num_bigits b")
    case True
    then show ?thesis using False v digits_nth[of "i - bi_exp b" "bi_bigits b"]
      by (simp add: get_bigit_def num_bigits_def)
  next
    case high: False
    then have "radix ^ length (bi_bigits b) \<le> radix ^ (i - bi_exp b)"
      by (intro power_increasing) (auto simp: num_bigits_def Suc_le_eq)
    then have "digits_val (bi_bigits b) < radix ^ (i - bi_exp b)"
      by (rule order.strict_trans2[OF digits_bound])
    then show ?thesis using v high by (simp add: get_bigit_def)
  qed
qed

lemma bi_val_bound: "bi_val b < radix ^ num_bigits b"
  using digits_bound[of "bi_bigits b"] by (simp add: bi_val_def num_bigits_def power_add)

lemma bi_val_ge:
  assumes "bi_ok b" "bi_val b \<noteq> 0"
  shows "radix ^ (num_bigits b - 1) \<le> bi_val b" "0 < num_bigits b"
proof -
  have n: "bi_bigits b \<noteq> []" "last (bi_bigits b) \<noteq> 0" using assms by (auto simp: bi_ok_def bi_val_def)
  then have "num_bigits b - 1 = (length (bi_bigits b) - 1) + bi_exp b" by (cases "bi_bigits b") (auto simp: num_bigits_def)
  then show "radix ^ (num_bigits b - 1) \<le> bi_val b"
    using digits_last[OF n] by (simp add: bi_val_def power_add)
  show "0 < num_bigits b" using n(1) by (simp add: num_bigits_def)
qed

section \<open>Assignment, shift and multiplication\<close>

text \<open>\<open>assign\<close> of a machine word: the loop stores 32 bits and shifts.\<close>

function assign_loop :: "128 word \<Rightarrow> u32 list" where
  "assign_loop n = (let d = ucast n; n = drop_bit 32 n in if n = 0 then [d] else d # assign_loop n)"
  by pat_completeness auto

lemma unat_drop_bit_less: "w \<noteq> 0 \<Longrightarrow> 0 < k \<Longrightarrow> unat (drop_bit k w) < unat w" for w :: "'a::len word"
  unfolding unat_drop_bit by (rule div_less_dividend) (simp_all add: unat_gt_0 one_less_power del: One_nat_def)

termination assign_loop
proof (relation "measure unat")
  fix n x xa :: "128 word" and d :: u32
  assume "n = drop_bit 32 x" "n \<noteq> 0"
  then show "(n, x) \<in> measure unat" by (cases "x = 0") (auto intro: unat_drop_bit_less)
qed simp

declare assign_loop.simps [simp del]

definition assign :: "128 word \<Rightarrow> bigint" where
  "assign n = \<lparr>bi_bigits = assign_loop n, bi_exp = 0\<rparr>"

lemma assign_loop_val: "digits_val (assign_loop n) = unat n \<and> assign_loop n \<noteq> [] \<and> (last (assign_loop n) = 0 \<longrightarrow> n = 0)"
proof (induction n rule: assign_loop.induct)
  case (1 n)
  have split: "unat n = unat (ucast n :: u32) + radix * unat (drop_bit 32 n)"
    by (simp add: unat_low unat_drop_bit radix_def)
  show ?case
  proof (cases "drop_bit 32 n = 0")
    case True
    then have "unat (ucast n :: u32) = unat n" using split by simp
    then show ?thesis using True by (subst (1 2 3) assign_loop.simps) (auto simp: unat_eq_zero)
  next
    case False
    then show ?thesis using 1[OF refl refl False] split by (subst (1 2 3) assign_loop.simps) (auto simp: Let_def)
  qed
qed

lemma assign_val: "bi_val (assign n) = unat n"
  using assign_loop_val[of n] by (simp add: bi_val_def assign_def)

lemma assign_ok: "n \<noteq> 0 \<Longrightarrow> bi_ok (assign n)"
  using assign_loop_val[of n] by (simp add: bi_ok_def assign_def)

text \<open>\<open>operator<<=\<close>: whole bigits in the exponent, the rest bit by bit with a carry.\<close>

fun shift_loop :: "nat \<Rightarrow> u32 \<Rightarrow> u32 list \<Rightarrow> u32 list \<times> u32" where
  "shift_loop shift carry [] = ([], carry)"
| "shift_loop shift carry (w # ws) =
     (let c = drop_bit (32 - shift) w;
          (ws, carry') = shift_loop shift c ws
      in ((push_bit shift w + carry) # ws, carry'))"

definition shift_left :: "nat \<Rightarrow> bigint \<Rightarrow> bigint" where
  "shift_left shift b =
     (let b = b\<lparr>bi_exp := bi_exp b + shift div 32\<rparr>; shift = shift mod 32
      in if shift = 0 then b
         else let (ws, carry) = shift_loop shift 0 (bi_bigits b)
              in b\<lparr>bi_bigits := (if carry \<noteq> 0 then ws @ [carry] else ws)\<rparr>)"

text \<open>\<open>multiply\<close> by a 32-bit number.\<close>

fun multiply_loop :: "u32 \<Rightarrow> u32 \<Rightarrow> u32 list \<Rightarrow> u32 list \<times> u32" where
  "multiply_loop v carry [] = ([], carry)"
| "multiply_loop v carry (w # ws) =
     (let result = (ucast w :: u64) * ucast v + ucast carry;
          (ws, carry') = multiply_loop v (ucast (drop_bit 32 result)) ws
      in (ucast result # ws, carry'))"

definition multiply :: "u32 \<Rightarrow> bigint \<Rightarrow> bigint" where
  "multiply v b =
     (let (ws, carry) = multiply_loop v 0 (bi_bigits b)
      in b\<lparr>bi_bigits := (if carry \<noteq> 0 then ws @ [carry] else ws)\<rparr>)"

text \<open>A loop that writes a digit and passes a carry on: what it adds up to, and that it leaves no leading zero.\<close>

lemma carry_append: "digits_val (if c \<noteq> 0 then ws @ [c] else ws) = digits_val ws + radix ^ length ws * unat c"
  by (simp add: digits_append)

lemma shift_step:
  fixes w carry :: u32
  assumes "0 < k" "k < 32" "unat carry < 2 ^ k"
  shows "unat (push_bit k w + carry) + radix * unat (drop_bit (32 - k) w) = 2 ^ k * unat w + unat carry"
    "unat (drop_bit (32 - k) w) < 2 ^ k"
proof -
  let ?q = "unat w div 2 ^ (32 - k)" and ?r = "unat w mod 2 ^ (32 - k)"
  have p: "(2::nat) ^ 32 = 2 ^ k * 2 ^ (32 - k)" using assms(2) by (simp flip: power_add)
  have low: "unat (push_bit k w) = 2 ^ k * ?r"
  proof -
    have "unat (push_bit k w) = 2 ^ k * unat w mod 2 ^ 32"
      unfolding unsigned_push_bit_eq by (simp add: take_bit_eq_mod push_bit_eq_mult mult.commute)
    also have "\<dots> = 2 ^ k * ?r" unfolding p by (rule mult_mod_right [symmetric])
    finally show ?thesis .
  qed
  have "2 ^ k * ?r + unat carry < 2 ^ k * (?r + 1)" using assms(3) by simp
  also have "\<dots> \<le> 2 ^ k * 2 ^ (32 - k)" by (intro mult_le_mono2) (simp add: Suc_le_eq)
  finally have "2 ^ k * ?r + unat carry < 2 ^ 32" unfolding p .
  then have "unat (push_bit k w + carry) = 2 ^ k * ?r + unat carry"
    using low unat_plus_exact[of "push_bit k w" carry] by simp
  moreover have "2 ^ k * unat w = 2 ^ k * ?r + 2 ^ 32 * ?q"
    unfolding p mult.assoc distrib_left[symmetric] by simp
  ultimately show "unat (push_bit k w + carry) + radix * unat (drop_bit (32 - k) w) = 2 ^ k * unat w + unat carry"
    by (simp add: unat_drop_bit radix_def)
  have "unat w < 2 ^ k * 2 ^ (32 - k)" using unsigned_less[of w] p by simp
  then show "unat (drop_bit (32 - k) w) < 2 ^ k" by (simp add: unat_drop_bit less_mult_imp_div_less)
qed

lemma shift_loop_val:
  assumes "0 < k" "k < 32" "unat carry < 2 ^ k" "shift_loop k carry ws = (ws', c)"
  shows "digits_val ws' + radix ^ length ws * unat c = 2 ^ k * digits_val ws + unat carry \<and> length ws' = length ws"
  using assms(3,4)
proof (induction ws arbitrary: carry ws')
  case (Cons w ws)
  obtain us where us: "shift_loop k (drop_bit (32 - k) w) ws = (us, c)" "ws' = (push_bit k w + carry) # us"
    using Cons.prems(2) by (auto simp: Let_def split: prod.splits)
  note st = shift_step[OF assms(1,2) Cons.prems(1), of w]
  from Cons.IH[OF st(2) us(1)] have v: "digits_val us + radix ^ length ws * unat c = 2 ^ k * digits_val ws + unat (drop_bit (32 - k) w)"
    and l: "length us = length ws" by simp_all
  have "digits_val ws' + radix ^ length (w # ws) * unat c =
      unat (push_bit k w + carry) + radix * (digits_val us + radix ^ length ws * unat c)"
    by (simp add: us(2) distrib_left mult.assoc)
  also have "\<dots> = unat (push_bit k w + carry) + radix * unat (drop_bit (32 - k) w) + radix * (2 ^ k * digits_val ws)"
    unfolding v by (simp add: distrib_left)
  also have "\<dots> = 2 ^ k * digits_val (w # ws) + unat carry" unfolding st(1) by (simp add: distrib_left mult.left_commute)
  finally show ?case using l us(2) by simp
qed simp

lemma digits_top: "ws \<noteq> [] \<Longrightarrow> last ws \<noteq> 0 \<longleftrightarrow> radix ^ (length ws - 1) \<le> digits_val ws"
proof
  assume ne: "ws \<noteq> []" and v: "radix ^ (length ws - 1) \<le> digits_val ws"
  show "last ws \<noteq> 0"
  proof
    assume "last ws = 0"
    have "digits_val ws = digits_val (butlast ws @ [last ws])" using ne by simp
    also have "\<dots> = digits_val (butlast ws)" by (simp only: digits_append \<open>last ws = 0\<close>) simp
    finally show False using digits_bound[of "butlast ws"] v by simp
  qed
qed (rule digits_last)

lemma carry_ok:
  assumes "bi_ok b" "length ws = length (bi_bigits b)" "digits_val (bi_bigits b) \<le> digits_val ws + radix ^ length ws * unat c"
    "digits_val (bi_bigits b) = 0 \<Longrightarrow> digits_val ws + radix ^ length ws * unat c = 0"
  shows "bi_ok (b\<lparr>bi_bigits := (if c \<noteq> 0 then ws @ [c] else ws)\<rparr>)"
proof (cases "c = 0")
  case True
  show ?thesis
  proof (cases "last (bi_bigits b) = 0")
    case z: True
    then have "bi_bigits b = [0]" using assms(1) by (simp add: bi_ok_def)
    moreover then obtain w where "ws = [w]" using assms(2) by (cases ws) auto
    ultimately show ?thesis using assms(4) True by (simp add: bi_ok_def unat_eq_zero)
  next
    case False
    have ne: "bi_bigits b \<noteq> []" "ws \<noteq> []" using assms(1,2) by (auto simp: bi_ok_def)
    then have "radix ^ (length ws - 1) \<le> digits_val ws" using digits_top[OF ne(1)] False assms(2,3) True by simp
    then show ?thesis using digits_top[OF ne(2)] ne(2) True by (simp add: bi_ok_def)
  qed
qed (simp add: bi_ok_def)

lemma shift_left_val: "bi_val (shift_left k b) = 2 ^ k * bi_val b"
proof -
  have "radix ^ (k div 32) = 2 ^ (32 * (k div 32))" unfolding radix_def by (rule power_mult [symmetric])
  then have p: "radix ^ (k div 32) * 2 ^ (k mod 32) = 2 ^ k" by (simp flip: power_add)
  obtain ws c where r: "shift_loop (k mod 32) 0 (bi_bigits b) = (ws, c)" by force
  show ?thesis
  proof (cases "k mod 32 = 0")
    case True
    with p show ?thesis by (simp add: shift_left_def Let_def bi_val_def power_add mult.assoc mult.left_commute)
  next
    case False
    from shift_loop_val[OF _ _ _ r] False have v: "digits_val ws + radix ^ length ws * unat c = 2 ^ (k mod 32) * digits_val (bi_bigits b)"
      by simp
    have "bi_val (shift_left k b) = (digits_val ws + radix ^ length ws * unat c) * radix ^ (bi_exp b + k div 32)"
      using False by (simp add: shift_left_def Let_def bi_val_def r digits_append)
    also have "\<dots> = (radix ^ (k div 32) * 2 ^ (k mod 32)) * bi_val b"
      unfolding v by (simp add: bi_val_def power_add ac_simps)
    finally show ?thesis unfolding p .
  qed
qed

lemma shift_left_ok: "bi_ok b \<Longrightarrow> bi_ok (shift_left k b)"
proof -
  assume ok: "bi_ok b"
  obtain ws c where r: "shift_loop (k mod 32) 0 (bi_bigits b) = (ws, c)" by force
  show ?thesis
  proof (cases "k mod 32 = 0")
    case True
    with ok show ?thesis by (simp add: shift_left_def Let_def bi_ok_def)
  next
    case False
    from shift_loop_val[OF _ _ _ r] False have v: "digits_val ws + radix ^ length ws * unat c = 2 ^ (k mod 32) * digits_val (bi_bigits b)"
      and l: "length ws = length (bi_bigits b)" by simp_all
    have "bi_ok (b\<lparr>bi_bigits := (if c \<noteq> 0 then ws @ [c] else ws)\<rparr>)"
      by (rule carry_ok[OF ok l]) (simp_all only: v, simp_all)
    then show ?thesis using False by (simp add: shift_left_def Let_def r bi_ok_def)
  qed
qed

lemma multiply_step:
  fixes w v carry :: u32
  defines "result \<equiv> (ucast w :: u64) * ucast v + ucast carry"
  shows "unat (ucast result :: u32) + radix * unat (ucast (drop_bit 32 result) :: u32) = unat v * unat w + unat carry"
proof -
  have b: "unat w * unat v + unat carry < 2 ^ 64"
  proof -
    have "unat w * unat v \<le> (2 ^ 32 - 1) * (2 ^ 32 - 1)" using unat_u32[of w] unat_u32[of v]
      by (intro mult_le_mono) (simp_all add: radix_def)
    then show ?thesis using unat_u32[of carry] by (simp add: radix_def)
  qed
  have u: "unat (ucast w :: u64) = unat w" "unat (ucast v :: u64) = unat v" "unat (ucast carry :: u64) = unat carry"
    by (simp_all add: unat_up)
  have "unat ((ucast w :: u64) * ucast v) = unat w * unat v"
    using b u unat_times_exact[of "ucast w :: u64" "ucast v"] by simp
  then have r: "unat result = unat w * unat v + unat carry"
    using b u unat_plus_exact[of "(ucast w :: u64) * ucast v" "ucast carry"] by (simp add: result_def)
  then have "unat result div 2 ^ 32 < 2 ^ 32" using b by (simp add: less_mult_imp_div_less)
  then have "unat (ucast (drop_bit 32 result) :: u32) = unat result div 2 ^ 32" by (simp add: unat_low unat_drop_bit)
  moreover have "unat (ucast result :: u32) = unat result mod 2 ^ 32" by (simp add: unat_low)
  ultimately have "unat (ucast result :: u32) + radix * unat (ucast (drop_bit 32 result) :: u32) = unat result"
    by (simp add: radix_def)
  then show ?thesis unfolding r by (simp add: mult.commute)
qed

lemma multiply_loop_val:
  assumes "multiply_loop v carry ws = (ws', c)"
  shows "digits_val ws' + radix ^ length ws * unat c = unat v * digits_val ws + unat carry \<and> length ws' = length ws"
  using assms
proof (induction ws arbitrary: carry ws')
  case (Cons w ws)
  define r where "r = (ucast w :: u64) * ucast v + ucast carry"
  obtain us where us: "multiply_loop v (ucast (drop_bit 32 r)) ws = (us, c)" "ws' = ucast r # us"
    using Cons.prems by (auto simp: Let_def r_def split: prod.splits)
  from Cons.IH[OF us(1)] have v: "digits_val us + radix ^ length ws * unat c = unat v * digits_val ws + unat (ucast (drop_bit 32 r) :: u32)"
    and l: "length us = length ws" by simp_all
  have "digits_val ws' + radix ^ length (w # ws) * unat c =
      unat (ucast r :: u32) + radix * (digits_val us + radix ^ length ws * unat c)"
    by (simp add: us(2) distrib_left mult.assoc)
  also have "\<dots> = (unat (ucast r :: u32) + radix * unat (ucast (drop_bit 32 r) :: u32)) + radix * (unat v * digits_val ws)"
    unfolding v by (simp add: distrib_left)
  also have "\<dots> = unat v * digits_val (w # ws) + unat carry"
    unfolding r_def multiply_step by (simp add: distrib_left mult.left_commute)
  finally show ?case using l us(2) by simp
qed simp

lemma multiply_val: "bi_val (multiply v b) = unat v * bi_val b"
proof -
  obtain ws c where r: "multiply_loop v 0 (bi_bigits b) = (ws, c)" by force
  from multiply_loop_val[OF r] have "digits_val ws + radix ^ length ws * unat c = unat v * digits_val (bi_bigits b)" by simp
  then show ?thesis by (simp add: multiply_def r bi_val_def carry_append flip: mult.assoc)
qed

lemma multiply_ok: "bi_ok b \<Longrightarrow> v \<noteq> 0 \<Longrightarrow> bi_ok (multiply v b)"
proof -
  assume ok: "bi_ok b" "v \<noteq> 0"
  obtain ws c where r: "multiply_loop v 0 (bi_bigits b) = (ws, c)" by force
  from multiply_loop_val[OF r] have v: "digits_val ws + radix ^ length ws * unat c = unat v * digits_val (bi_bigits b)"
    and l: "length ws = length (bi_bigits b)" by simp_all
  have "bi_ok (b\<lparr>bi_bigits := (if c \<noteq> 0 then ws @ [c] else ws)\<rparr>)"
    by (rule carry_ok[OF ok(1) l]) (use ok(2) in \<open>simp_all only: v, simp_all add: unat_gt_0 Suc_le_eq\<close>)
  then show ?thesis by (simp add: multiply_def r)
qed

text \<open>
  \<open>multiply\<close> by a 64 or 128-bit number (\<open>'a\<close>), in two halves; the carry is as wide as the number and
  is written out at the end.
\<close>

fun multiply_wide_loop :: "'a::len word \<Rightarrow> 'a word \<Rightarrow> u32 list \<Rightarrow> u32 list \<times> 'a word" where
  "multiply_wide_loop v carry [] = ([], carry)"
| "multiply_wide_loop v carry (w # ws) =
     (let half = LENGTH('a) div 2; shift = half - 32;
          lower = take_bit half v; upper = drop_bit half v;
          result = lower * ucast w + ucast (ucast carry :: u32);
          carry = push_bit shift (upper * ucast w) + drop_bit 32 result + drop_bit 32 carry;
          (ws, carry) = multiply_wide_loop v carry ws
      in (ucast result # ws, carry))"

function carry_bigits :: "'a::len word \<Rightarrow> u32 list" where
  "carry_bigits carry = (if carry = 0 then [] else ucast carry # carry_bigits (drop_bit 32 carry))"
  by pat_completeness auto

termination carry_bigits
proof (relation "measure unat")
  fix carry :: "'a word"
  assume "carry \<noteq> 0"
  then show "(drop_bit 32 carry, carry) \<in> measure unat" by (auto intro: unat_drop_bit_less)
qed simp

declare carry_bigits.simps [simp del]

definition multiply_wide :: "'a::len word \<Rightarrow> bigint \<Rightarrow> bigint" where
  "multiply_wide v b =
     (let (ws, carry) = multiply_wide_loop v 0 (bi_bigits b)
      in b\<lparr>bi_bigits := ws @ carry_bigits carry\<rparr>)"

lemma carry_bigits_val: "32 \<le> LENGTH('a) \<Longrightarrow> digits_val (carry_bigits c) = unat c" for c :: "'a::len word"
proof (induction c rule: carry_bigits.induct)
  case (1 c)
  have "unat c = unat (ucast c :: u32) + radix * unat (drop_bit 32 c)"
    by (simp add: unat_low unat_drop_bit radix_def)
  then show ?case using 1 by (subst carry_bigits.simps) auto
qed

lemma word_halves: "unat c = unat (ucast c :: u32) + radix * unat (drop_bit 32 c)" for c :: "'a::len word"
  by (simp add: unat_low unat_drop_bit radix_def)

lemma carry_bigits_last:
  "c \<noteq> 0 \<Longrightarrow> carry_bigits c \<noteq> [] \<and> last (carry_bigits c) \<noteq> 0" for c :: "'a::len word"
proof (induction c rule: carry_bigits.induct)
  case (1 c)
  show ?case
  proof (cases "drop_bit 32 c = 0")
    case True
    then have "unat (ucast c :: u32) = unat c" using word_halves[of c] by simp
    then have "(ucast c :: u32) \<noteq> 0" using 1(2) by (metis unat_eq_zero)
    then show ?thesis using 1(2) True by (simp add: carry_bigits.simps[of c] carry_bigits.simps[of 0])
  next
    case False
    then show ?thesis using 1(1)[OF 1(2) False] 1(2) by (subst (1 2) carry_bigits.simps) simp
  qed
qed

lemma wide_step:
  fixes v carry :: "'a::len word" and w :: u32
  assumes "LENGTH('a) = 2 * h" "32 \<le> h" "unat carry \<le> unat v"
  defines "result \<equiv> take_bit h v * ucast w + ucast (ucast carry :: u32)"
  defines "nx \<equiv> push_bit (h - 32) (drop_bit h v * ucast w) + drop_bit 32 result + drop_bit 32 carry"
  shows "unat (ucast result :: u32) + radix * unat nx = unat v * unat w + unat carry" "unat nx \<le> unat v"
proof -
  let ?lo = "unat v mod 2 ^ h" and ?hi = "unat v div 2 ^ h" and ?t = "unat v * unat w + unat carry"
  have r: "radix = 2 ^ 32" by (simp add: radix_def)
  have len: "(2 :: nat) ^ LENGTH('a) = 2 ^ h * 2 ^ h" using assms(1) by (simp flip: power_add mult_2)
  have hp: "(2 :: nat) ^ h = radix * 2 ^ (h - 32)" using assms(2) by (simp only: r power_add [symmetric] le_add_diff_inverse)
  have l: "unat (take_bit h v) = ?lo" unfolding unsigned_take_bit_eq by (rule take_bit_eq_mod)
  have u: "unat (drop_bit h v) = ?hi" by (rule unat_drop_bit)
  have w: "unat (ucast w :: 'a word) = unat w" and c: "unat (ucast (ucast carry :: u32) :: 'a word) = unat (ucast carry :: u32)"
    using assms(1,2) by (simp_all add: unat_up)
  have w1: "unat w \<le> radix - 1" and c1: "unat (ucast carry :: u32) \<le> radix - 1" using unat_u32[of w] unat_u32[of "ucast carry"]
    by (auto simp del: unat_u32)
  have le: "?lo * unat w + unat (ucast carry :: u32) < radix * 2 ^ h"
  proof -
    have "?lo < 2 ^ h" by simp
    then have "?lo \<le> 2 ^ h - 1" by linarith
    then have "?lo * unat w \<le> (2 ^ h - 1) * (radix - 1)" using w1 by (rule mult_le_mono)
    moreover have "(2 ^ h - 1) * (radix - 1) + (radix - 1) = 2 ^ h * (radix - 1)" by (cases "(2 :: nat) ^ h") simp_all
    moreover have "2 ^ h * (radix - 1) < 2 ^ h * radix" by simp
    ultimately show ?thesis using c1 by (simp only: mult.commute[of radix])
  qed
  moreover have "radix * 2 ^ h \<le> 2 ^ LENGTH('a)" unfolding len by (intro mult_le_mono1) (simp add: hp)
  ultimately have sm: "?lo * unat w + unat (ucast carry :: u32) < 2 ^ LENGTH('a)" by (rule order.strict_trans2)
  have "unat (take_bit h v * ucast w) = ?lo * unat w"
    using unat_times_exact[of "take_bit h v" "ucast w :: 'a word"] sm l w by simp
  then have res: "unat result = ?lo * unat w + unat (ucast carry :: u32)"
    unfolding result_def using unat_plus_exact[of "take_bit h v * ucast w" "ucast (ucast carry :: u32) :: 'a word"] sm c by simp
  have hw: "unat v = ?lo + 2 ^ h * ?hi" by simp
  have vw: "unat v * unat w = ?lo * unat w + radix * (2 ^ (h - 32) * (?hi * unat w))"
    by (subst hw) (simp add: distrib_right hp mult.assoc)
  have tot: "?t = unat (ucast result :: u32) + radix * (2 ^ (h - 32) * (?hi * unat w) + unat (drop_bit 32 result) + unat (drop_bit 32 carry))"
    using vw word_halves[of carry] res word_halves[of result] by (simp add: distrib_left)
  have "?t \<le> unat v * (radix - 1) + unat v" using w1 assms(3) by (intro add_mono mult_le_mono2) simp_all
  also have "\<dots> = radix * unat v" by (metis Suc_diff_1 add.commute mult.commute mult_Suc radix_pos)
  finally have "radix * (2 ^ (h - 32) * (?hi * unat w) + unat (drop_bit 32 result) + unat (drop_bit 32 carry)) \<le> radix * unat v"
    using tot by linarith
  then have b: "2 ^ (h - 32) * (?hi * unat w) + unat (drop_bit 32 result) + unat (drop_bit 32 carry) \<le> unat v"
    by simp
  then have bb: "2 ^ (h - 32) * (?hi * unat w) + unat (drop_bit 32 result) + unat (drop_bit 32 carry) < 2 ^ LENGTH('a)"
    by (rule order.strict_trans1[OF _ unsigned_less])
  have "?hi * unat w \<le> 2 ^ (h - 32) * (?hi * unat w)" by simp
  then have "?hi * unat w < 2 ^ LENGTH('a)" using bb by linarith
  then have m: "unat (drop_bit h v * ucast w) = ?hi * unat w"
    using unat_times_exact[of "drop_bit h v" "ucast w :: 'a word"] u w by simp
  have p: "unat (push_bit (h - 32) (drop_bit h v * ucast w)) = 2 ^ (h - 32) * (?hi * unat w)"
    unfolding unsigned_push_bit_eq m using bb by (simp add: take_bit_eq_mod push_bit_eq_mult mult.commute)
  have n: "unat nx = 2 ^ (h - 32) * (?hi * unat w) + unat (drop_bit 32 result) + unat (drop_bit 32 carry)"
    unfolding nx_def using unat_plus_exact[of "push_bit (h - 32) (drop_bit h v * ucast w)" "drop_bit 32 result"]
      unat_plus_exact[of "push_bit (h - 32) (drop_bit h v * ucast w) + drop_bit 32 result" "drop_bit 32 carry"] p bb by simp
  show "unat (ucast result :: u32) + radix * unat nx = ?t" unfolding n using tot by simp
  show "unat nx \<le> unat v" unfolding n by (rule b)
qed

lemma multiply_wide_loop_val:
  fixes v carry :: "'a::len word"
  assumes "LENGTH('a) = 2 * h" "32 \<le> h" "unat carry \<le> unat v" "multiply_wide_loop v carry ws = (ws', c)"
  shows "digits_val ws' + radix ^ length ws * unat c = unat v * digits_val ws + unat carry \<and> length ws' = length ws"
  using assms(3,4)
proof (induction ws arbitrary: carry ws')
  case (Cons w ws)
  have half: "LENGTH('a) div 2 = h" using assms(1) by simp
  define r where "r = take_bit h v * ucast w + ucast (ucast carry :: u32)"
  define n where "n = push_bit (h - 32) (drop_bit h v * ucast w) + drop_bit 32 r + drop_bit 32 carry"
  obtain us where us: "multiply_wide_loop v n ws = (us, c)" "ws' = ucast r # us"
    using Cons.prems(2) by (auto simp: half Let_def r_def n_def split: prod.splits)
  note st = wide_step[OF assms(1,2) Cons.prems(1), of w, folded r_def, folded n_def]
  from Cons.IH[OF st(2) us(1)] have v: "digits_val us + radix ^ length ws * unat c = unat v * digits_val ws + unat n"
    and l: "length us = length ws" by simp_all
  have "digits_val ws' + radix ^ length (w # ws) * unat c =
      unat (ucast r :: u32) + radix * (digits_val us + radix ^ length ws * unat c)"
    by (simp add: us(2) distrib_left mult.assoc)
  also have "\<dots> = (unat (ucast r :: u32) + radix * unat n) + radix * (unat v * digits_val ws)"
    unfolding v by (simp add: distrib_left)
  also have "\<dots> = unat v * digits_val (w # ws) + unat carry"
    unfolding st(1) by (simp add: distrib_left mult.left_commute)
  finally show ?case using l us(2) by simp
qed simp

lemma multiply_wide_val:
  assumes "LENGTH('a) = 2 * h" "32 \<le> h"
  shows "bi_val (multiply_wide v b) = unat (v :: 'a::len word) * bi_val b"
proof -
  obtain ws c where r: "multiply_wide_loop v 0 (bi_bigits b) = (ws, c)" by force
  have "digits_val ws + radix ^ length (bi_bigits b) * unat c = unat v * digits_val (bi_bigits b)" "length ws = length (bi_bigits b)"
    using multiply_wide_loop_val[OF assms _ r] by simp_all
  then show ?thesis using carry_bigits_val[of c] assms by (simp add: multiply_wide_def r bi_val_def digits_append flip: mult.assoc)
qed

lemma multiply_wide_ok:
  assumes "LENGTH('a) = 2 * h" "32 \<le> h" "bi_ok b" "v \<noteq> (0 :: 'a::len word)"
  shows "bi_ok (multiply_wide v b)"
proof -
  obtain ws c where r: "multiply_wide_loop v 0 (bi_bigits b) = (ws, c)" by force
  have v: "digits_val ws + radix ^ length ws * unat c = unat v * digits_val (bi_bigits b)" and l: "length ws = length (bi_bigits b)"
    using multiply_wide_loop_val[OF assms(1,2) _ r] by simp_all
  show ?thesis
  proof (cases "c = 0")
    case True
    have "bi_ok (b\<lparr>bi_bigits := (if 0 \<noteq> (0 :: u32) then ws @ [0] else ws)\<rparr>)"
      by (rule carry_ok[OF assms(3) l]) (use v True assms(4) in \<open>simp_all add: unat_gt_0 Suc_le_eq\<close>)
    then show ?thesis using True by (simp add: multiply_wide_def r carry_bigits.simps)
  next
    case False
    then show ?thesis using carry_bigits_last[OF False] by (simp add: multiply_wide_def r bi_ok_def)
  qed
qed

lemma exponents [simp]:
  "bi_exp (multiply v b) = bi_exp b" "bi_exp (multiply_wide u b) = bi_exp b" "bi_exp (shift_left k b) = bi_exp b + k div 32"
  "bi_exp (assign n) = 0"
  by (simp_all add: multiply_def multiply_wide_def shift_left_def assign_def Let_def split: prod.split)

section \<open>Comparison\<close>

text \<open>\<open>compare\<close>: the bigits from the top, and then the longer number is the bigger.\<close>

fun compare_loop :: "u32 list \<Rightarrow> u32 list \<Rightarrow> int" where
  "compare_loop [] [] = 0"
| "compare_loop (x # xs) [] = 1"
| "compare_loop [] (y # ys) = -1"
| "compare_loop (x # xs) (y # ys) = (if x \<noteq> y then (if x > y then 1 else -1) else compare_loop xs ys)"

definition compare :: "bigint \<Rightarrow> bigint \<Rightarrow> int" where
  "compare b1 b2 =
     (if num_bigits b1 \<noteq> num_bigits b2 then (if num_bigits b1 > num_bigits b2 then 1 else -1)
      else compare_loop (rev (bi_bigits b1)) (rev (bi_bigits b2)))"

text \<open>
  The order of the values, with one exception: of two equal numbers the one with more (zero) bigits
  and the smaller exponent counts as the bigger.
\<close>

lemma compare_loop_flip: "compare_loop us vs = - compare_loop vs us"
  by (induction us vs rule: compare_loop.induct) auto

lemma compare_loop_range: "compare_loop us vs \<in> {-1, 0, 1}"
  by (induction us vs rule: compare_loop.induct) auto

lemma top_less:
  assumes "unat y < unat (x :: u32)" "length xs + e = length ys + f"
  shows "digits_val (ys @ [y]) * radix ^ f < digits_val (xs @ [x]) * radix ^ e"
proof -
  have "digits_val (ys @ [y]) < radix ^ length ys * (unat y + 1)"
    using digits_bound[of ys] by (simp add: digits_append algebra_simps)
  also have "\<dots> \<le> radix ^ length ys * unat x" using assms(1) by (intro mult_le_mono2) simp
  finally have "digits_val (ys @ [y]) * radix ^ f < radix ^ length ys * unat x * radix ^ f" by simp
  also have "\<dots> = radix ^ length xs * unat x * radix ^ e"
  proof -
    have "radix ^ length ys * radix ^ f = radix ^ length xs * radix ^ e" by (simp add: assms(2) flip: power_add)
    then show ?thesis by (simp add: ac_simps)
  qed
  also have "\<dots> \<le> digits_val (xs @ [x]) * radix ^ e" by (simp add: digits_append)
  finally show ?thesis .
qed

lemma compare_loop_val:
  assumes "length xs + e = length ys + f"
  shows "compare_loop (rev xs) (rev ys) = 0 \<Longrightarrow> digits_val xs * radix ^ e = digits_val ys * radix ^ f"
    "compare_loop (rev xs) (rev ys) = 1 \<Longrightarrow> digits_val ys * radix ^ f \<le> digits_val xs * radix ^ e"
    "compare_loop (rev xs) (rev ys) = 1 \<Longrightarrow> f \<le> e \<or> hd xs \<noteq> 0 \<Longrightarrow> digits_val ys * radix ^ f < digits_val xs * radix ^ e"
  using assms
proof (induction xs arbitrary: ys rule: rev_induct)
  case Nil
  {
    case 1
    then show ?case by (cases ys rule: rev_cases) auto
  next
    case 2
    then show ?case by (cases ys rule: rev_cases) auto
  next
    case 3
    then show ?case by (cases ys rule: rev_cases) auto
  }
next
  case (snoc x xs)
  have low: "digits_val (zs @ [z]) * radix ^ k = digits_val zs * radix ^ k + radix ^ (length zs + k) * unat z" for zs z k
    by (simp add: digits_append power_add algebra_simps)
  {
    case 1
    then show ?case using snoc(1)[of "butlast ys"]
      by (cases ys rule: rev_cases) (auto simp: low split: if_splits simp flip: add.assoc)
  next
    case 2
    then show ?case using snoc(2)[of "butlast ys"] top_less[of "last ys" x xs e "butlast ys" f]
      by (cases ys rule: rev_cases) (auto simp: low word_less_nat_alt less_imp_le split: if_splits)
  next
    case 3
    show ?case
    proof (cases ys rule: rev_cases)
      case Nil
      then have "hd (xs @ [x]) \<noteq> 0" using 3 by auto
      then obtain w ws where "xs @ [x] = w # ws" "w \<noteq> 0" by (cases "xs @ [x]") auto
      then show ?thesis using Nil by (simp add: unat_gt_0)
    next
      case (snoc us y)
      show ?thesis
      proof (cases "x = y")
        case True
        then have c: "compare_loop (rev xs) (rev us) = 1" using 3(1) snoc by simp
        then have "xs \<noteq> []" by (cases us rule: rev_cases) auto
        then have "f \<le> e \<or> hd xs \<noteq> 0" using 3(2) by simp
        then show ?thesis using snoc.IH(3)[of us] c 3(3) snoc True by (simp add: low)
      qed (use 3 snoc top_less[of y x xs e us f] in \<open>auto simp: word_less_nat_alt split: if_splits\<close>)
    qed
  }
qed

lemma compare_ge:
  assumes "bi_ok b1" "bi_ok b2" "bi_val b2 \<noteq> 0"
    "bi_exp b1 \<le> bi_exp b2 \<or> bi_val b1 \<noteq> 0 \<and> (hd (bi_bigits b2) \<noteq> 0 \<or> bi_val b1 \<noteq> bi_val b2)"
  shows "0 \<le> compare b1 b2 \<longleftrightarrow> bi_val b2 \<le> bi_val b1"
proof -
  have pos: "0 < num_bigits b2" using bi_val_ge(2)[OF assms(2,3)] .
  consider "num_bigits b1 < num_bigits b2" | "num_bigits b2 < num_bigits b1" | "num_bigits b1 = num_bigits b2" by linarith
  then show ?thesis
  proof cases
    case 1
    then have "radix ^ num_bigits b1 \<le> radix ^ (num_bigits b2 - 1)" by (intro power_increasing) (simp_all add: Suc_le_eq)
    then have "bi_val b1 < bi_val b2" using bi_val_bound[of b1] bi_val_ge(1)[OF assms(2,3)] by linarith
    with 1 show ?thesis by (simp add: compare_def)
  next
    case 2
    have "bi_val b1 \<noteq> 0"
    proof
      assume "bi_val b1 = 0"
      then have "digits_val (bi_bigits b1) = 0" by (simp add: bi_val_def)
      then have "bi_bigits b1 = [0]" using assms(1) digits_last[of "bi_bigits b1"] by (auto simp: bi_ok_def)
      moreover have "0 < length (bi_bigits b2)" using assms(2) by (simp add: bi_ok_def)
      ultimately have "num_bigits b1 \<le> num_bigits b2" using assms(4) \<open>bi_val b1 = 0\<close>
        by (cases "bi_bigits b2") (auto simp: num_bigits_def)
      with 2 show False by simp
    qed
    have "radix ^ num_bigits b2 \<le> radix ^ (num_bigits b1 - 1)" using 2 by (intro power_increasing) (simp_all add: Suc_le_eq)
    then have "bi_val b2 < bi_val b1"
      using bi_val_bound[of b2] bi_val_ge(1)[OF assms(1) \<open>bi_val b1 \<noteq> 0\<close>] by linarith
    with 2 show ?thesis by (simp add: compare_def)
  next
    case 3
    let ?xs = "bi_bigits b1" and ?ys = "bi_bigits b2"
    have len: "length ?xs + bi_exp b1 = length ?ys + bi_exp b2" using 3 by (simp add: num_bigits_def)
    consider "compare_loop (rev ?xs) (rev ?ys) = 1" | "compare_loop (rev ?xs) (rev ?ys) = 0" | "compare_loop (rev ?xs) (rev ?ys) = -1"
      using compare_loop_range[of "rev ?xs" "rev ?ys"] by auto
    then show ?thesis
    proof cases
      case 1
      then show ?thesis using compare_loop_val(2)[OF len] 3 by (simp add: compare_def bi_val_def)
    next
      case 2
      then show ?thesis using compare_loop_val(1)[OF len] 3 by (simp add: compare_def bi_val_def)
    next
      case low: 3
      then have "compare_loop (rev ?ys) (rev ?xs) = 1" using compare_loop_flip[of "rev ?ys" "rev ?xs"] by simp
      then have "bi_val b1 < bi_val b2"
        using compare_loop_val(2,3)[OF len[symmetric]] assms(4) by (auto simp: bi_val_def)
      then show ?thesis using low 3 by (simp add: compare_def)
    qed
  qed
qed

text \<open>
  The side condition matters: a zero with an exponent, or a number whose low bigits are in the
  exponent, is not compared by its value.
\<close>

lemma compare_misses:
  "compare \<lparr>bi_bigits = [0], bi_exp = 1\<rparr> (assign 1) = 1"
  "compare \<lparr>bi_bigits = [1], bi_exp = 1\<rparr> \<lparr>bi_bigits = [0, 1], bi_exp = 0\<rparr> = -1"
  by (simp_all add: compare_def num_bigits_def assign_def assign_loop.simps[of 1] Let_def)

text \<open>\<open>add_compare\<close>, from the top bigit of \<open>rhs\<close> down to \<open>min_exp\<close>, with what the left side still lacks.\<close>

fun add_compare_loop :: "bigint \<Rightarrow> bigint \<Rightarrow> bigint \<Rightarrow> nat \<Rightarrow> nat \<Rightarrow> u64 \<Rightarrow> int" where
  "add_compare_loop lhs1 lhs2 rhs min_exp 0 borrow = (if borrow \<noteq> 0 then -1 else 0)"
| "add_compare_loop lhs1 lhs2 rhs min_exp (Suc k) borrow =
     (let i = min_exp + k;
          sum = ucast (get_bigit i lhs1) + ucast (get_bigit i lhs2);
          rhs_bigit = get_bigit i rhs
      in if sum > ucast rhs_bigit + borrow then 1
         else let borrow = ucast rhs_bigit + borrow - sum
              in if borrow > 1 then -1
                 else add_compare_loop lhs1 lhs2 rhs min_exp k (push_bit 32 borrow))"

definition add_compare :: "bigint \<Rightarrow> bigint \<Rightarrow> bigint \<Rightarrow> int" where
  "add_compare lhs1 lhs2 rhs =
     (let max_lhs_bigits = max (num_bigits lhs1) (num_bigits lhs2); num_rhs_bigits = num_bigits rhs
      in if max_lhs_bigits + 1 < num_rhs_bigits then -1
         else if max_lhs_bigits > num_rhs_bigits then 1
         else let min_exp = min (min (bi_exp lhs1) (bi_exp lhs2)) (bi_exp rhs)
              in add_compare_loop lhs1 lhs2 rhs min_exp (num_rhs_bigits - min_exp) 0)"

definition order_of :: "nat \<Rightarrow> nat \<Rightarrow> int" where
  "order_of a b = (if a < b then -1 else if a > b then 1 else 0)"

lemma div_step: "a div radix ^ k = radix * (a div radix ^ Suc k) + a div radix ^ k mod radix"
  by (simp only: power_Suc mult.commute[of radix] div_mult2_eq) (simp add: mult.commute)

lemma order_by_parts:
  assumes "a div r ^ k + b div r ^ k > c div r ^ k"
  shows "order_of (a + b) c = 1"
proof -
  have "c < (c div r ^ k + 1) * r ^ k"
    using assms by (cases "r ^ k = 0") (simp_all add: dividend_less_div_times)
  also have "\<dots> \<le> (a div r ^ k + b div r ^ k) * r ^ k" using assms by (intro mult_le_mono1) simp
  also have "\<dots> \<le> a + b" by (simp add: distrib_right add_mono)
  finally show ?thesis by (simp add: order_of_def)
qed

lemma order_by_parts_low:
  assumes "a div r ^ k + b div r ^ k + 2 \<le> c div r ^ k"
  shows "order_of (a + b) c = -1"
proof -
  have p: "r ^ k > 0" using assms by (cases "r ^ k = 0") simp_all
  then have "a < (a div r ^ k + 1) * r ^ k" "b < (b div r ^ k + 1) * r ^ k" by (simp_all add: dividend_less_div_times)
  then have "a + b < (a div r ^ k + b div r ^ k + 2) * r ^ k" by (simp add: algebra_simps)
  also have "\<dots> \<le> c div r ^ k * r ^ k" using assms by (intro mult_le_mono1)
  also have "\<dots> \<le> c" by simp
  finally show ?thesis by (simp add: order_of_def)
qed

lemma add_compare_step:
  fixes x y r :: u32 and borrow :: u64
  assumes "unat borrow \<le> radix"
  defines "lhs \<equiv> ucast x + ucast y :: u64" and "avail \<equiv> ucast r + borrow"
  shows "unat lhs = unat x + unat y" "unat avail = unat r + unat borrow"
    "lhs \<le> avail \<Longrightarrow> unat (avail - lhs) = unat avail - unat lhs"
proof -
  have u: "unat (ucast x :: u64) = unat x" "unat (ucast y :: u64) = unat y" "unat (ucast r :: u64) = unat r"
    by (simp_all add: unat_up)
  show "unat lhs = unat x + unat y" unfolding lhs_def
    using unat_plus_exact[of "ucast x :: u64" "ucast y"] u unat_u32[of x] unat_u32[of y] by (simp add: radix_def del: unat_u32)
  show "unat avail = unat r + unat borrow" unfolding avail_def
    using unat_plus_exact[of "ucast r :: u64" borrow] u unat_u32[of r] assms(1) by (simp add: radix_def del: unat_u32)
  show "lhs \<le> avail \<Longrightarrow> unat (avail - lhs) = unat avail - unat lhs" by (simp add: unat_sub)
qed

lemma add_compare_loop_val:
  assumes "radix ^ m dvd bi_val l1" "radix ^ m dvd bi_val l2" "radix ^ m dvd bi_val r"
    "unat borrow = radix * (bi_val r div radix ^ (m + k) - (bi_val l1 div radix ^ (m + k) + bi_val l2 div radix ^ (m + k)))"
    "bi_val l1 div radix ^ (m + k) + bi_val l2 div radix ^ (m + k) \<le> bi_val r div radix ^ (m + k)"
    "bi_val r div radix ^ (m + k) \<le> bi_val l1 div radix ^ (m + k) + bi_val l2 div radix ^ (m + k) + 1"
  shows "add_compare_loop l1 l2 r m k borrow = order_of (bi_val l1 + bi_val l2) (bi_val r)"
  using assms(4-6)
proof (induction k arbitrary: borrow)
  case 0
  let ?q = "\<lambda>b. bi_val b div radix ^ m"
  have v: "bi_val l1 = radix ^ m * ?q l1" "bi_val l2 = radix ^ m * ?q l2" "bi_val r = radix ^ m * ?q r"
    using assms(1-3) by simp_all
  have o: "order_of (bi_val l1 + bi_val l2) (bi_val r) = order_of (?q l1 + ?q l2) (?q r)"
    by (subst v(1), subst v(2), subst v(3)) (simp add: order_of_def flip: distrib_left)
  show ?case
  proof (cases "?q r = ?q l1 + ?q l2")
    case True
    then have "borrow = 0" using 0(1) by (simp add: unat_eq_zero)
    then show ?thesis using o True by (simp add: order_of_def)
  next
    case False
    then have q: "?q r = ?q l1 + ?q l2 + 1" using 0(2,3) by simp
    then have "unat borrow = radix" using 0(1) by simp
    then have "borrow \<noteq> 0" by auto
    then show ?thesis using o q by (simp add: order_of_def)
  qed
next
  case (Suc k)
  let ?i = "m + k"
  let ?q = "\<lambda>b. bi_val b div radix ^ ?i" and ?h = "\<lambda>b. bi_val b div radix ^ Suc ?i"
  let ?d = "\<lambda>b. get_bigit ?i b"
  have q: "?q b = radix * ?h b + unat (?d b)" for b unfolding get_bigit_val by (rule div_step)
  have b: "unat borrow = radix * (?h r - (?h l1 + ?h l2))" and le: "?h l1 + ?h l2 \<le> ?h r" "?h r \<le> ?h l1 + ?h l2 + 1"
    using Suc.prems by simp_all
  obtain d where "?h r = ?h l1 + ?h l2 + d" using le(1) le_Suc_ex by blast
  then have br: "radix * ?h r = radix * ?h l1 + radix * ?h l2 + unat borrow" unfolding b by (simp add: distrib_left)
  have bound: "unat borrow \<le> radix" unfolding b using le by (cases "?h r = ?h l1 + ?h l2") auto
  let ?sum = "ucast (?d l1) + ucast (?d l2) :: u64" and ?have = "ucast (?d r) + borrow"
  have w: "unat ?sum = unat (?d l1) + unat (?d l2)" "unat ?have = unat (?d r) + unat borrow"
    "?sum \<le> ?have \<Longrightarrow> unat (?have - ?sum) = unat ?have - unat ?sum"
    by (rule add_compare_step[OF bound], assumption?)+
  have cmp: "?sum > ?have \<longleftrightarrow> ?q l1 + ?q l2 > ?q r"
    unfolding word_less_nat_alt w(1,2) q using br by linarith
  show ?case
  proof (cases "?sum > ?have")
    case True
    then show ?thesis using order_by_parts[where r = radix and k = ?i and a = "bi_val l1" and b = "bi_val l2" and c = "bi_val r"] cmp by (simp add: Let_def)
  next
    case False
    then have le': "?sum \<le> ?have" by simp
    have nb: "unat (?have - ?sum) = ?q r - (?q l1 + ?q l2)" "?q l1 + ?q l2 \<le> ?q r"
      using w(3)[OF le'] w(1,2) br q False cmp by simp_all
    show ?thesis
    proof (cases "?have - ?sum > 1")
      case True
      then have "?q l1 + ?q l2 + 2 \<le> ?q r" using nb by (simp add: word_less_nat_alt)
      then show ?thesis using order_by_parts_low[of "bi_val l1" radix ?i "bi_val l2" "bi_val r"] True False
        by (simp add: Let_def)
    next
      case small: False
      then have s: "unat (?have - ?sum) \<le> 1" by (simp add: word_less_nat_alt)
      then have "unat (push_bit 32 (?have - ?sum)) = radix * unat (?have - ?sum)"
        unfolding unsigned_push_bit_eq by (cases "unat (?have - ?sum)") (simp_all add: radix_def push_bit_eq_mult take_bit_eq_mod)
      then have "add_compare_loop l1 l2 r m k (push_bit 32 (?have - ?sum)) = order_of (bi_val l1 + bi_val l2) (bi_val r)"
        using nb s by (intro Suc.IH) simp_all
      then show ?thesis using False small by (simp add: Let_def)
    qed
  qed
qed

lemma add_compare_val:
  assumes "bi_ok l1" "bi_ok l2" "bi_ok r" "bi_val r \<noteq> 0" "bi_val l1 \<noteq> 0 \<or> num_bigits l1 \<le> num_bigits r"
    "bi_val l2 \<noteq> 0 \<or> num_bigits l2 \<le> num_bigits r"
  shows "add_compare l1 l2 r = order_of (bi_val l1 + bi_val l2) (bi_val r)"
proof -
  let ?max = "max (num_bigits l1) (num_bigits l2)"
  consider (less) "?max + 1 < num_bigits r" | (more) "?max > num_bigits r" | (both) "?max \<le> num_bigits r" "\<not> ?max + 1 < num_bigits r"
    by linarith
  then show ?thesis
  proof cases
    case less
    have b: "bi_val l1 < radix ^ ?max" "bi_val l2 < radix ^ ?max"
      by (rule order.strict_trans2[OF bi_val_bound], rule power_increasing, simp_all add: Suc_le_eq)+
    have "bi_val l1 + bi_val l2 < 2 * radix ^ ?max" using b by simp
    also have "\<dots> \<le> radix * radix ^ ?max" by (intro mult_le_mono1) (simp add: radix_def)
    also have "\<dots> = radix ^ Suc ?max" by simp
    also have "\<dots> \<le> radix ^ (num_bigits r - 1)"
      by (rule power_increasing) (use less in linarith, simp add: Suc_le_eq)
    also have "\<dots> \<le> bi_val r" by (rule bi_val_ge[OF assms(3,4)])
    finally show ?thesis using less by (simp add: add_compare_def Let_def order_of_def)
  next
    case more
    have r: "bi_val r < radix ^ num_bigits r" by (rule bi_val_bound)
    have "radix ^ num_bigits r \<le> bi_val l1 \<or> radix ^ num_bigits r \<le> bi_val l2"
    proof (cases "num_bigits l1 > num_bigits r")
      case True
      then have "radix ^ num_bigits r \<le> radix ^ (num_bigits l1 - 1)" by (intro power_increasing) (simp_all add: Suc_le_eq)
      then show ?thesis using bi_val_ge(1)[OF assms(1)] assms(5) True by (meson leD order_trans)
    next
      case False
      then have n: "num_bigits l2 > num_bigits r" using more by simp
      then have "radix ^ num_bigits r \<le> radix ^ (num_bigits l2 - 1)" by (intro power_increasing) (simp_all add: Suc_le_eq)
      then show ?thesis using bi_val_ge(1)[OF assms(2)] assms(6) n by (meson leD order_trans)
    qed
    then have "bi_val r < bi_val l1 + bi_val l2" using r by linarith
    then show ?thesis using more by (simp add: add_compare_def Let_def order_of_def)
  next
    case both
    let ?m = "min (min (bi_exp l1) (bi_exp l2)) (bi_exp r)"
    have d: "radix ^ ?m dvd bi_val l1" "radix ^ ?m dvd bi_val l2" "radix ^ ?m dvd bi_val r"
      unfolding bi_val_def by (rule dvd_mult, rule le_imp_power_dvd, simp)+
    have m: "?m + (num_bigits r - ?m) = num_bigits r" by (simp add: num_bigits_def)
    have "bi_val l1 < radix ^ num_bigits r" "bi_val l2 < radix ^ num_bigits r"
      by (rule order.strict_trans2[OF bi_val_bound], rule power_increasing, use both(1) in \<open>simp_all add: Suc_le_eq\<close>)+
    then have "bi_val l1 div radix ^ num_bigits r = 0" "bi_val l2 div radix ^ num_bigits r = 0" "bi_val r div radix ^ num_bigits r = 0"
      using bi_val_bound[of r] by simp_all
    then have "add_compare_loop l1 l2 r ?m (num_bigits r - ?m) 0 = order_of (bi_val l1 + bi_val l2) (bi_val r)"
      by (intro add_compare_loop_val d) (simp_all only: m, simp_all)
    then show ?thesis unfolding add_compare_def Let_def by (simp only: both(2) leD[OF both(1)] if_False)
  qed
qed

section \<open>Subtraction and division\<close>

text \<open>\<open>remove_leading_zeros\<close> keeps the lowest bigit in any case.\<close>

definition remove_leading_zeros :: "bigint \<Rightarrow> bigint" where
  "remove_leading_zeros b =
     b\<lparr>bi_bigits := (case bi_bigits b of
        [] \<Rightarrow> []
      | w # ws \<Rightarrow> w # rev (dropWhile (\<lambda>d. d = 0) (rev ws)))\<rparr>"

definition subtract_bigit :: "u32 \<Rightarrow> u32 \<Rightarrow> u32 \<Rightarrow> u32 \<times> u32" where
  "subtract_bigit w other borrow =
     (let result = (ucast w :: u64) - ucast other - ucast borrow
      in (ucast result, ucast (drop_bit 63 result)))"

text \<open>
  The loop of \<open>subtract_aligned\<close>, and the one more subtraction after it.  A bigit of the subtrahend
  without one to subtract it from, which would be outside the array, ends it.
\<close>

fun subtract_loop :: "u32 list \<Rightarrow> u32 list \<Rightarrow> u32 \<Rightarrow> u32 list \<times> u32" where
  "subtract_loop (x # xs) (y # ys) borrow =
     (let (r, borrow) = subtract_bigit x y borrow; (rs, borrow) = subtract_loop xs ys borrow
      in (r # rs, borrow))"
| "subtract_loop (x # xs) [] borrow =
     (if borrow \<noteq> 0 then let (r, borrow) = subtract_bigit x 0 borrow in (r # xs, borrow) else (x # xs, borrow))"
| "subtract_loop [] ys borrow = ([], borrow)"

text \<open>\<open>None\<close> is a failed assertion: numbers that are not aligned, a larger subtrahend, or a borrow that is left.\<close>

definition subtract_aligned :: "bigint \<Rightarrow> bigint \<Rightarrow> bigint option" where
  "subtract_aligned other b =
     (if bi_exp other < bi_exp b \<or> compare b other < 0 then None
      else let i = bi_exp other - bi_exp b;
               (ws, borrow) = subtract_loop (drop i (bi_bigits b)) (bi_bigits other) 0
           in if borrow \<noteq> 0 then None
              else Some (remove_leading_zeros (b\<lparr>bi_bigits := take i (bi_bigits b) @ ws\<rparr>)))"

definition align :: "bigint \<Rightarrow> bigint \<Rightarrow> bigint" where
  "align other b =
     (if bi_exp b \<le> bi_exp other then b
      else let exp_difference = bi_exp b - bi_exp other
           in b\<lparr>bi_bigits := replicate exp_difference 0 @ bi_bigits b, bi_exp := bi_exp b - exp_difference\<rparr>)"

text \<open>
  The \<open>do ... while\<close> of \<open>divmod_assign\<close> with the quotient counted so far, an \<open>int\<close>: counting on from its largest value
  is not defined (\<open>None\<close>).
\<close>

definition quotient_max :: int where
  "quotient_max = 2147483647"

partial_function (option) divmod_loop :: "bigint \<Rightarrow> bigint \<Rightarrow> int \<Rightarrow> (int \<times> bigint) option" where
  "divmod_loop divisor b q =
     (case subtract_aligned divisor b of
        None \<Rightarrow> None
      | Some b \<Rightarrow>
          if q = quotient_max then None
          else let q = q + 1 in if compare b divisor \<ge> 0 then divmod_loop divisor b q else Some (q, b))"

declare divmod_loop.simps [code]

text \<open>The assertion on the highest digit of the divisor comes after the early return.\<close>

definition divmod_assign :: "bigint \<Rightarrow> bigint \<Rightarrow> (int \<times> bigint) option" where
  "divmod_assign divisor b =
     (if compare b divisor < 0 then Some (0, b)
      else if bi_bigits divisor = [] \<or> last (bi_bigits divisor) = 0 then None
      else divmod_loop divisor (align divisor b) 0)"

lemma subtract_bigit_val:
  assumes "unat borrow \<le> 1" "subtract_bigit w y borrow = (r, borrow')"
  shows "unat r + unat y + unat borrow = unat w + radix * unat borrow'" "unat borrow' \<le> 1"
proof -
  let ?w = "ucast w :: u64" and ?y = "ucast y :: u64" and ?b = "ucast borrow :: u64"
  define result where "result = ?w - ?y - ?b"
  have u: "unat ?w = unat w" "unat ?y = unat y" "unat ?b = unat borrow" by (simp_all add: unat_up)
  have lt: "unat w < 2 ^ 32" "unat y < 2 ^ 32" using unat_u32[of w] unat_u32[of y] by (simp_all add: radix_def del: unat_u32)
  have yb: "unat (?y + ?b) = unat y + unat borrow"
    using unat_plus_exact[of ?y ?b] u lt assms(1) by simp
  have e: "result = ?w - (?y + ?b)" by (simp add: result_def)
  have "r = ucast result" "borrow' = ucast (drop_bit 63 result)" using assms(2) by (simp_all add: subtract_bigit_def Let_def result_def)
  then have r: "unat r = unat result mod 2 ^ 32" "unat borrow' = unat result div 2 ^ 63 mod 2 ^ 32"
    by (simp_all add: unat_low unat_drop_bit)
  have "unat r + unat y + unat borrow = unat w + radix * unat borrow' \<and> unat borrow' \<le> 1"
  proof (cases "?y + ?b \<le> ?w")
    case True
    then have v: "unat result = unat w - (unat y + unat borrow)" "unat y + unat borrow \<le> unat w"
      unfolding e using yb u by (simp_all add: unat_sub word_le_nat_alt)
    then have "unat result < 2 ^ 32" using lt by simp
    then have "unat r = unat result" "unat borrow' = 0"
      unfolding r by simp_all
    then show ?thesis using v by simp
  next
    case False
    then have less: "unat w < unat y + unat borrow" using yb u by (simp add: word_le_nat_alt)
    then obtain d where d: "unat y + unat borrow = unat w + d" "0 < d" using less_imp_add_positive by metis
    have d32: "d \<le> 2 ^ 32" using d(1) lt assms(1) by linarith
    have "unat result = 2 ^ 64 + unat w - (unat w + d)"
      unfolding e using False yb u d(1) by (simp add: unat_sub_if' word_le_nat_alt)
    then have v: "unat result = 2 ^ 64 - d" by simp
    have "2 ^ 64 - d = (2 ^ 32 - d) + 2 ^ 32 * (2 ^ 32 - 1)" using d32 by simp
    then have "unat result mod 2 ^ 32 = (2 ^ 32 - d) mod 2 ^ 32" unfolding v by (simp only: mod_mult_self2)
    then have 1: "unat r = 2 ^ 32 - d" unfolding r using d(2) by simp
    have "unat result div 2 ^ 63 = 1" unfolding v using d(2) d32 by (intro div_nat_eqI) simp_all
    then have "unat borrow' = 1" unfolding r by simp
    with 1 d(1) d32 show ?thesis by (simp add: radix_def)
  qed
  then show "unat r + unat y + unat borrow = unat w + radix * unat borrow'" "unat borrow' \<le> 1" by simp_all
qed

lemma subtract_loop_val:
  assumes "unat borrow \<le> 1" "length ys \<le> length xs" "length xs \<le> Suc (length ys)" "subtract_loop xs ys borrow = (ws, borrow')"
  shows "digits_val ws + digits_val ys + unat borrow = digits_val xs + radix ^ length xs * unat borrow' \<and> length ws = length xs"
  using assms
proof (induction xs ys borrow arbitrary: ws rule: subtract_loop.induct)
  case (1 x xs y ys borrow)
  obtain r b1 where s: "subtract_bigit x y borrow = (r, b1)" by force
  obtain rs where l: "subtract_loop xs ys b1 = (rs, borrow')" "ws = r # rs"
    using 1(5) s by (auto split: prod.splits)
  note v = subtract_bigit_val[OF 1(2) s]
  have "digits_val rs + digits_val ys + unat b1 = digits_val xs + radix ^ length xs * unat borrow'" "length rs = length xs"
    using 1(1)[OF s[symmetric] refl v(2) _ _ l(1)] 1(3,4) by simp_all
  then have "radix * digits_val rs + radix * digits_val ys + radix * unat b1 = radix * digits_val xs + radix * (radix ^ length xs * unat borrow')"
    by (simp only: distrib_left [symmetric])
  then show ?case using v(1) l(2) \<open>length rs = length xs\<close> by simp
next
  case (2 x xs borrow)
  then have "xs = []" by simp
  show ?case
  proof (cases "borrow = 0")
    case False
    obtain r b1 where s: "subtract_bigit x 0 borrow = (r, b1)" by force
    then have "ws = [r]" "borrow' = b1" using 2(4) False \<open>xs = []\<close> by simp_all
    then show ?thesis using subtract_bigit_val[OF 2(1) s] \<open>xs = []\<close> by simp
  qed (use 2(4) \<open>xs = []\<close> in simp)
qed simp

lemma digits_zeros: "digits_val (replicate n 0 @ ws) = radix ^ n * digits_val ws"
  by (induction n) simp_all

lemma digits_drop_zeros: "digits_val (rev (dropWhile (\<lambda>d. d = 0) (rev ws))) = digits_val ws"
  by (induction ws rule: rev_induct) (auto simp: digits_append)

lemma last_drop_zeros: "rev (dropWhile (\<lambda>d. d = 0) (rev ws)) \<noteq> [] \<Longrightarrow> last (rev (dropWhile (\<lambda>d. d = 0) (rev ws))) \<noteq> 0"
  by (induction ws rule: rev_induct) auto

lemma remove_leading_zeros_val [simp]:
  "bi_val (remove_leading_zeros b) = bi_val b" "bi_exp (remove_leading_zeros b) = bi_exp b"
  by (simp_all add: remove_leading_zeros_def bi_val_def digits_drop_zeros split: list.split)

lemma remove_leading_zeros_ok: "bi_bigits b \<noteq> [] \<Longrightarrow> bi_ok (remove_leading_zeros b)"
proof -
  assume "bi_bigits b \<noteq> []"
  then obtain w ws where b: "bi_bigits b = w # ws" by (cases "bi_bigits b") auto
  then show ?thesis using last_drop_zeros[of ws]
    by (cases "rev (dropWhile (\<lambda>d. d = 0) (rev ws)) = []") (auto simp: remove_leading_zeros_def bi_ok_def)
qed

lemma subtract_aligned_val:
  assumes "bi_ok b" "bi_ok other" "bi_exp b \<le> bi_exp other" "bi_val other \<noteq> 0" "bi_val other \<le> bi_val b"
    "bi_val b < radix * bi_val other"
  shows "\<exists>r. subtract_aligned other b = Some r \<and> bi_val r = bi_val b - bi_val other \<and> bi_ok r \<and> bi_exp r = bi_exp b"
proof -
  let ?i = "bi_exp other - bi_exp b" and ?xs = "bi_bigits b" and ?ys = "bi_bigits other"
  have pos: "bi_val b \<noteq> 0" using assms(4,5) by linarith
  have ge: "num_bigits other \<le> num_bigits b"
  proof (rule ccontr)
    assume "\<not> ?thesis"
    then have "radix ^ num_bigits b \<le> radix ^ (num_bigits other - 1)" by (intro power_increasing) (simp_all add: Suc_le_eq)
    then show False using bi_val_bound[of b] bi_val_ge(1)[OF assms(2,4)] assms(5) by linarith
  qed
  have le: "num_bigits b \<le> Suc (num_bigits other)"
  proof (rule ccontr)
    assume "\<not> ?thesis"
    then have "radix ^ Suc (num_bigits other) \<le> radix ^ (num_bigits b - 1)" by (intro power_increasing) (simp_all add: Suc_le_eq)
    moreover have "radix * bi_val other < radix ^ Suc (num_bigits other)" using bi_val_bound[of other] by simp
    ultimately show False using bi_val_ge(1)[OF assms(1) pos] assms(6) by linarith
  qed
  have ne: "?xs \<noteq> []" "?ys \<noteq> []" using assms(1,2) by (simp_all add: bi_ok_def)
  then have "1 \<le> length ?ys" by (simp add: Suc_le_eq)
  then have i: "?i < length ?xs" using ge[unfolded num_bigits_def] assms(3) by linarith
  have len: "length ?ys \<le> length (drop ?i ?xs)" "length (drop ?i ?xs) \<le> Suc (length ?ys)"
    using ge le assms(3) by (simp_all add: num_bigits_def)
  obtain ws c where l: "subtract_loop (drop ?i ?xs) ?ys 0 = (ws, c)" by force
  have v: "digits_val ws + digits_val ?ys = digits_val (drop ?i ?xs) + radix ^ length ws * unat c"
    and lw: "length ws = length ?xs - ?i"
    using subtract_loop_val[OF _ len l] by simp_all
  have ev: "bi_val other = radix ^ ?i * digits_val ?ys * radix ^ bi_exp b"
    using assms(3) by (simp add: bi_val_def mult.commute mult.left_commute flip: power_add)
  have bv: "bi_val b = (digits_val (take ?i ?xs) + radix ^ ?i * digits_val (drop ?i ?xs)) * radix ^ bi_exp b"
    using digits_split[of ?xs ?i] i by (simp add: bi_val_def)
  have lo: "digits_val (take ?i ?xs) < radix ^ ?i" using digits_bound[of "take ?i ?xs"] i by simp
  have "digits_val ?ys \<le> digits_val (drop ?i ?xs)"
  proof -
    have "radix ^ ?i * digits_val ?ys \<le> digits_val (take ?i ?xs) + radix ^ ?i * digits_val (drop ?i ?xs)"
      using assms(5) unfolding ev bv by simp
    also have "\<dots> < radix ^ ?i * (digits_val (drop ?i ?xs) + 1)" using lo by simp
    finally have "digits_val ?ys < digits_val (drop ?i ?xs) + 1" by (simp only: mult_less_cancel1)
    then show ?thesis by simp
  qed
  then have "radix ^ length ws * unat c \<le> digits_val ws" using v by linarith
  then have "unat c = 0" using digits_bound[of ws] by (cases "unat c") simp_all
  then have w: "digits_val ws + digits_val ?ys = digits_val (drop ?i ?xs)" using v by simp
  define r where "r = remove_leading_zeros (b\<lparr>bi_bigits := take ?i ?xs @ ws\<rparr>)"
  have "0 \<le> compare b other" using compare_ge[OF assms(1,2,4)] assms(3,5) by simp
  then have s: "subtract_aligned other b = Some r"
    using \<open>unat c = 0\<close> assms(3) by (simp add: subtract_aligned_def l r_def unat_eq_zero)
  have "bi_val r = (digits_val (take ?i ?xs) + radix ^ ?i * digits_val ws) * radix ^ bi_exp b"
    unfolding r_def remove_leading_zeros_val using i by (simp add: bi_val_def digits_append min_def)
  then have "bi_val r + bi_val other = bi_val b"
    unfolding bv ev w[symmetric] by (simp add: distrib_left distrib_right)
  then have "bi_val r = bi_val b - bi_val other" by simp
  moreover have "bi_ok r" unfolding r_def using lw i ne(1) by (intro remove_leading_zeros_ok) auto
  moreover have "bi_exp r = bi_exp b" unfolding r_def by simp
  ultimately show ?thesis using s by blast
qed

text \<open>
  Only one more bigit is ever borrowed from: a number much longer than the subtrahend is not subtracted from
  correctly, and the last assertion, without which the result would be wrong, fails.
\<close>

lemma subtract_misses:
  "subtract_loop [0, 0, 1] [1] 0 = ([0xFFFFFFFF, 0xFFFFFFFF, 1], 1)"
  "subtract_aligned (assign 1) \<lparr>bi_bigits = [0, 0, 1], bi_exp = 0\<rparr> = None"
  by code_simp+

lemma align_val:
  "bi_val (align other b) = bi_val b" "bi_exp (align other b) \<le> bi_exp other" "bi_val b \<noteq> 0 \<Longrightarrow> bi_ok b \<Longrightarrow> bi_ok (align other b)"
proof -
  show "bi_exp (align other b) \<le> bi_exp other" by (simp add: align_def Let_def)
  show "bi_val (align other b) = bi_val b"
    by (simp add: align_def Let_def bi_val_def digits_zeros mult.commute mult.left_commute flip: power_add)
  assume "bi_val b \<noteq> 0" "bi_ok b"
  then have "bi_bigits b \<noteq> []" "last (bi_bigits b) \<noteq> 0" by (auto simp: bi_ok_def bi_val_def)
  then show "bi_ok (align other b)" by (simp add: align_def Let_def bi_ok_def)
qed

lemma divmod_loop_val:
  assumes "bi_ok b" "bi_ok d" "bi_exp b \<le> bi_exp d" "bi_val d \<noteq> 0" "bi_val d \<le> bi_val b" "bi_val b < radix * bi_val d"
    and "q + int (bi_val b div bi_val d) \<le> quotient_max"
  shows "\<exists>b'. divmod_loop d b q = Some (q + int (bi_val b div bi_val d), b') \<and> bi_val b' = bi_val b mod bi_val d \<and>
    bi_ok b' \<and> bi_exp b' = bi_exp b"
  using assms
proof (induction "bi_val b" arbitrary: b q rule: less_induct)
  case less
  obtain r where r: "subtract_aligned d b = Some r" "bi_val r = bi_val b - bi_val d" "bi_ok r" "bi_exp r = bi_exp b"
    using subtract_aligned_val[OF less.prems(1-6)] by blast
  have dm: "bi_val b div bi_val d = Suc (bi_val r div bi_val d)" "bi_val b mod bi_val d = bi_val r mod bi_val d"
    using less.prems(4,5) by (simp_all add: r(2) le_div_geq le_mod_geq)
  have q: "q + 1 + int (bi_val r div bi_val d) \<le> quotient_max" "q \<noteq> quotient_max" using less.prems(7) unfolding dm by simp_all
  have c: "0 \<le> compare r d \<longleftrightarrow> bi_val d \<le> bi_val r"
    by (rule compare_ge[OF r(3) less.prems(2,4)]) (simp add: r(4) less.prems(3))
  show ?case
  proof (cases "bi_val d \<le> bi_val r")
    case True
    have "bi_val r < bi_val b" using r(2) less.prems(4,5) by simp
    moreover have "bi_val r < radix * bi_val d" using r(2) less.prems(6) by simp
    ultimately have "\<exists>b'. divmod_loop d r (q + 1) = Some (q + 1 + int (bi_val r div bi_val d), b') \<and>
        bi_val b' = bi_val r mod bi_val d \<and> bi_ok b' \<and> bi_exp b' = bi_exp r"
      using True by (intro less.hyps r less.prems q) (simp_all only: r(4) less.prems)
    then show ?thesis using c True dm r(1,4) q(2) by (subst divmod_loop.simps) (simp add: Let_def add.assoc)
  next
    case False
    then show ?thesis using c dm r q(2) by (subst divmod_loop.simps) (simp add: Let_def)
  qed
qed

lemma divmod_assign_val:
  assumes "bi_ok b" "bi_ok d" "bi_val d \<noteq> 0" "bi_val b < 2 ^ 31 * bi_val d"
    "bi_exp b \<le> bi_exp d \<or> bi_val b \<noteq> 0 \<and> (hd (bi_bigits d) \<noteq> 0 \<or> bi_val b \<noteq> bi_val d)"
  shows "\<exists>b'. divmod_assign d b = Some (int (bi_val b div bi_val d), b') \<and> bi_val b' = bi_val b mod bi_val d \<and> bi_ok b' \<and>
    (bi_val d \<le> bi_val b \<or> bi_exp b \<le> bi_exp d \<longrightarrow> bi_exp b' \<le> bi_exp d)"
proof (cases "bi_val d \<le> bi_val b")
  case False
  then show ?thesis using compare_ge[OF assms(1,2,3,5)] assms(1) by (simp add: divmod_assign_def)
next
  case True
  then have nz: "bi_val b \<noteq> 0" using assms(3) by linarith
  note a = align_val[where other = d and b = b]
  have top: "bi_bigits d \<noteq> []" "last (bi_bigits d) \<noteq> 0" using assms(2,3) by (auto simp: bi_ok_def bi_val_def)
  have "2 ^ 31 * bi_val d \<le> radix * bi_val d" by (intro mult_le_mono1) (simp add: radix_def)
  then have small: "bi_val b < radix * bi_val d" using assms(4) by linarith
  have "bi_val b div bi_val d < 2 ^ 31" using assms(4) by (simp add: less_mult_imp_div_less)
  then have q: "0 + int (bi_val b div bi_val d) \<le> quotient_max" by (simp add: quotient_max_def)
  obtain b' where "divmod_loop d (align d b) 0 = Some (0 + int (bi_val (align d b) div bi_val d), b')"
    "bi_val b' = bi_val (align d b) mod bi_val d" "bi_ok b'" "bi_exp b' = bi_exp (align d b)"
    using divmod_loop_val[OF a(3)[OF nz assms(1)] assms(2) a(2) assms(3)] True small q a(1) by metis
  then show ?thesis using compare_ge[OF assms(1,2,3,5)] True a(1,2) top by (simp add: divmod_assign_def)
qed

section \<open>Squares and powers of ten\<close>

text \<open>
  \<open>square\<close>: the digits of the result from the lowest, each the low half of the sum of the carry and of
  the products whose positions add up to it.
\<close>

definition cross_terms :: "u32 list \<Rightarrow> nat \<Rightarrow> 128 word \<Rightarrow> 128 word" where
  "cross_terms ns k sum128 =
     fold (\<lambda>i acc. acc + ucast (ucast (ns ! i) * ucast (ns ! (k - i)) :: u64))
       (if k < length ns then [0..<k + 1] else [k - (length ns - 1)..<length ns]) sum128"

fun square_loop :: "u32 list \<Rightarrow> nat \<Rightarrow> nat \<Rightarrow> 128 word \<Rightarrow> u32 list" where
  "square_loop ns 0 k acc = []"
| "square_loop ns (Suc m) k acc =
     (let acc = cross_terms ns k acc in ucast acc # square_loop ns m (Suc k) (drop_bit 32 acc))"

definition square :: "bigint \<Rightarrow> bigint" where
  "square b =
     (let b = remove_leading_zeros (b\<lparr>bi_bigits := square_loop (bi_bigits b) (2 * length (bi_bigits b)) 0 0\<rparr>)
      in b\<lparr>bi_exp := bi_exp b * 2\<rparr>)"

function pow5_loop :: "u32 \<Rightarrow> u32 \<Rightarrow> bigint \<Rightarrow> bigint" where
  "pow5_loop exp bitmask b =
     (if bitmask = 0 then b
      else let b = square b; b = (if exp AND bitmask \<noteq> 0 then multiply 5 b else b)
           in pow5_loop exp (drop_bit 1 bitmask) b)"
  by pat_completeness auto

termination pow5_loop
proof (relation "measure (\<lambda>(exp, bitmask, b). unat bitmask)")
  fix bitmask :: u32
  assume "bitmask \<noteq> 0"
  then have "unat (drop_bit 1 bitmask) < unat bitmask" by (rule unat_drop_bit_less) simp
  then show "((exp, drop_bit 1 bitmask, b'), exp, bitmask, b) \<in> measure (\<lambda>(exp, bitmask, b). unat bitmask)" for exp b b'
    by simp
qed simp

declare pow5_loop.simps [simp del]

definition assign_pow10 :: "nat \<Rightarrow> bigint" where
  "assign_pow10 exp =
     (if exp = 0 then assign 1
      else let e = of_nat exp :: u32; bitmask = push_bit (32 - clz e - 1) 1
           in shift_left exp (pow5_loop e (drop_bit 1 bitmask) (assign 5)))"

text \<open>The coefficients of the product.\<close>

definition cross :: "u32 list \<Rightarrow> nat \<Rightarrow> nat" where
  "cross ns k = (\<Sum>i\<le>k. if i < length ns \<and> k - i < length ns then unat (ns ! i) * unat (ns ! (k - i)) else 0)"

lemma term_exact: "unat (ucast (ucast x * ucast y :: u64) :: 128 word) = unat x * unat y" for x y :: u32
proof -
  have "unat x * unat y \<le> (2 ^ 32 - 1) * (2 ^ 32 - 1)"
    using unat_u32[of x] unat_u32[of y] by (intro mult_le_mono) (simp_all add: radix_def del: unat_u32)
  then have "unat x * unat y < 2 ^ 64" by simp
  then have "unat (ucast x * ucast y :: u64) = unat x * unat y"
    using unat_times_exact[of "ucast x :: u64" "ucast y"] by (simp add: unat_up)
  then show ?thesis by (simp add: unat_up)
qed

lemma fold_exact:
  fixes f :: "nat \<Rightarrow> 128 word"
  shows "unat acc + sum_list (map (\<lambda>i. unat (f i)) is) < 2 ^ 128 \<Longrightarrow>
    unat (fold (\<lambda>i acc. acc + f i) is acc) = unat acc + sum_list (map (\<lambda>i. unat (f i)) is)"
proof (induction "is" arbitrary: acc)
  case (Cons i "is")
  then have "unat (acc + f i) = unat acc + unat (f i)" using unat_plus_exact[of acc "f i"] by simp
  with Cons show ?case by simp
qed simp

lemma cross_list:
  "sum_list (map (\<lambda>i. unat (ns ! i) * unat (ns ! (k - i))) (if k < length ns then [0..<k + 1] else [k - (length ns - 1)..<length ns])) = cross ns k"
proof -
  let ?f = "\<lambda>i. unat (ns ! i) * unat (ns ! (k - i))"
  let ?is = "if k < length ns then [0..<k + 1] else [k - (length ns - 1)..<length ns]"
  have "sum_list (map ?f ?is) = sum ?f (set ?is)" by (subst sum_list_distinct_conv_sum_set) simp_all
  also have "set ?is = {i. i \<le> k \<and> i < length ns \<and> k - i < length ns}" by auto
  also have "sum ?f \<dots> = cross ns k"
    unfolding cross_def by (rule sum.mono_neutral_cong_left) auto
  finally show ?thesis .
qed

lemma cross_bound: "cross ns k \<le> length ns * (2 ^ 32 - 1) ^ 2"
proof -
  let ?S = "{i. i \<le> k \<and> i < length ns \<and> k - i < length ns}"
  have "cross ns k = (\<Sum>i\<in>?S. unat (ns ! i) * unat (ns ! (k - i)))"
    unfolding cross_def by (rule sum.mono_neutral_cong_right) auto
  also have "\<dots> \<le> (\<Sum>i\<in>?S. (2 ^ 32 - 1) ^ 2)"
  proof (rule sum_mono)
    fix i
    have "unat (ns ! i) \<le> 2 ^ 32 - 1" "unat (ns ! (k - i)) \<le> 2 ^ 32 - 1"
      using unat_u32[of "ns ! i"] unat_u32[of "ns ! (k - i)"] by (simp_all add: radix_def del: unat_u32)
    then show "unat (ns ! i) * unat (ns ! (k - i)) \<le> (2 ^ 32 - 1) ^ 2" unfolding power2_eq_square by (rule mult_le_mono)
  qed
  also have "\<dots> = card ?S * (2 ^ 32 - 1) ^ 2" by simp
  also have "card ?S \<le> card {..<length ns}" by (rule card_mono) auto
  finally show ?thesis by simp
qed

lemma cross_terms_exact:
  assumes "length ns < 2 ^ 32" "unat acc < 2 ^ 96"
  shows "unat (cross_terms ns k acc) = unat acc + cross ns k" "unat (drop_bit 32 (cross_terms ns k acc)) < 2 ^ 96"
proof -
  have "cross ns k \<le> 2 ^ 32 * (2 ^ 32 - 1) ^ 2" using cross_bound[of ns k] assms(1)
    by (meson le_trans less_imp_le mult_le_mono1)
  then have b: "unat acc + cross ns k < 2 ^ 128" using assms(2) by simp
  have "unat (cross_terms ns k acc) = unat acc + sum_list (map (\<lambda>i. unat (ns ! i) * unat (ns ! (k - i)))
      (if k < length ns then [0..<k + 1] else [k - (length ns - 1)..<length ns]))"
    unfolding cross_terms_def
    using fold_exact[of acc "\<lambda>i. ucast (ucast (ns ! i) * ucast (ns ! (k - i)) :: u64)"
        "if k < length ns then [0..<k + 1] else [k - (length ns - 1)..<length ns]"] b
    by (simp only: term_exact cross_list)
  then show e: "unat (cross_terms ns k acc) = unat acc + cross ns k" by (simp only: cross_list)
  show "unat (drop_bit 32 (cross_terms ns k acc)) < 2 ^ 96"
    unfolding unat_drop_bit e using b by (intro less_mult_imp_div_less) simp
qed

lemma square_loop_val:
  assumes "length ns < 2 ^ 32" "unat acc < 2 ^ 96"
  shows "\<exists>c. digits_val (square_loop ns m k acc) + radix ^ m * c = unat acc + (\<Sum>j<m. cross ns (k + j) * radix ^ j)"
    "length (square_loop ns m k acc) = m"
proof -
  show "length (square_loop ns m k acc) = m" by (induction ns m k acc rule: square_loop.induct) (simp_all add: Let_def)
  show "\<exists>c. digits_val (square_loop ns m k acc) + radix ^ m * c = unat acc + (\<Sum>j<m. cross ns (k + j) * radix ^ j)"
    using assms(2)
  proof (induction m arbitrary: k acc)
    case (Suc m)
    let ?s = "cross_terms ns k acc"
    note e = cross_terms_exact[OF assms(1) Suc.prems, of k]
    obtain c where c: "digits_val (square_loop ns m (Suc k) (drop_bit 32 ?s)) + radix ^ m * c =
        unat (drop_bit 32 ?s) + (\<Sum>j<m. cross ns (Suc k + j) * radix ^ j)"
      using Suc.IH[OF e(2)] by blast
    have "digits_val (square_loop ns (Suc m) k acc) + radix ^ Suc m * c =
        unat (ucast ?s :: u32) + radix * (digits_val (square_loop ns m (Suc k) (drop_bit 32 ?s)) + radix ^ m * c)"
      by (simp add: Let_def distrib_left mult.assoc)
    also have "\<dots> = unat ?s + radix * (\<Sum>j<m. cross ns (Suc k + j) * radix ^ j)"
      unfolding c using word_halves[of ?s] by (simp add: distrib_left)
    also have "\<dots> = unat acc + (cross ns k + (\<Sum>j<m. cross ns (k + Suc j) * radix ^ Suc j))"
      unfolding e(1) by (simp add: sum_distrib_left mult.left_commute)
    also have "cross ns k + (\<Sum>j<m. cross ns (k + Suc j) * radix ^ Suc j) = (\<Sum>j<Suc m. cross ns (k + j) * radix ^ j)"
      by (subst sum.lessThan_Suc_shift) simp
    finally show ?case by blast
  qed (simp add: exI[of _ "unat acc"])
qed

lemma cross_square: "(\<Sum>k<2 * length ns. cross ns k * radix ^ k) = digits_val ns ^ 2"
proof -
  let ?n = "length ns"
  let ?a = "\<lambda>i. (if i < ?n then unat (ns ! i) else 0) * radix ^ i"
  have v: "digits_val ns = (\<Sum>i<?n. ?a i)"
    unfolding horner_sum_eq_sum by (rule sum.cong) auto
  have "cross ns k * radix ^ k = (\<Sum>i\<le>k. ?a i * ?a (k - i))" for k
    unfolding cross_def sum_distrib_right by (rule sum.cong) (auto simp flip: power_add)
  then have "(\<Sum>k<2 * ?n. cross ns k * radix ^ k) = (\<Sum>(i, j)\<in>{(i, j). i + j < 2 * ?n}. ?a i * ?a j)"
    by (simp only: sum.triangle_reindex)
  also have "\<dots> = (\<Sum>(i, j)\<in>{..<?n} \<times> {..<?n}. ?a i * ?a j)"
  proof (rule sum.mono_neutral_right)
    show "finite {(i, j). i + j < 2 * ?n}"
      by (rule finite_subset[of _ "{..<2 * ?n} \<times> {..<2 * ?n}"]) auto
  qed (auto split: if_splits)
  also have "\<dots> = (\<Sum>i<?n. ?a i) * (\<Sum>j<?n. ?a j)" by (simp only: sum_product sum.cartesian_product)
  finally show ?thesis unfolding v power2_eq_square .
qed

lemma square_val:
  assumes "bi_ok b" "length (bi_bigits b) < 2 ^ 32"
  shows "bi_val (square b) = bi_val b ^ 2" "bi_ok (square b)" "bi_exp (square b) = 2 * bi_exp b"
proof -
  let ?ns = "bi_bigits b"
  let ?ws = "square_loop ?ns (2 * length ?ns) 0 0"
  note l = square_loop_val[OF assms(2), of 0 "2 * length ?ns" 0]
  obtain c where c: "digits_val ?ws + radix ^ (2 * length ?ns) * c = digits_val ?ns ^ 2"
    using l(1) cross_square[of ?ns] by auto
  have "digits_val ?ns ^ 2 < (radix ^ length ?ns) ^ 2" using digits_bound[of ?ns] by (intro power_strict_mono) simp_all
  also have "\<dots> = radix ^ (2 * length ?ns)" by (simp add: mult.commute flip: power_mult)
  finally have "radix ^ (2 * length ?ns) * c < radix ^ (2 * length ?ns)" using c by linarith
  then have "c = 0" by simp
  then have v: "digits_val ?ws = digits_val ?ns ^ 2" using c by simp
  let ?b = "remove_leading_zeros (b\<lparr>bi_bigits := ?ws\<rparr>)"
  have s: "square b = ?b\<lparr>bi_exp := bi_exp b * 2\<rparr>" by (simp add: square_def Let_def)
  have "digits_val (bi_bigits ?b) = digits_val ?ns ^ 2"
    using v by (cases ?ws) (auto simp: remove_leading_zeros_def digits_drop_zeros)
  then show "bi_val (square b) = bi_val b ^ 2"
    unfolding s by (simp add: bi_val_def power_mult_distrib power_mult)
  have "?ws \<noteq> []" using l(2) assms(1) by (auto simp: bi_ok_def)
  then have "bi_ok ?b" by (intro remove_leading_zeros_ok) simp
  then show "bi_ok (square b)" unfolding s by (simp add: bi_ok_def)
  show "bi_exp (square b) = 2 * bi_exp b" unfolding s by simp
qed

text \<open>The number of bigits of a value, which bounds the loops of \<open>square\<close>.\<close>

lemma length_le:
  assumes "bi_ok b" "bi_exp b = 0" "bi_val b < radix ^ n" "0 < n"
  shows "length (bi_bigits b) \<le> n"
proof (cases "bi_val b = 0")
  case True
  then have "bi_bigits b = [0]" using assms(1) digits_last[of "bi_bigits b"] by (auto simp: bi_ok_def bi_val_def)
  then show ?thesis using assms(4) by simp
next
  case False
  have "radix ^ (num_bigits b - 1) < radix ^ n" using bi_val_ge(1)[OF assms(1) False] assms(3) by linarith
  then have "num_bigits b - 1 < n" by (rule power_less_imp_less_exp[rotated]) (simp add: radix_def)
  then show ?thesis using assms(2) by (simp add: num_bigits_def)
qed

lemma drop_push_one: "drop_bit 1 (push_bit j 1 :: u32) = (if j = 0 then 0 else push_bit (j - 1) 1)" if "j < 32"
proof -
  have "j < LENGTH(32)" using that by simp
  then show ?thesis by (intro bit_word_eqI) (auto simp: bit_simps)
qed

lemma pow5_loop_val:
  assumes "j \<le> 31" "bi_ok b" "bi_exp b = 0" "bi_val b = 5 ^ (unat e div 2 ^ j)"
  shows "bi_val (pow5_loop e (if j = 0 then 0 else push_bit (j - 1) 1) b) = 5 ^ unat e \<and>
    bi_ok (pow5_loop e (if j = 0 then 0 else push_bit (j - 1) 1) b) \<and>
    bi_exp (pow5_loop e (if j = 0 then 0 else push_bit (j - 1) 1) b) = 0"
  using assms
proof (induction j arbitrary: b)
  case 0
  then show ?case by (simp add: pow5_loop.simps)
next
  case (Suc j)
  let ?m = "unat e div 2 ^ Suc j" and ?mask = "push_bit j 1 :: u32"
  have mask: "?mask \<noteq> 0" using Suc.prems(1) by (simp add: push_bit_eq_0_iff)
  have bit: "e AND ?mask \<noteq> 0 \<longleftrightarrow> odd (unat e div 2 ^ j)"
    unfolding push_bit_of_1 and_exp_eq_0_iff_not_bit using Suc.prems(1)
    by (simp add: bit_unsigned_iff flip: bit_iff_odd[of "unat e"])
  have "(5 :: nat) ^ ?m \<le> radix ^ ?m" by (rule power_mono) (simp_all add: radix_def)
  also have "radix ^ ?m < radix ^ Suc ?m" by (rule power_strict_increasing) (simp_all add: radix_def)
  finally have "bi_val b < radix ^ Suc ?m" unfolding Suc.prems(4) .
  then have "length (bi_bigits b) \<le> Suc ?m" using length_le[OF Suc.prems(2,3)] by blast
  also have "\<dots> < 2 ^ 32"
  proof -
    have "?m \<le> unat e div 2" by (rule div_le_mono2) simp_all
    then show ?thesis using unat_u32[of e] by (simp add: radix_def del: unat_u32)
  qed
  finally have len: "length (bi_bigits b) < 2 ^ 32" .
  note sq = square_val[OF Suc.prems(2) len]
  let ?b = "if e AND ?mask \<noteq> 0 then multiply 5 (square b) else square b"
  have "unat e div 2 ^ j = 2 * (unat e div 2 ^ j div 2) + of_bool (odd (unat e div 2 ^ j))"
    by (cases "even (unat e div 2 ^ j)") simp_all
  moreover have "unat e div 2 ^ j div 2 = ?m" by (simp add: mult.commute flip: div_mult2_eq)
  ultimately have "unat e div 2 ^ j = 2 * ?m + of_bool (odd (unat e div 2 ^ j))" by simp
  then have "(5 :: nat) ^ (unat e div 2 ^ j) = (5 ^ ?m) ^ 2 * 5 ^ of_bool (odd (unat e div 2 ^ j))"
    by (metis mult.commute power_add power_mult)
  then have v: "bi_val ?b = 5 ^ (unat e div 2 ^ j)"
    using bit sq(1) Suc.prems(4) by (simp add: multiply_val mult.commute)
  have ok: "bi_ok ?b" "bi_exp ?b = 0" using sq(2,3) Suc.prems(3) by (simp_all add: multiply_ok)
  have "pow5_loop e ?mask b = pow5_loop e (drop_bit 1 ?mask) ?b"
    using mask by (subst pow5_loop.simps) (simp only: Let_def if_False)
  also have "drop_bit 1 ?mask = (if j = 0 then 0 else push_bit (j - 1) 1)" using Suc.prems(1) by (intro drop_push_one) simp
  finally have step: "pow5_loop e ?mask b = pow5_loop e (if j = 0 then 0 else push_bit (j - 1) 1) ?b" .
  have "(if Suc j = 0 then 0 else push_bit (Suc j - 1) 1) = ?mask" by simp
  then show ?case unfolding step by (simp only: step) (rule Suc.IH[OF _ ok v], use Suc.prems(1) in simp)
qed

lemma assign_pow10_val:
  assumes "k < 2 ^ 32"
  shows "bi_val (assign_pow10 k) = 10 ^ k \<and> bi_ok (assign_pow10 k)" "bi_exp (assign_pow10 k) = k div 32"
proof -
  have "bi_val (assign_pow10 k) = 10 ^ k \<and> bi_ok (assign_pow10 k) \<and> bi_exp (assign_pow10 k) = k div 32"
  proof (cases "k = 0")
    case True
    then show ?thesis using assign_val[of 1] assign_ok[of 1] by (simp add: assign_pow10_def)
  next
    case False
    let ?e = "of_nat k :: u32"
    have e: "unat ?e = k" using assms by (simp add: unat_of_nat)
    obtain j where j: "2 ^ j \<le> k" "k < 2 ^ Suc j" using log2_ex[of k] False by blast
    have clz: "clz ?e = 31 - j" "j < 32" using clz_eq[of j ?e] j e by simp_all
    have "32 - clz ?e - 1 = j" using clz by simp
    then have mask: "drop_bit 1 (push_bit (32 - clz ?e - 1) 1 :: u32) = (if j = 0 then 0 else push_bit (j - 1) 1)"
      using drop_push_one[OF clz(2)] by simp
    have "k div 2 ^ j = 1" using j by (intro div_nat_eqI) simp_all
    then have "bi_val (assign 5) = 5 ^ (unat ?e div 2 ^ j)" using assign_val[of 5] e by simp
    then have p: "bi_val (pow5_loop ?e (drop_bit 1 (push_bit (32 - clz ?e - 1) 1)) (assign 5)) = 5 ^ k"
      "bi_ok (pow5_loop ?e (drop_bit 1 (push_bit (32 - clz ?e - 1) 1)) (assign 5))"
      "bi_exp (pow5_loop ?e (drop_bit 1 (push_bit (32 - clz ?e - 1) 1)) (assign 5)) = 0"
      using pow5_loop_val[of j "assign 5" ?e] clz(2) assign_ok[of 5] e unfolding mask by simp_all
    have "(2 :: nat) ^ k * 5 ^ k = 10 ^ k" by (simp flip: power_mult_distrib)
    then show ?thesis using False p shift_left_val[of k] shift_left_ok
      by (simp add: assign_pow10_def Let_def)
  qed
  then show "bi_val (assign_pow10 k) = 10 ^ k \<and> bi_ok (assign_pow10 k)" "bi_exp (assign_pow10 k) = k div 32" by simp_all
qed

section \<open>What the operations compute\<close>

text \<open>C16: The operations of \<open>bigint\<close> refine those of the natural numbers: assignment of a machine word, shift,
  multiplication by 32, 64 and 128-bit numbers, the square, the power of ten and the comparison of a sum
  compute the values they stand for, on their lists of 32-bit digits with a carry, and keep the
  representation free of leading zeros.
\<close>

theorem bigint_operations:
  assumes "bi_ok b" "bi_val b \<noteq> 0" "bi_ok c" "bi_val c \<noteq> 0" "bi_ok d" "bi_val d \<noteq> 0"
    and "length (bi_bigits b) < 2 ^ 32" "k < 2 ^ 32" "n \<noteq> 0" "m \<noteq> 0" "w \<noteq> 0"
  shows "bi_val (assign n) = unat n \<and> bi_ok (assign n) \<and>
    bi_val (shift_left s b) = 2 ^ s * bi_val b \<and> bi_ok (shift_left s b) \<and>
    bi_val (multiply m b) = unat m * bi_val b \<and> bi_ok (multiply m b) \<and>
    bi_val (multiply_wide (w :: u64) b) = unat w * bi_val b \<and> bi_ok (multiply_wide w b) \<and>
    bi_val (multiply_wide n b) = unat n * bi_val b \<and> bi_ok (multiply_wide n b) \<and>
    bi_val (square b) = bi_val b ^ 2 \<and> bi_ok (square b) \<and>
    bi_val (assign_pow10 k) = 10 ^ k \<and> bi_ok (assign_pow10 k) \<and>
    add_compare b c d = order_of (bi_val b + bi_val c) (bi_val d)"
  using assms by (simp add: assign_val assign_ok shift_left_val shift_left_ok multiply_val multiply_ok multiply_wide_val[where h=32]
    multiply_wide_ok[where h=32] multiply_wide_val[where h=64] multiply_wide_ok[where h=64] square_val assign_pow10_val add_compare_val)

theorem bigint_operations_witness:
  "bi_val (square (assign 12)) = 144 \<and> bi_val (assign_pow10 12) = 10 ^ 12 \<and>
   add_compare (assign 12) (assign 12) (assign 25) = order_of 24 25"
proof -
  have "length (bi_bigits (assign 12)) = 1" by code_simp
  then show ?thesis using bigint_operations[of "assign 12" "assign 12" "assign 25" 12 1 1 1] by (simp add: assign_val assign_ok)
qed

text \<open>C17: The division by repeated subtraction returns, no assertion fails and the \<open>int\<close> that counts does not overflow: it
  computes the quotient and the remainder of the values when the quotient is below 2 to the 31 and the numbers are comparable
  as they stand, that is, when the exponent of the dividend is not the larger one, or the lowest digit of the divisor is
  not zero or the values differ.\<close>

theorem bigint_divmod:
  assumes "bi_ok b" "bi_ok d" "bi_val d \<noteq> 0" "bi_val b < 2 ^ 31 * bi_val d"
    "bi_exp b \<le> bi_exp d \<or> bi_val b \<noteq> 0 \<and> (hd (bi_bigits d) \<noteq> 0 \<or> bi_val b \<noteq> bi_val d)"
  shows "\<exists>r. divmod_assign d b = Some (int (bi_val b div bi_val d), r) \<and> bi_val r = bi_val b mod bi_val d \<and> bi_ok r"
  using divmod_assign_val[OF assms] by blast

theorem bigint_divmod_witness:
  "\<exists>r. divmod_assign (assign 7) (assign 100) = Some (14, r) \<and> bi_val r = 2"
proof -
  have "bi_exp (assign 100) = 0" by (simp add: assign_def)
  then show ?thesis using bigint_divmod[of "assign 100" "assign 7"] by (auto simp: assign_val assign_ok radix_def)
qed

end
