(* ===== verification/Fmt_Utf8.thy ===== *)
theory Fmt_Utf8
  imports Prelude
begin

text \<open>
  \<open>fmt/format.h\<close>: UTF-8.  The branchless decoder, the iteration over the code points of a string
  with its zero-padded tail, the display width of a code point, and the conversion of UTF-16 and
  UTF-32 to UTF-8.
\<close>

type_synonym code_point = u32

definition byte_at :: "string \<Rightarrow> nat \<Rightarrow> u32" where
  "byte_at s i = of_nat (of_char (s ! i))"

section \<open>Decoding\<close>

definition utf8_masks :: "u32 list" where "utf8_masks = [0x00, 0x7f, 0x1f, 0x0f, 0x07]"
definition utf8_mins :: "u32 list" where "utf8_mins = [4194304, 0, 128, 2048, 65536]"
definition utf8_shiftc :: "nat list" where "utf8_shiftc = [0, 18, 12, 6, 0]"
definition utf8_shifte :: "nat list" where "utf8_shifte = [0, 6, 4, 2, 0]"

definition utf8_lengths :: "nat list" where
  "utf8_lengths =
     [1, 1, 1, 1, 1, 1, 1, 1, 1, 1, 1, 1, 1, 1, 1, 1, 0, 0, 0, 0, 0, 0, 0, 0, 2, 2, 2, 2, 3, 3, 4, 0]"

definition flag_bit :: "bool \<Rightarrow> nat \<Rightarrow> u32" where
  "flag_bit b k = push_bit k (if b then 1 else 0)"

text \<open>Four bytes are read whatever the length is: the code point, the error, and by how much the
  pointer is advanced.\<close>

definition utf8_decode :: "string \<Rightarrow> code_point \<times> u32 \<times> nat" where
  "utf8_decode s =
     (let len = utf8_lengths ! unat (drop_bit 3 (byte_at s 0));
          c = push_bit 18 (byte_at s 0 AND utf8_masks ! len);
          c = c OR push_bit 12 (byte_at s 1 AND 0x3f);
          c = c OR push_bit 6 (byte_at s 2 AND 0x3f);
          c = c OR (byte_at s 3 AND 0x3f);
          c = drop_bit (utf8_shiftc ! len) c;
          e = flag_bit (c < utf8_mins ! len) 6;
          e = e OR flag_bit (drop_bit 11 c = 0x1b) 7;
          e = e OR flag_bit (c > 0x10FFFF) 8;
          e = e OR drop_bit 2 (byte_at s 1 AND 0xc0);
          e = e OR drop_bit 4 (byte_at s 2 AND 0xc0);
          e = e OR drop_bit 6 (byte_at s 3);
          e = e XOR 0x2a;
          e = drop_bit (utf8_shifte ! len) e
      in (c, e, if len = 0 then 1 else len))"

definition invalid_code_point :: code_point where
  "invalid_code_point = NOT 0"

section \<open>Iterating over code points\<close>

text \<open>
  The lambda \<open>decode\<close>: the callback gets the code point, its bytes and the text behind them and
  answers with its state and whether to go on.  \<open>None\<close> is the null pointer, otherwise the number of
  bytes to advance.
\<close>

type_synonym 's visitor = "code_point \<Rightarrow> string \<Rightarrow> string \<Rightarrow> 's \<Rightarrow> bool \<times> 's"

definition decode_one :: "'s visitor \<Rightarrow> string \<Rightarrow> string \<Rightarrow> 's \<Rightarrow> nat option \<times> 's" where
  "decode_one f buf p st =
     (let (cp, e, n) = utf8_decode buf;
          len = (if e \<noteq> 0 then 1 else n);
          (more, st) = f (if e \<noteq> 0 then invalid_code_point else cp) (take len p) (drop len p) st
      in (if more then Some len else None, st))"

lemma utf8_decode_pos: "utf8_decode s = (cp, e, n) \<Longrightarrow> 0 < n"
  by (auto simp: utf8_decode_def Let_def)

lemma decode_one_pos: "decode_one f buf p st = (Some k, st') \<Longrightarrow> 0 < k"
  by (auto simp: decode_one_def Let_def split: prod.splits if_splits dest: utf8_decode_pos)

text \<open>While at least four bytes are left they are decoded in place.\<close>

function block_loop :: "'s visitor \<Rightarrow> string \<Rightarrow> 's \<Rightarrow> (string \<times> 's) + 's" where
  "block_loop f p st =
     (if 4 \<le> length p then
        (case decode_one f p p st of
           (None, st) \<Rightarrow> Inr st
         | (Some k, st) \<Rightarrow> block_loop f (drop k p) st)
      else Inl (p, st))"
  by auto
termination
  by (relation "measure (\<lambda>(f, p, st). length p)") (auto dest: decode_one_pos[OF sym] intro!: diff_less)

text \<open>The tail is copied in front of zero bytes; \<open>i\<close> is how far \<open>buf_ptr\<close> has come.\<close>

function tail_loop :: "'s visitor \<Rightarrow> string \<Rightarrow> string \<Rightarrow> nat \<Rightarrow> nat \<Rightarrow> 's \<Rightarrow> 's" where
  "tail_loop f buf p left i st =
     (case decode_one f (drop i buf) p st of
        (None, st) \<Rightarrow> st
      | (Some k, st) \<Rightarrow>
          if i + k < left then tail_loop f buf (drop k p) left (i + k) st else st)"
  by auto
termination
  by (relation "measure (\<lambda>(f, buf, p, left, i, st). left - i)") (auto dest: decode_one_pos[OF sym])

declare block_loop.simps [simp del] tail_loop.simps [simp del]

definition for_each_codepoint :: "'s visitor \<Rightarrow> string \<Rightarrow> 's \<Rightarrow> 's" where
  "for_each_codepoint f s st =
     (case block_loop f s st of
        Inr st \<Rightarrow> st
      | Inl (p, st) \<Rightarrow>
          let num_chars_left = length p AND 3
          in if length p = 0 then st
             else tail_loop f (take num_chars_left p @ replicate (7 - num_chars_left) (CHR 0x00)) p
                    num_chars_left 0 st)"

definition display_width_of :: "code_point \<Rightarrow> nat" where
  "display_width_of cp =
     1 + (if cp \<ge> 0x1100 \<and>
             (cp \<le> 0x115f \<or> cp = 0x2329 \<or> cp = 0x232a \<or>
              (cp \<ge> 0x2e80 \<and> cp \<le> 0xa4cf \<and> cp \<noteq> 0x303f) \<or>
              (cp \<ge> 0xac00 \<and> cp \<le> 0xd7a3) \<or> (cp \<ge> 0xf900 \<and> cp \<le> 0xfaff) \<or>
              (cp \<ge> 0xfe10 \<and> cp \<le> 0xfe19) \<or> (cp \<ge> 0xfe30 \<and> cp \<le> 0xfe6f) \<or>
              (cp \<ge> 0xff00 \<and> cp \<le> 0xff60) \<or> (cp \<ge> 0xffe0 \<and> cp \<le> 0xffe6) \<or>
              (cp \<ge> 0x20000 \<and> cp \<le> 0x2fffd) \<or> (cp \<ge> 0x30000 \<and> cp \<le> 0x3fffd) \<or>
              (cp \<ge> 0x1f300 \<and> cp \<le> 0x1f64f) \<or> (cp \<ge> 0x1f900 \<and> cp \<le> 0x1f9ff))
          then 1 else 0)"

section \<open>Encoding\<close>

datatype to_utf8_error_policy = Abort | Replace

definition cp_char :: "u32 \<Rightarrow> char" where
  "cp_char c = char_of (unat c)"

text \<open>The bytes appended for one code point, or failure.\<close>

definition encode_cp :: "code_point \<Rightarrow> string option" where
  "encode_cp c =
     (if c < 0x80 then Some [cp_char c]
      else if c < 0x800 then
        Some [cp_char (0xc0 OR drop_bit 6 c), cp_char (0x80 OR (c AND 0x3f))]
      else if (c \<ge> 0x800 \<and> c \<le> 0xd7ff) \<or> (c \<ge> 0xe000 \<and> c \<le> 0xffff) then
        Some [cp_char (0xe0 OR drop_bit 12 c), cp_char (0x80 OR drop_bit 6 (c AND 0xfff)),
              cp_char (0x80 OR (c AND 0x3f))]
      else if c \<ge> 0x10000 \<and> c \<le> 0x10ffff then
        Some [cp_char (0xf0 OR drop_bit 18 c), cp_char (0x80 OR drop_bit 12 (c AND 0x3ffff)),
              cp_char (0x80 OR drop_bit 6 (c AND 0xfff)), cp_char (0x80 OR (c AND 0x3f))]
      else None)"

text \<open>\<open>convert\<close>, for UTF-16 when \<open>utf16\<close> and for UTF-32 otherwise.\<close>

definition surrogate_pair :: "u32 \<Rightarrow> u32 \<Rightarrow> bool" where
  "surrogate_pair c d \<longleftrightarrow> c AND 0xfc00 = 0xd800 \<and> d AND 0xfc00 = 0xdc00"

fun to_utf8_convert :: "bool \<Rightarrow> to_utf8_error_policy \<Rightarrow> u32 list \<Rightarrow> string \<Rightarrow> string option" where
  "to_utf8_convert utf16 policy [] buf = Some buf"
| "to_utf8_convert utf16 policy (c # s) buf =
     (if utf16 \<and> c \<ge> 0xd800 \<and> c \<le> 0xdfff then
        (case s of
           d # s' \<Rightarrow>
             if surrogate_pair c d then
               (case encode_cp (push_bit 10 c + d - 0x35fdc00) of
                  None \<Rightarrow> None
                | Some b \<Rightarrow> to_utf8_convert utf16 policy s' (buf @ b))
             else if policy = Abort then None
             else to_utf8_convert utf16 policy (d # s') (buf @ [CHR 0xEF, CHR 0xBF, CHR 0xBD])
         | [] \<Rightarrow>
             if policy = Abort then None
             else to_utf8_convert utf16 policy [] (buf @ [CHR 0xEF, CHR 0xBF, CHR 0xBD]))
      else
        (case encode_cp c of
           None \<Rightarrow> None
         | Some b \<Rightarrow> to_utf8_convert utf16 policy s (buf @ b)))"

section \<open>What an accepted sequence looks like\<close>

lemma of_char_less: "(of_char c :: nat) < 256"
  by (metis of_char_mod_256 mod_less_divisor zero_less_numeral)

lemma byte_less: "byte_at s i < 256"
proof -
  have "(of_char (s ! i) :: nat) < 256" by (rule of_char_less)
  then have "take_bit 32 (of_char (s ! i) :: nat) < 256" by (rule le_less_trans[OF take_bit_nat_less_eq_self])
  then show ?thesis by (simp add: byte_at_def word_less_nat_alt unsigned_of_nat)
qed

lemma byte_no_bit: "8 \<le> i \<Longrightarrow> \<not> bit (byte_at s k) i"
proof -
  assume i: "8 \<le> i"
  have "(256::nat) \<le> 2 ^ i" using power_increasing[of 8 i "2::nat"] i by simp
  with of_char_less have "(of_char (s ! k) :: nat) < 2 ^ i" by (rule less_le_trans)
  then have "\<not> bit (of_char (s ! k) :: nat) i" by (simp add: bit_iff_odd)
  then show ?thesis by (simp add: byte_at_def bit_simps)
qed

text \<open>The error word before the shift, bit by bit.\<close>

definition utf8_error :: "bool \<Rightarrow> bool \<Rightarrow> bool \<Rightarrow> string \<Rightarrow> u32" where
  "utf8_error p q r s = ((((((flag_bit p 6 OR flag_bit q 7) OR flag_bit r 8)
      OR drop_bit 2 (byte_at s 1 AND 0xc0)) OR drop_bit 4 (byte_at s 2 AND 0xc0)) OR drop_bit 6 (byte_at s 3))) XOR 0x2a"

lemma flag_bit_bit: "bit (flag_bit b k) i \<longleftrightarrow> b \<and> i = k \<and> k < 32"
  by (auto simp add: flag_bit_def bit_simps)

lemma bit_0x2a:
  "bit (0x2a :: nat) i \<longleftrightarrow> i = 1 \<or> i = 3 \<or> i = 5"
  "bit (0x2a :: int) i \<longleftrightarrow> i = 1 \<or> i = 3 \<or> i = 5"
proof -
  have "(0x2a :: nat) = push_bit 1 1 OR (push_bit 3 1 OR push_bit 5 1)"
    "(0x2a :: int) = push_bit 1 1 OR (push_bit 3 1 OR push_bit 5 1)" by simp_all
  moreover have "bit (push_bit 1 1 OR (push_bit 3 1 OR push_bit 5 1) :: nat) i \<longleftrightarrow> i = 1 \<or> i = 3 \<or> i = 5"
    "bit (push_bit 1 1 OR (push_bit 3 1 OR push_bit 5 1) :: int) i \<longleftrightarrow> i = 1 \<or> i = 3 \<or> i = 5"
    by (simp_all only: bit_or_iff bit_push_bit_iff bit_1_iff) auto
  ultimately show "bit (0x2a :: nat) i \<longleftrightarrow> i = 1 \<or> i = 3 \<or> i = 5"
    "bit (0x2a :: int) i \<longleftrightarrow> i = 1 \<or> i = 3 \<or> i = 5" by simp_all
qed

lemma utf8_error_bits:
  "bit (utf8_error p q r s) 0 \<longleftrightarrow> bit (byte_at s 3) 6"
  "bit (utf8_error p q r s) 1 \<longleftrightarrow> \<not> bit (byte_at s 3) 7"
  "bit (utf8_error p q r s) 2 \<longleftrightarrow> bit (byte_at s 2) 6"
  "bit (utf8_error p q r s) 3 \<longleftrightarrow> \<not> bit (byte_at s 2) 7"
  "bit (utf8_error p q r s) 4 \<longleftrightarrow> bit (byte_at s 1) 6"
  "bit (utf8_error p q r s) 5 \<longleftrightarrow> \<not> bit (byte_at s 1) 7"
  "bit (utf8_error p q r s) 6 \<longleftrightarrow> p"
  "bit (utf8_error p q r s) 7 \<longleftrightarrow> q"
  "bit (utf8_error p q r s) 8 \<longleftrightarrow> r"
  "9 \<le> i \<Longrightarrow> \<not> bit (utf8_error p q r s) i"
  by (simp_all add: utf8_error_def bit_simps flag_bit_bit byte_no_bit bit_0x2a)

lemma drop_bit_0_bits: "drop_bit k w = 0 \<longleftrightarrow> (\<forall>i\<ge>k. \<not> bit w i)" for w :: "'a::len word"
proof
  assume "drop_bit k w = 0"
  then have "\<not> bit (drop_bit k w) (i - k)" for i by simp
  then show "\<forall>i\<ge>k. \<not> bit w i" by (metis bit_drop_bit_eq comp_apply le_add_diff_inverse)
next
  assume "\<forall>i\<ge>k. \<not> bit w i"
  then show "drop_bit k w = 0" by (intro bit_eqI) (simp add: bit_simps)
qed

lemma all_le_9: "(\<forall>i\<ge>k. \<not> bit (utf8_error p q r s) i) \<longleftrightarrow>
    (\<forall>i\<in>{0,1,2,3,4,5,6,7,8}. k \<le> i \<longrightarrow> \<not> bit (utf8_error p q r s) i)"
proof (intro iffI ballI allI impI)
  fix i assume a: "\<forall>i\<in>{0,1,2,3,4,5,6,7,8}. k \<le> i \<longrightarrow> \<not> bit (utf8_error p q r s) i" and "k \<le> i"
  show "\<not> bit (utf8_error p q r s) i"
  proof (cases "9 \<le> i")
    case True then show ?thesis by (rule utf8_error_bits)
  next
    case False
    then have "i \<in> {0,1,2,3,4,5,6,7,8}" by auto
    with a \<open>k \<le> i\<close> show ?thesis by blast
  qed
qed auto

definition cont_byte :: "string \<Rightarrow> nat \<Rightarrow> bool" where
  "cont_byte s i \<longleftrightarrow> bit (byte_at s i) 7 \<and> \<not> bit (byte_at s i) 6"

lemma utf8_error_ok:
  "drop_bit 0 (utf8_error p q r s) = 0 \<longleftrightarrow> \<not> p \<and> \<not> q \<and> \<not> r \<and> cont_byte s 1 \<and> cont_byte s 2 \<and> cont_byte s 3"
  "drop_bit 2 (utf8_error p q r s) = 0 \<longleftrightarrow> \<not> p \<and> \<not> q \<and> \<not> r \<and> cont_byte s 1 \<and> cont_byte s 2"
  "drop_bit 4 (utf8_error p q r s) = 0 \<longleftrightarrow> \<not> p \<and> \<not> q \<and> \<not> r \<and> cont_byte s 1"
  "drop_bit 6 (utf8_error p q r s) = 0 \<longleftrightarrow> \<not> p \<and> \<not> q \<and> \<not> r"
  by (simp_all only: drop_bit_0_bits all_le_9) (auto simp: utf8_error_bits utf8_error_bits(2)[unfolded One_nat_def] cont_byte_def simp del: bit_0)

section \<open>The decoder in cases\<close>

definition utf8_len :: "string \<Rightarrow> nat" where
  "utf8_len s = utf8_lengths ! unat (drop_bit 3 (byte_at s 0))"

definition utf8_raw :: "string \<Rightarrow> nat \<Rightarrow> u32" where
  "utf8_raw s len = ((push_bit 18 (byte_at s 0 AND utf8_masks ! len) OR push_bit 12 (byte_at s 1 AND 0x3f))
     OR push_bit 6 (byte_at s 2 AND 0x3f)) OR (byte_at s 3 AND 0x3f)"

definition utf8_value :: "string \<Rightarrow> nat \<Rightarrow> u32" where
  "utf8_value s len = drop_bit (utf8_shiftc ! len) (utf8_raw s len)"

lemma utf8_decode_eq:
  "utf8_decode s =
     (utf8_value s (utf8_len s),
      drop_bit (utf8_shifte ! utf8_len s)
        (utf8_error (utf8_value s (utf8_len s) < utf8_mins ! utf8_len s)
          (drop_bit 11 (utf8_value s (utf8_len s)) = 0x1b) (utf8_value s (utf8_len s) > 0x10FFFF) s),
      if utf8_len s = 0 then 1 else utf8_len s)"
  by (simp only: utf8_decode_def Let_def utf8_len_def utf8_raw_def utf8_value_def utf8_error_def)

text \<open>The class of the first byte.\<close>

lemma drop_bit_0_less: "drop_bit k w = 0 \<longleftrightarrow> unat w < 2 ^ k" for w :: "'a::len word"
proof -
  have "drop_bit k w = 0 \<longleftrightarrow> unat (drop_bit k w) = 0" by (simp only: unsigned_eq_0_iff)
  then show ?thesis by (simp only: unat_drop_bit div_eq_0_iff) simp
qed

lemma unat_first: "unat (drop_bit 3 (byte_at s 0)) = unat (byte_at s 0) div 8"
  by (simp only: unat_drop_bit) simp

lemma drop_bit_3_byte: "unat (drop_bit 3 (byte_at s 0)) < 32"
proof -
  have "unat (byte_at s 0) < 256" using byte_less[of s 0] by (simp add: word_less_nat_alt)
  then show ?thesis by (simp only: unat_first)
qed

lemma lengths_table:
  "list_all (\<lambda>k. (utf8_lengths ! k = 1 \<longleftrightarrow> k < 16) \<and> (utf8_lengths ! k = 2 \<longleftrightarrow> 24 \<le> k \<and> k < 28) \<and>
     (utf8_lengths ! k = 3 \<longleftrightarrow> 28 \<le> k \<and> k < 30) \<and> (utf8_lengths ! k = 4 \<longleftrightarrow> k = 30) \<and> utf8_lengths ! k \<le> 4)
     [0..<32]"
  by code_simp

lemma utf8_len_class:
  "utf8_len s = 1 \<longleftrightarrow> byte_at s 0 < 0x80"
  "utf8_len s = 2 \<longleftrightarrow> 0xc0 \<le> byte_at s 0 \<and> byte_at s 0 < 0xe0"
  "utf8_len s = 3 \<longleftrightarrow> 0xe0 \<le> byte_at s 0 \<and> byte_at s 0 < 0xf0"
  "utf8_len s = 4 \<longleftrightarrow> 0xf0 \<le> byte_at s 0 \<and> byte_at s 0 < 0xf8"
  "utf8_len s \<in> {0, 1, 2, 3, 4}"
proof -
  define k where "k = unat (byte_at s 0) div 8"
  have k: "k < 32" using drop_bit_3_byte[of s] by (simp add: unat_first k_def)
  have l: "utf8_len s = utf8_lengths ! k" by (simp add: utf8_len_def unat_first k_def)
  have tab: "(utf8_lengths ! k = 1 \<longleftrightarrow> k < 16) \<and> (utf8_lengths ! k = 2 \<longleftrightarrow> 24 \<le> k \<and> k < 28) \<and>
     (utf8_lengths ! k = 3 \<longleftrightarrow> 28 \<le> k \<and> k < 30) \<and> (utf8_lengths ! k = 4 \<longleftrightarrow> k = 30) \<and> utf8_lengths ! k \<le> 4"
    using lengths_table k by (simp only: list_all_iff set_upt atLeastLessThan_iff ball_simps) auto
  show "utf8_len s = 1 \<longleftrightarrow> byte_at s 0 < 0x80"
    using tab by (simp add: l word_less_nat_alt) (simp add: k_def, linarith)
  show "utf8_len s = 2 \<longleftrightarrow> 0xc0 \<le> byte_at s 0 \<and> byte_at s 0 < 0xe0"
    using tab by (simp add: l word_less_nat_alt word_le_nat_alt) (simp add: k_def, linarith)
  show "utf8_len s = 3 \<longleftrightarrow> 0xe0 \<le> byte_at s 0 \<and> byte_at s 0 < 0xf0"
    using tab by (simp add: l word_less_nat_alt word_le_nat_alt) (simp add: k_def, linarith)
  show "utf8_len s = 4 \<longleftrightarrow> 0xf0 \<le> byte_at s 0 \<and> byte_at s 0 < 0xf8"
    using tab by (simp add: l word_less_nat_alt word_le_nat_alt) (simp add: k_def, linarith)
  show "utf8_len s \<in> {0, 1, 2, 3, 4}" using tab by (auto simp: l)
qed

lemma utf8_raw_small: "utf8_raw s 0 < 4194304"
proof -
  have "drop_bit 22 (utf8_raw s 0) = 0"
    unfolding drop_bit_0_bits by (auto simp: utf8_raw_def utf8_masks_def bit_simps byte_no_bit)
  then show ?thesis by (simp only: drop_bit_0_less word_less_nat_alt) simp
qed

lemma utf8_accepts:
  assumes "utf8_decode s = (c, e, n)"
  shows "e = 0 \<longleftrightarrow> utf8_len s \<noteq> 0 \<and> \<not> c < utf8_mins ! utf8_len s \<and> drop_bit 11 c \<noteq> 0x1b \<and> \<not> c > 0x10FFFF \<and>
    (\<forall>i\<in>{1..<utf8_len s}. cont_byte s i)"
proof -
  have e: "e = drop_bit (utf8_shifte ! utf8_len s)
      (utf8_error (c < utf8_mins ! utf8_len s) (drop_bit 11 c = 0x1b) (c > 0x10FFFF) s)"
    and c: "c = utf8_value s (utf8_len s)"
    using assms by (auto simp: utf8_decode_eq)
  have upt: "{1..<2::nat} = {1}" "{1..<3::nat} = {1, 2}" "{1..<4::nat} = {1, 2, 3}" by auto
  consider "utf8_len s = 0" | "utf8_len s = 1" | "utf8_len s = 2" | "utf8_len s = 3" | "utf8_len s = 4"
    using utf8_len_class(5)[of s] by auto
  then show ?thesis
  proof cases
    case 1
    then have "c < utf8_mins ! utf8_len s"
      using utf8_raw_small[of s] by (simp add: c utf8_value_def utf8_shiftc_def utf8_mins_def)
    then show ?thesis using 1 by (simp add: e utf8_shifte_def utf8_error_ok(1)[simplified])
  next
    case 2 show ?thesis by (simp only: e 2) (simp add: utf8_shifte_def utf8_error_ok)
  next
    case 3 show ?thesis by (simp only: e 3 upt) (simp add: utf8_shifte_def utf8_error_ok)
  next
    case 4 show ?thesis by (simp only: e 4 upt) (simp add: utf8_shifte_def utf8_error_ok)
  next
    case 5 show ?thesis by (simp only: e 5 upt) (simp add: utf8_shifte_def utf8_error_ok(1)[simplified])
  qed
qed

lemma utf8_decode_length: "utf8_decode s = (c, e, n) \<Longrightarrow> n = (if utf8_len s = 0 then 1 else utf8_len s)"
  by (auto simp: utf8_decode_eq)

lemma utf8_ascii_value: "utf8_len s = 1 \<Longrightarrow> utf8_value s 1 = byte_at s 0"
proof (rule bit_word_eqI)
  fix i assume l: "utf8_len s = 1"
  have "(0x7f :: int) = mask 7" "(0x7f :: nat) = mask 7" by (simp_all add: mask_eq_exp_minus_1)
  then have m: "bit (0x7f :: int) j \<longleftrightarrow> j < 7" "bit (0x7f :: nat) j \<longleftrightarrow> j < 7" for j
    by (simp_all only: bit_mask_iff) auto
  have "byte_at s 0 < 0x80" using l utf8_len_class(1)[of s] by simp
  then have "drop_bit 7 (byte_at s 0) = 0" by (simp only: drop_bit_0_less word_less_nat_alt) simp
  then have "bit (byte_at s 0) j \<Longrightarrow> j < 7" for j
    unfolding drop_bit_0_bits by (meson not_le)
  then show "bit (utf8_value s 1) i \<longleftrightarrow> bit (byte_at s 0) i"
    by (force simp: utf8_value_def utf8_raw_def utf8_shiftc_def utf8_masks_def bit_simps m)
qed

text \<open>An accepted sequence: plain ASCII, or a lead byte and continuation bytes, none of them below
  \<open>0x80\<close>.\<close>

lemma utf8_accepted:
  assumes "utf8_decode s = (c, 0, n)"
  shows "1 \<le> n" "n \<le> 4" "n = 1 \<Longrightarrow> c = byte_at s 0 \<and> c < 0x80"
    "n \<noteq> 1 \<Longrightarrow> 0x80 \<le> c \<and> (\<forall>i<n. 0x80 \<le> byte_at s i)" "c \<le> 0x10FFFF"
proof -
  have ok: "utf8_len s \<noteq> 0" "\<not> c < utf8_mins ! utf8_len s" "\<not> c > 0x10FFFF"
    "\<forall>i\<in>{1..<utf8_len s}. cont_byte s i" and n: "n = utf8_len s"
    using utf8_accepts[OF assms] utf8_decode_length[OF assms] by auto
  show "1 \<le> n" "n \<le> 4" "c \<le> 0x10FFFF" using n ok utf8_len_class(5)[of s] by auto
  show "c = byte_at s 0 \<and> c < 0x80" if "n = 1"
  proof -
    have "c = utf8_value s 1" using assms that n by (auto simp: utf8_decode_eq)
    then show ?thesis using that n utf8_ascii_value utf8_len_class(1)[of s] by simp
  qed
  show "0x80 \<le> c \<and> (\<forall>i<n. 0x80 \<le> byte_at s i)" if "n \<noteq> 1"
  proof
    have "n = 2 \<or> n = 3 \<or> n = 4" using n ok(1) that utf8_len_class(5)[of s] by auto
    then show "0x80 \<le> c" using ok(2) n
      by (auto simp: utf8_mins_def word_less_nat_alt word_le_nat_alt)
    show "\<forall>i<n. 0x80 \<le> byte_at s i"
    proof (intro allI impI)
      fix i assume i: "i < n"
      show "0x80 \<le> byte_at s i"
      proof (cases "i = 0")
        case True
        have "\<not> byte_at s 0 < 0x80" using that n utf8_len_class(1)[of s] by simp
        then show ?thesis using True by simp
      next
        case False
        then have "bit (byte_at s i) 7" using i n ok(4) by (auto simp: cont_byte_def)
        then have "drop_bit 7 (byte_at s i) \<noteq> 0" unfolding drop_bit_0_bits by blast
        then show ?thesis by (simp only: drop_bit_0_less word_le_nat_alt) simp
      qed
    qed
  qed
qed

section \<open>The code points of a string\<close>

text \<open>The reference: one code point after the other, each read in front of zero bytes.\<close>

definition pad :: "string \<Rightarrow> string" where
  "pad s = s @ replicate 3 (CHR 0x00)"

definition first_cp :: "string \<Rightarrow> code_point \<times> nat" where
  "first_cp s = (let (cp, e, n) = utf8_decode (pad s) in if e \<noteq> 0 then (invalid_code_point, 1) else (cp, n))"

lemma first_cp_pos: "first_cp s = (cp, k) \<Longrightarrow> 0 < k"
  by (auto simp: first_cp_def split: prod.splits if_splits dest: utf8_decode_pos)

function segments :: "string \<Rightarrow> (code_point \<times> string) list" where
  "segments s =
     (if s = [] then [] else let (cp, k) = first_cp s in (cp, take k s) # segments (drop k s))"
  by auto
termination by (relation "measure length") (auto dest: first_cp_pos[OF sym])

declare segments.simps [simp del]

lemma segments_Nil [simp]: "segments [] = []"
  by (simp add: segments.simps)

lemma segments_step: "s \<noteq> [] \<Longrightarrow> first_cp s = (cp, k) \<Longrightarrow> segments s = (cp, take k s) # segments (drop k s)"
  by (subst segments.simps) simp

lemma segments_concat [simp]: "concat (map snd (segments s)) = s"
proof (induction s rule: segments.induct)
  case (1 s)
  obtain cp k where k: "first_cp s = (cp, k)" by fastforce
  show ?case
  proof (cases "s = []")
    case False
    with 1[OF False k[symmetric]] show ?thesis by (simp add: segments_step[OF False k])
  qed simp
qed

fun walk :: "'s visitor \<Rightarrow> (code_point \<times> string) list \<Rightarrow> 's \<Rightarrow> 's" where
  "walk f [] st = st"
| "walk f ((cp, sv) # segs) st =
     (let (more, st) = f cp sv (concat (map snd segs)) st in if more then walk f segs st else st)"

lemma utf8_decode_cong: "(\<And>i. i < 4 \<Longrightarrow> byte_at s i = byte_at t i) \<Longrightarrow> utf8_decode s = utf8_decode t"
  unfolding utf8_decode_def by simp

lemma byte_at_append: "i < length s \<Longrightarrow> byte_at (s @ t) i = byte_at s i"
  by (simp add: byte_at_def nth_append)

lemma byte_at_zeros: "length s \<le> i \<Longrightarrow> i < length s + m \<Longrightarrow> byte_at (s @ replicate m (CHR 0x00)) i = 0"
  by (simp add: byte_at_def nth_append)

lemma first_cp_fits:
  assumes "s \<noteq> []" "first_cp s = (cp, k)"
  shows "k \<le> length s"
proof (rule ccontr)
  assume k: "\<not> k \<le> length s"
  obtain c e n where d: "utf8_decode (pad s) = (c, e, n)" by (cases "utf8_decode (pad s)")
  have "1 < k" using k assms(1) by (cases s) auto
  then have "e = 0" and n: "n = k" using assms(2) d by (auto simp: first_cp_def split: if_splits)
  then have acc: "utf8_decode (pad s) = (c, 0, k)" using d by simp
  then have "0x80 \<le> byte_at (pad s) (length s)" using utf8_accepted(4)[OF acc] \<open>1 < k\<close> k by simp
  moreover have "byte_at (pad s) (length s) = 0" unfolding pad_def by (rule byte_at_zeros) simp_all
  ultimately show False by (simp add: word_le_nat_alt)
qed

lemma decode_one_walk:
  assumes "p \<noteq> []" and "utf8_decode buf = utf8_decode (pad p)" and "first_cp p = (cp, k)"
  shows "decode_one f buf p st =
    (let (more, st') = f cp (take k p) (drop k p) st in (if more then Some k else None, st'))"
  using assms by (auto simp: decode_one_def first_cp_def Let_def split: prod.splits if_splits)

lemma block_loop_walk:
  "(case block_loop f p st of
      Inr st' \<Rightarrow> walk f (segments p) st = st'
    | Inl (q, st') \<Rightarrow> length q < 4 \<and> walk f (segments p) st = walk f (segments q) st')"
proof (induction f p st rule: block_loop.induct)
  case (1 f p st)
  show ?case
  proof (cases "4 \<le> length p")
    case True
    then have p: "p \<noteq> []" by auto
    obtain cp k where k: "first_cp p = (cp, k)" by fastforce
    have "utf8_decode p = utf8_decode (pad p)"
      using True by (intro utf8_decode_cong) (simp add: pad_def byte_at_append)
    note one = decode_one_walk[OF p this k]
    obtain more st1 where f: "f cp (take k p) (drop k p) st = (more, st1)" by fastforce
    have walk: "walk f (segments p) st = (if more then walk f (segments (drop k p)) st1 else st1)"
      by (simp add: segments_step[OF p k] f)
    show ?thesis
    proof (cases more)
      case True
      then have d: "decode_one f p p st = (Some k, st1)" by (simp add: one f)
      have "block_loop f p st = block_loop f (drop k p) st1"
        using \<open>4 \<le> length p\<close> d by (subst block_loop.simps) simp
      then show ?thesis using 1[OF \<open>4 \<le> length p\<close> d[symmetric] refl] walk True
        by (auto split: sum.splits prod.splits)
    next
      case False
      then have d: "decode_one f p p st = (None, st1)" by (simp add: one f)
      have "block_loop f p st = Inr st1" using \<open>4 \<le> length p\<close> d by (subst block_loop.simps) simp
      then show ?thesis using walk False by simp
    qed
  next
    case False
    then show ?thesis by (subst block_loop.simps) simp
  qed
qed

lemma tail_loop_walk:
  assumes "i < left" "left \<le> 3" "length p = left - i" "drop i buf = p @ replicate (7 - left) (CHR 0x00)"
  shows "tail_loop f buf p left i st = walk f (segments p) st"
  using assms
proof (induction f buf p left i st rule: tail_loop.induct)
  case (1 f buf p left i st)
  then have p: "p \<noteq> []" by auto
  obtain cp k where k: "first_cp p = (cp, k)" by fastforce
  have fits: "k \<le> left - i" "0 < k" using first_cp_fits[OF p k] first_cp_pos[OF k] 1(4) by simp_all
  have "byte_at (drop i buf) j = byte_at (pad p) j" if "j < 4" for j
  proof (cases "j < length p")
    case True then show ?thesis by (simp add: 1(5) pad_def byte_at_append)
  next
    case False
    then have j: "length p \<le> j" "j < length p + 3" "j < length p + (7 - left)" using that p 1(3) by (cases p; simp)+
    then show ?thesis by (simp only: 1(5) pad_def byte_at_zeros)
  qed
  then have "utf8_decode (drop i buf) = utf8_decode (pad p)" by (rule utf8_decode_cong)
  note one = decode_one_walk[OF p this k]
  obtain more st1 where f: "f cp (take k p) (drop k p) st = (more, st1)" by fastforce
  have walk: "walk f (segments p) st = (if more then walk f (segments (drop k p)) st1 else st1)"
    by (simp add: segments_step[OF p k] f)
  show ?case
  proof (cases more)
    case True
    then have d: "decode_one f (drop i buf) p st = (Some k, st1)" by (simp add: one f)
    show ?thesis
    proof (cases "i + k < left")
      case True
      have "drop (i + k) buf = drop k (drop i buf)" by (simp add: add.commute)
      then have "drop (i + k) buf = drop k p @ replicate (7 - left) (CHR 0x00)"
        using 1(4) fits by (simp add: 1(5))
      moreover have "tail_loop f buf p left i st = tail_loop f buf (drop k p) left (i + k) st1"
        using d True by (subst tail_loop.simps) simp
      ultimately show ?thesis using 1(1)[OF d[symmetric] refl True] True 1(3,4) walk \<open>more\<close> by simp
    next
      case False
      then have "drop k p = []" using 1(4) fits by simp
      moreover have "tail_loop f buf p left i st = st1" using d False by (subst tail_loop.simps) simp
      ultimately show ?thesis using walk \<open>more\<close> by simp
    qed
  next
    case False
    then have d: "decode_one f (drop i buf) p st = (None, st1)" by (simp add: one f)
    have "tail_loop f buf p left i st = st1" using d by (subst tail_loop.simps) simp
    then show ?thesis using walk False by simp
  qed
qed

lemma for_each_codepoint_walk: "for_each_codepoint f s st = walk f (segments s) st"
proof (cases "block_loop f s st")
  case (Inr st')
  then show ?thesis using block_loop_walk[of f s st] by (simp add: for_each_codepoint_def)
next
  case (Inl r)
  obtain q st' where r: "r = (q, st')" by fastforce
  have q: "length q < 4" "walk f (segments s) st = walk f (segments q) st'"
    using block_loop_walk[of f s st] Inl r by simp_all
  have "length q = 0 \<or> length q = 1 \<or> length q = 2 \<or> length q = 3" using q(1) by linarith
  then have l: "length q AND 3 = length q" by (elim disjE) (simp_all only:, simp_all)
  show ?thesis
  proof (cases "q = []")
    case True
    then show ?thesis using Inl r q(2) by (simp add: for_each_codepoint_def)
  next
    case False
    then have "tail_loop f (q @ replicate (7 - length q) (CHR 0x00)) q (length q) 0 st' = walk f (segments q) st'"
      using q(1) by (intro tail_loop_walk) simp_all
    then show ?thesis using Inl r q(2) l False by (simp add: for_each_codepoint_def Let_def)
  qed
qed

section \<open>Encoding and decoding\<close>

lemma byte_at_cp_char: "i < length ws \<Longrightarrow> ws ! i < 256 \<Longrightarrow> byte_at (map cp_char ws @ t) i = ws ! i"
proof -
  assume i: "i < length ws" "ws ! i < 256"
  have u: "unat (ws ! i) < 256" using i(2) by (simp add: word_less_nat_alt)
  have "(of_char (cp_char (ws ! i)) :: nat) = unat (ws ! i)"
    using u by (simp add: cp_char_def of_char_of)
  then show ?thesis using i(1) by (simp add: byte_at_def nth_append)
qed

lemma utf8_numerals:
  "(0x80 :: u32) = push_bit 7 1" "(0xc0 :: u32) = push_bit 6 (mask 2)" "(0xe0 :: u32) = push_bit 5 (mask 3)"
  "(0xf0 :: u32) = push_bit 4 (mask 4)" "(0x3f :: u32) = mask 6" "(0xfff :: u32) = mask 12"
  "(0x3ffff :: u32) = mask 18" "(0x1f :: u32) = mask 5" "(0x0f :: u32) = mask 4" "(0x07 :: u32) = mask 3"
  by (simp_all add: mask_eq_exp_minus_1 push_bit_eq_mult)

lemma less_exp_bits: "unat w < 2 ^ k \<Longrightarrow> bit w i \<Longrightarrow> i < k" for w :: u32
proof -
  assume w: "unat w < 2 ^ k" "bit w i"
  have "drop_bit k w = 0" using w(1) by (simp only: drop_bit_0_less)
  then show ?thesis using w(2) unfolding drop_bit_0_bits by (meson not_le)
qed

lemma bits_less_exp: "(\<And>i. bit w i \<Longrightarrow> i < k) \<Longrightarrow> unat w < 2 ^ k" for w :: u32
proof -
  assume w: "\<And>i. bit w i \<Longrightarrow> i < k"
  have "drop_bit k w = 0" unfolding drop_bit_0_bits using w not_le by blast
  then show ?thesis by (simp only: drop_bit_0_less)
qed

text \<open>Shifting the four groups of bits together, and taking a code point apart.\<close>

lemma raw_drop:
  fixes x0 x1 x2 x3 :: u32
  assumes "\<And>j. bit x0 j \<Longrightarrow> j < 8" "\<And>j. bit x1 j \<Longrightarrow> j < 6" "\<And>j. bit x2 j \<Longrightarrow> j < 6" "\<And>j. bit x3 j \<Longrightarrow> j < 6"
  shows "drop_bit 12 (((push_bit 18 x0 OR push_bit 12 x1) OR push_bit 6 x2) OR x3) = push_bit 6 x0 OR x1"
    "drop_bit 6 (((push_bit 18 x0 OR push_bit 12 x1) OR push_bit 6 x2) OR x3) = push_bit 12 x0 OR push_bit 6 x1 OR x2"
  by (rule bit_word_eqI; auto simp add: bit_simps dest: assms)+

lemma join:
  fixes c :: u32
  shows "push_bit 6 (drop_bit 6 c) OR (c AND mask 6) = c"
    "push_bit 12 (drop_bit 12 c) OR push_bit 6 (drop_bit 6 (c AND mask 12)) OR (c AND mask 6) = c"
    "((push_bit 18 (drop_bit 18 c) OR push_bit 12 (drop_bit 12 (c AND mask 18))) OR push_bit 6 (drop_bit 6 (c AND mask 12))) OR (c AND mask 6) = c"
proof -
  show "push_bit 6 (drop_bit 6 c) OR (c AND mask 6) = c"
    by (rule bit_word_eqI) (auto simp add: bit_simps)
  show "push_bit 12 (drop_bit 12 c) OR push_bit 6 (drop_bit 6 (c AND mask 12)) OR (c AND mask 6) = c"
  proof (rule bit_word_eqI)
    fix n show "bit (push_bit 12 (drop_bit 12 c) OR push_bit 6 (drop_bit 6 (c AND mask 12)) OR (c AND mask 6)) n = bit c n"
      by (cases "n < 6"; cases "n < 12") (auto simp add: bit_simps not_less dest: bit_imp_le_length)
  qed
  show "((push_bit 18 (drop_bit 18 c) OR push_bit 12 (drop_bit 12 (c AND mask 18))) OR push_bit 6 (drop_bit 6 (c AND mask 12))) OR (c AND mask 6) = c"
  proof (rule bit_word_eqI)
    fix n show "bit (((push_bit 18 (drop_bit 18 c) OR push_bit 12 (drop_bit 12 (c AND mask 18))) OR push_bit 6 (drop_bit 6 (c AND mask 12))) OR (c AND mask 6)) n = bit c n"
      by (cases "n < 6"; cases "n < 12"; cases "n < 18") (auto simp add: bit_simps not_less dest: bit_imp_le_length)
  qed
qed

lemma lead:
  fixes x :: u32
  shows "(\<And>j. bit x j \<Longrightarrow> j < 5) \<Longrightarrow> (push_bit 6 (mask 2) OR x) AND mask 5 = x"
    and "(\<And>j. bit x j \<Longrightarrow> j < 4) \<Longrightarrow> (push_bit 5 (mask 3) OR x) AND mask 4 = x"
    and "(\<And>j. bit x j \<Longrightarrow> j < 3) \<Longrightarrow> (push_bit 4 (mask 4) OR x) AND mask 3 = x"
    and "(\<And>j. bit x j \<Longrightarrow> j < 6) \<Longrightarrow> (push_bit 7 1 OR x) AND mask 6 = x"
  subgoal by (rule bit_word_eqI) (force simp add: bit_simps)
  subgoal by (rule bit_word_eqI) (force simp add: bit_simps)
  subgoal by (rule bit_word_eqI) (force simp add: bit_simps)
  subgoal premises h
  proof (rule bit_word_eqI)
    fix n show "bit ((push_bit 7 1 OR x) AND mask 6) n = bit x n"
      using h[of n] by (simp only: bit_and_iff bit_or_iff bit_push_bit_iff bit_mask_iff bit_1_iff) auto
  qed
  done

lemma and_mask_bits: "bit (w AND mask k) j \<Longrightarrow> j < k" for w :: u32
  by (simp add: bit_and_iff bit_mask_iff)

text \<open>A marker in front of lower bits is a sum.\<close>

lemma or_plus: "(\<And>j. bit x j \<Longrightarrow> j < k) \<Longrightarrow> unat (push_bit k m OR x) = unat (push_bit k m) + unat x" for x :: u32
proof -
  assume x: "\<And>j. bit x j \<Longrightarrow> j < k"
  have "unat (push_bit k m OR x) = unat (push_bit k m) OR unat x" by (simp only: unsigned_or_eq)
  also have "\<dots> = unat (push_bit k m) + unat x"
    by (intro disjunctive_add[symmetric]) (auto simp: bit_unsigned_iff bit_push_bit_iff dest!: x)
  finally show ?thesis .
qed

lemma surrogate_test: "drop_bit 11 c = (0x1b :: u32) \<longleftrightarrow> 0xd800 \<le> c \<and> c \<le> 0xdfff"
proof -
  have "drop_bit 11 c = (0x1b :: u32) \<longleftrightarrow> unat (drop_bit 11 c) = 27"
    by (simp only: word_unat_eq_iff) simp
  then show ?thesis by (simp only: unat_drop_bit word_le_nat_alt) (simp, linarith)
qed

lemma utf8_decodeI:
  assumes "utf8_len s = n" "n \<noteq> 0" "utf8_value s n = c" "utf8_mins ! n \<le> c" "c \<le> 0x10FFFF"
    "\<not> (0xd800 \<le> c \<and> c \<le> 0xdfff)" "\<forall>i\<in>{1..<n}. cont_byte s i"
  shows "utf8_decode s = (c, 0, n)"
proof -
  obtain e where d: "utf8_decode s = (c, e, n)" using assms(1-3) by (simp add: utf8_decode_eq)
  have "drop_bit 11 c \<noteq> 0x1b" using assms(6) surrogate_test[of c] by blast
  then have "e = 0" using utf8_accepts[OF d] assms(1,2,4,5,7) by (simp add: not_less)
  with d show ?thesis by simp
qed

lemma first_cpI: "utf8_decode (pad s) = (c, 0, n) \<Longrightarrow> first_cp s = (c, n)"
  by (simp add: first_cp_def)

lemma pad_append: "pad (s @ t) = s @ pad t"
  by (simp add: pad_def)

text \<open>A continuation byte.\<close>

lemma cont_word:
  fixes x :: u32
  assumes u: "unat x < 2 ^ 6"
  shows "0x80 OR x < 256" "(0x80 OR x) AND 0x3f = x" "bit (0x80 OR x) 7" "\<not> bit (0x80 OR x) 6"
proof -
  have b: "bit x j \<Longrightarrow> j < 6" for j by (rule less_exp_bits[OF u])
  have j: "j < 7" if "bit x j" for j using b[OF that] by simp
  have "unat (push_bit 7 1 OR x) = unat (push_bit 7 1 :: u32) + unat x" by (rule or_plus) (rule j)
  then have "unat (0x80 OR x) = 128 + unat x" by (simp only: utf8_numerals(1)[symmetric]) simp
  then show "0x80 OR x < 256" using u by (simp add: word_less_nat_alt)
  show "(0x80 OR x) AND 0x3f = x" unfolding utf8_numerals by (rule lead(4)) (rule b)
  have "bit (0x80 :: u32) 7" "\<not> bit (0x80 :: u32) 6" by simp_all
  moreover have "\<not> bit x 6" using b[of 6] by blast
  ultimately show "bit (0x80 OR x) 7" "\<not> bit (0x80 OR x) 6" by (simp_all only: bit_or_iff simp_thms)
qed

lemma lead_word:
  fixes x :: u32
  shows "unat x < 2 ^ 5 \<Longrightarrow> unat (0xc0 OR x) = 192 + unat x"
    and "unat x < 2 ^ 4 \<Longrightarrow> unat (0xe0 OR x) = 224 + unat x"
    and "unat x < 2 ^ 3 \<Longrightarrow> unat (0xf0 OR x) = 240 + unat x"
proof -
  have b: "unat x < 2 ^ k \<Longrightarrow> k \<le> n \<Longrightarrow> bit x j \<Longrightarrow> j < n" for k n j
    using less_exp_bits[of x k j] by simp
  show "unat (0xc0 OR x) = 192 + unat x" if "unat x < 2 ^ 5"
    using or_plus[of x 6 "mask 2", folded utf8_numerals(2)] b[OF that, of 6] by simp
  show "unat (0xe0 OR x) = 224 + unat x" if "unat x < 2 ^ 4"
    using or_plus[of x 5 "mask 3", folded utf8_numerals(3)] b[OF that, of 5] by simp
  show "unat (0xf0 OR x) = 240 + unat x" if "unat x < 2 ^ 3"
    using or_plus[of x 4 "mask 4", folded utf8_numerals(4)] b[OF that, of 4] by simp
qed

lemma lead_mask:
  fixes x :: u32
  shows "unat x < 2 ^ 5 \<Longrightarrow> (0xc0 OR x) AND 0x1f = x"
    and "unat x < 2 ^ 4 \<Longrightarrow> (0xe0 OR x) AND 0x0f = x"
    and "unat x < 2 ^ 3 \<Longrightarrow> (0xf0 OR x) AND 0x07 = x"
  unfolding utf8_numerals using less_exp_bits[of x] lead[of x] by blast+

lemma unat_drop_less: "unat c < 2 ^ (k + n) \<Longrightarrow> unat (drop_bit k c) < 2 ^ n" for c :: u32
  by (simp only: unat_drop_bit power_add) (simp add: div_less_iff_less_mult mult.commute)

lemma unat_mask_less: "unat (w AND mask k) < 2 ^ k" for w :: u32
  by (rule bits_less_exp) (rule and_mask_bits)

lemma low_6: "unat (w AND 0x3f) < 2 ^ 6" for w :: u32
  unfolding utf8_numerals(5) by (rule unat_mask_less)

lemma raw_shift:
  fixes x0 x1 x2 x3 :: u32
  assumes "unat x0 < 2 ^ 8"
  shows "drop_bit 12 (((push_bit 18 x0 OR push_bit 12 (x1 AND 0x3f)) OR push_bit 6 (x2 AND 0x3f)) OR (x3 AND 0x3f)) =
      push_bit 6 x0 OR (x1 AND 0x3f)"
    "drop_bit 6 (((push_bit 18 x0 OR push_bit 12 (x1 AND 0x3f)) OR push_bit 6 (x2 AND 0x3f)) OR (x3 AND 0x3f)) =
      push_bit 12 x0 OR push_bit 6 (x1 AND 0x3f) OR (x2 AND 0x3f)"
  by (rule raw_drop; erule less_exp_bits[OF assms] less_exp_bits[OF low_6])+

lemma utf8_masks_shifts:
  "utf8_masks ! 2 = 0x1f" "utf8_masks ! 3 = 0x0f" "utf8_masks ! 4 = 0x07"
  "utf8_shiftc ! 2 = 12" "utf8_shiftc ! 3 = 6" "utf8_shiftc ! 4 = 0"
  by (simp_all add: utf8_masks_def utf8_shiftc_def)

lemma utf8_value_eqs:
  fixes x0 :: u32
  assumes "unat x0 < 2 ^ 8"
  shows "byte_at s 0 AND 0x1f = x0 \<Longrightarrow> utf8_value s 2 = push_bit 6 x0 OR (byte_at s 1 AND 0x3f)"
    and "byte_at s 0 AND 0x0f = x0 \<Longrightarrow>
      utf8_value s 3 = push_bit 12 x0 OR push_bit 6 (byte_at s 1 AND 0x3f) OR (byte_at s 2 AND 0x3f)"
    and "byte_at s 0 AND 0x07 = x0 \<Longrightarrow>
      utf8_value s 4 = ((push_bit 18 x0 OR push_bit 12 (byte_at s 1 AND 0x3f)) OR push_bit 6 (byte_at s 2 AND 0x3f))
        OR (byte_at s 3 AND 0x3f)"
  using raw_shift[OF assms, of "byte_at s 1" "byte_at s 2" "byte_at s 3"]
  by (simp_all only: utf8_value_def utf8_raw_def utf8_masks_shifts drop_bit_0 id_apply)

lemma mask_drop_less: "k + n = m \<Longrightarrow> unat (drop_bit k (w AND mask m)) < 2 ^ n" for w :: u32
  by (rule unat_drop_less) (simp only: unat_mask_less)

text \<open>The bytes of the encoder in front of any text, as the decoder reads them.\<close>

lemma encode_2:
  assumes "0x80 \<le> c" "c < 0x800"
  shows "first_cp ([cp_char (0xc0 OR drop_bit 6 c), cp_char (0x80 OR (c AND 0x3f))] @ t) = (c, 2)"
proof -
  let ?ws = "[0xc0 OR drop_bit 6 c, 0x80 OR (c AND 0x3f)]"
  let ?s = "pad (map cp_char ?ws @ t)"
  have x0: "unat (drop_bit 6 c) < 2 ^ 5" using assms(2) by (intro unat_drop_less) (simp add: word_less_nat_alt)
  note l = lead_word(1)[OF x0]
  note k = cont_word[OF low_6[of c]]
  have b: "byte_at ?s 0 = 0xc0 OR drop_bit 6 c" "byte_at ?s 1 = 0x80 OR (c AND 0x3f)"
    unfolding pad_append using l x0 k(1) by (subst byte_at_cp_char; simp add: word_less_nat_alt)+
  have len: "utf8_len ?s = 2"
    unfolding utf8_len_class(2) b word_less_nat_alt word_le_nat_alt l using x0 by simp
  have "utf8_value ?s 2 = push_bit 6 (drop_bit 6 c) OR (c AND 0x3f)"
    using utf8_value_eqs(1)[of "drop_bit 6 c" ?s] x0 by (simp only: b lead_mask(1)[OF x0] k(2)) simp
  also have "\<dots> = c" unfolding utf8_numerals(5) by (rule join(1))
  finally have v: "utf8_value ?s 2 = c" .
  have "utf8_decode ?s = (c, 0, 2)"
  proof (rule utf8_decodeI[OF len _ v])
    have "{1..<2::nat} = {1}" by auto
    then show "\<forall>i\<in>{1..<2}. cont_byte ?s i" using b k(3,4) by (simp add: cont_byte_def)
  qed (use assms in \<open>simp_all add: utf8_mins_def word_less_nat_alt word_le_nat_alt\<close>)
  then show ?thesis by (intro first_cpI) simp
qed

lemma encode_3:
  assumes "0x800 \<le> c" "c \<le> 0xffff" "\<not> (0xd800 \<le> c \<and> c \<le> 0xdfff)"
  shows "first_cp ([cp_char (0xe0 OR drop_bit 12 c), cp_char (0x80 OR drop_bit 6 (c AND 0xfff)),
    cp_char (0x80 OR (c AND 0x3f))] @ t) = (c, 3)"
proof -
  let ?ws = "[0xe0 OR drop_bit 12 c, 0x80 OR drop_bit 6 (c AND 0xfff), 0x80 OR (c AND 0x3f)]"
  let ?s = "pad (map cp_char ?ws @ t)"
  have x0: "unat (drop_bit 12 c) < 2 ^ 4" using assms(2) by (intro unat_drop_less) (simp add: word_le_nat_alt)
  have x1: "unat (drop_bit 6 (c AND 0xfff)) < 2 ^ 6" unfolding utf8_numerals(6) by (rule mask_drop_less) simp
  note l = lead_word(2)[OF x0]
  note k1 = cont_word[OF x1] and k2 = cont_word[OF low_6[of c]]
  have b: "byte_at ?s 0 = 0xe0 OR drop_bit 12 c" "byte_at ?s 1 = 0x80 OR drop_bit 6 (c AND 0xfff)"
    "byte_at ?s 2 = 0x80 OR (c AND 0x3f)"
    unfolding pad_append using l x0 k1(1) k2(1) by (subst byte_at_cp_char; simp add: word_less_nat_alt)+
  have len: "utf8_len ?s = 3"
    unfolding utf8_len_class(3) b word_less_nat_alt word_le_nat_alt l using x0 by simp
  have "utf8_value ?s 3 = push_bit 12 (drop_bit 12 c) OR push_bit 6 (drop_bit 6 (c AND 0xfff)) OR (c AND 0x3f)"
    using utf8_value_eqs(2)[of "drop_bit 12 c" ?s] x0 by (simp only: b lead_mask(2)[OF x0] k1(2) k2(2)) simp
  also have "\<dots> = c" unfolding utf8_numerals(5,6) by (rule join(2))
  finally have v: "utf8_value ?s 3 = c" .
  have "utf8_decode ?s = (c, 0, 3)"
  proof (rule utf8_decodeI[OF len _ v])
    have "{1..<3::nat} = {1, 2}" by auto
    then show "\<forall>i\<in>{1..<3}. cont_byte ?s i" using b k1(3,4) k2(3,4) by (simp add: cont_byte_def)
  qed (use assms in \<open>simp_all add: utf8_mins_def word_less_nat_alt word_le_nat_alt\<close>)
  then show ?thesis by (intro first_cpI) simp
qed

lemma encode_4:
  assumes "0x10000 \<le> c" "c \<le> 0x10ffff"
  shows "first_cp ([cp_char (0xf0 OR drop_bit 18 c), cp_char (0x80 OR drop_bit 12 (c AND 0x3ffff)),
    cp_char (0x80 OR drop_bit 6 (c AND 0xfff)), cp_char (0x80 OR (c AND 0x3f))] @ t) = (c, 4)"
proof -
  let ?ws = "[0xf0 OR drop_bit 18 c, 0x80 OR drop_bit 12 (c AND 0x3ffff),
    0x80 OR drop_bit 6 (c AND 0xfff), 0x80 OR (c AND 0x3f)]"
  let ?s = "pad (map cp_char ?ws @ t)"
  have x0: "unat (drop_bit 18 c) < 2 ^ 3" using assms(2) by (intro unat_drop_less) (simp add: word_le_nat_alt)
  have x1: "unat (drop_bit 12 (c AND 0x3ffff)) < 2 ^ 6" unfolding utf8_numerals(7) by (rule mask_drop_less) simp
  have x2: "unat (drop_bit 6 (c AND 0xfff)) < 2 ^ 6" unfolding utf8_numerals(6) by (rule mask_drop_less) simp
  note l = lead_word(3)[OF x0]
  note k1 = cont_word[OF x1] and k2 = cont_word[OF x2] and k3 = cont_word[OF low_6[of c]]
  have b: "byte_at ?s 0 = 0xf0 OR drop_bit 18 c" "byte_at ?s 1 = 0x80 OR drop_bit 12 (c AND 0x3ffff)"
    "byte_at ?s 2 = 0x80 OR drop_bit 6 (c AND 0xfff)" "byte_at ?s 3 = 0x80 OR (c AND 0x3f)"
    unfolding pad_append using l x0 k1(1) k2(1) k3(1) by (subst byte_at_cp_char; simp add: word_less_nat_alt)+
  have len: "utf8_len ?s = 4"
    unfolding utf8_len_class(4) b word_less_nat_alt word_le_nat_alt l using x0 by simp
  have "utf8_value ?s 4 = ((push_bit 18 (drop_bit 18 c) OR push_bit 12 (drop_bit 12 (c AND 0x3ffff)))
      OR push_bit 6 (drop_bit 6 (c AND 0xfff))) OR (c AND 0x3f)"
    using utf8_value_eqs(3)[of "drop_bit 18 c" ?s] x0 by (simp only: b lead_mask(3)[OF x0] k1(2) k2(2) k3(2)) simp
  also have "\<dots> = c" unfolding utf8_numerals(5,6,7) by (rule join(3))
  finally have v: "utf8_value ?s 4 = c" .
  have "utf8_decode ?s = (c, 0, 4)"
  proof (rule utf8_decodeI[OF len _ v])
    have "{1..<4::nat} = {1, 2, 3}" by auto
    then show "\<forall>i\<in>{1..<4}. cont_byte ?s i" using b k1(3,4) k2(3,4) k3(3,4) by (simp add: cont_byte_def)
  qed (use assms in \<open>simp_all add: utf8_mins_def word_less_nat_alt word_le_nat_alt\<close>)
  then show ?thesis by (intro first_cpI) simp
qed

lemma encode_1:
  assumes "c < 0x80"
  shows "first_cp ([cp_char c] @ t) = (c, 1)"
proof -
  let ?s = "pad (map cp_char [c] @ t)"
  have b: "byte_at ?s 0 = c"
    unfolding pad_append using assms by (subst byte_at_cp_char) (simp_all add: word_less_nat_alt)
  have len: "utf8_len ?s = 1" unfolding utf8_len_class(1) b by (rule assms)
  have "utf8_value ?s 1 = c" using utf8_ascii_value[OF len] b by simp
  then have "utf8_decode ?s = (c, 0, 1)"
    using assms by (intro utf8_decodeI[OF len]) (simp_all add: utf8_mins_def word_less_nat_alt word_le_nat_alt)
  then show ?thesis by (intro first_cpI) simp
qed

section \<open>Round trips\<close>

definition scalar_value :: "code_point \<Rightarrow> bool" where
  "scalar_value c \<longleftrightarrow> c \<le> 0x10ffff \<and> \<not> (0xd800 \<le> c \<and> c \<le> 0xdfff)"

lemma encode_cp_first: "encode_cp c = Some b \<Longrightarrow> first_cp (b @ t) = (c, length b) \<and> b \<noteq> []"
  using encode_1[of c t] encode_2[of c t] encode_3[of c t] encode_4[of c t]
  by (auto simp: encode_cp_def not_less not_le word_le_nat_alt word_less_nat_alt split: if_splits)

lemma encode_cp_scalar: "(\<exists>b. encode_cp c = Some b) \<longleftrightarrow> scalar_value c"
  by (auto simp: encode_cp_def scalar_value_def word_le_nat_alt word_less_nat_alt)

lemma convert_utf32:
  "list_all scalar_value cs \<Longrightarrow>
   \<exists>t. to_utf8_convert False policy cs buf = Some (buf @ t) \<and> map fst (segments t) = cs"
proof (induction cs arbitrary: buf)
  case (Cons c cs)
  obtain b where b: "encode_cp c = Some b" using Cons.prems encode_cp_scalar[of c] by auto
  obtain t where t: "to_utf8_convert False policy cs (buf @ b) = Some ((buf @ b) @ t)" "map fst (segments t) = cs"
    using Cons.IH[of "buf @ b"] Cons.prems by auto
  have "first_cp (b @ t) = (c, length b)" "b @ t \<noteq> []" using encode_cp_first[OF b] by auto
  then have "segments (b @ t) = (c, b) # segments t" using segments_step[of "b @ t" c "length b"] by simp
  then show ?case using b t by simp
qed simp

lemma convert_utf32_scalar: "to_utf8_convert False policy cs buf = Some s \<Longrightarrow> list_all scalar_value cs"
  by (induction cs arbitrary: buf) (use encode_cp_scalar in \<open>auto split: option.splits\<close>)

lemma walk_collect: "walk (\<lambda>cp sv rest acc. (True, acc @ [(cp, sv)])) segs acc = acc @ segs"
  by (induction segs arbitrary: acc) auto

text \<open>C32: A conversion of UTF-32 to UTF-8 succeeds exactly for the scalar values, up to \<open>0x10ffff\<close> and
  without the surrogates, and then the iteration over the code points of its result gets exactly
  the code points that were converted, none of them changed, dropped or cut in two.\<close>

theorem to_utf8_roundtrip:
  "(\<exists>s. to_utf8_convert False policy cs [] = Some s) = list_all scalar_value cs \<and>
   (\<forall>s. to_utf8_convert False policy cs [] = Some s \<longrightarrow>
      map fst (for_each_codepoint (\<lambda>cp sv rest acc. (True, acc @ [(cp, sv)])) s []) = cs)"
  using convert_utf32[of cs policy "[]"] convert_utf32_scalar[of policy cs "[]"]
  by (auto simp: for_each_codepoint_walk walk_collect)

theorem to_utf8_roundtrip_witness:
  "map fst (for_each_codepoint (\<lambda>cp sv rest acc. (True, acc @ [(cp, sv)])) [CHR 0xE2, CHR 0x82, CHR 0xAC] []) =
     [0x20ac :: u32]"
proof -
  have "to_utf8_convert False Abort [0x20ac] [] = Some [CHR 0xE2, CHR 0x82, CHR 0xAC]"
    by (simp add: encode_cp_def cp_char_def char_of_def bit_0)
  then show ?thesis using to_utf8_roundtrip[of Abort "[0x20ac]"] by simp
qed

section \<open>Surrogate pairs\<close>

definition utf16_units :: "code_point \<Rightarrow> u32 list" where
  "utf16_units c =
     (if c < 0x10000 then [c]
      else [0xd800 + drop_bit 10 (c - 0x10000), 0xdc00 + ((c - 0x10000) AND mask 10)])"

lemma surrogate_mask:
  fixes h m :: u32
  assumes "unat h < 2 ^ 10" "unat m < 2 ^ 6"
  shows "(push_bit 10 m + h) AND push_bit 10 (mask 6) = push_bit 10 m"
    "unat (push_bit 10 m + h) = unat m * 1024 + unat h"
proof -
  have d: "push_bit 10 m + h = push_bit 10 m OR h"
    by (rule disjunctive_add) (auto simp: bit_push_bit_iff dest: less_exp_bits[OF assms(1)])
  show "(push_bit 10 m + h) AND push_bit 10 (mask 6) = push_bit 10 m"
    unfolding d by (rule bit_word_eqI)
      (auto simp: bit_simps dest: less_exp_bits[OF assms(1)] less_exp_bits[OF assms(2)])
  show "unat (push_bit 10 m + h) = unat m * 1024 + unat h"
    using assms by (simp add: push_bit_eq_mult unat_word_ariths)
qed

lemma surrogate_numerals:
  "(0xd800 :: u32) = push_bit 10 0x36" "(0xdc00 :: u32) = push_bit 10 0x37" "(0xfc00 :: u32) = push_bit 10 (mask 6)"
  by (simp_all add: mask_eq_exp_minus_1 push_bit_eq_mult)

lemma surrogates_join:
  assumes "0x10000 \<le> c" "c \<le> 0x10ffff"
  defines "h \<equiv> drop_bit 10 (c - 0x10000)" and "l \<equiv> (c - 0x10000) AND mask 10"
  shows "surrogate_pair (0xd800 + h) (0xdc00 + l)" "0xd800 \<le> 0xd800 + h" "0xd800 + h \<le> 0xdfff"
    "push_bit 10 (0xd800 + h) + (0xdc00 + l) - 0x35fdc00 = c"
proof -
  have "unat (c - 0x10000) = unat c - 65536" using assms(1) by (simp add: unat_sub word_le_nat_alt)
  moreover have "unat c \<le> 1114111" using assms(2) by (simp add: word_le_nat_alt)
  ultimately have h: "unat h < 2 ^ 10" unfolding h_def by (intro unat_drop_less) simp
  have l: "unat l < 2 ^ 10" unfolding l_def by (rule unat_mask_less)
  show "surrogate_pair (0xd800 + h) (0xdc00 + l)"
    unfolding surrogate_pair_def surrogate_numerals
    using surrogate_mask(1)[OF h, where m = "0x36"] surrogate_mask(1)[OF l, where m = "0x37"] by simp
  show "0xd800 \<le> 0xd800 + h" "0xd800 + h \<le> 0xdfff"
    using surrogate_mask(2)[OF h, where m = "0x36"] h by (simp_all add: word_le_nat_alt push_bit_eq_mult)
  have "push_bit 10 h + l = c - 0x10000"
    using bits_ident[of 10 "c - 0x10000"] by (simp add: h_def l_def take_bit_eq_mask)
  then show "push_bit 10 (0xd800 + h) + (0xdc00 + l) - 0x35fdc00 = c"
    by (simp add: push_bit_eq_mult algebra_simps)
qed

text \<open>What UTF-16 carries in one unit or in a surrogate pair comes out as the same UTF-8 that the
  UTF-32 conversion gives for the code points themselves.\<close>

theorem to_utf8_surrogates:
  "list_all scalar_value cs \<Longrightarrow>
   to_utf8_convert True policy (concat (map utf16_units cs)) buf = to_utf8_convert False policy cs buf"
proof (induction cs arbitrary: buf)
  case (Cons c cs)
  then have c: "scalar_value c" and IH: "\<And>buf. to_utf8_convert True policy (concat (map utf16_units cs)) buf =
      to_utf8_convert False policy cs buf" by auto
  show ?case
  proof (cases "c < 0x10000")
    case True
    then have u: "utf16_units c = [c]" by (simp add: utf16_units_def)
    have "\<not> (0xd800 \<le> c \<and> c \<le> 0xdfff)" using c by (simp add: scalar_value_def)
    then show ?thesis using True IH by (auto simp: u split: option.splits)
  next
    case False
    then have u: "utf16_units c = [0xd800 + drop_bit 10 (c - 0x10000), 0xdc00 + ((c - 0x10000) AND mask 10)]"
      by (simp add: utf16_units_def)
    show ?thesis using False c IH surrogates_join[of c]
      by (simp add: u scalar_value_def not_less split: option.splits)
  qed
qed simp

theorem to_utf8_surrogates_witness:
  "to_utf8_convert True Abort [0xd83d, 0xde00] [] = to_utf8_convert False Abort [0x1f600] []"
proof -
  have "utf16_units 0x1f600 = [0xd83d, 0xde00]"
    by (simp add: utf16_units_def mask_eq_exp_minus_1)
  then show ?thesis using to_utf8_surrogates[of "[0x1f600]" Abort "[]"] by (simp add: scalar_value_def)
qed

end
