(* ===== verification/Fmt_Printable.thy ===== *)
theory Fmt_Printable
  imports Prelude
begin

text \<open>
  \<open>fmt/format-inl.h\<close>: which code points are printable.  Two compressed tables for each of the
  first two planes, single code points by their high byte and runs of alternating kind with
  lengths of one or two bytes, and the ranges above them.
\<close>

section \<open>Looking up a table\<close>

text \<open>A \<open>singleton\<close> is its \<open>upper\<close> and \<open>lower_count\<close>.  The first loop of \<open>is_printable\<close>: whether the
  code point is found among the singletons; \<open>lower_start\<close> is the position in the table of low bytes.\<close>

fun singleton_found :: "(int \<times> nat) list \<Rightarrow> int list \<Rightarrow> int \<Rightarrow> nat \<Rightarrow> bool" where
  "singleton_found [] lowers x lower_start = False"
| "singleton_found ((u, n) # ss) lowers x lower_start =
     (let upper = drop_bit 8 x; lower_end = lower_start + n
      in if upper < u then False
         else if upper = u \<and> list_ex (\<lambda>j. lowers ! j = x AND 0xff) [lower_start..<lower_end] then True
         else singleton_found ss lowers x lower_end)"

text \<open>The second loop.  A length byte with its high bit set is followed by a second one.\<close>

fun run_loop :: "int list \<Rightarrow> int \<Rightarrow> bool \<Rightarrow> bool" where
  "run_loop [] x current = current"
| "run_loop [v] x current =
     (let x = x - v in if x < 0 then current else \<not> current)"
| "run_loop (v # w # rest) x current =
     (if v AND 0x80 \<noteq> 0 then
        let x = x - (push_bit 8 (v AND 0x7f) OR w) in if x < 0 then current else run_loop rest x (\<not> current)
      else
        let x = x - v in if x < 0 then current else run_loop (w # rest) x (\<not> current))"

definition is_printable16 :: "16 word \<Rightarrow> (int \<times> nat) list \<Rightarrow> int list \<Rightarrow> int list \<Rightarrow> bool" where
  "is_printable16 x singletons singleton_lowers normal =
     (if singleton_found singletons singleton_lowers (uint x) 0 then False
      else run_loop normal (uint x) True)"

section \<open>The tables\<close>

definition singletons0 :: "(int \<times> nat) list" where
  "singletons0 = [
    (0x00, 1), (0x03, 5), (0x05, 6), (0x06, 3), (0x07, 6), (0x08, 8), (0x09, 17), (0x0a, 28),
    (0x0b, 25), (0x0c, 20), (0x0d, 16), (0x0e, 13), (0x0f, 4), (0x10, 3), (0x12, 18), (0x13, 9),
    (0x16, 1), (0x17, 5), (0x18, 2), (0x19, 3), (0x1a, 7), (0x1c, 2), (0x1d, 1), (0x1f, 22),
    (0x20, 3), (0x2b, 3), (0x2c, 2), (0x2d, 11), (0x2e, 1), (0x30, 3), (0x31, 2), (0x32, 1),
    (0xa7, 2), (0xa9, 2), (0xaa, 4), (0xab, 8), (0xfa, 2), (0xfb, 5), (0xfd, 4), (0xfe, 3),
    (0xff, 9)]"

definition singletons0_lower :: "int list" where
  "singletons0_lower = [
    0xad, 0x78, 0x79, 0x8b, 0x8d, 0xa2, 0x30, 0x57, 0x58, 0x8b, 0x8c, 0x90, 0x1c, 0x1d, 0xdd,
    0x0e, 0x0f, 0x4b, 0x4c, 0xfb, 0xfc, 0x2e, 0x2f, 0x3f, 0x5c, 0x5d, 0x5f, 0xb5, 0xe2, 0x84,
    0x8d, 0x8e, 0x91, 0x92, 0xa9, 0xb1, 0xba, 0xbb, 0xc5, 0xc6, 0xc9, 0xca, 0xde, 0xe4, 0xe5,
    0xff, 0x00, 0x04, 0x11, 0x12, 0x29, 0x31, 0x34, 0x37, 0x3a, 0x3b, 0x3d, 0x49, 0x4a, 0x5d,
    0x84, 0x8e, 0x92, 0xa9, 0xb1, 0xb4, 0xba, 0xbb, 0xc6, 0xca, 0xce, 0xcf, 0xe4, 0xe5, 0x00,
    0x04, 0x0d, 0x0e, 0x11, 0x12, 0x29, 0x31, 0x34, 0x3a, 0x3b, 0x45, 0x46, 0x49, 0x4a, 0x5e,
    0x64, 0x65, 0x84, 0x91, 0x9b, 0x9d, 0xc9, 0xce, 0xcf, 0x0d, 0x11, 0x29, 0x45, 0x49, 0x57,
    0x64, 0x65, 0x8d, 0x91, 0xa9, 0xb4, 0xba, 0xbb, 0xc5, 0xc9, 0xdf, 0xe4, 0xe5, 0xf0, 0x0d,
    0x11, 0x45, 0x49, 0x64, 0x65, 0x80, 0x84, 0xb2, 0xbc, 0xbe, 0xbf, 0xd5, 0xd7, 0xf0, 0xf1,
    0x83, 0x85, 0x8b, 0xa4, 0xa6, 0xbe, 0xbf, 0xc5, 0xc7, 0xce, 0xcf, 0xda, 0xdb, 0x48, 0x98,
    0xbd, 0xcd, 0xc6, 0xce, 0xcf, 0x49, 0x4e, 0x4f, 0x57, 0x59, 0x5e, 0x5f, 0x89, 0x8e, 0x8f,
    0xb1, 0xb6, 0xb7, 0xbf, 0xc1, 0xc6, 0xc7, 0xd7, 0x11, 0x16, 0x17, 0x5b, 0x5c, 0xf6, 0xf7,
    0xfe, 0xff, 0x80, 0x0d, 0x6d, 0x71, 0xde, 0xdf, 0x0e, 0x0f, 0x1f, 0x6e, 0x6f, 0x1c, 0x1d,
    0x5f, 0x7d, 0x7e, 0xae, 0xaf, 0xbb, 0xbc, 0xfa, 0x16, 0x17, 0x1e, 0x1f, 0x46, 0x47, 0x4e,
    0x4f, 0x58, 0x5a, 0x5c, 0x5e, 0x7e, 0x7f, 0xb5, 0xc5, 0xd4, 0xd5, 0xdc, 0xf0, 0xf1, 0xf5,
    0x72, 0x73, 0x8f, 0x74, 0x75, 0x96, 0x2f, 0x5f, 0x26, 0x2e, 0x2f, 0xa7, 0xaf, 0xb7, 0xbf,
    0xc7, 0xcf, 0xd7, 0xdf, 0x9a, 0x40, 0x97, 0x98, 0x30, 0x8f, 0x1f, 0xc0, 0xc1, 0xce, 0xff,
    0x4e, 0x4f, 0x5a, 0x5b, 0x07, 0x08, 0x0f, 0x10, 0x27, 0x2f, 0xee, 0xef, 0x6e, 0x6f, 0x37,
    0x3d, 0x3f, 0x42, 0x45, 0x90, 0x91, 0xfe, 0xff, 0x53, 0x67, 0x75, 0xc8, 0xc9, 0xd0, 0xd1,
    0xd8, 0xd9, 0xe7, 0xfe, 0xff]"

definition normal0 :: "int list" where
  "normal0 = [
    0x00, 0x20, 0x5f, 0x22, 0x82, 0xdf, 0x04, 0x82, 0x44, 0x08, 0x1b, 0x04, 0x06, 0x11, 0x81,
    0xac, 0x0e, 0x80, 0xab, 0x35, 0x28, 0x0b, 0x80, 0xe0, 0x03, 0x19, 0x08, 0x01, 0x04, 0x2f,
    0x04, 0x34, 0x04, 0x07, 0x03, 0x01, 0x07, 0x06, 0x07, 0x11, 0x0a, 0x50, 0x0f, 0x12, 0x07,
    0x55, 0x07, 0x03, 0x04, 0x1c, 0x0a, 0x09, 0x03, 0x08, 0x03, 0x07, 0x03, 0x02, 0x03, 0x03,
    0x03, 0x0c, 0x04, 0x05, 0x03, 0x0b, 0x06, 0x01, 0x0e, 0x15, 0x05, 0x3a, 0x03, 0x11, 0x07,
    0x06, 0x05, 0x10, 0x07, 0x57, 0x07, 0x02, 0x07, 0x15, 0x0d, 0x50, 0x04, 0x43, 0x03, 0x2d,
    0x03, 0x01, 0x04, 0x11, 0x06, 0x0f, 0x0c, 0x3a, 0x04, 0x1d, 0x25, 0x5f, 0x20, 0x6d, 0x04,
    0x6a, 0x25, 0x80, 0xc8, 0x05, 0x82, 0xb0, 0x03, 0x1a, 0x06, 0x82, 0xfd, 0x03, 0x59, 0x07,
    0x15, 0x0b, 0x17, 0x09, 0x14, 0x0c, 0x14, 0x0c, 0x6a, 0x06, 0x0a, 0x06, 0x1a, 0x06, 0x59,
    0x07, 0x2b, 0x05, 0x46, 0x0a, 0x2c, 0x04, 0x0c, 0x04, 0x01, 0x03, 0x31, 0x0b, 0x2c, 0x04,
    0x1a, 0x06, 0x0b, 0x03, 0x80, 0xac, 0x06, 0x0a, 0x06, 0x21, 0x3f, 0x4c, 0x04, 0x2d, 0x03,
    0x74, 0x08, 0x3c, 0x03, 0x0f, 0x03, 0x3c, 0x07, 0x38, 0x08, 0x2b, 0x05, 0x82, 0xff, 0x11,
    0x18, 0x08, 0x2f, 0x11, 0x2d, 0x03, 0x20, 0x10, 0x21, 0x0f, 0x80, 0x8c, 0x04, 0x82, 0x97,
    0x19, 0x0b, 0x15, 0x88, 0x94, 0x05, 0x2f, 0x05, 0x3b, 0x07, 0x02, 0x0e, 0x18, 0x09, 0x80,
    0xb3, 0x2d, 0x74, 0x0c, 0x80, 0xd6, 0x1a, 0x0c, 0x05, 0x80, 0xff, 0x05, 0x80, 0xdf, 0x0c,
    0xee, 0x0d, 0x03, 0x84, 0x8d, 0x03, 0x37, 0x09, 0x81, 0x5c, 0x14, 0x80, 0xb8, 0x08, 0x80,
    0xcb, 0x2a, 0x38, 0x03, 0x0a, 0x06, 0x38, 0x08, 0x46, 0x08, 0x0c, 0x06, 0x74, 0x0b, 0x1e,
    0x03, 0x5a, 0x04, 0x59, 0x09, 0x80, 0x83, 0x18, 0x1c, 0x0a, 0x16, 0x09, 0x4c, 0x04, 0x80,
    0x8a, 0x06, 0xab, 0xa4, 0x0c, 0x17, 0x04, 0x31, 0xa1, 0x04, 0x81, 0xda, 0x26, 0x07, 0x0c,
    0x05, 0x05, 0x80, 0xa5, 0x11, 0x81, 0x6d, 0x10, 0x78, 0x28, 0x2a, 0x06, 0x4c, 0x04, 0x80,
    0x8d, 0x04, 0x80, 0xbe, 0x03, 0x1b, 0x03, 0x0f, 0x0d]"

definition singletons1 :: "(int \<times> nat) list" where
  "singletons1 = [
    (0x00, 6), (0x01, 1), (0x03, 1), (0x04, 2), (0x08, 8), (0x09, 2), (0x0a, 5), (0x0b, 2),
    (0x0e, 4), (0x10, 1), (0x11, 2), (0x12, 5), (0x13, 17), (0x14, 1), (0x15, 2), (0x17, 2),
    (0x19, 13), (0x1c, 5), (0x1d, 8), (0x24, 1), (0x6a, 3), (0x6b, 2), (0xbc, 2), (0xd1, 2),
    (0xd4, 12), (0xd5, 9), (0xd6, 2), (0xd7, 2), (0xda, 1), (0xe0, 5), (0xe1, 2), (0xe8, 2),
    (0xee, 32), (0xf0, 4), (0xf8, 2), (0xf9, 2), (0xfa, 2), (0xfb, 1)]"

definition singletons1_lower :: "int list" where
  "singletons1_lower = [
    0x0c, 0x27, 0x3b, 0x3e, 0x4e, 0x4f, 0x8f, 0x9e, 0x9e, 0x9f, 0x06, 0x07, 0x09, 0x36, 0x3d,
    0x3e, 0x56, 0xf3, 0xd0, 0xd1, 0x04, 0x14, 0x18, 0x36, 0x37, 0x56, 0x57, 0x7f, 0xaa, 0xae,
    0xaf, 0xbd, 0x35, 0xe0, 0x12, 0x87, 0x89, 0x8e, 0x9e, 0x04, 0x0d, 0x0e, 0x11, 0x12, 0x29,
    0x31, 0x34, 0x3a, 0x45, 0x46, 0x49, 0x4a, 0x4e, 0x4f, 0x64, 0x65, 0x5c, 0xb6, 0xb7, 0x1b,
    0x1c, 0x07, 0x08, 0x0a, 0x0b, 0x14, 0x17, 0x36, 0x39, 0x3a, 0xa8, 0xa9, 0xd8, 0xd9, 0x09,
    0x37, 0x90, 0x91, 0xa8, 0x07, 0x0a, 0x3b, 0x3e, 0x66, 0x69, 0x8f, 0x92, 0x6f, 0x5f, 0xee,
    0xef, 0x5a, 0x62, 0x9a, 0x9b, 0x27, 0x28, 0x55, 0x9d, 0xa0, 0xa1, 0xa3, 0xa4, 0xa7, 0xa8,
    0xad, 0xba, 0xbc, 0xc4, 0x06, 0x0b, 0x0c, 0x15, 0x1d, 0x3a, 0x3f, 0x45, 0x51, 0xa6, 0xa7,
    0xcc, 0xcd, 0xa0, 0x07, 0x19, 0x1a, 0x22, 0x25, 0x3e, 0x3f, 0xc5, 0xc6, 0x04, 0x20, 0x23,
    0x25, 0x26, 0x28, 0x33, 0x38, 0x3a, 0x48, 0x4a, 0x4c, 0x50, 0x53, 0x55, 0x56, 0x58, 0x5a,
    0x5c, 0x5e, 0x60, 0x63, 0x65, 0x66, 0x6b, 0x73, 0x78, 0x7d, 0x7f, 0x8a, 0xa4, 0xaa, 0xaf,
    0xb0, 0xc0, 0xd0, 0xae, 0xaf, 0x79, 0xcc, 0x6e, 0x6f, 0x93]"

definition normal1 :: "int list" where
  "normal1 = [
    0x5e, 0x22, 0x7b, 0x05, 0x03, 0x04, 0x2d, 0x03, 0x66, 0x03, 0x01, 0x2f, 0x2e, 0x80, 0x82,
    0x1d, 0x03, 0x31, 0x0f, 0x1c, 0x04, 0x24, 0x09, 0x1e, 0x05, 0x2b, 0x05, 0x44, 0x04, 0x0e,
    0x2a, 0x80, 0xaa, 0x06, 0x24, 0x04, 0x24, 0x04, 0x28, 0x08, 0x34, 0x0b, 0x01, 0x80, 0x90,
    0x81, 0x37, 0x09, 0x16, 0x0a, 0x08, 0x80, 0x98, 0x39, 0x03, 0x63, 0x08, 0x09, 0x30, 0x16,
    0x05, 0x21, 0x03, 0x1b, 0x05, 0x01, 0x40, 0x38, 0x04, 0x4b, 0x05, 0x2f, 0x04, 0x0a, 0x07,
    0x09, 0x07, 0x40, 0x20, 0x27, 0x04, 0x0c, 0x09, 0x36, 0x03, 0x3a, 0x05, 0x1a, 0x07, 0x04,
    0x0c, 0x07, 0x50, 0x49, 0x37, 0x33, 0x0d, 0x33, 0x07, 0x2e, 0x08, 0x0a, 0x81, 0x26, 0x52,
    0x4e, 0x28, 0x08, 0x2a, 0x56, 0x1c, 0x14, 0x17, 0x09, 0x4e, 0x04, 0x1e, 0x0f, 0x43, 0x0e,
    0x19, 0x07, 0x0a, 0x06, 0x48, 0x08, 0x27, 0x09, 0x75, 0x0b, 0x3f, 0x41, 0x2a, 0x06, 0x3b,
    0x05, 0x0a, 0x06, 0x51, 0x06, 0x01, 0x05, 0x10, 0x03, 0x05, 0x80, 0x8b, 0x62, 0x1e, 0x48,
    0x08, 0x0a, 0x80, 0xa6, 0x5e, 0x22, 0x45, 0x0b, 0x0a, 0x06, 0x0d, 0x13, 0x39, 0x07, 0x0a,
    0x36, 0x2c, 0x04, 0x10, 0x80, 0xc0, 0x3c, 0x64, 0x53, 0x0c, 0x48, 0x09, 0x0a, 0x46, 0x45,
    0x1b, 0x48, 0x08, 0x53, 0x1d, 0x39, 0x81, 0x07, 0x46, 0x0a, 0x1d, 0x03, 0x47, 0x49, 0x37,
    0x03, 0x0e, 0x08, 0x0a, 0x06, 0x39, 0x07, 0x0a, 0x81, 0x36, 0x19, 0x80, 0xb7, 0x01, 0x0f,
    0x32, 0x0d, 0x83, 0x9b, 0x66, 0x75, 0x0b, 0x80, 0xc4, 0x8a, 0xbc, 0x84, 0x2f, 0x8f, 0xd1,
    0x82, 0x47, 0xa1, 0xb9, 0x82, 0x39, 0x07, 0x2a, 0x04, 0x02, 0x60, 0x26, 0x0a, 0x46, 0x0a,
    0x28, 0x05, 0x13, 0x82, 0xb0, 0x5b, 0x65, 0x4b, 0x04, 0x39, 0x07, 0x11, 0x40, 0x05, 0x0b,
    0x02, 0x0e, 0x97, 0xf8, 0x08, 0x84, 0xd6, 0x2a, 0x09, 0xa2, 0xf7, 0x81, 0x1f, 0x31, 0x03,
    0x11, 0x04, 0x08, 0x81, 0x8c, 0x89, 0x04, 0x6b, 0x05, 0x0d, 0x03, 0x09, 0x07, 0x10, 0x93,
    0x60, 0x80, 0xf6, 0x0a, 0x73, 0x08, 0x6e, 0x17, 0x46, 0x80, 0x9a, 0x14, 0x0c, 0x57, 0x09,
    0x19, 0x80, 0x87, 0x81, 0x47, 0x03, 0x85, 0x42, 0x0f, 0x15, 0x85, 0x50, 0x2b, 0x80, 0xd5,
    0x2d, 0x03, 0x1a, 0x04, 0x02, 0x81, 0x70, 0x3a, 0x05, 0x01, 0x85, 0x00, 0x80, 0xd7, 0x29,
    0x4c, 0x04, 0x0a, 0x04, 0x02, 0x83, 0x11, 0x44, 0x4c, 0x3d, 0x80, 0xc2, 0x3c, 0x06, 0x01,
    0x04, 0x55, 0x05, 0x1b, 0x34, 0x02, 0x81, 0x0e, 0x2c, 0x04, 0x64, 0x0c, 0x56, 0x0a, 0x80,
    0xae, 0x38, 0x1d, 0x0d, 0x2c, 0x04, 0x09, 0x07, 0x02, 0x0e, 0x06, 0x80, 0x9a, 0x83, 0xd8,
    0x08, 0x0d, 0x03, 0x0d, 0x03, 0x74, 0x0c, 0x59, 0x07, 0x0c, 0x14, 0x0c, 0x04, 0x38, 0x08,
    0x0a, 0x06, 0x28, 0x08, 0x22, 0x4e, 0x81, 0x54, 0x0c, 0x15, 0x03, 0x03, 0x05, 0x07, 0x09,
    0x19, 0x07, 0x07, 0x09, 0x03, 0x0d, 0x07, 0x29, 0x80, 0xcb, 0x25, 0x0a, 0x84, 0x06]"

section \<open>\<open>is_printable\<close>\<close>

definition is_printable :: "u32 \<Rightarrow> bool" where
  "is_printable cp =
     (let lower = ucast cp :: 16 word
      in if cp < 0x10000 then is_printable16 lower singletons0 singletons0_lower normal0
         else if cp < 0x20000 then is_printable16 lower singletons1 singletons1_lower normal1
         else if 0x2a6de \<le> cp \<and> cp < 0x2a700 then False
         else if 0x2b735 \<le> cp \<and> cp < 0x2b740 then False
         else if 0x2b81e \<le> cp \<and> cp < 0x2b820 then False
         else if 0x2cea2 \<le> cp \<and> cp < 0x2ceb0 then False
         else if 0x2ebe1 \<le> cp \<and> cp < 0x2f800 then False
         else if 0x2fa1e \<le> cp \<and> cp < 0x30000 then False
         else if 0x3134b \<le> cp \<and> cp < 0xe0100 then False
         else if 0xe01f0 \<le> cp \<and> cp < 0x110000 then False
         else cp < 0x110000)"

section \<open>What the tables say\<close>

text \<open>The reference: the single code points, and the ranges of the runs that are not printable,
  the last one up to the end of the plane.\<close>

fun singles :: "(int \<times> nat) list \<Rightarrow> int list \<Rightarrow> int list" where
  "singles [] lowers = []"
| "singles ((u, n) # ss) lowers = map (\<lambda>l. 256 * u + l) (take n lowers) @ singles ss (drop n lowers)"

fun run_lengths :: "int list \<Rightarrow> int list option" where
  "run_lengths [] = Some []"
| "run_lengths [v] = (if 0 \<le> v \<and> v < 128 then Some [v] else None)"
| "run_lengths (v # w # rest) =
     (if 0 \<le> v \<and> v < 128 then map_option ((#) v) (run_lengths (w # rest))
      else if 128 \<le> v \<and> v < 256 \<and> 0 \<le> w \<and> w < 256 then map_option ((#) (256 * (v - 128) + w)) (run_lengths rest)
      else None)"

fun off_ranges :: "int \<Rightarrow> bool \<Rightarrow> int list \<Rightarrow> (int \<times> int) list" where
  "off_ranges pos current [] = (if current then [] else [(pos, 0x10000)])"
| "off_ranges pos current (n # ns) =
     (if current then [] else [(pos, pos + n)]) @ off_ranges (pos + n) (\<not> current) ns"

definition in_ranges :: "int \<Rightarrow> (int \<times> int) list \<Rightarrow> bool" where
  "in_ranges x rs = list_ex (\<lambda>(a, b). a \<le> x \<and> x < b) rs"

definition table_ok :: "(int \<times> nat) list \<Rightarrow> int list \<Rightarrow> int list \<Rightarrow> bool" where
  "table_ok ss lowers normal \<longleftrightarrow>
     sorted_wrt (<) (map fst ss) \<and> sum_list (map snd ss) = length lowers \<and>
     list_all (\<lambda>l. 0 \<le> l \<and> l < 256) lowers \<and> list_all (\<lambda>(u, n). 0 \<le> u \<and> u < 256) ss \<and> run_lengths normal \<noteq> None"

lemma tables_ok: "table_ok singletons0 singletons0_lower normal0" "table_ok singletons1 singletons1_lower normal1"
  by code_simp+

section \<open>The loops find what the tables say\<close>

lemma run_byte:
  assumes "0 \<le> v" "v < (256 :: int)"
  shows "v AND 0x80 = 0 \<longleftrightarrow> v < 128"
    and "128 \<le> v \<Longrightarrow> 0 \<le> w \<Longrightarrow> w < 256 \<Longrightarrow> push_bit 8 (v AND 0x7f) OR w = 256 * (v - 128) + w"
proof -
  have "v AND 2 ^ 7 = 0 \<longleftrightarrow> \<not> bit v 7" by (rule and_exp_eq_0_iff_not_bit)
  also have "\<not> bit v 7 \<longleftrightarrow> v < 128" using assms by (simp add: bit_iff_odd) presburger
  finally show "v AND 0x80 = 0 \<longleftrightarrow> v < 128" by simp
  assume v: "128 \<le> v" and w: "0 \<le> w" "w < 256"
  have "(0x7f :: int) = mask 7" by (simp add: mask_eq_exp_minus_1)
  then have "v AND 0x7f = v mod 2 ^ 7" by (simp only: take_bit_eq_mask[symmetric] take_bit_eq_mod)
  then have a: "v AND 0x7f = v - 128" using assms v by simp presburger
  have "take_bit 8 w = w" using w by (simp add: take_bit_int_eq_self_iff)
  then have w8: "bit w n \<Longrightarrow> n < 8" for n by (metis bit_take_bit_iff)
  have "push_bit 8 (v - 128) OR w = push_bit 8 (v - 128) + w"
    by (intro disjunctive_add[symmetric]) (auto simp: bit_push_bit_iff dest: w8)
  then show "push_bit 8 (v AND 0x7f) OR w = 256 * (v - 128) + w" by (simp add: a push_bit_eq_mult)
qed

lemma off_ranges_below:
  "y < pos \<Longrightarrow> list_all (\<lambda>n. 0 \<le> n) ns \<Longrightarrow> \<not> in_ranges y (off_ranges pos cur ns)"
  by (induction pos cur ns rule: off_ranges.induct) (auto simp: in_ranges_def)

lemma off_ranges_step:
  assumes "0 \<le> x" "0 \<le> n" "list_all (\<lambda>n. 0 \<le> n) ns"
  shows "in_ranges (pos + x) (off_ranges pos cur (n # ns)) =
    (if x - n < 0 then \<not> cur else in_ranges (pos + x) (off_ranges (pos + n) (\<not> cur) ns))"
  using off_ranges_below[of "pos + x" "pos + n" ns "\<not> cur"] assms by (auto simp: in_ranges_def)

lemma run_lengths_nonneg: "run_lengths t = Some ns \<Longrightarrow> list_all (\<lambda>n. 0 \<le> n) ns"
  by (induction t arbitrary: ns rule: run_lengths.induct) (auto split: if_splits)

lemma run_loop_ranges:
  assumes "run_lengths t = Some ns" "0 \<le> x" "pos + x < 0x10000"
  shows "run_loop t x cur = (\<not> in_ranges (pos + x) (off_ranges pos cur ns))"
  using assms
proof (induction t arbitrary: ns x pos cur rule: run_lengths.induct)
  case 1
  then show ?case by (auto simp: in_ranges_def)
next
  case (2 v)
  then show ?case by (auto simp: in_ranges_def split: if_splits)
next
  case (3 v w rest)
  show ?case
  proof (cases "0 \<le> v \<and> v < 128")
    case True
    then obtain ms where ms: "run_lengths (w # rest) = Some ms" "ns = v # ms" using 3(3) by auto
    have b: "v AND 0x80 = 0" using run_byte(1)[of v] True by simp
    have IH: "run_loop (w # rest) y c = (\<not> in_ranges (p + y) (off_ranges p c ms))"
      if "0 \<le> y" "p + y < 0x10000" for y p c
      using 3(1)[OF True] ms(1) that by blast
    show ?thesis
      using IH[of "x - v" "pos + v" "\<not> cur"] 3(4,5) True b
        off_ranges_step[of x v ms pos cur] run_lengths_nonneg[OF ms(1)]
      by (auto simp: ms(2) Let_def)
  next
    case False
    then have v: "128 \<le> v" "v < 256" "0 \<le> w" "w < 256" using 3(3) by (auto split: if_splits)
    then obtain ms where ms: "run_lengths rest = Some ms" "ns = (256 * (v - 128) + w) # ms" using 3(3) False by auto
    have b: "v AND 0x80 \<noteq> 0" "push_bit 8 (v AND 0x7f) OR w = 256 * (v - 128) + w"
      using run_byte(1)[of v] run_byte(2)[of v w] v by auto
    have IH: "run_loop rest y c = (\<not> in_ranges (p + y) (off_ranges p c ms))" if "0 \<le> y" "p + y < 0x10000" for y p c
      using 3(2)[OF False _ ms(1)] v that by blast
    show ?thesis
      using IH[of "x - (256 * (v - 128) + w)" "pos + (256 * (v - 128) + w)" "\<not> cur"]
        3(4,5) v b off_ranges_step[of x "256 * (v - 128) + w" ms pos cur] run_lengths_nonneg[OF ms(1)]
      by (auto simp: ms(2) Let_def)
  qed
qed

text \<open>Code point and high byte.\<close>

lemma high_low:
  assumes "0 \<le> u" "0 \<le> l" "l < 256" "0 \<le> (x :: int)"
  shows "256 * u + l = x \<longleftrightarrow> drop_bit 8 x = u \<and> l = x AND 0xff"
proof -
  have "(0xff :: int) = mask 8" by (simp add: mask_eq_exp_minus_1)
  then have "x AND 0xff = x mod 2 ^ 8" by (simp only: take_bit_eq_mask[symmetric] take_bit_eq_mod)
  then have "x AND 0xff = x mod 256" by simp
  then have "drop_bit 8 x = u \<and> l = x AND 0xff \<longleftrightarrow> x div 256 = u \<and> l = x mod 256" by (simp add: drop_bit_eq_div)
  also have "\<dots> \<longleftrightarrow> 256 * u + l = x" using assms(2,3) by auto
  finally show ?thesis by simp
qed

lemma singles_high: "x \<in> set (singles ss lowers) \<Longrightarrow> list_all (\<lambda>l. 0 \<le> l \<and> l < 256) lowers \<Longrightarrow>
    list_all (\<lambda>(u, n). 0 \<le> u) ss \<Longrightarrow> 0 \<le> x \<and> drop_bit 8 x \<in> fst ` set ss"
proof (induction ss arbitrary: lowers)
  case (Cons un ss)
  obtain u n where [simp]: "un = (u, n)" by fastforce
  have "list_all (\<lambda>l. 0 \<le> l \<and> l < 256) (drop n lowers)"
    using Cons.prems(2) by (auto simp: list_all_iff dest: in_set_dropD)
  moreover have "x \<in> set (singles ss (drop n lowers)) \<or> (\<exists>l\<in>set (take n lowers). 256 * u + l = x)"
    using Cons.prems(1) by auto
  moreover have "0 \<le> 256 * u + l \<and> drop_bit 8 (256 * u + l) = u" if "l \<in> set (take n lowers)" for l
    using that Cons.prems(2,3) high_low[of u l "256 * u + l"] by (auto simp: list_all_iff dest!: in_set_takeD)
  ultimately show ?case using Cons.IH[of "drop n lowers"] Cons.prems(3) by force
qed simp

lemma singleton_found_singles:
  assumes "sorted_wrt (<) (map fst ss)" "ls + sum_list (map snd ss) = length lowers"
    "list_all (\<lambda>l. 0 \<le> l \<and> l < 256) lowers" "list_all (\<lambda>(u, n). 0 \<le> u \<and> u < 256) ss" "0 \<le> x"
  shows "singleton_found ss lowers x ls \<longleftrightarrow> x \<in> set (singles ss (drop ls lowers))"
  using assms
proof (induction ss arbitrary: ls)
  case (Cons un ss)
  obtain u n where un [simp]: "un = (u, n)" by fastforce
  have len: "ls + n \<le> length lowers" using Cons.prems(2) by simp
  have d: "list_all (\<lambda>l. 0 \<le> l \<and> l < 256) (drop (ls + n) lowers)"
    using Cons.prems(3) by (auto simp: list_all_iff dest: in_set_dropD)
  have t: "set (take n (drop ls lowers)) = {lowers ! j | j. j \<in> {ls..<ls + n}}"
  proof -
    have "take n (drop ls lowers) = map ((!) lowers) [ls..<ls + n]"
      using len by (auto intro: nth_equalityI)
    then show ?thesis by (auto simp only: set_map set_upt)
  qed
  have low: "0 \<le> lowers ! j \<and> lowers ! j < 256" if "j < ls + n" for j
    using that len Cons.prems(3) by (auto simp: list_all_iff)
  have here: "(\<exists>l\<in>set (take n (drop ls lowers)). 256 * u + l = x) \<longleftrightarrow>
      drop_bit 8 x = u \<and> list_ex (\<lambda>j. lowers ! j = x AND 0xff) [ls..<ls + n]"
  proof -
    have "256 * u + lowers ! j = x \<longleftrightarrow> drop_bit 8 x = u \<and> lowers ! j = x AND 0xff" if "j \<in> {ls..<ls + n}" for j
      using high_low[of u "lowers ! j" x] low[of j] that Cons.prems(4,5) by simp
    then show ?thesis unfolding t list_ex_iff by (simp only: set_upt) blast
  qed
  have rest: "x \<notin> set (singles ss (drop (ls + n) lowers))" if "drop_bit 8 x \<le> u"
    using singles_high[OF _ d, of x ss] that Cons.prems(1,4) by (fastforce simp: list_all_iff)
  have "singleton_found ss lowers x (ls + n) \<longleftrightarrow> x \<in> set (singles ss (drop (ls + n) lowers))"
    using Cons.prems by (intro Cons.IH) auto
  then show ?case using here rest by (simp add: Let_def add.commute) (auto simp: image_iff)
qed simp

definition unprintable_in :: "(int \<times> nat) list \<Rightarrow> int list \<Rightarrow> int list \<Rightarrow> int \<Rightarrow> bool" where
  "unprintable_in ss lowers normal x \<longleftrightarrow>
     x \<in> set (singles ss lowers) \<or> in_ranges x (off_ranges 0 True (the (run_lengths normal)))"

lemma is_printable16_table:
  assumes "table_ok ss lowers normal"
  shows "is_printable16 x ss lowers normal \<longleftrightarrow> \<not> unprintable_in ss lowers normal (uint x)"
proof -
  obtain ns where ns: "run_lengths normal = Some ns" using assms by (auto simp: table_ok_def)
  have "uint x < 0x10000" using uint_lt2p[of x] by simp
  then have "run_loop normal (uint x) True = (\<not> in_ranges (uint x) (off_ranges 0 True ns))"
    using run_loop_ranges[OF ns, of "uint x" 0 True] by simp
  moreover have "singleton_found ss lowers (uint x) 0 \<longleftrightarrow> uint x \<in> set (singles ss lowers)"
    using singleton_found_singles[of ss 0 lowers "uint x"] assms by (simp add: table_ok_def)
  ultimately show ?thesis by (simp add: is_printable16_def unprintable_in_def ns)
qed

section \<open>ASCII\<close>

lemma ascii_plane:
  "list_all (\<lambda>x. singleton_found singletons0 singletons0_lower x 0 \<or> \<not> run_loop normal0 x True) [0..31]"
  "list_all (\<lambda>x. \<not> singleton_found singletons0 singletons0_lower x 0 \<and> run_loop normal0 x True) [32..126]"
  "singleton_found singletons0 singletons0_lower 127 0 \<or> \<not> run_loop normal0 127 True"
  by code_simp+

lemma is_printable_plane:
  assumes "uint cp < 0x10000"
  shows "is_printable cp \<longleftrightarrow> \<not> singleton_found singletons0 singletons0_lower (uint cp) 0 \<and> run_loop normal0 (uint cp) True"
proof -
  have "uint (ucast cp :: 16 word) = uint cp"
    using assms by (simp add: unsigned_ucast_eq take_bit_int_eq_self_iff)
  moreover have "cp < 0x10000" using assms by (simp add: word_less_def)
  ultimately show ?thesis by (simp add: is_printable_def is_printable16_def)
qed

text \<open>The control characters of the upper half, the separators of lines and paragraphs and the controls of the direction.\<close>

lemma hidden_plane:
  "list_all (\<lambda>x. singleton_found singletons0 singletons0_lower x 0 \<or> \<not> run_loop normal0 x True) [0x7f..0x9f]"
  "list_all (\<lambda>x. singleton_found singletons0 singletons0_lower x 0 \<or> \<not> run_loop normal0 x True) [0x2028..0x202e]"
  "list_all (\<lambda>x. singleton_found singletons0 singletons0_lower x 0 \<or> \<not> run_loop normal0 x True) [0x2066..0x2069]"
  by code_simp+

lemma is_printable_hidden:
  assumes "0x7f \<le> cp \<and> cp \<le> 0x9f \<or> 0x2028 \<le> cp \<and> cp \<le> 0x202e \<or> 0x2066 \<le> cp \<and> cp \<le> 0x2069"
  shows "\<not> is_printable cp"
proof -
  have "uint cp \<in> set [0x7f..0x9f] \<or> uint cp \<in> set [0x2028..0x202e] \<or> uint cp \<in> set [0x2066..0x2069]"
    using assms unfolding set_upto atLeastAtMost_iff word_le_def by auto
  then have "singleton_found singletons0 singletons0_lower (uint cp) 0 \<or> \<not> run_loop normal0 (uint cp) True"
    using hidden_plane unfolding list_all_iff by blast
  moreover have "uint cp < 0x10000" using assms by (auto simp: word_le_def)
  ultimately show ?thesis by (simp add: is_printable_plane)
qed

lemma is_printable_ascii: "cp < 0x80 \<Longrightarrow> is_printable cp \<longleftrightarrow> 0x20 \<le> cp \<and> cp \<noteq> 0x7f"
proof -
  assume c: "cp < 0x80"
  then have u: "uint cp < 128" by (simp add: word_less_def)
  have z: "0 \<le> uint cp" by simp
  have p: "is_printable cp \<longleftrightarrow>
      \<not> singleton_found singletons0 singletons0_lower (uint cp) 0 \<and> run_loop normal0 (uint cp) True"
    using u by (intro is_printable_plane) simp
  have le: "0x20 \<le> cp \<longleftrightarrow> 32 \<le> uint cp" "cp = 0x7f \<longleftrightarrow> uint cp = 127"
    by (simp_all add: word_le_def word_uint_eq_iff)
  have "uint cp \<in> set [0..31] \<or> uint cp \<in> set [32..126] \<or> uint cp = 127"
    using u z unfolding set_upto atLeastAtMost_iff by linarith
  then consider "uint cp \<in> set [0..31]" | "uint cp \<in> set [32..126]" | "uint cp = 127"
    by blast
  then show ?thesis
  proof cases
    case 1
    then have "uint cp \<le> 31" unfolding set_upto by simp
    then show ?thesis using bspec[OF ascii_plane(1)[unfolded list_all_iff] 1] p le by auto
  next
    case 2
    then have "32 \<le> uint cp" "uint cp \<le> 126" unfolding set_upto by simp_all
    then show ?thesis using bspec[OF ascii_plane(2)[unfolded list_all_iff] 2] p le by auto
  next
    case 3
    then show ?thesis using ascii_plane(3) p le by auto
  qed
qed

section \<open>Properties\<close>

definition upper_gaps :: "(int \<times> int) list" where
  "upper_gaps = [(0x2a6de, 0x2a700), (0x2b735, 0x2b740), (0x2b81e, 0x2b820), (0x2cea2, 0x2ceb0),
     (0x2ebe1, 0x2f800), (0x2fa1e, 0x30000), (0x3134b, 0xe0100), (0xe01f0, 0x100000000)]"

text \<open>The compressed tables are well formed (no read past an end, high bytes in order, as the early
  exit needs) and \<open>is_printable\<close> is false exactly for the single code points they list, for the
  decoded runs of the other kind, and for the gaps above the second plane.\<close>

theorem is_printable_tables:
  "table_ok singletons0 singletons0_lower normal0 \<and> table_ok singletons1 singletons1_lower normal1 \<and>
   is_printable cp = (let x = uint cp in
     if x < 0x10000 then \<not> unprintable_in singletons0 singletons0_lower normal0 x
     else if x < 0x20000 then \<not> unprintable_in singletons1 singletons1_lower normal1 (x - 0x10000)
     else \<not> in_ranges x upper_gaps)"
proof -
  have w: "cp < of_nat k \<longleftrightarrow> uint cp < int k" if "k < 2 ^ 32" for k
    using that by (simp add: word_less_def unsigned_of_nat take_bit_nat_eq_self)
  have u: "uint (ucast cp :: 16 word) = uint cp mod 0x10000"
    by (simp add: unsigned_ucast_eq take_bit_eq_mod)
  have b: "cp < 0x10000 \<longleftrightarrow> uint cp < 0x10000" "cp < 0x20000 \<longleftrightarrow> uint cp < 0x20000"
    using w[of "0x10000"] w[of "0x20000"] by simp_all
  have r: "uint (ucast cp :: 16 word) = uint cp" if "uint cp < 0x10000"
    using that by (simp add: u)
  have r1: "uint (ucast cp :: 16 word) = uint cp - 0x10000" if "\<not> uint cp < 0x10000" "uint cp < 0x20000"
  proof -
    have "uint cp mod 0x10000 = (uint cp - 0x10000) mod 0x10000" using that by (intro mod_pos_geq) simp_all
    also have "\<dots> = uint cp - 0x10000" using that by (intro mod_pos_pos_trivial) simp_all
    finally show ?thesis by (simp only: u)
  qed
  have hi: "is_printable cp \<longleftrightarrow> \<not> in_ranges (uint cp) upper_gaps" if "\<not> cp < 0x20000"
  proof -
    have "\<not> cp < 0x10000" using that b by simp
    then show ?thesis using that uint_lt2p[of cp]
      by (simp add: is_printable_def in_ranges_def upper_gaps_def word_less_def word_le_def) auto
  qed
  show ?thesis
    using tables_ok is_printable16_table[OF tables_ok(1)] is_printable16_table[OF tables_ok(2)] r r1 hi b
    by (auto simp: is_printable_def Let_def)
qed

end
