(* ===== verification/Fmt_Write.thy ===== *)
theory Fmt_Write
  imports Fmt_Parse Fmt_Args Fmt_Digits Fmt_Utf8 Fmt_Printable
begin

text \<open>
  \<open>fmt/format.h\<close>: writing one argument with its specifiers.  The output iterator of the code is an
  appender, so a writer is modelled by the text it appends; reserving space has no other effect
  and is left out.  What a locale provides (\<open>numpunct\<close>, an installed \<open>format_facet\<close>) is a
  parameter.
\<close>

section \<open>Padding\<close>

definition to_unsigned :: "int \<Rightarrow> u32" where
  "to_unsigned v = word_of_int v"

definition fill :: "nat \<Rightarrow> 'a specs_scheme \<Rightarrow> string" where
  "fill n sp =
     (if fill_size sp = 1 then replicate n (fill_unit sp) else concat (replicate n (spec_fill sp)))"

text \<open>The shift for each alignment; the one of \<open>numeric\<close> is the terminator of the string literal.\<close>

definition padding_shifts :: "align \<Rightarrow> nat list" where
  "padding_shifts default_align =
     (if default_align = A_left then [0x1f, 0x1f, 0x00, 0x01, 0x00] else [0x00, 0x1f, 0x00, 0x01, 0x00])"

definition write_padded :: "align \<Rightarrow> 'a specs_scheme \<Rightarrow> nat \<Rightarrow> string \<Rightarrow> string" where
  "write_padded default_align sp width f =
     (let spec_width = unat (to_unsigned (sp_width sp));
          padding = (if spec_width > width then spec_width - width else 0);
          left_padding = drop_bit (padding_shifts default_align ! unat (align_code (spec_align sp))) padding;
          right_padding = padding - left_padding
      in (if left_padding \<noteq> 0 then fill left_padding sp else []) @ f @
         (if right_padding \<noteq> 0 then fill right_padding sp else []))"

definition write_bytes :: "align \<Rightarrow> 'a specs_scheme \<Rightarrow> string \<Rightarrow> string" where
  "write_bytes default_align sp bytes = write_padded default_align sp (length bytes) bytes"

section \<open>Pointers\<close>

text \<open>\<open>format_base2e\<close> to an iterator: through a local array.\<close>

definition append_base2e :: "nat \<Rightarrow> nat \<Rightarrow> nat \<Rightarrow> bool \<Rightarrow> string" where
  "append_base2e base_bits v num_digits upper =
     take num_digits (format_base2e base_bits (replicate num_digits (CHR 0x00)) v num_digits upper)"

definition write_ptr :: "u64 \<Rightarrow> 'a specs_scheme option \<Rightarrow> string" where
  "write_ptr v sp =
     (let num_digits = nat (count_digits_base 4 (unat v));
          f = ''0x'' @ append_base2e 4 (unat v) num_digits False
      in case sp of Some sp \<Rightarrow> write_padded A_right sp (num_digits + 2) f | None \<Rightarrow> f)"

section \<open>Escaping\<close>

definition needs_escape :: "code_point \<Rightarrow> bool" where
  "needs_escape cp =
     (if cp < 0x20 \<or> cp = 0x7f \<or> cp = 0x22 \<or> cp = 0x5c then True else \<not> is_printable cp)"

text \<open>\<open>find_escape_result\<close>; the pointers are offsets into the text that is searched.\<close>

record find_escape_result =
  fe_begin :: nat
  fe_end :: "nat option"
  fe_cp :: code_point

definition escape_visitor :: "string \<Rightarrow> find_escape_result visitor" where
  "escape_visitor s cp sv rest result =
     (if needs_escape cp then
        (False, \<lparr>fe_begin = length s - length rest - length sv, fe_end = Some (length s - length rest), fe_cp = cp\<rparr>)
      else (True, result))"

definition find_escape :: "string \<Rightarrow> find_escape_result" where
  "find_escape s =
     for_each_codepoint (escape_visitor s) s \<lparr>fe_begin = length s, fe_end = None, fe_cp = 0\<rparr>"

definition write_codepoint :: "nat \<Rightarrow> char \<Rightarrow> nat \<Rightarrow> string" where
  "write_codepoint width prefix cp =
     CHR 0x5C # prefix # format_base2e 4 (replicate width (CHR ''0'')) cp width False"

text \<open>\<open>bytes\<close> is the text between \<open>begin\<close> and \<open>end\<close> of the escape.\<close>

definition write_escaped_cp :: "code_point \<Rightarrow> string \<Rightarrow> string" where
  "write_escaped_cp cp bytes =
     (let c = cp_char cp
      in if cp = 0x0a then [CHR 0x5C, CHR ''n'']
         else if cp = 0x0d then [CHR 0x5C, CHR ''r'']
         else if cp = 0x09 then [CHR 0x5C, CHR ''t'']
         else if cp = 0x22 \<or> cp = 0x27 \<or> cp = 0x5c then [CHR 0x5C, c]
         else if cp < 0x100 then write_codepoint 2 (CHR ''x'') (unat cp)
         else if cp < 0x10000 then write_codepoint 4 (CHR ''u'') (unat cp)
         else if cp < 0x110000 then write_codepoint 8 (CHR ''U'') (unat cp)
         else concat (map (\<lambda>b. write_codepoint 2 (CHR ''x'') (of_char b)) bytes))"

text \<open>The search, over the segments of the text: the first one that has to be escaped.\<close>

lemma segments_drop: "segments s = (cp, sv) # segs \<Longrightarrow> segs = segments (drop (length sv) s) \<and> sv \<noteq> [] \<and> s = sv @ drop (length sv) s"
proof -
  assume s: "segments s = (cp, sv) # segs"
  then have "s \<noteq> []" by auto
  obtain c k where k: "first_cp s = (c, k)" by fastforce
  have "k \<le> length s" by (rule first_cp_fits[OF \<open>s \<noteq> []\<close> k])
  then show ?thesis using s segments_step[OF \<open>s \<noteq> []\<close> k] first_cp_pos[OF k] \<open>s \<noteq> []\<close> by auto
qed

lemma find_escape_walk:
  assumes "length (concat (map snd segs)) \<le> length s"
  shows "walk (escape_visitor s) segs r =
    (case dropWhile (\<lambda>(cp, sv). \<not> needs_escape cp) segs of
       [] \<Rightarrow> r
     | (cp, sv) # rest \<Rightarrow>
         \<lparr>fe_begin = length s - length (concat (map snd rest)) - length sv,
          fe_end = Some (length s - length (concat (map snd rest))), fe_cp = cp\<rparr>)"
  using assms by (induction segs) (auto simp: escape_visitor_def)

lemma find_escape_end:
  assumes "fe_end (find_escape s) = Some e"
  shows "0 < e"
proof -
  let ?d = "dropWhile (\<lambda>(cp, sv). \<not> needs_escape cp) (segments s)"
  have f: "find_escape s = walk (escape_visitor s) (segments s) \<lparr>fe_begin = length s, fe_end = None, fe_cp = 0\<rparr>"
    by (simp add: find_escape_def for_each_codepoint_walk)
  obtain cp sv rest where d: "?d = (cp, sv) # rest"
    using assms unfolding f by (subst (asm) find_escape_walk) (auto split: list.splits)
  have "list_all (\<lambda>(cp, sv). sv \<noteq> []) (segments s)"
  proof (induction s rule: segments.induct)
    case (1 s)
    obtain c k where k: "first_cp s = (c, k)" by fastforce
    show ?case
    proof (cases "s = []")
      case False
      then show ?thesis using 1[OF False k[symmetric] refl] first_cp_pos[OF k] segments_step[OF False k] by simp
    qed simp
  qed
  then have "list_all (\<lambda>(cp, sv). sv \<noteq> []) ?d" by (auto simp: list_all_iff dest: set_dropWhileD)
  then have "sv \<noteq> []" using d by simp
  have "concat (map snd (takeWhile (\<lambda>(cp, sv). \<not> needs_escape cp) (segments s) @ ?d)) = s" by simp
  then have "length s = length (concat (map snd (takeWhile (\<lambda>(cp, sv). \<not> needs_escape cp) (segments s)))) +
      length sv + length (concat (map snd rest))"
    unfolding d map_append concat_append by (metis append_assoc concat.simps(2) length_append list.simps(9) snd_conv)
  then have "0 < length s - length (concat (map snd rest))" using \<open>sv \<noteq> []\<close> by (cases sv) auto
  then show ?thesis using assms d unfolding f by (subst (asm) find_escape_walk) auto
qed

function escaped_loop :: "string \<Rightarrow> string" where
  "escaped_loop s =
     (let escape = find_escape s
      in take (fe_begin escape) s @
         (case fe_end escape of
            None \<Rightarrow> []
          | Some e \<Rightarrow>
              write_escaped_cp (fe_cp escape) (drop (fe_begin escape) (take e s)) @
              (if drop e s \<noteq> [] then escaped_loop (drop e s) else [])))"
  by auto
termination
  by (relation "measure length") (auto dest: find_escape_end)

declare escaped_loop.simps [simp del]

definition write_escaped_string :: "string \<Rightarrow> string" where
  "write_escaped_string s = [CHR 0x22] @ escaped_loop s @ [CHR 0x22]"

text \<open>\<open>static_cast<uint32_t>(v)\<close> of a \<open>char\<close>, which is signed.\<close>

definition char_u32 :: "char \<Rightarrow> u32" where
  "char_u32 v = scast (of_nat (of_char v) :: u8)"

definition write_escaped_char :: "char \<Rightarrow> string" where
  "write_escaped_char v =
     [CHR 0x27] @
     (if (needs_escape (char_u32 v) \<and> v \<noteq> CHR 0x22) \<or> v = CHR 0x27
      then write_escaped_cp (char_u32 v) [v] else [v]) @ [CHR 0x27]"

definition write_char :: "char \<Rightarrow> 'a specs_scheme \<Rightarrow> string" where
  "write_char v sp =
     (let is_debug = spec_type sp = pres_debug
      in write_padded A_left sp 1 (if is_debug then write_escaped_char v else [v]))"

section \<open>Digit grouping\<close>

text \<open>\<open>grouping_\<close> holds the values of its characters.  The iterator of \<open>next_state\<close> is what is left
  of it.\<close>

record digit_grouping =
  dg_grouping :: "int list"
  dg_thousands_sep :: string

definition max_int :: int where "max_int = 2147483647"

definition initial_state :: "digit_grouping \<Rightarrow> int list \<times> int" where
  "initial_state g = (dg_grouping g, 0)"

definition next_sep :: "digit_grouping \<Rightarrow> int list \<times> int \<Rightarrow> int \<times> int list \<times> int" where
  "next_sep g = (\<lambda>(group, pos).
     if dg_thousands_sep g = [] then (max_int, group, pos)
     else case group of
            [] \<Rightarrow> (let pos = pos + last (dg_grouping g) in (pos, group, pos))
          | v # group' \<Rightarrow>
              if v \<le> 0 \<or> v = 127 then (max_int, group, pos)
              else (let pos = pos + v in (pos, group', pos)))"

definition has_separator :: "digit_grouping \<Rightarrow> bool" where
  "has_separator g \<longleftrightarrow> dg_thousands_sep g \<noteq> []"

partial_function (option) count_loop :: "digit_grouping \<Rightarrow> int \<Rightarrow> int list \<times> int \<Rightarrow> int \<Rightarrow> int option" where
  "count_loop g num_digits st count =
     (case next_sep g st of (i, st) \<Rightarrow>
        if num_digits > i then count_loop g num_digits st (count + 1) else Some count)"

declare count_loop.simps [code]

definition count_separators :: "digit_grouping \<Rightarrow> int \<Rightarrow> int option" where
  "count_separators g num_digits = count_loop g num_digits (initial_state g) 0"

text \<open>\<open>apply\<close>: the positions of the separators, from the right, then the digits.\<close>

partial_function (option) separators_loop ::
    "digit_grouping \<Rightarrow> int \<Rightarrow> int list \<times> int \<Rightarrow> int list \<Rightarrow> int list option" where
  "separators_loop g num_digits st separators =
     (case next_sep g st of (i, st) \<Rightarrow>
        if i = 0 then Some separators
        else if i \<ge> num_digits then Some separators
        else separators_loop g num_digits st (separators @ [i]))"

declare separators_loop.simps [code]

text \<open>The length of the rest is \<open>num_digits - i\<close>.\<close>

fun group_digits :: "digit_grouping \<Rightarrow> int list \<Rightarrow> nat \<Rightarrow> string \<Rightarrow> string" where
  "group_digits g separators sep_index [] = []"
| "group_digits g separators sep_index (d # digits) =
     (if int (length (d # digits)) = separators ! sep_index
      then dg_thousands_sep g @ d # group_digits g separators (sep_index - 1) digits
      else d # group_digits g separators sep_index digits)"

definition apply_grouping :: "digit_grouping \<Rightarrow> string \<Rightarrow> string option" where
  "apply_grouping g digits =
     map_option (\<lambda>separators. group_digits g separators (length separators - 1) digits)
       (separators_loop g (int (length digits)) (initial_state g) [0])"

section \<open>Integers\<close>

definition prefix_append :: "u32 \<Rightarrow> u32 \<Rightarrow> u32" where
  "prefix_append prefix v =
     (let prefix = prefix OR (if prefix \<noteq> 0 then push_bit 8 v else v)
      in prefix + push_bit 24 (1 + (if v > 0xff then 1 else 0)))"

function prefix_chars :: "u32 \<Rightarrow> string" where
  "prefix_chars p = (if p \<noteq> 0 then cp_char (p AND 0xff) # prefix_chars (drop_bit 8 p) else [])"
  by auto
termination
proof (relation "measure unat")
  fix p :: u32 assume "p \<noteq> 0"
  then have "0 < unat p" by (simp add: unat_gt_0)
  then show "(drop_bit 8 p, p) \<in> measure unat"
    by (simp only: in_measure unat_drop_bit) (rule div_less_dividend, simp_all)
qed simp

declare prefix_chars.simps [simp del]

definition prefix_text :: "u32 \<Rightarrow> string" where
  "prefix_text prefix = prefix_chars (prefix AND 0xffffff)"

text \<open>\<open>write_int_arg\<close>: the absolute value and the prefix with its length in the high byte.\<close>

definition is_negative :: "bool \<Rightarrow> 'a::len word \<Rightarrow> bool" where
  "is_negative is_signed v \<longleftrightarrow> is_signed \<and> sint v < 0"

definition sign_prefixes :: "u32 list" where
  "sign_prefixes = [0, 0, 0x1000000 OR 0x2b, 0x1000000 OR 0x20]"

definition make_write_int_arg :: "bool \<Rightarrow> 'a::len word \<Rightarrow> sgn \<Rightarrow> nat \<times> u32" where
  "make_write_int_arg is_signed v s =
     (if is_negative is_signed v then (unat (0 - v), 0x01000000 OR 0x2d)
      else (unat v, sign_prefixes ! unat (sgn_code s)))"

text \<open>\<open>count_digits\<close> is overloaded on the width of its argument.  In the grouped writer the presentations that do not fit an integer run into a
  failed assertion and, without assertions, into the decimal case.\<close>

definition alt_prefix :: "'a specs_scheme \<Rightarrow> char \<Rightarrow> char \<Rightarrow> u32" where
  "alt_prefix sp upper lower = push_bit 8 (of_nat (of_char (if spec_upper sp then upper else lower))) OR 0x30"

definition count_digits :: "nat \<Rightarrow> nat \<Rightarrow> nat" where
  "count_digits num_bits v =
     nat (if num_bits = 32 then do_count_digits32 (of_nat v)
          else if num_bits = 64 then do_count_digits64 (of_nat v)
          else count_digits_fallback v)"

definition write_int_grouped :: "nat \<Rightarrow> nat \<Rightarrow> u32 \<Rightarrow> 'a specs_scheme \<Rightarrow> digit_grouping \<Rightarrow> string option" where
  "write_int_grouped num_bits v prefix sp g =
     (let t = spec_type sp in
      if t = pres_chr then Some (write_char (char_of v) sp)
      else
        (let (prefix, num_digits, buffer) =
           (if t = pres_hex then
              let n = nat (count_digits_base 4 v)
              in (if spec_alt sp then prefix_append prefix (alt_prefix sp (CHR ''X'') (CHR ''x'')) else prefix,
                  n, append_base2e 4 v n (spec_upper sp))
            else if t = pres_oct then
              let n = nat (count_digits_base 3 v)
              in (if spec_alt sp \<and> sp_precision sp \<le> int n \<and> v \<noteq> 0 then prefix_append prefix 0x30 else prefix,
                  n, append_base2e 3 v n False)
            else if t = pres_bin then
              let n = nat (count_digits_base 1 v)
              in (if spec_alt sp then prefix_append prefix (alt_prefix sp (CHR ''B'') (CHR ''b'')) else prefix,
                  n, append_base2e 1 v n False)
            else
              let n = count_digits num_bits v in (prefix, n, format_decimal v n))
         in case count_separators g (int num_digits) of
              None \<Rightarrow> None
            | Some separators \<Rightarrow>
                let size = (if prefix \<noteq> 0 then drop_bit 24 prefix else 0) + of_nat num_digits + to_unsigned separators
                in map_option (\<lambda>digits. write_padded A_right sp (unat size) (prefix_text prefix @ digits))
                     (apply_grouping g buffer)))"

section \<open>Locales\<close>

text \<open>What the code gets from a \<open>std::locale\<close>: the \<open>numpunct\<close> facet, and the \<open>format_facet\<close> if one is
  installed.\<close>

record numpunct =
  np_grouping :: "int list"
  np_thousands_sep :: char
  np_decimal_point :: char

record format_facet =
  ff_separator :: string
  ff_grouping :: "int list"

record locale_data =
  lc_numpunct :: numpunct
  lc_facet :: "format_facet option"

definition thousands_sep_impl :: "locale_data \<Rightarrow> int list \<times> char" where
  "thousands_sep_impl loc =
     (let grouping = np_grouping (lc_numpunct loc)
      in (grouping, if grouping = [] then CHR 0x00 else np_thousands_sep (lc_numpunct loc)))"

definition decimal_point_impl :: "locale_data \<Rightarrow> char" where
  "decimal_point_impl loc = np_decimal_point (lc_numpunct loc)"

definition make_format_facet :: "locale_data \<Rightarrow> format_facet" where
  "make_format_facet loc =
     (let np = lc_numpunct loc
      in \<lparr>ff_separator = (if np_grouping np \<noteq> [] then [np_thousands_sep np] else []),
          ff_grouping = np_grouping np\<rparr>)"

definition grouping_of_locale :: "locale_data \<Rightarrow> bool \<Rightarrow> digit_grouping" where
  "grouping_of_locale loc localized =
     (if \<not> localized then \<lparr>dg_grouping = [], dg_thousands_sep = []\<rparr>
      else let (grouping, sep) = thousands_sep_impl loc
           in \<lparr>dg_grouping = grouping, dg_thousands_sep = (if sep \<noteq> CHR 0x00 then [sep] else [])\<rparr>)"

text \<open>\<open>loc_writer\<close> answers that it wrote the value only for integers.\<close>

definition loc_writer :: "format_facet \<Rightarrow> bool \<Rightarrow> 'b::len word \<Rightarrow> 'a specs_scheme \<Rightarrow> string option" where
  "loc_writer f is_signed v sp =
     (let (abs_value, prefix) = make_write_int_arg is_signed v (spec_sign sp)
      in write_int_grouped (if LENGTH('b) \<le> 64 then 64 else 128) abs_value prefix sp
           \<lparr>dg_grouping = ff_grouping f, dg_thousands_sep = ff_separator f\<rparr>)"

definition write_loc :: "locale_data \<Rightarrow> bool \<Rightarrow> 'b::len word \<Rightarrow> 'a specs_scheme \<Rightarrow> string option" where
  "write_loc loc is_signed v sp =
     (case lc_facet loc of
        Some f \<Rightarrow> loc_writer f is_signed v sp
      | None \<Rightarrow> loc_writer (make_format_facet loc) is_signed v sp)"

section \<open>Integers without grouping\<close>

definition size_padding :: "int \<Rightarrow> u32 \<Rightarrow> 'a specs_scheme \<Rightarrow> u32 \<times> u32" where
  "size_padding num_digits prefix sp =
     (let sz = drop_bit 24 prefix + to_unsigned num_digits; padding = 0
      in if spec_align sp = A_numeric then
           let width = to_unsigned (sp_width sp)
           in if width > sz then (width, width - sz) else (sz, padding)
         else if sp_precision sp > num_digits then
           (drop_bit 24 prefix + to_unsigned (sp_precision sp), to_unsigned (sp_precision sp - num_digits))
         else (sz, padding))"

text \<open>The digits are written to the end of a buffer with as many characters as the type has bits.\<close>

definition digits_of :: "string \<times> nat \<Rightarrow> string" where
  "digits_of = (\<lambda>(buffer, begin). drop begin buffer)"

definition write_int :: "nat \<Rightarrow> nat \<Rightarrow> u32 \<Rightarrow> 'a specs_scheme \<Rightarrow> string" where
  "write_int num_bits v prefix sp =
     (let t = spec_type sp; buffer = replicate num_bits (CHR 0x00)
      in if t = pres_chr then write_char (char_of v) sp
         else
           let (digits, prefix) =
             (if t = pres_hex then
                (digits_of (do_format_base2e 4 buffer v num_bits (spec_upper sp)),
                 if spec_alt sp then prefix_append prefix (alt_prefix sp (CHR ''X'') (CHR ''x'')) else prefix)
              else if t = pres_oct then
                let digits = digits_of (do_format_base2e 3 buffer v num_bits False)
                in (digits, if spec_alt sp \<and> sp_precision sp \<le> int (length digits) \<and> v \<noteq> 0
                            then prefix_append prefix 0x30 else prefix)
              else if t = pres_bin then
                (digits_of (do_format_base2e 1 buffer v num_bits False),
                 if spec_alt sp then prefix_append prefix (alt_prefix sp (CHR ''B'') (CHR ''b'')) else prefix)
              else (digits_of (do_format_decimal buffer v num_bits), prefix))
           in if to_unsigned (sp_width sp) OR to_unsigned (sp_precision sp + 1) = 0
              then prefix_text prefix @ digits
              else let (sz, padding) = size_padding (int (length digits)) prefix sp
                   in write_padded A_right sp (unat sz)
                        (prefix_text prefix @ replicate (unat padding) (CHR ''0'') @ digits))"

text \<open>An integral argument with specifiers.  \<open>None\<close>: the loop over a grouping does not end.\<close>

definition int_bits :: "'a::len itself \<Rightarrow> nat" where
  "int_bits t = (if LENGTH('a) \<le> 32 then 32 else if LENGTH('a) \<le> 64 then 64 else 128)"

definition write_integral :: "locale_data \<Rightarrow> bool \<Rightarrow> 'b::len word \<Rightarrow> 'a specs_scheme \<Rightarrow> string option" where
  "write_integral loc is_signed v sp =
     (if spec_localized sp then write_loc loc is_signed v sp
      else let (abs_value, prefix) = make_write_int_arg is_signed v (spec_sign sp)
           in Some (write_int (int_bits TYPE('b)) abs_value prefix sp))"

text \<open>Without specifiers.\<close>

definition write_integral_default :: "bool \<Rightarrow> 'b::len word \<Rightarrow> string" where
  "write_integral_default is_signed v =
     (let negative = is_negative is_signed v;
          abs_value = unat (if negative then NOT v + 1 else v);
          num_digits = count_digits (int_bits TYPE('b)) abs_value
      in (if negative then [CHR ''-''] else []) @ format_decimal abs_value num_digits)"

section \<open>Characters, strings and the rest\<close>

definition write_char_arg :: "locale_data \<Rightarrow> char \<Rightarrow> 'a specs_scheme \<Rightarrow> exn + string option" where
  "write_char_arg loc v sp =
     chain (check_char_specs sp) (\<lambda>as_char.
       if as_char then Inr (Some (write_char v sp))
       else Inr (write_integral loc False (of_nat (of_char v) :: u8) sp))"

text \<open>The scan of a string that has a width or a precision: its state is the display width so far and
  the size in bytes.\<close>

definition size_max :: nat where "size_max = 18446744073709551615"

definition width_visitor :: "bool \<Rightarrow> nat \<Rightarrow> (nat \<times> nat) visitor" where
  "width_visitor is_debug display_width_limit cp sv rest = (\<lambda>(display_width, size).
     if is_debug \<and> needs_escape cp then
       (let cp_width = length (write_escaped_cp cp sv)
        in if display_width + cp_width \<le> display_width_limit then
             (let display_width = display_width + cp_width; size = size + cp_width
              in if display_width < display_width_limit \<and> rest = []
                 then (True, display_width + 1, size + 1) else (True, display_width, size))
           else (False, display_width_limit, size + (display_width_limit - display_width)))
     else
       (let cp_width = display_width_of cp
        in if cp_width + display_width \<le> display_width_limit then
             (let display_width = display_width + cp_width; size = size + length sv
              in if is_debug \<and> display_width < display_width_limit \<and> rest = []
                 then (True, display_width + 1, size + 1) else (True, display_width, size))
           else (False, display_width, size)))"

text \<open>\<open>bounded_output_iterator\<close> drops what is written behind its bound.\<close>

definition write_string :: "string \<Rightarrow> 'a specs_scheme \<Rightarrow> string" where
  "write_string s sp =
     (let is_debug = spec_type sp = pres_debug
      in if sp_precision sp < 0 \<and> sp_width sp = 0 then
           (if is_debug then write_escaped_string s else s)
         else
           let display_width_limit = (if sp_precision sp < 0 then size_max else unat (to_unsigned (sp_precision sp)));
               start = (if \<not> is_debug \<or> sp_precision sp = 0 then 0 else 1);
               (display_width, size) = for_each_codepoint (width_visitor is_debug display_width_limit) s (start, start)
           in write_padded A_left sp display_width
                (if is_debug then take size (write_escaped_string s) else take size s))"

definition write_cstring :: "u64 \<Rightarrow> string \<Rightarrow> 'a specs_scheme \<Rightarrow> exn + string" where
  "write_cstring p s sp =
     (if spec_type sp = pres_pointer then Inr (write_ptr p (Some sp))
      else if p = 0 then fail ''string pointer is null''
      else Inr (write_string s sp))"

definition write_cstring_default :: "u64 \<Rightarrow> string \<Rightarrow> exn + string" where
  "write_cstring_default p s = (if p \<noteq> 0 then Inr s else fail ''string pointer is null'')"

text \<open>A \<open>bool\<close> printed as a number is printed with an empty locale reference, which is the global
  locale.\<close>

definition write_bool :: "locale_data \<Rightarrow> bool \<Rightarrow> 'a specs_scheme \<Rightarrow> string option" where
  "write_bool global v sp =
     (if spec_type sp \<noteq> pres_none \<and> spec_type sp \<noteq> pres_string
      then write_integral global True (if v then 1 else 0 :: u32) sp
      else Some (write_bytes A_left sp (if v then ''true'' else ''false'')))"

text \<open>\<open>getsign\<close>: a byte of a word that holds the three signs.\<close>

definition getsign :: "sgn \<Rightarrow> char" where
  "getsign s =
     cp_char (drop_bit (unat (sgn_code s) * 8) (push_bit 24 0x20 OR push_bit 16 0x2b OR push_bit 8 0x2d))"

definition write_nonfinite :: "bool \<Rightarrow> 'a specs_scheme \<Rightarrow> sgn \<Rightarrow> string" where
  "write_nonfinite isnan sp s =
     (let str = (if isnan then (if spec_upper sp then ''NAN'' else ''nan'')
                 else (if spec_upper sp then ''INF'' else ''inf''));
          size = 3 + (if s \<noteq> S_none then 1 else 0);
          is_zero_fill = (fill_size sp = 1 \<and> fill_unit sp = CHR ''0'');
          sp = (if is_zero_fill then set_fill_char (CHR '' '') sp else sp)
      in write_padded A_left sp size ((if s \<noteq> S_none then [getsign s] else []) @ str))"

end
