(* ===== verification/Fmt_Utf8_Spec.thy ===== *)
theory Fmt_Utf8_Spec
  imports Fmt_Utf8
begin

text \<open>
  UTF-8 as RFC 3629 has it, by division and remainder, and the proof that the branchless decoder of \<open>fmt\<close> accepts the
  encodings of the scalar values and nothing else.
\<close>

section \<open>The encoding\<close>

definition utf8_bytes :: "nat \<Rightarrow> string" where
  "utf8_bytes c =
     map char_of
       (if c < 0x80 then [c]
        else if c < 0x800 then [0xc0 + c div 64, 0x80 + c mod 64]
        else if c < 0x10000 then [0xe0 + c div 64 ^ 2, 0x80 + c div 64 mod 64, 0x80 + c mod 64]
        else [0xf0 + c div 64 ^ 3, 0x80 + c div 64 ^ 2 mod 64, 0x80 + c div 64 mod 64, 0x80 + c mod 64])"

lemma unat_low_bits:
  "unat (w AND 0x3f) = unat w mod 64" "unat (w AND 0xfff) = unat w mod 4096" "unat (w AND 0x3ffff) = unat w mod 262144"
  "unat (w AND 0x1f) = unat w mod 32" "unat (w AND 0x0f) = unat w mod 16" "unat (w AND 0x07) = unat w mod 8" for w :: u32
proof -
  have m: "unat (w AND mask k) = unat w mod 2 ^ k" for k
    by (simp only: take_bit_eq_mask[symmetric] unsigned_take_bit_eq take_bit_eq_mod[of k "unat w"])
  show "unat (w AND 0x3f) = unat w mod 64" "unat (w AND 0xfff) = unat w mod 4096" "unat (w AND 0x3ffff) = unat w mod 262144"
    "unat (w AND 0x1f) = unat w mod 32" "unat (w AND 0x0f) = unat w mod 16" "unat (w AND 0x07) = unat w mod 8"
    unfolding utf8_numerals m by simp_all
qed

lemma cont_plus: "unat x < 2 ^ 6 \<Longrightarrow> unat (0x80 OR x) = 128 + unat x" for x :: u32
proof -
  assume u: "unat x < 2 ^ 6"
  have "j < 7" if "bit x j" for j using less_exp_bits[OF u that] by simp
  then have "unat (push_bit 7 1 OR x) = unat (push_bit 7 1 :: u32) + unat x" by (rule or_plus)
  then show ?thesis by (simp only: utf8_numerals(1)[symmetric]) simp
qed

lemma digits_64:
  "c mod 4096 div 64 = c div 64 mod 64" "c mod 262144 div 4096 = c div 4096 mod 64" for c :: nat
proof -
  have "c mod 4096 = 64 * (c div 64 mod 64) + c mod 64" using mod_mult2_eq[of c 64 64] by simp
  then show "c mod 4096 div 64 = c div 64 mod 64" by simp
  have "c mod 262144 = 4096 * (c div 4096 mod 64) + c mod 4096" using mod_mult2_eq[of c 4096 64] by simp
  then show "c mod 262144 div 4096 = c div 4096 mod 64" by simp
qed

lemma cont_char:
  "cp_char (0x80 OR (c AND 0x3f)) = char_of (0x80 + unat c mod 64)"
  "cp_char (0x80 OR drop_bit 6 (c AND 0xfff)) = char_of (0x80 + unat c div 64 mod 64)"
  "cp_char (0x80 OR drop_bit 12 (c AND 0x3ffff)) = char_of (0x80 + unat c div 64 ^ 2 mod 64)"
proof -
  show "cp_char (0x80 OR (c AND 0x3f)) = char_of (0x80 + unat c mod 64)"
    unfolding cp_char_def cont_plus[OF low_6] unat_low_bits by simp
  have u: "unat (drop_bit 6 (c AND 0xfff)) = unat c div 64 mod 64"
    unfolding unat_drop_bit unat_low_bits digits_64[symmetric] by simp
  then have "unat (drop_bit 6 (c AND 0xfff)) < 2 ^ 6" by simp
  from cont_plus[OF this] show "cp_char (0x80 OR drop_bit 6 (c AND 0xfff)) = char_of (0x80 + unat c div 64 mod 64)"
    unfolding cp_char_def u by simp
  have v: "unat (drop_bit 12 (c AND 0x3ffff)) = unat c div 64 ^ 2 mod 64"
    unfolding unat_drop_bit unat_low_bits using digits_64(2)[of "unat c"] by simp
  then have "unat (drop_bit 12 (c AND 0x3ffff)) < 2 ^ 6" by simp
  from cont_plus[OF this] show "cp_char (0x80 OR drop_bit 12 (c AND 0x3ffff)) = char_of (0x80 + unat c div 64 ^ 2 mod 64)"
    unfolding cp_char_def v by simp
qed

lemma lead_char:
  "c < 0x800 \<Longrightarrow> cp_char (0xc0 OR drop_bit 6 c) = char_of (0xc0 + unat c div 64)"
  "c \<le> 0xffff \<Longrightarrow> cp_char (0xe0 OR drop_bit 12 c) = char_of (0xe0 + unat c div 64 ^ 2)"
  "c \<le> 0x10ffff \<Longrightarrow> cp_char (0xf0 OR drop_bit 18 c) = char_of (0xf0 + unat c div 64 ^ 3)"
proof -
  have d: "unat (drop_bit 6 c) = unat c div 64" "unat (drop_bit 12 c) = unat c div 64 ^ 2" "unat (drop_bit 18 c) = unat c div 64 ^ 3"
    by (simp_all add: unat_drop_bit)
  show "cp_char (0xc0 OR drop_bit 6 c) = char_of (0xc0 + unat c div 64)" if "c < 0x800"
  proof -
    have "unat (drop_bit 6 c) < 2 ^ 5" using that by (intro unat_drop_less) (simp add: word_less_nat_alt)
    from lead_word(1)[OF this] show ?thesis unfolding cp_char_def d by simp
  qed
  show "cp_char (0xe0 OR drop_bit 12 c) = char_of (0xe0 + unat c div 64 ^ 2)" if "c \<le> 0xffff"
  proof -
    have "unat (drop_bit 12 c) < 2 ^ 4" using that by (intro unat_drop_less) (simp add: word_le_nat_alt)
    from lead_word(2)[OF this] show ?thesis unfolding cp_char_def d by simp
  qed
  show "cp_char (0xf0 OR drop_bit 18 c) = char_of (0xf0 + unat c div 64 ^ 3)" if "c \<le> 0x10ffff"
  proof -
    have "unat (drop_bit 18 c) < 2 ^ 3" using that by (intro unat_drop_less) (simp add: word_le_nat_alt)
    from lead_word(3)[OF this] show ?thesis unfolding cp_char_def d by simp
  qed
qed

lemma encode_cp_bytes: "encode_cp c = (if scalar_value c then Some (utf8_bytes (unat c)) else None)"
proof -
  have n: "c < 0x80 \<longleftrightarrow> unat c < 0x80" "c < 0x800 \<longleftrightarrow> unat c < 0x800" "c \<le> 0xffff \<longleftrightarrow> unat c < 0x10000"
    by (simp_all add: word_less_nat_alt word_le_nat_alt) linarith
  have "c < 0x80 \<Longrightarrow> encode_cp c = Some (utf8_bytes (unat c))"
    using n(1) by (simp add: encode_cp_def utf8_bytes_def cp_char_def)
  moreover have "\<not> c < 0x80 \<Longrightarrow> c < 0x800 \<Longrightarrow> encode_cp c = Some (utf8_bytes (unat c))"
    using n(1,2) by (simp add: encode_cp_def utf8_bytes_def lead_char cont_char)
  moreover have "encode_cp c = Some (utf8_bytes (unat c))"
    if "\<not> c < 0x800" "c \<le> 0xffff" "\<not> (0xd800 \<le> c \<and> c \<le> 0xdfff)"
  proof -
    have "\<not> c < 0x80" "c \<ge> 0x800" "c \<le> 0xd7ff \<or> 0xe000 \<le> c"
      using that by (simp_all add: word_less_nat_alt word_le_nat_alt) linarith
    with that n show ?thesis unfolding encode_cp_def utf8_bytes_def using lead_char(2)[of c] cont_char[of c] by simp
  qed
  moreover have "encode_cp c = Some (utf8_bytes (unat c))" if "\<not> c \<le> 0xffff" "c \<le> 0x10ffff"
  proof -
    have "\<not> c < 0x80" "\<not> c < 0x800" "\<not> c \<le> 0xd7ff" "0x10000 \<le> c"
      using that by (simp_all add: word_less_nat_alt word_le_nat_alt)
    with that n show ?thesis unfolding encode_cp_def utf8_bytes_def using lead_char(3)[of c] cont_char[of c] by simp
  qed
  ultimately have "encode_cp c = Some (utf8_bytes (unat c))" if "scalar_value c"
    using that unfolding scalar_value_def by blast
  moreover have "encode_cp c = None" if "\<not> scalar_value c" using that encode_cp_scalar[of c] by auto
  ultimately show ?thesis by simp
qed

section \<open>The decoder\<close>

lemma cont_range: "odd (b div 128) \<and> even (b div 64) \<longleftrightarrow> 128 \<le> b \<and> b < 192" if "b < 256" for b :: nat
proof -
  have q: "b div 128 = b div 64 div 2" "128 \<le> b \<longleftrightarrow> 2 \<le> b div 64" "b < 192 \<longleftrightarrow> b div 64 < 3"
    by (simp add: div_mult2_eq[symmetric]) (simp_all add: less_eq_div_iff_mult_less_eq div_less_iff_less_mult)
  have "b div 64 < 4" using that by (simp add: div_less_iff_less_mult)
  then have "b div 64 = 0 \<or> b div 64 = 1 \<or> b div 64 = 2 \<or> b div 64 = 3" by linarith
  then show ?thesis unfolding q by (elim disjE) (simp_all only:, simp_all)
qed

lemma above_multiple: "k * j \<le> n \<Longrightarrow> n < k * j + k \<Longrightarrow> n = k * j + n mod k" for k j n :: nat
  using le_Suc_ex[of "k * j" n] by auto

lemma quotient_rest: "r < k \<Longrightarrow> (x * k + r) div k = x" "r < k \<Longrightarrow> (x * k + r) mod k = r" for x k r :: nat
  by simp_all

lemma cont_byte_range: "cont_byte s i \<longleftrightarrow> 128 \<le> unat (byte_at s i) \<and> unat (byte_at s i) < 192"
proof -
  have b: "unat (byte_at s i) < 256" using byte_less[of s i] by (simp add: word_less_nat_alt)
  have "bit w n \<longleftrightarrow> bit (unat w) n" for w :: u32 and n by (auto simp: bit_unsigned_iff dest: bit_imp_le_length)
  then have "bit (byte_at s i) 7 \<longleftrightarrow> odd (unat (byte_at s i) div 2 ^ 7)" "bit (byte_at s i) 6 \<longleftrightarrow> odd (unat (byte_at s i) div 2 ^ 6)"
    by (simp_all only: bit_iff_odd[of "unat _"])
  then have "cont_byte s i \<longleftrightarrow> odd (unat (byte_at s i) div 128) \<and> even (unat (byte_at s i) div 64)"
    by (simp add: cont_byte_def)
  then show ?thesis using cont_range[OF b] by simp
qed

text \<open>The value of a sequence, as the bytes add up to it.\<close>

lemma or_plus_shift:
  "unat x < 2 ^ k \<Longrightarrow> unat m * 2 ^ k < 2 ^ 32 \<Longrightarrow> unat (push_bit k m OR x) = unat m * 2 ^ k + unat x" for x m :: u32
proof -
  assume a: "unat x < 2 ^ k" "unat m * 2 ^ k < 2 ^ 32"
  have "unat (push_bit k m OR x) = unat (push_bit k m) + unat x" by (rule or_plus) (rule less_exp_bits[OF a(1)])
  moreover have "unat (push_bit k m) = unat m * 2 ^ k"
    using a(2) by (simp only: unsigned_push_bit_eq push_bit_eq_mult[of k "unat m"]) (simp add: take_bit_nat_eq_self)
  ultimately show ?thesis by simp
qed

lemma utf8_value_sum:
  fixes s :: string
  defines "b \<equiv> \<lambda>i. unat (byte_at s i)"
  shows "unat (utf8_value s 2) = b 0 mod 32 * 64 + b 1 mod 64"
    "unat (utf8_value s 3) = b 0 mod 16 * 4096 + (b 1 mod 64 * 64 + b 2 mod 64)"
    "unat (utf8_value s 4) = b 0 mod 8 * 262144 + (b 1 mod 64 * 4096 + (b 2 mod 64 * 64 + b 3 mod 64))"
proof -
  let ?x = "\<lambda>i. byte_at s i AND 0x3f"
  have x: "unat (?x i) = b i mod 64" "unat (?x i) < 64" for i by (simp_all add: unat_low_bits b_def)
  have y: "unat (byte_at s 0 AND 0x1f) = b 0 mod 32" "unat (byte_at s 0 AND 0x0f) = b 0 mod 16"
    "unat (byte_at s 0 AND 0x07) = b 0 mod 8" by (simp_all only: unat_low_bits b_def)
  have lt: "b 0 mod 32 < 32" "b 0 mod 16 < 16" "b 0 mod 8 < 8" "b i mod 64 < 64" for i by simp_all
  have 2: "unat (push_bit 6 (?x 1) OR ?x 2) = b 1 mod 64 * 64 + b 2 mod 64"
    using or_plus_shift[of "?x 2" 6 "?x 1"] x[of 1] x[of 2] by simp
  have 3: "unat (push_bit 6 (?x 2) OR ?x 3) = b 2 mod 64 * 64 + b 3 mod 64"
    using or_plus_shift[of "?x 3" 6 "?x 2"] x[of 2] x[of 3] by simp
  have s3: "b 1 mod 64 * 64 + b 2 mod 64 < 4096" using lt(4)[of 1] lt(4)[of 2] by linarith
  have s4: "b 2 mod 64 * 64 + b 3 mod 64 < 4096" using lt(4)[of 2] lt(4)[of 3] by linarith
  have 4: "unat (push_bit 12 (?x 1) OR (push_bit 6 (?x 2) OR ?x 3)) = b 1 mod 64 * 4096 + (b 2 mod 64 * 64 + b 3 mod 64)"
    using or_plus_shift[of "push_bit 6 (?x 2) OR ?x 3" 12 "?x 1"] x[of 1] s4 3 by simp
  have s5: "b 1 mod 64 * 4096 + (b 2 mod 64 * 64 + b 3 mod 64) < 262144" using lt(4)[of 1] s4 by linarith
  have u: "unat (byte_at s 0 AND 0x1f) < 2 ^ 8" "unat (byte_at s 0 AND 0x0f) < 2 ^ 8" "unat (byte_at s 0 AND 0x07) < 2 ^ 8"
    unfolding y by (rule less_trans[OF lt(1)] less_trans[OF lt(2)] less_trans[OF lt(3)], simp)+
  show "unat (utf8_value s 2) = b 0 mod 32 * 64 + b 1 mod 64"
    unfolding utf8_value_eqs(1)[OF u(1) refl] using or_plus_shift[of "?x 1" 6 "byte_at s 0 AND 0x1f"] x[of 1] y(1) lt(1) by simp
  show "unat (utf8_value s 3) = b 0 mod 16 * 4096 + (b 1 mod 64 * 64 + b 2 mod 64)"
    unfolding utf8_value_eqs(2)[OF u(2) refl]
    using or_plus_shift[of "push_bit 6 (?x 1) OR ?x 2" 12 "byte_at s 0 AND 0x0f"] 2 s3 y(2) lt(2) by simp
  show "unat (utf8_value s 4) = b 0 mod 8 * 262144 + (b 1 mod 64 * 4096 + (b 2 mod 64 * 64 + b 3 mod 64))"
    unfolding utf8_value_eqs(3)[OF u(3) refl] or.assoc
    using or_plus_shift[of "push_bit 12 (?x 1) OR (push_bit 6 (?x 2) OR ?x 3)" 18 "byte_at s 0 AND 0x07"] 4 s5 y(3) lt(3) by simp
qed

lemma unat_byte: "unat (byte_at s i) = of_char (s ! i)"
proof -
  have "(of_char (s ! i) :: nat) < 2 ^ 32" using of_char_less[of "s ! i"] by (rule less_trans) simp
  then show ?thesis by (simp add: byte_at_def unsigned_of_nat take_bit_nat_eq_self)
qed

lemma byte_char: "unat (byte_at s i) = n \<Longrightarrow> s ! i = char_of n"
  using unat_byte[of s i] by (metis char_of_char)

lemma take_nths: "n \<le> length s \<Longrightarrow> take n s = map ((!) s) [0..<n]"
  by (intro nth_equalityI) simp_all

text \<open>What the decoder accepts is the encoding of the scalar value it returns.\<close>

lemma accepted_bytes:
  assumes "utf8_decode s = (c, 0, n)" and "n \<le> length s"
  shows "scalar_value c" "take n s = utf8_bytes (unat c)"
proof -
  have ok: "utf8_len s \<noteq> 0" "\<not> c < utf8_mins ! utf8_len s" "drop_bit 11 c \<noteq> 0x1b" "\<not> c > 0x10FFFF"
    "\<forall>i\<in>{1..<utf8_len s}. cont_byte s i" and n: "n = utf8_len s"
    using utf8_accepts[OF assms(1)] utf8_decode_length[OF assms(1)] by auto
  have v: "c = utf8_value s n" using assms(1) n by (simp add: utf8_decode_eq)
  show "scalar_value c" using ok(3,4) surrogate_test[of c] by (simp add: scalar_value_def not_less)
  have cont: "unat (byte_at s i) = 128 + unat (byte_at s i) mod 64" if "0 < i" "i < n" for i
  proof -
    have "128 \<le> unat (byte_at s i)" "unat (byte_at s i) < 192"
      using that ok(5) n cont_byte_range[of s i] by auto
    then show ?thesis using above_multiple[of 64 2] by simp
  qed
  consider "n = 1" | "n = 2" | "n = 3" | "n = 4" using n ok(1) utf8_len_class(5)[of s] by auto
  then show "take n s = utf8_bytes (unat c)"
  proof cases
    case 1
    note first = utf8_accepted(3)[OF assms(1) 1]
    have c: "c = byte_at s 0" "unat c < 0x80"
      using first[THEN conjunct1] first[THEN conjunct2] unfolding word_less_nat_alt by simp_all
    have "take 1 s = [s ! 0]" using assms(2) 1 by (cases s) auto
    then show ?thesis using 1 c byte_char[of s 0 "unat c"] by (simp add: utf8_bytes_def)
  next
    case 2
    let ?x = "unat (byte_at s 0) mod 32" and ?y = "unat (byte_at s 1) mod 64"
    have r: "0xc0 \<le> byte_at s 0" "byte_at s 0 < 0xe0" using 2 n utf8_len_class(2)[of s] by simp_all
    then have b: "unat (byte_at s 0) = 192 + ?x"
      unfolding word_le_nat_alt word_less_nat_alt using above_multiple[of 32 6 "unat (byte_at s 0)"] by simp
    have c: "unat c = ?x * 64 + ?y" unfolding v 2 by (rule utf8_value_sum(1))
    have m: "128 \<le> unat c" using ok(2) unfolding n[symmetric] 2 by (simp add: utf8_mins_def word_less_nat_alt)
    have lt: "?x < 32" "?y < 64" by simp_all
    have d: "unat c div 64 = ?x" "unat c mod 64 = ?y" "unat c < 0x800" unfolding c using lt by simp_all
    have "take 2 s = [s ! 0, s ! 1]" using take_nths[OF assms(2)] unfolding 2 by (simp add: upt_rec numeral_2_eq_2 numeral_3_eq_3)
    then show ?thesis
      unfolding 2 utf8_bytes_def using m d byte_char[OF b] byte_char[OF cont[of 1]] 2 by simp
  next
    case 3
    let ?x = "unat (byte_at s 0) mod 16" and ?y = "unat (byte_at s 1) mod 64" and ?z = "unat (byte_at s 2) mod 64"
    have r: "0xe0 \<le> byte_at s 0" "byte_at s 0 < 0xf0" using 3 n utf8_len_class(3)[of s] by simp_all
    then have b: "unat (byte_at s 0) = 224 + ?x"
      unfolding word_le_nat_alt word_less_nat_alt using above_multiple[of 16 14 "unat (byte_at s 0)"] by simp
    have c: "unat c = ?x * 4096 + (?y * 64 + ?z)" unfolding v 3 by (rule utf8_value_sum(2))
    have m: "2048 \<le> unat c" using ok(2) unfolding n[symmetric] 3 by (simp add: utf8_mins_def word_less_nat_alt)
    have lt: "?x < 16" "?y < 64" "?z < 64" by simp_all
    have sm: "?y * 64 + ?z < 4096" using lt by linarith
    have c': "unat c = (?x * 64 + ?y) * 64 + ?z" unfolding c by simp
    have h: "unat c div 64 = ?x * 64 + ?y" unfolding c' by (rule quotient_rest(1)[OF lt(3)])
    have "unat c div 4096 = ?x" unfolding c by (rule quotient_rest(1)[OF sm])
    moreover have "unat c mod 64 = ?z" unfolding c' by (rule quotient_rest(2)[OF lt(3)])
    moreover have "unat c div 64 mod 64 = ?y" unfolding h by (rule quotient_rest(2)[OF lt(2)])
    moreover have "unat c < 0x10000" unfolding c using sm lt(1) by linarith
    note d = calculation this
    have "take 3 s = [s ! 0, s ! 1, s ! 2]" using take_nths[OF assms(2)] unfolding 3 by (simp add: upt_rec numeral_2_eq_2 numeral_3_eq_3)
    then show ?thesis
      unfolding 3 utf8_bytes_def using m d byte_char[OF b] byte_char[OF cont[of 1]] byte_char[OF cont[of 2]] 3 by simp
  next
    case 4
    let ?x = "unat (byte_at s 0) mod 8" and ?y = "unat (byte_at s 1) mod 64" and ?z = "unat (byte_at s 2) mod 64"
      and ?w = "unat (byte_at s 3) mod 64"
    have r: "0xf0 \<le> byte_at s 0" "byte_at s 0 < 0xf8" using 4 n utf8_len_class(4)[of s] by simp_all
    then have b: "unat (byte_at s 0) = 240 + ?x"
      unfolding word_le_nat_alt word_less_nat_alt using above_multiple[of 8 30 "unat (byte_at s 0)"] by simp
    have c: "unat c = ?x * 262144 + (?y * 4096 + (?z * 64 + ?w))" unfolding v 4 by (rule utf8_value_sum(3))
    have m: "65536 \<le> unat c" using ok(2) unfolding n[symmetric] 4 by (simp add: utf8_mins_def word_less_nat_alt)
    have lt: "?x < 8" "?y < 64" "?z < 64" "?w < 64" by simp_all
    have sm: "?y * 4096 + (?z * 64 + ?w) < 262144" "?z * 64 + ?w < 4096" using lt by linarith+
    have c': "unat c = (?x * 64 + ?y) * 4096 + (?z * 64 + ?w)" "unat c = ((?x * 64 + ?y) * 64 + ?z) * 64 + ?w"
      unfolding c by simp_all
    have h: "unat c div 4096 = ?x * 64 + ?y" unfolding c'(1) by (rule quotient_rest(1)[OF sm(2)])
    have h': "unat c div 64 = (?x * 64 + ?y) * 64 + ?z" unfolding c'(2) by (rule quotient_rest(1)[OF lt(4)])
    have "unat c div 262144 = ?x" unfolding c by (rule quotient_rest(1)[OF sm(1)])
    moreover have "unat c div 4096 mod 64 = ?y" unfolding h by (rule quotient_rest(2)[OF lt(2)])
    moreover have "unat c div 64 mod 64 = ?z" unfolding h' by (rule quotient_rest(2)[OF lt(3)])
    moreover have "unat c mod 64 = ?w" unfolding c'(2) by (rule quotient_rest(2)[OF lt(4)])
    note d = calculation this
    have "take 4 s = [s ! 0, s ! 1, s ! 2, s ! 3]" using take_nths[OF assms(2)] unfolding 4 by (simp add: upt_rec numeral_2_eq_2 numeral_3_eq_3)
    then show ?thesis
      unfolding 4 utf8_bytes_def using m d byte_char[OF b] byte_char[OF cont[of 1]] byte_char[OF cont[of 2]] byte_char[OF cont[of 3]] 4
      by simp
  qed
qed

lemma bytes_first: "scalar_value c \<Longrightarrow> first_cp (utf8_bytes (unat c) @ t) = (c, length (utf8_bytes (unat c)))"
  using encode_cp_first[of c "utf8_bytes (unat c)" t] by (simp add: encode_cp_bytes)

lemma first_cp_bytes:
  assumes "s \<noteq> []" "first_cp s = (c, k)"
  shows "scalar_value c \<and> take k s = utf8_bytes (unat c) \<or>
    c = invalid_code_point \<and> k = 1 \<and> (\<forall>c t. scalar_value c \<longrightarrow> s \<noteq> utf8_bytes (unat c) @ t)"
proof -
  obtain x e n where d: "utf8_decode (pad s) = (x, e, n)" by (cases "utf8_decode (pad s)")
  have fits: "k \<le> length s" by (rule first_cp_fits[OF assms])
  show ?thesis
  proof (cases "e = 0")
    case True
    then have k: "x = c" "n = k" using d assms(2) by (simp_all add: first_cp_def)
    have "take k (pad s) = take k s" using fits by (simp add: pad_def)
    then show ?thesis using accepted_bytes[OF d[unfolded True k]] fits by (simp add: pad_def)
  next
    case False
    then have k: "c = invalid_code_point" "k = 1" using d assms(2) by (simp_all add: first_cp_def)
    have "unat (-1 :: u32) = 4294967295" by (simp add: unsigned_minus_1_eq_mask mask_eq_exp_minus_1)
    then have "\<not> scalar_value invalid_code_point" by (simp add: scalar_value_def invalid_code_point_def word_le_nat_alt)
    then have "s \<noteq> utf8_bytes (unat c') @ t" if "scalar_value c'" for c' t
      using bytes_first[OF that, of t] assms(2) k(1) that by auto
    then show ?thesis using k by blast
  qed
qed

section \<open>The code points of a string\<close>

text \<open>
  How a byte string is cut: an encoded scalar value, or, where none begins, a single byte without a meaning.
\<close>

fun utf8_split :: "(code_point \<times> string) list \<Rightarrow> bool" where
  "utf8_split [] \<longleftrightarrow> True"
| "utf8_split ((c, sv) # segs) \<longleftrightarrow>
     (scalar_value c \<and> sv = utf8_bytes (unat c) \<or>
      c = invalid_code_point \<and> length sv = 1 \<and>
        (\<forall>c t. scalar_value c \<longrightarrow> sv @ concat (map snd segs) \<noteq> utf8_bytes (unat c) @ t)) \<and>
     utf8_split segs"

lemma segments_utf8_split: "utf8_split (segments s)"
proof (induction s rule: segments.induct)
  case (1 s)
  obtain c k where k: "first_cp s = (c, k)" by fastforce
  show ?case
  proof (cases "s = []")
    case False
    have "length (take k s) = 1" if "k = 1" using that False by (cases s) simp_all
    with first_cp_bytes[OF False k] 1[OF False k[symmetric] refl] show ?thesis
      unfolding segments_step[OF False k] by auto
  qed simp
qed

text \<open>C35: The iteration over code points cuts the string as UTF-8 is to be cut: each piece is the encoding of a scalar value
  (no surrogate, none above \<open>0x10ffff\<close>, the shortest form only) or, where no encoding begins, a single byte handed
  over as the invalid code point; the pieces put together are the string, and the callback is called for each
  of them in this order until it answers that it has enough.  The unrolled loop and the zero-padded copy of the tail
  make no difference.\<close>

theorem for_each_codepoint_segments:
  "\<exists>segs. utf8_split segs \<and> concat (map snd segs) = s \<and> for_each_codepoint f s st = walk f segs st"
  using segments_utf8_split[of s] segments_concat[of s] for_each_codepoint_walk[of f s st] by blast

end
