(* ===== verification/Fmt_Write_Props.thy ===== *)
theory Fmt_Write_Props
  imports Fmt_Write Fmt_Utf8_Spec
begin

text \<open>
  Properties of the argument writers: padding, the layout of a formatted integer, digit grouping,
  truncation of strings at a precision, and the text of a debug string.
\<close>

section \<open>Padding\<close>

text \<open>The specifiers of a parsed format string: width and precision are \<open>int\<close> values, the width is
  not negative.\<close>

definition specs_ok :: "'a specs_scheme \<Rightarrow> bool" where
  "specs_ok sp \<longleftrightarrow> 0 \<le> sp_width sp \<and> sp_width sp < 2 ^ 31 \<and> -1 \<le> sp_precision sp \<and> sp_precision sp < 2 ^ 31 - 1"

lemma unat_to_unsigned [simp]: "0 \<le> n \<Longrightarrow> n < 2 ^ 32 \<Longrightarrow> unat (to_unsigned n) = nat n"
proof -
  assume n: "0 \<le> n" "n < 2 ^ 32"
  then have "uint (word_of_int n :: u32) = n" by (intro word_of_int_inverse) simp_all
  then show ?thesis by (simp add: to_unsigned_def flip: nat_uint_eq)
qed

lemma fill_0 [simp]: "fill 0 sp = []"
  by (simp add: fill_def)

text \<open>How many of the fill characters go to the left.\<close>

definition left_share :: "align \<Rightarrow> align \<Rightarrow> nat \<Rightarrow> nat" where
  "left_share default_align a n =
     (case a of
        A_none \<Rightarrow> (if default_align = A_left then 0 else n)
      | A_left \<Rightarrow> 0
      | A_center \<Rightarrow> n div 2
      | _ \<Rightarrow> n)"

lemma left_share_0 [simp]: "left_share default_align a 0 = 0"
  by (simp add: left_share_def split: align.splits)

definition padded :: "align \<Rightarrow> 'a specs_scheme \<Rightarrow> nat \<Rightarrow> string \<Rightarrow> string" where
  "padded default_align sp width f =
     (let n = nat (sp_width sp) - width; l = left_share default_align (spec_align sp) n
      in fill l sp @ f @ fill (n - l) sp)"

lemma write_padded_eq:
  assumes "0 \<le> sp_width sp" "sp_width sp < 2 ^ 31"
  shows "write_padded default_align sp width f = padded default_align sp width f"
proof -
  have w: "unat (to_unsigned (sp_width sp)) = nat (sp_width sp)" using assms by simp
  define n where "n = nat (sp_width sp) - width"
  have n: "(if nat (sp_width sp) > width then nat (sp_width sp) - width else 0) = n" by (simp add: n_def)
  have "n < 2 ^ 31" using assms by (simp add: n_def)
  then have d: "drop_bit 31 n = 0" by (simp add: drop_bit_eq_div)
  have l: "drop_bit (padding_shifts default_align ! unat (align_code (spec_align sp))) n =
      left_share default_align (spec_align sp) n"
    using d by (cases "spec_align sp")
      (simp_all add: padding_shifts_def left_share_def numeral_eq_Suc[symmetric] drop_bit_eq_div)
  show ?thesis
    unfolding write_padded_def w Let_def unfolding n unfolding l padded_def n_def[symmetric] Let_def by simp
qed

lemma padded_wide: "nat (sp_width sp) \<le> width \<Longrightarrow> padded default_align sp width f = f"
  by (simp add: padded_def left_share_def split: align.splits)

section \<open>Integers\<close>

lemma digits_of_patch:
  "length d \<le> n \<Longrightarrow> digits_of (patch (n - length d) d (replicate n c), n - length d) = d"
  by (simp add: digits_of_def patch_def)

lemma digits_fit:
  assumes "v < 2 ^ n" "0 < n"
  shows "length (dec_string v) \<le> n" "0 < k \<Longrightarrow> length (base_string k upper v) \<le> n"
proof -
  have "v < 10 ^ n" using assms(1) power_mono[of 2 "10::nat" n] by simp
  then show "length (dec_string v) \<le> n" using assms(2) by (rule dec_string_length_le)
  assume "0 < k"
  then have "(2::nat) ^ n \<le> 2 ^ (k * n)" by (intro power_increasing) simp_all
  with assms(1) have "v < 2 ^ (k * n)" by (rule less_le_trans)
  then show "length (base_string k upper v) \<le> n"
    using \<open>0 < k\<close> assms(2) by (intro base_string_length)
qed

lemma digits_of_decimal: "v < 2 ^ n \<Longrightarrow> 0 < n \<Longrightarrow>
    digits_of (do_format_decimal (replicate n (CHR 0x00)) v n) = dec_string v"
  by (simp add: do_format_decimal_eq digits_fit digits_of_patch)

lemma digits_of_base2e: "v < 2 ^ n \<Longrightarrow> 0 < n \<Longrightarrow> 0 < k \<Longrightarrow>
    digits_of (do_format_base2e k (replicate n (CHR 0x00)) v n upper) = base_string k upper v"
  by (simp add: do_format_base2e_eq digits_fit digits_of_patch)

text \<open>The prefix word: its characters and its length.\<close>

definition prefix_is :: "u32 \<Rightarrow> string \<Rightarrow> bool" where
  "prefix_is p t \<longleftrightarrow> prefix_text p = t \<and> unat (drop_bit 24 p) = length t"

definition sign_chars :: "sgn \<Rightarrow> bool \<Rightarrow> string" where
  "sign_chars s negative =
     (if negative then ''-'' else case s of S_plus \<Rightarrow> ''+'' | S_space \<Rightarrow> '' '' | _ \<Rightarrow> [])"

definition sign_word :: "sgn \<Rightarrow> bool \<Rightarrow> u32" where
  "sign_word s negative = (if negative then 0x01000000 OR 0x2d else sign_prefixes ! unat (sgn_code s))"

lemma of_char_bases: "of_char (CHR ''X'') = (0x58 :: nat)" "of_char (CHR ''x'') = (0x78 :: nat)"
  "of_char (CHR ''B'') = (0x42 :: nat)" "of_char (CHR ''b'') = (0x62 :: nat)"
  by simp_all

lemma cp_chars: "cp_char 0x2d = CHR ''-''" "cp_char 0x2b = CHR ''+''" "cp_char 0x20 = CHR '' ''"
  "cp_char 0x30 = CHR ''0''" "cp_char 0x58 = CHR ''X''" "cp_char 0x78 = CHR ''x''"
  "cp_char 0x42 = CHR ''B''" "cp_char 0x62 = CHR ''b''"
  by (simp_all add: cp_char_def char_of_def bit_0)

lemma prefix_sign: "prefix_is (sign_word s negative) (sign_chars s negative)"
  by (cases s; cases negative)
    (simp_all add: prefix_is_def sign_word_def sign_chars_def sign_prefixes_def prefix_text_def
      prefix_chars.simps cp_chars)

lemma prefix_zero:
  "prefix_is (prefix_append (sign_word s negative) 0x30) (sign_chars s negative @ ''0'')"
  by (cases s; cases negative)
    (simp_all add: prefix_is_def sign_word_def sign_chars_def sign_prefixes_def prefix_text_def
      prefix_chars.simps cp_chars prefix_append_def)

lemma alt_prefix_word:
  "alt_prefix sp (CHR ''X'') (CHR ''x'') = (if spec_upper sp then 0x5830 else 0x7830)"
  "alt_prefix sp (CHR ''B'') (CHR ''b'') = (if spec_upper sp then 0x4230 else 0x6230)"
  by (simp_all add: alt_prefix_def of_char_bases)

lemma prefix_two:
  "w \<in> {0x5830, 0x7830, 0x4230, 0x6230} \<Longrightarrow>
   prefix_is (prefix_append (sign_word s negative) w) (sign_chars s negative @ [CHR ''0'', cp_char (drop_bit 8 w)])"
  unfolding insert_iff
  by (elim disjE emptyE; hypsubst; cases s; cases negative)
    (simp_all add: prefix_is_def sign_word_def sign_chars_def sign_prefixes_def prefix_text_def
      prefix_chars.simps cp_chars prefix_append_def)

lemma prefix_base:
  "prefix_is (prefix_append (sign_word s negative) (alt_prefix sp (CHR ''X'') (CHR ''x'')))
     (sign_chars s negative @ [CHR ''0'', if spec_upper sp then CHR ''X'' else CHR ''x''])"
  "prefix_is (prefix_append (sign_word s negative) (alt_prefix sp (CHR ''B'') (CHR ''b'')))
     (sign_chars s negative @ [CHR ''0'', if spec_upper sp then CHR ''B'' else CHR ''b''])"
  using prefix_two[of "alt_prefix sp (CHR ''X'') (CHR ''x'')" s negative]
    prefix_two[of "alt_prefix sp (CHR ''B'') (CHR ''b'')" s negative]
  by (cases "spec_upper sp"; simp add: alt_prefix_word cp_chars)+

text \<open>The reference: sign, base prefix, zeros and digits, each from what the specifiers say.\<close>

definition int_base :: "'a specs_scheme \<Rightarrow> nat" where
  "int_base sp = (let t = spec_type sp in
     if t = pres_hex then 16 else if t = pres_oct then 8 else if t = pres_bin then 2 else 10)"

definition int_digits :: "'a specs_scheme \<Rightarrow> nat \<Rightarrow> string" where
  "int_digits sp v = (let t = spec_type sp in
     if t = pres_hex then base_string 4 (spec_upper sp) v else if t = pres_oct then base_string 3 False v
     else if t = pres_bin then base_string 1 False v else dec_string v)"

definition base_chars :: "'a specs_scheme \<Rightarrow> nat \<Rightarrow> string" where
  "base_chars sp v = (let t = spec_type sp in
     if \<not> spec_alt sp then []
     else if t = pres_hex then [CHR ''0'', if spec_upper sp then CHR ''X'' else CHR ''x'']
     else if t = pres_oct then (if sp_precision sp \<le> int (length (int_digits sp v)) \<and> v \<noteq> 0 then ''0'' else [])
     else if t = pres_bin then [CHR ''0'', if spec_upper sp then CHR ''B'' else CHR ''b'']
     else [])"

definition zero_count :: "'a specs_scheme \<Rightarrow> string \<Rightarrow> string \<Rightarrow> nat" where
  "zero_count sp prefix digits =
     (if spec_align sp = A_numeric then nat (sp_width sp) - length (prefix @ digits)
      else nat (sp_precision sp) - length digits)"

definition int_text :: "'a specs_scheme \<Rightarrow> bool \<Rightarrow> nat \<Rightarrow> string" where
  "int_text sp negative v =
     (let prefix = sign_chars (spec_sign sp) negative @ base_chars sp v;
          digits = int_digits sp v;
          text = prefix @ replicate (zero_count sp prefix digits) (CHR ''0'') @ digits
      in padded A_right sp (length text) text)"

lemma size_padding_eq:
  assumes "specs_ok sp" "prefix_is p t" "length t \<le> 3" "length digits \<le> 128"
  shows "\<exists>sz padding. size_padding (int (length digits)) p sp = (sz, padding) \<and>
    unat padding = zero_count sp t digits \<and> unat sz = length t + zero_count sp t digits + length digits"
proof -
  have w: "0 \<le> sp_width sp" "sp_width sp < 2 ^ 31" and pr: "-1 \<le> sp_precision sp" "sp_precision sp < 2 ^ 31 - 1"
    using assms(1) by (simp_all add: specs_ok_def)
  have p: "unat (drop_bit 24 p) = length t" using assms(2) by (simp add: prefix_is_def)
  have d: "unat (to_unsigned (int (length digits))) = length digits" using assms(4) by simp
  have sz: "unat (drop_bit 24 p + to_unsigned (int (length digits))) = length t + length digits"
    using assms(3,4) by (subst unat_add_lem[THEN iffD1]) (simp_all add: p d)
  show ?thesis
  proof (cases "spec_align sp = A_numeric")
    case True
    have wu: "unat (to_unsigned (sp_width sp)) = nat (sp_width sp)" using w by simp
    show ?thesis
    proof (cases "drop_bit 24 p + to_unsigned (int (length digits)) < to_unsigned (sp_width sp)")
      case wide: True
      then have "unat (to_unsigned (sp_width sp) - (drop_bit 24 p + to_unsigned (int (length digits)))) =
          nat (sp_width sp) - (length t + length digits)"
        by (simp add: unat_sub wu sz)
      then show ?thesis using True wide wu sz
        by (simp add: size_padding_def Let_def zero_count_def word_less_nat_alt)
    next
      case False
      then show ?thesis using True wu sz
        by (simp add: size_padding_def Let_def zero_count_def word_less_nat_alt)
    qed
  next
    case False
    show ?thesis
    proof (cases "sp_precision sp > int (length digits)")
      case True
      then have pu: "unat (to_unsigned (sp_precision sp)) = nat (sp_precision sp)"
        "unat (to_unsigned (sp_precision sp - int (length digits))) = nat (sp_precision sp) - length digits"
        using pr by (simp_all add: nat_diff_distrib)
      have "unat (drop_bit 24 p + to_unsigned (sp_precision sp)) = length t + nat (sp_precision sp)"
        using pr assms(3) by (subst unat_add_lem[THEN iffD1]) (simp_all add: p pu)
      then show ?thesis using True False pu by (simp add: size_padding_def zero_count_def)
    next
      case no: False
      then show ?thesis using False sz by (simp add: size_padding_def zero_count_def)
    qed
  qed
qed

text \<open>What \<open>write_int\<close> does once the digits and the prefix are known.\<close>

lemma write_int_end:
  assumes sp: "specs_ok sp" and p: "prefix_is p t" "length t \<le> 3" "length digits \<le> 128"
  shows "(if to_unsigned (sp_width sp) OR to_unsigned (sp_precision sp + 1) = 0 then prefix_text p @ digits
     else let (sz, padding) = size_padding (int (length digits)) p sp
          in write_padded A_right sp (unat sz)
               (prefix_text p @ replicate (unat padding) (CHR ''0'') @ digits)) =
    (let text = t @ replicate (zero_count sp t digits) (CHR ''0'') @ digits
     in padded A_right sp (length text) text)"
proof -
  have w: "0 \<le> sp_width sp" "sp_width sp < 2 ^ 31" and pr: "-1 \<le> sp_precision sp" "sp_precision sp < 2 ^ 31 - 1"
    using sp by (simp_all add: specs_ok_def)
  have pt: "prefix_text p = t" using p(1) by (simp add: prefix_is_def)
  show ?thesis
  proof (cases "to_unsigned (sp_width sp) OR to_unsigned (sp_precision sp + 1) = 0")
    case True
    then have "to_unsigned (sp_width sp) = 0" "to_unsigned (sp_precision sp + 1) = 0"
      by (simp_all only: or_eq_0_iff)
    then have "unat (to_unsigned (sp_width sp)) = 0" "unat (to_unsigned (sp_precision sp + 1)) = 0" by simp_all
    then have "sp_width sp = 0" "sp_precision sp = -1" using w pr by simp_all
    then show ?thesis using True pt by (simp add: zero_count_def padded_wide)
  next
    case False
    obtain sz padding where s: "size_padding (int (length digits)) p sp = (sz, padding)"
      "unat padding = zero_count sp t digits" "unat sz = length t + zero_count sp t digits + length digits"
      using size_padding_eq[OF sp p] by blast
    show ?thesis using False s pt by (simp add: write_padded_eq[OF w] add.assoc)
  qed
qed

lemma sign_chars_length: "length (sign_chars s negative) \<le> 1"
  by (simp add: sign_chars_def split: sgn.splits)

lemma base_chars_length: "length (base_chars sp v) \<le> 2"
  by (simp add: base_chars_def Let_def)

lemma pres_distinct:
  "pres_hex \<noteq> pres_chr" "pres_oct \<noteq> pres_chr" "pres_bin \<noteq> pres_chr" "pres_hex \<noteq> pres_oct" "pres_hex \<noteq> pres_bin"
  "pres_oct \<noteq> pres_bin"
  by (simp_all add: pres_defs)

lemma write_int_eq:
  assumes sp: "specs_ok sp" and v: "v < 2 ^ n" "0 < n" "n \<le> 128" and t: "spec_type sp \<noteq> pres_chr"
  shows "write_int n v (sign_word (spec_sign sp) negative) sp = int_text sp negative v"
proof -
  let ?p = "sign_word (spec_sign sp) negative" and ?s = "sign_chars (spec_sign sp) negative"
  have fit: "length (int_digits sp v) \<le> 128"
  proof -
    have "length (base_string k u v) \<le> 128" if "0 < k" for k u
      using digits_fit(2)[OF v(1,2) that, of u] v(3) by simp
    moreover have "length (dec_string v) \<le> 128" using digits_fit(1)[OF v(1,2)] v(3) by simp
    ultimately show ?thesis by (simp add: int_digits_def Let_def)
  qed
  have len: "length (?s @ base_chars sp v) \<le> 3"
    using sign_chars_length[of "spec_sign sp" negative] base_chars_length[of sp v] by simp
  define p where "p = (if \<not> spec_alt sp then ?p
     else if spec_type sp = pres_hex then prefix_append ?p (alt_prefix sp (CHR ''X'') (CHR ''x''))
     else if spec_type sp = pres_oct then
       (if sp_precision sp \<le> int (length (int_digits sp v)) \<and> v \<noteq> 0 then prefix_append ?p 0x30 else ?p)
     else if spec_type sp = pres_bin then prefix_append ?p (alt_prefix sp (CHR ''B'') (CHR ''b''))
     else ?p)"
  have p: "prefix_is p (?s @ base_chars sp v)"
    using prefix_sign[of "spec_sign sp" negative] prefix_zero[of "spec_sign sp" negative]
      prefix_base[of "spec_sign sp" negative sp]
    unfolding p_def base_chars_def Let_def by (simp del: append_assoc)
  have "write_int n v ?p sp = (if to_unsigned (sp_width sp) OR to_unsigned (sp_precision sp + 1) = 0
      then prefix_text p @ int_digits sp v
      else let (sz, padding) = size_padding (int (length (int_digits sp v))) p sp
           in write_padded A_right sp (unat sz)
                (prefix_text p @ replicate (unat padding) (CHR ''0'') @ int_digits sp v))"
    using t v by (simp add: write_int_def Let_def p_def int_digits_def digits_of_decimal digits_of_base2e pres_distinct)
  also have "\<dots> = int_text sp negative v"
    unfolding write_int_end[OF sp p len fit] unfolding int_text_def Let_def by simp
  finally show ?thesis .
qed

definition int_value :: "bool \<Rightarrow> 'a::len word \<Rightarrow> int" where
  "int_value is_signed v = (if is_signed then sint v else uint v)"

lemma int_value_simps:
  "is_negative is_signed v \<longleftrightarrow> int_value is_signed v < 0"
  "is_negative is_signed v \<Longrightarrow> unat (0 - v) = nat \<bar>int_value is_signed v\<bar>"
  "\<not> is_negative is_signed v \<Longrightarrow> unat v = nat \<bar>int_value is_signed v\<bar>"
  using unat_of_sint[of v] by (auto simp: is_negative_def int_value_def)

lemma make_write_int_arg_eq:
  "make_write_int_arg is_signed v s =
     (nat \<bar>int_value is_signed v\<bar>, sign_word s (int_value is_signed v < 0))"
  using int_value_simps[of is_signed v] by (simp add: make_write_int_arg_def sign_word_def)

lemma int_value_bits:
  fixes v :: "'a::len word"
  assumes "LENGTH('a) \<le> 128"
  shows "nat \<bar>int_value is_signed v\<bar> < 2 ^ int_bits TYPE('a)" "int_bits TYPE('a) \<in> {32, 64, 128}"
proof -
  have "LENGTH('a) \<le> int_bits TYPE('a)" using assms by (simp add: int_bits_def)
  then have p: "(2::nat) ^ LENGTH('a) \<le> 2 ^ int_bits TYPE('a)" by (rule power_increasing) simp
  have "nat \<bar>int_value is_signed v\<bar> < 2 ^ LENGTH('a)"
    by (cases "is_negative is_signed v") (use int_value_simps[of is_signed v] unsigned_less in \<open>metis\<close>)+
  then show "nat \<bar>int_value is_signed v\<bar> < 2 ^ int_bits TYPE('a)" using p by (rule less_le_trans)
  show "int_bits TYPE('a) \<in> {32, 64, 128}" by (simp add: int_bits_def)
qed

text \<open>C31: An integer argument with specifiers, other than the localized and the character presentation, comes out as sign, base prefix, zeros and digits of its
  absolute value, filled to the width on the side the alignment says: the sign is a minus exactly
  for a negative value, the zeros reach the width under numeric alignment and the precision
  otherwise.  This holds for every width of integer up to 128 bits, the smallest value of each
  included.\<close>

theorem write_integral_layout:
  fixes v :: "'b::len word"
  assumes "specs_ok sp" "\<not> spec_localized sp" "spec_type sp \<noteq> pres_chr" "LENGTH('b) \<le> 128"
  shows "write_integral loc is_signed v sp =
    Some (int_text sp (int_value is_signed v < 0) (nat \<bar>int_value is_signed v\<bar>))"
proof -
  have n: "0 < int_bits TYPE('b)" "int_bits TYPE('b) \<le> 128" using int_value_bits(2)[OF assms(4)] by auto
  show ?thesis
    using assms(2) write_int_eq[OF assms(1) int_value_bits(1)[OF assms(4)] n assms(3)]
    by (simp add: write_integral_def make_write_int_arg_eq)
qed

lemma default_width_specs:
  fixes w :: int
  defines "sp \<equiv> default_specs\<lparr>sp_width := w\<rparr>"
  shows "spec_type sp = 0" "spec_sign sp = S_none" "spec_align sp = A_none" "fill_size sp = 1"
    "\<not> spec_alt sp" "\<not> spec_localized sp" "fill_unit sp = CHR '' ''" "sp_width sp = w" "sp_precision sp = -1"
  by (simp_all add: sp_def spec_type_def spec_sign_def spec_align_def fill_size_def spec_alt_def spec_localized_def
      default_specs_def fget_def flag_def spec_layout sgn_of_def align_of_def fill_unit_def)

lemmas spec_type_defs = pres_none_def pres_debug_def pres_string_def pres_dec_def pres_hex_def pres_oct_def
  pres_bin_def pres_chr_def pres_pointer_def

theorem write_integral_layout_witness:
  "write_integral \<lparr>lc_numpunct = \<lparr>np_grouping = [], np_thousands_sep = CHR '','', np_decimal_point = CHR ''.''\<rparr>,
      lc_facet = None\<rparr> True (-42 :: u32) (default_specs\<lparr>sp_width := 6\<rparr>) = Some ''   -42''"
proof -
  define sp where "sp = default_specs\<lparr>sp_width := 6\<rparr>"
  note f = default_width_specs[of 6, folded sp_def]
  have "dec_string 42 = ''42''" by (simp add: dec_string_step)
  then have "int_digits sp 42 = ''42''" by (simp add: int_digits_def f spec_type_defs)
  moreover have "base_chars sp 42 = []" by (simp add: base_chars_def f)
  moreover have "replicate 3 (CHR '' '') = ''   ''" by (simp add: numeral_eq_Suc)
  ultimately have "int_text sp True 42 = ''   -42''"
    by (simp add: int_text_def Let_def zero_count_def padded_def left_share_def sign_chars_def fill_def f)
  moreover have "specs_ok sp" by (simp add: specs_ok_def f)
  ultimately show ?thesis unfolding sp_def[symmetric]
    using write_integral_layout[of sp "\<lparr>lc_numpunct = \<lparr>np_grouping = [],
        np_thousands_sep = CHR '','', np_decimal_point = CHR ''.''\<rparr>, lc_facet = None\<rparr>" True "-42 :: u32"]
    by (simp add: f spec_type_defs int_value_def)
qed

lemma count_digits_eq: "v < 2 ^ n \<Longrightarrow> n \<in> {32, 64, 128} \<Longrightarrow> count_digits n v = length (dec_string v)"
proof -
  assume v: "v < 2 ^ n" and n: "n \<in> {32, 64, 128}"
  have "v < 2 ^ 32 \<Longrightarrow> unat (of_nat v :: u32) = v" "v < 2 ^ 64 \<Longrightarrow> unat (of_nat v :: u64) = v"
    by (simp_all add: unsigned_of_nat take_bit_nat_eq_self)
  then show ?thesis using v n
    by (auto simp: count_digits_def do_count_digits32_eq do_count_digits64_eq count_digits_fallback_eq)
qed

lemma write_integral_default_eq:
  fixes v :: "'b::len word"
  assumes "LENGTH('b) \<le> 128"
  shows "write_integral_default is_signed v = int_string (int_value is_signed v)"
proof -
  have "unat (if is_negative is_signed v then NOT v + 1 else v) = nat \<bar>int_value is_signed v\<bar>"
    using int_value_simps[of is_signed v] by (simp add: minus_eq_not_plus_1[symmetric])
  then show ?thesis
    using int_value_simps(1)[of is_signed v] count_digits_eq[OF int_value_bits[OF assms]]
    by (auto simp: write_integral_default_def Let_def format_decimal_eq int_string_def)
qed

text \<open>An integer argument without specifiers comes out as its decimal numeral, with a minus for a
  negative value, and the specifiers of an empty replacement field give the same text.\<close>

theorem write_integral_default_decimal:
  fixes v :: "'b::len word"
  assumes "LENGTH('b) \<le> 128"
  shows "write_integral_default is_signed v = int_string (int_value is_signed v) \<and>
    write_integral loc is_signed v default_specs = Some (write_integral_default is_signed v)"
proof -
  let ?i = "int_value is_signed v"
  have n: "0 < int_bits TYPE('b)" "int_bits TYPE('b) \<le> 128" using int_value_bits(2)[OF assms] by auto
  have sp: "default_specs = default_specs\<lparr>sp_width := 0\<rparr>" by (simp add: default_specs_def)
  note f = default_width_specs[of 0, folded sp]
  have "specs_ok default_specs" by (simp add: specs_ok_def f)
  then have "write_int (int_bits TYPE('b)) (nat \<bar>?i\<bar>) (sign_word S_none (?i < 0)) default_specs =
      int_text default_specs (?i < 0) (nat \<bar>?i\<bar>)"
    using write_int_eq[OF _ int_value_bits(1)[OF assms] n, of default_specs] f by (simp add: spec_type_defs)
  also have "\<dots> = int_string ?i"
    by (simp add: int_text_def padded_wide f zero_count_def base_chars_def int_digits_def spec_type_defs
        sign_chars_def int_string_def Let_def)
  finally show ?thesis using write_integral_default_eq[OF assms, of is_signed v] f
    by (simp add: write_integral_def make_write_int_arg_eq)
qed

theorem write_integral_default_decimal_witness:
  "write_integral_default True (-2147483648 :: u32) = int_string (-2147483648)"
  using write_integral_default_decimal[of True "-2147483648 :: u32"] by (simp add: int_value_def)

section \<open>Debug strings\<close>

text \<open>The reference: each code point by itself, as it is or escaped.\<close>

definition escape_segment :: "code_point \<times> string \<Rightarrow> string" where
  "escape_segment = (\<lambda>(cp, sv). if needs_escape cp then write_escaped_cp cp sv else sv)"

lemma segments_split: "segments s = a @ b \<Longrightarrow> segments (drop (length (concat (map snd a))) s) = b"
proof (induction a arbitrary: s)
  case (Cons p a)
  obtain cp sv where p: "p = (cp, sv)" by fastforce
  have "a @ b = segments (drop (length sv) s)" using segments_drop[of s cp sv "a @ b"] Cons.prems by (simp add: p)
  then show ?case using Cons.IH[of "drop (length sv) s"] by (simp add: p add.commute)
qed simp

abbreviation plain :: "code_point \<times> string \<Rightarrow> bool" where
  "plain \<equiv> (\<lambda>(cp, sv). \<not> needs_escape cp)"

lemma plain_segments: "list_all plain segs \<Longrightarrow> concat (map escape_segment segs) = concat (map snd segs)"
  by (induction segs) (auto simp: escape_segment_def)

lemma find_escape_segments:
  assumes "segments s = a @ b" "a = takeWhile plain (segments s)" "b = dropWhile plain (segments s)"
  shows "find_escape s = (case b of
     [] \<Rightarrow> \<lparr>fe_begin = length s, fe_end = None, fe_cp = 0\<rparr>
   | (cp, sv) # rest \<Rightarrow>
       \<lparr>fe_begin = length (concat (map snd a)), fe_end = Some (length (concat (map snd a)) + length sv), fe_cp = cp\<rparr>)"
proof -
  have "concat (map snd a) @ concat (map snd b) = s"
    using segments_concat[of s] unfolding assms(1) by simp
  then have "length s = length (concat (map snd a)) + length (concat (map snd b))"
    by (metis length_append)
  then show ?thesis
    unfolding find_escape_def for_each_codepoint_walk
    by (subst find_escape_walk) (auto simp: assms(3)[symmetric] split: list.splits)
qed

lemma escaped_loop_segments: "escaped_loop s = concat (map escape_segment (segments s))"
proof (induction s rule: escaped_loop.induct)
  case (1 s)
  define a b where ab: "a = takeWhile plain (segments s)" "b = dropWhile plain (segments s)"
  have s: "segments s = a @ b" by (simp add: ab)
  have c: "concat (map snd a) @ concat (map snd b) = s" using segments_concat[of s] unfolding s by simp
  have pl: "concat (map escape_segment a) = concat (map snd a)"
    by (rule plain_segments) (auto simp: ab list_all_iff dest: set_takeWhileD)
  note f = find_escape_segments[OF s ab]
  show ?case
  proof (cases b)
    case Nil
    then show ?thesis using c pl f by (subst escaped_loop.simps) (simp add: s)
  next
    case (Cons p rest)
    obtain cp sv where p: "p = (cp, sv)" by fastforce
    have "\<not> plain (hd b)" unfolding ab(2) by (rule hd_dropWhile) (use Cons ab(2) in simp)
    then have esc: "escape_segment p = write_escaped_cp cp sv" by (simp add: escape_segment_def p Cons)
    let ?pre = "concat (map snd a)"
    have f: "find_escape s = \<lparr>fe_begin = length ?pre, fe_end = Some (length ?pre + length sv), fe_cp = cp\<rparr>"
      using f by (simp add: Cons p)
    have sp: "s = ?pre @ sv @ concat (map snd rest)" using c by (simp add: Cons p)
    have parts: "take (length ?pre) s = ?pre" "drop (length ?pre) (take (length ?pre + length sv) s) = sv"
      "drop (length ?pre + length sv) s = concat (map snd rest)"
      by (subst (1) sp, simp)+
    have "segments s = (a @ [p]) @ rest" using s Cons by simp
    from segments_split[OF this] have rest: "segments (drop (length ?pre + length sv) s) = rest" by (simp add: p)
    have "escaped_loop (concat (map snd rest)) = concat (map escape_segment rest)" if "concat (map snd rest) \<noteq> []"
      using 1[of "find_escape s" "length ?pre + length sv"] rest that by (simp add: f parts)
    moreover have "rest = []" if "concat (map snd rest) = []" 
      using that rest[unfolded parts(3)] by (metis segments_Nil)
    ultimately show ?thesis
      by (subst escaped_loop.simps) (auto simp add: f parts s Cons esc pl)
  qed
qed

text \<open>The characters of an escape.\<close>

definition log_safe :: "char \<Rightarrow> bool" where
  "log_safe c \<longleftrightarrow> (0x20 :: nat) \<le> of_char c \<and> of_char c < (0x7f :: nat)"

lemma hex_safe: "c \<in> set (hex_digits False) \<Longrightarrow> log_safe c"
  by (auto simp: hex_digits_def log_safe_def)

lemma base_string_hex: "set (base_string 4 False v) \<subseteq> set (hex_digits False)"
proof -
  have d: "base_digit 4 False d \<in> set (hex_digits False)" if "d < 16" for d
  proof -
    have "d < length (hex_digits False)" using that by (simp add: hex_digits_def)
    then show ?thesis by (simp add: base_digit_def)
  qed
  show ?thesis
  proof (induction v rule: less_induct)
    case (less v)
    show ?case
    proof (cases "v < 16")
      case True
      then show ?thesis using d[of v] by simp
    next
      case False
      then have "base_string 4 False v = base_string 4 False (v div 16) @ [base_digit 4 False (v mod 16)]"
        using base_string_step[of 4 v False] by simp
      then show ?thesis using less.IH[of "v div 16"] d[of "v mod 16"] False by auto
    qed
  qed
qed

lemma write_codepoint_safe:
  assumes "v < 2 ^ (4 * width)" "0 < width" "log_safe prefix"
  shows "list_all log_safe (write_codepoint width prefix v)"
proof -
  let ?b = "base_string 4 False v"
  have "length ?b \<le> width" using assms by (intro base_string_length) simp_all
  then have "format_base2e 4 (replicate width (CHR ''0'')) v width False =
      patch (width - length ?b) ?b (replicate width (CHR ''0''))"
    by (simp add: format_base2e_def do_format_base2e_eq)
  moreover have "list_all log_safe (patch (width - length ?b) ?b (replicate width (CHR ''0'')))"
    using base_string_hex[of v] hex_safe
    by (auto simp: patch_def list_all_iff log_safe_def dest!: in_set_takeD in_set_dropD)
  ultimately show ?thesis using assms(3) by (simp add: write_codepoint_def log_safe_def)
qed

lemma write_escaped_cp_safe: "list_all log_safe (write_escaped_cp cp bytes)"
proof -
  have b: "list_all log_safe (concat (map (\<lambda>b. write_codepoint 2 (CHR ''x'') (of_char b)) bytes))"
  proof -
    have "list_all log_safe (write_codepoint 2 (CHR ''x'') (of_char y))" for y
      using write_codepoint_safe[of "of_char y" 2 "CHR ''x''"] of_char_less[of y] by (simp add: log_safe_def)
    then show ?thesis by (auto simp: list_all_iff)
  qed
  have "cp_char 0x22 = CHR 0x22" "cp_char 0x27 = CHR 0x27" "cp_char 0x5c = CHR 0x5C"
    by (simp_all add: cp_char_def char_of_def bit_0)
  then have q: "cp \<in> {0x22, 0x27, 0x5c} \<Longrightarrow> log_safe (cp_char cp)" by (auto simp: log_safe_def)
  show ?thesis
    using b q write_codepoint_safe[of "unat cp" 2 "CHR ''x''"] write_codepoint_safe[of "unat cp" 4 "CHR ''u''"]
      write_codepoint_safe[of "unat cp" 8 "CHR ''U''"]
    by (auto simp: write_escaped_cp_def Let_def word_less_nat_alt log_safe_def)
qed

text \<open>
  Code points that cannot disturb a line of a log: scalar values other than the control characters of ASCII and of its
  extension, the line and paragraph separators and the controls of the direction of writing.
\<close>

definition harmless :: "code_point \<Rightarrow> bool" where
  "harmless c \<longleftrightarrow> scalar_value c \<and> 0x20 \<le> c \<and> \<not> (0x7f \<le> c \<and> c \<le> 0x9f) \<and> \<not> (0x2028 \<le> c \<and> c \<le> 0x202e) \<and>
     \<not> (0x2066 \<le> c \<and> c \<le> 0x2069)"

definition harmless_text :: "string \<Rightarrow> bool" where
  "harmless_text t \<longleftrightarrow> (\<exists>cps. t = concat (map (\<lambda>c. utf8_bytes (unat c)) cps) \<and> list_all harmless cps)"

lemma harmless_append: "harmless_text s \<Longrightarrow> harmless_text t \<Longrightarrow> harmless_text (s @ t)"
  unfolding harmless_text_def by (metis concat_append list_all_append map_append)

lemma harmless_concat: "(\<And>t. t \<in> set ts \<Longrightarrow> harmless_text t) \<Longrightarrow> harmless_text (concat ts)"
proof (induction ts)
  case Nil
  show ?case unfolding harmless_text_def by (intro exI[of _ "[]"]) simp
qed (simp add: harmless_append)

lemma harmless_bytes: "harmless c \<Longrightarrow> harmless_text (utf8_bytes (unat c))"
  unfolding harmless_text_def by (intro exI[of _ "[c]"]) simp

lemma log_safe_harmless: "list_all log_safe t \<Longrightarrow> harmless_text t"
proof -
  assume safe: "list_all log_safe t"
  have "harmless_text [x]" if "x \<in> set t" for x
  proof -
    have x: "0x20 \<le> (of_char x :: nat)" "of_char x < (0x7f :: nat)" using safe that by (auto simp: log_safe_def list_all_iff)
    have u: "unat (of_nat (of_char x) :: u32) = of_char x" using x(2) by (simp add: unsigned_of_nat take_bit_nat_eq_self)
    have "harmless (of_nat (of_char x))" unfolding harmless_def scalar_value_def word_le_nat_alt u using x by simp
    from harmless_bytes[OF this] show ?thesis unfolding u utf8_bytes_def using x(2) by simp
  qed
  then have "harmless_text (concat (map (\<lambda>x. [x]) t))" by (intro harmless_concat) auto
  then show ?thesis by simp
qed

lemma utf8_split_bytes: "utf8_split segs \<Longrightarrow> (c, sv) \<in> set segs \<Longrightarrow> c = invalid_code_point \<or> scalar_value c \<and> sv = utf8_bytes (unat c)"
  by (induction segs rule: utf8_split.induct) auto

lemma invalid_escaped: "needs_escape invalid_code_point"
proof -
  have "unat (-1 :: u32) = 4294967295" by (simp add: unsigned_minus_1_eq_mask mask_eq_exp_minus_1)
  then show ?thesis
    by (simp add: needs_escape_def is_printable_def invalid_code_point_def Let_def word_less_nat_alt word_le_nat_alt)
qed

lemma plain_harmless: "\<not> needs_escape c \<Longrightarrow> scalar_value c \<Longrightarrow> harmless c"
  using is_printable_hidden[of c] by (auto simp: needs_escape_def harmless_def not_less split: if_splits)

lemma escape_segment_harmless:
  assumes "p \<in> set (segments s)"
  shows "harmless_text (escape_segment p)"
proof -
  obtain c sv where p: "p = (c, sv)" by fastforce
  show ?thesis
  proof (cases "needs_escape c")
    case True
    then show ?thesis using log_safe_harmless[OF write_escaped_cp_safe[of c sv]] by (simp add: p escape_segment_def)
  next
    case False
    then have "scalar_value c \<and> sv = utf8_bytes (unat c)"
      using utf8_split_bytes[OF segments_utf8_split assms[unfolded p]] invalid_escaped by auto
    then show ?thesis using False harmless_bytes[OF plain_harmless[OF False]] by (simp add: p escape_segment_def)
  qed
qed

text \<open>C30: A string printed with the debug presentation is its code points, each as it is or escaped, between quotes,
  whatever bytes the argument holds.  What is printed is well-formed UTF-8, and no code point of it is a control
  character, of ASCII or from \<open>0x80\<close> to \<open>0x9f\<close>, a separator of lines or a control of the direction of writing: a
  logged value cannot forge a line or a colour.\<close>

theorem write_escaped_string_safe:
  "write_escaped_string s = [CHR 0x22] @ concat (map escape_segment (segments s)) @ [CHR 0x22] \<and>
   (\<exists>cps. write_escaped_string s = concat (map (\<lambda>c. utf8_bytes (unat c)) cps) \<and> list_all harmless cps)"
proof -
  have q: "harmless_text [CHR 0x22]" by (rule log_safe_harmless) (simp add: log_safe_def)
  have "harmless_text (concat (map escape_segment (segments s)))"
    by (intro harmless_concat) (auto dest: escape_segment_harmless)
  then have "harmless_text ([CHR 0x22] @ concat (map escape_segment (segments s)) @ [CHR 0x22])"
    by (intro harmless_append q)
  then show ?thesis by (simp add: write_escaped_string_def escaped_loop_segments harmless_text_def)
qed

section \<open>Strings\<close>

text \<open>Columns of a run of segments, and the longest run that fits.\<close>

definition columns :: "(code_point \<times> string) list \<Rightarrow> nat" where
  "columns segs = sum_list (map (\<lambda>(cp, sv). display_width_of cp) segs)"

fun fitting :: "nat \<Rightarrow> (code_point \<times> string) list \<Rightarrow> (code_point \<times> string) list" where
  "fitting l [] = []"
| "fitting l ((cp, sv) # segs) =
     (if display_width_of cp \<le> l then (cp, sv) # fitting (l - display_width_of cp) segs else [])"

lemma fitting_prefix: "\<exists>rest. segs = fitting l segs @ rest \<and> columns (fitting l segs) \<le> l \<and>
    (rest = [] \<or> l < columns (fitting l segs) + display_width_of (fst (hd rest)))"
proof (induction l segs rule: fitting.induct)
  case (2 l cp sv segs)
  show ?case
  proof (cases "display_width_of cp \<le> l")
    case True
    from 2[OF True] obtain rest where r: "segs = fitting (l - display_width_of cp) segs @ rest"
      "columns (fitting (l - display_width_of cp) segs) \<le> l - display_width_of cp"
      "rest = [] \<or> l - display_width_of cp < columns (fitting (l - display_width_of cp) segs) + display_width_of (fst (hd rest))"
      by blast
    show ?thesis
      using True r by (intro exI[of _ rest]) (auto simp: columns_def)
  qed (auto simp: columns_def)
qed (simp add: columns_def)

lemma columns_le: "columns (segments s) \<le> 2 * length s"
proof (induction s rule: segments.induct)
  case (1 s)
  obtain c k where k: "first_cp s = (c, k)" by fastforce
  show ?case
  proof (cases "s = []")
    case False
    have "columns (segments (drop k s)) \<le> 2 * length (drop k s)" using 1[OF False k[symmetric] refl] .
    moreover have "display_width_of c \<le> 2" by (simp add: display_width_of_def)
    ultimately show ?thesis using first_cp_pos[OF k] first_cp_fits[OF False k] segments_step[OF False k]
      by (simp add: columns_def)
  qed (simp add: columns_def)
qed

lemma fitting_all: "columns segs \<le> l \<Longrightarrow> fitting l segs = segs"
  by (induction l segs rule: fitting.induct) (auto simp: columns_def)

lemma width_walk:
  "w \<le> l \<Longrightarrow> walk (width_visitor False l) segs (w, n) =
    (w + columns (fitting (l - w) segs), n + length (concat (map snd (fitting (l - w) segs))))"
proof (induction segs arbitrary: w n)
  case (Cons p segs)
  obtain cp sv where p: "p = (cp, sv)" by fastforce
  show ?case
  proof (cases "display_width_of cp + w \<le> l")
    case True
    then show ?thesis using Cons.IH[of "display_width_of cp + w" "n + length sv"] Cons.prems
      by (simp add: p width_visitor_def columns_def add.commute add.left_commute)
  next
    case False
    then show ?thesis using Cons.prems by (auto simp: p width_visitor_def columns_def)
  qed
qed (simp add: columns_def)

text \<open>C33: Outside the debug presentation a string argument is cut at the precision, counted in columns, and filled to the width: what
  is kept is the longest run of whole code points that fits, so a sequence of bytes is never cut in
  two, and without a precision everything is kept.\<close>

theorem write_string_truncates:
  assumes "specs_ok sp" "spec_type sp \<noteq> pres_debug" "2 * length s \<le> size_max"
  shows "\<exists>kept rest. segments s = kept @ rest \<and>
    write_string s sp = padded A_left sp (columns kept) (concat (map snd kept)) \<and>
    (if sp_precision sp < 0 then rest = []
     else columns kept \<le> nat (sp_precision sp) \<and>
       (rest = [] \<or> nat (sp_precision sp) < columns kept + display_width_of (fst (hd rest))))"
proof -
  have w: "0 \<le> sp_width sp" "sp_width sp < 2 ^ 31" and pr: "-1 \<le> sp_precision sp" "sp_precision sp < 2 ^ 31 - 1"
    using assms(1) by (simp_all add: specs_ok_def)
  have all: "columns (segments s) \<le> size_max" using columns_le[of s] assms(3) by (rule order_trans)
  define l where "l = (if sp_precision sp < 0 then size_max else unat (to_unsigned (sp_precision sp)))"
  define kept where "kept = fitting l (segments s)"
  obtain rest where r: "segments s = kept @ rest" "columns kept \<le> l"
    "rest = [] \<or> l < columns kept + display_width_of (fst (hd rest))"
    unfolding kept_def using fitting_prefix by blast
  have "concat (map snd kept) @ concat (map snd rest) = s" using segments_concat[of s] unfolding r(1) by simp
  then have t: "take (length (concat (map snd kept))) s = concat (map snd kept)" by (metis append_eq_conv_conj)
  have ws: "write_string s sp = padded A_left sp (columns kept) (concat (map snd kept))"
  proof (cases "sp_precision sp < 0 \<and> sp_width sp = 0")
    case True
    then have "kept = segments s" using all by (simp add: kept_def l_def fitting_all)
    then show ?thesis using True assms(2) by (simp add: write_string_def padded_wide)
  next
    case False
    have "for_each_codepoint (width_visitor False l) s (0, 0) = (columns kept, length (concat (map snd kept)))"
      using width_walk[of 0 l "segments s" 0] by (simp add: for_each_codepoint_walk kept_def)
    then show ?thesis using False assms(2) t by (auto simp: write_string_def l_def[symmetric] write_padded_eq[OF w])
  qed
  have "rest = []" if "sp_precision sp < 0"
  proof -
    have "kept = segments s" using all that by (simp add: kept_def l_def fitting_all)
    then show ?thesis using r(1) by simp
  qed
  moreover have "l = nat (sp_precision sp)" if "\<not> sp_precision sp < 0" using that pr by (simp add: l_def)
  ultimately show ?thesis using r ws by (intro exI[of _ kept] exI[of _ rest]) auto
qed

theorem write_string_truncates_witness:
  "\<exists>kept rest. segments ''log'' = kept @ rest \<and>
    write_string ''log'' (default_specs\<lparr>sp_width := 5\<rparr>) =
      padded A_left (default_specs\<lparr>sp_width := 5\<rparr>) (columns kept) (concat (map snd kept)) \<and> rest = []"
proof -
  note f = default_width_specs[of 5]
  have "specs_ok (default_specs\<lparr>sp_width := 5\<rparr>)" by (simp add: specs_ok_def f)
  then show ?thesis
    using write_string_truncates[of "default_specs\<lparr>sp_width := 5\<rparr>" "''log''"] f
    by (simp add: spec_type_defs size_max_def)
qed

section \<open>Digit grouping\<close>

text \<open>A grouping as a locale gives it: there is a separator only with a grouping.\<close>

definition grouping_ok :: "digit_grouping \<Rightarrow> bool" where
  "grouping_ok g \<longleftrightarrow> (dg_thousands_sep g \<noteq> [] \<longrightarrow> dg_grouping g \<noteq> [])"

definition state_ok :: "digit_grouping \<Rightarrow> int list \<times> int \<Rightarrow> bool" where
  "state_ok g st \<longleftrightarrow> (\<exists>pre. dg_grouping g = pre @ fst st \<and> list_all (\<lambda>v. 0 < v) pre) \<and> 0 \<le> snd st"

lemma next_sep_progress:
  assumes "grouping_ok g" "state_ok g st" "next_sep g st = (i, st')"
  shows "i = max_int \<or> (snd st < i \<and> i = snd st' \<and> state_ok g st')"
proof -
  obtain group pos where st: "st = (group, pos)" by fastforce
  obtain pre where pre: "dg_grouping g = pre @ group" "list_all (\<lambda>v. 0 < v) pre" "0 \<le> pos"
    using assms(2) by (auto simp: state_ok_def st)
  show ?thesis
  proof (cases "dg_thousands_sep g = []")
    case True
    then show ?thesis using assms(3) by (simp add: next_sep_def st)
  next
    case sep: False
    show ?thesis
    proof (cases group)
      case Nil
      then have "pre \<noteq> []" using assms(1) sep pre(1) by (simp add: grouping_ok_def)
      then have "0 < last (dg_grouping g)" using pre Nil by (simp add: list_all_iff)
      then show ?thesis using assms(2,3) sep Nil pre by (auto simp: next_sep_def st state_ok_def Let_def)
    next
      case (Cons v group')
      have "0 < v \<Longrightarrow> state_ok g (group', pos + v)"
        using pre Cons by (auto simp: state_ok_def intro!: exI[of _ "pre @ [v]"])
      then show ?thesis using assms(3) sep Cons by (auto simp: next_sep_def st Let_def split: if_splits)
    qed
  qed
qed

text \<open>Both loops end, and find the same separators.\<close>

lemma separator_loops:
  assumes "grouping_ok g" "state_ok g st" "n \<le> max_int"
  shows "\<exists>ps. separators_loop g n st acc = Some (acc @ ps) \<and> count_loop g n st c = Some (c + int (length ps)) \<and>
    sorted_wrt (<) ps \<and> (\<forall>p\<in>set ps. snd st < p \<and> p < n)"
  using assms(2)
proof (induction "nat (n - snd st)" arbitrary: st acc c rule: less_induct)
  case less
  obtain i st' where i: "next_sep g st = (i, st')" by (cases "next_sep g st") blast
  have pos: "0 \<le> snd st" using less(2) by (simp add: state_ok_def)
  show ?case
  proof (cases "n > i")
    case True
    then have st': "snd st < i" "i = snd st'" "state_ok g st'"
      using next_sep_progress[OF assms(1) less(2) i] assms(3) by auto
    then have "nat (n - snd st') < nat (n - snd st)" using True by simp
    from less(1)[OF this st'(3), of "acc @ [i]" "c + 1"] obtain ps where ps:
      "separators_loop g n st' (acc @ [i]) = Some ((acc @ [i]) @ ps)"
      "count_loop g n st' (c + 1) = Some (c + 1 + int (length ps))"
      "sorted_wrt (<) ps" "\<forall>p\<in>set ps. snd st' < p \<and> p < n" by blast
    have "separators_loop g n st acc = separators_loop g n st' (acc @ [i])"
      using True st'(1) pos by (subst separators_loop.simps) (simp add: i)
    moreover have "count_loop g n st c = count_loop g n st' (c + 1)"
      using True by (subst count_loop.simps) (simp add: i)
    ultimately show ?thesis using ps st' True by (intro exI[of _ "i # ps"]) auto
  next
    case False
    have "separators_loop g n st acc = Some acc" using False by (subst separators_loop.simps) (auto simp: i)
    moreover have "count_loop g n st c = Some c" using False by (subst count_loop.simps) (auto simp: i)
    ultimately show ?thesis by (intro exI[of _ "[]"]) simp
  qed
qed

text \<open>The reference: a separator in front of every digit with one of the positions to its right.\<close>

fun spaced :: "(int \<Rightarrow> bool) \<Rightarrow> string \<Rightarrow> string \<Rightarrow> string" where
  "spaced P sep [] = []"
| "spaced P sep (d # digits) = (if P (int (length (d # digits))) then sep else []) @ d # spaced P sep digits"

lemma group_digits_spaced:
  assumes "sorted_wrt (<) seps" "seps \<noteq> []" "seps ! 0 = 0" "k < length seps" "seps ! k \<le> int (length ds)"
    "\<And>j. k < j \<Longrightarrow> j < length seps \<Longrightarrow> int (length ds) < seps ! j"
  shows "group_digits g seps k ds = spaced (\<lambda>p. p \<in> set seps) (dg_thousands_sep g) ds"
  using assms(4-6)
proof (induction ds arbitrary: k)
  case (Cons d ds)
  show ?case
  proof (cases "int (length (d # ds)) = seps ! k")
    case True
    then have k: "k \<noteq> 0" using assms(3) by (intro notI) simp
    have lt: "seps ! (k - 1) < seps ! k" using sorted_wrt_nth_less[OF assms(1), of "k - 1" k] k Cons.prems(1) by simp
    have "group_digits g seps (k - 1) ds = spaced (\<lambda>p. p \<in> set seps) (dg_thousands_sep g) ds"
    proof (rule Cons.IH)
      show "int (length ds) < seps ! j" if "k - 1 < j" "j < length seps" for j
      proof (cases "j = k")
        case False
        then have "k < j" using that(1) k by linarith
        then show ?thesis using Cons.prems(3)[of j] that(2) by simp
      qed (use True in simp)
    qed (use lt True Cons.prems(1) in auto)
    moreover have "seps ! k \<in> set seps" using Cons.prems(1) by simp
    ultimately show ?thesis using True by simp
  next
    case False
    then have lt: "seps ! k < int (length (d # ds))" using Cons.prems(2) by simp
    have "int (length (d # ds)) \<notin> set seps"
    proof
      assume "int (length (d # ds)) \<in> set seps"
      then obtain j where j: "j < length seps" "seps ! j = int (length (d # ds))" by (auto simp: in_set_conv_nth)
      consider "j = k" | "j < k" | "k < j" by linarith
      then show False
      proof cases
        case 2
        then have "seps ! j < seps ! k" using sorted_wrt_nth_less[OF assms(1), of j k] Cons.prems(1) by simp
        then show False using j lt by simp
      qed (use j False Cons.prems(3)[of j] in auto)
    qed
    moreover have "group_digits g seps k ds = spaced (\<lambda>p. p \<in> set seps) (dg_thousands_sep g) ds"
      using Cons.prems lt by (intro Cons.IH) (auto dest: Cons.prems(3))
    ultimately show ?thesis using False by simp
  qed
qed simp

lemma grouping_loops:
  assumes "grouping_ok g" "int (length digits) \<le> max_int"
  shows "\<exists>ps. separators_loop g (int (length digits)) (initial_state g) [0] = Some (0 # ps) \<and>
    count_separators g (int (length digits)) = Some (int (length ps)) \<and> sorted_wrt (<) ps \<and>
    (\<forall>p\<in>set ps. 0 < p \<and> p < int (length digits)) \<and>
    apply_grouping g digits = Some (spaced (\<lambda>p. p \<in> set ps) (dg_thousands_sep g) digits)"
proof -
  have "state_ok g (initial_state g)" by (auto simp: state_ok_def initial_state_def intro!: exI[of _ "[]"])
  from separator_loops[OF assms(1) this assms(2), of "[0]" 0] obtain ps where ps:
    "separators_loop g (int (length digits)) (initial_state g) [0] = Some (0 # ps)"
    "count_separators g (int (length digits)) = Some (int (length ps))" "sorted_wrt (<) ps"
    "\<forall>p\<in>set ps. 0 < p \<and> p < int (length digits)"
    by (auto simp: count_separators_def initial_state_def)
  have sp: "spaced (\<lambda>p. p \<in> set (0 # ps)) sep ds = spaced (\<lambda>p. p \<in> set ps) sep ds" for sep ds
    by (induction ds) auto
  have "group_digits g (0 # ps) (length (0 # ps) - 1) digits = spaced (\<lambda>p. p \<in> set (0 # ps)) (dg_thousands_sep g) digits"
  proof (rule group_digits_spaced)
    have "(0 # ps) ! (length (0 # ps) - 1) \<in> set (0 # ps)" by (rule nth_mem) simp
    then show "(0 # ps) ! (length (0 # ps) - 1) \<le> int (length digits)" using ps(4) by auto
  qed (use ps in auto)
  then show ?thesis using ps sp by (intro exI[of _ ps]) (simp add: apply_grouping_def)
qed

lemma spaced_filter: "c \<notin> set digits \<Longrightarrow> filter (\<lambda>x. x \<noteq> c) (spaced P [c] digits) = digits"
  by (induction digits) auto

lemma spaced_length:
  "length (spaced P sep digits) = length digits + length sep * card {p \<in> {1..int (length digits)}. P p}"
proof (induction digits)
  case (Cons d digits)
  define n where "n = int (length (d # digits))"
  define S where "S = {p \<in> {1..int (length digits)}. P p}"
  have S: "finite S" "n \<notin> S"
    unfolding S_def by (rule finite_subset[of _ "{1..int (length digits)}"], auto simp: n_def)
  have eq: "{p \<in> {1..n}. P p} = (if P n then insert n S else S)"
  proof (rule set_eqI)
    fix p show "p \<in> {p \<in> {1..n}. P p} \<longleftrightarrow> p \<in> (if P n then insert n S else S)"
      by (cases "p = n") (auto simp: n_def S_def)
  qed
  have "card {p \<in> {1..n}. P p} = (if P n then 1 else 0) + card S"
    unfolding eq using S by simp
  moreover have "length (spaced P sep digits) = length digits + length sep * card S" using Cons.IH by (simp only: S_def)
  moreover have "length (spaced P sep (d # digits)) = (if P n then length sep else 0) + 1 + length (spaced P sep digits)"
    by (simp add: n_def)
  ultimately show ?case unfolding n_def[symmetric] by (simp add: algebra_simps)
qed simp

text \<open>C40: For any grouping a locale can give with a separator of one character that is not a digit of the
  number, the loops over it end; taking the separators out of the
  grouped text gives the digits back, and the number of characters written is the one the padding
  was computed with.\<close>

theorem apply_grouping_correct:
  assumes "grouping_ok g" "dg_thousands_sep g = [c]" "c \<notin> set digits" "int (length digits) \<le> max_int"
  shows "\<exists>n t. count_separators g (int (length digits)) = Some n \<and> apply_grouping g digits = Some t \<and>
    filter (\<lambda>x. x \<noteq> c) t = digits \<and> int (length t) = int (length digits) + n"
proof -
  obtain ps where ps: "count_separators g (int (length digits)) = Some (int (length ps))" "sorted_wrt (<) ps"
    "\<forall>p\<in>set ps. 0 < p \<and> p < int (length digits)"
    "apply_grouping g digits = Some (spaced (\<lambda>p. p \<in> set ps) [c] digits)"
    using grouping_loops[OF assms(1,4)] assms(2) by auto
  have "distinct ps" using ps(2) by (simp add: strict_sorted_iff)
  moreover have "{p \<in> {1..int (length digits)}. p \<in> set ps} = set ps" using ps(3) by fastforce
  ultimately have "card {p \<in> {1..int (length digits)}. p \<in> set ps} = length ps" by (simp add: distinct_card)
  then show ?thesis using ps spaced_filter[OF assms(3)] spaced_length[of "\<lambda>p. p \<in> set ps" "[c]" digits] by simp
qed

theorem apply_grouping_correct_witness:
  "\<exists>n t. count_separators \<lparr>dg_grouping = [3], dg_thousands_sep = '',''\<rparr> 7 = Some n \<and>
    apply_grouping \<lparr>dg_grouping = [3], dg_thousands_sep = '',''\<rparr> ''1234567'' = Some t \<and>
    filter (\<lambda>x. x \<noteq> CHR '','') t = ''1234567'' \<and> int (length t) = 7 + n"
  using apply_grouping_correct[of "\<lparr>dg_grouping = [3], dg_thousands_sep = '',''\<rparr>" "CHR '',''" "''1234567''"]
  by (simp add: grouping_ok_def max_int_def)

section \<open>Padding\<close>

lemma length_fill: "length (sp_fill sp) = 4 \<Longrightarrow> fill_size sp \<le> 4 \<Longrightarrow> length (fill n sp) = n * fill_size sp"
  by (induction n) (auto simp: fill_def spec_fill_def)

text \<open>Padding leaves the text in one piece and adds as many fill characters as columns are missing,
  none when the text is as wide as the width: in front of a right-aligned and behind a left-aligned
  text, half of them (rounded down) in front of a centered one; without an alignment the side is
  the default of the type.\<close>

theorem write_padded_layout:
  assumes "0 \<le> sp_width sp" "sp_width sp < 2 ^ 31" "length (sp_fill sp) = 4" "fill_size sp \<le> 4"
    "default_align \<in> {A_left, A_right}"
  shows "\<exists>l r. write_padded default_align sp width f = fill l sp @ f @ fill r sp \<and> l + r = nat (sp_width sp) - width \<and>
    length (write_padded default_align sp width f) = length f + (nat (sp_width sp) - width) * fill_size sp \<and>
    (case (if spec_align sp = A_none then default_align else spec_align sp) of
       A_left \<Rightarrow> l = 0
     | A_center \<Rightarrow> l = (nat (sp_width sp) - width) div 2
     | _ \<Rightarrow> r = 0)"
proof -
  define n where "n = nat (sp_width sp) - width"
  define l where "l = left_share default_align (spec_align sp) n"
  have l: "l \<le> n" by (simp add: l_def left_share_def split: align.splits)
  have "write_padded default_align sp width f = fill l sp @ f @ fill (n - l) sp"
    unfolding write_padded_eq[OF assms(1,2)] by (simp add: padded_def l_def n_def Let_def)
  moreover from this have "length (write_padded default_align sp width f) = length f + n * fill_size sp"
    using l assms(3,4) by (simp add: length_fill add_mult_distrib[symmetric])
  moreover have "case (if spec_align sp = A_none then default_align else spec_align sp) of
      A_left \<Rightarrow> l = 0 | A_center \<Rightarrow> l = n div 2 | _ \<Rightarrow> n - l = 0"
    using assms(5) by (auto simp: l_def left_share_def split: align.splits)
  ultimately show ?thesis using l unfolding n_def[symmetric] by (intro exI[of _ l] exI[of _ "n - l"]) simp
qed

theorem write_padded_layout_witness:
  "length (write_padded A_left (default_specs\<lparr>sp_width := 7\<rparr>) 3 ''log'') = 7"
proof -
  have "length (sp_fill (default_specs\<lparr>sp_width := 7\<rparr>)) = 4" by (simp add: default_specs_def)
  then show ?thesis
    using write_padded_layout[of "default_specs\<lparr>sp_width := 7\<rparr>" A_left 3 "''log''"] default_width_specs[of 7]
    by auto
qed

end
