(* ===== verification/Fmt_Float.thy ===== *)
theory Fmt_Float
  imports Fmt_Write_Props
begin

text \<open>
  \<open>fmt/format.h\<close>: writing floating-point arguments.  The layout of the text is modelled: fixed
  and exponential notation, padding, grouping, sign, infinities and not-a-numbers.  The digits
  themselves are parameters: a record of functions from a value to its digits and exponent.  Dragonbox and
  \<open>format_dragon\<close>, which compute them, are modelled in theories of their own; the hexadecimal format is not.
\<close>

section \<open>Values\<close>

text \<open>Bit patterns of \<open>float\<close>, \<open>double\<close> and the 80-bit \<open>long double\<close>.\<close>

datatype fp_value = Fp_float "32 word" | Fp_double "64 word" | Fp_long_double "128 word"

fun fp_signbit :: "fp_value \<Rightarrow> bool" where
  "fp_signbit (Fp_float w) = bit w 31"
| "fp_signbit (Fp_double w) = bit w 63"
| "fp_signbit (Fp_long_double w) = bit w 79"

definition exponent_field :: "nat \<Rightarrow> nat \<Rightarrow> 'a::len word" where
  "exponent_field significand_bits exponent_bits = push_bit significand_bits (push_bit exponent_bits 1 - 1)"

fun fp_isfinite :: "fp_value \<Rightarrow> bool" where
  "fp_isfinite (Fp_float w) = (w AND exponent_field 23 8 \<noteq> exponent_field 23 8)"
| "fp_isfinite (Fp_double w) = (w AND exponent_field 52 11 \<noteq> exponent_field 52 11)"
| "fp_isfinite (Fp_long_double w) = (w AND exponent_field 64 15 \<noteq> exponent_field 64 15)"

fun fp_isnan :: "fp_value \<Rightarrow> bool" where
  "fp_isnan (Fp_float w) = (\<not> fp_isfinite (Fp_float w) \<and> w AND mask 23 \<noteq> 0)"
| "fp_isnan (Fp_double w) = (\<not> fp_isfinite (Fp_double w) \<and> w AND mask 52 \<noteq> 0)"
| "fp_isnan (Fp_long_double w) = (\<not> fp_isfinite (Fp_long_double w) \<and> w AND mask 63 \<noteq> 0)"

text \<open>\<open>is_fast_float\<close>, \<open>exp_upper\<close> and the width of the significand that Dragonbox returns.\<close>

fun is_fast_float :: "fp_value \<Rightarrow> bool" where
  "is_fast_float (Fp_long_double w) = False"
| "is_fast_float v = True"

fun exp_upper :: "fp_value \<Rightarrow> int" where
  "exp_upper (Fp_float w) = min 16 (6 + 1)"
| "exp_upper (Fp_double w) = min 16 (15 + 1)"
| "exp_upper (Fp_long_double w) = min 16 (18 + 1)"

fun significand_bits :: "fp_value \<Rightarrow> nat" where
  "significand_bits (Fp_float w) = 32"
| "significand_bits v = 64"

section \<open>Significands\<close>

text \<open>\<open>dragonbox::decimal_fp\<close> with a number and \<open>big_decimal_fp\<close> with its digits.\<close>

datatype decimal_fp =
    Decimal_fp (num_bits: nat) (significand: nat) (fp_exponent: int)
  | Big_decimal_fp (significand_text: string) (fp_exponent: int)

fun get_significand_size :: "decimal_fp \<Rightarrow> nat" where
  "get_significand_size (Big_decimal_fp s e) = length s"
| "get_significand_size (Decimal_fp n sig e) = count_digits n sig"

fun write_significand :: "decimal_fp \<Rightarrow> nat \<Rightarrow> string" where
  "write_significand (Big_decimal_fp s e) significand_size = take significand_size s"
| "write_significand (Decimal_fp n sig e) significand_size = format_decimal sig significand_size"

text \<open>With zeros behind, grouped.\<close>

definition write_significand_zeros :: "decimal_fp \<Rightarrow> nat \<Rightarrow> int \<Rightarrow> digit_grouping \<Rightarrow> string option" where
  "write_significand_zeros f significand_size exponent g =
     (if \<not> has_separator g then Some (write_significand f significand_size @ replicate (nat exponent) (CHR ''0''))
      else apply_grouping g (write_significand f significand_size @ replicate (nat exponent) (CHR ''0'')))"

text \<open>A number with a decimal point, written from the end of a buffer: pairs of digits, an odd one,
  the point, and the integral part in front of it.  \<open>pos\<close> is the pointer.\<close>

fun pairs_loop :: "nat \<Rightarrow> string \<Rightarrow> nat \<Rightarrow> nat \<Rightarrow> string \<times> nat \<times> nat" where
  "pairs_loop 0 out pos sig = (out, pos, sig)"
| "pairs_loop (Suc i) out pos sig =
     pairs_loop i (write2digits (pos - 2) (sig mod 100) out) (pos - 2) (sig div 100)"

definition point_number :: "nat \<Rightarrow> nat \<Rightarrow> nat \<Rightarrow> char \<Rightarrow> string" where
  "point_number sig significand_size integral_size decimal_point =
     (if decimal_point = CHR 0x00 then format_decimal sig significand_size
      else
        let out = replicate (significand_size + 1) (CHR 0x00);
            floating_size = significand_size - integral_size;
            (out, pos, sig) = pairs_loop (floating_size div 2) out (significand_size + 1) sig;
            (out, pos, sig) =
              (if floating_size mod 2 \<noteq> 0
               then (out[pos - 1 := digit_char (int (sig mod 10))], pos - 1, sig div 10) else (out, pos, sig));
            out = out[pos - 1 := decimal_point];
            pos = pos - 1 - integral_size
        in take pos out @ fst (do_format_decimal (drop pos out) sig integral_size))"

fun write_significand_point :: "decimal_fp \<Rightarrow> nat \<Rightarrow> nat \<Rightarrow> char \<Rightarrow> string" where
  "write_significand_point (Decimal_fp n sig e) significand_size integral_size decimal_point =
     point_number sig significand_size integral_size decimal_point"
| "write_significand_point (Big_decimal_fp s e) significand_size integral_size decimal_point =
     take integral_size s @
     (if decimal_point = CHR 0x00 then []
      else decimal_point # drop integral_size (take significand_size s))"

definition write_significand_grouped ::
    "decimal_fp \<Rightarrow> nat \<Rightarrow> nat \<Rightarrow> char \<Rightarrow> digit_grouping \<Rightarrow> string option" where
  "write_significand_grouped f significand_size integral_size decimal_point g =
     (let buffer = write_significand_point f significand_size integral_size decimal_point
      in if \<not> has_separator g then Some buffer
         else map_option (\<lambda>t. t @ drop integral_size buffer) (apply_grouping g (take integral_size buffer)))"

section \<open>Exponents\<close>

definition compute_exp_size :: "int \<Rightarrow> int" where
  "compute_exp_size exp =
     (let prefix_size = 2; abs_exp = (if exp \<ge> 0 then exp else - exp)
      in if abs_exp < 100 then prefix_size + 2 else prefix_size + (if abs_exp \<ge> 1000 then 4 else 3))"

definition write_exponent :: "int \<Rightarrow> string" where
  "write_exponent exp =
     (let sgn = (if exp < 0 then CHR ''-'' else CHR ''+'');
          uexp = unat (to_unsigned (if exp < 0 then - exp else exp));
          top = digits2 (uexp div 100);
          d = digits2 (if uexp \<ge> 100 then uexp mod 100 else uexp)
      in [sgn] @
         (if uexp \<ge> 100 then (if uexp \<ge> 1000 then [top ! 0] else []) @ [top ! 1] else []) @ [d ! 0, d ! 1])"

definition use_fixed :: "int \<Rightarrow> int \<Rightarrow> bool" where
  "use_fixed exp upper \<longleftrightarrow> -4 \<le> exp \<and> exp < upper"

section \<open>Fixed and exponential notation\<close>

text \<open>\<open>fallback_digit_grouping\<close> has no separator.\<close>

definition fallback_digit_grouping :: digit_grouping where
  "fallback_digit_grouping = \<lparr>dg_grouping = [], dg_thousands_sep = []\<rparr>"

definition sign_prefix :: "sgn \<Rightarrow> string" where
  "sign_prefix s = (if s \<noteq> S_none then [getsign s] else [])"

definition write_fixed ::
    "decimal_fp \<Rightarrow> nat \<Rightarrow> char \<Rightarrow> 'a specs_scheme \<Rightarrow> sgn \<Rightarrow> digit_grouping \<Rightarrow> string option" where
  "write_fixed f significand_size decimal_point sp s grouping =
     (let exp = fp_exponent f + int significand_size;
          size = int significand_size + (if s \<noteq> S_none then 1 else 0)
      in if fp_exponent f \<ge> 0 then
           let size = size + fp_exponent f;
               num_zeros = sp_precision sp - exp;
               num_zeros = (if spec_alt sp \<and> num_zeros \<le> 0 \<and> spec_type sp \<noteq> pres_fixed then 0 else num_zeros);
               size = (if spec_alt sp then size + 1 + (if num_zeros > 0 then num_zeros else 0) else size)
           in case count_separators grouping exp of
                None \<Rightarrow> None
              | Some separators \<Rightarrow>
                  map_option (\<lambda>t. write_padded A_right sp (nat (size + separators))
                      (sign_prefix s @ t @
                       (if \<not> spec_alt sp then []
                        else decimal_point # (if num_zeros > 0 then replicate (nat num_zeros) (CHR ''0'') else []))))
                    (write_significand_zeros f significand_size (fp_exponent f) grouping)
         else if exp > 0 then
           let num_zeros = (if spec_alt sp then sp_precision sp - int significand_size else 0);
               size = size + 1 + max num_zeros 0
           in case count_separators grouping exp of
                None \<Rightarrow> None
              | Some separators \<Rightarrow>
                  map_option (\<lambda>t. write_padded A_right sp (nat (size + separators))
                      (sign_prefix s @ t @
                       (if num_zeros > 0 then replicate (nat num_zeros) (CHR ''0'') else [])))
                    (write_significand_grouped f significand_size (nat exp) decimal_point grouping)
         else
           let num_zeros = - exp;
               num_zeros = (if significand_size = 0 \<and> sp_precision sp \<ge> 0 \<and> sp_precision sp < num_zeros
                            then sp_precision sp else num_zeros);
               pointy = (num_zeros \<noteq> 0 \<or> significand_size \<noteq> 0 \<or> spec_alt sp);
               size = size + 1 + (if pointy then 1 else 0) + num_zeros
           in Some (write_padded A_right sp (nat size)
                (sign_prefix s @ ''0'' @
                 (if \<not> pointy then []
                  else decimal_point # replicate (nat num_zeros) (CHR ''0'') @ write_significand f significand_size))))"

definition do_write_float ::
    "locale_data \<Rightarrow> decimal_fp \<Rightarrow> 'a specs_scheme \<Rightarrow> sgn \<Rightarrow> int \<Rightarrow> string option" where
  "do_write_float loc f sp s upper =
     (let point = (if spec_localized sp then decimal_point_impl loc else CHR ''.'');
          significand_size = get_significand_size f;
          exp = fp_exponent f + int significand_size - 1
      in if spec_type sp = pres_fixed \<or>
            (spec_type sp \<noteq> pres_exp \<and> use_fixed exp (if sp_precision sp > 0 then sp_precision sp else upper))
         then write_fixed f significand_size point sp s (grouping_of_locale loc (spec_localized sp))
         else
           let num_zeros = (if spec_alt sp then max (sp_precision sp - int significand_size) 0 else 0);
               point = (if \<not> spec_alt sp \<and> significand_size = 1 then CHR 0x00 else point);
               size = int significand_size + (if s \<noteq> S_none then 1 else 0) + num_zeros +
                 (if point \<noteq> CHR 0x00 then 1 else 0) + compute_exp_size exp;
               text = sign_prefix s @ write_significand_point f significand_size 1 point @
                 (if num_zeros > 0 then replicate (nat num_zeros) (CHR ''0'') else []) @
                 [if spec_upper sp then CHR ''E'' else CHR ''e''] @ write_exponent exp
           in Some (if sp_width sp > 0 then write_padded A_right sp (nat size) text else text))"

section \<open>A floating-point argument\<close>

text \<open>Where the digits come from: the shortest decimal that reads back as the value; the digits at a
  precision, with the exponent, or an error; the hexadecimal text.\<close>

record float_digits =
  fd_to_decimal :: "fp_value \<Rightarrow> nat \<times> int"
  fd_format_float :: "fp_value \<Rightarrow> int \<Rightarrow> specs \<Rightarrow> exn + string \<times> int"
  fd_format_hexfloat :: "fp_value \<Rightarrow> specs \<Rightarrow> exn + string"

definition shortest :: "float_digits \<Rightarrow> fp_value \<Rightarrow> decimal_fp" where
  "shortest fd v = (case fd_to_decimal fd v of (sig, e) \<Rightarrow> Decimal_fp (significand_bits v) sig e)"

text \<open>The precision and the specifiers that the digits are computed with.\<close>

definition float_precision :: "int \<Rightarrow> specs \<Rightarrow> exn + int \<times> specs" where
  "float_precision precision sp =
     (if spec_type sp = pres_exp then
        (if precision = max_int then fail ''number is too big''
         else Inr (precision + 1, if sp_precision sp \<noteq> 0 then set_alt sp else sp))
      else if spec_type sp = pres_fixed then Inr (precision, if sp_precision sp \<noteq> 0 then set_alt sp else sp)
      else Inr (if precision = 0 then 1 else precision, sp))"

definition write_float_arg :: "float_digits \<Rightarrow> locale_data \<Rightarrow> fp_value \<Rightarrow> specs \<Rightarrow> exn + string option" where
  "write_float_arg fd loc v sp =
     (let s = (if fp_signbit v then S_minus else spec_sign sp)
      in if \<not> fp_isfinite v then Inr (Some (write_nonfinite (fp_isnan v) sp s))
         else
           let numeric = (spec_align sp = A_numeric \<and> s \<noteq> S_none);
               front = (if numeric then [getsign s] else []);
               sp = (if numeric \<and> sp_width sp \<noteq> 0 then sp\<lparr>sp_width := sp_width sp - 1\<rparr> else sp);
               s = (if numeric then S_none else s);
               precision = sp_precision sp;
               finish = map_option ((@) front)
           in if precision < 0 \<and> spec_type sp = pres_none \<and> is_fast_float v then
                Inr (finish (do_write_float loc (shortest fd v) sp s (exp_upper v)))
              else
                let precision = (if precision < 0 \<and> spec_type sp \<noteq> pres_none then 6 else precision)
                in if spec_type sp = pres_hexfloat then
                     chain (fd_format_hexfloat fd v sp) (\<lambda>t.
                       Inr (finish (Some (write_bytes A_right sp (sign_prefix s @ t)))))
                   else
                     chain (float_precision precision sp) (\<lambda>(precision, sp).
                     chain (fd_format_float fd v precision sp) (\<lambda>(digits, exp).
                       Inr (finish (do_write_float loc (Big_decimal_fp digits exp)
                         (sp\<lparr>sp_precision := precision\<rparr>) s (exp_upper v))))))"

text \<open>Without specifiers.  The text is written through a pointer when the output buffer has room for it,
  and through the iterator otherwise.\<close>

definition exponential_pointer :: "sgn \<Rightarrow> nat \<Rightarrow> nat \<Rightarrow> int \<Rightarrow> string" where
  "exponential_pointer s sig significand_size exponent =
     (let abs_exponent = (if exponent < 0 then - exponent else exponent);
          digits =
            (if significand_size \<noteq> 1 then
               let (b, _) = do_format_decimal (replicate (significand_size + 1) (CHR 0x00)) sig (significand_size + 1);
                   b = b[0 := b ! 1]
               in b[1 := CHR ''.'']
             else [digit_char (int sig)])
      in (if s \<noteq> S_none then ''-'' else []) @ digits @ (if exponent < 0 then ''e-'' else ''e+'') @
         (if abs_exponent \<ge> 100 then [digit_char (abs_exponent div 100)] else []) @
         digits2 (nat (if abs_exponent \<ge> 100 then abs_exponent mod 100 else abs_exponent)))"

definition exponential_iterator :: "sgn \<Rightarrow> decimal_fp \<Rightarrow> nat \<Rightarrow> int \<Rightarrow> string" where
  "exponential_iterator s f significand_size exponent =
     (if s \<noteq> S_none then ''-'' else []) @
     write_significand_point f significand_size 1 (if significand_size \<noteq> 1 then CHR ''.'' else CHR 0x00) @
     ''e'' @ write_exponent exponent"

definition write_float_default :: "float_digits \<Rightarrow> locale_data \<Rightarrow> bool \<Rightarrow> fp_value \<Rightarrow> exn + string option" where
  "write_float_default fd loc has_room v =
     (if \<not> is_fast_float v then write_float_arg fd loc v default_specs
      else
        let s = (if fp_signbit v then S_minus else S_none)
        in if \<not> fp_isfinite v then Inr (Some (write_nonfinite (fp_isnan v) default_specs s))
           else
             let dec = shortest fd v;
                 significand_size = get_significand_size dec;
                 exponent = fp_exponent dec + int significand_size - 1
             in if use_fixed exponent (exp_upper v)
                then Inr (write_fixed dec significand_size (CHR ''.'') default_specs s fallback_digit_grouping)
                else Inr (Some (if has_room
                       then exponential_pointer s (significand dec) significand_size exponent
                       else exponential_iterator s dec significand_size exponent)))"

section \<open>The number with a point\<close>

text \<open>The last digits of a number, leading zeros included.\<close>

fun low_digits :: "nat \<Rightarrow> nat \<Rightarrow> string" where
  "low_digits 0 v = []"
| "low_digits (Suc k) v = low_digits k (v div 10) @ [digit_char (int (v mod 10))]"

lemma length_low_digits [simp]: "length (low_digits k v) = k"
  by (induction k arbitrary: v) auto

lemma low_digits_2: "low_digits (Suc (Suc k)) v = low_digits k (v div 100) @ digits2 (v mod 100)"
proof -
  have "v div 10 div 10 = v div 100" by (simp add: div_mult2_eq[symmetric])
  moreover have "v mod 100 div 10 = v div 10 mod 10" "v mod 100 mod 10 = v mod 10"
    using mod_mult2_eq[of v 10 10] by simp_all
  ultimately show ?thesis by (simp add: digits2_eq)
qed

lemma dec_string_low: "k < length (dec_string v) \<Longrightarrow>
    dec_string v = dec_string (v div 10 ^ k) @ low_digits k v"
proof (induction k arbitrary: v)
  case (Suc k)
  then have v: "10 \<le> v" by (cases "v < 10") simp_all
  then have l: "length (dec_string v) = Suc (length (dec_string (v div 10)))" by (simp add: dec_string_step)
  have "dec_string (v div 10) = dec_string (v div 10 div 10 ^ k) @ low_digits k (v div 10)"
    using Suc l by simp
  then show ?case using v by (simp add: dec_string_step div_mult2_eq)
qed simp

lemma pairs_loop_eq:
  "2 * i \<le> pos \<Longrightarrow> pos \<le> length out \<Longrightarrow>
   pairs_loop i out pos v = (patch (pos - 2 * i) (low_digits (2 * i) v) out, pos - 2 * i, v div 100 ^ i)"
proof (induction i arbitrary: out pos v)
  case (Suc i)
  let ?out = "write2digits (pos - 2) (v mod 100) out"
  have len: "length ?out = length out" using Suc.prems by (simp add: write2digits_def)
  have "pairs_loop (Suc i) out pos v =
      (patch (pos - 2 - 2 * i) (low_digits (2 * i) (v div 100)) ?out, pos - 2 - 2 * i, v div 100 div 100 ^ i)"
    using Suc.IH[of "pos - 2" ?out "v div 100"] Suc.prems len by simp
  also have "patch (pos - 2 - 2 * i) (low_digits (2 * i) (v div 100)) ?out =
      patch (pos - 2) (digits2 (v mod 100)) (patch (pos - 2 - 2 * i) (low_digits (2 * i) (v div 100)) out)"
    unfolding write2digits_def using Suc.prems by (intro patch_commute[symmetric]) simp_all
  also have "\<dots> = patch (pos - 2 * Suc i) (low_digits (2 * Suc i) v) out"
    using Suc.prems by (subst patch_patch_adjacent) (simp_all add: low_digits_2 del: low_digits.simps)
  finally show ?case by (simp add: div_mult2_eq)
qed simp

text \<open>The reference: the decimal numeral with the point put in.\<close>

lemma point_number_eq:
  assumes n: "n = length (dec_string v)" and k: "1 \<le> k" "k \<le> n" and p: "point \<noteq> CHR 0x00"
  shows "point_number v n k point = take k (dec_string v) @ point # drop k (dec_string v)"
proof -
  define m where "m = n - k"
  define i where "i = m div 2"
  define out where "out = replicate (n + 1) (CHR 0x00)"
  have lo: "length out = n + 1" by (simp add: out_def)
  have i: "2 * i \<le> m" "m \<le> n" by (simp_all add: i_def m_def)
  define r where "r = m mod 2"
  have m: "m = 2 * i + r" "r < 2" by (simp_all add: i_def r_def)
  have loop: "pairs_loop i out (n + 1) v = (patch (n + 1 - 2 * i) (low_digits (2 * i) v) out, n + 1 - 2 * i, v div 100 ^ i)"
    using i lo by (intro pairs_loop_eq) simp_all
  define w where "w = v div 100 ^ i"
  define out1 where "out1 = patch (n + 1 - 2 * i) (low_digits (2 * i) v) out"
  have l1: "length out1 = n + 1" using i lo by (simp add: out1_def)
  have odd: "(if m mod 2 \<noteq> 0 then (out1[n + 1 - 2 * i - 1 := digit_char (int (w mod 10))], n + 1 - 2 * i - 1, w div 10)
      else (out1, n + 1 - 2 * i, w)) = (patch (n + 1 - m) (low_digits m v) out, n + 1 - m, v div 10 ^ m)"
  proof (cases "r = 0")
    case True
    have "m mod 2 = 0" using True unfolding r_def .
    moreover have "m = 2 * i" using m(1) True by linarith
    ultimately show ?thesis by (simp add: out1_def w_def power_mult)
  next
    case False
    then have r: "r = 1" using m(2) by simp
    have "(10::nat) ^ m = 100 ^ i * 10" using m(1) r by (simp add: power_mult)
    then have e: "w div 10 = v div 10 ^ m" by (simp only: w_def div_mult2_eq)
    have "low_digits m v = digit_char (int (w mod 10)) # low_digits (2 * i) v"
    proof -
      have gen: "low_digits (Suc j) x = digit_char (int (x div 10 ^ j mod 10)) # low_digits j x" for j x
        by (induction j arbitrary: x) (simp_all add: div_mult2_eq)
      show ?thesis using gen[of "2 * i" v] m(1) r by (simp add: w_def power_mult)
    qed
    moreover have "out1[n + 1 - 2 * i - 1 := c] = patch (n + 1 - m) (c # low_digits (2 * i) v) out" for c
    proof -
      have pos: "n + 1 - 2 * i - 1 = n + 1 - m" using m(1) r by simp
      have "out1[n + 1 - m := c] = patch (n + 1 - m) [c] out1" using l1 k m(1) r i by (intro list_update_patch) (simp add: m_def)
      also have "\<dots> = patch (n + 1 - 2 * i) (low_digits (2 * i) v) (patch (n + 1 - m) [c] out)"
        unfolding out1_def using i lo m(1) r by (intro patch_commute[symmetric]) simp_all
      also have "\<dots> = patch (n + 1 - m) ([c] @ low_digits (2 * i) v) out"
        using i lo m(1) r by (intro patch_patch_adjacent) simp_all
      finally show ?thesis unfolding pos by simp
    qed
    moreover have "m mod 2 \<noteq> 0" using False unfolding r_def .
    moreover have "n + 1 - 2 * i - 1 = n + 1 - m" using r m(1) by linarith
    ultimately show ?thesis using e by (simp del: low_digits.simps)
  qed
  define out2 where "out2 = patch (n + 1 - m) (low_digits m v) out"
  have l2: "length out2 = n + 1" using i lo by (simp add: out2_def)
  have d2: "drop (n + 1 - m) out2 = low_digits m v" using i lo by (simp add: out2_def patch_def)
  have pos: "n + 1 - m - 1 = k" using k by (simp add: m_def)
  have d3: "drop k (out2[k := point]) = point # low_digits m v"
  proof -
    have "k < length out2" using k l2 by simp
    then have "drop k (out2[k := point]) = point # drop (Suc k) out2" by (simp add: upd_conv_take_nth_drop)
    also have "Suc k = n + 1 - m" using pos k by (simp add: m_def)
    finally show ?thesis using d2 by simp
  qed
  have ds: "dec_string v = dec_string (v div 10 ^ m) @ low_digits m v"
    using k n by (intro dec_string_low) (simp add: m_def)
  have "length (dec_string v) = length (dec_string (v div 10 ^ m)) + m"
    by (subst ds) (simp only: length_append length_low_digits)
  moreover have "m + k = n" using k by (simp add: m_def)
  ultimately have lk: "length (dec_string (v div 10 ^ m)) = k" using n by linarith
  have "fst (do_format_decimal (out2[k := point]) (v div 10 ^ m) k) = dec_string (v div 10 ^ m) @ point # low_digits m v"
    using lk l2 k d3 by (simp add: do_format_decimal_eq patch_def)
  moreover have "point_number v n k point = fst (do_format_decimal (out2[k := point]) (v div 10 ^ m) k)"
    unfolding point_number_def Let_def using p
    by (simp only: if_False m_def[symmetric] i_def[symmetric] out_def[symmetric] loop prod.case
        out1_def[symmetric] w_def[symmetric] odd out2_def[symmetric] pos) simp
  ultimately show ?thesis using ds lk by simp
qed

section \<open>Where the separators go\<close>

text \<open>The reference for a grouping: the sizes of the groups from the right, the last one repeated, up to a
  size that is not positive or 127.  A separator stands in front of every digit but the first that
  ends a group.\<close>

fun group_end :: "int list \<Rightarrow> int \<Rightarrow> bool" where
  "group_end [] p = False"
| "group_end [v] p = (0 < v \<and> v \<noteq> 127 \<and> 0 < p \<and> p mod v = 0)"
| "group_end (v # w # vs) p = (0 < v \<and> v \<noteq> 127 \<and> (p = v \<or> group_end (w # vs) (p - v)))"

definition grouped :: "digit_grouping \<Rightarrow> string \<Rightarrow> string" where
  "grouped g digits =
     spaced (\<lambda>p. p < int (length digits) \<and> group_end (dg_grouping g) p) (dg_thousands_sep g) digits"

lemma group_end_positive: "group_end vs p \<Longrightarrow> 0 < p"
  by (induction vs p rule: group_end.induct) auto

lemma spaced_nothing: "spaced P [] digits = digits"
  by (induction digits) auto

lemma spaced_cong: "(\<And>p. 0 < p \<Longrightarrow> p \<le> int (length digits) \<Longrightarrow> P p = Q p) \<Longrightarrow> spaced P sep digits = spaced Q sep digits"
  by (induction digits) auto

definition state_end :: "digit_grouping \<Rightarrow> int list \<times> int \<Rightarrow> int \<Rightarrow> bool" where
  "state_end g st p \<longleftrightarrow> (case st of (gs, pos) \<Rightarrow>
     pos < p \<and> (if gs = [] then (p - pos) mod last (dg_grouping g) = 0 else group_end gs (p - pos)))"

lemma mod_step: "0 < (v::int) \<Longrightarrow> 0 < p \<and> p mod v = 0 \<longleftrightarrow> p = v \<or> 0 < p - v \<and> (p - v) mod v = 0"
  by (cases "p < v") auto

text \<open>The next separator is the next end of a group.\<close>

lemma next_sep_end:
  assumes "grouping_ok g" "has_separator g" "state_ok g st" "next_sep g st = (i, st')"
  shows "(i = max_int \<and> (\<forall>p. \<not> state_end g st p)) \<or>
    (snd st < i \<and> i = snd st' \<and> state_ok g st' \<and> (\<forall>p. state_end g st p \<longleftrightarrow> p = i \<or> state_end g st' p))"
proof -
  obtain gs pos where st: "st = (gs, pos)" by fastforce
  obtain pre where pre: "dg_grouping g = pre @ gs" "list_all (\<lambda>v. 0 < v) pre" "0 \<le> pos"
    using assms(3) by (auto simp: state_ok_def st)
  have sep: "dg_thousands_sep g \<noteq> []" using assms(2) by (simp add: has_separator_def)
  show ?thesis
  proof (cases gs)
    case Nil
    then have "pre \<noteq> []" using assms(1) sep pre(1) by (simp add: grouping_ok_def)
    then have v: "0 < last (dg_grouping g)" using pre Nil by (simp add: list_all_iff)
    have n: "i = pos + last (dg_grouping g)" "st' = ([], i)" using assms(4) sep Nil by (auto simp: next_sep_def st Let_def)
    have "state_end g st p \<longleftrightarrow> p = i \<or> state_end g st' p" for p
      using mod_step[OF v, of "p - pos"] n by (auto simp: state_end_def st Nil algebra_simps)
    moreover have "state_ok g st'" using assms(3) v n Nil by (simp add: state_ok_def st)
    ultimately show ?thesis using n v by (auto simp: st)
  next
    case (Cons v gs')
    show ?thesis
    proof (cases "v \<le> 0 \<or> v = 127")
      case True
      then have "\<not> group_end (v # gs') q" for q by (cases gs') auto
      then show ?thesis using True assms(4) sep Cons by (auto simp: next_sep_def st state_end_def)
    next
      case False
      then have n: "i = pos + v" "st' = (gs', i)" using assms(4) sep Cons by (auto simp: next_sep_def st Let_def)
      have "state_end g st p \<longleftrightarrow> p = i \<or> state_end g st' p" for p
      proof (cases gs')
        case Nil
        have "last (dg_grouping g) = v" using pre(1) Cons Nil by simp
        then show ?thesis using mod_step[of v "p - pos"] False n Nil Cons
          by (auto simp: state_end_def st algebra_simps)
      next
        case (Cons w vs)
        have "pos + v < p" if "group_end (w # vs) (p - pos - v)" using group_end_positive[OF that] by simp
        then show ?thesis using False n \<open>gs = v # gs'\<close> Cons
          by (auto simp: state_end_def st algebra_simps)
      qed
      moreover have "state_ok g st'" using pre Cons False n by (auto simp: state_ok_def intro!: exI[of _ "pre @ [v]"])
      ultimately show ?thesis using n False by (auto simp: st)
    qed
  qed
qed

lemma separators_loop_ends:
  assumes "grouping_ok g" "has_separator g" "state_ok g st" "n \<le> max_int"
  shows "\<exists>ps. separators_loop g n st acc = Some (acc @ ps) \<and> set ps = {p. p < n \<and> state_end g st p}"
  using assms(3)
proof (induction "nat (n - snd st)" arbitrary: st acc rule: less_induct)
  case less
  obtain i st' where i: "next_sep g st = (i, st')" by (cases "next_sep g st") blast
  have pos: "0 \<le> snd st" using less(2) by (simp add: state_ok_def)
  have later: "state_end g st' p \<Longrightarrow> snd st' < p" for p by (auto simp: state_end_def split: prod.splits)
  note e = next_sep_end[OF assms(1,2) less(2) i]
  show ?case
  proof (cases "n > i")
    case True
    then have st': "snd st < i" "i = snd st'" "state_ok g st'" "\<And>p. state_end g st p \<longleftrightarrow> p = i \<or> state_end g st' p"
      using e assms(4) by auto
    then have "nat (n - snd st') < nat (n - snd st)" using True by simp
    from less(1)[OF this st'(3), of "acc @ [i]"] obtain ps where ps:
      "separators_loop g n st' (acc @ [i]) = Some ((acc @ [i]) @ ps)" "set ps = {p. p < n \<and> state_end g st' p}" by blast
    have "separators_loop g n st acc = separators_loop g n st' (acc @ [i])"
      using True st'(1) pos by (subst separators_loop.simps) (simp add: i)
    then show ?thesis using ps st'(4) True by (intro exI[of _ "i # ps"]) auto
  next
    case False
    have "separators_loop g n st acc = Some acc" using False by (subst separators_loop.simps) (auto simp: i)
    moreover have "{p. p < n \<and> state_end g st p} = {}" using e False later by force
    ultimately show ?thesis by (intro exI[of _ "[]"]) simp
  qed
qed

lemma grouping_positions:
  assumes "grouping_ok g" "has_separator g" "int (length digits) \<le> max_int"
  shows "\<exists>ps. count_separators g (int (length digits)) = Some (int (length ps)) \<and> sorted_wrt (<) ps \<and>
    set ps = {p. 0 < p \<and> p < int (length digits) \<and> group_end (dg_grouping g) p} \<and>
    apply_grouping g digits = Some (spaced (\<lambda>p. p \<in> set ps) (dg_thousands_sep g) digits)"
proof -
  obtain ps where ps: "separators_loop g (int (length digits)) (initial_state g) [0] = Some (0 # ps)"
    "count_separators g (int (length digits)) = Some (int (length ps))" "sorted_wrt (<) ps"
    "apply_grouping g digits = Some (spaced (\<lambda>p. p \<in> set ps) (dg_thousands_sep g) digits)"
    using grouping_loops[OF assms(1,3)] by blast
  have ok: "state_ok g (initial_state g)" by (auto simp: state_ok_def initial_state_def intro!: exI[of _ "[]"])
  have "set ps = {p. p < int (length digits) \<and> state_end g (initial_state g) p}"
    using separators_loop_ends[OF assms(1,2) ok assms(3), of "[0]"] ps(1) by auto
  moreover have "dg_grouping g \<noteq> []" using assms(1,2) by (simp add: grouping_ok_def has_separator_def)
  ultimately have "set ps = {p. 0 < p \<and> p < int (length digits) \<and> group_end (dg_grouping g) p}"
    by (auto simp: state_end_def initial_state_def)
  then show ?thesis using ps by blast
qed

section \<open>The size that is computed is the size that is written\<close>

text \<open>The reference for an exponent: its sign and at least two decimal digits.\<close>

definition exponent_text :: "int \<Rightarrow> string" where
  "exponent_text e = (if e < 0 then ''-'' else ''+'') @ (if \<bar>e\<bar> < 10 then ''0'' else []) @ dec_string (nat \<bar>e\<bar>)"

lemma exponent_digits:
  assumes "u < 10000"
  shows "(if u < 10 then ''0'' else []) @ dec_string u =
    (if u \<ge> 100 then (if u \<ge> 1000 then [digits2 (u div 100) ! 0] else []) @ [digits2 (u div 100) ! 1] else []) @
    digits2 (u mod 100)"
proof -
  consider "u < 10" | "10 \<le> u" "u < 100" | "100 \<le> u" "u < 1000" | "1000 \<le> u" by linarith
  then show ?thesis
  proof cases
    case 3
    then have "u div 100 < 10" by linarith
    then show ?thesis using 3 by (simp add: dec_string_100 digits2_eq)
  next
    case 4
    then have q: "10 \<le> u div 100" "u div 100 < 100" using assms by linarith+
    have d: "dec_string u = digits2 (u div 100) @ digits2 (u mod 100)" using 4 digits2_dec[OF q] by (simp add: dec_string_100)
    have "digits2 (u div 100) = [digits2 (u div 100) ! 0, digits2 (u div 100) ! 1]" using digits2_eq[OF q(2)] by simp
    then show ?thesis using 4 d by simp
  qed (simp_all add: digits2_eq dec_string_step)
qed

lemma write_exponent_eq:
  assumes "-10000 < e" "e < 10000"
  shows "write_exponent e = exponent_text e"
proof -
  define u where "u = nat (if e < 0 then - e else e)"
  have u: "unat (to_unsigned (if e < 0 then - e else e)) = u" unfolding u_def using assms by (intro unat_to_unsigned) simp_all
  have a: "nat \<bar>e\<bar> = u" "(\<bar>e\<bar> < 10) = (u < 10)" "u < 10000" using assms by (auto simp: u_def)
  have low: "(if u \<ge> 100 then u mod 100 else u) = u mod 100" by simp
  have pair: "[digits2 (u mod 100) ! 0, digits2 (u mod 100) ! 1] = digits2 (u mod 100)" by (simp add: digits2_eq)
  show ?thesis
    unfolding write_exponent_def exponent_text_def Let_def u low pair a(1,2) exponent_digits[OF a(3)] by simp
qed

lemma write_exponent_length:
  assumes "-10000 < e" "e < 10000"
  shows "int (length (write_exponent e)) + 1 = compute_exp_size e"
proof -
  define u where "u = nat (if e < 0 then - e else e)"
  have u: "unat (to_unsigned (if e < 0 then - e else e)) = u" unfolding u_def using assms by (intro unat_to_unsigned) simp_all
  have e: "(if e \<ge> 0 then e else - e) = int u" "u < 10000" using assms by (auto simp: u_def)
  have l: "length (write_exponent e) = 1 + (if u \<ge> 100 then (if u \<ge> 1000 then 2 else 1) else 0) + 2"
    unfolding write_exponent_def Let_def u by simp
  show ?thesis unfolding compute_exp_size_def Let_def e l by simp
qed

definition fp_ok :: "decimal_fp \<Rightarrow> bool" where
  "fp_ok f \<longleftrightarrow> (case f of Decimal_fp n sig e \<Rightarrow> n \<in> {32, 64} \<and> sig < 2 ^ n | Big_decimal_fp s e \<Rightarrow> True)"

definition fp_text :: "decimal_fp \<Rightarrow> string" where
  "fp_text f = (case f of Decimal_fp n sig e \<Rightarrow> dec_string sig | Big_decimal_fp s e \<Rightarrow> s)"

lemma fp_texts:
  assumes "fp_ok f"
  shows "get_significand_size f = length (fp_text f)" "write_significand f (length (fp_text f)) = fp_text f"
    "1 \<le> k \<Longrightarrow> k \<le> length (fp_text f) \<Longrightarrow> point \<noteq> CHR 0x00 \<Longrightarrow>
       write_significand_point f (length (fp_text f)) k point = take k (fp_text f) @ point # drop k (fp_text f)"
    "length (fp_text f) = 1 \<Longrightarrow> write_significand_point f (length (fp_text f)) 1 (CHR 0x00) = fp_text f"
proof -
  have "get_significand_size f = length (fp_text f) \<and> write_significand f (length (fp_text f)) = fp_text f \<and>
    (1 \<le> k \<longrightarrow> k \<le> length (fp_text f) \<longrightarrow> point \<noteq> CHR 0x00 \<longrightarrow>
       write_significand_point f (length (fp_text f)) k point = take k (fp_text f) @ point # drop k (fp_text f)) \<and>
    (length (fp_text f) = 1 \<longrightarrow> write_significand_point f (length (fp_text f)) 1 (CHR 0x00) = fp_text f)"
  proof (cases f)
    case (Decimal_fp n sig e)
    then have "count_digits n sig = length (dec_string sig)"
      using assms by (intro count_digits_eq) (auto simp: fp_ok_def)
    moreover have "point_number sig m k (CHR 0x00) = format_decimal sig m" for m k by (simp add: point_number_def)
    moreover have "length (dec_string sig) = 1 \<Longrightarrow> format_decimal sig 1 = dec_string sig"
      using format_decimal_eq[of sig] by simp
    ultimately show ?thesis
      using format_decimal_eq[of sig] point_number_eq[OF refl, of k sig point] by (simp add: Decimal_fp fp_text_def)
  next
    case (Big_decimal_fp s e)
    then show ?thesis by (simp add: fp_text_def)
  qed
  then show "get_significand_size f = length (fp_text f)" "write_significand f (length (fp_text f)) = fp_text f"
    "1 \<le> k \<Longrightarrow> k \<le> length (fp_text f) \<Longrightarrow> point \<noteq> CHR 0x00 \<Longrightarrow>
       write_significand_point f (length (fp_text f)) k point = take k (fp_text f) @ point # drop k (fp_text f)"
    "length (fp_text f) = 1 \<Longrightarrow> write_significand_point f (length (fp_text f)) 1 (CHR 0x00) = fp_text f"
    by blast+
qed

lemma grouped_length:
  assumes "grouping_ok g" "length (dg_thousands_sep g) \<le> 1" "int (length digits) \<le> max_int"
  shows "\<exists>n. count_separators g (int (length digits)) = Some n \<and> 0 \<le> n \<and>
    (if has_separator g then apply_grouping g digits else Some digits) = Some (grouped g digits) \<and>
    int (length (grouped g digits)) = int (length digits) + n"
proof (cases "has_separator g")
  case False
  then have "next_sep g st = (max_int, st)" for st by (cases st) (simp add: next_sep_def has_separator_def)
  then have "count_separators g (int (length digits)) = Some 0"
    using assms(3) unfolding count_separators_def by (subst count_loop.simps) simp
  then show ?thesis using False by (simp add: grouped_def has_separator_def spaced_nothing)
next
  case True
  then have sep: "length (dg_thousands_sep g) = 1" using assms(2) by (cases "dg_thousands_sep g") (auto simp: has_separator_def)
  obtain ps where ps: "count_separators g (int (length digits)) = Some (int (length ps))" "sorted_wrt (<) ps"
    "set ps = {p. 0 < p \<and> p < int (length digits) \<and> group_end (dg_grouping g) p}"
    "apply_grouping g digits = Some (spaced (\<lambda>p. p \<in> set ps) (dg_thousands_sep g) digits)"
    using grouping_positions[OF assms(1) True assms(3)] by blast
  have t: "spaced (\<lambda>p. p \<in> set ps) (dg_thousands_sep g) digits = grouped g digits"
    unfolding grouped_def ps(3) by (rule spaced_cong) simp
  have "distinct ps" using ps(2) by (simp add: strict_sorted_iff)
  moreover have "{p \<in> {1..int (length digits)}. p \<in> set ps} = set ps" using ps(3) by fastforce
  ultimately have "card {p \<in> {1..int (length digits)}. p \<in> set ps} = length ps" by (simp add: distinct_card)
  then show ?thesis using True ps sep t spaced_length[of "\<lambda>p. p \<in> set ps" "dg_thousands_sep g" digits] by simp
qed

section \<open>The text of a number\<close>

text \<open>The reference for the two notations.  Fixed: the digits before the point, with zeros up to it and
  grouped, or a single zero; the point, when digits follow it or the alternate form asks for it; zeros
  down to the first digit, the other digits, and in the alternate form zeros up to the precision.
  Exponential: the first digit, the point, the other digits and the exponent.\<close>

fun sign_string :: "sgn \<Rightarrow> string" where
  "sign_string S_none = []" | "sign_string S_minus = ''-''" | "sign_string S_plus = ''+''" | "sign_string S_space = '' ''"

definition zeros :: "int \<Rightarrow> string" where
  "zeros n = replicate (nat n) (CHR ''0'')"

definition fraction :: "'a specs_scheme \<Rightarrow> char \<Rightarrow> string \<Rightarrow> string" where
  "fraction sp point digits = (if digits = [] \<and> \<not> spec_alt sp then [] else point # digits)"

definition fixed_text :: "decimal_fp \<Rightarrow> char \<Rightarrow> 'a specs_scheme \<Rightarrow> sgn \<Rightarrow> digit_grouping \<Rightarrow> string" where
  "fixed_text f point sp s g =
     (let digits = fp_text f; n = int (length digits); before = fp_exponent f + n;
          leading = (if digits = [] \<and> 0 \<le> sp_precision sp \<and> sp_precision sp < - before then sp_precision sp else - before)
      in if fp_exponent f < 0 \<and> before \<le> 0 then sign_string s @ ''0'' @ fraction sp point (zeros leading @ digits)
         else sign_string s @ grouped g (take (nat before) (digits @ zeros (fp_exponent f))) @
           fraction sp point (drop (nat before) digits @ (if spec_alt sp then zeros (sp_precision sp - max before n) else [])))"

definition exponential_text :: "decimal_fp \<Rightarrow> char \<Rightarrow> 'a specs_scheme \<Rightarrow> sgn \<Rightarrow> string" where
  "exponential_text f point sp s =
     (let digits = fp_text f; n = int (length digits)
      in sign_string s @ [hd digits] @ fraction sp point (tl digits @ (if spec_alt sp then zeros (sp_precision sp - n) else [])) @
         [if spec_upper sp then CHR ''E'' else CHR ''e''] @ exponent_text (fp_exponent f + n - 1))"

text \<open>Fixed notation when it is asked for, and without a type when the decimal exponent is from -4 to
  below the precision.\<close>

definition in_fixed :: "decimal_fp \<Rightarrow> 'a specs_scheme \<Rightarrow> int \<Rightarrow> bool" where
  "in_fixed f sp upper \<longleftrightarrow> spec_type sp = pres_fixed \<or> spec_type sp \<noteq> pres_exp \<and>
     (let x = fp_exponent f + int (length (fp_text f)) - 1
      in -4 \<le> x \<and> x < (if sp_precision sp > 0 then sp_precision sp else upper))"

definition float_text :: "locale_data \<Rightarrow> decimal_fp \<Rightarrow> 'a specs_scheme \<Rightarrow> sgn \<Rightarrow> int \<Rightarrow> string" where
  "float_text loc f sp s upper =
     (let point = (if spec_localized sp then decimal_point_impl loc else CHR ''.'')
      in if in_fixed f sp upper then fixed_text f point sp s (grouping_of_locale loc (spec_localized sp))
         else exponential_text f point sp s)"

lemma sign_bytes: "(push_bit 24 0x20 OR push_bit 16 0x2b OR push_bit 8 0x2d :: u32) = 0x202b2d00"
  by simp

lemma sign_prefix_text: "sign_prefix s = sign_string s"
  unfolding sign_prefix_def getsign_def sign_bytes by (cases s) (simp_all add: cp_char_def char_of_def bit_0)

lemma sign_string_length: "int (length (sign_string s)) = (if s \<noteq> S_none then 1 else 0)"
  by (cases s) simp_all

lemma zeros_if: "(if n > 0 then replicate (nat n) (CHR ''0'') else []) = zeros n"
  by (simp add: zeros_def)

text \<open>The three layouts of the fixed notation.\<close>

lemma write_fixed_integral:
  assumes sp: "0 \<le> sp_width sp" "sp_width sp < 2 ^ 31" and f: "fp_ok f"
    and g: "grouping_ok g" "length (dg_thousands_sep g) \<le> 1"
    and e: "0 \<le> fp_exponent f" "fp_exponent f + int (length (fp_text f)) \<le> max_int"
  shows "write_fixed f (length (fp_text f)) point sp s g =
    Some (padded A_right sp (length (fixed_text f point sp s g)) (fixed_text f point sp s g))"
proof -
  let ?n = "length (fp_text f)" and ?e = "fp_exponent f"
  define digits where "digits = fp_text f @ replicate (nat ?e) (CHR ''0'')"
  have ld: "int (length digits) = ?e + int ?n" using e by (simp add: digits_def)
  obtain n where c: "count_separators g (?e + int ?n) = Some n" "0 \<le> n"
    and t: "(if has_separator g then apply_grouping g digits else Some digits) = Some (grouped g digits)"
      "int (length (grouped g digits)) = ?e + int ?n + n"
    using grouped_length[OF g, of digits] e(2) unfolding ld by blast
  have z: "write_significand_zeros f ?n ?e g = Some (grouped g digits)"
    using t(1) fp_texts(2)[OF f] by (simp add: write_significand_zeros_def digits_def split: if_splits)
  define num_zeros where "num_zeros = (if spec_alt sp \<and> sp_precision sp - (?e + int ?n) \<le> 0 \<and> spec_type sp \<noteq> pres_fixed
     then 0 else sp_precision sp - (?e + int ?n))"
  have nz: "zeros num_zeros = zeros (sp_precision sp - (?e + int ?n))" by (simp add: num_zeros_def zeros_def)
  define body where "body = sign_string s @ grouped g digits @ (if \<not> spec_alt sp then [] else point # zeros num_zeros)"
  have "take (nat (?e + int ?n)) digits = digits" using ld by simp
  moreover have "drop (nat (?e + int ?n)) (fp_text f) = []" using e by simp
  moreover have "\<not> ?e < 0" "max (?e + int ?n) (int ?n) = ?e + int ?n" using e by simp_all
  ultimately have body: "fixed_text f point sp s g = body"
    unfolding fixed_text_def Let_def body_def nz digits_def zeros_def[of ?e] by (simp add: fraction_def)
  define size where "size = (if spec_alt sp then int ?n + (if s \<noteq> S_none then 1 else 0) + ?e + 1 +
     (if num_zeros > 0 then num_zeros else 0) else int ?n + (if s \<noteq> S_none then 1 else 0) + ?e)"
  have "size + n = int (length body)"
    using t(2) sign_string_length[of s] by (simp add: size_def body_def zeros_def)
  then have "nat (size + n) = length body" by simp
  then show ?thesis
    using e(1) c(1) z write_padded_eq[OF sp] unfolding body
    unfolding write_fixed_def Let_def num_zeros_def[symmetric] size_def[symmetric] sign_prefix_text zeros_if body_def[symmetric]
    by (simp add: body_def[symmetric])
qed

lemma write_fixed_pointed:
  assumes sp: "0 \<le> sp_width sp" "sp_width sp < 2 ^ 31" and f: "fp_ok f" and p: "point \<noteq> CHR 0x00"
    and g: "grouping_ok g" "length (dg_thousands_sep g) \<le> 1"
    and e: "fp_exponent f < 0" "0 < fp_exponent f + int (length (fp_text f))"
      "fp_exponent f + int (length (fp_text f)) \<le> max_int"
  shows "write_fixed f (length (fp_text f)) point sp s g =
    Some (padded A_right sp (length (fixed_text f point sp s g)) (fixed_text f point sp s g))"
proof -
  let ?n = "length (fp_text f)"
  define exp where "exp = fp_exponent f + int ?n"
  have k: "1 \<le> nat exp" "nat exp < ?n" using e by (simp_all add: exp_def)
  define t where "t = grouped g (take (nat exp) (fp_text f))"
  have pt: "write_significand_point f ?n (nat exp) point = take (nat exp) (fp_text f) @ point # drop (nat exp) (fp_text f)"
    using fp_texts(3)[OF f k(1) _ p] k(2) by simp
  have lt: "int (length (take (nat exp) (fp_text f))) = exp" using k by simp
  have le: "int (length (take (nat exp) (fp_text f))) \<le> max_int" using e(3) lt exp_def by simp
  obtain n where c: "count_separators g exp = Some n" "0 \<le> n"
    and t: "(if has_separator g then apply_grouping g (take (nat exp) (fp_text f)) else Some (take (nat exp) (fp_text f))) = Some t"
      "int (length t) = exp + n"
    using grouped_length[OF g le] unfolding lt t_def by blast
  define u where "u = t @ point # drop (nat exp) (fp_text f)"
  have z: "write_significand_grouped f ?n (nat exp) point g = Some u"
    using t(1) k(2) by (auto simp: write_significand_grouped_def pt u_def Let_def split: if_splits)
  have lu: "int (length u) = int ?n + 1 + n" using t(2) k by (simp add: u_def)
  define num_zeros where "num_zeros = (if spec_alt sp then sp_precision sp - int ?n else 0)"
  define body where "body = sign_string s @ u @ zeros num_zeros"
  have "\<not> exp \<le> 0" "max exp (int ?n) = int ?n" "nat exp \<le> ?n" "drop (nat exp) (fp_text f) \<noteq> []" using k by simp_all
  moreover have "zeros (fp_exponent f) = []" using e by (simp add: zeros_def)
  ultimately have body: "fixed_text f point sp s g = body"
    unfolding fixed_text_def Let_def body_def u_def t_def exp_def[symmetric] num_zeros_def
    by (simp add: fraction_def zeros_def)
  have "int ?n + (if s \<noteq> S_none then 1 else 0) + 1 + max num_zeros 0 + n = int (length body)"
    using lu sign_string_length[of s] by (simp add: body_def zeros_def)
  then have sz: "nat (int ?n + (if s \<noteq> S_none then 1 else 0) + 1 + max num_zeros 0 + n) = length body" by simp
  have ifs: "(0 \<le> fp_exponent f) = False" "(0 < exp) = True" using e(1,2) by (simp_all add: exp_def)
  show ?thesis
    using c(1) z write_padded_eq[OF sp] unfolding body
    unfolding write_fixed_def Let_def num_zeros_def[symmetric] exp_def[symmetric] sign_prefix_text zeros_if
    by (simp only: ifs if_False if_True option.case option.map sz body_def[symmetric] exp_def[symmetric])
qed

lemma write_fixed_small:
  assumes sp: "0 \<le> sp_width sp" "sp_width sp < 2 ^ 31" and f: "fp_ok f"
    and e: "fp_exponent f < 0" "fp_exponent f + int (length (fp_text f)) \<le> 0"
  shows "write_fixed f (length (fp_text f)) point sp s g =
    Some (padded A_right sp (length (fixed_text f point sp s g)) (fixed_text f point sp s g))"
proof -
  let ?n = "length (fp_text f)"
  define exp where "exp = fp_exponent f + int ?n"
  define num_zeros where "num_zeros = (if ?n = 0 \<and> sp_precision sp \<ge> 0 \<and> sp_precision sp < - exp
     then sp_precision sp else - exp)"
  have nz: "0 \<le> num_zeros" using e(2) by (simp add: num_zeros_def exp_def)
  define pointy where "pointy \<longleftrightarrow> num_zeros \<noteq> 0 \<or> ?n \<noteq> 0 \<or> spec_alt sp"
  define body where "body = sign_string s @ ''0'' @ (if \<not> pointy then []
     else point # replicate (nat num_zeros) (CHR ''0'') @ fp_text f)"
  have body: "fixed_text f point sp s g = body"
    using e nz unfolding fixed_text_def Let_def body_def pointy_def exp_def[symmetric] num_zeros_def
    by (auto simp: fraction_def zeros_def exp_def)
  have "int ?n + (if s \<noteq> S_none then 1 else 0) + 1 + (if pointy then 1 else 0) + num_zeros = int (length body)"
    using sign_string_length[of s] nz by (auto simp: body_def pointy_def)
  then have sz: "nat (int ?n + (if s \<noteq> S_none then 1 else 0) + 1 + (if pointy then 1 else 0) + num_zeros) = length body"
    by simp
  have ifs: "(0 \<le> fp_exponent f) = False" "(0 < exp) = False" using e by (simp_all add: exp_def)
  show ?thesis
    using write_padded_eq[OF sp] unfolding body
    unfolding write_fixed_def Let_def exp_def[symmetric] num_zeros_def[symmetric] pointy_def[symmetric] sign_prefix_text
    by (simp only: ifs if_False fp_texts(2)[OF f] sz body_def[symmetric])
qed

lemma write_fixed_text:
  assumes sp: "0 \<le> sp_width sp" "sp_width sp < 2 ^ 31" and f: "fp_ok f" and p: "point \<noteq> CHR 0x00"
    and g: "grouping_ok g" "length (dg_thousands_sep g) \<le> 1"
    and big: "fp_exponent f + int (length (fp_text f)) \<le> max_int"
  shows "write_fixed f (length (fp_text f)) point sp s g =
    Some (padded A_right sp (length (fixed_text f point sp s g)) (fixed_text f point sp s g))"
proof -
  consider "0 \<le> fp_exponent f" | "fp_exponent f < 0" "0 < fp_exponent f + int (length (fp_text f))"
    | "fp_exponent f < 0" "fp_exponent f + int (length (fp_text f)) \<le> 0" by linarith
  then show ?thesis
    by cases (use write_fixed_integral[OF sp f g _ big] write_fixed_pointed[OF sp f p g _ _ big]
        write_fixed_small[OF sp f] in blast)+
qed

lemma locale_grouping_ok: "grouping_ok (grouping_of_locale loc localized)"
    "length (dg_thousands_sep (grouping_of_locale loc localized)) \<le> 1"
  by (auto simp: grouping_ok_def grouping_of_locale_def thousands_sep_impl_def Let_def)

text \<open>The exponential layout: its text and its size.\<close>

lemma exponential_body:
  assumes f: "fp_ok f" and n: "fp_text f \<noteq> []" and p: "point \<noteq> CHR 0x00"
    and e: "e = fp_exponent f + int (length (fp_text f)) - 1" "-10000 < e" "e < 10000"
    and num_zeros: "num_zeros = (if spec_alt sp then max (sp_precision sp - int (length (fp_text f))) 0 else 0)"
    and point': "point' = (if \<not> spec_alt sp \<and> length (fp_text f) = 1 then CHR 0x00 else point)"
  shows "sign_prefix s @ write_significand_point f (length (fp_text f)) 1 point' @
      (if num_zeros > 0 then replicate (nat num_zeros) (CHR ''0'') else []) @
      [if spec_upper sp then CHR ''E'' else CHR ''e''] @ write_exponent e = exponential_text f point sp s"
    "nat (int (length (fp_text f)) + (if s \<noteq> S_none then 1 else 0) + num_zeros + (if point' \<noteq> CHR 0x00 then 1 else 0) +
      compute_exp_size e) = length (exponential_text f point sp s)"
proof -
  obtain d ds where t: "fp_text f = d # ds" using n by (cases "fp_text f") auto
  have w: "write_significand_point f (length (fp_text f)) 1 point' = d # (if ds = [] \<and> \<not> spec_alt sp then [] else point # ds)"
    using fp_texts(3)[OF f, of 1 point] fp_texts(4)[OF f] p by (auto simp: point' t)
  have x: "exponential_text f point sp s = sign_string s @ write_significand_point f (length (fp_text f)) 1 point' @
      zeros num_zeros @ [if spec_upper sp then CHR ''E'' else CHR ''e''] @ write_exponent e"
    unfolding exponential_text_def Let_def e(1)[symmetric] write_exponent_eq[OF e(2,3)] w
    by (simp add: fraction_def t num_zeros zeros_def max_def)
  then show "sign_prefix s @ write_significand_point f (length (fp_text f)) 1 point' @
      (if num_zeros > 0 then replicate (nat num_zeros) (CHR ''0'') else []) @
      [if spec_upper sp then CHR ''E'' else CHR ''e''] @ write_exponent e = exponential_text f point sp s"
    by (simp only: sign_prefix_text zeros_if)
  have "int (length (exponential_text f point sp s)) = int (length (fp_text f)) + (if s \<noteq> S_none then 1 else 0) + num_zeros +
      (if point' \<noteq> CHR 0x00 then 1 else 0) + compute_exp_size e"
    unfolding x w using write_exponent_length[OF e(2,3)] sign_string_length[of s] p
    by (auto simp: t point' zeros_def num_zeros)
  then show "nat (int (length (fp_text f)) + (if s \<noteq> S_none then 1 else 0) + num_zeros + (if point' \<noteq> CHR 0x00 then 1 else 0) +
      compute_exp_size e) = length (exponential_text f point sp s)" by linarith
qed

text \<open>C34: A finite floating-point number is always written, as the text of the reference, and padded by
  the length of exactly that text: a single zero or the grouped digits before the point, the point and the digits
  after it, the zeros of the alternate form, or the exponential form with its exponent.
  So the size computed in advance agrees with what is written in every branch.  The conditions: the digits
  fit the type they are held in, the decimal point of the locale is not the NUL character, there is a
  digit unless the notation is fixed, and the decimal exponent is within 9999 of zero.\<close>

theorem do_write_float_size:
  assumes "specs_ok sp" "fp_ok f" "decimal_point_impl loc \<noteq> CHR 0x00"
    "get_significand_size f \<noteq> 0 \<or> spec_type sp = pres_fixed"
    "fp_exponent f + int (get_significand_size f) < 10000" "-9999 < fp_exponent f + int (get_significand_size f)"
  shows "do_write_float loc f sp s upper =
    Some (padded A_right sp (length (float_text loc f sp s upper)) (float_text loc f sp s upper))"
proof -
  have sp: "0 \<le> sp_width sp" "sp_width sp < 2 ^ 31" using assms(1) by (simp_all add: specs_ok_def)
  let ?n = "length (fp_text f)" and ?exp = "fp_exponent f + int (length (fp_text f)) - 1"
  note n = fp_texts(1)[OF assms(2)]
  define point where "point = (if spec_localized sp then decimal_point_impl loc else CHR ''.'')"
  have p: "point \<noteq> CHR 0x00" using assms(3) by (simp add: point_def)
  have fixed: "(spec_type sp = pres_fixed \<or>
      (spec_type sp \<noteq> pres_exp \<and> use_fixed ?exp (if sp_precision sp > 0 then sp_precision sp else upper))) = in_fixed f sp upper"
    by (auto simp: in_fixed_def use_fixed_def)
  show ?thesis
  proof (cases "in_fixed f sp upper")
    case True
    have "do_write_float loc f sp s upper =
        write_fixed f ?n point sp s (grouping_of_locale loc (spec_localized sp))"
      using True unfolding do_write_float_def Let_def n point_def[symmetric] fixed by simp
    moreover have "fp_exponent f + int ?n \<le> max_int" using assms(5) n by (simp add: max_int_def)
    ultimately show ?thesis
      using True write_fixed_text[OF sp assms(2) p locale_grouping_ok] by (simp add: float_text_def point_def)
  next
    case False
    have d: "fp_text f \<noteq> []" using assms(4) n False by (auto simp: in_fixed_def)
    have e: "-10000 < ?exp" "?exp < 10000" using assms(5,6) n by simp_all
    note body = exponential_body[OF assms(2) d p refl e refl refl]
    have "do_write_float loc f sp s upper = Some (if sp_width sp > 0
        then write_padded A_right sp (length (exponential_text f point sp s)) (exponential_text f point sp s)
        else exponential_text f point sp s)"
      using False unfolding do_write_float_def Let_def n point_def[symmetric] fixed body by (simp only: if_False)
    then show ?thesis
      using False write_padded_eq[OF sp] padded_wide[of sp _ A_right "exponential_text f point sp s"]
      by (auto simp: float_text_def point_def[symmetric])
  qed
qed

text \<open>A localized number, grouped by three, in a field of fourteen characters.\<close>

definition sample_locale :: locale_data where
  "sample_locale = \<lparr>lc_numpunct = \<lparr>np_grouping = [3], np_thousands_sep = CHR '','', np_decimal_point = CHR ''.''\<rparr>,
     lc_facet = None\<rparr>"

definition sample_specs :: specs where
  "sample_specs = set_localized (default_specs\<lparr>sp_width := 14\<rparr>)"

theorem do_write_float_size_witness:
  "do_write_float sample_locale (Big_decimal_fp ''12345678'' (-1)) sample_specs S_minus 16 = Some ''  -1,234,567.8''"
proof -
  have "specs_ok sample_specs" by code_simp
  moreover have "decimal_point_impl sample_locale \<noteq> CHR 0x00" by code_simp
  moreover have "padded A_right sample_specs
      (length (float_text sample_locale (Big_decimal_fp ''12345678'' (-1)) sample_specs S_minus 16))
      (float_text sample_locale (Big_decimal_fp ''12345678'' (-1)) sample_specs S_minus 16) = ''  -1,234,567.8''" by code_simp
  ultimately show ?thesis
    using do_write_float_size[of sample_specs "Big_decimal_fp ''12345678'' (-1)" sample_locale S_minus 16]
    by (simp add: fp_ok_def)
qed

section \<open>The two ways to write an exponential\<close>

lemma exponent_chars:
  assumes "-1000 < e" "e < 1000"
  shows "''e'' @ write_exponent e = (if e < 0 then ''e-'' else ''e+'') @
    (let a = (if e < 0 then - e else e)
     in (if a \<ge> 100 then [digit_char (a div 100)] else []) @ digits2 (nat (if a \<ge> 100 then a mod 100 else a)))"
proof -
  define u where "u = nat (if e < 0 then - e else e)"
  have u: "unat (to_unsigned (if e < 0 then - e else e)) = u" unfolding u_def using assms by (intro unat_to_unsigned) simp_all
  have a: "(if e < 0 then - e else e) = int u" "u < 1000" using assms by (auto simp: u_def)
  have d: "digits2 x = [digits2 x ! 0, digits2 x ! 1]" if "x < 100" for x
    using that by (simp add: digits2_eq)
  have top: "digits2 (u div 100) ! 1 = digit_char (int u div 100)"
    using a(2) by (simp add: digits2_eq zdiv_int)
  have low: "nat (if int u \<ge> 100 then int u mod 100 else int u) = (if u \<ge> 100 then u mod 100 else u)"
    by (simp add: nat_mod_distrib)
  have "(if u \<ge> 100 then u mod 100 else u) < 100" by simp
  note d = d[OF this]
  show ?thesis
    unfolding write_exponent_def Let_def u a(1) low unfolding top using d a(2) by (auto simp: top[unfolded One_nat_def])
qed

text \<open>Without specifiers a number in exponential notation comes out the same whether the buffer had
  room for it, when it is written through a pointer with the digits moved by one and the point put
  between the first two, or not, when it is written through the output iterator.\<close>

theorem exponential_paths_agree:
  assumes "n = length (dec_string sig)" "-1000 < e" "e < 1000"
  shows "exponential_pointer s sig n e = exponential_iterator s (Decimal_fp bits sig e') n e"
proof -
  let ?ds = "dec_string sig"
  define digits where "digits = (if n \<noteq> 1 then
      let (b, _) = do_format_decimal (replicate (n + 1) (CHR 0x00)) sig (n + 1); b = b[0 := b ! 1] in b[1 := CHR ''.'']
    else [digit_char (int sig)])"
  have "digits = write_significand_point (Decimal_fp bits sig e') n 1 (if n \<noteq> 1 then CHR ''.'' else CHR 0x00)"
  proof (cases "n = 1")
    case True
    have "sig < 10" using True assms(1) dec_string_length_ge[of 1 sig] by (cases "sig < 10") auto
    then have "?ds = [digit_char (int sig)]" by simp
    then show ?thesis using True format_decimal_eq[of sig] assms(1) by (simp add: digits_def point_number_def)
  next
    case False
    obtain d ds where ds: "?ds = d # ds" by (cases ?ds) auto
    have "do_format_decimal (replicate (n + 1) (CHR 0x00)) sig (n + 1) = (CHR 0x00 # d # ds, 1)"
      using ds assms(1) by (simp add: do_format_decimal_eq patch_def)
    then have "digits = d # CHR ''.'' # ds" using False by (simp add: digits_def)
    moreover have "point_number sig n 1 (CHR ''.'') = d # CHR ''.'' # ds"
      using point_number_eq[OF assms(1), of 1 "CHR ''.''"] ds assms(1) by simp
    ultimately show ?thesis using False by simp
  qed
  moreover have "exponential_pointer s sig n e = (if s \<noteq> S_none then ''-'' else []) @ digits @
      (if e < 0 then ''e-'' else ''e+'') @ (let a = (if e < 0 then - e else e)
        in (if a \<ge> 100 then [digit_char (a div 100)] else []) @ digits2 (nat (if a \<ge> 100 then a mod 100 else a)))"
    unfolding exponential_pointer_def digits_def Let_def by (rule refl)
  ultimately show ?thesis
    unfolding exponential_iterator_def exponent_chars[OF assms(2,3), symmetric] by simp
qed

theorem exponential_paths_agree_witness:
  "exponential_pointer S_none 15 2 20 = exponential_iterator S_none (Decimal_fp 64 15 19) 2 20"
  using exponential_paths_agree[of 2 15 20] by (simp add: dec_string_step)

end
