(* ===== verification/Fmt_Format.thy ===== *)
theory Fmt_Format
  imports Fmt_Float
begin

text \<open>
  \<open>fmt/base.h\<close> and \<open>fmt/format.h\<close>: the parser of format strings with its two handlers, the check
  of a format string against the argument types that the compiler runs, and the formatting at run
  time.  A handler keeps a state, and what has been written stays written when it throws.
\<close>

section \<open>Actions\<close>

text \<open>An action may not return (\<open>None\<close>), throw, or give a value; the state is kept in both of the
  latter cases.\<close>

type_synonym ('s, 'a) act = "'s \<Rightarrow> ((exn + 'a) \<times> 's) option"

definition act_return :: "'a \<Rightarrow> ('s, 'a) act" where
  "act_return a = (\<lambda>s. Some (Inr a, s))"

definition act_lift :: "exn + 'a \<Rightarrow> ('s, 'a) act" where
  "act_lift r = (\<lambda>s. Some (r, s))"

definition act_bind :: "('s, 'a) act \<Rightarrow> ('a \<Rightarrow> ('s, 'b) act) \<Rightarrow> ('s, 'b) act" where
  "act_bind m f = (\<lambda>s. case m s of
     None \<Rightarrow> None
   | Some (Inl e, s) \<Rightarrow> Some (Inl e, s)
   | Some (Inr a, s) \<Rightarrow> f a s)"

definition act_update :: "('s \<Rightarrow> 's) \<Rightarrow> ('s, unit) act" where
  "act_update f = (\<lambda>s. Some (Inr (), f s))"

lemma act_simps [simp]:
  "act_return a s = Some (Inr a, s)" "act_lift r s = Some (r, s)" "act_update f s = Some (Inr (), f s)"
  by (simp_all add: act_return_def act_lift_def act_update_def)

section \<open>Parsing a format string\<close>

text \<open>The messages that quote a brace.\<close>

definition missing_brace :: string where
  "missing_brace = ''missing '' @ quoted (CHR ''}'') @ '' in format string''"

definition unmatched_brace :: string where
  "unmatched_brace = ''unmatched '' @ quoted (CHR ''}'') @ '' in format string''"

record 's handler =
  h_on_text :: "string \<Rightarrow> 's \<Rightarrow> 's"
  h_on_arg_id :: "('s, int) act"
  h_on_arg_index :: "int \<Rightarrow> ('s, int) act"
  h_on_arg_name :: "string \<Rightarrow> ('s, int) act"
  h_on_replacement_field :: "int \<Rightarrow> string \<Rightarrow> ('s, unit) act"
  h_on_format_specs :: "int \<Rightarrow> string \<Rightarrow> ('s, string) act"

text \<open>From the opening brace on; the value is the text behind the field.  \<open>specs_field\<close> is the part behind
  a colon, \<open>field_tail\<close> the part behind a reference, and \<open>id_adapter\<close> passes the reference on to the
  handler.\<close>

definition specs_field :: "'s handler \<Rightarrow> int \<Rightarrow> string \<Rightarrow> ('s, string) act" where
  "specs_field h arg_id s =
     act_bind (h_on_format_specs h arg_id s) (\<lambda>rest.
       if rest = [] \<or> hd rest \<noteq> CHR ''}'' then act_lift (fail ''unknown format specifier'')
       else act_return (tl rest))"

definition field_tail :: "'s handler \<Rightarrow> int \<Rightarrow> string \<Rightarrow> ('s, string) act" where
  "field_tail h arg_id s =
     (let c = (if s \<noteq> [] then hd s else CHR 0x00)
      in if c = CHR ''}'' then
           act_bind (h_on_replacement_field h arg_id s) (\<lambda>_. act_return (tl s))
         else if c \<noteq> CHR '':'' then act_lift (fail missing_brace)
         else specs_field h arg_id (tl s))"

definition id_adapter :: "'s handler \<Rightarrow> arg_ref \<Rightarrow> ('s, int) act" where
  "id_adapter h ref = (case ref of Ref_index i \<Rightarrow> h_on_arg_index h i | Ref_name n \<Rightarrow> h_on_arg_name h n)"

definition parse_replacement_field :: "'s handler \<Rightarrow> string \<Rightarrow> ('s, string) act" where
  "parse_replacement_field h s =
     (let s = tl s
      in if s = [] then act_lift (fail ''invalid format string'')
         else if hd s = CHR ''}'' then
           act_bind (h_on_arg_id h) (\<lambda>i.
             act_bind (h_on_replacement_field h i s) (\<lambda>_. act_return (tl s)))
         else if hd s = CHR ''{'' then
           act_bind (act_update (h_on_text h [hd s])) (\<lambda>_. act_return (tl s))
         else if hd s = CHR '':'' then
           act_bind (h_on_arg_id h) (\<lambda>i. specs_field h i (tl s))
         else
           act_bind (act_lift (parse_arg_id s)) (\<lambda>(ref, rest).
             act_bind (id_adapter h ref) (\<lambda>i.
               field_tail h i rest)))"

text \<open>\<open>parse_format_string\<close>: \<open>pending\<close> is the text from \<open>begin\<close> to \<open>p\<close>.\<close>

partial_function (option) format_loop ::
    "'s handler \<Rightarrow> string \<Rightarrow> string \<Rightarrow> 's \<Rightarrow> ((exn + unit) \<times> 's) option" where
  "format_loop h pending s st =
     (if s = [] then Some (Inr (), h_on_text h pending st)
      else if hd s = CHR ''{'' then
        (case parse_replacement_field h s (h_on_text h pending st) of
           None \<Rightarrow> None
         | Some r \<Rightarrow> (case fst r of
             Inl e \<Rightarrow> Some (Inl e, snd r)
           | Inr rest \<Rightarrow> format_loop h [] rest (snd r)))
      else if hd s = CHR ''}'' then
        (if tl s = [] \<or> hd (tl s) \<noteq> CHR ''}'' then Some (fail unmatched_brace, st)
         else format_loop h [] (tl (tl s)) (h_on_text h (pending @ [hd s]) st))
      else format_loop h (pending @ [hd s]) (tl s) st)"

declare format_loop.simps [code]

definition parse_format_string :: "'s handler \<Rightarrow> string \<Rightarrow> ('s, unit) act" where
  "parse_format_string h fmt = format_loop h [] fmt"

section \<open>The check of a format string\<close>

text \<open>
  \<open>format_string_checker\<close>: the argument types, the names that are known at compile time, and
  whether others may be given at run time.  The parse function of a user-defined type is a
  parameter.
\<close>

record checker =
  ck_types :: "arg_type list"
  ck_named :: "(string \<times> int) list"
  ck_dynamic_names :: bool
  ck_custom_parse :: "nat \<Rightarrow> string \<Rightarrow> parse_context \<Rightarrow> exn + string \<times> parse_context"

definition invoke_parse :: "checker \<Rightarrow> nat \<Rightarrow> string \<Rightarrow> parse_context \<Rightarrow> exn + string \<times> parse_context" where
  "invoke_parse ck i s ctx =
     (if ck_types ck ! i = Custom_type then ck_custom_parse ck i s ctx
      else chain (native_parse (ck_types ck ! i) s ctx) (\<lambda>(rest, sp, ctx). Inr (rest, ctx)))"

text \<open>Over the specifiers of an argument whose type is not known.\<close>

fun skip_specs :: "int \<Rightarrow> string \<Rightarrow> string" where
  "skip_specs bracket_count [] = []"
| "skip_specs bracket_count (c # s) =
     (if bracket_count > 0 \<or> c \<noteq> CHR ''}'' then
        skip_specs (if c = CHR ''{'' then bracket_count + 1 else if c = CHR ''}'' then bracket_count - 1
                    else bracket_count) s
      else c # s)"

definition check_specs :: "checker \<Rightarrow> int \<Rightarrow> string \<Rightarrow> (parse_context, string) act" where
  "check_specs ck i s ctx =
     (if 0 \<le> i \<and> i < int (length (ck_types ck)) then
        (case invoke_parse ck (nat i) s ctx of
           Inl e \<Rightarrow> Some (Inl e, ctx)
         | Inr (rest, ctx) \<Rightarrow> Some (Inr rest, ctx))
      else Some (Inr (skip_specs 0 s), ctx))"

definition lift_context :: "(parse_context \<Rightarrow> exn + 'a \<times> parse_context) \<Rightarrow> (parse_context, 'a) act" where
  "lift_context f ctx = (case f ctx of Inl e \<Rightarrow> Some (Inl e, ctx) | Inr (a, ctx) \<Rightarrow> Some (Inr a, ctx))"

definition check_arg_index :: "int \<Rightarrow> parse_context \<Rightarrow> exn + int \<times> parse_context" where
  "check_arg_index i ctx = chain (check_arg_id i ctx) (\<lambda>ctx. Inr (i, ctx))"

definition checker_arg_name :: "checker \<Rightarrow> string \<Rightarrow> (parse_context, int) act" where
  "checker_arg_name ck n =
     (case List.find (\<lambda>e. fst e = n) (ck_named ck) of
        Some e \<Rightarrow> act_return (snd e)
      | None \<Rightarrow> if ck_dynamic_names ck then act_return (-1) else act_lift (fail ''argument not found''))"

definition checker_handler :: "checker \<Rightarrow> parse_context handler" where
  "checker_handler ck =
     \<lparr>h_on_text = (\<lambda>t ctx. ctx),
      h_on_arg_id = lift_context next_arg_id,
      h_on_arg_index = (\<lambda>i. lift_context (check_arg_index i)),
      h_on_arg_name = checker_arg_name ck,
      h_on_replacement_field = (\<lambda>i s. act_bind (check_specs ck i s) (\<lambda>_. act_return ())),
      h_on_format_specs = check_specs ck\<rparr>"

definition check_format_string :: "checker \<Rightarrow> string \<Rightarrow> (exn + unit) option" where
  "check_format_string ck fmt =
     map_option fst (parse_format_string (checker_handler ck) fmt (mk_context (Some (ck_types ck))))"

section \<open>Writing an argument\<close>

text \<open>
  What formatting depends on besides the arguments: the locale of the context, the global locale,
  the digits of floating-point numbers, whether the output buffer has room for a number, and the
  formatters of user-defined types (parsing the specifiers and appending the text of the object).
\<close>

record env =
  en_locale :: locale_data
  en_global :: locale_data
  en_digits :: float_digits
  en_has_room :: "string \<Rightarrow> bool"
  en_custom :: "nat \<Rightarrow> string \<Rightarrow> parse_context \<Rightarrow> exn + string \<times> string \<times> parse_context"

record run_state =
  rs_ctx :: parse_context
  rs_out :: string

definition append_text :: "string \<Rightarrow> run_state \<Rightarrow> run_state" where
  "append_text t st = st\<lparr>rs_out := rs_out st @ t\<rparr>"

text \<open>The text of a writer that may throw and may not return.\<close>

definition emit :: "exn + string option \<Rightarrow> (run_state, unit) act" where
  "emit r st =
     (case r of
        Inl e \<Rightarrow> Some (Inl e, st)
      | Inr None \<Rightarrow> None
      | Inr (Some t) \<Rightarrow> Some (Inr (), append_text t st))"

text \<open>\<open>visit\<close> with \<open>default_arg_formatter\<close>: no specifiers, no locale.\<close>

definition default_arg_formatter :: "env \<Rightarrow> arg_value \<Rightarrow> (run_state, unit) act" where
  "default_arg_formatter env v st =
     (case v of
        V_none \<Rightarrow> emit (fail ''argument not found'') st
      | V_int w \<Rightarrow> emit (Inr (Some (write_integral_default True w))) st
      | V_uint w \<Rightarrow> emit (Inr (Some (write_integral_default False w))) st
      | V_long_long w \<Rightarrow> emit (Inr (Some (write_integral_default True w))) st
      | V_ulong_long w \<Rightarrow> emit (Inr (Some (write_integral_default False w))) st
      | V_int128 w \<Rightarrow> emit (Inr (Some (write_integral_default True w))) st
      | V_uint128 w \<Rightarrow> emit (Inr (Some (write_integral_default False w))) st
      | V_bool b \<Rightarrow> emit (Inr (write_bool (en_global env) b default_specs)) st
      | V_char c \<Rightarrow> emit (Inr (Some [c])) st
      | V_float w \<Rightarrow> emit (write_float_default (en_digits env) (en_global env) (en_has_room env (rs_out st)) (Fp_float w)) st
      | V_double w \<Rightarrow> emit (write_float_default (en_digits env) (en_global env) (en_has_room env (rs_out st)) (Fp_double w)) st
      | V_long_double w \<Rightarrow>
          emit (write_float_default (en_digits env) (en_global env) (en_has_room env (rs_out st)) (Fp_long_double w)) st
      | V_cstring p s \<Rightarrow> emit (map_sum id Some (write_cstring_default p s)) st
      | V_string s \<Rightarrow> emit (Inr (Some s)) st
      | V_pointer p \<Rightarrow> emit (Inr (Some (write_ptr p (Some default_specs)))) st
      | V_custom a \<Rightarrow>
          emit (chain (en_custom env a [] (mk_context None)) (\<lambda>(t, rest, ctx). Inr (Some t))) st)"

text \<open>\<open>visit\<close> with \<open>arg_formatter\<close>.\<close>

definition arg_formatter :: "env \<Rightarrow> specs \<Rightarrow> arg_value \<Rightarrow> (run_state, unit) act" where
  "arg_formatter env sp v =
     (let loc = en_locale env
      in case v of
        V_none \<Rightarrow> act_return ()
      | V_int w \<Rightarrow> emit (Inr (write_integral loc True w sp))
      | V_uint w \<Rightarrow> emit (Inr (write_integral loc False w sp))
      | V_long_long w \<Rightarrow> emit (Inr (write_integral loc True w sp))
      | V_ulong_long w \<Rightarrow> emit (Inr (write_integral loc False w sp))
      | V_int128 w \<Rightarrow> emit (Inr (write_integral loc True w sp))
      | V_uint128 w \<Rightarrow> emit (Inr (write_integral loc False w sp))
      | V_bool b \<Rightarrow> emit (Inr (write_bool (en_global env) b sp))
      | V_char c \<Rightarrow> emit (write_char_arg loc c sp)
      | V_float w \<Rightarrow> emit (write_float_arg (en_digits env) loc (Fp_float w) sp)
      | V_double w \<Rightarrow> emit (write_float_arg (en_digits env) loc (Fp_double w) sp)
      | V_long_double w \<Rightarrow> emit (write_float_arg (en_digits env) loc (Fp_long_double w) sp)
      | V_cstring p s \<Rightarrow> emit (map_sum id Some (write_cstring p s sp))
      | V_string s \<Rightarrow> emit (Inr (Some (write_string s sp)))
      | V_pointer p \<Rightarrow> emit (Inr (Some (write_ptr p (Some sp))))
      | V_custom a \<Rightarrow> act_return ())"

section \<open>Dynamic width and precision\<close>

text \<open>\<open>dynamic_spec_getter\<close>: \<open>unsigned long long\<close>, all ones for a negative number; a 128-bit number
  keeps its low half.\<close>

definition dynamic_spec_getter :: "arg_value \<Rightarrow> exn + u64" where
  "dynamic_spec_getter v =
     (case v of
        V_int w \<Rightarrow> Inr (if sint w < 0 then NOT 0 else ucast w)
      | V_uint w \<Rightarrow> Inr (ucast w)
      | V_long_long w \<Rightarrow> Inr (if sint w < 0 then NOT 0 else w)
      | V_ulong_long w \<Rightarrow> Inr w
      | V_int128 w \<Rightarrow> Inr (if sint w < 0 then NOT 0 else ucast w)
      | V_uint128 w \<Rightarrow> Inr (ucast w)
      | _ \<Rightarrow> fail ''width/precision is not integer'')"

definition handle_dynamic_spec :: "arg_id_kind \<Rightarrow> int \<Rightarrow> arg_ref \<Rightarrow> format_args \<Rightarrow> exn + int" where
  "handle_dynamic_spec kind v ref args =
     (if kind = K_none then Inr v
      else
        let arg = (case ref of Ref_index i \<Rightarrow> get_arg i args | Ref_name n \<Rightarrow> get_arg_by_name n args)
        in chain (require (arg \<noteq> V_none) ''argument not found'') (\<lambda>_.
           chain (dynamic_spec_getter arg) (\<lambda>result.
           chain (require (\<not> uint result > max_int) ''width/precision is out of range'') (\<lambda>_.
             Inr (uint result)))))"

section \<open>Formatting at run time\<close>

definition run_context :: "(parse_context \<Rightarrow> exn + 'a \<times> parse_context) \<Rightarrow> (run_state, 'a) act" where
  "run_context f st =
     (case f (rs_ctx st) of Inl e \<Rightarrow> Some (Inl e, st) | Inr (a, ctx) \<Rightarrow> Some (Inr a, st\<lparr>rs_ctx := ctx\<rparr>))"

definition format_arg_name :: "format_args \<Rightarrow> string \<Rightarrow> (run_state, int) act" where
  "format_arg_name args n =
     act_bind (run_context (\<lambda>ctx. Inr ((), check_arg_name n ctx))) (\<lambda>_.
       let arg_id = get_id n args
       in if arg_id < 0 then act_lift (fail ''argument not found'') else act_return arg_id)"

text \<open>\<open>format_custom\<close> and the rest of \<open>on_format_specs\<close>.\<close>

definition format_custom :: "env \<Rightarrow> nat \<Rightarrow> string \<Rightarrow> (run_state, string) act" where
  "format_custom env a s st =
     (case en_custom env a s (rs_ctx st) of
        Inl e \<Rightarrow> Some (Inl e, st)
      | Inr (t, rest, ctx) \<Rightarrow> Some (Inr rest, (append_text t st)\<lparr>rs_ctx := ctx\<rparr>))"

definition dynamic_specs :: "format_args \<Rightarrow> dyn_specs \<Rightarrow> exn + specs" where
  "dynamic_specs args sp =
     (if spec_dynamic sp then
        chain (handle_dynamic_spec (dynamic_width sp) (sp_width sp) (ds_width_ref sp) args) (\<lambda>w.
        chain (handle_dynamic_spec (dynamic_precision sp) (sp_precision sp) (ds_precision_ref sp) args) (\<lambda>p.
          Inr (specs.truncate (sp\<lparr>sp_width := w, sp_precision := p\<rparr>))))
      else Inr (specs.truncate sp))"

definition format_specs_field :: "env \<Rightarrow> format_args \<Rightarrow> int \<Rightarrow> string \<Rightarrow> (run_state, string) act" where
  "format_specs_field env args i s =
     (case get_arg i args of
        V_none \<Rightarrow> act_lift (fail ''argument not found'')
      | V_custom a \<Rightarrow> format_custom env a s
      | arg \<Rightarrow>
          act_bind (run_context (\<lambda>ctx. map_sum id (\<lambda>(rest, sp, ctx). ((rest, sp), ctx))
              (parse_format_specs s default_dyn_specs ctx (value_type arg)))) (\<lambda>(rest, sp).
            act_bind (act_lift (dynamic_specs args sp)) (\<lambda>sp.
              act_bind (arg_formatter env sp arg) (\<lambda>_. act_return rest))))"

definition format_handler :: "env \<Rightarrow> format_args \<Rightarrow> run_state handler" where
  "format_handler env args =
     \<lparr>h_on_text = append_text,
      h_on_arg_id = run_context next_arg_id,
      h_on_arg_index = (\<lambda>i. run_context (check_arg_index i)),
      h_on_arg_name = format_arg_name args,
      h_on_replacement_field = (\<lambda>i s. default_arg_formatter env (get_arg i args)),
      h_on_format_specs = format_specs_field env args\<rparr>"

text \<open>\<open>vformat_to\<close>: the text appended and whether it threw.  \<open>vformat\<close> returns the text.\<close>

definition vformat_to :: "env \<Rightarrow> string \<Rightarrow> format_args \<Rightarrow> (string \<times> exn option) option" where
  "vformat_to env fmt args =
     map_option (\<lambda>(r, st). (rs_out st, case r of Inl e \<Rightarrow> Some e | Inr _ \<Rightarrow> None))
       (if length fmt = 2 \<and> fmt = ''{}''
        then default_arg_formatter env (get_arg 0 args) \<lparr>rs_ctx = mk_context None, rs_out = []\<rparr>
        else parse_format_string (format_handler env args) fmt \<lparr>rs_ctx = mk_context None, rs_out = []\<rparr>)"

definition vformat :: "env \<Rightarrow> string \<Rightarrow> format_args \<Rightarrow> (exn + string) option" where
  "vformat env fmt args =
     map_option (\<lambda>(text, e). case e of Some e \<Rightarrow> Inl e | None \<Rightarrow> Inr text)
       (vformat_to env fmt args)"

end
