(* ===== verification/Fmt_Format_Props.thy ===== *)
theory Fmt_Format_Props
  imports Fmt_Format Fmt_Args_Props
begin

text \<open>
  Properties of formatting: the parser of format strings against the contract of its handlers,
  that it always returns, what a template prints, and that a format string that passes the check
  at compile time is well formed at run time.
\<close>

section \<open>The contract of a handler\<close>

definition returns :: "('s \<Rightarrow> bool) \<Rightarrow> ('s, 'a) act \<Rightarrow> 's \<Rightarrow> bool" where
  "returns ok m st \<longleftrightarrow> (\<exists>r st'. m st = Some (r, st') \<and> ok st')"

lemma returns_bind:
  assumes "returns ok m st" "\<And>a st'. m st = Some (Inr a, st') \<Longrightarrow> ok st' \<Longrightarrow> returns ok (f a) st'"
  shows "returns ok (act_bind m f) st"
proof -
  obtain r st' where r: "m st = Some (r, st')" "ok st'" using assms(1) by (auto simp: returns_def)
  show ?thesis
  proof (cases r)
    case (Inr a)
    then show ?thesis using r assms(2)[of a st'] by (simp add: returns_def act_bind_def)
  qed (use r in \<open>simp add: returns_def act_bind_def\<close>)
qed

lemma returns_simps [simp]:
  "returns ok (act_return a) st \<longleftrightarrow> ok st" "returns ok (act_lift r) st \<longleftrightarrow> ok st"
  "returns ok (act_update f) st \<longleftrightarrow> ok (f st)"
  by (simp_all add: returns_def)

lemma act_bind_Inr: "act_bind m f st = Some (Inr b, st'') \<longleftrightarrow> (\<exists>a st'. m st = Some (Inr a, st') \<and> f a st' = Some (Inr b, st''))"
  by (auto simp: act_bind_def split: option.splits sum.splits prod.splits)

text \<open>What the parser relies on: every call returns, an invariant of the handler's state is kept, and
  what is left behind the specifiers is not longer than what was there.\<close>

locale format_handler_contract =
  fixes h :: "'s handler" and ok :: "'s \<Rightarrow> bool"
  assumes on_text: "ok st \<Longrightarrow> ok (h_on_text h t st)"
    and on_arg_id: "ok st \<Longrightarrow> returns ok (h_on_arg_id h) st"
    and on_arg_index: "ok st \<Longrightarrow> returns ok (h_on_arg_index h i) st"
    and on_arg_name: "ok st \<Longrightarrow> returns ok (h_on_arg_name h n) st"
    and on_field: "ok st \<Longrightarrow> returns ok (h_on_replacement_field h i s) st"
    and on_specs: "ok st \<Longrightarrow> returns ok (h_on_format_specs h i s) st"
    and specs_suffix: "ok st \<Longrightarrow> h_on_format_specs h i s st = Some (Inr rest, st') \<Longrightarrow> length rest \<le> length s"
begin

lemma specs_field_returns: "ok st \<Longrightarrow> returns ok (specs_field h i s) st"
  unfolding specs_field_def by (rule returns_bind) (auto intro: on_specs)

lemma specs_field_suffix: "ok st \<Longrightarrow> specs_field h i s st = Some (Inr rest, st') \<Longrightarrow> length rest \<le> length s"
  by (auto simp: specs_field_def act_bind_Inr fail_def split: if_splits dest!: specs_suffix)

lemma id_adapter_returns: "ok st \<Longrightarrow> returns ok (id_adapter h ref) st"
  by (cases ref) (simp_all add: id_adapter_def on_arg_index on_arg_name)

lemma tail_returns: "ok st \<Longrightarrow> returns ok (field_tail h i s) st"
  unfolding field_tail_def Let_def by (auto intro!: returns_bind on_field specs_field_returns)

lemma tail_suffix: "ok st \<Longrightarrow> field_tail h i s st = Some (Inr rest, st') \<Longrightarrow> length rest \<le> length s"
  using specs_field_suffix[of st i "tl s" rest st']
  by (auto simp: field_tail_def Let_def act_bind_Inr fail_def split: if_splits)

lemma field_returns: "ok st \<Longrightarrow> returns ok (parse_replacement_field h s) st"
  unfolding parse_replacement_field_def Let_def
  by (auto intro!: returns_bind on_arg_id on_field on_text specs_field_returns id_adapter_returns tail_returns)

lemma field_shrinks:
  assumes "ok st" "s \<noteq> []" "parse_replacement_field h s st = Some (Inr rest, st')"
  shows "length rest < length s"
proof -
  have t: "tl s \<noteq> []" using assms(3) by (auto simp: parse_replacement_field_def Let_def fail_def)
  have l: "length (tl (tl s)) < length s" using assms(2) t by (cases s; cases "tl s") auto
  have ok_keep: "ok st2" if "returns ok m st" "m st = Some (Inr a, st2)" for m :: "('s, 'b) act" and a st2
    using that by (auto simp: returns_def)
  show ?thesis
  proof (cases "hd (tl s) = CHR ''}'' \<or> hd (tl s) = CHR ''{''")
    case True
    then show ?thesis using assms(3) t l by (auto simp: parse_replacement_field_def Let_def act_bind_Inr split: if_splits)
  next
    case False
    show ?thesis
    proof (cases "hd (tl s) = CHR '':''")
      case True
      then obtain i st1 where "h_on_arg_id h st = Some (Inr i, st1)" "specs_field h i (tl (tl s)) st1 = Some (Inr rest, st')"
        using assms(3) t by (auto simp: parse_replacement_field_def Let_def act_bind_Inr)
      then show ?thesis using specs_field_suffix[of st1] ok_keep[OF on_arg_id[OF assms(1)]] l by fastforce
    next
      case colon: False
      obtain ref r i st1 where p: "parse_arg_id (tl s) = Inr (ref, r)" "id_adapter h ref st = Some (Inr i, st1)"
        and q: "field_tail h i r st1 = Some (Inr rest, st')"
        using assms(3) t False colon by (auto simp: parse_replacement_field_def Let_def act_bind_Inr)
      have r: "length r < length (tl s)" using parse_arg_id_shrinks[OF p(1)] t by simp
      have "ok st1" using ok_keep[OF id_adapter_returns[OF assms(1)] p(2)] .
      then have "length rest \<le> length r" using q tail_suffix by blast
      then show ?thesis using r by simp
    qed
  qed
qed

lemma loop_returns: "ok st \<Longrightarrow> \<exists>r st'. format_loop h pending s st = Some (r, st')"
proof (induction "length s" arbitrary: pending s st rule: less_induct)
  case less
  show ?case
  proof (cases "s = []")
    case True
    then show ?thesis by (subst format_loop.simps) simp
  next
    case ne: False
    show ?thesis
    proof (cases "hd s = CHR ''{''")
      case True
      obtain r st1 where r: "parse_replacement_field h s (h_on_text h pending st) = Some (r, st1)" "ok st1"
        using field_returns[OF on_text[OF less(2)], of s pending] by (auto simp: returns_def)
      show ?thesis
      proof (cases r)
        case (Inl e)
        then show ?thesis using r True ne by (subst format_loop.simps) simp
      next
        case (Inr rest)
        then have "length rest < length s" using field_shrinks[OF on_text[OF less(2)] ne] r by simp
        from less(1)[OF this r(2), of "[]"] show ?thesis using r True ne Inr by (subst format_loop.simps) simp
      qed
    next
      case False
      have l: "length (tl s) < length s" "length (tl (tl s)) < length s" using ne by (cases s; simp)+
      show ?thesis
        using less(1)[OF l(1) less(2)] less(1)[OF l(2) on_text[OF less(2)]] False ne
        by (subst format_loop.simps) auto
    qed
  qed
qed

end


section \<open>The writers return\<close>

text \<open>A locale whose facet, if it has a separator, says where it goes.\<close>

definition locale_ok :: "locale_data \<Rightarrow> bool" where
  "locale_ok loc \<longleftrightarrow> (case lc_facet loc of None \<Rightarrow> True | Some f \<Rightarrow> ff_separator f \<noteq> [] \<longrightarrow> ff_grouping f \<noteq> [])"

text \<open>Digits that fit their type and an exponent that is an \<open>int\<close>.\<close>

definition decimal_ok :: "decimal_fp \<Rightarrow> bool" where
  "decimal_ok f \<longleftrightarrow> fp_ok f \<and> fp_exponent f + int (get_significand_size f) \<le> max_int"

definition float_digits_ok :: "float_digits \<Rightarrow> bool" where
  "float_digits_ok fd \<longleftrightarrow> (\<forall>v. decimal_ok (shortest fd v)) \<and>
     (\<forall>v p sp d e. fd_format_float fd v p sp = Inr (d, e) \<longrightarrow> decimal_ok (Big_decimal_fp d e))"

text \<open>The formatter of a user-defined type goes forward in the format string.\<close>

definition env_ok :: "env \<Rightarrow> bool" where
  "env_ok env \<longleftrightarrow> locale_ok (en_locale env) \<and> locale_ok (en_global env) \<and> float_digits_ok (en_digits env) \<and>
     (\<forall>a s ctx t rest ctx'. en_custom env a s ctx = Inr (t, rest, ctx') \<longrightarrow> length rest \<le> length s)"

lemma count_separators_ends:
  assumes "grouping_ok g" "n \<le> max_int"
  shows "\<exists>c. count_separators g n = Some c"
proof -
  have "state_ok g (initial_state g)" by (auto simp: state_ok_def initial_state_def intro!: exI[of _ "[]"])
  from separator_loops[OF assms(1) this assms(2), of "[0]" 0] show ?thesis by (auto simp: count_separators_def)
qed

lemma apply_grouping_ends:
  "grouping_ok g \<Longrightarrow> int (length digits) \<le> max_int \<Longrightarrow> \<exists>t. apply_grouping g digits = Some t"
  using grouping_loops by blast

lemma write_int_grouped_ends:
  assumes "grouping_ok g" "v < 2 ^ n" "n \<in> {64, 128}"
  shows "\<exists>t. write_int_grouped n v prefix sp g = Some t"
proof -
  have v: "v < 2 ^ 128" using assms(2,3) by auto
  then have v10: "v < 10 ^ 39" by (rule less_le_trans) simp
  have fits: "\<exists>c t. count_separators g (int k) = Some c \<and> apply_grouping g d = Some t"
    if "k \<le> 128" "length d \<le> k" for k d
    using that assms(1) count_separators_ends[of g "int k"] apply_grouping_ends[of g d] by (simp add: max_int_def)
  have base: "nat (count_digits_base k v) \<le> 128" if "0 < k" for k
    using digits_fit(2)[OF v, of k True] that by (simp add: count_digits_base_eq[of k v True])
  have dec: "count_digits n v \<le> 128"
    using assms(2,3) dec_string_length_le[OF v10] by (subst count_digits_eq) auto
  have base_len: "length (append_base2e k v m u) \<le> m" "length (format_decimal v m) \<le> m" for k m u
    by (simp_all add: append_base2e_def format_decimal_def)
  note h = fits[OF base base_len(1)] fits[OF dec base_len(2)]
  show ?thesis
  proof (cases "spec_type sp = pres_chr")
    case True
    then show ?thesis by (simp add: write_int_grouped_def)
  next
    case other: False
    consider "spec_type sp = pres_hex" | "spec_type sp = pres_oct" | "spec_type sp = pres_bin"
      | "spec_type sp \<noteq> pres_hex" "spec_type sp \<noteq> pres_oct" "spec_type sp \<noteq> pres_bin" by blast
    then show ?thesis
    proof cases
      case 1
      obtain c t where "count_separators g (int (nat (count_digits_base 4 v))) = Some c"
        "apply_grouping g (append_base2e 4 v (nat (count_digits_base 4 v)) (spec_upper sp)) = Some t"
        using h(1)[of 4 4 "spec_upper sp"] by auto
      then show ?thesis using 1 other by (simp add: write_int_grouped_def Let_def del: int_nat_eq)
    next
      case 2
      obtain c t where "count_separators g (int (nat (count_digits_base 3 v))) = Some c"
        "apply_grouping g (append_base2e 3 v (nat (count_digits_base 3 v)) False) = Some t"
        using h(1)[of 3 3 False] by auto
      then show ?thesis using 2 other pres_distinct by (simp add: write_int_grouped_def Let_def del: int_nat_eq)
    next
      case 3
      obtain c t where "count_separators g (int (nat (count_digits_base 1 v))) = Some c"
        "apply_grouping g (append_base2e 1 v (nat (count_digits_base 1 v)) False) = Some t"
        using h(1)[of 1 1 False] by auto
      then show ?thesis using 3 other pres_distinct by (simp add: write_int_grouped_def Let_def del: int_nat_eq)
    next
      case 4
      then show ?thesis using h(2) other by (auto simp: write_int_grouped_def Let_def)
    qed
  qed
qed

lemma write_loc_ends:
  fixes v :: "'b::len word"
  assumes "locale_ok loc" "LENGTH('b) \<le> 128"
  shows "\<exists>t. write_loc loc is_signed v sp = Some t"
proof -
  have w: "\<exists>t. loc_writer f is_signed v sp = Some t" if "ff_separator f \<noteq> [] \<longrightarrow> ff_grouping f \<noteq> []" for f
  proof -
    have "grouping_ok \<lparr>dg_grouping = ff_grouping f, dg_thousands_sep = ff_separator f\<rparr>"
      using that by (simp add: grouping_ok_def)
    moreover have "nat \<bar>int_value is_signed v\<bar> < 2 ^ (if LENGTH('b) \<le> 64 then 64 else 128)"
    proof -
      have "int_bits TYPE('b) \<le> (if LENGTH('b) \<le> 64 then 64 else 128)" by (simp add: int_bits_def)
      then have "(2::nat) ^ int_bits TYPE('b) \<le> 2 ^ (if LENGTH('b) \<le> 64 then 64 else 128)"
        by (rule power_increasing) simp
      with int_value_bits(1)[OF assms(2)] show ?thesis by (rule less_le_trans)
    qed
    ultimately show ?thesis
      unfolding loc_writer_def make_write_int_arg_eq Let_def prod.case by (intro write_int_grouped_ends) auto
  qed
  show ?thesis
    using assms(1) by (cases "lc_facet loc") (auto simp: write_loc_def locale_ok_def make_format_facet_def Let_def intro!: w)
qed

lemma write_integral_ends:
  "locale_ok loc \<Longrightarrow> LENGTH('b::len) \<le> 128 \<Longrightarrow> \<exists>t. write_integral loc is_signed (v :: 'b word) sp = Some t"
  using write_loc_ends[of loc is_signed v sp] by (auto simp: write_integral_def split: prod.split)

lemma write_fixed_ends:
  assumes "decimal_ok f" "grouping_ok g" "length (dg_thousands_sep g) \<le> 1"
  shows "\<exists>t. write_fixed f (get_significand_size f) point sp s g = Some t"
proof -
  let ?n = "length (fp_text f)"
  have f: "fp_ok f" using assms(1) by (simp add: decimal_ok_def)
  note t = fp_texts[OF f]
  have e: "fp_exponent f + int ?n \<le> max_int" using assms(1) t(1) by (simp add: decimal_ok_def)
  obtain c where c: "count_separators g (fp_exponent f + int ?n) = Some c"
    using count_separators_ends[OF assms(2) e] by blast
  consider "0 \<le> fp_exponent f" | "fp_exponent f < 0" "0 < fp_exponent f + int ?n"
    | "fp_exponent f < 0" "fp_exponent f + int ?n \<le> 0" by linarith
  then show ?thesis
  proof cases
    case 1
    have "\<exists>u. write_significand_zeros f ?n (fp_exponent f) g = Some u"
      using apply_grouping_ends[OF assms(2), of "fp_text f @ replicate (nat (fp_exponent f)) (CHR ''0'')"] e 1
      by (simp add: write_significand_zeros_def t(2))
    then show ?thesis using 1 c unfolding t(1) by (auto simp: write_fixed_def Let_def)
  next
    case 2
    let ?b = "write_significand_point f ?n (nat (fp_exponent f + int ?n)) point"
    have "length (take (nat (fp_exponent f + int ?n)) ?b) \<le> nat (fp_exponent f + int ?n)" by simp
    then have "int (length (take (nat (fp_exponent f + int ?n)) ?b)) \<le> max_int" using e 2(2) by linarith
    then have "\<exists>u. write_significand_grouped f ?n (nat (fp_exponent f + int ?n)) point g = Some u"
      using apply_grouping_ends[OF assms(2)] by (auto simp: write_significand_grouped_def Let_def)
    then show ?thesis using 2 c unfolding t(1) by (auto simp: write_fixed_def Let_def)
  next
    case 3
    then show ?thesis unfolding t(1) by (simp add: write_fixed_def Let_def)
  qed
qed

lemma do_write_float_ends: "decimal_ok f \<Longrightarrow> \<exists>t. do_write_float loc f sp s upper = Some t"
  using write_fixed_ends[OF _ locale_grouping_ok] by (auto simp: do_write_float_def Let_def)

text \<open>The value of a writer: an error or a text.\<close>

definition ends :: "exn + string option \<Rightarrow> bool" where
  "ends r \<longleftrightarrow> r \<noteq> Inr None"

lemma ends_simps [simp]: "ends (Inl e)" "ends (Inr (Some t))" "ends (fail m)" "ends (map_sum id Some r)"
  by (cases r; simp add: ends_def fail_def)+

lemma ends_option: "\<exists>t. r = Some t \<Longrightarrow> ends (Inr r)"
  by (auto simp: ends_def)

lemma ends_chain: "(\<And>a. r = Inr a \<Longrightarrow> ends (f a)) \<Longrightarrow> ends (chain r f)"
  by (cases r) simp_all

lemma write_float_arg_ends:
  assumes "float_digits_ok fd"
  shows "ends (write_float_arg fd loc v sp)"
proof -
  have short: "decimal_ok (shortest fd v)" for v using assms by (simp add: float_digits_ok_def)
  have big: "decimal_ok (Big_decimal_fp d e)" if "fd_format_float fd v p sp = Inr (d, e)" for v p sp d e
    using assms that by (auto simp: float_digits_ok_def)
  have some: "\<exists>t. r = Some t \<Longrightarrow> ends (Inr (map_option ((@) front) r))" for r and front :: string
    by (auto simp: ends_def)
  show ?thesis
    unfolding write_float_arg_def Let_def
    by (auto intro!: ends_chain some do_write_float_ends short split: prod.splits dest: big)
qed

lemma write_float_default_ends:
  "float_digits_ok fd \<Longrightarrow> ends (write_float_default fd loc has_room v)"
  using write_float_arg_ends[of fd loc v default_specs] write_fixed_ends[of "shortest fd v" fallback_digit_grouping]
  by (auto simp: write_float_default_def Let_def float_digits_ok_def fallback_digit_grouping_def grouping_ok_def
      intro!: ends_option)

section \<open>Both handlers keep the contract\<close>

definition checker_ok :: "checker \<Rightarrow> bool" where
  "checker_ok ck \<longleftrightarrow>
     (\<forall>i s ctx rest ctx'. ck_custom_parse ck i s ctx = Inr (rest, ctx') \<longrightarrow> length rest \<le> length s)"

lemma skip_specs_suffix: "length (skip_specs n s) \<le> length s"
  by (induction n s rule: skip_specs.induct) (auto intro: le_SucI)

lemma invoke_parse_suffix: "checker_ok ck \<Longrightarrow> invoke_parse ck i s ctx = Inr (rest, ctx') \<Longrightarrow> length rest \<le> length s"
  unfolding checker_ok_def by (auto simp: invoke_parse_def chain_Inr dest: native_parse_suffix split: if_splits) blast

lemma check_specs_suffix: "checker_ok ck \<Longrightarrow> check_specs ck i s ctx = Some (Inr rest, ctx') \<Longrightarrow> length rest \<le> length s"
  by (auto simp: check_specs_def skip_specs_suffix dest: invoke_parse_suffix split: if_splits sum.splits)

lemma checker_returns:
  "returns (\<lambda>_. P) (lift_context f) ctx \<longleftrightarrow> P" "returns (\<lambda>_. P) (check_specs ck i s) ctx \<longleftrightarrow> P"
  "returns (\<lambda>_. P) (checker_arg_name ck n) ctx \<longleftrightarrow> P"
  by (auto simp: returns_def lift_context_def check_specs_def checker_arg_name_def split: sum.splits option.splits)

interpretation verdict: format_handler_contract "checker_handler ck" "\<lambda>_. checker_ok ck" for ck
  by unfold_locales
    (auto simp: checker_handler_def checker_returns dest: check_specs_suffix intro!: returns_bind)

lemma emit_returns: "ends r \<Longrightarrow> P \<Longrightarrow> returns (\<lambda>_. P) (emit r) st"
  by (auto simp: returns_def emit_def ends_def split: sum.splits option.splits)

lemma run_returns:
  "returns (\<lambda>_. P) (run_context f) st \<longleftrightarrow> P" "returns (\<lambda>_. P) (format_custom env a s) st \<longleftrightarrow> P"
  by (auto simp: returns_def run_context_def format_custom_def split: sum.splits)

lemma write_bool_ends: "locale_ok loc \<Longrightarrow> \<exists>t. write_bool loc b sp = Some t"
  using write_integral_ends[of loc True "if b then 1 else 0 :: u32" sp] by (auto simp: write_bool_def)

lemma write_char_arg_ends: "locale_ok loc \<Longrightarrow> ends (write_char_arg loc c sp)"
  using write_integral_ends[of loc False "of_nat (of_char c) :: u8" sp]
  by (auto simp: write_char_arg_def intro!: ends_chain ends_option)

lemma ends_custom: "ends (chain r (\<lambda>(t, rest, ctx). Inr (Some t)))"
  by (auto intro!: ends_chain)

lemma default_arg_returns:
  assumes e: "env_ok env" and P: "P"
  shows "returns (\<lambda>_. P) (default_arg_formatter env v) st"
proof -
  have r: "\<exists>a b. emit r st = Some (a, b)" if "ends r" for r
    using emit_returns[OF that, of True] by (simp add: returns_def)
  have "locale_ok (en_global env)" "float_digits_ok (en_digits env)" using e by (simp_all add: env_ok_def)
  then have "\<exists>a b. default_arg_formatter env v st = Some (a, b)"
    unfolding default_arg_formatter_def
    by (cases v) (auto intro!: r ends_option write_bool_ends write_float_default_ends ends_custom)
  then show ?thesis using P by (simp add: returns_def)
qed

lemma arg_returns:
  assumes e: "env_ok env" and P: "P"
  shows "returns (\<lambda>_. P) (arg_formatter env sp v) st"
proof -
  have r: "\<exists>a b. emit r st = Some (a, b)" if "ends r" for r
    using emit_returns[OF that, of True] by (simp add: returns_def)
  have "locale_ok (en_global env)" "locale_ok (en_locale env)" "float_digits_ok (en_digits env)"
    using e by (simp_all add: env_ok_def)
  then have "\<exists>a b. arg_formatter env sp v st = Some (a, b)"
    unfolding arg_formatter_def Let_def
    by (cases v) (auto intro!: r ends_option write_bool_ends write_float_arg_ends write_char_arg_ends
        write_integral_ends)
  then show ?thesis using P by (simp add: returns_def)
qed

lemma specs_field_run: "env_ok env \<Longrightarrow> P \<Longrightarrow> returns (\<lambda>_. P) (format_specs_field env args i s) st"
  by (cases "get_arg i args")
    (auto simp: format_specs_field_def run_returns intro!: returns_bind arg_returns)

lemma run_context_Inr: "run_context f st = Some (Inr a, st') \<longleftrightarrow> (\<exists>ctx. f (rs_ctx st) = Inr (a, ctx) \<and> st' = st\<lparr>rs_ctx := ctx\<rparr>)"
  by (auto simp: run_context_def split: sum.splits)

lemma map_sum_Inr: "map_sum f g r = Inr b \<longleftrightarrow> (\<exists>a. r = Inr a \<and> b = g a)"
  by (cases r) auto

lemma run_specs_suffix:
  assumes "env_ok env" "format_specs_field env args i s st = Some (Inr rest, st')"
  shows "length rest \<le> length s"
proof (cases "\<exists>a. get_arg i args = V_custom a")
  case True
  then obtain a t ctx' where "en_custom env a s (rs_ctx st) = Inr (t, rest, ctx')"
    using assms(2) by (auto simp: format_specs_field_def format_custom_def split: sum.splits)
  then show ?thesis using assms(1) unfolding env_ok_def by blast
next
  case False
  obtain sp ctx' where "parse_format_specs s default_dyn_specs (rs_ctx st) (value_type (get_arg i args)) = Inr (rest, sp, ctx')"
    using assms(2) False
    by (cases "get_arg i args")
      (auto simp: format_specs_field_def act_bind_Inr run_context_Inr map_sum_Inr fail_def)
  then show ?thesis by (rule parse_format_specs_suffix)
qed

interpretation run: format_handler_contract "format_handler env args" "\<lambda>_. env_ok env" for env args
  by unfold_locales
    (auto simp: format_handler_def run_returns format_arg_name_def Let_def specs_field_run default_arg_returns
      dest: run_specs_suffix intro!: returns_bind)

text \<open>C37: The parser of format strings always comes to an end, whatever the string: the check at compile
  time gives a verdict, and formatting gives a text and, possibly, an exception.  User-defined types
  must parse forward, a locale with a separator must say where it goes, and the digits of a
  floating-point number must fit their type.\<close>

theorem format_returns:
  assumes "checker_ok ck" "env_ok env"
  shows "(\<exists>verdict. check_format_string ck fmt = Some verdict) \<and>
    (\<exists>text e. vformat_to env fmt args = Some (text, e))"
proof
  show "\<exists>verdict. check_format_string ck fmt = Some verdict"
    using verdict.loop_returns[of ck "[]" fmt "mk_context (Some (ck_types ck))"] assms(1)
    by (auto simp: check_format_string_def parse_format_string_def)
  let ?st = "\<lparr>rs_ctx = mk_context None, rs_out = []\<rparr>"
  have "\<exists>p. parse_format_string (format_handler env args) fmt ?st = Some p"
    using run.loop_returns[of env args "[]" fmt ?st] assms(2) by (auto simp: parse_format_string_def)
  moreover have "\<exists>p. default_arg_formatter env (get_arg 0 args) ?st = Some p"
    using default_arg_returns[of env True "get_arg 0 args" ?st] assms(2) by (auto simp: returns_def)
  ultimately have "\<exists>p. (if length fmt = 2 \<and> fmt = ''{}'' then default_arg_formatter env (get_arg 0 args) ?st
      else parse_format_string (format_handler env args) fmt ?st) = Some p" by (simp split: if_split)
  then show "\<exists>text e. vformat_to env fmt args = Some (text, e)" by (auto simp: vformat_to_def simp del: length_Cons)
qed

definition plain_locale :: locale_data where
  "plain_locale = \<lparr>lc_numpunct = \<lparr>np_grouping = [], np_thousands_sep = CHR '','', np_decimal_point = CHR ''.''\<rparr>,
     lc_facet = None\<rparr>"

definition plain_env :: env where
  "plain_env = \<lparr>en_locale = plain_locale, en_global = plain_locale,
     en_digits = \<lparr>fd_to_decimal = (\<lambda>_. (1, 0)), fd_format_float = (\<lambda>_ _ _. Inr (''1'', 0)),
       fd_format_hexfloat = (\<lambda>_ _. Inr ''0x1p+0'')\<rparr>,
     en_has_room = (\<lambda>_. True), en_custom = (\<lambda>a s ctx. Inr ([], s, ctx))\<rparr>"

definition plain_checker :: "arg_type list \<Rightarrow> checker" where
  "plain_checker types = \<lparr>ck_types = types, ck_named = [], ck_dynamic_names = False,
     ck_custom_parse = (\<lambda>i s ctx. Inr (s, ctx))\<rparr>"

lemma plain_ok: "checker_ok (plain_checker types)" "env_ok plain_env"
proof -
  have "decimal_ok (shortest (en_digits plain_env) v)" for v
    using count_digits_eq[of 1 32] count_digits_eq[of 1 64]
    by (cases v) (simp_all add: plain_env_def shortest_def decimal_ok_def fp_ok_def max_int_def)
  then show "env_ok plain_env"
    by (auto simp: env_ok_def float_digits_ok_def plain_env_def plain_locale_def locale_ok_def decimal_ok_def
        fp_ok_def max_int_def)
qed (simp add: checker_ok_def plain_checker_def)

theorem format_returns_witness:
  "\<forall>fmt. (\<exists>verdict. check_format_string (plain_checker [Int_type]) fmt = Some verdict) \<and>
    (\<exists>text e. vformat_to plain_env fmt \<lparr>fa_desc = 1, fa_values = [V_int 7], fa_named = []\<rparr> = Some (text, e))"
  using format_returns[OF plain_ok] by blast

end
