(* ===== verification/Fmt_Template.thy ===== *)
theory Fmt_Template
  imports Fmt_Format_Props
begin

text \<open>
  What formatting prints: a format string made of text, with its braces doubled, and of plain
  replacement fields gives the text and the arguments in their order.
\<close>

section \<open>Templates\<close>

datatype piece = Literal string | Field

fun double_brace :: "char \<Rightarrow> string" where
  "double_brace c = (if c = CHR ''{'' \<or> c = CHR ''}'' then [c, c] else [c])"

declare double_brace.simps [simp del]

fun piece_text :: "piece \<Rightarrow> string" where
  "piece_text (Literal s) = concat (map double_brace s)"
| "piece_text Field = ''{}''"

definition template_text :: "piece list \<Rightarrow> string" where
  "template_text ps = concat (map piece_text ps)"

fun fields :: "piece list \<Rightarrow> nat" where
  "fields [] = 0"
| "fields (Literal s # ps) = fields ps"
| "fields (Field # ps) = Suc (fields ps)"

text \<open>The text printed with given texts of the arguments; it stops at a field without an argument.\<close>

fun render :: "piece list \<Rightarrow> string list \<Rightarrow> string" where
  "render [] ts = []"
| "render (Literal s # ps) ts = s @ render ps ts"
| "render (Field # ps) [] = []"
| "render (Field # ps) (t # ts) = t @ render ps ts"

text \<open>The text of an argument that needs no locale and no digits of floating-point numbers.\<close>

fun plain_text :: "arg_value \<Rightarrow> string option" where
  "plain_text (V_int w) = Some (int_string (sint w))"
| "plain_text (V_uint w) = Some (int_string (uint w))"
| "plain_text (V_long_long w) = Some (int_string (sint w))"
| "plain_text (V_ulong_long w) = Some (int_string (uint w))"
| "plain_text (V_int128 w) = Some (int_string (sint w))"
| "plain_text (V_uint128 w) = Some (int_string (uint w))"
| "plain_text (V_bool b) = Some (if b then ''true'' else ''false'')"
| "plain_text (V_char c) = Some [c]"
| "plain_text (V_string s) = Some s"
| "plain_text (V_cstring p s) = (if p \<noteq> 0 then Some s else None)"
| "plain_text _ = None"

section \<open>The fast path\<close>

lemma default_arg_emit: "\<exists>f. \<forall>st. default_arg_formatter env v st = emit (f (rs_out st)) st"
proof -
  have "\<exists>f. \<forall>st. emit (g (en_has_room env (rs_out st))) st = emit (f (rs_out st)) st" for g
    by (intro exI[of _ "\<lambda>out. g (en_has_room env out)"]) simp
  then show ?thesis unfolding default_arg_formatter_def by (cases v) auto
qed

text \<open>\<open>vformat_to\<close> formats the string that is one empty field without the parser, to the same effect.\<close>

lemma vformat_fast_path:
  "vformat_to env fmt args =
     map_option (\<lambda>(r, st). (rs_out st, case r of Inl e \<Rightarrow> Some e | Inr _ \<Rightarrow> None))
       (parse_format_string (format_handler env args) fmt \<lparr>rs_ctx = mk_context None, rs_out = []\<rparr>)"
proof (cases "fmt = ''{}''")
  case False
  then show ?thesis by (simp add: vformat_to_def split: if_split)
next
  case True
  obtain f where f: "default_arg_formatter env (get_arg 0 args) st = emit (f (rs_out st)) st" for st
    using default_arg_emit by blast
  let ?st1 = "\<lparr>rs_ctx = \<lparr>p_next = 1, p_types = None\<rparr>, rs_out = []\<rparr>"
  have "parse_format_string (format_handler env args) ''{}'' \<lparr>rs_ctx = mk_context None, rs_out = []\<rparr> =
      (case emit (f []) ?st1 of None \<Rightarrow> None | Some (Inl e, st) \<Rightarrow> Some (Inl e, st)
       | Some (Inr u, st) \<Rightarrow> Some (Inr (), append_text [] st))"
    unfolding parse_format_string_def
    by (subst format_loop.simps) (auto simp: parse_replacement_field_def act_bind_def format_handler_def run_context_def
        next_arg_id_def do_check_arg_id_def mk_context_def append_text_def f Let_def
        format_loop.simps[of _ "[]" "[]"] split: option.splits sum.splits)
  then show ?thesis using f
    by (auto simp: vformat_to_def True emit_def append_text_def split: sum.splits option.splits)
qed

section \<open>Formatting a template\<close>

lemma default_specs_plain: "write_padded a default_specs n f = f"
proof -
  have sp: "default_specs = default_specs\<lparr>sp_width := 0\<rparr>" by (simp add: default_specs_def)
  note f = default_width_specs[of 0, folded sp]
  show ?thesis using write_padded_eq[of default_specs a n f] padded_wide[of default_specs n a f] f by simp
qed

lemma shown_default:
  assumes "plain_text v = Some t"
  shows "default_arg_formatter env v st = Some (Inr (), append_text t st)"
proof -
  have sp: "default_specs = default_specs\<lparr>sp_width := 0\<rparr>" by (simp add: default_specs_def)
  note f = default_width_specs[of 0, folded sp]
  show ?thesis
    using assms f default_specs_plain
    by (cases v) (auto simp: default_arg_formatter_def emit_def write_integral_default_eq int_value_def write_bool_def
        write_bytes_def write_cstring_default_def spec_type_defs split: if_splits)
qed

lemma literal_step:
  "\<exists>pending' st'. format_loop (format_handler env args) pending (double_brace c @ rest) st =
      format_loop (format_handler env args) pending' rest st' \<and>
    rs_out st' @ pending' = rs_out st @ pending @ [c] \<and> rs_ctx st' = rs_ctx st"
proof -
  consider "c = CHR ''{''" | "c = CHR ''}''" | "c \<noteq> CHR ''{''" "c \<noteq> CHR ''}''" by blast
  then show ?thesis
  proof cases
    case 1
    have "format_loop (format_handler env args) pending (double_brace c @ rest) st =
        format_loop (format_handler env args) [] rest (append_text [c] (append_text pending st))"
      unfolding 1 by (subst format_loop.simps)
        (simp add: parse_replacement_field_def act_bind_def format_handler_def double_brace.simps)
    then show ?thesis by (intro exI[of _ "[]"] exI) (auto simp: append_text_def)
  next
    case 2
    have "format_loop (format_handler env args) pending (double_brace c @ rest) st =
        format_loop (format_handler env args) [] rest (append_text (pending @ [c]) st)"
      unfolding 2 by (subst format_loop.simps) (simp add: format_handler_def double_brace.simps)
    then show ?thesis by (intro exI[of _ "[]"] exI) (auto simp: append_text_def)
  next
    case 3
    have "format_loop (format_handler env args) pending (double_brace c @ rest) st =
        format_loop (format_handler env args) (pending @ [c]) rest st"
      using 3 by (subst format_loop.simps) (simp add: double_brace.simps)
    then show ?thesis by (intro exI[of _ "pending @ [c]"] exI[of _ st]) simp
  qed
qed

lemma literal_loop:
  "\<exists>pending' st'. format_loop (format_handler env args) pending (concat (map double_brace s) @ rest) st =
      format_loop (format_handler env args) pending' rest st' \<and>
    rs_out st' @ pending' = rs_out st @ pending @ s \<and> rs_ctx st' = rs_ctx st"
proof (induction s arbitrary: pending st)
  case (Cons c s)
  obtain p1 st1 where 1: "format_loop (format_handler env args) pending (double_brace c @ concat (map double_brace s) @ rest) st =
      format_loop (format_handler env args) p1 (concat (map double_brace s) @ rest) st1"
    "rs_out st1 @ p1 = rs_out st @ pending @ [c]" "rs_ctx st1 = rs_ctx st"
    using literal_step by blast
  obtain p2 st2 where "format_loop (format_handler env args) p1 (concat (map double_brace s) @ rest) st1 =
      format_loop (format_handler env args) p2 rest st2"
    "rs_out st2 @ p2 = rs_out st1 @ p1 @ s" "rs_ctx st2 = rs_ctx st1"
    using Cons.IH by blast
  with 1 show ?case by (intro exI[of _ p2] exI[of _ st2]) (simp flip: append_assoc)
qed auto

text \<open>The state of automatic indexing.\<close>

definition at_arg :: "nat \<Rightarrow> run_state \<Rightarrow> bool" where
  "at_arg k st \<longleftrightarrow> rs_ctx st = \<lparr>p_next = int k, p_types = None\<rparr>"

lemma field_arg:
  assumes "at_arg k st" "get_arg (int k) args = v" "plain_text v = Some t"
  shows "\<exists>st'. format_loop (format_handler env args) pending (''{}'' @ rest) st =
      format_loop (format_handler env args) [] rest st' \<and> rs_out st' = rs_out st @ pending @ t \<and> at_arg (Suc k) st'"
proof -
  let ?st = "append_text pending st"
  let ?st1 = "?st\<lparr>rs_ctx := \<lparr>p_next = int k + 1, p_types = None\<rparr>\<rparr>"
  have "run_context next_arg_id ?st = Some (Inr (int k), ?st1)"
    using assms(1) by (simp add: run_context_def next_arg_id_def do_check_arg_id_def at_arg_def append_text_def Let_def)
  then have "format_loop (format_handler env args) pending (''{}'' @ rest) st =
      format_loop (format_handler env args) [] rest (append_text t ?st1)"
    using shown_default[OF assms(3), of env ?st1] assms(2)
    by (subst format_loop.simps) (simp add: parse_replacement_field_def act_bind_def format_handler_def)
  then show ?thesis by (intro exI[of _ "append_text t ?st1"]) (simp add: append_text_def at_arg_def)
qed

lemma field_no_arg:
  assumes "at_arg k st" "get_arg (int k) args = V_none"
  shows "\<exists>st'. format_loop (format_handler env args) pending (''{}'' @ rest) st =
      Some (Inl (Format_error ''argument not found''), st') \<and> rs_out st' = rs_out st @ pending"
proof -
  let ?st = "append_text pending st"
  let ?st1 = "?st\<lparr>rs_ctx := \<lparr>p_next = int k + 1, p_types = None\<rparr>\<rparr>"
  have "run_context next_arg_id ?st = Some (Inr (int k), ?st1)"
    using assms(1) by (simp add: run_context_def next_arg_id_def do_check_arg_id_def at_arg_def append_text_def Let_def)
  then have "format_loop (format_handler env args) pending (''{}'' @ rest) st =
      Some (Inl (Format_error ''argument not found''), ?st1)"
    using assms(2) by (subst format_loop.simps)
      (simp add: parse_replacement_field_def act_bind_def format_handler_def default_arg_formatter_def emit_def fail_def)
  then show ?thesis by (intro exI[of _ ?st1]) (simp add: append_text_def)
qed

lemma template_loop:
  assumes "\<And>i. i \<le> length vs \<Longrightarrow> get_arg (int i) args = (if i < length vs then vs ! i else V_none)"
    "map plain_text vs = map Some ts"
  shows "at_arg k st \<Longrightarrow> k \<le> length vs \<Longrightarrow>
    \<exists>st'. format_loop (format_handler env args) pending (template_text ps) st =
        Some (if k + fields ps \<le> length vs then Inr () else Inl (Format_error ''argument not found''), st') \<and>
      rs_out st' = rs_out st @ pending @ render ps (drop k ts)"
proof (induction ps arbitrary: k st pending)
  case Nil
  then show ?case by (subst format_loop.simps) (auto simp: template_text_def format_handler_def append_text_def)
next
  case (Cons p ps)
  show ?case
  proof (cases p)
    case (Literal s)
    obtain p1 st1 where 1: "format_loop (format_handler env args) pending (template_text (p # ps)) st =
        format_loop (format_handler env args) p1 (template_text ps) st1"
      "rs_out st1 @ p1 = rs_out st @ pending @ s" "rs_ctx st1 = rs_ctx st"
      using literal_loop[of env args pending s "template_text ps" st] Literal by (auto simp: template_text_def)
    have "at_arg k st1" using Cons.prems(1) 1(3) by (simp add: at_arg_def)
    from Cons.IH[OF this Cons.prems(2), of p1] obtain st2 where
      "format_loop (format_handler env args) p1 (template_text ps) st1 =
        Some (if k + fields ps \<le> length vs then Inr () else Inl (Format_error ''argument not found''), st2)"
      "rs_out st2 = rs_out st1 @ p1 @ render ps (drop k ts)" by blast
    then show ?thesis using 1 Literal by (simp flip: append_assoc)
  next
    case Field
    have tt: "template_text (p # ps) = ''{}'' @ template_text ps" by (simp add: template_text_def Field)
    have len: "length ts = length vs" using assms(2) map_eq_imp_length_eq by fastforce
    show ?thesis
    proof (cases "k < length vs")
      case True
      have "plain_text (vs ! k) = Some (ts ! k)" using arg_cong[OF assms(2), of "\<lambda>l. l ! k"] True len by simp
      from field_arg[OF Cons.prems(1) _ this, of args env pending "template_text ps"] obtain st1 where 1:
        "format_loop (format_handler env args) pending (''{}'' @ template_text ps) st =
          format_loop (format_handler env args) [] (template_text ps) st1"
        "rs_out st1 = rs_out st @ pending @ ts ! k" "at_arg (Suc k) st1"
        using assms(1)[of k] True by auto
      have "drop k ts = ts ! k # drop (Suc k) ts" using True len by (simp add: Cons_nth_drop_Suc)
      then show ?thesis using Cons.IH[OF 1(3), of "[]"] True 1 unfolding tt by (auto simp: Field)
    next
      case False
      then have "k = length vs" using Cons.prems(2) by simp
      then show ?thesis using field_no_arg[OF Cons.prems(1), of args env pending "template_text ps"] assms(1)[of k] len
        unfolding tt by (auto simp: Field)
    qed
  qed
qed

lemma template_formats:
  assumes "make_format_args (map (Pair None) vs) = Inr args" "length vs < 2 ^ 31" "map plain_text vs = map Some ts"
  shows "vformat_to env (template_text ps) args =
    Some (render ps ts, if fields ps \<le> length vs then None else Some (Format_error ''argument not found''))"
proof -
  have get: "get_arg (int i) args = (if i < length vs then vs ! i else V_none)" if "i \<le> length vs" for i
    using format_args_get[of "map (Pair None) vs"] assms(1,2) that by simp
  let ?st = "\<lparr>rs_ctx = mk_context None, rs_out = []\<rparr>"
  have at: "at_arg 0 ?st" by (simp add: at_arg_def mk_context_def)
  obtain st where loop: "format_loop (format_handler env args) [] (template_text ps) ?st =
      Some (if fields ps \<le> length vs then Inr () else Inl (Format_error ''argument not found''), st)"
    "rs_out st = render ps ts"
    using template_loop[OF get assms(3) at, where env = env and ps = ps and pending = "[]"] by auto
  then show ?thesis by (simp add: vformat_fast_path parse_format_string_def split: if_split)
qed

text \<open>C36: Formatting a template of text and empty fields with
  integers, characters, booleans and strings (a C string that is not null) as arguments prints its text, each doubled brace once, with the arguments in place of
  the fields in their order; when there are more fields than arguments it prints what comes before
  the first field without one and throws.  The fast path for the format string that is one empty
  field gives the same.\<close>

theorem vformat_template:
  assumes "make_format_args (map (Pair None) vs) = Inr args" "length vs < 2 ^ 31" "map plain_text vs = map Some ts"
  shows "vformat_to env (template_text ps) args =
    Some (render ps ts, if fields ps \<le> length vs then None else Some (Format_error ''argument not found''))"
  using assms by (rule template_formats)

theorem vformat_template_witness:
  "case make_format_args [(None, V_int (-42)), (None, V_string ''log'')] of
     Inl e \<Rightarrow> False
   | Inr args \<Rightarrow> vformat_to plain_env ''a{{{}}} {}!'' args = Some (''a{-42} log!'', None)"
proof -
  have d: "dec_string 42 = ''42''" by (simp add: dec_string_step)
  have v: "map plain_text [V_int (-42), V_string ''log''] = map Some [''-42'', ''log'']" by (simp add: int_string_def d)
  obtain args where a: "make_format_args (map (Pair None) [V_int (-42), V_string ''log'']) = Inr args"
    by (simp add: make_format_args_def)
  have t: "template_text [Literal ''a{'', Field, Literal ''} '', Field, Literal ''!''] = ''a{{{}}} {}!''"
    by (simp add: template_text_def double_brace.simps)
  show ?thesis using vformat_template[OF a _ v, of plain_env "[Literal ''a{'', Field, Literal ''} '', Field, Literal ''!'']"] a
    unfolding t by simp
qed

end
