(* ===== verification/Fmt_Parse_Run.thy ===== *)
theory Fmt_Parse_Run
  imports Fmt_Parse
begin

text \<open>
  The parser of format specifiers at compile time and at run time: what it accepts with the types of
  the arguments at hand it reads in the same way without them, and the arguments it refers to exist.
\<close>

section \<open>Format strings without names\<close>

text \<open>No brace is followed by the start of a name.  (The argument lists of the check are positional.)\<close>

fun no_names :: "string \<Rightarrow> bool" where
  "no_names (a # b # s) \<longleftrightarrow> \<not> (a = CHR ''{'' \<and> is_name_start b) \<and> no_names (b # s)"
| "no_names s \<longleftrightarrow> True"

lemma no_names_tl: "no_names s \<Longrightarrow> no_names (tl s)"
  by (cases s rule: no_names.cases) auto

lemma no_names_drop: "no_names s \<Longrightarrow> no_names (drop n s)"
proof (induction n arbitrary: s)
  case (Suc n)
  then show ?case using no_names_tl[of s] by (cases s) auto
qed simp

lemma parse_nonnegative_int_value:
  assumes "is_digit (hd s)" "s \<noteq> []" "parse_nonnegative_int s e = (v, rest)"
  shows "(0 \<le> v \<or> v = e) \<and> (\<exists>k. rest = drop k s)"
proof -
  have s: "takeWhile is_digit s @ dropWhile is_digit s = s" by simp
  have "list_all is_digit (takeWhile is_digit s)" by (auto simp: list_all_iff dest: set_takeWhileD)
  moreover have "takeWhile is_digit s \<noteq> []" using assms(1,2) by (cases s) auto
  moreover have "dropWhile is_digit s = [] \<or> \<not> is_digit (hd (dropWhile is_digit s))"
    using hd_dropWhile[of is_digit s] by blast
  ultimately have "(v, rest) = (if length (takeWhile is_digit s) \<le> 10 \<and> int (dec_val (takeWhile is_digit s)) \<le> int_max
      then int (dec_val (takeWhile is_digit s)) else e, dropWhile is_digit s)"
    using parse_nonnegative_int_spec[of "takeWhile is_digit s" "dropWhile is_digit s" e] assms(3) s by simp
  then show ?thesis using dropWhile_eq_drop[of is_digit s] by (auto split: if_splits)
qed

lemma parse_arg_id_index:
  assumes "no_names s" "s \<noteq> []" "hd s = CHR ''{''" "tl s \<noteq> []" "parse_arg_id (tl s) = Inr (ref, rest)"
  shows "(\<exists>i. ref = Ref_index i \<and> 0 \<le> i) \<and> no_names rest"
proof -
  have "\<not> is_name_start (hd (tl s))" using assms(1-4) by (cases s rule: no_names.cases) auto
  then have d: "is_digit (hd (tl s))" using assms(5) by (auto simp: parse_arg_id_def Let_def fail_def split: if_splits)
  obtain i rest' where p: "(if hd (tl s) \<noteq> CHR ''0'' then parse_nonnegative_int (tl s) int_max else (0, tl (tl s))) = (i, rest')"
    by fastforce
  then have r: "ref = Ref_index i" "rest = rest'" using assms(5) d
    by (auto simp: parse_arg_id_def fail_def Let_def split: if_splits)
  have "0 \<le> i \<and> (\<exists>k. rest' = drop k (tl s))"
  proof (cases "hd (tl s) = CHR ''0''")
    case True
    then show ?thesis using p by (auto simp: drop_Suc intro!: exI[of _ 1])
  next
    case False
    then show ?thesis using p parse_nonnegative_int_value[OF d assms(4), of int_max i rest'] by (auto simp: int_max_def)
  qed
  then show ?thesis using r no_names_drop[OF no_names_tl[OF assms(1)]] by auto
qed

section \<open>The context at run time\<close>

definition forget :: "parse_context \<Rightarrow> parse_context" where
  "forget ctx = ctx\<lparr>p_types := None\<rparr>"

lemma forget_simps [simp]: "p_next (forget ctx) = p_next ctx" "p_types (forget ctx) = None"
  by (simp_all add: forget_def)

lemma next_arg_id_forget:
  "next_arg_id ctx = Inr (i, ctx') \<Longrightarrow> p_types ctx = Some ts \<Longrightarrow>
   next_arg_id (forget ctx) = Inr (i, forget ctx') \<and> p_types ctx' = Some ts \<and> 0 \<le> i \<and> i < int (length ts)"
  by (auto simp: next_arg_id_def do_check_arg_id_def num_args_def forget_def Let_def chain_Inr split: if_splits)

lemma check_arg_id_forget:
  "check_arg_id i ctx = Inr ctx' \<Longrightarrow> p_types ctx = Some ts \<Longrightarrow>
   check_arg_id i (forget ctx) = Inr (forget ctx') \<and> p_types ctx' = Some ts \<and> i < int (length ts)"
  by (auto simp: check_arg_id_def do_check_arg_id_def num_args_def forget_def Let_def chain_Inr split: if_splits)

lemma check_dynamic_spec_forget:
  "check_dynamic_spec i ctx = Inr u \<Longrightarrow> p_types ctx = Some ts \<Longrightarrow> i < int (length ts) \<Longrightarrow>
   check_dynamic_spec i (forget ctx) = Inr () \<and> is_integral_type (ts ! nat i)"
  by (auto simp: check_dynamic_spec_def num_args_def)

section \<open>References to arguments\<close>

text \<open>A reference by index to an integral argument.\<close>

definition ref_ok :: "arg_type list \<Rightarrow> arg_ref \<Rightarrow> bool" where
  "ref_ok ts ref \<longleftrightarrow> (\<exists>i. ref = Ref_index i \<and> 0 \<le> i \<and> i < int (length ts) \<and> is_integral_type (ts ! nat i))"

definition refs_ok :: "arg_type list \<Rightarrow> dyn_specs \<Rightarrow> bool" where
  "refs_ok ts sp \<longleftrightarrow>
     (dynamic_width sp = K_none \<or> dynamic_width sp = K_index \<and> ref_ok ts (ds_width_ref sp)) \<and>
     (dynamic_precision sp = K_none \<or> dynamic_precision sp = K_index \<and> ref_ok ts (ds_precision_ref sp))"

lemma kinds_view: "dynamic_width s = v_width_kind (spec_view s)" "dynamic_precision s = v_precision_kind (spec_view s)"
  by (simp_all add: spec_view_def)

lemma kind_setters [simp]:
  "dynamic_width (set_align a s) = dynamic_width s" "dynamic_precision (set_align a s) = dynamic_precision s"
  "dynamic_width (set_sign g s) = dynamic_width s" "dynamic_precision (set_sign g s) = dynamic_precision s"
  "dynamic_width (set_upper s) = dynamic_width s" "dynamic_precision (set_upper s) = dynamic_precision s"
  "dynamic_width (set_alt s) = dynamic_width s" "dynamic_precision (set_alt s) = dynamic_precision s"
  "dynamic_width (set_localized s) = dynamic_width s" "dynamic_precision (set_localized s) = dynamic_precision s"
  "dynamic_width (set_dynamic_width k s) = k" "dynamic_precision (set_dynamic_width k s) = dynamic_precision s"
  "dynamic_width (set_dynamic_precision k s) = dynamic_width s" "dynamic_precision (set_dynamic_precision k s) = k"
  "n < 8 \<Longrightarrow> dynamic_width (set_fill_size n s) = dynamic_width s"
  "n < 8 \<Longrightarrow> dynamic_precision (set_fill_size n s) = dynamic_precision s"
  "t < 8 \<Longrightarrow> dynamic_width (set_type t s) = dynamic_width s"
  "t < 8 \<Longrightarrow> dynamic_precision (set_type t s) = dynamic_precision s"
  using spec_view_setters[of 0 1 s a k g] spec_view_setters[of 0 n s a k g] spec_view_setters[of t 1 s a k g]
  by (simp_all add: kinds_view)

lemma kind_data [simp]:
  "dynamic_width (s\<lparr>sp_fill := f\<rparr>) = dynamic_width s" "dynamic_precision (s\<lparr>sp_fill := f\<rparr>) = dynamic_precision s"
  "dynamic_width (s\<lparr>sp_width := w\<rparr>) = dynamic_width s" "dynamic_precision (s\<lparr>sp_width := w\<rparr>) = dynamic_precision s"
  "dynamic_width (s\<lparr>sp_precision := w\<rparr>) = dynamic_width s"
  "dynamic_precision (s\<lparr>sp_precision := w\<rparr>) = dynamic_precision s"
  by (simp_all add: spec_getters)

lemma kind_refs [simp]:
  "dynamic_width (s\<lparr>ds_width_ref := r\<rparr>) = dynamic_width s" "dynamic_precision (s\<lparr>ds_width_ref := r\<rparr>) = dynamic_precision s"
  "dynamic_width (s\<lparr>ds_precision_ref := r\<rparr>) = dynamic_width s"
  "dynamic_precision (s\<lparr>ds_precision_ref := r\<rparr>) = dynamic_precision s"
  by (simp_all add: spec_getters)

lemma refs_setters [simp]:
  "ds_width_ref (set_align a s) = ds_width_ref s" "ds_precision_ref (set_align a s) = ds_precision_ref s"
  "ds_width_ref (set_sign g s) = ds_width_ref s" "ds_precision_ref (set_sign g s) = ds_precision_ref s"
  "ds_width_ref (set_upper s) = ds_width_ref s" "ds_precision_ref (set_upper s) = ds_precision_ref s"
  "ds_width_ref (set_alt s) = ds_width_ref s" "ds_precision_ref (set_alt s) = ds_precision_ref s"
  "ds_width_ref (set_localized s) = ds_width_ref s" "ds_precision_ref (set_localized s) = ds_precision_ref s"
  "ds_width_ref (set_dynamic_width k s) = ds_width_ref s" "ds_precision_ref (set_dynamic_width k s) = ds_precision_ref s"
  "ds_width_ref (set_dynamic_precision k s) = ds_width_ref s"
  "ds_precision_ref (set_dynamic_precision k s) = ds_precision_ref s"
  "ds_width_ref (set_fill_size n s) = ds_width_ref s" "ds_precision_ref (set_fill_size n s) = ds_precision_ref s"
  "ds_width_ref (set_type t s) = ds_width_ref s" "ds_precision_ref (set_type t s) = ds_precision_ref s"
  by (simp_all add: spec_setters)

lemma refs_ok_default: "refs_ok ts default_dyn_specs"
  by (simp add: refs_ok_def kinds_view view_default)

lemma refs_ok_setters [simp]:
  "refs_ok ts (set_align a sp) = refs_ok ts sp" "refs_ok ts (set_sign g sp) = refs_ok ts sp"
  "refs_ok ts (set_upper sp) = refs_ok ts sp" "refs_ok ts (set_alt sp) = refs_ok ts sp"
  "refs_ok ts (set_localized sp) = refs_ok ts sp" "t < 8 \<Longrightarrow> refs_ok ts (set_type t sp) = refs_ok ts sp"
  by (simp_all add: refs_ok_def)

lemma refs_ok_fill:
  "refs_ok ts sp \<Longrightarrow> refs_ok ts (set_fill_char c sp)"
  "set_fill f sp = Some sp' \<Longrightarrow> refs_ok ts sp \<Longrightarrow> refs_ok ts sp'"
  by (auto simp: refs_ok_def set_fill_char_def set_fill_def max_fill_size_def Let_def split: if_splits)

section \<open>Parsing without the types\<close>

text \<open>What the parsers pass on: the rest of the text, the specifiers and the context.\<close>

definition parse_good :: "arg_type list \<Rightarrow> spec_parse \<Rightarrow> bool" where
  "parse_good ts p \<longleftrightarrow> (case p of (rest, sp, ctx) \<Rightarrow> no_names rest \<and> refs_ok ts sp \<and> p_types ctx = Some ts)"

definition forget_parse :: "spec_parse \<Rightarrow> spec_parse" where
  "forget_parse p = (case p of (rest, sp, ctx) \<Rightarrow> (rest, sp, forget ctx))"

lemma close_brace_names: "close_brace s = Inr rest \<Longrightarrow> no_names s \<Longrightarrow> no_names rest"
  by (auto simp: close_brace_def no_names_tl split: if_splits)

lemma parse_dynamic_spec_forget:
  assumes "parse_dynamic_spec s ctx = Inr r" "s \<noteq> []" "no_names s" "p_types ctx = Some ts"
  shows "parse_dynamic_spec s (forget ctx) = Inr (r\<lparr>dr_ctx := forget (dr_ctx r)\<rparr>) \<and> no_names (dr_rest r) \<and>
    p_types (dr_ctx r) = Some ts \<and>
    (dr_kind r = K_none \<and> dr_ref r = None \<or>
     dr_kind r = K_index \<and> (\<exists>ref. dr_ref r = Some ref \<and> ref_ok ts ref))"
proof (cases "is_digit (hd s)")
  case True
  obtain v rest where p: "parse_nonnegative_int s (-1) = (v, rest)" by fastforce
  then have "no_names rest" using parse_nonnegative_int_value[OF True assms(2) p] no_names_drop[OF assms(3)] by auto
  then show ?thesis using assms(1,4) True p by (auto simp: parse_dynamic_spec_def chain_Inr)
next
  case False
  have brace: "hd s = CHR ''{''" "tl s \<noteq> []"
    using assms(1) False by (auto simp: parse_dynamic_spec_def Let_def split: if_splits)
  show ?thesis
  proof (cases "hd (tl s) = CHR ''}'' \<or> hd (tl s) = CHR '':''")
    case True
    obtain i ctx1 rest where 1: "next_arg_id ctx = Inr (i, ctx1)" "check_dynamic_spec i ctx1 = Inr ()"
      "close_brace (tl s) = Inr rest"
      "r = \<lparr>dr_value = None, dr_ref = Some (Ref_index i), dr_kind = K_index, dr_rest = rest, dr_ctx = ctx1\<rparr>"
      using assms(1) False brace True by (auto simp: parse_dynamic_spec_def Let_def chain_Inr)
    note 2 = next_arg_id_forget[OF 1(1) assms(4)]
    note 3 = check_dynamic_spec_forget[OF 1(2), of ts]
    show ?thesis
      using False brace True 1 2 3 close_brace_names[OF 1(3) no_names_tl[OF assms(3)]]
      by (simp add: parse_dynamic_spec_def Let_def ref_ok_def)
  next
    case not: False
    obtain ref s2 kind ctx1 rest where 1: "parse_arg_id (tl s) = Inr (ref, s2)"
      "dynamic_spec_ref ref ctx = Inr (kind, ctx1)" "close_brace s2 = Inr rest"
      "r = \<lparr>dr_value = None, dr_ref = Some ref, dr_kind = kind, dr_rest = rest, dr_ctx = ctx1\<rparr>"
      using assms(1) False brace not by (auto simp: parse_dynamic_spec_def Let_def chain_Inr)
    obtain i where i: "ref = Ref_index i" "0 \<le> i" "no_names s2"
      using parse_arg_id_index[OF assms(3,2) brace 1(1)] by blast
    then have 2: "check_arg_id i ctx = Inr ctx1" "check_dynamic_spec i ctx1 = Inr ()" "kind = K_index"
      using 1(2) by (auto simp: dynamic_spec_ref_def chain_Inr)
    note 3 = check_arg_id_forget[OF 2(1) assms(4)]
    note 4 = check_dynamic_spec_forget[OF 2(2), of ts]
    show ?thesis
      using False brace not 1 i 2 3 4 close_brace_names[OF 1(3) i(3)]
      by (simp add: parse_dynamic_spec_def Let_def dynamic_spec_ref_def ref_ok_def)
  qed
qed

lemma parse_width_forget:
  assumes "parse_width s sp ctx = Inr p" "s \<noteq> []" "parse_good ts (s, sp, ctx)"
  shows "parse_width s sp (forget ctx) = Inr (forget_parse p) \<and> parse_good ts p"
proof -
  obtain r where r: "parse_dynamic_spec s ctx = Inr r" using assms(1) by (auto simp: parse_width_def chain_Inr)
  have g: "no_names s" "refs_ok ts sp" "p_types ctx = Some ts" using assms(3) by (simp_all add: parse_good_def)
  note f = parse_dynamic_spec_forget[OF r assms(2) g(1,3)]
  show ?thesis
    using f g(2) assms(1) r
    by (auto simp: parse_width_def forget_parse_def parse_good_def refs_ok_def split: option.splits)
qed

lemma parse_precision_forget:
  assumes "parse_precision s sp ctx = Inr p" "parse_good ts (s, sp, ctx)"
  shows "parse_precision s sp (forget ctx) = Inr (forget_parse p) \<and> parse_good ts p"
proof -
  have t: "tl s \<noteq> []" using assms(1) by (auto simp: parse_precision_def)
  then obtain r where r: "parse_dynamic_spec (tl s) ctx = Inr r" using assms(1) by (auto simp: parse_precision_def chain_Inr)
  have g: "no_names (tl s)" "refs_ok ts sp" "p_types ctx = Some ts"
    using assms(2) by (simp_all add: parse_good_def no_names_tl)
  note f = parse_dynamic_spec_forget[OF r t g(1,3)]
  show ?thesis
    using f g(2) assms(1) r t
    by (auto simp: parse_precision_def Let_def forget_parse_def parse_good_def refs_ok_def split: option.splits)
qed

lemma spec_char_type_bits: "spec_char c = Sc_type p types u \<Longrightarrow> p < 8"
  by (auto simp: spec_char_def pres_defs split: if_splits)

definition turn_good :: "arg_type list \<Rightarrow> spec_turn \<Rightarrow> bool" where
  "turn_good ts r \<longleftrightarrow> (case r of Return p \<Rightarrow> parse_good ts p | Continue st p \<Rightarrow> parse_good ts p)"

fun forget_turn :: "spec_turn \<Rightarrow> spec_turn" where
  "forget_turn (Return p) = Return (forget_parse p)"
| "forget_turn (Continue st p) = Continue st (forget_parse p)"

lemma parse_fill_forget:
  assumes "parse_fill s st sp ctx = Inr r" "parse_good ts (s, sp, ctx)"
  shows "parse_fill s st sp (forget ctx) = Inr (forget_turn r) \<and> turn_good ts r"
  using assms
  by (auto simp: parse_fill_def Let_def chain_Inr parse_good_def turn_good_def forget_parse_def no_names_drop
      split: if_splits option.splits intro: refs_ok_fill(2))

lemma spec_turn_forget:
  assumes "spec_turn c s st sp ctx t = Inr r" "s \<noteq> []" "parse_good ts (s, sp, ctx)"
  shows "spec_turn c s st sp (forget ctx) t = Inr (forget_turn r) \<and> turn_good ts r"
proof -
  note defs = spec_turn_def chain_Inr parse_good_def turn_good_def forget_parse_def
  show ?thesis
  proof (cases "spec_char c")
    case Sc_width
    then obtain p where p: "parse_width s sp ctx = Inr p" "enter_state st st_width True = Inr ()" "r = Continue st_width p"
      using assms(1) by (auto simp: spec_turn_def chain_Inr)
    then show ?thesis using Sc_width parse_width_forget[OF p(1) assms(2,3)] by (simp add: spec_turn_def turn_good_def enter_state_chain)
  next
    case Sc_precision
    let ?types = "float_set OR string_set OR cstring_set"
    obtain p where p: "parse_precision s sp ctx = Inr p" "enter_state st st_precision (type_in t ?types) = Inr ()"
      "r = Continue st_precision p"
      using assms(1) Sc_precision by (auto simp: spec_turn_def chain_Inr)
    then show ?thesis using Sc_precision parse_precision_forget[OF p(1) assms(3)] by (simp add: spec_turn_def turn_good_def enter_state_chain)
  next
    case Sc_other
    then show ?thesis using assms parse_fill_forget[OF _ assms(3)] by (simp add: spec_turn_def)
  next
    case (Sc_type p types u)
    then show ?thesis using assms spec_char_type_bits[OF Sc_type]
      by (auto simp: defs parse_presentation_type_def no_names_tl)
  next
    case Sc_zero
    then show ?thesis using assms refs_ok_fill(1) by (auto simp: defs no_names_tl)
  qed (use assms in \<open>auto simp: defs no_names_tl\<close>)
qed

lemma spec_loop_forget:
  "spec_loop c s st sp ctx t = Inr p \<Longrightarrow> parse_good ts (s, sp, ctx) \<Longrightarrow>
   spec_loop c s st sp (forget ctx) t = Inr (forget_parse p) \<and> parse_good ts p"
proof (induction c s st sp ctx t rule: spec_loop.induct)
  case (1 c s st sp ctx t)
  note unf = "1.prems"(1)[unfolded spec_loop.simps[of c s st sp ctx t]]
  show ?case
  proof (cases "s = []")
    case True
    then show ?thesis using unf "1.prems"(2) by (subst spec_loop.simps) (auto simp: forget_parse_def)
  next
    case ne: False
    then obtain r where r: "spec_turn c s st sp ctx t = Inr r" using unf by (auto split: sum.splits)
    note f = spec_turn_forget[OF r ne "1.prems"(2)]
    show ?thesis
    proof (cases r)
      case (Return q)
      then show ?thesis using unf ne r f by (subst spec_loop.simps) (simp add: turn_good_def)
    next
      case (Continue st1 q)
      obtain rest sp1 ctx1 where q: "q = (rest, sp1, ctx1)" using prod_cases3 by blast
      have g: "parse_good ts (rest, sp1, ctx1)" using f Continue q by (simp add: turn_good_def)
      show ?thesis
      proof (cases "rest = []")
        case True
        then show ?thesis using unf ne r f Continue q g by (subst spec_loop.simps) (auto simp: forget_parse_def)
      next
        case False
        have l: "spec_loop (hd rest) rest st1 sp1 ctx1 t = Inr p" using unf ne r Continue q False by simp
        have "spec_loop (hd rest) rest st1 sp1 (forget ctx1) t = Inr (forget_parse p) \<and> parse_good ts p"
          using "1.IH"[OF ne r Continue q[symmetric] refl False l g] .
        then show ?thesis using ne f Continue q False by (subst spec_loop.simps) (simp add: forget_parse_def)
      qed
    qed
  qed
qed

text \<open>What \<open>native_formatter::parse\<close> accepts at compile time is read in the same way at run time.\<close>

lemma native_parse_forget:
  assumes "native_parse t s ctx = Inr (rest, sp, ctx')" "no_names s" "p_types ctx = Some ts"
  shows "parse_format_specs s default_dyn_specs (forget ctx) t = Inr (rest, sp, forget ctx') \<and>
    no_names rest \<and> refs_ok ts sp \<and> p_types ctx' = Some ts \<and> (t = Char_type \<longrightarrow> check_char_specs sp \<noteq> Inl e)"
proof (cases "s = [] \<or> hd s = CHR ''}''")
  case True
  then have r: "rest = s" "sp = default_dyn_specs" "ctx' = ctx" using assms(1) by (auto simp: native_parse_def)
  have c: "check_char_specs default_dyn_specs = Inr True"
    by (simp add: check_char_specs_def spec_view_def[symmetric] view_default Let_def
        spec_getters default_dyn_specs_def default_specs_def specs.defs fget_def flag_def spec_layout pres_defs
        align_of_def sgn_of_def)
  have turn: "spec_turn (CHR ''}'') s st_start sp ctx t = Inr (Return (s, sp, ctx))"
    "hd s = CHR ''}'' \<Longrightarrow> spec_turn (CHR 0x00) s st_start sp ctx t = Inr (Return (s, sp, ctx))" for sp ctx
    by (simp_all add: spec_turn_def parse_fill_def spec_char_def is_digit_def)
  have "parse_format_specs s default_dyn_specs (forget ctx) t = Inr (s, default_dyn_specs, forget ctx)"
    using True turn by (auto simp: parse_format_specs_def Let_def spec_loop.simps[of _ s])
  then show ?thesis using r c assms(2,3) refs_ok_default by simp
next
  case False
  then have p: "parse_format_specs s default_dyn_specs ctx t = Inr (rest, sp, ctx')"
    "t = Char_type \<longrightarrow> check_char_specs sp \<noteq> Inl e"
    using assms(1) by (auto simp: native_parse_def chain_Inr split: if_splits)
  have g: "parse_good ts (s, default_dyn_specs, ctx)" using assms(2,3) refs_ok_default by (simp add: parse_good_def)
  have "parse_format_specs s default_dyn_specs (forget ctx) t = Inr (forget_parse (rest, sp, ctx')) \<and>
      parse_good ts (rest, sp, ctx')"
    using p(1) False spec_loop_forget[OF _ g] by (auto simp: parse_format_specs_def Let_def split: if_splits)
  then show ?thesis using p(2) by (simp add: forget_parse_def parse_good_def)
qed

end
