(* ===== verification/Fmt_Checker.thy ===== *)
theory Fmt_Checker
  imports Fmt_Template Fmt_Parse_Run
begin

text \<open>
  The check of format strings at compile time against formatting at run time: a string that passes
  the check for the types of the arguments cannot be malformed when it is used.  The two handlers
  are run in step; the only exceptions left are those that depend on the values.
\<close>

section \<open>Handlers in step\<close>

text \<open>Whenever the checker's action succeeds, the other one gives the same value, or throws an exception
  that is allowed.\<close>

definition follows ::
    "('c \<Rightarrow> 'r \<Rightarrow> bool) \<Rightarrow> (exn \<Rightarrow> bool) \<Rightarrow> ('a \<Rightarrow> bool) \<Rightarrow> ('c, 'a) act \<Rightarrow> ('r, 'a) act \<Rightarrow> bool" where
  "follows rel allowed Q mc mr \<longleftrightarrow> (\<forall>c r a c'. rel c r \<longrightarrow> mc c = Some (Inr a, c') \<longrightarrow>
     (\<exists>x r'. mr r = Some (x, r') \<and>
       (case x of Inl e \<Rightarrow> allowed e | Inr b \<Rightarrow> b = a \<and> Q a \<and> rel c' r')))"

lemma followsI:
  assumes "\<And>c r a c'. rel c r \<Longrightarrow> mc c = Some (Inr a, c') \<Longrightarrow>
    \<exists>x r'. mr r = Some (x, r') \<and> (case x of Inl e \<Rightarrow> allowed e | Inr b \<Rightarrow> b = a \<and> Q a \<and> rel c' r')"
  shows "follows rel allowed Q mc mr"
  using assms unfolding follows_def by blast

lemma followsE:
  assumes "follows rel allowed Q mc mr" "rel c r" "mc c = Some (Inr a, c')"
  obtains e r' where "mr r = Some (Inl e, r')" "allowed e"
    | r' where "mr r = Some (Inr a, r')" "Q a" "rel c' r'"
proof -
  obtain x r' where "mr r = Some (x, r')" "case x of Inl e \<Rightarrow> allowed e | Inr b \<Rightarrow> b = a \<and> Q a \<and> rel c' r'"
    using assms unfolding follows_def by blast
  then show ?thesis using that by (cases x) auto
qed

lemma follows_bind:
  assumes "follows rel allowed Q mc mr" "\<And>a. Q a \<Longrightarrow> follows rel allowed R (fc a) (fr a)"
  shows "follows rel allowed R (act_bind mc fc) (act_bind mr fr)"
proof (rule followsI)
  fix c r b c' assume c: "rel c r" "act_bind mc fc c = Some (Inr b, c')"
  then obtain a c1 where a: "mc c = Some (Inr a, c1)" "fc a c1 = Some (Inr b, c')" by (auto simp: act_bind_Inr)
  from assms(1) c(1) a(1) show "\<exists>x r'. act_bind mr fr r = Some (x, r') \<and>
      (case x of Inl e \<Rightarrow> allowed e | Inr y \<Rightarrow> y = b \<and> R b \<and> rel c' r')"
  proof (cases rule: followsE)
    case (1 e r')
    then show ?thesis by (simp add: act_bind_def)
  next
    case (2 r1)
    from assms(2)[OF 2(2)] 2(3) a(2) show ?thesis by (cases rule: followsE) (use 2(1) in \<open>auto simp: act_bind_def\<close>)
  qed
qed

lemma follows_return: "Q a \<Longrightarrow> follows rel allowed Q (act_return a) (act_return a)"
  by (rule followsI) simp

lemma follows_lift: "(\<And>a. x = Inr a \<Longrightarrow> Q a) \<Longrightarrow> follows rel allowed Q (act_lift x) (act_lift x)"
  by (rule followsI) simp

lemma follows_fail: "follows rel allowed Q (act_lift (fail m)) mr"
  by (rule followsI) (simp add: fail_def)

section \<open>The parser with both handlers\<close>

locale handlers_in_step = format_handler_contract hc ok
  for hc :: "'c handler" and ok :: "'c \<Rightarrow> bool" +
  fixes hr :: "'r handler" and rel :: "'c \<Rightarrow> 'r \<Rightarrow> bool" and allowed :: "exn \<Rightarrow> bool" and valid :: "int \<Rightarrow> bool"
  assumes rel_ok: "rel c r \<Longrightarrow> ok c"
    and step_text: "rel c r \<Longrightarrow> rel (h_on_text hc t c) (h_on_text hr t r)"
    and step_id: "follows rel allowed valid (h_on_arg_id hc) (h_on_arg_id hr)"
    and step_index: "0 \<le> i \<Longrightarrow> follows rel allowed valid (h_on_arg_index hc i) (h_on_arg_index hr i)"
    and step_field: "valid i \<Longrightarrow> s \<noteq> [] \<Longrightarrow> hd s = CHR ''}'' \<Longrightarrow>
      follows rel allowed (\<lambda>_. True) (h_on_replacement_field hc i s) (h_on_replacement_field hr i s)"
    and step_specs: "valid i \<Longrightarrow> no_names s \<Longrightarrow>
      follows rel allowed no_names (h_on_format_specs hc i s) (h_on_format_specs hr i s)"
begin

lemma specs_in_step: "valid i \<Longrightarrow> no_names s \<Longrightarrow> follows rel allowed no_names (specs_field hc i s) (specs_field hr i s)"
  unfolding specs_field_def
  by (rule follows_bind[OF step_specs]) (auto intro: follows_return follows_fail no_names_tl)

lemma tail_in_step:
  assumes "valid i" "no_names s"
  shows "follows rel allowed no_names (field_tail hc i s) (field_tail hr i s)"
  unfolding field_tail_def Let_def
  by (auto intro!: follows_fail follows_bind[OF step_field] follows_return specs_in_step no_names_tl assms)

lemma field_in_step:
  assumes "no_names s" "s \<noteq> []" "hd s = CHR ''{''"
  shows "follows rel allowed no_names (parse_replacement_field hc s) (parse_replacement_field hr s)"
proof -
  have t: "no_names (tl s)" "no_names (tl (tl s))" using assms(1) by (simp_all add: no_names_tl)
  have lit: "follows rel allowed (\<lambda>_. True) (act_update (h_on_text hc t)) (act_update (h_on_text hr t))" for t
    by (rule followsI) (auto intro: step_text)
  have ref: "follows rel allowed no_names
      (act_bind (act_lift (parse_arg_id (tl s))) (\<lambda>(ref, rest). act_bind (id_adapter hc ref) (\<lambda>i. field_tail hc i rest)))
      (act_bind (act_lift (parse_arg_id (tl s))) (\<lambda>(ref, rest). act_bind (id_adapter hr ref) (\<lambda>i. field_tail hr i rest)))"
    if "tl s \<noteq> []"
  proof (rule follows_bind[where Q = "\<lambda>p. (\<exists>i. fst p = Ref_index i \<and> 0 \<le> i) \<and> no_names (snd p)"])
    show "follows rel allowed (\<lambda>p. (\<exists>i. fst p = Ref_index i \<and> 0 \<le> i) \<and> no_names (snd p))
        (act_lift (parse_arg_id (tl s))) (act_lift (parse_arg_id (tl s)))"
      using parse_arg_id_index[OF assms that] by (intro follows_lift) auto
  next
    fix p assume p: "(\<exists>i. fst p = Ref_index i \<and> 0 \<le> i) \<and> no_names (snd p)"
    then obtain j where j: "fst p = Ref_index j" "0 \<le> j" "no_names (snd p)" by blast
    show "follows rel allowed no_names
      (case p of (ref, rest) \<Rightarrow> act_bind (id_adapter hc ref) (\<lambda>i. field_tail hc i rest))
      (case p of (ref, rest) \<Rightarrow> act_bind (id_adapter hr ref) (\<lambda>i. field_tail hr i rest))"
      using follows_bind[OF step_index[OF j(2)] tail_in_step[OF _ j(3)]] j(1)
      by (simp add: id_adapter_def case_prod_unfold)
  qed
  consider "tl s = []" | "tl s \<noteq> []" "hd (tl s) = CHR ''}''" | "tl s \<noteq> []" "hd (tl s) = CHR ''{''"
    | "tl s \<noteq> []" "hd (tl s) = CHR '':''"
    | "tl s \<noteq> []" "hd (tl s) \<noteq> CHR ''}''" "hd (tl s) \<noteq> CHR ''{''" "hd (tl s) \<noteq> CHR '':''" by blast
  then show ?thesis
  proof cases
    case 1
    then show ?thesis by (simp add: parse_replacement_field_def follows_fail)
  next
    case 2
    then show ?thesis using follows_bind[OF step_id tail_in_step[OF _ t(1)]]
      by (simp add: parse_replacement_field_def field_tail_def Let_def)
  next
    case 3
    then show ?thesis using follows_bind[OF lit follows_return[of no_names, OF t(2)]]
      by (simp add: parse_replacement_field_def Let_def)
  next
    case 4
    then show ?thesis using follows_bind[OF step_id specs_in_step[OF _ t(2)]] by (simp add: parse_replacement_field_def Let_def)
  next
    case 5
    then show ?thesis using ref by (simp add: parse_replacement_field_def Let_def)
  qed
qed

lemma loop_in_step:
  assumes "rel c r" "no_names s" "format_loop hc pending s c = Some (Inr (), c')"
  shows "\<exists>x r'. format_loop hr pending s r = Some (x, r') \<and> (case x of Inl e \<Rightarrow> allowed e | Inr _ \<Rightarrow> rel c' r')"
  using assms
proof (induction "length s" arbitrary: pending s c r rule: less_induct)
  case less
  note unf = less(4)[unfolded format_loop.simps[of hc pending s c]]
  show ?case
  proof (cases "s = []")
    case True
    then show ?thesis using unf less(2) step_text by (auto simp: format_loop.simps[of hr])
  next
    case ne: False
    show ?thesis
    proof (cases "hd s = CHR ''{''")
      case True
      obtain rest c1 where f: "parse_replacement_field hc s (h_on_text hc pending c) = Some (Inr rest, c1)"
        "format_loop hc [] rest c1 = Some (Inr (), c')"
        using unf ne True by (auto split: option.splits sum.splits)
      have l: "length rest < length s" using field_shrinks[OF on_text[OF rel_ok[OF less(2)]] ne f(1)] .
      from field_in_step[OF less(3) ne True] step_text[OF less(2)] f(1) show ?thesis
      proof (cases rule: followsE)
        case (1 e r')
        then show ?thesis using ne True by (subst format_loop.simps) simp
      next
        case (2 r')
        from less(1)[OF l 2(3,2) f(2)] 2 show ?thesis using ne True by (subst format_loop.simps) simp
      qed
    next
      case False
      have l: "length (tl s) < length s" "length (tl (tl s)) < length s" using ne by (cases s; simp)+
      have t: "no_names (tl s)" "no_names (tl (tl s))" using less(3) by (simp_all add: no_names_tl)
      show ?thesis
      proof (cases "hd s = CHR ''}''")
        case True
        then have c: "tl s \<noteq> []" "hd (tl s) = CHR ''}''" 
          "format_loop hc [] (tl (tl s)) (h_on_text hc (pending @ [hd s]) c) = Some (Inr (), c')"
          using unf ne by (auto simp: fail_def split: if_splits)
        show ?thesis using less(1)[OF l(2) step_text[OF less(2)] t(2) c(3)] c True ne
          by (subst format_loop.simps) simp
      next
        case rest: False
        then have c: "format_loop hc (pending @ [hd s]) (tl s) c = Some (Inr (), c')" using unf ne False by simp
        show ?thesis using less(1)[OF l(1) less(2) t(1) c] False rest ne by (subst format_loop.simps) simp
      qed
    qed
  qed
qed

end

section \<open>The exceptions that are left\<close>

text \<open>Each of them needs an argument of the kind it is about.\<close>

definition run_error :: "arg_value list \<Rightarrow> string \<Rightarrow> bool" where
  "run_error vs m \<longleftrightarrow>
     m = ''width/precision is out of range'' \<and>
       (\<exists>v\<in>set vs. is_integral_type (value_type v) \<and> value_type v \<notin> {Bool_type, Char_type}) \<or>
     m = ''width/precision is not integer'' \<and> (\<exists>v\<in>set vs. value_type v \<in> {Bool_type, Char_type}) \<or>
     m = ''number is too big'' \<and> (\<exists>v\<in>set vs. value_type v \<in> {Float_type, Double_type, Long_double_type}) \<or>
     m = ''string pointer is null'' \<and> (\<exists>s. V_cstring 0 s \<in> set vs)"

definition run_error_exn :: "arg_value list \<Rightarrow> exn \<Rightarrow> bool" where
  "run_error_exn vs e \<longleftrightarrow> (\<exists>m. e = Format_error m \<and> run_error vs m)"

text \<open>The code that computes digits throws for a precision that is too big, and nothing else.\<close>

definition float_errors_ok :: "float_digits \<Rightarrow> bool" where
  "float_errors_ok fd \<longleftrightarrow>
     (\<forall>v p sp e. fd_format_float fd v p sp = Inl e \<longrightarrow> e = Format_error ''number is too big'') \<and>
     (\<forall>v sp e. fd_format_hexfloat fd v sp = Inl e \<longrightarrow> e = Format_error ''number is too big'')"

lemma chain_Inl: "chain r f = Inl e \<longleftrightarrow> r = Inl e \<or> (\<exists>a. r = Inr a \<and> f a = Inl e)"
  by (cases r) auto

lemma write_float_arg_error:
  "float_errors_ok fd \<Longrightarrow> write_float_arg fd loc v sp = Inl e \<Longrightarrow> e = Format_error ''number is too big''"
  by (auto simp: write_float_arg_def Let_def chain_Inl float_errors_ok_def float_precision_def fail_def
      split: if_splits prod.splits)

lemma write_float_default_error:
  "float_errors_ok fd \<Longrightarrow> write_float_default fd loc room v = Inl e \<Longrightarrow> e = Format_error ''number is too big''"
  by (auto simp: write_float_default_def Let_def dest: write_float_arg_error split: if_splits)

section \<open>Arguments that match the check\<close>

definition plain_args :: "env \<Rightarrow> arg_value list \<Rightarrow> format_args \<Rightarrow> bool" where
  "plain_args env vs args \<longleftrightarrow> env_ok env \<and> float_errors_ok (en_digits env) \<and>
     make_format_args (map (Pair None) vs) = Inr args \<and> length vs < 2 ^ 31 \<and>
     (\<forall>v\<in>set vs. value_type v \<notin> {None_type, Custom_type})"

definition valid_arg :: "arg_value list \<Rightarrow> int \<Rightarrow> bool" where
  "valid_arg vs i \<longleftrightarrow> 0 \<le> i \<and> i < int (length vs)"

lemma plain_get: "plain_args env vs args \<Longrightarrow> valid_arg vs i \<Longrightarrow> get_arg i args = vs ! nat i \<and> vs ! nat i \<in> set vs"
  using format_args_get[of "map (Pair None) vs"] by (auto simp: plain_args_def valid_arg_def)

lemma value_type_cases:
  "value_type v \<noteq> None_type \<Longrightarrow> v \<noteq> V_none" "value_type v \<noteq> Custom_type \<Longrightarrow> v \<noteq> V_custom a"
  by auto

text \<open>What an action of the run-time handler may do.\<close>

definition safe :: "arg_value list \<Rightarrow> ((exn + 'a) \<times> run_state) option \<Rightarrow> 'a \<Rightarrow> run_state \<Rightarrow> bool" where
  "safe vs r a st \<longleftrightarrow> (\<exists>x st'. r = Some (x, st') \<and>
     (case x of Inl e \<Rightarrow> run_error_exn vs e | Inr b \<Rightarrow> b = a \<and> rs_ctx st' = rs_ctx st))"

lemma emit_safe:
  assumes "ends r" "\<And>e. r = Inl e \<Longrightarrow> run_error_exn vs e"
  shows "safe vs (emit r st) () st"
  using assms by (auto simp: safe_def emit_def ends_def append_text_def split: sum.splits option.splits)

lemma text_safe: "\<exists>x. t = Some x \<Longrightarrow> safe vs (emit (Inr t) st) () st"
  by (rule emit_safe) (auto simp: ends_def)

lemma float_error_run:
  "v \<in> set vs \<Longrightarrow> value_type v \<in> {Float_type, Double_type, Long_double_type} \<Longrightarrow> e = Format_error ''number is too big'' \<Longrightarrow>
   run_error_exn vs e"
  by (auto simp: run_error_exn_def run_error_def)

lemma cstring_error_run: "V_cstring p s \<in> set vs \<Longrightarrow> p = 0 \<Longrightarrow> e = Format_error ''string pointer is null'' \<Longrightarrow> run_error_exn vs e"
  by (auto simp: run_error_exn_def run_error_def)

lemma default_arg_safe:
  assumes "plain_args env vs args" "v \<in> set vs"
  shows "safe vs (default_arg_formatter env v st) () st"
proof -
  have e: "locale_ok (en_global env)" "float_digits_ok (en_digits env)" "float_errors_ok (en_digits env)"
    "value_type v \<noteq> None_type" "value_type v \<noteq> Custom_type"
    using assms by (auto simp: plain_args_def env_ok_def)
  have fl: "safe vs (emit (write_float_default (en_digits env) (en_global env) room x) st) () st"
    if "value_type v \<in> {Float_type, Double_type, Long_double_type}" for room x
    using e that assms(2) by (intro emit_safe write_float_default_ends) (auto dest: write_float_default_error intro: float_error_run)
  have cs: "v = V_cstring p s \<Longrightarrow> safe vs (emit (map_sum id Some (write_cstring_default p s)) st) () st" for p s
    using assms(2) by (intro emit_safe) (auto simp: write_cstring_default_def fail_def intro: cstring_error_run split: if_splits)
  show ?thesis
    using e fl cs by (cases v) (simp_all add: default_arg_formatter_def text_safe write_bool_ends)
qed

lemma arg_safe:
  assumes "plain_args env vs args" "v \<in> set vs" "\<And>e. value_type v = Char_type \<Longrightarrow> check_char_specs sp \<noteq> Inl e"
  shows "safe vs (arg_formatter env sp v st) () st"
proof -
  have e: "locale_ok (en_global env)" "locale_ok (en_locale env)" "float_digits_ok (en_digits env)"
    "float_errors_ok (en_digits env)" "value_type v \<noteq> None_type" "value_type v \<noteq> Custom_type"
    using assms by (auto simp: plain_args_def env_ok_def)
  have fl: "safe vs (emit (write_float_arg (en_digits env) (en_locale env) x sp) st) () st"
    if "value_type v \<in> {Float_type, Double_type, Long_double_type}" for x
    using e that assms(2) by (intro emit_safe write_float_arg_ends) (auto dest: write_float_arg_error intro: float_error_run)
  have cs: "v = V_cstring p s \<Longrightarrow> safe vs (emit (map_sum id Some (write_cstring p s sp)) st) () st" for p s
    using assms(2) by (intro emit_safe) (auto simp: write_cstring_def fail_def intro: cstring_error_run split: if_splits)
  have ch: "v = V_char c \<Longrightarrow> safe vs (emit (write_char_arg (en_locale env) c sp) st) () st" for c
    using assms(3) e(2) by (intro emit_safe write_char_arg_ends) (auto simp: write_char_arg_def chain_Inl split: if_splits)
  show ?thesis
    using e fl cs ch
    by (cases v) (simp_all add: arg_formatter_def text_safe write_bool_ends write_integral_ends)
qed

text \<open>A dynamic width or precision.\<close>

lemma handle_dynamic_safe:
  assumes "plain_args env vs args" "kind = K_none \<or> kind = K_index \<and> ref_ok (map value_type vs) ref"
    "handle_dynamic_spec kind v ref args = Inl e"
  shows "run_error_exn vs e"
proof -
  obtain i where i: "kind = K_index" "ref = Ref_index i" "valid_arg vs i" "is_integral_type (value_type (vs ! nat i))"
    using assms(2,3) by (auto simp: handle_dynamic_spec_def ref_ok_def valid_arg_def)
  define a where "a = vs ! nat i"
  have a: "get_arg i args = a" "a \<in> set vs" using plain_get[OF assms(1) i(3)] by (simp_all add: a_def)
  have t: "is_integral_type (value_type a)" using i(4) by (simp add: a_def)
  then have n: "a \<noteq> V_none" by (auto simp: is_integral_type_def)
  have get: "chain (dynamic_spec_getter a) (\<lambda>result.
      chain (require (\<not> uint result > max_int) ''width/precision is out of range'') (\<lambda>_. Inr (uint result))) = Inl e"
    using assms(3) i(1,2) a(1) n by (simp add: handle_dynamic_spec_def Let_def)
  then consider "dynamic_spec_getter a = Inl e"
    | r where "dynamic_spec_getter a = Inr r" "e = Format_error ''width/precision is out of range''"
    by (auto simp: chain_Inl require_def fail_def split: if_splits)
  then show ?thesis
  proof cases
    case 1
    then have "value_type a \<in> {Bool_type, Char_type} \<and> e = Format_error ''width/precision is not integer''"
      using t by (cases a) (auto simp: dynamic_spec_getter_def fail_def is_integral_type_def)
    then show ?thesis using a(2) by (auto simp: run_error_exn_def run_error_def)
  next
    case 2
    then have "value_type a \<notin> {Bool_type, Char_type}"
      by (cases a) (auto simp: dynamic_spec_getter_def fail_def)
    then show ?thesis using a(2) t 2(2) by (auto simp: run_error_exn_def run_error_def)
  qed
qed

lemma check_char_specs_data: "sp_data s = sp_data s' \<Longrightarrow> check_char_specs s = check_char_specs s'"
  by (simp add: check_char_specs_def spec_getters Let_def)

lemma dynamic_specs_safe:
  assumes "plain_args env vs args" "refs_ok (map value_type vs) sp"
  shows "case dynamic_specs args sp of Inl e \<Rightarrow> run_error_exn vs e
    | Inr sp' \<Rightarrow> check_char_specs sp' = check_char_specs sp"
proof -
  have c: "check_char_specs (specs.truncate (sp\<lparr>sp_width := w, sp_precision := p\<rparr>)) = check_char_specs sp"
    "check_char_specs (specs.truncate sp) = check_char_specs sp" for w p
    by (rule check_char_specs_data, simp add: specs.truncate_def)+
  show ?thesis
    using assms(2) handle_dynamic_safe[OF assms(1)] c unfolding refs_ok_def dynamic_specs_def
    by (auto simp: chain_Inl chain_Inr split: sum.splits)
qed

section \<open>The checker and the run-time handler in step\<close>

definition in_step :: "env \<Rightarrow> arg_value list \<Rightarrow> format_args \<Rightarrow> parse_context \<Rightarrow> run_state \<Rightarrow> bool" where
  "in_step env vs args c r \<longleftrightarrow> plain_args env vs args \<and> p_types c = Some (map value_type vs) \<and> rs_ctx r = forget c"

lemma step_next_id:
  "follows (in_step env vs args) (run_error_exn vs) (valid_arg vs) (lift_context next_arg_id) (run_context next_arg_id)"
proof (rule followsI)
  fix c r i c' assume c: "in_step env vs args c r" "lift_context next_arg_id c = Some (Inr i, c')"
  then have "next_arg_id c = Inr (i, c')" "p_types c = Some (map value_type vs)"
    by (auto simp: lift_context_def in_step_def split: sum.splits)
  from next_arg_id_forget[OF this] c(1)
  show "\<exists>x r'. run_context next_arg_id r = Some (x, r') \<and>
      (case x of Inl e \<Rightarrow> run_error_exn vs e | Inr b \<Rightarrow> b = i \<and> valid_arg vs i \<and> in_step env vs args c' r')"
    by (simp add: run_context_def in_step_def valid_arg_def)
qed

lemma step_check_id:
  assumes "0 \<le> i"
  shows "follows (in_step env vs args) (run_error_exn vs) (valid_arg vs)
    (lift_context (check_arg_index i)) (run_context (check_arg_index i))"
proof (rule followsI)
  fix c r j c' assume c: "in_step env vs args c r" "lift_context (check_arg_index i) c = Some (Inr j, c')"
  then have j: "check_arg_id i c = Inr c'" "p_types c = Some (map value_type vs)" "j = i"
    by (auto simp: lift_context_def check_arg_index_def in_step_def chain_Inr split: sum.splits)
  from check_arg_id_forget[OF j(1,2)] c(1) assms
  show "\<exists>x r'. run_context (check_arg_index i) r = Some (x, r') \<and>
      (case x of Inl e \<Rightarrow> run_error_exn vs e | Inr b \<Rightarrow> b = j \<and> valid_arg vs j \<and> in_step env vs args c' r')"
    by (simp add: run_context_def check_arg_index_def in_step_def valid_arg_def j(3))
qed

text \<open>The specifiers of an argument of a built-in type, as the checker reads them.\<close>

lemma check_specs_native:
  assumes "check_specs (plain_checker (map value_type vs)) i s c = Some (Inr rest, c')"
    "valid_arg vs i" "value_type (vs ! nat i) \<noteq> Custom_type"
  obtains sp where "native_parse (value_type (vs ! nat i)) s c = Inr (rest, sp, c')"
proof -
  have "nat i < length vs" using assms(2) by (auto simp: valid_arg_def)
  then show ?thesis
    using that assms by (auto simp: check_specs_def plain_checker_def invoke_parse_def valid_arg_def chain_Inr
        split: if_splits sum.splits)
qed

lemma step_empty_field:
  assumes "valid_arg vs i" "s \<noteq> []" "hd s = CHR ''}''"
  shows "follows (in_step env vs args) (run_error_exn vs) (\<lambda>_. True)
    (act_bind (check_specs (plain_checker (map value_type vs)) i s) (\<lambda>_. act_return ()))
    (default_arg_formatter env (get_arg i args))"
proof (rule followsI)
  fix c r a c' assume c: "in_step env vs args c r"
    "act_bind (check_specs (plain_checker (map value_type vs)) i s) (\<lambda>_. act_return ()) c = Some (Inr a, c')"
  have p: "plain_args env vs args" using c(1) by (simp add: in_step_def)
  note g = plain_get[OF p assms(1)]
  have t: "value_type (vs ! nat i) \<noteq> Custom_type" using p g by (auto simp: plain_args_def)
  obtain rest where "check_specs (plain_checker (map value_type vs)) i s c = Some (Inr rest, c')"
    using c(2) by (auto simp: act_bind_Inr)
  then obtain sp where "native_parse (value_type (vs ! nat i)) s c = Inr (rest, sp, c')"
    by (rule check_specs_native[OF _ assms(1) t])
  then have "c' = c" using assms(2,3) by (simp add: native_parse_def)
  with default_arg_safe[OF p, of "vs ! nat i" r] g c(1)
  show "\<exists>x r'. default_arg_formatter env (get_arg i args) r = Some (x, r') \<and>
      (case x of Inl e \<Rightarrow> run_error_exn vs e | Inr b \<Rightarrow> b = a \<and> True \<and> in_step env vs args c' r')"
    by (auto simp: safe_def in_step_def split: sum.splits)
qed

lemma step_specs_field:
  assumes "valid_arg vs i" "no_names s"
  shows "follows (in_step env vs args) (run_error_exn vs) no_names
    (check_specs (plain_checker (map value_type vs)) i s) (format_specs_field env args i s)"
proof (rule followsI)
  fix c r rest c'
  assume c: "in_step env vs args c r" "check_specs (plain_checker (map value_type vs)) i s c = Some (Inr rest, c')"
  have p: "plain_args env vs args" and ctx: "p_types c = Some (map value_type vs)" "rs_ctx r = forget c"
    using c(1) by (simp_all add: in_step_def)
  define v where "v = vs ! nat i"
  have g: "get_arg i args = v" "v \<in> set vs" using plain_get[OF p assms(1)] by (simp_all add: v_def)
  have t: "value_type v \<noteq> Custom_type" "value_type v \<noteq> None_type" using p g by (auto simp: plain_args_def)
  obtain sp where n: "native_parse (value_type v) s c = Inr (rest, sp, c')"
    using check_specs_native[OF c(2) assms(1)] t(1) unfolding v_def by blast
  have f: "parse_format_specs s default_dyn_specs (forget c) (value_type v) = Inr (rest, sp, forget c')"
    "no_names rest" "refs_ok (map value_type vs) sp" "p_types c' = Some (map value_type vs)"
    using native_parse_forget[OF n assms(2) ctx(1)] by blast+
  have ch: "value_type v = Char_type \<Longrightarrow> check_char_specs sp \<noteq> Inl e" for e
    using native_parse_forget[OF n assms(2) ctx(1), of e] by blast
  let ?r = "r\<lparr>rs_ctx := forget c'\<rparr>"
  have run: "format_specs_field env args i s r =
      act_bind (act_lift (dynamic_specs args sp)) (\<lambda>sp. act_bind (arg_formatter env sp v) (\<lambda>_. act_return rest)) ?r"
    using g(1) t f(1) ctx(2) by (cases v) (simp_all add: format_specs_field_def act_bind_def run_context_def)
  show "\<exists>x r'. format_specs_field env args i s r = Some (x, r') \<and>
      (case x of Inl e \<Rightarrow> run_error_exn vs e | Inr b \<Rightarrow> b = rest \<and> no_names rest \<and> in_step env vs args c' r')"
  proof (cases "dynamic_specs args sp")
    case (Inl e)
    then show ?thesis using run dynamic_specs_safe[OF p f(3)] by (simp add: act_bind_def)
  next
    case (Inr sp')
    then have "check_char_specs sp' = check_char_specs sp" using dynamic_specs_safe[OF p f(3)] by simp
    then have "safe vs (arg_formatter env sp' v ?r) () ?r" using ch by (intro arg_safe[OF p g(2)]) simp
    then obtain x st where x: "arg_formatter env sp' v ?r = Some (x, st)"
      "case x of Inl e \<Rightarrow> run_error_exn vs e | Inr b \<Rightarrow> b = () \<and> rs_ctx st = rs_ctx ?r"
      unfolding safe_def by blast
    then show ?thesis using run Inr f(2,4) p by (cases x) (simp_all add: act_bind_def in_step_def)
  qed
qed

interpretation checked: handlers_in_step "checker_handler (plain_checker (map value_type vs))"
  "\<lambda>_. checker_ok (plain_checker (map value_type vs))"
  "format_handler env args" "in_step env vs args" "run_error_exn vs" "valid_arg vs" for env vs args
proof (intro handlers_in_step.intro verdict.format_handler_contract_axioms handlers_in_step_axioms.intro)
  show "checker_ok (plain_checker (map value_type vs))" by (rule plain_ok)
qed (simp_all add: checker_handler_def format_handler_def step_next_id step_check_id step_empty_field step_specs_field,
  simp add: in_step_def append_text_def)

text \<open>C7: A format string that passes the check for the types of its arguments is well formed when it is
  used: formatting returns, and it can throw for the values only - a dynamic width or precision that
  is out of range or comes from a bool or a character, a precision that is too big for the digits of
  a floating-point number, a null pointer as a string.  (Strings that refer to arguments by name are
  left out: those names are looked up at run time.)\<close>

theorem checked_format_safe:
  assumes "check_format_string (plain_checker (map value_type vs)) fmt = Some (Inr ())" "no_names fmt"
    "make_format_args (map (Pair None) vs) = Inr args" "length vs < 2 ^ 31"
    "\<forall>v\<in>set vs. value_type v \<notin> {None_type, Custom_type}" "env_ok env" "float_errors_ok (en_digits env)"
  shows "\<exists>text e. vformat_to env fmt args = Some (text, e) \<and>
    (\<forall>x. e = Some x \<longrightarrow> (\<exists>m. x = Format_error m \<and> run_error vs m))"
proof -
  let ?c = "mk_context (Some (map value_type vs))" and ?r = "\<lparr>rs_ctx = mk_context None, rs_out = []\<rparr>"
  have rel: "in_step env vs args ?c ?r"
    using assms(3-7) by (simp add: in_step_def plain_args_def mk_context_def forget_def)
  obtain c' where "format_loop (checker_handler (plain_checker (map value_type vs))) [] fmt ?c = Some (Inr (), c')"
    using assms(1) by (auto simp: check_format_string_def parse_format_string_def plain_checker_def)
  from checked.loop_in_step[OF rel assms(2) this] obtain x r' where
    "format_loop (format_handler env args) [] fmt ?r = Some (x, r')" "case x of Inl e \<Rightarrow> run_error_exn vs e | Inr _ \<Rightarrow> in_step env vs args c' r'" by blast
  then show ?thesis by (cases x) (auto simp: vformat_fast_path parse_format_string_def run_error_exn_def)
qed

lemma check_example: "check_format_string (plain_checker [Int_type, Int_type]) ''{:>{}}'' = Some (Inr ())"
proof -
  have al: "parse_align (CHR ''>'') = A_right" "spec_char (CHR ''>'') = Sc_align" "parse_align (CHR ''{'') = A_none"
    "spec_char (CHR ''{'') = Sc_width" "spec_char (CHR ''}'') = Sc_close"
    by (simp_all add: parse_align_def spec_char_def is_digit_def)
  have "parse_dynamic_spec ''{}}'' \<lparr>p_next = 1, p_types = Some [Int_type, Int_type]\<rparr> =
      Inr \<lparr>dr_value = None, dr_ref = Some (Ref_index 1), dr_kind = K_index, dr_rest = ''}'',
        dr_ctx = \<lparr>p_next = 2, p_types = Some [Int_type, Int_type]\<rparr>\<rparr>"
    by (simp add: parse_dynamic_spec_def is_digit_def next_arg_id_def do_check_arg_id_def num_args_def Let_def
        check_dynamic_spec_def is_integral_type_def close_brace_def)
  then have w: "parse_width ''{}}'' sp \<lparr>p_next = 1, p_types = Some [Int_type, Int_type]\<rparr> =
      Inr (''}'', set_dynamic_width K_index (sp\<lparr>ds_width_ref := Ref_index 1\<rparr>),
        \<lparr>p_next = 2, p_types = Some [Int_type, Int_type]\<rparr>)" for sp
    by (simp add: parse_width_def)
  have s: "\<exists>sp. native_parse Int_type ''>{}}'' \<lparr>p_next = 1, p_types = Some [Int_type, Int_type]\<rparr> =
      Inr (''}'', sp, \<lparr>p_next = 2, p_types = Some [Int_type, Int_type]\<rparr>)"
    using w by (simp add: native_parse_def parse_format_specs_def al spec_loop.simps spec_turn_def enter_state_chain states)
  then show ?thesis
    by (auto simp: check_format_string_def parse_format_string_def format_loop.simps
         parse_replacement_field_def act_bind_def checker_handler_def lift_context_def next_arg_id_def
        do_check_arg_id_def num_args_def Let_def mk_context_def plain_checker_def specs_field_def check_specs_def invoke_parse_def)
qed

theorem checked_format_safe_witness:
  "case make_format_args [(None, V_int 7), (None, V_int (-1))] of
     Inl e \<Rightarrow> False
   | Inr args \<Rightarrow> \<exists>text e. vformat_to plain_env ''{:>{}}'' args = Some (text, e) \<and>
       (e = None \<or> e = Some (Format_error ''width/precision is out of range''))"
proof -
  obtain args where a: "make_format_args (map (Pair None) [V_int 7, V_int (-1)]) = Inr args"
    by (simp add: make_format_args_def)
  have ok: "check_format_string (plain_checker (map value_type [V_int 7, V_int (-1)])) ''{:>{}}'' = Some (Inr ())"
    using check_example by simp
  have n: "no_names ''{:>{}}''" by (simp add: is_name_start_def)
  have fl: "float_errors_ok (en_digits plain_env)" by (simp add: float_errors_ok_def plain_env_def)
  obtain out e where t: "vformat_to plain_env ''{:>{}}'' args = Some (out, e)"
    "\<forall>x. e = Some x \<longrightarrow> (\<exists>m. x = Format_error m \<and> run_error [V_int 7, V_int (-1)] m)"
    using checked_format_safe[OF ok n a _ _ plain_ok(2) fl] by auto
  have "e = None \<or> e = Some (Format_error ''width/precision is out of range'')"
    using t(2) by (cases e) (auto simp: run_error_def)
  then show ?thesis using t(1) a by (simp only: list.map sum.case) blast
qed

end
