(* ===== verification/Fmt_Dragon.thy ===== *)
theory Fmt_Dragon
  imports Complex_Main Fmt_Bigint Fmt_Parse
begin

text \<open>
  The exact conversion of a binary floating-point number to decimal digits: \<open>basic_fp\<close>,
  \<open>adjust_precision\<close> and \<open>format_dragon\<close> of \<open>fmt/format.h\<close>, and the proof that the digits of a
  conversion to a given number of digits are the correctly rounded ones.
\<close>

section \<open>\<open>basic_fp\<close>\<close>

record basic_fp =
  fp_f :: "128 word"
  fp_e :: int

text \<open>\<open>assign\<close> for an IEEE 754 \<open>double\<close>, given by its bits: the sign is left out, subnormal numbers have
  no implicit bit, and the predecessor of a power of two is closer than its successor.\<close>

definition assign_double :: "u64 \<Rightarrow> basic_fp \<times> bool" where
  "assign_double u =
     (let implicit_bit = push_bit 52 1; significand_mask = implicit_bit - 1;
          f = u AND significand_mask;
          biased_e = int (unat (drop_bit 52 (u AND 0x7FF0000000000000)));
          is_predecessor_closer = (f = 0 \<and> biased_e > 1);
          (biased_e, f) = (if biased_e = 0 then (1, f) else (biased_e, f + implicit_bit))
      in (\<lparr>fp_f = ucast f, fp_e = biased_e - 1023 - 52\<rparr>, is_predecessor_closer))"

section \<open>\<open>format_dragon\<close>\<close>

definition adjust_precision :: "int \<Rightarrow> int \<Rightarrow> exn + int" where
  "adjust_precision precision exp10 =
     (if exp10 > 0 \<and> precision > int_max - exp10 then fail ''number is too big'' else Inr (precision + exp10))"

text \<open>The flags.\<close>

definition flag_predecessor_closer :: u32 where "flag_predecessor_closer = 1"
definition flag_fixup :: u32 where "flag_fixup = 2"
definition flag_fixed :: u32 where "flag_fixed = 4"

text \<open>The numbers of the algorithm; \<open>dr_upper\<close> is \<open>None\<close> where the pointer \<open>upper\<close> is \<open>&lower\<close>.\<close>

record dragon =
  dr_numerator :: bigint
  dr_denominator :: bigint
  dr_lower :: bigint
  dr_upper :: "bigint option"

definition upper_of :: "dragon \<Rightarrow> bigint" where
  "upper_of d = (case dr_upper d of None \<Rightarrow> dr_lower d | Some u \<Rightarrow> u)"

definition dragon_start :: "basic_fp \<Rightarrow> bool \<Rightarrow> int \<Rightarrow> dragon" where
  "dragon_start v closer exp10 =
     (let shift = (if closer then 2 else 1 :: nat)
      in if fp_e v \<ge> 0 then
           \<lparr>dr_numerator = shift_left (nat (fp_e v) + shift) (assign (fp_f v)),
            dr_denominator = shift_left shift (assign_pow10 (nat exp10)),
            dr_lower = shift_left (nat (fp_e v)) (assign 1),
            dr_upper = (if closer then Some (shift_left (nat (fp_e v) + 1) (assign 1)) else None)\<rparr>
         else if exp10 < 0 then
           let power = assign_pow10 (nat (- exp10))
           in \<lparr>dr_numerator = shift_left shift (multiply_wide (fp_f v) power),
               dr_denominator = shift_left (shift + nat (- fp_e v)) (assign 1),
               dr_lower = power,
               dr_upper = (if closer then Some (shift_left 1 power) else None)\<rparr>
         else
           \<lparr>dr_numerator = shift_left shift (assign (fp_f v)),
            dr_denominator = shift_left (shift + nat (- fp_e v)) (assign_pow10 (nat exp10)),
            dr_lower = assign 1,
            dr_upper = (if closer then Some (assign 2) else None)\<rparr>)"

definition times10 :: "dragon \<Rightarrow> dragon" where
  "times10 d = d\<lparr>dr_numerator := multiply 10 (dr_numerator d), dr_lower := multiply 10 (dr_lower d),
     dr_upper := map_option (multiply 10) (dr_upper d)\<rparr>"

text \<open>The correction of an estimated exponent.\<close>

definition dragon_fixup :: "int \<Rightarrow> int \<Rightarrow> dragon \<times> int \<Rightarrow> dragon \<times> int" where
  "dragon_fixup ev num_digits = (\<lambda>(d, exp10).
     if add_compare (dr_numerator d) (upper_of d) (dr_denominator d) + ev \<le> 0
     then (if num_digits < 0 then times10 d else d\<lparr>dr_numerator := multiply 10 (dr_numerator d)\<rparr>, exp10 - 1)
     else (d, exp10))"

text \<open>The shortest digits that identify the number.  Nothing bounds the loop but the numbers.\<close>

partial_function (option) shortest_loop :: "int \<Rightarrow> dragon \<Rightarrow> string \<Rightarrow> string option" where
  "shortest_loop ev d data =
     (case divmod_assign (dr_denominator d) (dr_numerator d) of
        None \<Rightarrow> None
      | Some (digit, numerator) \<Rightarrow>
          let d = d\<lparr>dr_numerator := numerator\<rparr>;
              low = (compare numerator (dr_lower d) - ev < 0);
              high = (add_compare numerator (upper_of d) (dr_denominator d) + ev > 0);
              result = add_compare numerator numerator (dr_denominator d);
              up = (if \<not> low then True else if high then result > 0 \<or> result = 0 \<and> digit mod 2 \<noteq> 0 else False)
          in if low \<or> high then Some (data @ [digit_char (if up then digit + 1 else digit)])
             else shortest_loop ev (times10 d) (data @ [digit_char digit]))"

declare shortest_loop.simps [code]

text \<open>The given number of digits but the last, which is rounded.\<close>

fun digit_loop :: "nat \<Rightarrow> bigint \<Rightarrow> bigint \<Rightarrow> (int list \<times> bigint) option" where
  "digit_loop 0 denominator numerator = Some ([], numerator)"
| "digit_loop (Suc n) denominator numerator =
     (case divmod_assign denominator numerator of
        None \<Rightarrow> None
      | Some (digit, numerator) \<Rightarrow>
          map_option (\<lambda>(ds, numerator). (digit # ds, numerator)) (digit_loop n denominator (multiply 10 numerator)))"

definition inc_char :: "char \<Rightarrow> char" where
  "inc_char c = char_of ((of_char c :: nat) + 1)"

definition overflow_char :: char where
  "overflow_char = CHR '':''"

text \<open>The carry: \<open>'0' + 10\<close> moves to the left.\<close>

fun carry_loop :: "nat \<Rightarrow> string \<Rightarrow> string" where
  "carry_loop 0 s = s"
| "carry_loop (Suc i) s =
     (if s ! Suc i = overflow_char then carry_loop i (s[Suc i := CHR ''0'', i := inc_char (s ! i)]) else s)"

definition round_up_last :: "bool \<Rightarrow> int \<Rightarrow> string \<Rightarrow> string \<times> int" where
  "round_up_last fixed exp10 s =
     (let s = carry_loop (length s - 1) s
      in if s ! 0 = overflow_char
         then let s = s[0 := CHR ''1''] in if fixed then (s @ ''0'', exp10) else (s, exp10 + 1)
         else (s, exp10))"

definition fixed_digits :: "bool \<Rightarrow> int \<Rightarrow> bigint \<Rightarrow> bigint \<Rightarrow> int \<Rightarrow> string \<Rightarrow> (string \<times> int) option" where
  "fixed_digits fixed num_digits numerator denominator exp10 buf =
     (let exp10 = exp10 - (num_digits - 1)
      in if num_digits \<le> 0 then
           let digit = (if num_digits = 0 \<and> add_compare numerator numerator (multiply 10 denominator) > 0
                        then CHR ''1'' else CHR ''0'')
           in Some (buf @ [digit], exp10)
         else case digit_loop (nat (num_digits - 1)) denominator numerator of
           None \<Rightarrow> None
         | Some (ds, numerator) \<Rightarrow>
             (case divmod_assign denominator numerator of
                None \<Rightarrow> None
              | Some (digit, numerator) \<Rightarrow>
                  let result = add_compare numerator numerator denominator
                  in if result > 0 \<or> result = 0 \<and> digit mod 2 \<noteq> 0 then
                       (if digit = 9 then Some (round_up_last fixed exp10 (map digit_char ds @ [overflow_char]))
                        else Some (map digit_char ds @ [digit_char (digit + 1)], exp10))
                     else Some (map digit_char ds @ [digit_char digit], exp10)))"

definition format_dragon ::
    "basic_fp \<Rightarrow> u32 \<Rightarrow> int \<Rightarrow> string \<Rightarrow> int \<Rightarrow> (exn + string \<times> int) option" where
  "format_dragon v flags num_digits buf exp10 =
     (let d = dragon_start v (flags AND flag_predecessor_closer \<noteq> 0) exp10;
          ev = (if fp_f v AND 1 = 0 then 1 else 0);
          shortest = num_digits < 0;
          (d, exp10) = (if flags AND flag_fixup \<noteq> 0 then dragon_fixup ev num_digits (d, exp10) else (d, exp10));
          adjusted = (if flags AND flag_fixup \<noteq> 0 \<and> flags AND flag_fixed \<noteq> 0
                      then adjust_precision num_digits (exp10 + 1) else Inr num_digits)
      in case adjusted of
           Inl e \<Rightarrow> Some (Inl e)
         | Inr num_digits \<Rightarrow>
             if shortest
             then map_option (\<lambda>s. Inr (s, exp10 - (int (length s) - 1))) (shortest_loop ev d [])
             else map_option Inr (fixed_digits (flags AND flag_fixed \<noteq> 0) num_digits (dr_numerator d) (dr_denominator d) exp10 buf))"

section \<open>The carry\<close>

definition round_half_even :: "nat \<Rightarrow> nat \<Rightarrow> nat" where
  "round_half_even a b = (let q = a div b; r = a mod b in if 2 * r > b \<or> 2 * r = b \<and> odd q then q + 1 else q)"

lemma digit_val_overflow [simp]: "digit_val overflow_char = 10"
  by (simp add: digit_val_def overflow_char_def)

lemma overflow_not_digit [simp]: "\<not> is_digit overflow_char"
  by (simp add: is_digit_def overflow_char_def)

lemma dec_val_zeros [simp]: "dec_val (replicate k (CHR ''0'')) = 0"
  by (induction k) (simp_all add: dec_val_Cons digit_val_def)

lemma zeros_digits [simp]: "list_all is_digit (replicate k (CHR ''0''))"
  by (induction k) (simp_all add: is_digit_def)

lemma inc_digit:
  assumes "is_digit c"
  shows "digit_val (inc_char c) = digit_val c + 1" "is_digit (inc_char c) \<or> inc_char c = overflow_char"
proof -
  have c: "48 \<le> (of_char c :: nat)" "(of_char c :: nat) \<le> 57" using assms by (simp_all add: is_digit_def)
  then have e: "(of_char (inc_char c) :: nat) = of_char c + 1" by (simp add: inc_char_def)
  then show "digit_val (inc_char c) = digit_val c + 1" using c by (simp add: digit_val_def)
  show "is_digit (inc_char c) \<or> inc_char c = overflow_char"
  proof (cases "(of_char c :: nat) = 57")
    case True
    then have "(of_char (inc_char c) :: nat) = of_char overflow_char" unfolding e by (simp add: overflow_char_def)
    then show ?thesis by simp
  qed (use c e in \<open>simp add: is_digit_def\<close>)
qed

text \<open>\<open>k\<close> zeros behind a \<open>'0' + 10\<close>: the carry goes on until a digit takes it or the front is reached.\<close>

lemma carry_loop_val:
  assumes "list_all is_digit s"
  shows "let r = carry_loop (length s) (s @ overflow_char # replicate k (CHR ''0''))
    in length r = length s + k + 1 \<and> dec_val r = dec_val (s @ overflow_char # replicate k (CHR ''0'')) \<and>
       (list_all is_digit r \<or> r = overflow_char # replicate (length s + k) (CHR ''0''))"
  using assms
proof (induction s arbitrary: k rule: rev_induct)
  case (snoc c s)
  have c: "is_digit c" "list_all is_digit s" using snoc.prems by simp_all
  let ?s = "(s @ [c]) @ overflow_char # replicate k (CHR ''0'')"
  let ?t = "s @ inc_char c # replicate (Suc k) (CHR ''0'')"
  have up: "?s[Suc (length s) := CHR ''0'', length s := inc_char (?s ! length s)] = ?t"
    by (simp add: list_update_append nth_append)
  have at: "?s ! Suc (length s) = overflow_char" by (simp add: nth_append)
  have step: "carry_loop (length (s @ [c])) ?s = carry_loop (length s) ?t"
    using at up by simp
  have d: "dec_val ?t = dec_val ?s"
    using inc_digit(1)[OF c(1)] by (simp add: dec_val_append dec_val_Cons digit_val_def[of "CHR ''0''"] algebra_simps)
  show ?case
  proof (cases "inc_char c = overflow_char")
    case True
    then show ?thesis using snoc.IH[OF c(2), of "Suc k"] step d by (simp add: Let_def)
  next
    case False
    then have dig: "is_digit (inc_char c)" using inc_digit(2)[OF c(1)] by simp
    have "carry_loop (length s) ?t = ?t" using False by (cases s rule: rev_cases) (simp_all add: nth_append)
    then show ?thesis using step d c(2) dig by (simp add: Let_def is_digit_def[of "CHR ''0''"])
  qed
qed (simp add: Let_def)

text \<open>Rounding up the last digit 9: the result has again digits only, and is one more.\<close>

lemma round_up_last_val:
  assumes "list_all is_digit s" "round_up_last fixed e (s @ [overflow_char]) = (r, e')"
  shows "list_all is_digit r" "e \<le> e'" "dec_val r * 10 ^ nat (e' - e) = 10 * dec_val s + 10"
    "length r = length s + 1 \<or> fixed \<and> length r = length s + 2"
proof -
  let ?c = "carry_loop (length s) (s @ [overflow_char])"
  have c: "length ?c = length s + 1" "dec_val ?c = 10 * dec_val s + 10"
    "list_all is_digit ?c \<or> ?c = overflow_char # replicate (length s) (CHR ''0'')"
    using carry_loop_val[OF assms(1), of 0] by (simp_all add: Let_def dec_val_append dec_val_Cons mult.commute)
  have "list_all is_digit r \<and> e \<le> e' \<and> dec_val r * 10 ^ nat (e' - e) = 10 * dec_val s + 10 \<and>
    (length r = length s + 1 \<or> fixed \<and> length r = length s + 2)"
  proof (cases "list_all is_digit ?c")
    case True
    then have "?c ! 0 \<noteq> overflow_char" using c(1) by (cases ?c) auto
    then show ?thesis using True assms(2) c by (auto simp: round_up_last_def Let_def)
  next
    case False
    then have o: "?c = overflow_char # replicate (length s) (CHR ''0'')" using c(3) by simp
    then have v: "10 * dec_val s + 10 = 10 * 10 ^ length s" using c(2) by (simp add: dec_val_Cons)
    show ?thesis
    proof (cases fixed)
      case True
      then have "r = CHR ''1'' # replicate (length s) (CHR ''0'') @ [CHR ''0'']" "e' = e"
        using assms(2) o by (auto simp: round_up_last_def Let_def)
      then show ?thesis using True v by (simp add: dec_val_Cons dec_val_append digit_val_def is_digit_def[of "CHR ''1''"] is_digit_def[of "CHR ''0''"])
    next
      case False
      then have "r = CHR ''1'' # replicate (length s) (CHR ''0'')" "e' = e + 1"
        using assms(2) o by (auto simp: round_up_last_def Let_def)
      then show ?thesis using v by (simp add: dec_val_Cons digit_val_def is_digit_def[of "CHR ''1''"])
    qed
  qed
  then show "list_all is_digit r" "e \<le> e'" "dec_val r * 10 ^ nat (e' - e) = 10 * dec_val s + 10"
    "length r = length s + 1 \<or> fixed \<and> length r = length s + 2" by blast+
qed

section \<open>The digits\<close>

text \<open>When the quotient is computed right: after the first step the exponents make sure of it.\<close>

definition divisible :: "bigint \<Rightarrow> bigint \<Rightarrow> bool" where
  "divisible d b \<longleftrightarrow> bi_exp b \<le> bi_exp d \<or>
     bi_val d \<le> bi_val b \<and> (hd (bi_bigits d) \<noteq> 0 \<or> bi_val b \<noteq> bi_val d)"

lemma divmod_digit:
  assumes "bi_ok b" "bi_ok d" "bi_val d \<noteq> 0" "bi_val b < 10 * bi_val d" "divisible d b"
  obtains b' where "divmod_assign d b = Some (int (bi_val b div bi_val d), b')" "bi_val b' = bi_val b mod bi_val d"
    "bi_ok b'" "bi_exp b' \<le> bi_exp d" "bi_val b div bi_val d \<le> 9"
proof -
  have "10 * bi_val d \<le> 2 ^ 31 * bi_val d" by (intro mult_le_mono1) simp
  with assms(4) have "bi_val b < 2 ^ 31 * bi_val d" by (rule less_le_trans)
  from divmod_assign_val[OF assms(1,2,3) this] assms(3,5) obtain b' where
    "divmod_assign d b = Some (int (bi_val b div bi_val d), b')" "bi_val b' = bi_val b mod bi_val d" "bi_ok b'"
    "bi_exp b' \<le> bi_exp d" by (auto simp: divisible_def)
  moreover have "bi_val b div bi_val d < 10" using assms(4) by (simp add: less_mult_imp_div_less)
  ultimately show ?thesis using that by simp
qed

lemma digit_loop_val:
  assumes "bi_ok b" "bi_ok d" "bi_val d \<noteq> 0" "bi_val b < 10 * bi_val d" "divisible d b"
  shows "\<exists>ds b'. digit_loop n d b = Some (ds, b') \<and> length ds = n \<and> list_all (\<lambda>x. 0 \<le> x \<and> x \<le> 9) ds \<and>
    bi_val b * 10 ^ n = 10 * dec_val (map digit_char ds) * bi_val d + bi_val b' \<and> bi_ok b' \<and>
    bi_val b' < 10 * bi_val d \<and> divisible d b'"
  using assms(1,4,5)
proof (induction n arbitrary: b)
  case 0
  then show ?case by simp
next
  case (Suc n)
  obtain b1 where 1: "divmod_assign d b = Some (int (bi_val b div bi_val d), b1)" "bi_val b1 = bi_val b mod bi_val d"
    "bi_ok b1" "bi_exp b1 \<le> bi_exp d" "bi_val b div bi_val d \<le> 9"
    using divmod_digit[OF Suc.prems(1) assms(2,3) Suc.prems(2,3)] .
  let ?q = "bi_val b div bi_val d" and ?b = "multiply 10 b1"
  have b: "bi_ok ?b" "bi_val ?b = 10 * (bi_val b mod bi_val d)" "divisible d ?b"
    using 1 by (simp_all add: multiply_ok multiply_val divisible_def)
  moreover have "bi_val ?b < 10 * bi_val d" using b(2) assms(3) by simp
  ultimately obtain ds b' where ds: "digit_loop n d ?b = Some (ds, b')" "length ds = n" "list_all (\<lambda>x. 0 \<le> x \<and> x \<le> 9) ds"
    "bi_val ?b * 10 ^ n = 10 * dec_val (map digit_char ds) * bi_val d + bi_val b'" "bi_ok b'"
    "bi_val b' < 10 * bi_val d" "divisible d b'"
    using Suc.IH[of ?b] by blast
  have "bi_val b = ?q * bi_val d + bi_val b mod bi_val d" by simp
  then have "bi_val b * 10 ^ Suc n = (?q * bi_val d + bi_val b mod bi_val d) * 10 ^ Suc n" by (rule arg_cong)
  also have "\<dots> = 10 * (?q * 10 ^ n) * bi_val d + bi_val ?b * 10 ^ n" unfolding b(2) by (simp only: power_Suc ac_simps distrib_left)
  also have "\<dots> = 10 * (?q * 10 ^ n + dec_val (map digit_char ds)) * bi_val d + bi_val b'"
    unfolding ds(4) by (simp add: algebra_simps)
  also have "?q * 10 ^ n + dec_val (map digit_char ds) = dec_val (map digit_char (int ?q # ds))"
    using 1(5) ds(2) by (simp add: dec_val_Cons)
  finally show ?case using 1(1,5) ds by simp
qed

lemma zero_num_bigits: "bi_ok b \<Longrightarrow> bi_val b = 0 \<Longrightarrow> num_bigits b = Suc (bi_exp b)"
proof -
  assume b: "bi_ok b" "bi_val b = 0"
  then have "bi_bigits b = [0]" using digits_last[of "bi_bigits b"] by (auto simp: bi_ok_def bi_val_def)
  then show ?thesis by (simp add: num_bigits_def)
qed

lemma double_compare:
  assumes "bi_ok b" "bi_ok d" "bi_val d \<noteq> 0" "bi_exp b \<le> bi_exp d"
  shows "add_compare b b d = order_of (2 * bi_val b) (bi_val d)"
proof -
  have "1 \<le> length (bi_bigits d)" using assms(2) by (simp add: bi_ok_def Suc_le_eq)
  then have "bi_val b = 0 \<Longrightarrow> num_bigits b \<le> num_bigits d"
    using zero_num_bigits[OF assms(1)] assms(4) by (simp add: num_bigits_def)
  then show ?thesis using add_compare_val[OF assms(1,1,2,3)] by (auto simp: mult_2)
qed

lemma digits_chars:
  "list_all (\<lambda>x. 0 \<le> x \<and> x \<le> 9) ds \<Longrightarrow> list_all is_digit (map digit_char ds)"
  by (simp add: list_all_iff)

lemma fixed_digits_val:
  assumes "bi_ok b" "bi_ok d" "bi_val d \<noteq> 0" "bi_val b < 10 * bi_val d" "divisible d b" "0 < n"
  shows "\<exists>s e. fixed_digits fixed n b d exp10 buf = Some (s, e) \<and> list_all is_digit s \<and> exp10 - (n - 1) \<le> e \<and>
    dec_val s * 10 ^ nat (e - (exp10 - (n - 1))) = round_half_even (bi_val b * 10 ^ nat (n - 1)) (bi_val d) \<and>
    (length s = nat n \<or> fixed \<and> length s = nat n + 1)"
proof -
  let ?m = "nat (n - 1)" and ?e = "exp10 - (n - 1)"
  obtain ds b1 where l: "digit_loop ?m d b = Some (ds, b1)" "length ds = ?m" "list_all (\<lambda>x. 0 \<le> x \<and> x \<le> 9) ds"
    "bi_val b * 10 ^ ?m = 10 * dec_val (map digit_char ds) * bi_val d + bi_val b1" "bi_ok b1"
    "bi_val b1 < 10 * bi_val d" "divisible d b1"
    using digit_loop_val[OF assms(1-5), of ?m] by blast
  obtain b2 where q: "divmod_assign d b1 = Some (int (bi_val b1 div bi_val d), b2)" "bi_val b2 = bi_val b1 mod bi_val d"
    "bi_ok b2" "bi_exp b2 \<le> bi_exp d" "bi_val b1 div bi_val d \<le> 9"
    using divmod_digit[OF l(5) assms(2,3) l(6,7)] .
  let ?D = "dec_val (map digit_char ds)" and ?q = "bi_val b1 div bi_val d" and ?r = "bi_val b1 mod bi_val d"
  let ?up = "2 * ?r > bi_val d \<or> 2 * ?r = bi_val d \<and> odd ?q"
  have t: "bi_val b * 10 ^ ?m = (10 * ?D + ?q) * bi_val d + ?r"
    unfolding l(4) by (simp add: distrib_right)
  have "?r < bi_val d" using assms(3) by simp
  then have qr: "bi_val b * 10 ^ ?m div bi_val d = 10 * ?D + ?q" "bi_val b * 10 ^ ?m mod bi_val d = ?r"
    unfolding t using assms(3) by simp_all
  have rnd: "round_half_even (bi_val b * 10 ^ ?m) (bi_val d) = (if ?up then 10 * ?D + ?q + 1 else 10 * ?D + ?q)"
    unfolding round_half_even_def qr Let_def by simp
  have c: "add_compare b2 b2 d = order_of (2 * ?r) (bi_val d)" using double_compare[OF q(3) assms(2,3) q(4)] q(2) by simp
  have upc: "(add_compare b2 b2 d > 0 \<or> add_compare b2 b2 d = 0 \<and> int ?q mod 2 \<noteq> 0) = ?up"
    unfolding c order_of_def by (auto simp: even_iff_mod_2_eq_zero simp flip: of_nat_mod[of _ 2, simplified])
  have "fixed_digits fixed n b d exp10 buf =
      (if add_compare b2 b2 d > 0 \<or> add_compare b2 b2 d = 0 \<and> int ?q mod 2 \<noteq> 0
       then if int ?q = 9 then Some (round_up_last fixed ?e (map digit_char ds @ [overflow_char]))
            else Some (map digit_char ds @ [digit_char (int ?q + 1)], ?e)
       else Some (map digit_char ds @ [digit_char (int ?q)], ?e))"
    using assms(6) l(1) q(1) by (simp add: fixed_digits_def Let_def)
  note fd = this[unfolded upc]
  have len: "length ds + 1 = nat n" using l(2) assms(6) by simp
  note dig = digits_chars[OF l(3)]
  show ?thesis
  proof (cases "?up \<and> ?q = 9")
    case True
    obtain s e where r: "round_up_last fixed ?e (map digit_char ds @ [overflow_char]) = (s, e)" by force
    from round_up_last_val[OF dig r] have "list_all is_digit s" "?e \<le> e" "dec_val s * 10 ^ nat (e - ?e) = 10 * ?D + 10"
      "length s = nat n \<or> fixed \<and> length s = nat n + 1" using len by auto
    then show ?thesis using True fd r rnd by auto
  next
    case False
    define x where "x = (if ?up then ?q + 1 else ?q)"
    have x: "x \<le> 9" using False q(5) by (auto simp: x_def)
    have "fixed_digits fixed n b d exp10 buf = Some (map digit_char ds @ [digit_char (int x)], ?e)"
      unfolding fd using False by (auto simp: x_def add.commute)
    moreover have "dec_val (map digit_char ds @ [digit_char (int x)]) = 10 * ?D + x"
      using x by (simp add: dec_val_append dec_val_Cons)
    moreover have "list_all is_digit (map digit_char ds @ [digit_char (int x)])" using dig x by simp
    ultimately show ?thesis using rnd len by (auto simp: x_def)
  qed
qed

section \<open>The start\<close>

text \<open>The value of the number.\<close>

definition fp_value :: "basic_fp \<Rightarrow> real" where
  "fp_value v = real (unat (fp_f v)) * 2 powi fp_e v"

lemma hd_nonzero:
  assumes "bi_bigits b \<noteq> []" "bi_exp b = 0" "\<not> radix dvd bi_val b"
  shows "hd (bi_bigits b) \<noteq> 0"
  using assms by (cases "bi_bigits b") (auto simp: bi_val_def)

lemma powi_nonneg: "0 \<le> n \<Longrightarrow> (x :: real) powi n = x ^ nat n"
  by (simp add: power_int_def)

lemma powi_neg: "n < 0 \<Longrightarrow> (x :: real) powi n = 1 / x ^ nat (- n)"
  by (simp add: power_int_def power_inverse divide_inverse)

lemma one_le_fp: "fp_f v \<noteq> 0 \<Longrightarrow> 1 \<le> real (unat (fp_f v))"
proof -
  assume "fp_f v \<noteq> 0"
  then have "1 \<le> unat (fp_f v)" by (simp add: Suc_le_eq unat_gt_0)
  then have "real 1 \<le> real (unat (fp_f v))" by (rule of_nat_mono)
  then show ?thesis by simp
qed

lemma start_pos:
  assumes "fp_f v \<noteq> 0" "fp_e v \<ge> 0" "exp10 < 2 ^ 31" "0 \<le> exp10" "unat (fp_f v) < 2 ^ 64"
  shows "let d = dragon_start v closer exp10; num = dr_numerator d; den = dr_denominator d
    in real (bi_val num) * 10 powi exp10 = fp_value v * real (bi_val den) \<and> bi_ok num \<and> bi_ok den \<and> bi_val den \<noteq> 0 \<and>
       (hd (bi_bigits den) \<noteq> 0 \<or> bi_val num \<noteq> bi_val den)"
proof -
  let ?s = "if closer then 2 else 1 :: nat" and ?e = "nat (fp_e v)" and ?k = "nat exp10"
  let ?num = "shift_left (?e + ?s) (assign (fp_f v))" and ?den = "shift_left ?s (assign_pow10 ?k)"
  have d: "dr_numerator (dragon_start v closer exp10) = ?num" "dr_denominator (dragon_start v closer exp10) = ?den"
    using assms(2) by (simp_all add: dragon_start_def Let_def)
  have k: "?k < 2 ^ 32" using assms(3,4) by simp
  note p = assign_pow10_val[OF k]
  have num: "bi_val ?num = 2 ^ ?s * (2 ^ ?e * unat (fp_f v))" by (simp add: shift_left_val assign_val power_add)
  have den: "bi_val ?den = 2 ^ ?s * 10 ^ ?k" using p(1) by (simp add: shift_left_val)
  have ok: "bi_ok ?num" "bi_ok ?den" using assms(1) p(1) by (simp_all add: shift_left_ok assign_ok)
  have "real (bi_val ?num) * 10 powi exp10 = fp_value v * real (bi_val ?den)"
    unfolding num den fp_value_def using assms(2,4) by (simp add: powi_nonneg)
  moreover have "hd (bi_bigits ?den) \<noteq> 0 \<or> bi_val ?num \<noteq> bi_val ?den"
  proof (cases "?k < 28")
    case True
    have "\<not> radix dvd 2 ^ ?s * 10 ^ ?k"
    proof
      assume r: "radix dvd 2 ^ ?s * 10 ^ ?k"
      have "(10 :: nat) ^ ?k = 2 ^ ?k * 5 ^ ?k" by (simp flip: power_mult_distrib)
      then have "2 ^ 32 dvd 2 ^ (?s + ?k) * (5 :: nat) ^ ?k"
        using r by (simp only: radix_def power_add mult.assoc)
      moreover have "2 ^ (?s + ?k) * 5 ^ ?k dvd 2 ^ 31 * (5 :: nat) ^ ?k"
        using True by (intro mult_dvd_mono le_imp_power_dvd) auto
      ultimately have "2 ^ 32 dvd 2 ^ 31 * (5 :: nat) ^ ?k" by (rule dvd_trans)
      then have "2 ^ 31 * 2 dvd 2 ^ 31 * (5 :: nat) ^ ?k" by simp
      then have "even ((5 :: nat) ^ ?k)" by (subst (asm) dvd_times_left_cancel_iff) simp_all
      then show False by simp
    qed
    moreover have "bi_exp ?den = 0" using True p(2) by (simp add: shift_left_def Let_def split: prod.split)
    moreover have "bi_bigits ?den \<noteq> []" using ok(2) by (simp add: bi_ok_def)
    ultimately show ?thesis using hd_nonzero[of ?den] den by simp
  next
    case False
    have "bi_val ?num \<noteq> bi_val ?den"
    proof
      assume "bi_val ?num = bi_val ?den"
      then have "2 ^ ?e * unat (fp_f v) = 10 ^ ?k" unfolding num den by simp
      then have "5 ^ ?k dvd 2 ^ ?e * unat (fp_f v)" by (simp add: dvd_power_same flip: power_mult_distrib)
      moreover have "coprime ((5 :: nat) ^ ?k) (2 ^ ?e)" by simp
      ultimately have "5 ^ ?k dvd unat (fp_f v)" by (simp add: coprime_dvd_mult_right_iff)
      then have "(5 :: nat) ^ ?k \<le> unat (fp_f v)" using assms(1) by (intro dvd_imp_le) (simp_all add: unat_gt_0)
      moreover have "(5 :: nat) ^ 28 \<le> 5 ^ ?k" using False by (intro power_increasing) simp_all
      moreover have "(2 :: nat) ^ 64 \<le> 5 ^ 28" by simp
      ultimately show False using assms(5) by linarith
    qed
    then show ?thesis ..
  qed
  ultimately show ?thesis unfolding Let_def d using ok den by simp
qed

lemma start_neg_neg:
  assumes "fp_f v \<noteq> 0" "fp_e v < 0" "- (2 ^ 31) \<le> exp10" "exp10 < 0" "fp_value v < 10 powi (exp10 + 1)"
  shows "let d = dragon_start v closer exp10; num = dr_numerator d; den = dr_denominator d
    in real (bi_val num) * 10 powi exp10 = fp_value v * real (bi_val den) \<and> bi_ok num \<and> bi_ok den \<and> bi_val den \<noteq> 0 \<and>
       bi_exp num \<le> bi_exp den"
proof -
  let ?s = "if closer then 2 else 1 :: nat" and ?e = "nat (- fp_e v)" and ?k = "nat (- exp10)"
  let ?num = "shift_left ?s (multiply_wide (fp_f v) (assign_pow10 ?k))" and ?den = "shift_left (?s + ?e) (assign 1)"
  have d: "dr_numerator (dragon_start v closer exp10) = ?num" "dr_denominator (dragon_start v closer exp10) = ?den"
    using assms(2,4) by (simp_all add: dragon_start_def Let_def)
  have k: "?k < 2 ^ 32" using assms(3,4) by simp
  note p = assign_pow10_val[OF k]
  have num: "bi_val ?num = 2 ^ ?s * (unat (fp_f v) * 10 ^ ?k)"
    using p(1) by (simp add: shift_left_val multiply_wide_val[where h=64])
  have den: "bi_val ?den = 2 ^ ?s * 2 ^ ?e" by (simp add: shift_left_val assign_val power_add)
  have ok: "bi_ok ?num" "bi_ok ?den" using assms(1) p(1) by (simp_all add: shift_left_ok assign_ok multiply_wide_ok[where h=64])
  have V: "fp_value v = real (unat (fp_f v)) / 2 ^ ?e" using assms(2) by (simp add: fp_value_def powi_neg)
  have "real (bi_val ?num) * 10 powi exp10 = fp_value v * real (bi_val ?den)"
    unfolding num den V using assms(4) by (simp add: powi_neg)
  moreover have "bi_exp ?num \<le> bi_exp ?den"
  proof -
    have "?k \<le> ?e"
    proof (rule ccontr)
      assume "\<not> ?k \<le> ?e"
      then have "(10 :: real) * 2 ^ ?e \<le> 10 * 10 ^ (?k - 1)"
        by (intro mult_left_mono order.trans[OF power_mono power_increasing]) simp_all
      also have "\<dots> = 10 ^ ?k" using assms(4) by (simp flip: power_Suc)
      also have "\<dots> \<le> real (unat (fp_f v)) * 10 ^ ?k" 
        using mult_right_mono[OF one_le_fp[OF assms(1)], of "10 ^ ?k"] by simp
      finally have "10 / 10 ^ ?k \<le> fp_value v" unfolding V by (simp add: field_simps)
      moreover have "10 powi (exp10 + 1) = (10 :: real) / 10 ^ ?k"
        using assms(4) by (simp add: power_int_add powi_neg)
      ultimately show False using assms(5) by simp
    qed
    then have "?k div 32 \<le> (?s + ?e) div 32" by (intro div_le_mono) simp
    moreover have "bi_exp ?num = ?k div 32" using p(2) by (simp add: shift_left_def multiply_wide_def Let_def split: prod.split)
    moreover have "bi_exp ?den = (?s + ?e) div 32" by (simp add: shift_left_def assign_def Let_def split: prod.split)
    ultimately show ?thesis by simp
  qed
  ultimately show ?thesis unfolding Let_def d using ok den by simp
qed

lemma start_neg_pos:
  assumes "fp_f v \<noteq> 0" "fp_e v < 0" "0 \<le> exp10" "exp10 < 2 ^ 31"
  shows "let d = dragon_start v closer exp10; num = dr_numerator d; den = dr_denominator d
    in real (bi_val num) * 10 powi exp10 = fp_value v * real (bi_val den) \<and> bi_ok num \<and> bi_ok den \<and> bi_val den \<noteq> 0 \<and>
       bi_exp num \<le> bi_exp den"
proof -
  let ?s = "if closer then 2 else 1 :: nat" and ?e = "nat (- fp_e v)" and ?k = "nat exp10"
  let ?num = "shift_left ?s (assign (fp_f v))" and ?den = "shift_left (?s + ?e) (assign_pow10 ?k)"
  have d: "dr_numerator (dragon_start v closer exp10) = ?num" "dr_denominator (dragon_start v closer exp10) = ?den"
    using assms(2,3) by (simp_all add: dragon_start_def Let_def)
  have k: "?k < 2 ^ 32" using assms(3,4) by simp
  note p = assign_pow10_val[OF k]
  have num: "bi_val ?num = 2 ^ ?s * unat (fp_f v)" by (simp add: shift_left_val assign_val)
  have den: "bi_val ?den = 2 ^ ?s * 2 ^ ?e * 10 ^ ?k" using p(1) by (simp add: shift_left_val power_add)
  have ok: "bi_ok ?num" "bi_ok ?den" using assms(1) p(1) by (simp_all add: shift_left_ok assign_ok)
  have "real (bi_val ?num) * 10 powi exp10 = fp_value v * real (bi_val ?den)"
    unfolding num den fp_value_def using assms(2,3) by (simp add: powi_neg powi_nonneg)
  moreover have "bi_exp ?num = 0" by (simp add: shift_left_def assign_def Let_def split: prod.split)
  ultimately show ?thesis unfolding Let_def d using ok den by simp
qed

text \<open>All three together: the quotient of the two numbers is the value, scaled by the power of ten.\<close>

lemma dragon_start_val:
  assumes "fp_f v \<noteq> 0" "unat (fp_f v) < 2 ^ 64" "\<bar>exp10\<bar> < 2 ^ 31" "10 powi exp10 \<le> fp_value v" "fp_value v < 10 powi (exp10 + 1)"
  shows "let d = dragon_start v closer exp10; num = dr_numerator d; den = dr_denominator d
    in real (bi_val num) * 10 powi exp10 = fp_value v * real (bi_val den) \<and> bi_ok num \<and> bi_ok den \<and> bi_val den \<noteq> 0 \<and>
       bi_val den \<le> bi_val num \<and> bi_val num < 10 * bi_val den \<and> divisible den num"
proof -
  let ?d = "dragon_start v closer exp10"
  let ?num = "dr_numerator ?d" and ?den = "dr_denominator ?d"
  have e: "0 \<le> exp10" if "fp_e v \<ge> 0"
  proof (rule ccontr)
    assume "\<not> 0 \<le> exp10"
    then have "(10 :: real) powi (exp10 + 1) \<le> 10 powi 0" by (intro power_int_increasing) simp_all
    moreover have "1 * 1 \<le> fp_value v" unfolding fp_value_def using that one_le_fp[OF assms(1)]
      by (intro mult_mono) (simp_all add: powi_nonneg del: of_nat_unat)
    ultimately show False using assms(5) by simp
  qed
  have a: "real (bi_val ?num) * 10 powi exp10 = fp_value v * real (bi_val ?den) \<and> bi_ok ?num \<and> bi_ok ?den \<and> bi_val ?den \<noteq> 0 \<and>
      (bi_exp ?num \<le> bi_exp ?den \<or> hd (bi_bigits ?den) \<noteq> 0 \<or> bi_val ?num \<noteq> bi_val ?den)"
  proof (cases "fp_e v \<ge> 0")
    case True
    then show ?thesis using start_pos[of v exp10 closer] assms(1-3) e by (simp add: Let_def)
  next
    case False
    then show ?thesis using start_neg_neg[of v exp10 closer] start_neg_pos[of v exp10 closer] assms
      by (cases "exp10 < 0") (simp_all add: Let_def)
  qed
  have pos: "0 < (10 :: real) powi exp10" "0 < real (bi_val ?den)" using a by simp_all
  have "10 powi exp10 * real (bi_val ?den) \<le> real (bi_val ?num) * 10 powi exp10"
    using a assms(4) by simp
  then have lo: "bi_val ?den \<le> bi_val ?num" using pos by (simp add: mult.commute)
  have "real (bi_val ?num) * 10 powi exp10 < 10 powi (exp10 + 1) * real (bi_val ?den)"
    using a assms(5) pos(2) by simp
  also have "\<dots> = real (10 * bi_val ?den) * 10 powi exp10" by (simp add: power_int_add)
  finally have hi: "real (bi_val ?num) < real (10 * bi_val ?den)" using pos(1) by (simp only: mult_less_cancel_right_pos)
  show ?thesis unfolding Let_def divisible_def using a lo hi by (simp only: of_nat_less_iff) blast
qed

section \<open>Correct rounding\<close>

lemma half_compare:
  assumes "0 < b"
  shows "2 * r > b \<longleftrightarrow> real r / real b > 1 / 2" "2 * r = b \<longleftrightarrow> real r / real b = 1 / 2"
proof -
  have "2 * r > b \<longleftrightarrow> real (2 * r) > real b" by (simp only: of_nat_less_iff)
  also have "\<dots> \<longleftrightarrow> real r / real b > 1 / 2" using assms by (simp add: less_divide_eq mult.commute)
  finally show "2 * r > b \<longleftrightarrow> real r / real b > 1 / 2" .
  have "2 * r = b \<longleftrightarrow> real (2 * r) = real b" by (simp only: of_nat_eq_iff)
  also have "\<dots> \<longleftrightarrow> real r / real b = 1 / 2" using assms by (auto simp: divide_eq_eq eq_divide_eq)
  finally show "2 * r = b \<longleftrightarrow> real r / real b = 1 / 2" .
qed

lemma round_half_even_nearest:
  assumes "0 < b"
  shows "\<bar>real a / real b - real (round_half_even a b)\<bar> \<le> 1 / 2"
    "\<bar>real a / real b - real (round_half_even a b)\<bar> = 1 / 2 \<Longrightarrow> even (round_half_even a b)"
proof -
  let ?q = "a div b" and ?r = "a mod b"
  have "real a = real (b * ?q + ?r)" by simp
  then have "real a = real b * real ?q + real ?r" by (simp only: of_nat_add of_nat_mult)
  then have v: "real a / real b = real ?q + real ?r / real b" using assms by (simp add: add_divide_distrib)
  have r: "0 \<le> real ?r / real b" "real ?r / real b < 1" using assms by simp_all
  note cmp = half_compare[OF assms, of ?r]
  show "\<bar>real a / real b - real (round_half_even a b)\<bar> \<le> 1 / 2"
    using r unfolding v round_half_even_def Let_def cmp by (auto simp: abs_le_iff)
  show "even (round_half_even a b)" if "\<bar>real a / real b - real (round_half_even a b)\<bar> = 1 / 2"
    using that r unfolding v round_half_even_def Let_def cmp by (auto split: if_splits)
qed

text \<open>C14: \<open>format_dragon\<close> is exact: for a positive number of digits and an exponent that is the one of the
  number, it returns, and the digits and the exponent it returns are the multiple of the unit of the last digit
  that is nearest to the number, the even one when two are equally near.  The digits are decimal digits, as many
  as asked for, but for one more where the carry of a fixed-point number reaches the front.
\<close>

theorem format_dragon_rounds:
  assumes "fp_f v \<noteq> 0" "unat (fp_f v) < 2 ^ 64" "\<bar>exp10\<bar> < 2 ^ 31"
    and "10 powi exp10 \<le> fp_value v" "fp_value v < 10 powi (exp10 + 1)"
    and "flags AND flag_fixup = 0" "0 < num_digits"
  shows "\<exists>s e N. let ulp = 10 powi (exp10 - (num_digits - 1)) in
    format_dragon v flags num_digits buf exp10 = Some (Inr (s, e)) \<and>
    list_all is_digit s \<and> real (dec_val s) * 10 powi e = real N * ulp \<and>
    \<bar>fp_value v - real N * ulp\<bar> \<le> ulp / 2 \<and> (\<bar>fp_value v - real N * ulp\<bar> = ulp / 2 \<longrightarrow> even N) \<and>
    (length s = nat num_digits \<or> flags AND flag_fixed \<noteq> 0 \<and> length s = nat num_digits + 1)"
proof -
  let ?d = "dragon_start v (flags AND flag_predecessor_closer \<noteq> 0) exp10" and ?m = "nat (num_digits - 1)"
  let ?num = "dr_numerator ?d" and ?den = "dr_denominator ?d" and ?E = "exp10 - (num_digits - 1)"
  let ?N = "round_half_even (bi_val ?num * 10 ^ ?m) (bi_val ?den)" and ?u = "10 powi ?E :: real"
  from dragon_start_val[OF assms(1-5)] have st: "real (bi_val ?num) * 10 powi exp10 = fp_value v * real (bi_val ?den)"
    "bi_ok ?num" "bi_ok ?den" "bi_val ?den \<noteq> 0" "bi_val ?num < 10 * bi_val ?den" "divisible ?den ?num"
    by (simp_all add: Let_def)
  obtain s e where f: "fixed_digits (flags AND flag_fixed \<noteq> 0) num_digits ?num ?den exp10 buf = Some (s, e)"
    "list_all is_digit s" "?E \<le> e" "dec_val s * 10 ^ nat (e - ?E) = ?N"
    "length s = nat num_digits \<or> flags AND flag_fixed \<noteq> 0 \<and> length s = nat num_digits + 1"
    using fixed_digits_val[OF st(2-6) assms(7)] by blast
  have fd: "format_dragon v flags num_digits buf exp10 = Some (Inr (s, e))"
    using f(1) assms(6,7) by (simp add: format_dragon_def Let_def)
  have "(10 :: real) powi e = 10 ^ nat (e - ?E) * ?u" using f(3) by (simp flip: powi_nonneg power_int_add)
  then have "real (dec_val s) * 10 powi e = real (dec_val s * 10 ^ nat (e - ?E)) * ?u" by simp
  then have v: "real (dec_val s) * 10 powi e = real ?N * ?u" unfolding f(4) .
  have u: "0 < ?u" by simp
  have "10 powi exp10 = (10 :: real) ^ ?m * ?u" using assms(7) by (simp flip: powi_nonneg power_int_add)
  then have "real (bi_val ?num) * (10 ^ ?m * ?u) = fp_value v * real (bi_val ?den)" using st(1) by simp
  then have V: "fp_value v = real (bi_val ?num * 10 ^ ?m) / real (bi_val ?den) * ?u" using st(4) by (simp add: field_simps)
  have dist: "\<bar>fp_value v - real ?N * ?u\<bar> = \<bar>real (bi_val ?num * 10 ^ ?m) / real (bi_val ?den) - real ?N\<bar> * ?u"
    unfolding V left_diff_distrib[symmetric] abs_mult by simp
  note near = round_half_even_nearest[of "bi_val ?den" "bi_val ?num * 10 ^ ?m"]
  have "\<bar>fp_value v - real ?N * ?u\<bar> \<le> 1 / 2 * ?u"
    unfolding dist by (intro mult_right_mono near(1)) (use st(4) in simp_all)
  moreover have "even ?N" if "\<bar>fp_value v - real ?N * ?u\<bar> = ?u / 2"
    using that near(2) st(4) u unfolding dist by simp
  ultimately show ?thesis using f(2,5) fd v unfolding Let_def
    by (intro exI[of _ s] exI[of _ e] exI[of _ ?N]) simp
qed

theorem format_dragon_rounds_witness:
  "\<exists>s e N. format_dragon \<lparr>fp_f = 5, fp_e = -2\<rparr> 0 2 [] 0 = Some (Inr (s, e)) \<and> length s = 2 \<and>
     real (dec_val s) * 10 powi e = real N * 10 powi -1 \<and> \<bar>5 / 4 - real N * 10 powi -1\<bar> \<le> 10 powi -1 / 2"
  using format_dragon_rounds[of "\<lparr>fp_f = 5, fp_e = -2\<rparr>" 0 0 2 "[]"]
  by (simp add: fp_value_def powi_neg Let_def mult.commute[of _ "20 :: real"]) blast

lemma format_dragon_quarter: "format_dragon \<lparr>fp_f = 5, fp_e = -2\<rparr> 0 2 [] 0 = Some (Inr (''12'', -1))"
  by code_simp

text \<open>
  The correction of the exponent adds half a unit in the last place of the binary number, so it keeps the exponent
  of a power of ten for the \<open>long double\<close> just below \<open>10 ^ 28\<close>: its first digit is then a zero.
\<close>

lemma fixup_leading_zero:
  "format_dragon \<lparr>fp_f = 9313225746154785156, fp_e = 30\<rparr> flag_fixup 25 [] 28 = Some (Inr (''0999999999999999999973156'', 4))"
  by code_simp

end
