(* ===== verification/Fmt_Uint128.thy ===== *)
theory Fmt_Uint128
  imports Prelude
begin

text \<open>
  \<open>fmt/format.h\<close> and \<open>fmt/format-inl.h\<close>: class \<open>uint128_fallback\<close>, which stands for a 128-bit integer
  where the compiler has none, and the wide products on it; they agree with 128-bit words.
\<close>

section \<open>The class\<close>

record uint128 =
  u_lo :: u64
  u_hi :: u64

abbreviation uint128 :: "u64 \<Rightarrow> u64 \<Rightarrow> uint128" where
  "uint128 hi lo \<equiv> \<lparr>u_lo = lo, u_hi = hi\<rparr>"

definition u_eq :: "uint128 \<Rightarrow> uint128 \<Rightarrow> bool" where
  "u_eq lhs rhs = (u_hi lhs = u_hi rhs \<and> u_lo lhs = u_lo rhs)"

definition u_gr :: "uint128 \<Rightarrow> uint128 \<Rightarrow> bool" where
  "u_gr lhs rhs = (if u_hi lhs \<noteq> u_hi rhs then u_hi lhs > u_hi rhs else u_lo lhs > u_lo rhs)"

definition u_or :: "uint128 \<Rightarrow> uint128 \<Rightarrow> uint128" where
  "u_or lhs rhs = uint128 (u_hi lhs OR u_hi rhs) (u_lo lhs OR u_lo rhs)"

definition u_and :: "uint128 \<Rightarrow> uint128 \<Rightarrow> uint128" where
  "u_and lhs rhs = uint128 (u_hi lhs AND u_hi rhs) (u_lo lhs AND u_lo rhs)"

definition u_not :: "uint128 \<Rightarrow> uint128" where
  "u_not n = uint128 (NOT (u_hi n)) (NOT (u_lo n))"

text \<open>\<open>operator+=\<close>; \<open>None\<close> is the assertion.\<close>

definition u_add :: "uint128 \<Rightarrow> uint128 \<Rightarrow> uint128 option" where
  "u_add lhs n =
     (let new_lo = u_lo lhs + u_lo n;
          new_hi = u_hi lhs + u_hi n + (if new_lo < u_lo lhs then 1 else 0)
      in if new_hi \<ge> u_hi lhs then Some (uint128 new_hi new_lo) else None)"

text \<open>\<open>operator+=\<close> with 64 bits, as it is computed in constant expressions and without the intrinsics.\<close>

definition u_add64 :: "uint128 \<Rightarrow> u64 \<Rightarrow> uint128" where
  "u_add64 lhs n =
     (let lo = u_lo lhs + n in uint128 (u_hi lhs + (if lo < n then 1 else 0)) lo)"

definition u_times32 :: "uint128 \<Rightarrow> u32 \<Rightarrow> uint128 option" where
  "u_times32 lhs rhs =
     (if u_hi lhs \<noteq> 0 then None
      else let hi = drop_bit 32 (u_lo lhs) * ucast rhs;
               lo = (u_lo lhs AND 0xFFFFFFFF) * ucast rhs;
               new_lo = push_bit 32 hi + lo
           in Some (uint128 (drop_bit 32 hi + (if new_lo < lo then 1 else 0)) new_lo))"

definition u_minus :: "uint128 \<Rightarrow> u64 \<Rightarrow> uint128" where
  "u_minus lhs rhs = uint128 (u_hi lhs - (if u_lo lhs < rhs then 1 else 0)) (u_lo lhs - rhs)"

text \<open>Shifts; a shift by nothing shifts one half by 64 bits, which is undefined.\<close>

fun u_shr :: "uint128 \<Rightarrow> nat \<Rightarrow> uint128 option" where
  "u_shr n shift =
     (if shift = 64 then Some (uint128 0 (u_hi n))
      else if shift > 64 then u_shr (uint128 0 (u_hi n)) (shift - 64)
      else if shift = 0 then None
      else Some (uint128 (drop_bit shift (u_hi n)) (push_bit (64 - shift) (u_hi n) OR drop_bit shift (u_lo n))))"

fun u_shl :: "uint128 \<Rightarrow> nat \<Rightarrow> uint128 option" where
  "u_shl n shift =
     (if shift = 64 then Some (uint128 (u_lo n) 0)
      else if shift > 64 then u_shl (uint128 (u_lo n) 0) (shift - 64)
      else if shift = 0 then None
      else Some (uint128 (push_bit shift (u_hi n) OR drop_bit (64 - shift) (u_lo n)) (push_bit shift (u_lo n))))"

declare u_shr.simps [simp del] u_shl.simps [simp del]

section \<open>Wide products\<close>

definition umul128 :: "u64 \<Rightarrow> u64 \<Rightarrow> uint128" where
  "umul128 x y =
     (let mask32 = 0xFFFFFFFF;
          a = drop_bit 32 x; b = x AND mask32; c = drop_bit 32 y; d = y AND mask32;
          ac = a * c; bc = b * c; ad = a * d; bd = b * d;
          intermediate = drop_bit 32 bd + (ad AND mask32) + (bc AND mask32)
      in uint128 (ac + drop_bit 32 intermediate + drop_bit 32 ad + drop_bit 32 bc)
           (push_bit 32 intermediate + (bd AND mask32)))"

definition umul128_upper64 :: "u64 \<Rightarrow> u64 \<Rightarrow> u64" where
  "umul128_upper64 x y = u_hi (umul128 x y)"

definition umul192_upper128 :: "u64 \<Rightarrow> uint128 \<Rightarrow> uint128" where
  "umul192_upper128 x y = u_add64 (umul128 x (u_hi y)) (umul128_upper64 x (u_lo y))"

definition umul192_lower128 :: "u64 \<Rightarrow> uint128 \<Rightarrow> uint128" where
  "umul192_lower128 x y =
     (let high = x * u_hi y; high_low = umul128 x (u_lo y) in uint128 (high + u_hi high_low) (u_lo high_low))"

definition umul96_upper64 :: "u32 \<Rightarrow> u64 \<Rightarrow> u64" where
  "umul96_upper64 x y = umul128_upper64 (push_bit 32 (ucast x)) y"

definition umul96_lower64 :: "u32 \<Rightarrow> u64 \<Rightarrow> u64" where
  "umul96_lower64 x y = ucast x * y"

section \<open>The 128-bit word it stands for\<close>

definition u_val :: "uint128 \<Rightarrow> nat" where
  "u_val n = 2 ^ 64 * unat (u_hi n) + unat (u_lo n)"

definition u_word :: "uint128 \<Rightarrow> 128 word" where
  "u_word n = word_cat (u_hi n) (u_lo n)"

lemma u64_bound: "unat (w :: u64) < 2 ^ 64"
  using unsigned_less[of w] by simp

lemma u32_bound: "unat (w :: u32) < 2 ^ 32"
  using unsigned_less[of w] by simp

lemma u_val_bound: "u_val n < 2 ^ 128"
proof -
  have "u_val n < 2 ^ 64 * (unat (u_hi n) + 1)" using u64_bound[of "u_lo n"] by (simp add: u_val_def)
  also have "\<dots> \<le> 2 ^ 64 * 2 ^ 64" by (intro mult_le_mono2) (use u64_bound[of "u_hi n"] in simp)
  finally show ?thesis by simp
qed

lemma bit_u_word: "bit (u_word n) i \<longleftrightarrow> (if i < 64 then bit (u_lo n) i else i < 128 \<and> bit (u_hi n) (i - 64))"
  by (simp add: u_word_def bit_word_cat_iff)

lemma unat_u_word: "unat (u_word n) = u_val n"
proof -
  have "unat (push_bit 64 (ucast (u_hi n)) :: 128 word) = 2 ^ 64 * unat (u_hi n)"
    using u64_bound[of "u_hi n"]
    by (simp add: push_bit_eq_mult unat_times_exact unat_up mult.commute)
  moreover have "u_word n = push_bit 64 (ucast (u_hi n)) + ucast (u_lo n)"
    by (simp add: u_word_def word_cat_eq)
  ultimately show ?thesis using u_val_bound[of n] by (simp add: unat_plus_exact unat_up u_val_def)
qed

lemma u_wordI: "unat w = u_val n \<Longrightarrow> u_word n = w"
  by (simp add: word_unat_eq_iff unat_u_word)

lemma carry_exact:
  fixes a b :: u64
  shows "unat (a + b) + 2 ^ 64 * (if a + b < b then 1 else 0) = unat a + unat b"
    "unat (a + b) + 2 ^ 64 * (if a + b < a then 1 else 0) = unat a + unat b"
proof -
  have c: "unat (a + b) + 2 ^ 64 * (if a + b < b then 1 else 0) = unat a + unat b" for a b :: u64
  proof (cases "unat a + unat b < 2 ^ 64")
    case True
    then have "unat (a + b) = unat a + unat b" by (simp add: unat_plus_exact)
    then show ?thesis by (simp add: word_less_nat_alt)
  next
    case False
    have "unat (a + b) = (unat a + unat b) mod 2 ^ 64" by (simp add: unat_word_ariths)
    also have "\<dots> = unat a + unat b - 2 ^ 64"
      using False u64_bound[of a] u64_bound[of b] by (simp add: mod_if)
    finally show ?thesis using False u64_bound[of a] by (simp add: word_less_nat_alt)
  qed
  show "unat (a + b) + 2 ^ 64 * (if a + b < b then 1 else 0) = unat a + unat b" by (rule c)
  show "unat (a + b) + 2 ^ 64 * (if a + b < a then 1 else 0) = unat a + unat b"
    using c[of b a] by (simp add: add.commute)
qed

text \<open>A high half may be off by whole multiples of \<open>2 ^ 64\<close>: it does not show modulo \<open>2 ^ 128\<close>.\<close>

lemma u_val_high:
  assumes "unat hi = h mod 2 ^ 64"
  shows "u_val (uint128 hi lo) = (2 ^ 64 * h + unat lo) mod 2 ^ 128"
proof -
  have "(2 ^ 64 * h + unat lo) mod 2 ^ 128 = 2 ^ 64 * (h mod 2 ^ 64) + unat lo"
    using mod_mult2_eq[of "2 ^ 64 * h + unat lo" "2 ^ 64" "2 ^ 64"] u64_bound[of lo] by simp
  then show ?thesis by (simp add: u_val_def assms)
qed

lemma u_add64_val: "u_val (u_add64 n k) = (u_val n + unat k) mod 2 ^ 128"
proof -
  let ?c = "if u_lo n + k < k then 1 else 0 :: nat"
  have "unat (u_hi n + (if u_lo n + k < k then 1 else 0)) = (unat (u_hi n) + ?c) mod 2 ^ 64"
    by (simp add: unat_word_ariths)
  then have "u_val (u_add64 n k) = (2 ^ 64 * (unat (u_hi n) + ?c) + unat (u_lo n + k)) mod 2 ^ 128"
    unfolding u_add64_def Let_def by (rule u_val_high)
  also have "2 ^ 64 * (unat (u_hi n) + ?c) + unat (u_lo n + k) = u_val n + unat k"
    using carry_exact(1)[of "u_lo n" k] by (simp add: u_val_def)
  finally show ?thesis .
qed

lemma u_add_val:
  assumes "u_add a b = Some r"
  shows "u_val r = (u_val a + u_val b) mod 2 ^ 128"
proof -
  let ?c = "if u_lo a + u_lo b < u_lo a then 1 else 0 :: nat"
  have r: "r = uint128 (u_hi a + u_hi b + (if u_lo a + u_lo b < u_lo a then 1 else 0)) (u_lo a + u_lo b)"
    using assms by (simp add: u_add_def Let_def split: if_splits)
  have "unat (u_hi a + u_hi b + (if u_lo a + u_lo b < u_lo a then 1 else 0)) = (unat (u_hi a) + unat (u_hi b) + ?c) mod 2 ^ 64"
    by (simp add: unat_word_ariths mod_simps)
  then have "u_val r = (2 ^ 64 * (unat (u_hi a) + unat (u_hi b) + ?c) + unat (u_lo a + u_lo b)) mod 2 ^ 128"
    unfolding r by (rule u_val_high)
  also have "2 ^ 64 * (unat (u_hi a) + unat (u_hi b) + ?c) + unat (u_lo a + u_lo b) = u_val a + u_val b"
    using carry_exact(2)[of "u_lo a" "u_lo b"] by (simp add: u_val_def)
  finally show ?thesis .
qed

lemma u_add_total:
  assumes "u_val a + u_val b < 2 ^ 128"
  shows "u_add a b \<noteq> None"
proof -
  let ?c = "if u_lo a + u_lo b < u_lo a then 1 else 0 :: nat"
  have "2 ^ 64 * (unat (u_hi a) + unat (u_hi b) + ?c) \<le> u_val a + u_val b"
    using carry_exact(2)[of "u_lo a" "u_lo b"] by (simp add: u_val_def)
  then have "2 ^ 64 * (unat (u_hi a) + unat (u_hi b) + ?c) < 2 ^ 64 * 2 ^ 64" using assms by simp
  then have lt: "unat (u_hi a) + unat (u_hi b) + ?c < 2 ^ 64" by simp
  have "unat (u_hi a + u_hi b + (if u_lo a + u_lo b < u_lo a then 1 else 0)) = (unat (u_hi a) + unat (u_hi b) + ?c) mod 2 ^ 64"
    by (simp add: unat_word_ariths mod_simps)
  also have "\<dots> = unat (u_hi a) + unat (u_hi b) + ?c" using lt by simp
  finally show ?thesis unfolding u_add_def Let_def word_le_nat_alt by simp
qed

lemma u_minus_val: "u_val (u_minus a k) = (u_val a + 2 ^ 128 - unat k) mod 2 ^ 128"
proof (cases "u_lo a < k")
  case True
  then have lt: "unat (u_lo a) < unat k" by (simp add: word_less_nat_alt)
  have lo: "unat (u_lo a - k) = unat (u_lo a) + 2 ^ 64 - unat k"
    using lt u64_bound[of k] by (simp add: unat_sub_if')
  have "unat (u_hi a - 1) = (unat (u_hi a) + (2 ^ 64 - 1)) mod 2 ^ 64"
    using u64_bound[of "u_hi a"] by (auto simp: unat_sub_if' mod_if)
  then have "u_val (u_minus a k) = (2 ^ 64 * (unat (u_hi a) + (2 ^ 64 - 1)) + unat (u_lo a - k)) mod 2 ^ 128"
    using True unfolding u_minus_def by (simp only: if_True u_val_high)
  also have "2 ^ 64 * (unat (u_hi a) + (2 ^ 64 - 1)) + unat (u_lo a - k) = u_val a + 2 ^ 128 - unat k"
    using lt u64_bound[of k] unfolding lo by (simp add: u_val_def)
  finally show ?thesis .
next
  case False
  then have le: "unat k \<le> unat (u_lo a)" by (simp add: word_less_nat_alt)
  then have "unat (u_lo a - k) = unat (u_lo a) - unat k" by (simp add: unat_sub_if')
  then have "u_val (u_minus a k) = u_val a - unat k" using False le by (simp add: u_minus_def u_val_def)
  also have "\<dots> = (u_val a - unat k + 2 ^ 128) mod 2 ^ 128"
    using u_val_bound[of a] by simp
  also have "u_val a - unat k + 2 ^ 128 = u_val a + 2 ^ 128 - unat k" using le by (simp add: u_val_def)
  finally show ?thesis .
qed

text \<open>The halves of a 64-bit word, and the product of two halves.\<close>

lemma unat_low_half: "unat (x AND 0xFFFFFFFF :: u64) = unat x mod 2 ^ 32"
proof -
  have "x AND 0xFFFFFFFF = take_bit 32 x" unfolding take_bit_eq_mask by (simp add: mask_numeral)
  then have "unat (x AND 0xFFFFFFFF) = take_bit 32 (unat x)" by (simp only: unsigned_take_bit_eq)
  then show ?thesis by (simp only: take_bit_eq_mod)
qed

lemma half_less: "unat (drop_bit 32 x :: u64) < 2 ^ 32" "unat (x AND 0xFFFFFFFF :: u64) < 2 ^ 32"
  using u64_bound[of x] by (simp_all only: unat_drop_bit unat_low_half) (simp_all add: less_mult_imp_div_less)

lemma unat_times_halves:
  fixes a b :: u64
  assumes "unat a < 2 ^ 32" "unat b < 2 ^ 32"
  shows "unat (a * b) = unat a * unat b" "unat a * unat b \<le> (2 ^ 32 - 1) * (2 ^ 32 - 1)"
proof -
  show le: "unat a * unat b \<le> (2 ^ 32 - 1) * (2 ^ 32 - 1)" using assms by (intro mult_le_mono) simp_all
  show "unat (a * b) = unat a * unat b" by (rule unat_times_exact) (use le in simp)
qed

lemma unat_push_32: "unat (push_bit 32 x :: u64) = 2 ^ 32 * (unat x mod 2 ^ 32)"
proof -
  have "unat (push_bit 32 x) = 2 ^ 32 * unat x mod (2 ^ 32 * 2 ^ 32)"
    unfolding unsigned_push_bit_eq by (simp add: take_bit_eq_mod push_bit_eq_mult mult.commute)
  then show ?thesis by (simp only: mult_mod_right)
qed

lemma umul128_val: "u_val (umul128 x y) = unat x * unat y"
proof -
  let ?a = "drop_bit 32 x" and ?b = "x AND 0xFFFFFFFF" and ?c = "drop_bit 32 y" and ?d = "y AND 0xFFFFFFFF"
  note h = half_less[of x] half_less[of y]
  have p: "unat (?a * ?c) = unat ?a * unat ?c" "unat (?b * ?c) = unat ?b * unat ?c"
    "unat (?a * ?d) = unat ?a * unat ?d" "unat (?b * ?d) = unat ?b * unat ?d"
    using unat_times_halves(1) h by blast+
  define ad where "ad = ?a * ?d"
  define bc where "bc = ?b * ?c"
  define bd where "bd = ?b * ?d"
  define i where "i = drop_bit 32 bd + (ad AND 0xFFFFFFFF) + (bc AND 0xFFFFFFFF)"
  have i: "unat i = unat bd div 2 ^ 32 + unat ad mod 2 ^ 32 + unat bc mod 2 ^ 32"
  proof -
    note l = half_less(1)[of bd] half_less(2)[of ad] half_less(2)[of bc]
    have "unat (drop_bit 32 bd + (ad AND 0xFFFFFFFF)) = unat (drop_bit 32 bd) + unat (ad AND 0xFFFFFFFF)"
      by (rule unat_plus_exact) (use l in simp)
    then have "unat i = unat (drop_bit 32 bd) + unat (ad AND 0xFFFFFFFF) + unat (bc AND 0xFFFFFFFF)"
      unfolding i_def by (subst unat_plus_exact) (use l in simp_all)
    then show ?thesis by (simp only: unat_drop_bit unat_low_half)
  qed
  have lo: "unat (push_bit 32 i + (bd AND 0xFFFFFFFF)) = 2 ^ 32 * (unat i mod 2 ^ 32) + unat bd mod 2 ^ 32"
  proof -
    have "2 ^ 32 * (unat i mod 2 ^ 32) + unat bd mod 2 ^ 32 < 2 ^ 32 * (unat i mod 2 ^ 32 + 1)" by simp
    also have "\<dots> \<le> 2 ^ 32 * 2 ^ 32" by (intro mult_le_mono2) (simp add: Suc_le_eq)
    finally show ?thesis by (subst unat_plus_exact) (simp_all only: unat_push_32 unat_low_half, simp_all)
  qed
  let ?h = "unat ?a * unat ?c + unat i div 2 ^ 32 + unat ad div 2 ^ 32 + unat bc div 2 ^ 32"
  have hi: "unat (?a * ?c + drop_bit 32 i + drop_bit 32 ad + drop_bit 32 bc) = ?h mod 2 ^ 64"
    by (simp add: unat_word_ariths mod_simps p(1) unat_drop_bit)
  have "u_val (umul128 x y) = (2 ^ 64 * ?h + (2 ^ 32 * (unat i mod 2 ^ 32) + unat bd mod 2 ^ 32)) mod 2 ^ 128"
    using u_val_high[OF hi, of "push_bit 32 i + (bd AND 0xFFFFFFFF)"] lo
    unfolding umul128_def Let_def ad_def[symmetric] bc_def[symmetric] bd_def[symmetric] i_def[symmetric] by simp
  also have "2 ^ 64 * ?h + (2 ^ 32 * (unat i mod 2 ^ 32) + unat bd mod 2 ^ 32) = unat x * unat y"
  proof -
    have gather: "2 ^ 64 * (m + q + r + s) + (2 ^ 32 * t + u) = 2 ^ 64 * m + 2 ^ 32 * (2 ^ 32 * q + t) + 2 ^ 64 * (r + s) + u"
      for m q r s t u :: nat by (simp add: distrib_left)
    have spread: "2 ^ 64 * m + 2 ^ 32 * (q + r + s) + 2 ^ 64 * (t + u) + v =
        2 ^ 64 * m + 2 ^ 32 * (2 ^ 32 * t + r) + 2 ^ 32 * (2 ^ 32 * u + s) + (2 ^ 32 * q + v)"
      for m q r s t u v :: nat by (simp add: distrib_left)
    have parts: "2 ^ 32 * (m div 2 ^ 32) + m mod 2 ^ 32 = m" for m :: nat by (rule mult_div_mod_eq)
    have "2 ^ 64 * ?h + (2 ^ 32 * (unat i mod 2 ^ 32) + unat bd mod 2 ^ 32) =
        2 ^ 64 * (unat ?a * unat ?c) + 2 ^ 32 * (2 ^ 32 * (unat i div 2 ^ 32) + unat i mod 2 ^ 32) +
        2 ^ 64 * (unat ad div 2 ^ 32 + unat bc div 2 ^ 32) + unat bd mod 2 ^ 32"
      by (rule gather)
    also have "\<dots> = 2 ^ 64 * (unat ?a * unat ?c) + 2 ^ 32 * (2 ^ 32 * (unat ad div 2 ^ 32) + unat ad mod 2 ^ 32) +
        2 ^ 32 * (2 ^ 32 * (unat bc div 2 ^ 32) + unat bc mod 2 ^ 32) + (2 ^ 32 * (unat bd div 2 ^ 32) + unat bd mod 2 ^ 32)"
      unfolding parts[of "unat i"] unfolding i by (rule spread)
    also have "\<dots> = (2 ^ 32 * unat ?a + unat ?b) * (2 ^ 32 * unat ?c + unat ?d)"
      unfolding parts ad_def bc_def bd_def p by (simp add: algebra_simps)
    also have "\<dots> = unat x * unat y" unfolding unat_drop_bit unat_low_half parts ..
    finally show ?thesis .
  qed
  also have "unat x * unat y mod 2 ^ 128 = unat x * unat y"
  proof -
    have "unat x * unat y < 2 ^ 64 * 2 ^ 64" by (rule mult_strict_mono) (use u64_bound[of x] u64_bound[of y] in simp_all)
    then show ?thesis by simp
  qed
  finally show ?thesis .
qed

lemma umul128_halves: "unat (u_hi (umul128 x y)) = unat x * unat y div 2 ^ 64" "unat (u_lo (umul128 x y)) = unat x * unat y mod 2 ^ 64"
  unfolding umul128_val[of x y, symmetric] u_val_def using u64_bound[of "u_lo (umul128 x y)"] by simp_all

lemma umul192_upper128_val: "u_val (umul192_upper128 x y) = unat x * u_val y div 2 ^ 64"
proof -
  have t: "unat x * u_val y = 2 ^ 64 * (unat x * unat (u_hi y)) + unat x * unat (u_lo y)"
    by (simp add: u_val_def distrib_left)
  have "u_val (umul192_upper128 x y) = (unat x * unat (u_hi y) + unat x * unat (u_lo y) div 2 ^ 64) mod 2 ^ 128"
    by (simp only: umul192_upper128_def u_add64_val umul128_val umul128_upper64_def umul128_halves)
  also have "unat x * unat (u_hi y) + unat x * unat (u_lo y) div 2 ^ 64 = unat x * u_val y div 2 ^ 64"
    unfolding t by simp
  also have "unat x * u_val y div 2 ^ 64 < 2 ^ 128"
  proof (rule less_mult_imp_div_less)
    have "unat x * u_val y < 2 ^ 64 * 2 ^ 128"
      by (rule mult_strict_mono) (use u64_bound[of x] u_val_bound[of y] in simp_all)
    then show "unat x * u_val y < 2 ^ 128 * 2 ^ 64" by simp
  qed
  then have "unat x * u_val y div 2 ^ 64 mod 2 ^ 128 = unat x * u_val y div 2 ^ 64" by (rule mod_less)
  finally show ?thesis .
qed

lemma umul192_lower128_val: "u_val (umul192_lower128 x y) = unat x * u_val y mod 2 ^ 128"
proof -
  have "unat (x * u_hi y + u_hi (umul128 x (u_lo y))) = (unat x * unat (u_hi y) + unat x * unat (u_lo y) div 2 ^ 64) mod 2 ^ 64"
    by (simp add: unat_word_ariths mod_simps umul128_halves)
  then have "u_val (umul192_lower128 x y) =
      (2 ^ 64 * (unat x * unat (u_hi y) + unat x * unat (u_lo y) div 2 ^ 64) + unat x * unat (u_lo y) mod 2 ^ 64) mod 2 ^ 128"
    unfolding umul192_lower128_def Let_def by (simp only: u_val_high umul128_halves)
  also have "2 ^ 64 * (unat x * unat (u_hi y) + unat x * unat (u_lo y) div 2 ^ 64) + unat x * unat (u_lo y) mod 2 ^ 64 =
      2 ^ 64 * (unat x * unat (u_hi y)) + unat x * unat (u_lo y)"
    unfolding distrib_left add.assoc mult_div_mod_eq ..
  also have "\<dots> = unat x * u_val y" by (simp add: u_val_def distrib_left)
  finally show ?thesis .
qed

lemma umul96_upper64_val: "unat (umul96_upper64 x y) = unat x * unat y div 2 ^ 32"
proof -
  have "unat (push_bit 32 (ucast x) :: u64) = 2 ^ 32 * unat x"
    using u32_bound[of x] by (simp only: unat_push_32) (simp add: unat_up)
  then have "unat (umul96_upper64 x y) = 2 ^ 32 * (unat x * unat y) div (2 ^ 32 * 2 ^ 32)"
    unfolding umul96_upper64_def umul128_upper64_def umul128_halves by simp
  then show ?thesis by (simp only: div_mult_mult1_if) simp
qed

lemma u_times32_val:
  assumes "u_hi a = 0"
  shows "\<exists>r. u_times32 a k = Some r \<and> u_val r = u_val a * unat k"
proof -
  let ?k = "ucast k :: u64"
  define hi where "hi = drop_bit 32 (u_lo a) * ?k"
  define lo where "lo = (u_lo a AND 0xFFFFFFFF) * ?k"
  have k: "unat ?k = unat k" "unat ?k < 2 ^ 32" using u32_bound[of k] by (simp_all add: unat_up)
  have v: "unat hi = unat (u_lo a) div 2 ^ 32 * unat k" "unat lo = unat (u_lo a) mod 2 ^ 32 * unat k"
    unfolding hi_def lo_def unat_times_halves(1)[OF half_less(1) k(2)] unat_times_halves(1)[OF half_less(2) k(2)]
    by (simp_all only: unat_drop_bit unat_low_half k(1))
  have r: "u_times32 a k = Some (uint128 (drop_bit 32 hi + (if push_bit 32 hi + lo < lo then 1 else 0)) (push_bit 32 hi + lo))"
    using assms by (simp add: u_times32_def Let_def hi_def lo_def)
  let ?c = "if push_bit 32 hi + lo < lo then 1 else 0 :: nat"
  have h: "unat (drop_bit 32 hi + (if push_bit 32 hi + lo < lo then 1 else 0)) = (unat hi div 2 ^ 32 + ?c) mod 2 ^ 64"
    by (simp add: unat_word_ariths unat_drop_bit)
  have "2 ^ 64 * (unat hi div 2 ^ 32 + ?c) + unat (push_bit 32 hi + lo) =
      2 ^ 32 * (2 ^ 32 * (unat hi div 2 ^ 32) + unat hi mod 2 ^ 32) + unat lo"
  proof -
    have "2 ^ 64 * (q + c) + u = 2 ^ 32 * (2 ^ 32 * q + t) + l" if "u + 2 ^ 64 * c = 2 ^ 32 * t + l"
      for q c u t l :: nat using that by (simp add: distrib_left)
    then show ?thesis using carry_exact(1)[of "push_bit 32 hi" lo] unfolding unat_push_32 by blast
  qed
  also have "\<dots> = unat (u_lo a) * unat k"
  proof -
    have "2 ^ 32 * (p * k) + q * k = (2 ^ 32 * p + q) * k" for p q k :: nat by (simp add: distrib_right)
    then show ?thesis unfolding mult_div_mod_eq v by simp
  qed
  finally have "u_val (uint128 (drop_bit 32 hi + (if push_bit 32 hi + lo < lo then 1 else 0)) (push_bit 32 hi + lo)) =
      unat (u_lo a) * unat k mod 2 ^ 128" using u_val_high[OF h, of "push_bit 32 hi + lo"] by simp
  moreover have "unat (u_lo a) * unat k < 2 ^ 64 * 2 ^ 32"
    by (rule mult_strict_mono) (use u64_bound[of "u_lo a"] u32_bound[of k] in simp_all)
  ultimately show ?thesis using assms r by (simp add: u_val_def)
qed

lemma no_bit_64: "64 \<le> i \<Longrightarrow> \<not> bit (w :: u64) i"
  using bit_imp_le_length[of w i] by auto

lemma shr_halves:
  assumes "0 < k" "k < 64"
  shows "u_word (uint128 (drop_bit k hi) (push_bit (64 - k) hi OR drop_bit k lo)) = drop_bit k (u_word (uint128 hi lo))"
proof (rule bit_word_eqI)
  fix i assume "i < LENGTH(128)"
  consider "k + i < 64" | "i < 64" "64 \<le> k + i" | "64 \<le> i" by linarith
  then show "bit (u_word (uint128 (drop_bit k hi) (push_bit (64 - k) hi OR drop_bit k lo))) i =
      bit (drop_bit k (u_word (uint128 hi lo))) i"
  proof cases
    case 1
    then have "\<not> 64 - k \<le> i" by simp
    then show ?thesis using assms 1 by (simp add: bit_u_word bit_simps)
  next
    case 2
    then have "i - (64 - k) = k + i - 64" "64 - k \<le> i" using assms by simp_all
    then show ?thesis using assms 2 no_bit_64[of "k + i" lo] by (simp add: bit_u_word bit_simps)
  next
    case 3
    then have "k + (i - 64) = k + i - 64" by simp
    moreover have "k + i < 128 \<or> \<not> bit hi (k + i - 64)" using no_bit_64[of "k + i - 64" hi] by linarith
    ultimately show ?thesis using 3 \<open>i < LENGTH(128)\<close> by (auto simp: bit_u_word bit_simps)
  qed
qed

lemma shl_halves:
  assumes "0 < k" "k < 64"
  shows "u_word (uint128 (push_bit k hi OR drop_bit (64 - k) lo) (push_bit k lo)) = push_bit k (u_word (uint128 hi lo))"
proof (rule bit_word_eqI)
  fix i assume i: "i < LENGTH(128)"
  consider "i < 64" | "64 \<le> i" "i < 64 + k" | "64 + k \<le> i" by linarith
  then show "bit (u_word (uint128 (push_bit k hi OR drop_bit (64 - k) lo) (push_bit k lo))) i =
      bit (push_bit k (u_word (uint128 hi lo))) i"
  proof cases
    case 1
    then show ?thesis using assms by (auto simp: bit_u_word bit_simps)
  next
    case 2
    then have "64 - k + (i - 64) = i - k" "\<not> k \<le> i - 64" "i - k < 64" using assms by simp_all
    then show ?thesis using assms 2 i by (simp add: bit_u_word bit_simps)
  next
    case 3
    then have "i - 64 - k = i - k - 64" "k \<le> i - 64" "\<not> i - k < 64" "i - k < 128" "i - 64 < 64" using i by simp_all
    moreover have "\<not> bit lo (64 - k + (i - 64))" by (rule no_bit_64) (use 3 assms in simp)
    ultimately show ?thesis using 3 assms i by (simp add: bit_u_word bit_simps)
  qed
qed

lemma halves_64:
  "u_word (uint128 0 (u_hi n)) = drop_bit 64 (u_word n)" "u_word (uint128 (u_lo n) 0) = push_bit 64 (u_word n)"
  by (auto intro!: bit_word_eqI simp: bit_u_word bit_simps no_bit_64 split: if_splits)

lemma u_shr_word: "0 < k \<Longrightarrow> \<exists>r. u_shr n k = Some r \<and> u_word r = drop_bit k (u_word n)"
proof (induction n k rule: u_shr.induct)
  case (1 n k)
  consider "k = 64" | "64 < k" | "k < 64" by linarith
  then show ?case
  proof cases
    case 1
    then show ?thesis by (subst u_shr.simps) (simp add: halves_64)
  next
    case 2
    with "1.IH" obtain r where "u_shr (uint128 0 (u_hi n)) (k - 64) = Some r"
      "u_word r = drop_bit (k - 64) (drop_bit 64 (u_word n))" by (auto simp: halves_64)
    then show ?thesis using 2 by (subst u_shr.simps) simp
  next
    case 3
    then show ?thesis using "1.prems" shr_halves[where k = k and hi = "u_hi n" and lo = "u_lo n"] by (subst u_shr.simps) (cases n, simp)
  qed
qed

lemma u_shl_word: "0 < k \<Longrightarrow> \<exists>r. u_shl n k = Some r \<and> u_word r = push_bit k (u_word n)"
proof (induction n k rule: u_shl.induct)
  case (1 n k)
  consider "k = 64" | "64 < k" | "k < 64" by linarith
  then show ?case
  proof cases
    case 1
    then show ?thesis by (subst u_shl.simps) (simp add: halves_64)
  next
    case 2
    with "1.IH" obtain r where "u_shl (uint128 (u_lo n) 0) (k - 64) = Some r"
      "u_word r = push_bit (k - 64) (push_bit 64 (u_word n))" by (auto simp: halves_64)
    then show ?thesis using 2 by (subst u_shl.simps) simp
  next
    case 3
    then show ?thesis using "1.prems" shl_halves[where k = k and hi = "u_hi n" and lo = "u_lo n"] by (subst u_shl.simps) (cases n, simp)
  qed
qed

section \<open>Agreement with 128-bit words\<close>

lemma unat_mod_128: "unat (w :: 128 word) = m mod 2 ^ 128 \<longleftrightarrow> w = of_nat m"
proof -
  have "unat (of_nat m :: 128 word) = m mod 2 ^ 128" by (simp add: unat_of_nat)
  then show ?thesis by (metis word_unat_eq_iff)
qed

lemma of_nat_u_val: "of_nat (u_val n) = u_word n"
  by (simp flip: unat_u_word)

lemma of_nat_unat_ucast: "(of_nat (unat w) :: 128 word) = ucast w" for w :: "'a::len word"
  by simp

lemma u_gr_word: "u_gr a b \<longleftrightarrow> u_word a > u_word b"
proof -
  have "u_gr a b \<longleftrightarrow> u_val a > u_val b"
  proof (cases "u_hi a = u_hi b")
    case True
    then show ?thesis by (simp add: u_gr_def u_val_def word_less_nat_alt)
  next
    case False
    have hi: "u_val p > u_val q" if "unat (u_hi p) > unat (u_hi q)" for p q :: uint128
    proof -
      have "u_val q < 2 ^ 64 * (unat (u_hi q) + 1)" using u64_bound[of "u_lo q"] by (simp add: u_val_def)
      also have "\<dots> \<le> 2 ^ 64 * unat (u_hi p)" using that by (intro mult_le_mono2) simp
      finally show ?thesis by (simp add: u_val_def)
    qed
    have "unat (u_hi a) \<noteq> unat (u_hi b)" using False by (simp add: word_unat_eq_iff)
    then consider "unat (u_hi a) > unat (u_hi b)" | "unat (u_hi a) < unat (u_hi b)" by linarith
    then show ?thesis using False hi[of b a] hi[of a b] by cases (auto simp: u_gr_def word_less_nat_alt)
  qed
  then show ?thesis by (simp add: word_less_nat_alt unat_u_word)
qed

lemma u_eq_word: "u_eq a b \<longleftrightarrow> u_word a = u_word b"
proof -
  have h: "u_hi n = ucast (drop_bit 64 (u_word n))" "u_lo n = ucast (u_word n)" for n
    by (auto intro!: bit_word_eqI simp: bit_u_word bit_simps)
  have "u_word a = u_word b \<Longrightarrow> u_eq a b" unfolding u_eq_def using h[of a] h[of b] by simp
  moreover have "u_eq a b \<Longrightarrow> u_word a = u_word b" unfolding u_eq_def u_word_def by simp
  ultimately show ?thesis by blast
qed

text \<open>C20: The class that stands for 128-bit integers agrees with them: comparison, the bitwise operations, sums,
  differences, the product with 32 bits and the shifts, put together from 64-bit halves with carries and
  borrows, are those of 128-bit words, and the assertions hold when the numbers fit: a sum below \<open>2 ^ 128\<close>, an addend of 64 bits, and a
  shift by at least one, as the operators that shift take them.
\<close>

theorem uint128_agrees:
  assumes "0 < s" "u_hi c = 0" "u_val a + u_val b < 2 ^ 128"
  shows "u_eq a b = (u_word a = u_word b) \<and> u_gr a b = (u_word a > u_word b) \<and>
    u_word (u_or a b) = u_word a OR u_word b \<and> u_word (u_and a b) = u_word a AND u_word b \<and> u_word (u_not a) = NOT (u_word a) \<and>
    map_option u_word (u_add a b) = Some (u_word a + u_word b) \<and> u_word (u_add64 a k) = u_word a + ucast k \<and>
    u_word (u_minus a k) = u_word a - ucast k \<and> map_option u_word (u_times32 c m) = Some (u_word c * ucast m) \<and>
    map_option u_word (u_shr a s) = Some (drop_bit s (u_word a)) \<and> map_option u_word (u_shl a s) = Some (push_bit s (u_word a))"
proof (intro conjI)
  show "u_word (u_or a b) = u_word a OR u_word b" "u_word (u_and a b) = u_word a AND u_word b" "u_word (u_not a) = NOT (u_word a)"
    by (auto intro!: bit_word_eqI simp: bit_u_word bit_simps u_or_def u_and_def u_not_def)
  obtain r where r: "u_add a b = Some r" using u_add_total[OF assms(3)] by blast
  have "unat (u_word r) = (u_val a + u_val b) mod 2 ^ 128" unfolding unat_u_word by (rule u_add_val[OF r])
  then show "map_option u_word (u_add a b) = Some (u_word a + u_word b)" unfolding unat_mod_128 r by (simp add: of_nat_u_val)
  have "unat (u_word (u_add64 a k)) = (u_val a + unat k) mod 2 ^ 128" unfolding unat_u_word by (rule u_add64_val)
  then show "u_word (u_add64 a k) = u_word a + ucast k" unfolding unat_mod_128 by (simp add: of_nat_u_val)
  have "unat (u_word (u_minus a k)) = (u_val a + 2 ^ 128 - unat k) mod 2 ^ 128" unfolding unat_u_word by (rule u_minus_val)
  then have "u_word (u_minus a k) = of_nat (u_val a + 2 ^ 128 - unat k)" unfolding unat_mod_128 .
  also have "\<dots> = u_word a - ucast k" using u64_bound[of k] by (subst of_nat_diff) (simp_all add: of_nat_u_val)
  finally show "u_word (u_minus a k) = u_word a - ucast k" .
  obtain t where t: "u_times32 c m = Some t" "u_val t = u_val c * unat m" using u_times32_val[OF assms(2)] by blast
  have "unat (u_word t) = u_val c * unat m mod 2 ^ 128" using u_val_bound[of t] by (simp add: unat_u_word flip: t(2))
  then show "map_option u_word (u_times32 c m) = Some (u_word c * ucast m)" unfolding unat_mod_128 t(1) by (simp add: of_nat_u_val)
  show "map_option u_word (u_shr a s) = Some (drop_bit s (u_word a))" using u_shr_word[OF assms(1), of a] by auto
  show "map_option u_word (u_shl a s) = Some (push_bit s (u_word a))" using u_shl_word[OF assms(1), of a] by auto
qed (rule u_eq_word u_gr_word)+

theorem uint128_agrees_witness:
  "map_option u_word (u_add (uint128 1 0xFFFFFFFFFFFFFFFF) (uint128 2 1)) = Some (push_bit 66 1) \<and>
   map_option u_word (u_shr (uint128 1 0xFFFFFFFFFFFFFFFF) 64) = Some 1"
proof -
  have "u_word (uint128 1 0xFFFFFFFFFFFFFFFF) + u_word (uint128 2 1) = push_bit 66 1" "drop_bit 64 (u_word (uint128 1 0xFFFFFFFFFFFFFFFF)) = 1"
    by (simp_all add: u_word_def word_cat_eq)
  then show ?thesis using uint128_agrees[of 64 "uint128 0 3" "uint128 1 0xFFFFFFFFFFFFFFFF" "uint128 2 1" 0 1] by (simp add: u_val_def)
qed

text \<open>The assertion of the sum lets an overflow by a whole high half through.\<close>

lemma u_add_overflow: "u_add (uint128 0 0xFFFFFFFFFFFFFFFF) (uint128 0xFFFFFFFFFFFFFFFF 1) = Some (uint128 0 0)"
  by (simp add: u_add_def Let_def)

text \<open>C21: The wide products, put together from 32-bit halves, are exact: the 128 bits of the product of 64-bit numbers,
  and the upper and the lower bits of the longer ones.
\<close>

theorem wide_products:
  "u_word (umul128 x y) = ucast x * ucast y \<and> unat (umul128_upper64 x y) = unat x * unat y div 2 ^ 64 \<and>
   unat (umul96_upper64 z y) = unat z * unat y div 2 ^ 32 \<and> umul96_lower64 z y = of_nat (unat z * unat y) \<and>
   u_val (umul192_upper128 x n) = unat x * u_val n div 2 ^ 64 \<and> u_val (umul192_lower128 x n) = unat x * u_val n mod 2 ^ 128"
proof (intro conjI)
  have "unat (u_word (umul128 x y)) = unat x * unat y mod 2 ^ 128"
    using u_val_bound[of "umul128 x y"] by (simp add: unat_u_word umul128_val)
  then show "u_word (umul128 x y) = ucast x * ucast y" unfolding unat_mod_128 by simp
  show "unat (umul128_upper64 x y) = unat x * unat y div 2 ^ 64" by (simp only: umul128_upper64_def umul128_halves)
  show "umul96_lower64 z y = of_nat (unat z * unat y)" by (simp add: umul96_lower64_def)
qed (rule umul96_upper64_val umul192_upper128_val umul192_lower128_val)+

end
