(* ===== verification/Fmt_Dragonbox.thy ===== *)
theory Fmt_Dragonbox
  imports Fmt_Uint128
begin

text \<open>
  \<open>fmt/format-inl.h\<close> and \<open>fmt/format.h\<close>, namespace \<open>dragonbox\<close>: the shortest decimal representation of
  a \<open>float\<close> or a \<open>double\<close> by the Dragonbox algorithm, with its cached powers of ten, its divisions by
  multiplication and the removal of trailing zeros.
\<close>

section \<open>Logarithms and rotation\<close>

text \<open>The functions assert a range of their argument.  The definitions leave the assertions out; the
  lemma after them shows that they hold for every exponent of a \<open>float\<close> or a \<open>double\<close>, for the powers of
  ten computed from it, and for the powers of the table and its bases.\<close>

definition floor_log10_pow2 :: "int \<Rightarrow> int" where
  "floor_log10_pow2 e = e * 315653 div 2 ^ 20"

definition floor_log2_pow10 :: "int \<Rightarrow> int" where
  "floor_log2_pow10 e = e * 1741647 div 2 ^ 19"

definition floor_log10_pow2_minus_log10_4_over_3 :: "int \<Rightarrow> int" where
  "floor_log10_pow2_minus_log10_4_over_3 e = (e * 631305 - 261663) div 2 ^ 21"

lemma log_asserts:
  assumes "-1074 \<le> e" "e \<le> 971" "0 \<le> kap" "kap \<le> 2"
  shows "\<bar>e\<bar> \<le> 2620" "-2985 \<le> e \<and> e \<le> 2936" "\<bar>kap - floor_log10_pow2 e\<bar> \<le> 1233"
    "\<bar>- floor_log10_pow2_minus_log10_4_over_3 e\<bar> \<le> 1233"
proof -
  have a: "-1074 * 315653 div 2 ^ 20 \<le> floor_log10_pow2 e" "floor_log10_pow2 e \<le> 971 * 315653 div 2 ^ 20"
    unfolding floor_log10_pow2_def using assms by (auto intro: zdiv_mono1)
  have b: "(-1074 * 631305 - 261663) div 2 ^ 21 \<le> floor_log10_pow2_minus_log10_4_over_3 e"
    "floor_log10_pow2_minus_log10_4_over_3 e \<le> (971 * 631305 - 261663) div 2 ^ 21"
    unfolding floor_log10_pow2_minus_log10_4_over_3_def using assms by (auto intro: zdiv_mono1)
  show "\<bar>e\<bar> \<le> 2620" "-2985 \<le> e \<and> e \<le> 2936" "\<bar>kap - floor_log10_pow2 e\<bar> \<le> 1233"
    "\<bar>- floor_log10_pow2_minus_log10_4_over_3 e\<bar> \<le> 1233" using assms a b by simp_all
qed

definition rotr :: "'a::len word \<Rightarrow> nat \<Rightarrow> 'a word" where
  "rotr n r = (let r = r mod LENGTH('a) in drop_bit r n OR push_bit (LENGTH('a) - r) n)"

section \<open>Division by multiplication\<close>

text \<open>\<open>div_small_pow10_infos\<close>: the divisor and the shift for \<open>N\<close> from 1.\<close>

definition small_pow10_divisor :: "nat \<Rightarrow> u32" where
  "small_pow10_divisor N = (if N = 1 then 10 else 100)"

definition small_pow10_magic :: "nat \<Rightarrow> u32" where
  "small_pow10_magic N = push_bit 16 1 div small_pow10_divisor N + 1"

text \<open>\<open>None\<close> is the assertion.\<close>

definition check_divisibility_and_divide_by_pow10 :: "nat \<Rightarrow> u32 \<Rightarrow> (u32 \<times> bool) option" where
  "check_divisibility_and_divide_by_pow10 N n =
     (if n \<le> small_pow10_divisor N * 10 then
        let n = n * small_pow10_magic N; comparison_mask = push_bit 16 1 - 1
        in Some (drop_bit 16 n, n AND comparison_mask < small_pow10_magic N)
      else None)"

definition small_division_by_pow10 :: "nat \<Rightarrow> u32 \<Rightarrow> u32 option" where
  "small_division_by_pow10 N n =
     (if n \<le> small_pow10_divisor N * 10 then Some (drop_bit 16 (n * small_pow10_magic N)) else None)"

definition divide_by_100 :: "u32 \<Rightarrow> u32" where
  "divide_by_100 n = ucast (drop_bit 37 ((ucast n :: u64) * 1374389535))"

definition divide_by_1000 :: "u64 \<Rightarrow> u64" where
  "divide_by_1000 n = drop_bit 7 (umul128_upper64 n 2361183241434822607)"

section \<open>Trailing zeros\<close>

text \<open>Two at a time, with the inverse of 25; nothing but the number ends the loop, and zero does not.\<close>

partial_function (option) zeros_loop :: "'a::len word \<Rightarrow> 'a word \<Rightarrow> int \<Rightarrow> ('a word \<times> int) option" where
  "zeros_loop mod_inv_25 n s =
     (let q = rotr (n * mod_inv_25) 2
      in if q > - 1 div 100 then Some (n, s) else zeros_loop mod_inv_25 q (s + 2))"

declare zeros_loop.simps [code]

text \<open>The last one.  \<open>s |= 1\<close> on a number of zeros that is even.\<close>

definition last_zero :: "'a::len word \<Rightarrow> 'a word \<times> int \<Rightarrow> 'a word \<times> int" where
  "last_zero mod_inv_5 = (\<lambda>(n, s).
     let q = rotr (n * mod_inv_5) 1 in if q \<le> - 1 div 10 then (q, s OR 1) else (n, s))"

definition remove_trailing_zeros32 :: "u32 \<Rightarrow> int \<Rightarrow> (u32 \<times> int) option" where
  "remove_trailing_zeros32 n s = map_option (last_zero 0xcccccccd) (zeros_loop 0xc28f5c29 n s)"

definition remove_trailing_zeros64 :: "u64 \<Rightarrow> (u64 \<times> int) option" where
  "remove_trailing_zeros64 n =
     (let ten_pow_8 = 100000000
      in if n mod ten_pow_8 = 0
         then map_option (\<lambda>(n32, num_zeros). (ucast n32, num_zeros)) (remove_trailing_zeros32 (ucast (n div ten_pow_8)) 8)
         else map_option (last_zero 0xcccccccccccccccd) (zeros_loop 0x8f5c28f5c28f5c29 n 0))"

section \<open>The cached powers of ten\<close>

definition pow10_significands32 :: "u64 list" where
  "pow10_significands32 =
    [0x81ceb32c4b43fcf5, 0xa2425ff75e14fc32, 0xcad2f7f5359a3b3f, 0xfd87b5f28300ca0e, 0x9e74d1b791e07e49,
     0xc612062576589ddb, 0xf79687aed3eec552, 0x9abe14cd44753b53, 0xc16d9a0095928a28, 0xf1c90080baf72cb2,
     0x971da05074da7bef, 0xbce5086492111aeb, 0xec1e4a7db69561a6, 0x9392ee8e921d5d08, 0xb877aa3236a4b44a,
     0xe69594bec44de15c, 0x901d7cf73ab0acda, 0xb424dc35095cd810, 0xe12e13424bb40e14, 0x8cbccc096f5088cc,
     0xafebff0bcb24aaff, 0xdbe6fecebdedd5bf, 0x89705f4136b4a598, 0xabcc77118461cefd, 0xd6bf94d5e57a42bd,
     0x8637bd05af6c69b6, 0xa7c5ac471b478424, 0xd1b71758e219652c, 0x83126e978d4fdf3c, 0xa3d70a3d70a3d70b,
     0xcccccccccccccccd, 0x8000000000000000, 0xa000000000000000, 0xc800000000000000, 0xfa00000000000000,
     0x9c40000000000000, 0xc350000000000000, 0xf424000000000000, 0x9896800000000000, 0xbebc200000000000,
     0xee6b280000000000, 0x9502f90000000000, 0xba43b74000000000, 0xe8d4a51000000000, 0x9184e72a00000000,
     0xb5e620f480000000, 0xe35fa931a0000000, 0x8e1bc9bf04000000, 0xb1a2bc2ec5000000, 0xde0b6b3a76400000,
     0x8ac7230489e80000, 0xad78ebc5ac620000, 0xd8d726b7177a8000, 0x878678326eac9000, 0xa968163f0a57b400,
     0xd3c21bcecceda100, 0x84595161401484a0, 0xa56fa5b99019a5c8, 0xcecb8f27f4200f3a, 0x813f3978f8940985,
     0xa18f07d736b90be6, 0xc9f2c9cd04674edf, 0xfc6f7c4045812297, 0x9dc5ada82b70b59e, 0xc5371912364ce306,
     0xf684df56c3e01bc7, 0x9a130b963a6c115d, 0xc097ce7bc90715b4, 0xf0bdc21abb48db21, 0x96769950b50d88f5,
     0xbc143fa4e250eb32, 0xeb194f8e1ae525fe, 0x92efd1b8d0cf37bf, 0xb7abc627050305ae, 0xe596b7b0c643c71a,
     0x8f7e32ce7bea5c70, 0xb35dbf821ae4f38c, 0xe0352f62a19e306f]"

text \<open>Outside the table is the assertion.\<close>

definition get_cached_power32 :: "int \<Rightarrow> u64 option" where
  "get_cached_power32 k = (if - 31 \<le> k \<and> k \<le> 46 then Some (pow10_significands32 ! nat (k + 31)) else None)"

definition pow10_significands64 :: "uint128 list" where
  "pow10_significands64 =
    [uint128 0xff77b1fcbebcdc4f 0x25e8e89c13bb0f7b, uint128 0xce5d73ff402d98e3 0xfb0a3d212dc81290,
     uint128 0xa6b34ad8c9dfc06f 0xf42faa48c0ea481f, uint128 0x86a8d39ef77164bc 0xae5dff9c02033198,
     uint128 0xd98ddaee19068c76 0x3badd624dd9b0958, uint128 0xafbd2350644eeacf 0xe5d1929ef90898fb,
     uint128 0x8df5efabc5979c8f 0xca8d3ffa1ef463c2, uint128 0xe55990879ddcaabd 0xcc420a6a101d0516,
     uint128 0xb94470938fa89bce 0xf808e40e8d5b3e6a, uint128 0x95a8637627989aad 0xdde7001379a44aa9,
     uint128 0xf1c90080baf72cb1 0x5324c68b12dd6339, uint128 0xc350000000000000 0x0000000000000000,
     uint128 0x9dc5ada82b70b59d 0xf020000000000000, uint128 0xfee50b7025c36a08 0x02f236d04753d5b5,
     uint128 0xcde6fd5e09abcf26 0xed4c0226b55e6f87, uint128 0xa6539930bf6bff45 0x84db8346b786151d,
     uint128 0x865b86925b9bc5c2 0x0b8a2392ba45a9b3, uint128 0xd910f7ff28069da4 0x1b2ba1518094da05,
     uint128 0xaf58416654a6babb 0x387ac8d1970027b3, uint128 0x8da471a9de737e24 0x5ceaecfed289e5d3,
     uint128 0xe4d5e82392a40515 0x0fabaf3feaa5334b, uint128 0xb8da1662e7b00a17 0x3d6a751f3b936244,
     uint128 0x95527a5202df0ccb 0x0f37801e0c43ebc9, uint128 0xf13e34aabb430a15 0x647726b9e7c68ff0]"

definition powers_of_5_64 :: "u64 list" where
  "powers_of_5_64 =
    [0x0000000000000001, 0x0000000000000005, 0x0000000000000019, 0x000000000000007d,
     0x0000000000000271, 0x0000000000000c35, 0x0000000000003d09, 0x000000000001312d,
     0x000000000005f5e1, 0x00000000001dcd65, 0x00000000009502f9, 0x0000000002e90edd,
     0x000000000e8d4a51, 0x0000000048c27395, 0x000000016bcc41e9, 0x000000071afd498d,
     0x0000002386f26fc1, 0x000000b1a2bc2ec5, 0x000003782dace9d9, 0x00001158e460913d,
     0x000056bc75e2d631, 0x0001b1ae4d6e2ef5, 0x000878678326eac9, 0x002a5a058fc295ed,
     0x00d3c21bcecceda1, 0x0422ca8b0a00a425, 0x14adf4b7320334b9]"

text \<open>One power in 27 is stored; the others are that one times a power of five, shifted into place.\<close>

definition recover_power :: "uint128 \<Rightarrow> u64 \<Rightarrow> nat \<Rightarrow> uint128 option" where
  "recover_power base_cache pow5 alpha =
     (let recovered_cache = umul128 (u_hi base_cache) pow5;
          middle_low = umul128 (u_lo base_cache) pow5;
          recovered_cache = u_add64 recovered_cache (u_hi middle_low);
          high_to_middle = push_bit (64 - alpha) (u_hi recovered_cache);
          middle_to_low = push_bit (64 - alpha) (u_lo recovered_cache);
          recovered_cache = uint128 (drop_bit alpha (u_lo recovered_cache) OR high_to_middle)
            (drop_bit alpha (u_lo middle_low) OR middle_to_low)
      in if u_lo recovered_cache + 1 = 0 then None
         else Some (uint128 (u_hi recovered_cache) (u_lo recovered_cache + 1)))"

definition get_cached_power64 :: "int \<Rightarrow> uint128 option" where
  "get_cached_power64 k =
     (if - 292 \<le> k \<and> k \<le> 341 then
        let compression_ratio = 27;
            cache_index = (k + 292) div compression_ratio;
            kb = cache_index * compression_ratio - 292;
            offset = k - kb;
            base_cache = pow10_significands64 ! nat cache_index
        in if offset = 0 then Some base_cache
           else let alpha = floor_log2_pow10 (kb + offset) - floor_log2_pow10 kb - offset
                in if 0 < alpha \<and> alpha < 64
                   then recover_power base_cache (powers_of_5_64 ! nat offset) (nat alpha)
                   else None
      else None)"

section \<open>\<open>float_info\<close> and \<open>cache_accessor\<close>\<close>

text \<open>
  What the templates take from \<open>float_info<T>\<close>, \<open>std::numeric_limits<T>\<close> and \<open>cache_accessor<T>\<close>, and the overloads
  for the carrier \<open>'w\<close>; \<open>'c\<close> is a cache entry.
\<close>

record ('w, 'c) float_info =
  significand_bits :: nat
  exponent_bits :: nat
  exponent_bias :: int
  min_exponent :: int
  kappa :: nat
  big_divisor :: nat
  small_divisor :: nat
  tie_lower_threshold :: int
  tie_upper_threshold :: int
  get_cached_power :: "int \<Rightarrow> 'c option"
  compute_mul :: "'w \<Rightarrow> 'c \<Rightarrow> 'w \<times> bool"
  compute_delta :: "'c \<Rightarrow> int \<Rightarrow> u32"
  compute_mul_parity :: "'w \<Rightarrow> 'c \<Rightarrow> int \<Rightarrow> (bool \<times> bool) option"
  left_endpoint :: "'c \<Rightarrow> int \<Rightarrow> 'w"
  right_endpoint :: "'c \<Rightarrow> int \<Rightarrow> 'w"
  shorter_round_up :: "'c \<Rightarrow> int \<Rightarrow> 'w"
  divide_by_10_to_kappa_plus_1 :: "'w \<Rightarrow> 'w"
  remove_trailing_zeros :: "'w \<Rightarrow> ('w \<times> int) option"

definition compute_mul32 :: "u32 \<Rightarrow> u64 \<Rightarrow> u32 \<times> bool" where
  "compute_mul32 u cache = (let r = umul96_upper64 u cache in (ucast (drop_bit 32 r), (ucast r :: u32) = 0))"

definition compute_delta32 :: "u64 \<Rightarrow> int \<Rightarrow> u32" where
  "compute_delta32 cache beta = ucast (drop_bit (nat (64 - 1 - beta)) cache)"

text \<open>The assertions on \<open>beta\<close> are the \<open>None\<close> branch, and so is a shift by a negative number.\<close>

definition compute_mul_parity32 :: "u32 \<Rightarrow> u64 \<Rightarrow> int \<Rightarrow> (bool \<times> bool) option" where
  "compute_mul_parity32 two_f cache beta =
     (if 1 \<le> beta \<and> beta < 64 \<and> beta \<le> 32 then
        let r = umul96_lower64 two_f cache
        in Some (drop_bit (nat (64 - beta)) r AND 1 \<noteq> 0, (ucast (drop_bit (nat (32 - beta)) r) :: u32) = 0)
      else None)"

definition left_endpoint32 :: "u64 \<Rightarrow> int \<Rightarrow> u32" where
  "left_endpoint32 cache beta = ucast (drop_bit (nat (64 - 23 - 1 - beta)) (cache - drop_bit (23 + 2) cache))"

definition right_endpoint32 :: "u64 \<Rightarrow> int \<Rightarrow> u32" where
  "right_endpoint32 cache beta = ucast (drop_bit (nat (64 - 23 - 1 - beta)) (cache + drop_bit (23 + 1) cache))"

definition round_up32 :: "u64 \<Rightarrow> int \<Rightarrow> u32" where
  "round_up32 cache beta = (ucast (drop_bit (nat (64 - 23 - 2 - beta)) cache) + 1) div 2"

definition float32_info :: "(u32, u64) float_info" where
  "float32_info = \<lparr>significand_bits = 23, exponent_bits = 8, exponent_bias = 127, min_exponent = -125, kappa = 1,
     big_divisor = 100, small_divisor = 10, tie_lower_threshold = -35, tie_upper_threshold = -35,
     get_cached_power = get_cached_power32, compute_mul = compute_mul32, compute_delta = compute_delta32,
     compute_mul_parity = compute_mul_parity32, left_endpoint = left_endpoint32, right_endpoint = right_endpoint32,
     shorter_round_up = round_up32, divide_by_10_to_kappa_plus_1 = divide_by_100,
     remove_trailing_zeros = (\<lambda>n. remove_trailing_zeros32 n 0)\<rparr>"

definition compute_mul64 :: "u64 \<Rightarrow> uint128 \<Rightarrow> u64 \<times> bool" where
  "compute_mul64 u cache = (let r = umul192_upper128 u cache in (u_hi r, u_lo r = 0))"

definition compute_delta64 :: "uint128 \<Rightarrow> int \<Rightarrow> u32" where
  "compute_delta64 cache beta = ucast (drop_bit (nat (64 - 1 - beta)) (u_hi cache))"

definition compute_mul_parity64 :: "u64 \<Rightarrow> uint128 \<Rightarrow> int \<Rightarrow> (bool \<times> bool) option" where
  "compute_mul_parity64 two_f cache beta =
     (if 1 \<le> beta \<and> beta < 64 then
        let r = umul192_lower128 two_f cache
        in Some (drop_bit (nat (64 - beta)) (u_hi r) AND 1 \<noteq> 0,
                 push_bit (nat beta) (u_hi r) OR drop_bit (nat (64 - beta)) (u_lo r) = 0)
      else None)"

definition left_endpoint64 :: "uint128 \<Rightarrow> int \<Rightarrow> u64" where
  "left_endpoint64 cache beta = drop_bit (nat (64 - 52 - 1 - beta)) (u_hi cache - drop_bit (52 + 2) (u_hi cache))"

definition right_endpoint64 :: "uint128 \<Rightarrow> int \<Rightarrow> u64" where
  "right_endpoint64 cache beta = drop_bit (nat (64 - 52 - 1 - beta)) (u_hi cache + drop_bit (52 + 1) (u_hi cache))"

definition round_up64 :: "uint128 \<Rightarrow> int \<Rightarrow> u64" where
  "round_up64 cache beta = (drop_bit (nat (64 - 52 - 2 - beta)) (u_hi cache) + 1) div 2"

definition float64_info :: "(u64, uint128) float_info" where
  "float64_info = \<lparr>significand_bits = 52, exponent_bits = 11, exponent_bias = 1023, min_exponent = -1021, kappa = 2,
     big_divisor = 1000, small_divisor = 100, tie_lower_threshold = -77, tie_upper_threshold = -77,
     get_cached_power = get_cached_power64, compute_mul = compute_mul64, compute_delta = compute_delta64,
     compute_mul_parity = compute_mul_parity64, left_endpoint = left_endpoint64, right_endpoint = right_endpoint64,
     shorter_round_up = round_up64, divide_by_10_to_kappa_plus_1 = divide_by_1000,
     remove_trailing_zeros = remove_trailing_zeros64\<rparr>"

section \<open>The algorithm\<close>

type_synonym 'a decimal = "'a word \<times> int"

definition is_left_endpoint_integer_shorter_interval :: "int \<Rightarrow> bool" where
  "is_left_endpoint_integer_shorter_interval exponent = (exponent \<ge> 2 \<and> exponent \<le> 3)"

text \<open>The significand with its trailing zeros moved to the exponent.\<close>

definition without_zeros :: "('a::len word, 'c) float_info \<Rightarrow> 'a word \<Rightarrow> int \<Rightarrow> 'a decimal option" where
  "without_zeros fi sig e = map_option (\<lambda>(sig, zeros). (sig, e + zeros)) (remove_trailing_zeros fi sig)"

definition shorter_interval_case :: "('a::len word, 'c) float_info \<Rightarrow> int \<Rightarrow> 'a decimal option" where
  "shorter_interval_case fi exponent =
     (let minus_k = floor_log10_pow2_minus_log10_4_over_3 exponent;
          beta = exponent + floor_log2_pow10 (- minus_k)
      in case get_cached_power fi (- minus_k) of
           None \<Rightarrow> None
         | Some cache \<Rightarrow>
             let xi = left_endpoint fi cache beta;
                 zi = right_endpoint fi cache beta;
                 xi = (if \<not> is_left_endpoint_integer_shorter_interval exponent then xi + 1 else xi);
                 sig = zi div 10
             in if sig * 10 \<ge> xi then without_zeros fi sig (minus_k + 1)
                else let sig = shorter_round_up fi cache beta
                     in Some (if exponent \<ge> tie_lower_threshold fi \<and> exponent \<le> tie_upper_threshold fi
                              then (if sig mod 2 = 0 then sig else sig - 1)
                              else if sig < xi then sig + 1 else sig, minus_k))"

text \<open>Step 3, at the label \<open>small_divisor_case_label\<close>.\<close>

definition small_divisor_case ::
    "('a::len word, 'c) float_info \<Rightarrow> 'c \<Rightarrow> int \<Rightarrow> int \<Rightarrow> 'a word \<Rightarrow> u32 \<Rightarrow> 'a word \<Rightarrow> u32 \<Rightarrow> 'a decimal option" where
  "small_divisor_case fi cache beta minus_k two_fc deltai sig r =
     (let sig = sig * 10; e = minus_k + int (kappa fi);
          half = of_nat (small_divisor fi div 2);
          dist = r - deltai div 2 + half;
          approx_y_parity = (dist XOR half) AND 1 \<noteq> 0
      in case check_divisibility_and_divide_by_pow10 (kappa fi) dist of
           None \<Rightarrow> None
         | Some (dist, divisible_by_small_divisor) \<Rightarrow>
             let sig = sig + ucast dist
             in if \<not> divisible_by_small_divisor then Some (sig, e)
                else case compute_mul_parity fi two_fc cache beta of
                  None \<Rightarrow> None
                | Some (parity, is_integer) \<Rightarrow>
                    Some (if parity \<noteq> approx_y_parity then sig - 1
                          else if is_integer \<and> sig mod 2 \<noteq> 0 then sig - 1 else sig, e))"

text \<open>Steps 1 and 2 for a regular interval.\<close>

definition regular_case :: "('a::len word, 'c) float_info \<Rightarrow> 'a word \<Rightarrow> int \<Rightarrow> 'a decimal option" where
  "regular_case fi sig2 exponent =
     (let include_left_endpoint = (sig2 mod 2 = 0);
          include_right_endpoint = include_left_endpoint;
          minus_k = floor_log10_pow2 exponent - int (kappa fi)
      in case get_cached_power fi (- minus_k) of
           None \<Rightarrow> None
         | Some cache \<Rightarrow>
             let beta = exponent + floor_log2_pow10 (- minus_k);
                 deltai = compute_delta fi cache beta;
                 two_fc = push_bit 1 sig2;
                 (zi, z_is_integer) = compute_mul fi (push_bit (nat beta) (two_fc OR 1)) cache;
                 sig = divide_by_10_to_kappa_plus_1 fi zi;
                 r = ucast (zi - of_nat (big_divisor fi) * sig) :: u32;
                 small = small_divisor_case fi cache beta minus_k two_fc deltai;
                 big = (\<lambda>sig. without_zeros fi sig (minus_k + int (kappa fi) + 1))
             in if r < deltai then
                  (if r = 0 \<and> z_is_integer \<and> \<not> include_right_endpoint
                   then small (sig - 1) (of_nat (big_divisor fi)) else big sig)
                else if r > deltai then small sig r
                else case compute_mul_parity fi (two_fc - 1) cache beta of
                  None \<Rightarrow> None
                | Some (parity, is_integer) \<Rightarrow>
                    if \<not> (parity \<or> is_integer \<and> include_left_endpoint) then small sig r else big sig)"

definition to_decimal :: "('a::len word, 'c) float_info \<Rightarrow> 'a word \<Rightarrow> 'a decimal option" where
  "to_decimal fi br =
     (let significand_mask = push_bit (significand_bits fi) 1 - 1;
          exponent_mask = push_bit (significand_bits fi) (push_bit (exponent_bits fi) 1 - 1);
          sig = br AND significand_mask;
          exponent = int (unat (drop_bit (significand_bits fi) (br AND exponent_mask)))
      in if exponent \<noteq> 0 then
           let exponent = exponent - (exponent_bias fi + int (significand_bits fi))
           in if sig = 0 then shorter_interval_case fi exponent
              else regular_case fi (sig OR push_bit (significand_bits fi) 1) exponent
         else if sig = 0 then Some (0, 0)
         else regular_case fi sig (min_exponent fi - int (significand_bits fi) - 1))"

end
