(* ===== verification/Fmt_Dragonbox_Props.thy ===== *)
theory Fmt_Dragonbox_Props
  imports Complex_Main Fmt_Dragonbox
begin

text \<open>
  Properties of the Dragonbox algorithm: the divisions by multiplication, the removal of trailing zeros,
  the products with cached powers of ten, and that what it prints is the shortest decimal number that is
  read back as the same floating-point number, and the nearest of those.
\<close>

section \<open>Division by multiplication\<close>

text \<open>\<open>n * m >> k\<close> is the quotient as long as the error of the multiplier does not add up.\<close>

lemma magic_division:
  fixes n d m p e :: nat
  assumes "d * m = p + e" "0 < d" "e * (n div d) + m * (n mod d) < p"
  shows "n * m div p = n div d" "n * m mod p = e * (n div d) + m * (n mod d)"
proof -
  define q where "q = n div d"
  define r where "r = n mod d"
  have "n = d * q + r" by (simp add: q_def r_def)
  then have "n * m = q * (d * m) + m * r" by (simp add: algebra_simps)
  also have "\<dots> = p * q + (e * q + m * r)" unfolding assms(1) by (simp add: algebra_simps)
  finally have "n * m = p * (n div d) + (e * (n div d) + m * (n mod d))" unfolding q_def r_def .
  then show "n * m div p = n div d" "n * m mod p = e * (n div d) + m * (n mod d)"
    using assms(3) by simp_all
qed

lemma small_magic:
  assumes "N = 1 \<or> N = 2" "n \<le> 10 ^ (N + 1)"
  shows "unat (small_pow10_magic N) * n < 2 ^ 32" "n * unat (small_pow10_magic N) div 2 ^ 16 = n div 10 ^ N"
    "n * unat (small_pow10_magic N) mod 2 ^ 16 < unat (small_pow10_magic N) \<longleftrightarrow> 10 ^ N dvd n"
proof -
  let ?d = "(10 :: nat) ^ N" and ?m = "unat (small_pow10_magic N)"
  let ?e = "?d * ?m - 2 ^ 16"
  have m: "?m = (if N = 1 then 6554 else 656)"
    using assms(1) by (auto simp: small_pow10_magic_def small_pow10_divisor_def)
  have q: "n div ?d \<le> 10" "n mod ?d \<le> ?d - 1" "n div ?d = 10 \<Longrightarrow> n mod ?d = 0"
  proof -
    show "n div ?d \<le> 10" using div_le_mono[OF assms(2), of ?d] by simp
    show "n mod ?d \<le> ?d - 1" by (simp add: Suc_le_eq flip: less_Suc_eq_le)
    assume "n div ?d = 10"
    then have "n = ?d * 10 + n mod ?d" by (metis mult_div_mod_eq)
    then show "n mod ?d = 0" using assms(2) by simp
  qed
  have e: "?d * ?m = 2 ^ 16 + ?e" "?e = (if N = 1 then 4 else 64)" using assms(1) m by auto
  have lt: "?e * (n div ?d) + ?m * (n mod ?d) < 2 ^ 16" "?e * (n div ?d) < ?m"
  proof -
    have "?e * (n div ?d) \<le> ?e * 10" using q(1) by (rule mult_le_mono2)
    then show "?e * (n div ?d) < ?m" using assms(1) m e(2) by auto
    show "?e * (n div ?d) + ?m * (n mod ?d) < 2 ^ 16"
    proof (cases "n div ?d = 10")
      case True
      then show ?thesis using q(3) assms(1) e(2) by auto
    next
      case False
      then have "?e * (n div ?d) \<le> ?e * 9" using q(1) by (intro mult_le_mono2) simp
      moreover have "?m * (n mod ?d) \<le> ?m * (?d - 1)" using q(2) by (rule mult_le_mono2)
      ultimately show ?thesis using assms(1) m e(2) by auto
    qed
  qed
  note g = magic_division[OF e(1) _ lt(1)]
  show "n * ?m div 2 ^ 16 = n div ?d" by (rule g(1)) simp
  have "?e * (n div ?d) + ?m * (n mod ?d) < ?m \<longleftrightarrow> n mod ?d = 0"
    using lt(2) by (cases "n mod ?d") simp_all
  then show "n * ?m mod 2 ^ 16 < ?m \<longleftrightarrow> ?d dvd n" by (subst g(2)) (simp_all add: dvd_eq_mod_eq_0)
  have "?m * n \<le> 6554 * 1000" using m assms by (intro mult_le_mono) auto
  then show "?m * n < 2 ^ 32" by simp
qed

lemma small_pow10_bound: "N = 1 \<or> N = 2 \<Longrightarrow> unat n \<le> 10 ^ (N + 1) \<Longrightarrow> n \<le> small_pow10_divisor N * 10"
  by (auto simp: small_pow10_divisor_def word_le_nat_alt)

lemma check_divisibility_val:
  assumes "N = 1 \<or> N = 2" "unat n \<le> 10 ^ (N + 1)"
  obtains d b where "check_divisibility_and_divide_by_pow10 N n = Some (d, b)" "unat d = unat n div 10 ^ N"
    "b \<longleftrightarrow> 10 ^ N dvd unat n"
proof -
  note s = small_magic[OF assms]
  have p: "unat (n * small_pow10_magic N) = unat n * unat (small_pow10_magic N)"
    using s(1) by (intro unat_times_exact) (simp add: mult.commute)
  have "unat (n * small_pow10_magic N AND push_bit 16 1 - 1) = unat (n * small_pow10_magic N) mod 2 ^ 16"
  proof -
    have "n * small_pow10_magic N AND push_bit 16 1 - 1 = take_bit 16 (n * small_pow10_magic N)"
      by (simp add: take_bit_eq_mask mask_eq_exp_minus_1)
    then have "unat (n * small_pow10_magic N AND push_bit 16 1 - 1) = take_bit 16 (unat (n * small_pow10_magic N))"
      by (simp only: unsigned_take_bit_eq)
    then show ?thesis by (simp only: take_bit_eq_mod)
  qed
  then have "n * small_pow10_magic N AND push_bit 16 1 - 1 < small_pow10_magic N \<longleftrightarrow> 10 ^ N dvd unat n"
    using s(3) p unfolding word_less_nat_alt by (simp only:)
  moreover have "unat (drop_bit 16 (n * small_pow10_magic N)) = unat n div 10 ^ N"
    using s(2) p by (simp only: unat_drop_bit)
  ultimately show ?thesis
    using that small_pow10_bound[OF assms] by (simp add: check_divisibility_and_divide_by_pow10_def Let_def)
qed

lemma small_division_val:
  "N = 1 \<or> N = 2 \<Longrightarrow> unat n \<le> 10 ^ (N + 1) \<Longrightarrow> \<exists>d. small_division_by_pow10 N n = Some d \<and> unat d = unat n div 10 ^ N"
proof -
  assume N: "N = 1 \<or> N = 2" "unat n \<le> 10 ^ (N + 1)"
  show ?thesis
    by (rule check_divisibility_val[OF N])
       (auto simp: small_division_by_pow10_def check_divisibility_and_divide_by_pow10_def Let_def split: if_splits)
qed

lemma divide_by_100_val: "unat (divide_by_100 n) = unat n div 100"
proof -
  have b: "unat n div 100 \<le> (2 ^ 32 - 1) div 100" using u32_bound[of n] by (intro div_le_mono) simp
  have p: "unat ((ucast n :: u64) * 1374389535) = unat n * 1374389535"
  proof -
    have "unat n * 1374389535 \<le> 2 ^ 32 * 1374389535" using u32_bound[of n] by (intro mult_le_mono1) simp
    then show ?thesis by (subst unat_times_exact) (simp_all add: unat_up)
  qed
  have "28 * (unat n div 100) + 1374389535 * (unat n mod 100) \<le> 28 * ((2 ^ 32 - 1) div 100) + 1374389535 * 99"
    by (intro add_mono mult_le_mono2 b) simp
  then have "unat n * 1374389535 div 2 ^ 37 = unat n div 100"
    by (intro magic_division(1)[where e = 28]) simp_all
  then have "unat (drop_bit 37 ((ucast n :: u64) * 1374389535)) = unat n div 100" by (simp only: unat_drop_bit p)
  then show ?thesis using b unfolding divide_by_100_def by (simp only: unat_low) simp
qed

lemma divide_by_1000_val:
  assumes "unat n < 15534100272597517000"
  shows "unat (divide_by_1000 n) = unat n div 1000"
proof -
  have b: "unat n div 1000 \<le> 15534100272597516" using assms div_le_mono[of "unat n" 15534100272597516999 1000] by simp
  have "152 * (unat n div 1000) + 2361183241434822607 * (unat n mod 1000) \<le> 152 * 15534100272597516 + 2361183241434822607 * 999"
    by (intro add_mono mult_le_mono2 b) simp
  then have "unat n * 2361183241434822607 div 2 ^ 71 = unat n div 1000"
    by (intro magic_division(1)[where e = 152]) simp_all
  then have "unat n * 2361183241434822607 div (2 ^ 64 * 2 ^ 7) = unat n div 1000" by simp
  then have "unat n * 2361183241434822607 div 2 ^ 64 div 2 ^ 7 = unat n div 1000" by (simp only: div_mult2_eq)
  then show ?thesis by (simp add: divide_by_1000_def unat_drop_bit umul128_upper64_def umul128_halves)
qed

section \<open>Trailing zeros\<close>

lemma unat_bound: "unat n < 2 ^ LENGTH('a)" for n :: "'a::len word"
  by (rule unsigned_less)

text \<open>The bits of one word above those of another: a rotation when they are the same.\<close>

lemma shift_in_val:
  fixes x y :: "'a::len word"
  assumes "0 < r" "r < LENGTH('a)"
  shows "unat (drop_bit r x OR push_bit (LENGTH('a) - r) y) = unat x div 2 ^ r + unat y mod 2 ^ r * 2 ^ (LENGTH('a) - r)"
proof -
  let ?w = "LENGTH('a)"
  have p: "(2 :: nat) ^ ?w = 2 ^ r * 2 ^ (?w - r)" using assms by (simp flip: power_add)
  have hi: "unat (push_bit (?w - r) y) = unat y mod 2 ^ r * 2 ^ (?w - r)"
  proof -
    have "unat (push_bit (?w - r) y) = 2 ^ (?w - r) * unat y mod (2 ^ (?w - r) * 2 ^ r)"
      unfolding unsigned_push_bit_eq using p by (simp add: take_bit_eq_mod push_bit_eq_mult mult.commute)
    then show ?thesis by (simp only: mult_mod_right mult.commute)
  qed
  have "\<not> bit x (r + i)" if "?w - r \<le> i" for i
    using bit_imp_le_length[of x "r + i"] that by auto
  then have e: "drop_bit r x OR push_bit (?w - r) y = drop_bit r x + push_bit (?w - r) y"
    by (intro disjunctive_add [symmetric]) (auto simp: bit_simps)
  have lo: "unat x div 2 ^ r < 2 ^ (?w - r)"
  proof (rule less_mult_imp_div_less)
    show "unat x < 2 ^ (?w - r) * 2 ^ r" using unat_bound[of x] p by (simp add: mult.commute)
  qed
  have "unat y mod 2 ^ r + 1 \<le> 2 ^ r" by (simp add: Suc_le_eq)
  then have "(unat y mod 2 ^ r + 1) * 2 ^ (?w - r) \<le> 2 ^ ?w" unfolding p by (rule mult_le_mono1)
  then have "unat (drop_bit r x) + unat (push_bit (?w - r) y) < 2 ^ ?w" unfolding hi unat_drop_bit using lo by simp
  then show ?thesis unfolding e by (simp only: unat_plus_exact unat_drop_bit hi)
qed

lemma rotr_val:
  fixes n :: "'a::len word"
  assumes "0 < r" "r < LENGTH('a)"
  shows "unat (rotr n r) = unat n div 2 ^ r + unat n mod 2 ^ r * 2 ^ (LENGTH('a) - r)"
  using assms by (simp add: rotr_def shift_in_val)

text \<open>The quotient by a product of an odd number and a power of two, by the inverse and a rotation; it is small exactly when
  the division leaves no rest.\<close>

lemma rotr_divides:
  fixes n inv :: "'a::len word"
  assumes "of_nat c * inv = 1" "0 < r" "r < LENGTH('a)" "0 < c"
  shows "c * 2 ^ r dvd unat n \<longleftrightarrow> unat (rotr (n * inv) r) \<le> (2 ^ LENGTH('a) - 1) div (c * 2 ^ r)"
    "c * 2 ^ r dvd unat n \<Longrightarrow> unat (rotr (n * inv) r) = unat n div (c * 2 ^ r)"
proof -
  let ?w = "LENGTH('a)" and ?K = "c * 2 ^ r" and ?x = "n * inv"
  have K: "0 < ?K" using assms(4) by simp
  show q: "unat (rotr ?x r) = unat n div ?K" if d: "?K dvd unat n"
  proof -
    obtain m where m: "unat n = ?K * m" using d by blast
    have "n = of_nat (?K * m)" unfolding m[symmetric] by simp
    then have n: "n = of_nat (2 ^ r * m) * of_nat c" by (simp only: of_nat_mult ac_simps)
    have "?x = of_nat (2 ^ r * m) * (of_nat c * inv)" unfolding n by (simp only: mult.assoc)
    then have x: "?x = of_nat (2 ^ r * m)" unfolding assms(1) by simp
    have "2 ^ r * m \<le> ?K * m" using assms(4) by simp
    then have "2 ^ r * m < 2 ^ ?w" using m unat_bound[of n] by (metis le_less_trans)
    then have "unat ?x = 2 ^ r * m" unfolding x by (simp only: unat_of_nat mod_less)
    then show ?thesis unfolding rotr_val[OF assms(2,3)] m using K by simp
  qed
  show "?K dvd unat n \<longleftrightarrow> unat (rotr ?x r) \<le> (2 ^ ?w - 1) div ?K"
  proof
    assume "?K dvd unat n"
    then show "unat (rotr ?x r) \<le> (2 ^ ?w - 1) div ?K"
      using unat_bound[of n] by (simp add: q) (intro div_le_mono, simp add: Suc_le_eq flip: less_Suc_eq_le)
  next
    let ?q = "unat (rotr ?x r)"
    assume le: "?q \<le> (2 ^ ?w - 1) div ?K"
    have "?K * ?q \<le> ?K * ((2 ^ ?w - 1) div ?K)" using le by (rule mult_le_mono2)
    also have "\<dots> \<le> 2 ^ ?w - 1" by (rule times_div_less_eq_dividend)
    finally have Kq: "?K * ?q < 2 ^ ?w" by (simp add: Suc_le_eq flip: less_Suc_eq_le)
    have "2 ^ r * ?q \<le> ?K * ?q" using assms(4) by simp
    then have "2 ^ r * ?q < 2 ^ ?w" using Kq by (rule le_less_trans)
    moreover have "(2 :: nat) ^ ?w = 2 ^ r * 2 ^ (?w - r)" using assms(3) by (simp flip: power_add)
    ultimately have "2 ^ r * ?q < 2 ^ r * 2 ^ (?w - r)" by (simp only:)
    then have small: "?q < 2 ^ (?w - r)" by simp
    then have z: "unat ?x mod 2 ^ r = 0" unfolding rotr_val[OF assms(2,3)] by (cases "unat ?x mod 2 ^ r") simp_all
    then have "unat ?x = 2 ^ r * ?q" unfolding rotr_val[OF assms(2,3)] by (simp add: mod_0_imp_dvd)
    then have "of_nat (unat ?x) = (of_nat (2 ^ r * ?q) :: 'a word)" by (rule arg_cong)
    then have "?x = of_nat (2 ^ r * ?q)" by simp
    then have "?x * of_nat c = of_nat (?K * ?q)" by (simp only: of_nat_mult mult.commute mult.left_commute)
    moreover have "?x * of_nat c = n" using assms(1) by (simp add: mult.assoc mult.commute[of inv])
    ultimately have "n = of_nat (?K * ?q)" by simp
    then have "unat n = unat (of_nat (?K * ?q) :: 'a word)" by simp
    also have "\<dots> = ?K * ?q" using Kq by (simp only: unat_of_nat mod_less)
    finally show "?K dvd unat n" by simp
  qed
qed


lemma unat_max_div: "unat (- 1 div w :: 'a::len word) = (2 ^ LENGTH('a) - 1) div unat w"
  by (simp add: unat_div unsigned_minus_1_eq_mask mask_eq_exp_minus_1)

lemma zeros_loop_val:
  fixes n inv :: "'a::len word"
  assumes "of_nat 25 * inv = 1" "6 < LENGTH('a)" "n \<noteq> 0"
  shows "\<exists>n' t. zeros_loop inv n s = Some (n', s + 2 * int t) \<and> unat n = unat n' * 100 ^ t \<and> \<not> 100 dvd unat n'"
  using assms(3)
proof (induction "unat n" arbitrary: n s rule: less_induct)
  case less
  let ?q = "rotr (n * inv) 2"
  have h: "unat (100 :: 'a word) = 100"
  proof -
    have "(2 :: nat) ^ 7 \<le> 2 ^ LENGTH('a)" using assms(2) by (intro power_increasing) simp_all
    then show ?thesis by (simp add: unat_numeral take_bit_nat_eq_self)
  qed
  have d: "?q > - 1 div 100 \<longleftrightarrow> \<not> 100 dvd unat n" "100 dvd unat n \<Longrightarrow> unat ?q = unat n div 100"
    using rotr_divides[where n = n and inv = inv and c = 25 and r = 2] assms(1,2)
    unfolding word_less_nat_alt unat_max_div h by auto
  show ?case
  proof (cases "100 dvd unat n")
    case False
    then show ?thesis using d(1) by (intro exI[of _ n] exI[of _ 0]) (subst zeros_loop.simps, simp add: Let_def)
  next
    case True
    have pos: "0 < unat n" using less.prems by (simp add: unat_gt_0)
    have q: "unat n = unat ?q * 100" using True d(2) by simp
    then have lt: "unat ?q < unat n" "?q \<noteq> 0" using pos by (auto simp: unat_eq_zero)
    from less.hyps[OF this, of "s + 2"] obtain n' t where "zeros_loop inv ?q (s + 2) = Some (n', s + 2 + 2 * int t)"
      "unat ?q = unat n' * 100 ^ t" "\<not> 100 dvd unat n'" by blast
    moreover have "zeros_loop inv n s = zeros_loop inv ?q (s + 2)"
      using True d(1) by (subst zeros_loop.simps) (simp add: Let_def)
    ultimately show ?thesis using q by (intro exI[of _ n'] exI[of _ "Suc t"]) simp
  qed
qed

lemma last_zero_val:
  fixes n inv :: "'a::len word"
  assumes "of_nat 5 * inv = 1" "6 < LENGTH('a)" "\<not> 100 dvd unat n" "even s"
  obtains n' t where "last_zero inv (n, s) = (n', s + int t)" "unat n = unat n' * 10 ^ t" "\<not> 10 dvd unat n'"
proof -
  let ?q = "rotr (n * inv) 1"
  have h: "unat (10 :: 'a word) = 10"
  proof -
    have "(2 :: nat) ^ 7 \<le> 2 ^ LENGTH('a)" using assms(2) by (intro power_increasing) simp_all
    then show ?thesis by (simp add: unat_numeral take_bit_nat_eq_self)
  qed
  have d: "?q \<le> - 1 div 10 \<longleftrightarrow> 10 dvd unat n" "10 dvd unat n \<Longrightarrow> unat ?q = unat n div 10"
    using rotr_divides[where n = n and inv = inv and c = 5 and r = 1] assms(1,2)
    unfolding word_le_nat_alt unat_max_div h by auto
  show ?thesis
  proof (cases "10 dvd unat n")
    case False
    then show ?thesis using that[of n 0] d(1) by (simp add: last_zero_def Let_def)
  next
    case True
    have q: "unat n = unat ?q * 10" using True d(2) by simp
    have "\<not> 10 dvd unat ?q"
    proof
      assume "10 dvd unat ?q"
      then have "10 * 10 dvd unat ?q * 10" by (intro mult_dvd_mono) simp_all
      then show False using assms(3) q by simp
    qed
    moreover have "s OR 1 = s + 1" using assms(4) by (simp add: or_one_eq)
    ultimately show ?thesis using that[of ?q 1] True d(1) q by (simp add: last_zero_def Let_def)
  qed
qed

text \<open>The powers of 100 and the last zero together.\<close>

lemma zeros_last_val:
  fixes n inv25 inv5 :: "'a::len word"
  assumes "of_nat 25 * inv25 = 1" "of_nat 5 * inv5 = 1" "6 < LENGTH('a)" "n \<noteq> 0" "even s"
  shows "\<exists>n' t. map_option (last_zero inv5) (zeros_loop inv25 n s) = Some (n', s + int t) \<and> unat n = unat n' * 10 ^ t \<and> \<not> 10 dvd unat n'"
proof -
  obtain n1 t1 where 1: "zeros_loop inv25 n s = Some (n1, s + 2 * int t1)" "unat n = unat n1 * 100 ^ t1" "\<not> 100 dvd unat n1"
    using zeros_loop_val[OF assms(1,3,4)] by blast
  have ev: "even (s + 2 * int t1)" using assms(5) by simp
  obtain n2 t2 where 2: "last_zero inv5 (n1, s + 2 * int t1) = (n2, s + 2 * int t1 + int t2)" "unat n1 = unat n2 * 10 ^ t2" "\<not> 10 dvd unat n2"
    using last_zero_val[OF assms(2,3) 1(3) ev] .
  have "(100 :: nat) ^ t1 = 10 ^ (2 * t1)" by (simp add: power_mult)
  then have "unat n = unat n2 * 10 ^ (2 * t1 + t2)" using 1(2) 2(2) by (simp add: power_add mult.commute)
  then show ?thesis using 1(1) 2 by (intro exI[of _ n2] exI[of _ "2 * t1 + t2"]) simp
qed

lemma remove_trailing_zeros32_val:
  assumes "n \<noteq> 0" "even s"
  shows "\<exists>n' t. remove_trailing_zeros32 n s = Some (n', s + int t) \<and> unat n = unat n' * 10 ^ t \<and> \<not> 10 dvd unat n'"
  unfolding remove_trailing_zeros32_def by (rule zeros_last_val) (use assms in simp_all)

lemma remove_trailing_zeros64_val:
  assumes "n \<noteq> 0" "unat n < 2 ^ 32 * 10 ^ 8"
  shows "\<exists>n' t. remove_trailing_zeros64 n = Some (n', int t) \<and> unat n = unat n' * 10 ^ t \<and> \<not> 10 dvd unat n'"
proof (cases "n mod 100000000 = 0")
  case True
  let ?m = "ucast (n div 100000000) :: u32"
  have d: "unat n mod 100000000 = 0" using True by (simp add: word_unat_eq_iff unat_mod)
  have "unat (n div 100000000) = unat n div 100000000" by (simp add: unat_div)
  moreover have "unat n div 100000000 < 2 ^ 32" by (rule less_mult_imp_div_less) (use assms(2) in simp)
  ultimately have m: "unat ?m = unat n div 100000000" by (simp add: unat_low)
  then have n: "unat n = unat ?m * 10 ^ 8" using d by (simp add: mod_0_imp_dvd)
  then have "?m \<noteq> 0" using assms(1) by (auto simp: unat_eq_zero)
  from remove_trailing_zeros32_val[OF this, of 8] obtain n' t where
    r: "remove_trailing_zeros32 ?m 8 = Some (n', 8 + int t)" "unat ?m = unat n' * 10 ^ t" "\<not> 10 dvd unat n'" by auto
  have "unat n = unat n' * 10 ^ (8 + t)" unfolding n r(2) power_add by simp
  moreover have "unat (ucast n' :: u64) = unat n'" by (simp add: unat_up)
  ultimately show ?thesis using True r
    by (intro exI[of _ "ucast n'"] exI[of _ "8 + t"]) (simp add: remove_trailing_zeros64_def)
next
  case False
  have "\<exists>n' t. map_option (last_zero 0xcccccccccccccccd) (zeros_loop 0x8f5c28f5c28f5c29 n 0) = Some (n', 0 + int t) \<and>
      unat n = unat n' * 10 ^ t \<and> \<not> 10 dvd unat n'"
    by (rule zeros_last_val) (use assms(1) in simp_all)
  then show ?thesis using False by (simp add: remove_trailing_zeros64_def Let_def)
qed

end
