(* ===== verification/Fmt_Dragonbox_Cache.thy ===== *)
theory Fmt_Dragonbox_Cache
  imports Fmt_Dragonbox_Props
begin

text \<open>
  The cached powers of ten of Dragonbox: every entry, stored or recovered from a stored one, is a power of ten to 128 (64)
  bits, rounded up, and less than three units (one unit) too large.
\<close>

section \<open>The stored powers\<close>

text \<open>\<open>10 powi k\<close> with the highest of \<open>w\<close> bits set, in units of the last bit.\<close>

definition power_of_ten :: "nat \<Rightarrow> int \<Rightarrow> real" where
  "power_of_ten w k = 10 powi k * 2 powi (int w - 1 - floor_log2_pow10 k)"

definition rounds_up :: "nat \<Rightarrow> int \<Rightarrow> int \<Rightarrow> bool" where
  "rounds_up w k c \<longleftrightarrow> power_of_ten w k \<le> of_int c \<and> of_int c < power_of_ten w k + 1"

text \<open>Checked along the table, with \<open>p\<close> the power of five.\<close>

fun negative_ok :: "nat \<Rightarrow> nat \<Rightarrow> int \<Rightarrow> int \<Rightarrow> int list \<Rightarrow> bool" where
  "negative_ok w d k p [] \<longleftrightarrow> True"
| "negative_ok w d k p (c # cs) \<longleftrightarrow>
     (let s = int w - 1 + k - floor_log2_pow10 k
      in 0 \<le> s \<and> (let t = 2 ^ nat s in t \<le> c * p \<and> (c - 1) * p < t)) \<and> negative_ok w d (k - int d) (p * 5 ^ d) cs"

fun positive_ok :: "nat \<Rightarrow> nat \<Rightarrow> int \<Rightarrow> int \<Rightarrow> int list \<Rightarrow> bool" where
  "positive_ok w d k p [] \<longleftrightarrow> True"
| "positive_ok w d k p (c # cs) \<longleftrightarrow>
     (let s = int w - 1 + k - floor_log2_pow10 k
      in if 0 \<le> s then c = p * 2 ^ nat s else (let t = 2 ^ nat (- s) in p \<le> c * t \<and> (c - 1) * t < p)) \<and>
     positive_ok w d (k + int d) (p * 5 ^ d) cs"

lemma power_of_ten_five: "power_of_ten w k = 5 powi k * 2 powi (int w - 1 + k - floor_log2_pow10 k)"
proof -
  have "(10 :: real) powi k = 5 powi k * 2 powi k" by (simp flip: power_int_mult_distrib)
  moreover have "(2 :: real) powi (int w - 1 + k - floor_log2_pow10 k) = 2 powi k * 2 powi (int w - 1 - floor_log2_pow10 k)"
    by (simp flip: power_int_add add: algebra_simps)
  ultimately show ?thesis by (simp add: power_of_ten_def)
qed

lemma negative_ok_rounds:
  assumes "negative_ok w d (- int n) (5 ^ n) cs" "i < length cs"
  shows "rounds_up w (- int (n + i * d)) (cs ! i)"
  using assms
proof (induction cs arbitrary: n i)
  case (Cons c cs)
  show ?case
  proof (cases i)
    case 0
    define s where "s = int w - 1 + - int n - floor_log2_pow10 (- int n)"
    have c: "0 \<le> s" "2 ^ nat s \<le> c * 5 ^ n" "(c - 1) * 5 ^ n < 2 ^ nat s"
      using Cons.prems(1) by (simp_all add: Let_def s_def)
    have "(2 :: real) powi s = 2 ^ nat s" using c(1) by (simp add: power_int_def)
    then have p: "power_of_ten w (- int n) = 2 ^ nat s / 5 ^ n"
      unfolding power_of_ten_five s_def[symmetric] by (simp add: power_int_minus divide_inverse)
    have "real_of_int (2 ^ nat s) \<le> of_int (c * 5 ^ n)" "real_of_int ((c - 1) * 5 ^ n) < of_int (2 ^ nat s)"
      using c(2,3) by (simp_all only: of_int_le_iff of_int_less_iff)
    then show ?thesis unfolding rounds_up_def 0 by (simp add: p field_simps)
  next
    case (Suc j)
    have "- int (n + d) = - int n - int d" by simp
    then have "negative_ok w d (- int (n + d)) (5 ^ (n + d)) cs"
      using Cons.prems(1) by (simp only: negative_ok.simps power_add)
    from Cons.IH[OF this, of j] have r: "rounds_up w (- int (n + d + j * d)) (cs ! j)" using Cons.prems(2) Suc by simp
    have i: "n + i * d = n + d + j * d" "(c # cs) ! i = cs ! j" using Suc by simp_all
    show ?thesis unfolding i by (rule r)
  qed
qed simp

lemma positive_ok_rounds:
  assumes "positive_ok w d (int n) (5 ^ n) cs" "i < length cs"
  shows "rounds_up w (int (n + i * d)) (cs ! i)"
  using assms
proof (induction cs arbitrary: n i)
  case (Cons c cs)
  show ?case
  proof (cases i)
    case 0
    define s where "s = int w - 1 + int n - floor_log2_pow10 (int n)"
    have p: "power_of_ten w (int n) = 5 ^ n * 2 powi s" unfolding power_of_ten_five s_def[symmetric] by simp
    show ?thesis
    proof (cases "0 \<le> s")
      case True
      then have "c = 5 ^ n * 2 ^ nat s" using Cons.prems(1) by (simp add: Let_def s_def)
      then show ?thesis unfolding rounds_up_def 0 using True by (simp add: p power_int_def)
    next
      case False
      then have c: "5 ^ n \<le> c * 2 ^ nat (- s)" "(c - 1) * 2 ^ nat (- s) < 5 ^ n"
        using Cons.prems(1) by (simp_all add: Let_def s_def)
      have "real_of_int (5 ^ n) \<le> of_int (c * 2 ^ nat (- s))" "real_of_int ((c - 1) * 2 ^ nat (- s)) < of_int (5 ^ n)"
        using c by (simp_all only: of_int_le_iff of_int_less_iff)
      then show ?thesis unfolding rounds_up_def 0 using False by (simp add: p power_int_def field_simps)
    qed
  next
    case (Suc j)
    have "positive_ok w d (int (n + d)) (5 ^ (n + d)) cs"
      using Cons.prems(1) by (simp only: positive_ok.simps power_add of_nat_add)
    from Cons.IH[OF this, of j] have r: "rounds_up w (int (n + d + j * d)) (cs ! j)" using Cons.prems(2) Suc by simp
    have i: "n + i * d = n + d + j * d" "(c # cs) ! i = cs ! j" using Suc by simp_all
    show ?thesis unfolding i by (rule r)
  qed
qed simp

text \<open>The numbers of the two tables.\<close>

definition base_powers :: "int list" where
  "base_powers = map (\<lambda>n. int (u_val n)) pow10_significands64"

lemma base_powers_code: "base_powers = [
     339574632262346462319337857089816694651, 274306203439684434162796812559360463504, 221582786512044528543660416923448526879,
     178993149490468507527617399585467740568, 289179029371721471687588745441753893208, 233596959622256395194427986211854915835,
     188698121241077067612077729049413444546, 304858256866796116345859104471988897046, 246262538727465495076744000625897586282,
     198929294563914656862152899258728336041, 321387608851798055108392418468232520505, 259614842926741381426524816461004800000,
     209715200000000000000000000000000000000, 338813178901720135627329000271856784821, 273691106313440834164790934236311744391,
     221085915010417782409890607687690229021, 178591779887855465971216179422709524915, 288530581805804243148716586328026044933,
     233073147850006460727842666108216682419, 188274989461162821698496096461914760659, 304174650607225571762411584933616497483,
     245710325988660175637322864660982227524, 198483220665921913493274236659049950153, 320666937601435644479377288216025927664]"
  by (simp add: base_powers_def pow10_significands64_def u_val_def)

lemma length_base_powers: "length base_powers = 24"
  by (simp add: base_powers_def pow10_significands64_def)

lemma negative_base_powers: "negative_ok 128 27 (- int 22) (5 ^ 22) (rev (take 11 base_powers))"
  unfolding base_powers_code by code_simp

lemma positive_base_powers: "positive_ok 128 27 (int 5) (5 ^ 5) (drop 11 base_powers)"
  unfolding base_powers_code by code_simp

lemma base_powers_round_up:
  assumes "i < 24"
  shows "rounds_up 128 (27 * int i - 292) (base_powers ! i)"
proof (cases "i < 11")
  case True
  then have "rounds_up 128 (- int (22 + (10 - i) * 27)) (rev (take 11 base_powers) ! (10 - i))"
    by (intro negative_ok_rounds[OF negative_base_powers]) (simp add: length_base_powers)
  moreover have "rev (take 11 base_powers) ! (10 - i) = base_powers ! i"
    using True by (subst rev_nth) (simp_all add: length_base_powers)
  moreover have "- int (22 + (10 - i) * 27) = 27 * int i - 292" using True by (simp add: of_nat_diff)
  ultimately show ?thesis by (simp only:)
next
  case False
  then have "rounds_up 128 (int (5 + (i - 11) * 27)) (drop 11 base_powers ! (i - 11))"
    using assms by (intro positive_ok_rounds[OF positive_base_powers]) (simp add: length_base_powers)
  moreover have "drop 11 base_powers ! (i - 11) = base_powers ! i" using False by (simp add: length_base_powers)
  moreover have "int (5 + (i - 11) * 27) = 27 * int i - 292" using False by (simp add: of_nat_diff)
  ultimately show ?thesis by (simp only:)
qed

definition powers32 :: "int list" where
  "powers32 = map uint pow10_significands32"

lemma powers32_code: "powers32 = [
     9353610478917778677, 11692013098647223346, 14615016373309029183, 18268770466636286478, 11417981541647679049,
     14272476927059598811, 17840596158824498514, 11150372599265311571, 13937965749081639464, 17422457186352049330,
     10889035741470030831, 13611294676837538539, 17014118346046923174, 10633823966279326984, 13292279957849158730,
     16615349947311448412, 10384593717069655258, 12980742146337069072, 16225927682921336340, 10141204801825835212,
     12676506002282294015, 15845632502852867519, 9903520314283042200, 12379400392853802749, 15474250491067253437,
     9671406556917033398, 12089258196146291748, 15111572745182864684, 9444732965739290428, 11805916207174113035,
     14757395258967641293, 9223372036854775808, 11529215046068469760, 14411518807585587200, 18014398509481984000,
     11258999068426240000, 14073748835532800000, 17592186044416000000, 10995116277760000000, 13743895347200000000,
     17179869184000000000, 10737418240000000000, 13421772800000000000, 16777216000000000000, 10485760000000000000,
     13107200000000000000, 16384000000000000000, 10240000000000000000, 12800000000000000000, 16000000000000000000,
     10000000000000000000, 12500000000000000000, 15625000000000000000, 9765625000000000000, 12207031250000000000,
     15258789062500000000, 9536743164062500000, 11920928955078125000, 14901161193847656250, 9313225746154785157,
     11641532182693481446, 14551915228366851807, 18189894035458564759, 11368683772161602974, 14210854715202003718,
     17763568394002504647, 11102230246251565405, 13877787807814456756, 17347234759768070945, 10842021724855044341,
     13552527156068805426, 16940658945086006782, 10587911840678754239, 13234889800848442798, 16543612251060553498,
     10339757656912845936, 12924697071141057420, 16155871338926321775]"
  by (simp add: powers32_def pow10_significands32_def)

lemma length_powers32: "length powers32 = 78"
  by (simp add: powers32_def pow10_significands32_def)

lemma negative_powers32: "negative_ok 64 1 (- int 1) (5 ^ 1) (rev (take 31 powers32))"
  unfolding powers32_code by code_simp

lemma positive_powers32: "positive_ok 64 1 (int 0) (5 ^ 0) (drop 31 powers32)"
  unfolding powers32_code by code_simp

lemma powers32_round_up:
  assumes "i < 78"
  shows "rounds_up 64 (int i - 31) (powers32 ! i)"
proof (cases "i < 31")
  case True
  then have "rounds_up 64 (- int (1 + (30 - i) * 1)) (rev (take 31 powers32) ! (30 - i))"
    by (intro negative_ok_rounds[OF negative_powers32]) (simp add: length_powers32)
  moreover have "rev (take 31 powers32) ! (30 - i) = powers32 ! i"
    using True by (subst rev_nth) (simp_all add: length_powers32)
  moreover have "- int (1 + (30 - i) * 1) = int i - 31" using True by (simp add: of_nat_diff)
  ultimately show ?thesis by (simp only:)
next
  case False
  then have "rounds_up 64 (int (0 + (i - 31) * 1)) (drop 31 powers32 ! (i - 31))"
    using assms by (intro positive_ok_rounds[OF positive_powers32]) (simp add: length_powers32)
  moreover have "drop 31 powers32 ! (i - 31) = powers32 ! i" using False by (simp add: length_powers32)
  moreover have "int (0 + (i - 31) * 1) = int i - 31" using False by (simp add: of_nat_diff)
  ultimately show ?thesis by (simp only:)
qed

section \<open>The recovered powers\<close>

lemma umul128_commute: "umul128 x y = umul128 y x"
  by (rule uint128.equality) (simp_all add: word_unat_eq_iff umul128_halves mult.commute)

lemma recover_power_val:
  assumes alpha: "0 < alpha" "alpha < 64" and fits: "u_val base * unat p div 2 ^ alpha < 2 ^ 128"
    and carry: "u_val base * unat p div 2 ^ alpha mod 2 ^ 64 + 1 < 2 ^ 64"
  obtains c where "recover_power base p alpha = Some c" "u_val c = u_val base * unat p div 2 ^ alpha + 1"
proof -
  let ?ml = "umul128 (u_lo base) p"
  define rc where "rc = u_add64 (umul128 (u_hi base) p) (u_hi ?ml)"
  define H where "H = unat (u_hi rc)"
  define M where "M = unat (u_lo rc)"
  define Lo where "Lo = unat (u_lo ?ml)"
  define B where "B = u_val base * unat p"
  have B: "B = 2 ^ 128 * H + 2 ^ 64 * M + Lo"
  proof -
    have "rc = umul192_upper128 p base"
      unfolding rc_def umul192_upper128_def umul128_upper64_def by (simp only: umul128_commute)
    then have "u_val rc = B div 2 ^ 64" by (simp only: umul192_upper128_val B_def mult.commute)
    moreover have "Lo = B mod 2 ^ 64"
      by (simp add: Lo_def B_def umul128_halves u_val_def distrib_right mult.assoc)
    ultimately have "B = 2 ^ 64 * u_val rc + Lo" by simp
    then show ?thesis by (simp add: u_val_def H_def M_def)
  qed
  have pow: "(2 :: nat) ^ 64 = 2 ^ alpha * 2 ^ (64 - alpha)" "(2 :: nat) ^ 128 = 2 ^ alpha * (2 ^ 64 * 2 ^ (64 - alpha))"
    using alpha by (simp_all flip: power_add)
  have q: "B div 2 ^ alpha = 2 ^ 64 * (2 ^ (64 - alpha) * H) + 2 ^ (64 - alpha) * M + Lo div 2 ^ alpha"
  proof -
    have "B = Lo + 2 ^ alpha * (2 ^ 64 * (2 ^ (64 - alpha) * H) + 2 ^ (64 - alpha) * M)"
      unfolding B by (subst pow(2), subst (2) pow(1)) (simp only: distrib_left mult.assoc mult.left_commute add.commute add.left_commute)
    then show ?thesis by simp
  qed
  have H: "H mod 2 ^ alpha = H"
  proof -
    have "B < 2 ^ 128 * 2 ^ alpha" using fits by (simp add: B_def div_less_iff_less_mult)
    then have "2 ^ 128 * H < 2 ^ 128 * 2 ^ alpha" unfolding B by linarith
    then show ?thesis by simp
  qed
  let ?hi = "drop_bit alpha (u_lo rc) OR push_bit (64 - alpha) (u_hi rc)"
  let ?lo = "drop_bit alpha (u_lo ?ml) OR push_bit (64 - alpha) (u_lo rc)"
  have hi: "unat ?hi = M div 2 ^ alpha + 2 ^ (64 - alpha) * H"
    using shift_in_val[of alpha "u_lo rc" "u_hi rc"] alpha H by (simp add: M_def[symmetric] H_def[symmetric] mult.commute)
  have lo: "unat ?lo = Lo div 2 ^ alpha + 2 ^ (64 - alpha) * (M mod 2 ^ alpha)"
    using shift_in_val[of alpha "u_lo ?ml" "u_lo rc"] alpha by (simp add: M_def[symmetric] Lo_def[symmetric] mult.commute)
  have val: "2 ^ 64 * unat ?hi + unat ?lo = B div 2 ^ alpha"
  proof -
    have "2 ^ (64 - alpha) * M = 2 ^ (64 - alpha) * (2 ^ alpha * (M div 2 ^ alpha) + M mod 2 ^ alpha)" by simp
    also have "\<dots> = 2 ^ 64 * (M div 2 ^ alpha) + 2 ^ (64 - alpha) * (M mod 2 ^ alpha)"
      unfolding pow(1) distrib_left by (simp only: mult.assoc mult.commute mult.left_commute)
    finally show ?thesis unfolding hi lo q by (simp only: distrib_left add.assoc add.commute add.left_commute)
  qed
  have "unat ?lo = B div 2 ^ alpha mod 2 ^ 64" unfolding val[symmetric] using u64_bound[of ?lo] by simp
  then have l1: "unat ?lo + 1 < 2 ^ 64" using carry by (simp add: B_def)
  have l2: "unat (?lo + 1) = unat ?lo + 1" using l1 by (subst unat_plus_exact) simp_all
  have "?lo + 1 \<noteq> 0" using l2 by (metis add_is_0 one_neq_zero unat_0)
  then have "recover_power base p alpha = Some (uint128 ?hi (?lo + 1))"
    by (simp add: recover_power_def Let_def rc_def)
  moreover have "u_val (uint128 ?hi (?lo + 1)) = B div 2 ^ alpha + 1" using val l2 by (simp add: u_val_def)
  ultimately show ?thesis using that unfolding B_def by blast
qed

text \<open>The shift, the room and the carry, for the offsets from a stored power; \<open>p\<close> is the power of five.\<close>

definition offset_shift :: "int \<Rightarrow> nat \<Rightarrow> int" where
  "offset_shift kb off = floor_log2_pow10 (kb + int off) - floor_log2_pow10 kb - int off"

definition offset_ok :: "int \<Rightarrow> int \<Rightarrow> nat \<Rightarrow> int \<Rightarrow> bool" where
  "offset_ok base kb off p \<longleftrightarrow>
     (let alpha = offset_shift kb off; x = drop_bit (nat alpha) (base * p)
      in 0 < alpha \<and> alpha < 64 \<and> drop_bit (nat alpha) p < 2 \<and> x < 0x100000000000000000000000000000000 \<and>
         take_bit 64 x < 0xFFFFFFFFFFFFFFFF)"

fun offsets_ok :: "nat \<Rightarrow> int \<Rightarrow> int \<Rightarrow> nat \<Rightarrow> int \<Rightarrow> bool" where
  "offsets_ok 0 base kb off p \<longleftrightarrow> True"
| "offsets_ok (Suc n) base kb off p \<longleftrightarrow> offset_ok base kb off p \<and> offsets_ok n base kb (Suc off) (5 * p)"

lemma offsets_ok_at: "offsets_ok n base kb off (5 ^ off) \<Longrightarrow> i < n \<Longrightarrow> offset_ok base kb (off + i) (5 ^ (off + i))"
proof (induction n arbitrary: off i)
  case (Suc n)
  show ?case
  proof (cases i)
    case (Suc j)
    have "offsets_ok n base kb (Suc off) (5 ^ Suc off)" using Suc.prems(1) by simp
    from Suc.IH[OF this, of j] show ?thesis using Suc.prems(2) Suc by simp
  qed (use Suc.prems(1) in simp)
qed simp

fun bases_ok :: "int \<Rightarrow> int list \<Rightarrow> bool" where
  "bases_ok kb [] \<longleftrightarrow> True"
| "bases_ok kb (base # bs) \<longleftrightarrow> offsets_ok 26 base kb 1 5 \<and> bases_ok (kb + 27) bs"

lemma bases_ok_at: "bases_ok kb bs \<Longrightarrow> i < length bs \<Longrightarrow> offsets_ok 26 (bs ! i) (kb + 27 * int i) 1 5"
proof (induction bs arbitrary: kb i)
  case (Cons b bs)
  show ?case
  proof (cases i)
    case (Suc j)
    from Cons.IH[of "kb + 27" j] show ?thesis using Cons.prems Suc by (simp add: algebra_simps)
  qed (use Cons.prems(1) in simp)
qed simp

lemma bases_ok_lower: "bases_ok (- 292) (take 12 base_powers)"
  unfolding base_powers_code by code_simp

lemma bases_ok_upper: "bases_ok 32 (drop 12 base_powers)"
  unfolding base_powers_code by code_simp

lemma offset_of_power:
  assumes "i < 24" "1 \<le> off" "off < 27"
  shows "offset_ok (base_powers ! i) (27 * int i - 292) off (5 ^ off)"
proof -
  have "offsets_ok 26 (base_powers ! i) (27 * int i - 292) 1 5"
  proof (cases "i < 12")
    case True
    from bases_ok_at[OF bases_ok_lower, of i] True show ?thesis by (simp add: length_base_powers)
  next
    case False
    from bases_ok_at[OF bases_ok_upper, of "i - 12"] False assms(1)
    show ?thesis by (simp add: length_base_powers of_nat_diff)
  qed
  from offsets_ok_at[of 26 _ _ 1 "off - 1"] this assms(2,3) show ?thesis by simp
qed

lemma power_of_ten_offset:
  "power_of_ten w (kb + int off) = power_of_ten w kb * 5 ^ off / 2 powi (offset_shift kb off)"
proof -
  have e: "int w - 1 - floor_log2_pow10 kb = int w - 1 - floor_log2_pow10 (kb + int off) + offset_shift kb off + int off"
    by (simp add: offset_shift_def)
  have "(2 :: real) powi (int w - 1 - floor_log2_pow10 kb) =
      2 powi (int w - 1 - floor_log2_pow10 (kb + int off)) * 2 powi offset_shift kb off * 2 ^ off"
    unfolding e by (simp only: power_int_add power_int_of_nat zero_neq_numeral[symmetric] simp_thms)
  moreover have "(10 :: real) powi (kb + int off) = 10 powi kb * (2 ^ off * 5 ^ off)"
    by (simp add: power_int_add flip: power_mult_distrib)
  ultimately show ?thesis by (simp add: power_of_ten_def)
qed

text \<open>What the accessor returns, as a number.\<close>

definition cache64 :: "int \<Rightarrow> int" where
  "cache64 k =
     (let i = nat ((k + 292) div 27); off = nat ((k + 292) mod 27); base = base_powers ! i
      in if off = 0 then base else drop_bit (nat (offset_shift (k - int off) off)) (base * 5 ^ off) + 1)"

lemma powers_of_5_val: "off < 27 \<Longrightarrow> unat (powers_of_5_64 ! off) = 5 ^ off"
proof -
  have "map unat powers_of_5_64 = map (\<lambda>n. 5 ^ n) [0..<27]"
    by (simp add: powers_of_5_64_def upt_rec)
  moreover have "length powers_of_5_64 = 27" by (simp add: powers_of_5_64_def)
  ultimately show "off < 27 \<Longrightarrow> ?thesis" by (metis (no_types, lifting) add_0 diff_zero length_upt nth_map nth_upt)
qed

lemma div_less_two: "a div b < 2 \<Longrightarrow> 0 < b \<Longrightarrow> a < 2 * b" for a b :: int
proof -
  assume "a div b < 2" "0 < b"
  then have "b * (a div b) \<le> b * 1" by (intro mult_left_mono) simp_all
  moreover have "a mod b < b" using \<open>0 < b\<close> by (rule pos_mod_bound)
  moreover have "b * (a div b) + a mod b = a" by simp
  ultimately show ?thesis by linarith
qed

lemma real_div_bounds: "real (a div b) \<le> real a / real b" "real a / real b < real (a div b) + 1"
proof -
  have "\<lfloor>real a / real b\<rfloor> = int (a div b)" by (rule floor_divide_of_nat_eq)
  then show "real (a div b) \<le> real a / real b" "real a / real b < real (a div b) + 1" by linarith+
qed

lemma round_up_bounds:
  fixes a v q x p c :: real
  assumes "a \<le> v" "v < a + 1" "0 < q" "q < 2" "x \<le> v * q" "v * q < x + 1" "p = a * q" "c = x + 1"
  shows "p \<le> c" "c < p + 3"
proof -
  have "a * q \<le> v * q" "v * q < (a + 1) * q" using assms(1-3) by simp_all
  then show "p \<le> c" "c < p + 3" using assms(4-8) by (simp_all add: distrib_right)
qed

lemma get_cached_power64_val:
  assumes "- 292 \<le> k" "k \<le> 341"
  shows "\<exists>c. get_cached_power64 k = Some c \<and> int (u_val c) = cache64 k \<and>
    power_of_ten 128 k \<le> real (u_val c) \<and> real (u_val c) < power_of_ten 128 k + 3"
proof -
  define i where "i = nat ((k + 292) div 27)"
  define off where "off = nat ((k + 292) mod 27)"
  define kb where "kb = 27 * int i - 292"
  have i: "int i = (k + 292) div 27" "i < 24" using assms by (simp_all add: i_def)
  have off: "int off = (k + 292) mod 27" "off < 27" by (simp_all add: off_def nat_less_iff)
  have k: "k = kb + int off" unfolding kb_def i off by (simp add: mult_div_mod_eq algebra_simps)
  have kb': "(k + 292) div 27 * 27 - 292 = kb" by (simp add: kb_def i(1))
  have d: "k - kb = int off" and kd: "k - int off = kb" using k by simp_all
  let ?base = "pow10_significands64 ! i"
  have len: "length pow10_significands64 = 24" by (simp add: pow10_significands64_def)
  have b: "base_powers ! i = int (u_val ?base)" using i(2) by (simp add: base_powers_def len)
  have r: "power_of_ten 128 kb \<le> real (u_val ?base)" "real (u_val ?base) < power_of_ten 128 kb + 1"
    using base_powers_round_up[OF i(2)] by (simp_all add: rounds_up_def b kb_def)
  show ?thesis
  proof (cases "off = 0")
    case True
    have "get_cached_power64 k = Some ?base"
      using assms True unfolding get_cached_power64_def Let_def kb' i_def[symmetric] d by simp
    moreover have "cache64 k = int (u_val ?base)"
      using True b by (simp add: cache64_def Let_def i_def[symmetric] off_def[symmetric])
    ultimately show ?thesis using r True by (simp add: k)
  next
    case False
    define al where "al = nat (offset_shift kb off)"
    have ok: "offset_ok (base_powers ! i) kb off (5 ^ off)" unfolding kb_def using False i(2) off(2) by (intro offset_of_power) simp_all
    have al: "offset_shift kb off = int al" "0 < al" "al < 64" using ok by (auto simp: offset_ok_def Let_def al_def)
    let ?p = "powers_of_5_64 ! off"
    let ?x = "u_val ?base * unat ?p div 2 ^ al"
    have p: "unat ?p = 5 ^ off" by (rule powers_of_5_val[OF off(2)])
    have x: "drop_bit al (base_powers ! i * 5 ^ off) = int ?x" by (simp add: b p drop_bit_eq_div zdiv_int)
    have o: "drop_bit al ((5 :: int) ^ off) < 2" "drop_bit al (base_powers ! i * 5 ^ off) < 2 ^ 128"
      "take_bit 64 (drop_bit al (base_powers ! i * 5 ^ off)) < 2 ^ 64 - 1"
      using ok al(1) by (simp_all add: offset_ok_def Let_def)
    have five: "(5 :: real) ^ off < 2 * 2 ^ al"
    proof -
      have "(5 :: int) ^ off < 2 * 2 ^ al" using o(1) by (intro div_less_two) (simp_all add: drop_bit_eq_div)
      then have "real_of_int (5 ^ off) < of_int (2 * 2 ^ al)" by (simp only: of_int_less_iff)
      then show ?thesis by simp
    qed
    have fits: "?x < 2 ^ 128" "?x mod 2 ^ 64 + 1 < 2 ^ 64"
    proof -
      have "int ?x < int (2 ^ 128)" using o(2) unfolding x by simp
      then show "?x < 2 ^ 128" by (simp only: of_nat_less_iff)
      have "int (?x mod 2 ^ 64 + 1) < int (2 ^ 64)" using o(3) unfolding x take_bit_eq_mod by (simp add: zmod_int)
      then show "?x mod 2 ^ 64 + 1 < 2 ^ 64" by (simp only: of_nat_less_iff)
    qed
    obtain c where c: "recover_power ?base ?p al = Some c" "u_val c = ?x + 1"
      by (rule recover_power_val[OF al(2,3) fits])
    show ?thesis
    proof (intro exI conjI)
      show "get_cached_power64 k = Some c"
        using assms False al c(1) unfolding get_cached_power64_def Let_def kb' i_def[symmetric] d offset_shift_def[symmetric]
        by simp
      show "int (u_val c) = cache64 k"
        using False x c(2) kd al(1) unfolding cache64_def Let_def i_def[symmetric] off_def[symmetric] by simp
      let ?q = "(5 :: real) ^ off / 2 ^ al" and ?v = "real (u_val ?base)"
      have pk: "power_of_ten 128 k = power_of_ten 128 kb * ?q" unfolding k power_of_ten_offset al(1) by simp
      have q: "0 < ?q" "?q < 2" using five by (simp_all add: field_simps)
      have z: "real ?x \<le> ?v * ?q" "?v * ?q < real ?x + 1"
      proof -
        have e: "real (u_val ?base * unat ?p) / real (2 ^ al) = ?v * ?q" unfolding p by simp
        show "real ?x \<le> ?v * ?q" "?v * ?q < real ?x + 1"
          using real_div_bounds[of "u_val ?base * unat ?p" "2 ^ al"] unfolding e by (simp_all only:)
      qed
      have c': "real (u_val c) = real ?x + 1" unfolding c(2) by (simp only: of_nat_add of_nat_1)
      show "power_of_ten 128 k \<le> real (u_val c)" by (rule round_up_bounds(1)[OF r q z pk c'])
      show "real (u_val c) < power_of_ten 128 k + 3" by (rule round_up_bounds(2)[OF r q z pk c'])
    qed
  qed
qed

definition cache32 :: "int \<Rightarrow> int" where
  "cache32 k = powers32 ! nat (k + 31)"

lemma get_cached_power32_val:
  assumes "- 31 \<le> k" "k \<le> 46"
  shows "\<exists>c. get_cached_power32 k = Some c \<and> int (unat c) = cache32 k \<and>
    power_of_ten 64 k \<le> real (unat c) \<and> real (unat c) < power_of_ten 64 k + 1"
proof (intro exI conjI)
  have i: "nat (k + 31) < 78" using assms by simp
  have c: "cache32 k = int (unat (pow10_significands32 ! nat (k + 31)))"
    using i length_powers32 by (simp add: cache32_def powers32_def)
  show "get_cached_power32 k = Some (pow10_significands32 ! nat (k + 31))" using assms by (simp add: get_cached_power32_def)
  show "int (unat (pow10_significands32 ! nat (k + 31))) = cache32 k" using c by (rule sym)
  have r: "rounds_up 64 k (cache32 k)"
    using powers32_round_up[OF i] assms by (simp add: cache32_def)
  have e: "real_of_int (cache32 k) = real (unat (pow10_significands32 ! nat (k + 31)))" unfolding c by (rule of_int_of_nat_eq)
  show "power_of_ten 64 k \<le> real (unat (pow10_significands32 ! nat (k + 31)))"
    "real (unat (pow10_significands32 ! nat (k + 31))) < power_of_ten 64 k + 1"
    using r unfolding rounds_up_def e by (rule conjunct1, rule conjunct2)
qed

text \<open>C19: Every cached power of ten that the assertions admit is there, the ones recovered from a stored power and a power of
  five included, and is the leading 128 bits of the power, rounded up, with an error of less than three units of the last bit;
  for \<open>float\<close> the leading 64 bits with an error of less than one.\<close>

theorem cached_powers_of_ten:
  "(- 292 \<le> k \<and> k \<le> 341 \<longrightarrow>
     (\<exists>c. get_cached_power64 k = Some c \<and> power_of_ten 128 k \<le> real (u_val c) \<and> real (u_val c) < power_of_ten 128 k + 3)) \<and>
   (- 31 \<le> k \<and> k \<le> 46 \<longrightarrow>
     (\<exists>c. get_cached_power32 k = Some c \<and> power_of_ten 64 k \<le> real (unat c) \<and> real (unat c) < power_of_ten 64 k + 1))"
  using get_cached_power64_val[of k] get_cached_power32_val[of k] by metis

theorem cached_powers_of_ten_witness:
  "(\<exists>c. get_cached_power64 (- 30) = Some c \<and> power_of_ten 128 (- 30) \<le> real (u_val c) \<and> real (u_val c) < power_of_ten 128 (- 30) + 3) \<and>
   (\<exists>c. get_cached_power32 (- 30) = Some c \<and> power_of_ten 64 (- 30) \<le> real (unat c) \<and> real (unat c) < power_of_ten 64 (- 30) + 1)"
  using cached_powers_of_ten[of "- 30"] by simp

text \<open>The last unit is added also to a power that needs no rounding.\<close>

lemma recovered_not_exact:
  "get_cached_power64 1 = Some (uint128 0xA000000000000000 1)" "power_of_ten 128 1 = 0xA0000000000000000000000000000000"
  by code_simp (simp add: power_of_ten_def floor_log2_pow10_def)

end
