(* ===== verification/Fmt_Dragonbox_Shortest.thy ===== *)
theory Fmt_Dragonbox_Shortest
  imports Fmt_Dragonbox_Props
begin

text \<open>
  The rounding interval of a floating-point number, the shortest decimal numbers in it, and the Dragonbox algorithm over the
  contract that its products with powers of ten are exact.
\<close>

section \<open>The rounding interval\<close>

text \<open>The numbers that are read back as \<open>f * 2 powi e\<close>, when the distance to both neighbours is the same: the ends round to even.\<close>

definition in_interval :: "nat \<Rightarrow> int \<Rightarrow> real \<Rightarrow> bool" where
  "in_interval f e v \<longleftrightarrow>
     (if even f then (2 * real f - 1) * 2 powi (e - 1) \<le> v \<and> v \<le> (2 * real f + 1) * 2 powi (e - 1)
      else (2 * real f - 1) * 2 powi (e - 1) < v \<and> v < (2 * real f + 1) * 2 powi (e - 1))"

text \<open>No other has a larger exponent, and of those with the same exponent none is nearer.\<close>

definition shortest_nearest :: "nat \<Rightarrow> int \<Rightarrow> nat \<Rightarrow> int \<Rightarrow> bool" where
  "shortest_nearest f e n E \<longleftrightarrow> in_interval f e (real n * 10 powi E) \<and>
     (\<forall>m E'. in_interval f e (real m * 10 powi E') \<longrightarrow> E' \<le> E \<and>
        (E' = E \<longrightarrow> \<bar>real n * 10 powi E - real f * 2 powi e\<bar> \<le> \<bar>real m * 10 powi E - real f * 2 powi e\<bar>))"

text \<open>The same, scaled so that the interval has the length \<open>dt\<close>.\<close>

definition scaled :: "nat \<Rightarrow> real \<Rightarrow> real \<Rightarrow> bool" where
  "scaled f dt t \<longleftrightarrow>
     (if even f then (real f - 1 / 2) * dt \<le> t \<and> t \<le> (real f + 1 / 2) * dt
      else (real f - 1 / 2) * dt < t \<and> t < (real f + 1 / 2) * dt)"

lemma in_interval_scaled:
  assumes "dt = 2 powi e * 10 powi k"
  shows "in_interval f e v \<longleftrightarrow> scaled f dt (v * 10 powi k)"
proof -
  have p: "0 < (10 :: real) powi k" by simp
  have e: "(2 :: real) powi e = 2 * 2 powi (e - 1)" by (simp add: power_int_diff)
  have lo: "(real f - 1 / 2) * dt = (2 * real f - 1) * 2 powi (e - 1) * 10 powi k"
    and hi: "(real f + 1 / 2) * dt = (2 * real f + 1) * 2 powi (e - 1) * 10 powi k"
    unfolding assms e by (simp_all add: algebra_simps)
  show ?thesis unfolding in_interval_def scaled_def lo hi
    using p by (simp only: mult_le_cancel_right_pos mult_less_cancel_right_pos)
qed

section \<open>Multiples of the divisors\<close>

lemma integer_iff: "x \<in> \<int> \<longleftrightarrow> x = of_int \<lfloor>x\<rfloor>" for x :: real
  by (metis Ints_cases Ints_of_int floor_of_int)

lemma floor_div_bounds:
  fixes z :: real and B :: int
  assumes "0 < B"
  defines "s \<equiv> \<lfloor>z\<rfloor> div B" and "r \<equiv> \<lfloor>z\<rfloor> mod B"
  shows "of_int (B * s) + of_int r \<le> z" "z < of_int (B * s) + of_int r + 1" "0 \<le> r" "r < B"
proof -
  have "B * s + r = \<lfloor>z\<rfloor>" by (simp add: s_def r_def)
  then have "real_of_int (B * s) + real_of_int r = real_of_int \<lfloor>z\<rfloor>" by (metis of_int_add)
  then show "of_int (B * s) + of_int r \<le> z" "z < of_int (B * s) + of_int r + 1" by linarith+
  show "0 \<le> r" "r < B" using assms(1) by (simp_all add: r_def)
qed

text \<open>At most one multiple of the big divisor is in the interval.\<close>

lemma big_multiple_unique:
  fixes B :: int and dt :: real and f :: nat
  assumes "0 < B" "dt < of_int B" "scaled f dt (of_int (B * t))"
  shows "t = \<lfloor>(real f + 1 / 2) * dt\<rfloor> div B"
proof -
  let ?z = "(real f + 1 / 2) * dt"
  define s where "s = \<lfloor>?z\<rfloor> div B"
  define r where "r = \<lfloor>?z\<rfloor> mod B"
  note b = floor_div_bounds[OF assms(1), of ?z, folded s_def r_def]
  have x: "(real f - 1 / 2) * dt = ?z - dt" by (simp add: algebra_simps)
  have i: "?z - dt \<le> of_int (B * t)" "of_int (B * t) \<le> ?z"
    using assms(3) unfolding scaled_def x by (auto split: if_splits)
  have "of_int (B * t) < real_of_int (B * s + B)" using i(2) b(2,4) by simp
  then have "B * t < B * (s + 1)" by (simp only: of_int_less_iff distrib_left mult_1_right)
  moreover have "real_of_int (B * s - B) < of_int (B * t)" using i(1) b(1,3) assms(2) by simp
  then have "B * (s - 1) < B * t" by (simp only: of_int_less_iff right_diff_distrib mult_1_right)
  ultimately have "t < s + 1" "s - 1 < t" using assms(1) by simp_all
  then show ?thesis unfolding s_def[symmetric] by linarith
qed

lemma big_multiple_in:
  fixes B :: int and dt :: real and f :: nat
  assumes "0 < B" "even B" "1 \<le> dt" "dt < of_int B"
  defines "z \<equiv> (real f + 1 / 2) * dt" and "x \<equiv> (real f - 1 / 2) * dt"
  defines "s \<equiv> \<lfloor>z\<rfloor> div B" and "r \<equiv> \<lfloor>z\<rfloor> mod B"
  shows "scaled f dt (of_int (B * s)) \<longleftrightarrow>
    (r < \<lfloor>dt\<rfloor> \<and> \<not> (r = 0 \<and> z \<in> \<int> \<and> odd f)) \<or> (r = \<lfloor>dt\<rfloor> \<and> (odd \<lfloor>x\<rfloor> \<or> x \<in> \<int> \<and> even f))"
proof -
  note b = floor_div_bounds[OF assms(1), of z, folded s_def r_def]
  have x: "x = z - dt" by (simp add: x_def z_def algebra_simps)
  have sc: "scaled f dt (of_int (B * s)) \<longleftrightarrow>
      (if even f then x \<le> of_int (B * s) \<and> of_int (B * s) \<le> z else x < of_int (B * s) \<and> of_int (B * s) < z)"
    by (simp add: scaled_def x_def z_def)
  have d: "of_int \<lfloor>dt\<rfloor> \<le> dt" "dt < of_int \<lfloor>dt\<rfloor> + 1" "1 \<le> \<lfloor>dt\<rfloor>" using assms(3) by linarith+
  have le: "of_int (B * s) \<le> z" using b(1,3) by linarith
  have eq: "of_int (B * s) = z \<longleftrightarrow> r = 0 \<and> z \<in> \<int>"
  proof
    assume "of_int (B * s) = z"
    then show "r = 0 \<and> z \<in> \<int>" using b(1,3) by (metis Ints_of_int add_le_same_cancel1 of_int_le_0_iff order_antisym)
  next
    assume a: "r = 0 \<and> z \<in> \<int>"
    then have "z = of_int \<lfloor>z\<rfloor>" by (simp add: integer_iff)
    moreover have "\<lfloor>z\<rfloor> = B * s" using a by (metis add.right_neutral mult_div_mod_eq r_def s_def)
    ultimately show "of_int (B * s) = z" by simp
  qed
  consider (lt) "r < \<lfloor>dt\<rfloor>" | (gt) "r > \<lfloor>dt\<rfloor>" | (eq) "r = \<lfloor>dt\<rfloor>" by linarith
  then show ?thesis
  proof cases
    case lt
    then have "x < of_int (B * s)" using b(2) d x by linarith
    then show ?thesis using lt sc le eq by auto
  next
    case gt
    then have "of_int (B * s) < x" using b(1) d x by linarith
    then show ?thesis using gt sc by auto
  next
    case eq'': eq
    have lt: "of_int (B * s) < z" using b(1) d eq'' by linarith
    have ev: "even (B * s)" using assms(2) by simp
    have near: "of_int (B * s) - 1 < x" "x < of_int (B * s) + 1" using b(1,2) d x eq'' by linarith+
    consider "x < of_int (B * s)" | "x = of_int (B * s)" | "of_int (B * s) < x" by linarith
    then show ?thesis
    proof cases
      case 1
      then have "\<lfloor>x\<rfloor> = B * s - 1" using near by linarith
      then show ?thesis using 1 sc lt eq'' ev by auto
    next
      case 2
      then have "x \<in> \<int>" "\<lfloor>x\<rfloor> = B * s" by (simp_all only: Ints_of_int floor_of_int)
      then show ?thesis using 2 sc lt eq'' ev by auto
    next
      case 3
      then have f: "\<lfloor>x\<rfloor> = B * s" using near by linarith
      have "x \<notin> \<int>"
      proof
        assume "x \<in> \<int>"
        then have "x = of_int \<lfloor>x\<rfloor>" by (simp add: integer_iff)
        then show False using 3 f by simp
      qed
      then show ?thesis using 3 sc eq'' f ev by auto
    qed
  qed
qed

text \<open>The multiple of the small divisor that step 3 takes is the nearest to the number, \<open>A\<close> being at most one off its floor.\<close>

definition small_multiple :: "int \<Rightarrow> real \<Rightarrow> int \<Rightarrow> int \<Rightarrow> int" where
  "small_multiple S y s d =
     (let q = 10 * s + d div S
      in if \<not> S dvd d then q
         else if odd \<lfloor>y\<rfloor> \<noteq> odd (d - S div 2) then q - 1
         else if y \<in> \<int> \<and> odd q then q - 1 else q)"

lemma small_multiple_near:
  fixes S A s :: int
  assumes "even S" "0 < S" "of_int A - 1 < y" "y < of_int A + 1"
  shows "\<bar>of_int (small_multiple S y s (A - 10 * S * s + S div 2) * S) - y\<bar> \<le> of_int S / 2"
proof -
  define d where "d = A - 10 * S * s + S div 2"
  define q where "q = 10 * s + d div S"
  obtain h where h: "S = 2 * h" "1 \<le> h" using assms(1,2) by (auto elim: evenE)
  have qS: "q * S = A + h - d mod S"
  proof -
    have "q * S = 10 * S * s + S * (d div S)" by (simp add: q_def algebra_simps)
    also have "S * (d div S) = d - d mod S" by (simp add: minus_mod_eq_mult_div)
    finally show ?thesis using h by (simp add: d_def)
  qed
  have half: "real_of_int S / 2 = of_int h" using h by simp
  show ?thesis
  proof (cases "S dvd d")
    case False
    then have "d mod S \<noteq> 0" by (simp add: dvd_eq_mod_eq_0)
    moreover have "0 \<le> d mod S" "d mod S < S" using assms(2) by simp_all
    ultimately have m: "0 < d mod S" "d mod S < S" by linarith+
    have "q * S \<le> A + h - 1" "A + h + 1 - S \<le> q * S" using qS m by linarith+
    then have "real_of_int (q * S) \<le> of_int A + of_int h - 1" "of_int A + of_int h + 1 - of_int S \<le> real_of_int (q * S)" by linarith+
    then have "\<bar>real_of_int (q * S) - y\<bar> \<le> of_int h" using assms(3,4) h by (simp add: abs_le_iff)
    then show ?thesis using False unfolding half small_multiple_def d_def[symmetric] q_def[symmetric] Let_def by simp
  next
    case True
    then have e: "q * S = A + h" using qS by simp
    have par: "odd (d - S div 2) \<longleftrightarrow> odd A" unfolding d_def by (simp add: h)
    have e1: "(q - 1) * S = A - h" using e h by (simp add: algebra_simps)
    have r: "real_of_int (q * S) = of_int A + of_int h" "real_of_int ((q - 1) * S) = of_int A - of_int h"
      unfolding e e1 by simp_all
    have h1: "1 \<le> real_of_int h" using h by simp
    consider "y < of_int A" | "y = of_int A" | "of_int A < y" by linarith
    then show ?thesis
    proof cases
      case 1
      then have "\<lfloor>y\<rfloor> = A - 1" using assms(3) by linarith
      then have "small_multiple S y s d = q - 1" using True par unfolding small_multiple_def q_def[symmetric] Let_def by auto
      then show ?thesis unfolding d_def[symmetric] half using r(2) 1 assms(3) h1 by (simp add: abs_le_iff)
    next
      case 2
      then have "\<lfloor>y\<rfloor> = A" by simp
      then have "small_multiple S y s d = q \<or> small_multiple S y s d = q - 1"
        unfolding small_multiple_def q_def[symmetric] Let_def using True par by auto
      then show ?thesis unfolding d_def[symmetric] half using r 2 h1 by auto
    next
      case 3
      then have f: "\<lfloor>y\<rfloor> = A" using assms(4) by linarith
      then have "y \<notin> \<int>" using 3 by (auto simp: integer_iff)
      then have "small_multiple S y s d = q" using True par f unfolding small_multiple_def q_def[symmetric] Let_def by auto
      then show ?thesis unfolding d_def[symmetric] half using r(1) 3 assms(4) h1 by (simp add: abs_le_iff)
    qed
  qed
qed

text \<open>Such a multiple is in the interval, and no other is nearer.\<close>

lemma near_multiple_in:
  fixes S N :: int
  assumes "0 < S" "of_int S \<le> dt" "\<bar>of_int (N * S) - real f * dt\<bar> \<le> of_int S / 2"
  shows "scaled f dt (of_int (N * S))"
proof -
  have lo: "(real f - 1 / 2) * dt = real f * dt - dt / 2" and hi: "(real f + 1 / 2) * dt = real f * dt + dt / 2"
    by (simp_all add: algebra_simps)
  have b: "real f * dt - dt / 2 \<le> of_int (N * S)" "of_int (N * S) \<le> real f * dt + dt / 2"
    using assms(2,3) unfolding abs_le_iff by linarith+
  show ?thesis
  proof (cases "even f")
    case True
    then show ?thesis using b unfolding scaled_def lo hi by simp
  next
    case False
    have "\<bar>of_int (N * S) - real f * dt\<bar> \<noteq> dt / 2"
    proof
      assume a: "\<bar>of_int (N * S) - real f * dt\<bar> = dt / 2"
      then have d: "dt = of_int S" using assms(2,3) by linarith
      then have "\<bar>real_of_int (N * S) - of_int (int f * S)\<bar> = of_int S / 2" using a by simp
      then have "real_of_int (2 * \<bar>N * S - int f * S\<bar>) = of_int S" by simp
      then have "2 * \<bar>N * S - int f * S\<bar> = S" by (simp only: of_int_eq_iff)
      then have "2 * (\<bar>N - int f\<bar> * S) = S" using assms(1) by (simp add: abs_mult flip: left_diff_distrib)
      then have "(2 * \<bar>N - int f\<bar>) * S = 1 * S" by simp
      then have "2 * \<bar>N - int f\<bar> = 1" using assms(1) by (simp only: mult_right_cancel)
      then show False by presburger
    qed
    then have "real f * dt - dt / 2 < of_int (N * S)" "of_int (N * S) < real f * dt + dt / 2"
      using b assms(2) by (auto simp: order_less_le abs_if split: if_splits)
    then show ?thesis using False unfolding scaled_def lo hi by simp
  qed
qed

lemma near_multiple_nearest:
  fixes S N M :: int and y :: real
  assumes "0 < S" "\<bar>of_int (N * S) - y\<bar> \<le> of_int S / 2"
  shows "\<bar>of_int (N * S) - y\<bar> \<le> \<bar>of_int (M * S) - y\<bar>"
proof (cases "M = N")
  case False
  then have "1 * S \<le> \<bar>M - N\<bar> * S" using assms(1) by (intro mult_right_mono) simp_all
  then have "S \<le> \<bar>M * S - N * S\<bar>" using assms(1) by (simp add: abs_mult flip: left_diff_distrib)
  then have "of_int S \<le> \<bar>real_of_int (M * S) - of_int (N * S)\<bar>" by linarith
  then show ?thesis using assms(2) by linarith
qed simp

section \<open>The algorithm\<close>

lemma odd_unat: "odd (unat a) \<longleftrightarrow> bit a 0" for a :: "'a::len word"
  by (simp add: bit_unsigned_iff flip: bit_0)

lemma odd_xor: "(a XOR b) AND 1 \<noteq> 0 \<longleftrightarrow> odd (unat a) \<noteq> odd (unat b)" for a b :: "'a::len word"
proof -
  have "w AND 1 \<noteq> 0 \<longleftrightarrow> bit w 0" for w :: "'a word"
    by (simp add: and_one_eq odd_iff_mod_2_eq_one[symmetric] bit_0)
  then show ?thesis unfolding odd_unat by (simp add: bit_simps)
qed

lemma unat_times_ten:
  fixes w :: "'a::len word"
  assumes "10 * unat w < 2 ^ LENGTH('a)" "10 < (2 :: nat) ^ LENGTH('a)"
  shows "unat (w * 10) = unat w * 10"
proof -
  have ten: "unat (10 :: 'a word) = 10" using unat_of_nat[of 10, where 'a = 'a] assms(2) by (simp only: of_nat_numeral mod_less)
  show ?thesis using assms(1) by (subst unat_times_exact) (simp_all only: ten mult.commute)
qed

lemma odd_minus_half: "odd (int m - int n div 2) \<longleftrightarrow> odd m \<noteq> odd (n div 2)"
proof -
  have "int n div 2 = int (n div 2)" by simp
  then show ?thesis by (simp del: zdiv_int)
qed

lemma mod_two_odd:
  fixes w :: "'a::len word"
  assumes "1 < LENGTH('a)"
  shows "w mod 2 \<noteq> 0 \<longleftrightarrow> odd (unat w)"
proof -
  have "(2 :: nat) ^ 1 < 2 ^ LENGTH('a)" using assms by (rule power_strict_increasing) simp
  then have "unat (2 :: 'a word) = 2" using unat_of_nat[of 2, where 'a = 'a] by (simp only: of_nat_numeral mod_less power_one_right)
  then show ?thesis by (simp only: word_unat_eq_iff unat_mod unat_0 odd_iff_mod_2_eq_one) presburger
qed

lemma unat_minus_one_pos: "1 < unat w \<Longrightarrow> int (unat (w - 1)) = int (unat w) - 1" for w :: "'a::len word"
  by (simp add: unat_sub_if_size word_le_nat_alt)

lemma small_choice:
  fixes q :: "'a::len word"
  assumes q: "int (unat q) = 10 * s + d div S" and pos: "0 < small_multiple S y s d"
  shows "int (unat (if \<not> S dvd d then q else if odd \<lfloor>y\<rfloor> \<noteq> odd (d - S div 2) then q - 1
      else if y \<in> \<int> \<and> odd (unat q) then q - 1 else q)) = small_multiple S y s d"
proof -
  have o: "odd (10 * s + d div S) \<longleftrightarrow> odd (unat q)" using q by (metis even_of_nat)
  have m: "int (unat (q - 1)) = int (unat q) - 1" if "small_multiple S y s d = int (unat q) - 1"
    by (rule unat_minus_one_pos) (use that pos in linarith)
  show ?thesis using m unfolding small_multiple_def Let_def o q[symmetric] by (auto simp del: of_nat_unat split: if_splits)
qed

text \<open>The power of ten a number is scaled by, the shift of its significand, and the length of the scaled interval.\<close>

definition scale :: "('w, 'c) float_info \<Rightarrow> int \<Rightarrow> int" where
  "scale fi e = int (kappa fi) - floor_log10_pow2 e"

definition beta :: "('w, 'c) float_info \<Rightarrow> int \<Rightarrow> int" where
  "beta fi e = e + floor_log2_pow10 (scale fi e)"

definition delta :: "('w, 'c) float_info \<Rightarrow> int \<Rightarrow> real" where
  "delta fi e = 2 powi e * 10 powi scale fi e"

text \<open>
  What the algorithm relies on, for the numbers \<open>f * 2 powi e\<close> that are \<open>ok\<close>: the divisions are right, there is room in a carrier,
  and the products with the cached power have the floor and the integrality of the exact products.
\<close>

locale exact_products =
  fixes fi :: "('a::len word, 'c) float_info" and ok :: "nat \<Rightarrow> int \<Rightarrow> bool"
  assumes width: "32 \<le> LENGTH('a)"
    and kappa_cases: "kappa fi = 1 \<or> kappa fi = 2"
    and divisors: "small_divisor fi = 10 ^ kappa fi" "big_divisor fi = 10 ^ (kappa fi + 1)"
    and divide: "unat n < 2 ^ (LENGTH('a) - 1) \<Longrightarrow>
      unat (divide_by_10_to_kappa_plus_1 fi n) = unat n div 10 ^ (kappa fi + 1)"
    and zeros: "n \<noteq> 0 \<Longrightarrow> unat n * 10 ^ (kappa fi + 1) < 2 ^ (LENGTH('a) - 1) \<Longrightarrow>
      \<exists>n' t. remove_trailing_zeros fi n = Some (n', int t) \<and> unat n = unat n' * 10 ^ t \<and> \<not> 10 dvd unat n'"
    and room: "ok f e \<Longrightarrow> 0 < f \<and> (2 * f + 1) * 10 ^ (kappa fi + 1) < 2 ^ LENGTH('a) \<and>
      (2 * f + 1) * 2 ^ nat (beta fi e) < 2 ^ LENGTH('a)"
    and delta_range: "ok f e \<Longrightarrow> 10 ^ kappa fi \<le> delta fi e \<and> delta fi e < 10 ^ (kappa fi + 1)"
    and cached: "ok f e \<Longrightarrow> get_cached_power fi (scale fi e) \<noteq> None"
    and delta_floor: "ok f e \<Longrightarrow> get_cached_power fi (scale fi e) = Some c \<Longrightarrow>
      unat (compute_delta fi c (beta fi e)) = nat \<lfloor>delta fi e\<rfloor>"
    and mul: "ok f e \<Longrightarrow> get_cached_power fi (scale fi e) = Some c \<Longrightarrow>
      compute_mul fi (of_nat ((2 * f + 1) * 2 ^ nat (beta fi e))) c =
        (of_nat (nat \<lfloor>(real f + 1 / 2) * delta fi e\<rfloor>), (real f + 1 / 2) * delta fi e \<in> \<int>)"
    and parity_left: "ok f e \<Longrightarrow> get_cached_power fi (scale fi e) = Some c \<Longrightarrow>
      compute_mul_parity fi (of_nat (2 * f - 1)) c (beta fi e) =
        Some (odd \<lfloor>(real f - 1 / 2) * delta fi e\<rfloor>, (real f - 1 / 2) * delta fi e \<in> \<int>)"
    and parity_mid: "ok f e \<Longrightarrow> get_cached_power fi (scale fi e) = Some c \<Longrightarrow>
      compute_mul_parity fi (of_nat (2 * f)) c (beta fi e) =
        Some (odd \<lfloor>real f * delta fi e\<rfloor>, real f * delta fi e \<in> \<int>)"
begin

abbreviation S :: nat where "S \<equiv> 10 ^ kappa fi"

lemma S_facts: "even S" "0 < S" "S \<le> 100" "10 \<le> S" "even (S div 2) \<or> S = 10"
  using kappa_cases by auto

lemma small_width: "1000 < (2 :: nat) ^ LENGTH('a)"
proof -
  have "(2 :: nat) ^ 32 \<le> 2 ^ LENGTH('a)" using width by (intro power_increasing) simp_all
  then show ?thesis by simp
qed

text \<open>Step 3, from any multiple of the big divisor at most as large as the floor of the upper end.\<close>

lemma small_divisor_case_val:
  fixes sig :: "'a word" and r :: u32
  assumes ok: "ok f e" and c: "get_cached_power fi (scale fi e) = Some c"
    and z: "10 * S * unat sig + unat r = nat \<lfloor>(real f + 1 / 2) * delta fi e\<rfloor>"
    and r: "nat \<lfloor>delta fi e\<rfloor> div 2 \<le> unat r" "unat r \<le> 10 * S"
  shows "\<exists>N. small_divisor_case fi c (beta fi e) mk (of_nat (2 * f)) (compute_delta fi c (beta fi e)) sig r =
      Some (N, mk + int (kappa fi)) \<and> \<bar>real (unat N * S) - real f * delta fi e\<bar> \<le> real S / 2"
proof -
  let ?dt = "delta fi e" and ?di = "nat \<lfloor>delta fi e\<rfloor>" and ?y = "real f * delta fi e"
  let ?D = "unat r - ?di div 2 + S div 2" and ?zi = "nat \<lfloor>(real f + 1 / 2) * delta fi e\<rfloor>"
  note dr = delta_range[OF ok]
  have f: "0 < f" "(2 * f + 1) * (10 * S) < 2 ^ LENGTH('a)" using room[OF ok] by simp_all
  have di: "S \<le> ?di" "real ?di \<le> ?dt" "?dt < real ?di + 1"
  proof -
    have "0 \<le> ?dt" using dr by (meson order.trans zero_le_numeral zero_le_power)
    then show "real ?di \<le> ?dt" "?dt < real ?di + 1" by linarith+
    have "real S \<le> ?dt" using dr by simp
    then have "int S \<le> \<lfloor>?dt\<rfloor>" by (simp add: le_floor_iff)
    then show "S \<le> ?di" by linarith
  qed
  have zpos: "0 \<le> (real f + 1 / 2) * ?dt" using dr by (simp add: order.trans[OF _ conjunct1[OF dr]])
  have zi: "real ?zi \<le> ?y + ?dt / 2" "?y + ?dt / 2 < real ?zi + 1"
  proof -
    have e: "(real f + 1 / 2) * ?dt = ?y + ?dt / 2" by (simp add: algebra_simps)
    show "real ?zi \<le> ?y + ?dt / 2" "?y + ?dt / 2 < real ?zi + 1" using zpos unfolding e by linarith+
  qed
  have D_le: "?D \<le> 10 * S" "10 * S * unat sig + ?D \<le> ?zi"
  proof -
    have "S div 2 \<le> ?di div 2" using di(1) by (rule div_le_mono)
    then show "?D \<le> 10 * S" "10 * S * unat sig + ?D \<le> ?zi" using r z by linarith+
  qed
  have zi_less: "?zi < 2 ^ LENGTH('a)"
  proof -
    have "?dt < real (10 * S)" using dr by simp
    then have "(2 * real f + 1) * ?dt < (2 * real f + 1) * real (10 * S)" by (intro mult_strict_left_mono) simp_all
    moreover have "(2 * real f + 1) * ?dt = 2 * ?y + ?dt" by (simp add: algebra_simps)
    moreover have "(2 * real f + 1) * real (10 * S) = real ((2 * f + 1) * (10 * S))" by (subst of_nat_mult) simp
    ultimately have "2 * ?y + ?dt < real ((2 * f + 1) * (10 * S))" by (simp only:)
    then have "2 * real ?zi < real ((2 * f + 1) * (10 * S))" using zi(1) by linarith
    then have "real ?zi < real ((2 * f + 1) * (10 * S))" by linarith
    then show ?thesis using f(2) by (simp only: of_nat_less_iff)
  qed
  let ?dw = "r - compute_delta fi c (beta fi e) div 2 + of_nat (S div 2)"
  have dist: "unat ?dw = ?D"
  proof -
    have h: "unat (compute_delta fi c (beta fi e) div 2) = ?di div 2" by (simp add: unat_div delta_floor[OF ok c])
    then have m: "unat (r - compute_delta fi c (beta fi e) div 2) = unat r - ?di div 2"
      using r(1) by (simp add: unat_sub_if' word_le_nat_alt)
    have t: "unat (of_nat (S div 2) :: u32) = S div 2" using S_facts(3) by (simp add: unat_of_nat)
    have "10 * S \<le> 1000" using S_facts(3) by linarith
    then have "unat r - ?di div 2 + S div 2 < 2 ^ 32" by (intro le_less_trans[OF D_le(1)] le_less_trans[of "10 * S" 1000]) simp_all
    then show ?thesis by (subst unat_plus_exact) (simp_all only: m t, simp_all)
  qed
  define s where "s = int (unat sig)"
  define A where "A = int ?zi - int (?di div 2)"
  have dA: "int ?D = A - 10 * int S * s + int S div 2"
  proof -
    have "int ?D = int (unat r) - int (?di div 2) + int (S div 2)" using r(1) by simp
    moreover have "int ?zi = 10 * int S * s + int (unat r)" using z[symmetric] by (simp add: s_def)
    ultimately show ?thesis by (simp add: A_def zdiv_int)
  qed
  have A: "real_of_int A - 1 < ?y" "?y < real_of_int A + 1"
  proof -
    have h: "2 * real (n div 2) \<le> real n" "real n \<le> 2 * real (n div 2) + 1" for n :: nat by linarith+
    note a = h[of ?di]
    have "real_of_int A = real ?zi - real (?di div 2)" by (simp only: A_def of_int_diff of_int_of_nat_eq)
    then show "real_of_int A - 1 < ?y" "?y < real_of_int A + 1" using zi di(2,3) a by argo+
  qed
  define N where "N = small_multiple (int S) ?y s (int ?D)"
  have near: "\<bar>of_int (N * int S) - ?y\<bar> \<le> real S / 2"
  proof -
    have "even (int S)" "0 < int S" using S_facts(1,2) by (simp_all only: even_of_nat of_nat_0_less_iff)
    from small_multiple_near[OF this A, of s] show ?thesis unfolding N_def dA of_int_of_nat_eq .
  qed
  have Npos: "0 < N"
  proof -
    have "1 * real S \<le> ?y" using f(1) dr by (intro mult_mono) simp_all
    moreover have "0 < real S" by simp
    ultimately have "0 < real_of_int (N * int S)" using near by linarith
    then show ?thesis by (simp add: zero_less_mult_iff)
  qed
  have "unat ?dw \<le> 10 ^ (kappa fi + 1)" using D_le(1) unfolding dist by simp
  then obtain dv small where dv: "check_divisibility_and_divide_by_pow10 (kappa fi) ?dw = Some (dv, small)"
    and chk: "unat dv = ?D div S" "small \<longleftrightarrow> S dvd ?D"
    using check_divisibility_val[OF kappa_cases, of ?dw] unfolding dist by metis
  let ?q = "sig * 10 + ucast dv"
  have q: "unat ?q = 10 * unat sig + ?D div S"
  proof -
    have "10 * unat sig + ?D div S \<le> 10 * S * unat sig + ?D" by (intro add_mono div_le_dividend) simp
    then have lt: "10 * unat sig + ?D div S < 2 ^ LENGTH('a)" using D_le(2) zi_less by (meson le_less_trans)
    have "unat (sig * 10) = unat sig * 10" by (rule unat_times_ten) (use small_width lt in linarith)+
    moreover have "unat (ucast dv :: 'a word) = ?D div S"
      using width by (simp add: unat_up chk(1))
    ultimately show ?thesis using lt by (subst unat_plus_exact) simp_all
  qed
  have iq: "int (unat ?q) = 10 * s + int ?D div int S" unfolding q by (simp add: s_def zdiv_int)
  have par: "(?dw XOR of_nat (S div 2)) AND 1 \<noteq> 0 \<longleftrightarrow> odd (int ?D - int S div 2)"
  proof -
    have t: "unat (of_nat (S div 2) :: u32) = S div 2" using S_facts(3) by (simp add: unat_of_nat)
    show ?thesis unfolding odd_xor dist t odd_minus_half by (rule refl)
  qed
  have qodd: "?q mod 2 \<noteq> 0 \<longleftrightarrow> odd (unat ?q)"
by (rule mod_two_odd) (use width in simp)
  define w where "w = (if \<not> int S dvd int ?D then ?q else if odd \<lfloor>?y\<rfloor> \<noteq> odd (int ?D - int S div 2) then ?q - 1
    else if ?y \<in> \<int> \<and> odd (unat ?q) then ?q - 1 else ?q)"
  have w: "int (unat w) = N" unfolding w_def N_def by (rule small_choice[OF iq Npos[unfolded N_def]])
  have "small_divisor_case fi c (beta fi e) mk (of_nat (2 * f)) (compute_delta fi c (beta fi e)) sig r =
      Some (w, mk + int (kappa fi))"
    unfolding small_divisor_case_def Let_def divisors(1) dv parity_mid[OF ok c] option.case prod.case chk(2) par qodd w_def int_dvd_int_iff
    by (simp only: simp_thms split: if_split) blast
  moreover have "\<bar>real (unat w * S) - ?y\<bar> \<le> real S / 2"
    using near w by (metis of_int_of_nat_eq of_nat_mult)
  ultimately show ?thesis by blast
qed

text \<open>The upper end of the interval: its floor, and the quotient and remainder by the big divisor.\<close>

lemma upper_end:
  assumes ok: "ok f e"
  shows "nat \<lfloor>(real f + 1 / 2) * delta fi e\<rfloor> < 2 ^ (LENGTH('a) - 1)" "10 \<le> nat \<lfloor>(real f + 1 / 2) * delta fi e\<rfloor>"
    "0 < \<lfloor>(real f + 1 / 2) * delta fi e\<rfloor>"
proof -
  let ?z = "(real f + 1 / 2) * delta fi e"
  have f: "0 < f" "(2 * f + 1) * (10 * S) < 2 ^ LENGTH('a)" using room[OF ok] by simp_all
  have "?z < (real f + 1 / 2) * (10 * real S)" using delta_range[OF ok] by (intro mult_strict_left_mono) simp_all
  also have "\<dots> = real ((2 * f + 1) * (10 * S)) / 2" by (subst of_nat_mult) (simp add: algebra_simps)
  also have "\<dots> < real (2 ^ LENGTH('a)) / 2" using f(2) by (simp only: of_nat_less_iff divide_strict_right_mono zero_less_numeral)
  also have "\<dots> = real (2 ^ (LENGTH('a) - 1))" by (cases "LENGTH('a)") simp_all
  finally have lt: "?z < real (2 ^ (LENGTH('a) - 1))" .
  have "1 * real S \<le> ?z" using f(1) delta_range[OF ok] by (intro mult_mono) simp_all
  moreover have "real 10 \<le> real S" using S_facts(4) by (simp only: of_nat_le_iff)
  ultimately have ge: "10 \<le> ?z" by linarith
  then show "10 \<le> nat \<lfloor>?z\<rfloor>" "0 < \<lfloor>?z\<rfloor>" by linarith+
  have "real (nat \<lfloor>?z\<rfloor>) < real (2 ^ (LENGTH('a) - 1))" using lt ge by linarith
  then show "nat \<lfloor>?z\<rfloor> < 2 ^ (LENGTH('a) - 1)" by (simp only: of_nat_less_iff)
qed

end

end
