(* ===== verification/Fmt_Dragonbox_Regular.thy ===== *)
theory Fmt_Dragonbox_Regular
  imports Fmt_Dragonbox_Shortest
begin

text \<open>
  The regular case of Dragonbox gives the shortest decimal number of the rounding interval that is nearest to the value.
\<close>

section \<open>Steps 1 and 2\<close>

lemma word_remainder:
  fixes q :: "'a::len word"
  assumes "unat q = n div b"
  shows "of_nat n - of_nat b * q = of_nat (n mod b)"
proof -
  have "of_nat n = (of_nat (b * (n div b) + n mod b) :: 'a word)" by (simp only: mult_div_mod_eq)
  also have "\<dots> = of_nat b * of_nat (unat q) + of_nat (n mod b)" by (simp only: assms of_nat_add of_nat_mult)
  also have "of_nat (unat q) = q" by simp
  finally show ?thesis by simp
qed

context exact_products
begin

lemma arguments:
  assumes ok: "ok f e"
  shows "(of_nat f :: 'a word) mod 2 = 0 \<longleftrightarrow> even f" "push_bit 1 (of_nat f :: 'a word) = of_nat (2 * f)"
    "push_bit (nat b) ((of_nat (2 * f) :: 'a word) OR 1) = of_nat ((2 * f + 1) * 2 ^ nat b)"
    "(of_nat (2 * f) :: 'a word) - 1 = of_nat (2 * f - 1)"
proof -
  have f: "0 < f" "(2 * f + 1) * (10 * S) < 2 ^ LENGTH('a)" using room[OF ok] by simp_all
  have "f * 1 \<le> (2 * f + 1) * (10 * S)" by (intro mult_le_mono) (simp_all add: Suc_le_eq)
  then have "unat (of_nat f :: 'a word) = f" using f(2) by (simp only: unat_of_nat mod_less mult_1_right)
  then show "(of_nat f :: 'a word) mod 2 = 0 \<longleftrightarrow> even f"
    using mod_two_odd[where 'a = 'a and w = "of_nat f"] width by auto
  show p: "push_bit 1 (of_nat f :: 'a word) = of_nat (2 * f)" by (simp add: push_bit_eq_mult)
  have "(of_nat (2 * f) :: 'a word) OR 1 = of_nat (2 * f + 1)" by (simp add: or_one_eq)
  then show "push_bit (nat b) ((of_nat (2 * f) :: 'a word) OR 1) = of_nat ((2 * f + 1) * 2 ^ nat b)"
    by (simp only: push_bit_eq_mult of_nat_mult of_nat_power of_nat_numeral)
  show "(of_nat (2 * f) :: 'a word) - 1 = of_nat (2 * f - 1)" using f(1) by (simp add: of_nat_diff)
qed

lemma regular_case_split:
  fixes f :: nat and e :: int
  defines "z \<equiv> (real f + 1 / 2) * delta fi e" and "zi \<equiv> nat \<lfloor>(real f + 1 / 2) * delta fi e\<rfloor>"
  assumes ok: "ok f e" and c: "get_cached_power fi (scale fi e) = Some c"
  obtains sg r where "unat sg = zi div (10 * S)" "unat r = zi mod (10 * S)"
    "\<not> scaled f (delta fi e) (of_int (int (10 * S) * int (zi div (10 * S)))) \<Longrightarrow> \<not> (unat r = 0 \<and> z \<in> \<int>) \<Longrightarrow> nat \<lfloor>delta fi e\<rfloor> \<le> unat r"
    "regular_case fi (of_nat f) e =
      (if scaled f (delta fi e) (of_int (int (10 * S) * int (zi div (10 * S))))
       then without_zeros fi sg (int (kappa fi) + 1 - scale fi e)
       else if unat r = 0 \<and> z \<in> \<int> then
         small_divisor_case fi c (beta fi e) (- scale fi e) (of_nat (2 * f)) (compute_delta fi c (beta fi e)) (sg - 1) (of_nat (10 * S))
       else small_divisor_case fi c (beta fi e) (- scale fi e) (of_nat (2 * f)) (compute_delta fi c (beta fi e)) sg r)"
proof -
  let ?B = "10 * S" and ?dt = "delta fi e" and ?x = "(real f - 1 / 2) * delta fi e"
  define sg where "sg = divide_by_10_to_kappa_plus_1 fi (of_nat zi)"
  define r :: u32 where "r = ucast (of_nat zi - of_nat (big_divisor fi) * sg)"
  note up = upper_end[OF ok, folded zi_def]
  have B: "0 < ?B" "even ?B" "?B \<le> 1000" using S_facts by simp_all
  have lt: "zi < 2 ^ LENGTH('a)" using up(1) by (rule less_le_trans) simp
  have zi: "unat (of_nat zi :: 'a word) = zi" using lt by (simp only: unat_of_nat mod_less)
  have sg: "unat sg = zi div ?B" using divide[of "of_nat zi"] up(1) unfolding zi sg_def by simp
  have r: "unat r = zi mod ?B"
  proof -
    have "r = of_nat (zi mod ?B)"
      unfolding r_def divisors(2) add_0_right using word_remainder[OF sg] order.strict_trans1[OF mod_less_eq_dividend lt]
      by (simp add: unsigned_of_nat take_bit_nat_eq_self)
    moreover have "zi mod ?B < 2 ^ 32" using less_le_trans[OF mod_less_divisor[OF B(1)], of 1000 zi] B(3) by simp
    ultimately show ?thesis by (simp only: unat_of_nat len_num1 len_bit0 mod_less) simp
  qed
  have zf: "\<lfloor>z\<rfloor> = int zi" using up(3) by (simp add: z_def zi_def)
  have dv: "\<lfloor>z\<rfloor> div int ?B = int (zi div ?B)" "\<lfloor>z\<rfloor> mod int ?B = int (zi mod ?B)" unfolding zf by (simp_all only: zdiv_int zmod_int)
  note dr = delta_range[OF ok]
  have dt: "1 \<le> ?dt" "?dt < of_int (int ?B)"
    using order.trans[OF one_le_power conjunct1[OF dr]] conjunct2[OF dr] by simp_all
  have big: "scaled f ?dt (of_int (int ?B * int (zi div ?B))) \<longleftrightarrow>
      (int (zi mod ?B) < \<lfloor>?dt\<rfloor> \<and> \<not> (int (zi mod ?B) = 0 \<and> z \<in> \<int> \<and> odd f)) \<or>
      (int (zi mod ?B) = \<lfloor>?dt\<rfloor> \<and> (odd \<lfloor>?x\<rfloor> \<or> ?x \<in> \<int> \<and> even f))"
    using big_multiple_in[of "int ?B" ?dt f] B(1,2) dt unfolding dv[unfolded z_def] z_def by simp
  let ?di = "compute_delta fi c (beta fi e)"
  let ?small = "small_divisor_case fi c (beta fi e) (- scale fi e) (of_nat (2 * f)) ?di"
  let ?big = "without_zeros fi sg (int (kappa fi) + 1 - scale fi e)"
  have mk: "floor_log10_pow2 e - int (kappa fi) = - scale fi e" "- scale fi e + int (kappa fi) + 1 = int (kappa fi) + 1 - scale fi e"
    by (simp_all add: scale_def)
  have bd: "big_divisor fi = ?B" by (simp add: divisors(2))
  have eq: "regular_case fi (of_nat f) e =
      (if r < ?di then (if r = 0 \<and> z \<in> \<int> \<and> \<not> even f then ?small (sg - 1) (of_nat ?B) else ?big)
       else if ?di < r then ?small sg r
       else if \<not> (odd \<lfloor>?x\<rfloor> \<or> ?x \<in> \<int> \<and> even f) then ?small sg r else ?big)"
    unfolding regular_case_def Let_def mk minus_minus c option.case beta_def[symmetric] arguments[OF ok] mul[OF ok c]
      parity_left[OF ok c] prod.case zi_def[symmetric]
    unfolding z_def[symmetric] sg_def[symmetric] unfolding r_def[symmetric] unfolding bd by (rule refl)
  have cmp: "r < ?di \<longleftrightarrow> int (zi mod ?B) < \<lfloor>?dt\<rfloor>" "?di < r \<longleftrightarrow> \<lfloor>?dt\<rfloor> < int (zi mod ?B)"
    using dt(1) unfolding word_less_nat_alt delta_floor[OF ok c] r by linarith+
  have zero: "r = 0 \<longleftrightarrow> int (zi mod ?B) = 0" "unat r = 0 \<longleftrightarrow> int (zi mod ?B) = 0"
    unfolding word_unat_eq_iff r by simp_all
  show ?thesis
  proof (rule that[OF sg r])
    show "nat \<lfloor>?dt\<rfloor> \<le> unat r" if "\<not> scaled f ?dt (of_int (int ?B * int (zi div ?B)))" "\<not> (unat r = 0 \<and> z \<in> \<int>)"
      using that unfolding big zero r by linarith
    show "regular_case fi (of_nat f) e =
      (if scaled f ?dt (of_int (int ?B * int (zi div ?B))) then ?big
       else if unat r = 0 \<and> z \<in> \<int> then ?small (sg - 1) (of_nat ?B) else ?small sg r)"
      using dt(1) unfolding eq big cmp zero by auto
  qed
qed

text \<open>A number of the interval with an exponent at least that of the last digit, as a multiple of a power of ten.\<close>

lemma scaled_value:
  assumes "E \<le> E'"
  shows "in_interval f e (real m * 10 powi E') \<longleftrightarrow>
    scaled f (delta fi e) (real (m * 10 ^ nat (E' - E)) * 10 powi (E + scale fi e))"
proof -
  have "(10 :: real) powi (E' + scale fi e) = 10 ^ nat (E' - E) * 10 powi (E + scale fi e)"
    using assms by (simp flip: power_int_of_nat power_int_add)
  then have "real m * 10 powi E' * 10 powi scale fi e = real (m * 10 ^ nat (E' - E)) * 10 powi (E + scale fi e)"
    by (simp add: power_int_add)
  then show ?thesis unfolding in_interval_scaled[OF delta_def[of fi e]] by (simp only:)
qed

lemma scaled_distance:
  "\<bar>real m * 10 powi E - real f * 2 powi e\<bar> = \<bar>real m * 10 powi (E + scale fi e) - real f * delta fi e\<bar> / 10 powi scale fi e"
proof -
  have "real m * 10 powi (E + scale fi e) - real f * delta fi e = (real m * 10 powi E - real f * 2 powi e) * 10 powi scale fi e"
    by (simp add: delta_def power_int_add algebra_simps)
  then show ?thesis by (simp add: abs_mult)
qed

lemma big_shortest:
  assumes ok: "ok f e" and u: "unat n * 10 ^ t = \<lfloor>(real f + 1 / 2) * delta fi e\<rfloor> div int (10 * S)" and "\<not> 10 dvd unat n"
    and i: "scaled f (delta fi e) (of_int (int (10 * S) * (\<lfloor>(real f + 1 / 2) * delta fi e\<rfloor> div int (10 * S))))"
  shows "shortest_nearest f e (unat n) (int (kappa fi) + 1 - scale fi e + int t)"
proof -
  let ?z = "(real f + 1 / 2) * delta fi e" and ?B = "int (10 * S)" and ?u = "unat n"
  define E where "E = int (kappa fi) + 1 - scale fi e + int t"
  have B: "0 < ?B" "delta fi e < of_int ?B" using delta_range[OF ok] by simp_all
  have val: "real m * 10 powi (E + scale fi e) = of_int (?B * (int m * 10 ^ t))" for m
    by (simp add: E_def power_int_add)
  have in_u: "in_interval f e (real ?u * 10 powi E)"
    unfolding scaled_value[OF order_refl] diff_self nat_zero_as_int[symmetric] power_0 mult_1_right val
    using i unfolding u[symmetric] by simp
  have best: "E' \<le> E \<and> (E' = E \<longrightarrow> m = ?u)" if "in_interval f e (real m * 10 powi E')" for m E'
  proof (cases "E \<le> E'")
    case True
    have "scaled f (delta fi e) (of_int (?B * (int (m * 10 ^ nat (E' - E)) * 10 ^ t)))"
      using that unfolding scaled_value[OF True] val .
    then have "int (m * 10 ^ nat (E' - E)) * 10 ^ t = \<lfloor>?z\<rfloor> div ?B" by (rule big_multiple_unique[OF B])
    also have "\<dots> = int ?u * 10 ^ t" using u by simp
    finally have eq: "m * 10 ^ nat (E' - E) = ?u" by (simp only: mult_cancel_right of_nat_eq_iff) simp
    have "nat (E' - E) = 0"
    proof (rule ccontr)
      assume "nat (E' - E) \<noteq> 0"
      then have "10 dvd m * 10 ^ nat (E' - E)" by (intro dvd_mult dvd_power) simp
      then show False using assms(3) eq by simp
    qed
    then show ?thesis using True eq by simp
  qed simp
  show ?thesis unfolding shortest_nearest_def E_def[symmetric] using in_u best by blast
qed

lemma small_shortest:
  assumes ok: "ok f e" and near: "\<bar>real (N * S) - real f * delta fi e\<bar> \<le> real S / 2"
    and i: "\<not> scaled f (delta fi e) (of_int (int (10 * S) * (\<lfloor>(real f + 1 / 2) * delta fi e\<rfloor> div int (10 * S))))"
  shows "shortest_nearest f e N (int (kappa fi) - scale fi e)"
proof -
  let ?z = "(real f + 1 / 2) * delta fi e" and ?B = "int (10 * S)"
  define E where "E = int (kappa fi) - scale fi e"
  have B: "0 < ?B" "delta fi e < of_int ?B" using delta_range[OF ok] by simp_all
  have S: "0 < int S" "of_int (int S) \<le> delta fi e" using delta_range[OF ok] by simp_all
  have val: "real m * 10 powi (E + scale fi e) = of_int (int m * int S)" for m by (simp add: E_def)
  have near': "\<bar>of_int (int N * int S) - real f * delta fi e\<bar> \<le> of_int (int S) / 2" using near by simp
  have in_N: "in_interval f e (real N * 10 powi E)"
    unfolding scaled_value[OF order_refl] diff_self nat_zero_as_int[symmetric] power_0 mult_1_right val
    by (rule near_multiple_in[OF S near'])
  have best: "E' \<le> E" if "in_interval f e (real m * 10 powi E')" for m E'
  proof (rule ccontr)
    assume "\<not> E' \<le> E"
    then obtain d where d: "E \<le> E'" "nat (E' - E) = Suc d" by (metis Suc_pred le_less_linear less_imp_le not_gr0 zero_less_nat_eq zless_iff_Suc_zadd diff_gt_0_iff_gt)
    have "int (m * 10 ^ Suc d) * int S = ?B * (int m * 10 ^ d)" by simp
    then have sc: "scaled f (delta fi e) (of_int (?B * (int m * 10 ^ d)))"
      using that unfolding scaled_value[OF d(1)] val d(2) by (simp only:)
    then have "int m * 10 ^ d = \<lfloor>?z\<rfloor> div ?B" by (rule big_multiple_unique[OF B])
    then show False using sc i by (simp only:)
  qed
  have "\<bar>real N * 10 powi E - real f * 2 powi e\<bar> \<le> \<bar>real m * 10 powi E - real f * 2 powi e\<bar>" for m
    unfolding scaled_distance val by (intro divide_right_mono near_multiple_nearest[OF S(1) near']) simp
  then show ?thesis unfolding shortest_nearest_def E_def[symmetric] using in_N best by blast
qed

lemma regular_case_shortest:
  assumes ok: "ok f e"
  shows "\<exists>n E. regular_case fi (of_nat f) e = Some (n, E) \<and> shortest_nearest f e (unat n) E"
proof -
  let ?z = "(real f + 1 / 2) * delta fi e" and ?B = "int (10 * S)"
  let ?zi = "nat \<lfloor>?z\<rfloor>"
  obtain c where c: "get_cached_power fi (scale fi e) = Some c" using cached[OF ok] by blast
  obtain sg r where sg: "unat sg = ?zi div (10 * S)" and r: "unat r = ?zi mod (10 * S)"
    and ge: "\<not> scaled f (delta fi e) (of_int (?B * int (?zi div (10 * S)))) \<Longrightarrow> \<not> (unat r = 0 \<and> ?z \<in> \<int>) \<Longrightarrow>
      nat \<lfloor>delta fi e\<rfloor> \<le> unat r"
    and eq: "regular_case fi (of_nat f) e =
      (if scaled f (delta fi e) (of_int (?B * int (?zi div (10 * S))))
       then without_zeros fi sg (int (kappa fi) + 1 - scale fi e)
       else if unat r = 0 \<and> ?z \<in> \<int> then
         small_divisor_case fi c (beta fi e) (- scale fi e) (of_nat (2 * f)) (compute_delta fi c (beta fi e)) (sg - 1) (of_nat (10 * S))
       else small_divisor_case fi c (beta fi e) (- scale fi e) (of_nat (2 * f)) (compute_delta fi c (beta fi e)) sg r)"
    using regular_case_split[OF ok c] by metis
  note up = upper_end[OF ok]
  have B: "0 < 10 * S" "10 * S \<le> 1000" "delta fi e < of_int ?B" "0 < delta fi e"
    using S_facts(3) delta_range[OF ok] zero_less_power[of "10 :: real" "kappa fi"] by simp_all
  have q: "\<lfloor>?z\<rfloor> div ?B = int (?zi div (10 * S))" using up(3) by (simp add: zdiv_int)
  show ?thesis
  proof (cases "scaled f (delta fi e) (of_int (?B * int (?zi div (10 * S))))")
    case True
    have "sg \<noteq> 0"
    proof
      assume "sg = 0"
      then have "scaled f (delta fi e) 0" using True sg by simp
      moreover have "0 < (real f - 1 / 2) * delta fi e" using B(4) room[OF ok] by simp
      ultimately show False by (auto simp: scaled_def split: if_splits)
    qed
    moreover have "unat sg * 10 ^ (kappa fi + 1) < 2 ^ (LENGTH('a) - 1)"
    proof -
      have "unat sg * 10 ^ (kappa fi + 1) \<le> ?zi" unfolding sg by (simp add: mult.commute)
      then show ?thesis using up(1) by (rule le_less_trans)
    qed
    ultimately obtain n t where n: "remove_trailing_zeros fi sg = Some (n, int t)" "unat sg = unat n * 10 ^ t" "\<not> 10 dvd unat n"
      using zeros by blast
    have "unat n * 10 ^ t = \<lfloor>?z\<rfloor> div ?B" using n(2) sg q by simp
    then have "shortest_nearest f e (unat n) (int (kappa fi) + 1 - scale fi e + int t)"
      by (rule big_shortest[OF ok _ n(3)]) (use True q in \<open>simp only:\<close>)
    then show ?thesis using True unfolding eq without_zeros_def n(1) by auto
  next
    case False
    have near: "shortest_nearest f e (unat N) (- scale fi e + int (kappa fi))"
      if "\<bar>real (unat N * S) - real f * delta fi e\<bar> \<le> real S / 2" for N :: "'a word"
      using small_shortest[OF ok that] False unfolding q by simp
    have di: "nat \<lfloor>delta fi e\<rfloor> \<le> 10 * S" using B(3) by (simp add: floor_less_iff less_imp_le nat_le_iff)
    show ?thesis
    proof (cases "unat r = 0 \<and> ?z \<in> \<int>")
      case True
      have zi: "?zi = 10 * S * unat sg" using True r sg by (metis add.right_neutral mult_div_mod_eq)
      then have pos: "0 < unat sg" using up(2) by (cases "unat sg") simp_all
      have m1: "unat (sg - 1) = unat sg - 1" using pos by (simp add: unat_sub_if_size word_le_nat_alt Suc_le_eq)
      have b: "unat (of_nat (10 * S) :: u32) = 10 * S"
        by (subst unat_of_nat) (use B(2) in \<open>simp add: order.strict_trans1[of _ 1000]\<close>)
      have "10 * S * unat (sg - 1) + unat (of_nat (10 * S) :: u32) = ?zi"
        unfolding b m1 zi using pos by (cases "unat sg") simp_all
      from small_divisor_case_val[OF ok c this] di show ?thesis
        unfolding eq if_not_P[OF False] if_P[OF True] b using near by fastforce
    next
      case False2: False
      have "nat \<lfloor>delta fi e\<rfloor> div 2 \<le> unat r" using ge[OF False False2] by simp
      moreover have "unat r \<le> 10 * S" unfolding r by (intro less_imp_le mod_less_divisor B(1))
      moreover have "10 * S * unat sg + unat r = ?zi" unfolding r sg by simp
      ultimately show ?thesis
        using small_divisor_case_val[OF ok c] unfolding eq if_not_P[OF False] if_not_P[OF False2] using near by fastforce
    qed
  qed
qed

end

end
