(* ===== verification/Fmt_Dragonbox_Products.thy ===== *)
theory Fmt_Dragonbox_Products
  imports Fmt_Dragonbox_Cache Fmt_Dragonbox_Shortest
begin

text \<open>
  Why a product of a significand with a rounded power of ten has the floor of the exact product: either the rounding error is
  too small to matter, or the multiplier is too small for the product to come near enough to an integer.
\<close>

section \<open>Products with a rounded factor\<close>

text \<open>
  The factor \<open>h\<close> is \<open>pw\<close> over \<open>P\<close> but for the rounding of \<open>pw\<close>; the product is taken to be an integer when
  the bits below the point are less than \<open>Q\<close>.
\<close>

definition exact_product :: "int \<Rightarrow> int \<Rightarrow> int \<Rightarrow> real \<Rightarrow> int \<Rightarrow> bool" where
  "exact_product P Q pw h m \<longleftrightarrow>
     m * pw div P = \<lfloor>of_int m * h\<rfloor> \<and> (m * pw mod P < Q \<longleftrightarrow> of_int m * h \<in> \<int>)"

text \<open>The first reason: the error of every product with a multiplier up to \<open>M\<close> is below one part in the denominator.\<close>

definition accurate :: "int \<Rightarrow> int \<Rightarrow> int \<Rightarrow> int \<Rightarrow> int \<times> int \<Rightarrow> bool" where
  "accurate P Q M pw = (\<lambda>(c, d).
     0 < d \<and> Q * d \<le> P \<and> P * c \<le> pw * d \<and> (pw * d - P * c) * M < Q * d \<and> (pw * d - P * c) * M < P)"

lemma divide_bracket:
  fixes P w N d :: int
  assumes "0 < d" "0 < P" "P * N \<le> w * d" "w * d < P * N + P"
  shows "w div P = N div d"
proof -
  define a where "a = N div d"
  define b where "b = N mod d"
  have N: "N = a * d + b" "0 \<le> b" "b < d" using assms(1) by (simp_all add: a_def b_def)
  have "P * (a * d) \<le> P * N" using N assms(2) by (intro mult_left_mono) simp_all
  then have "(P * a) * d \<le> w * d" using assms(3) by (simp add: mult.assoc)
  then have lo: "P * a \<le> w" using assms(1) by simp
  have "P * N + P * 1 \<le> P * N + P * (d - b)" using N assms(2) by (intro add_left_mono mult_left_mono) simp_all
  also have "\<dots> = (P * (a + 1)) * d" unfolding N(1) by (simp add: algebra_simps)
  finally have "w * d < (P * (a + 1)) * d" using assms(4) by simp
  then have hi: "w < P * (a + 1)" using assms(1) by simp
  have "w = a * P + (w - a * P)" "0 \<le> w - a * P" "w - a * P < P" using lo hi by (simp_all add: algebra_simps)
  then show ?thesis using assms(2) unfolding a_def[symmetric] by (metis div_pos_pos_trivial div_mult_self3 add.commute add_0 less_irrefl)
qed

lemma accurate_exact:
  assumes "accurate P Q M pw (c, d)" "0 \<le> m" "m \<le> M" "0 < P" "0 < Q"
  shows "exact_product P Q pw (of_int c / of_int d) m"
proof -
  have d: "0 < d" "Q * d \<le> P" "P * c \<le> pw * d" "(pw * d - P * c) * M < Q * d" "(pw * d - P * c) * M < P"
    using assms(1) by (simp_all add: accurate_def)
  have er: "(pw * d - P * c) * m \<le> (pw * d - P * c) * M" using d(3) assms(3) by (intro mult_left_mono) simp_all
  have e: "m * pw * d = P * (m * c) + (pw * d - P * c) * m" by (simp add: algebra_simps)
  have nn: "0 \<le> (pw * d - P * c) * m" using d(3) assms(2) by simp
  have q: "m * pw div P = m * c div d"
    by (rule divide_bracket[OF d(1) assms(4)]) (use e nn er d(5) in linarith)+
  have fl: "\<lfloor>of_int m * (of_int c / of_int d :: real)\<rfloor> = m * c div d"
  proof -
    have "of_int m * (of_int c / of_int d :: real) = of_int (m * c) / of_int d" by simp
    then show ?thesis by (simp only: floor_divide_of_int_eq)
  qed
  have int: "of_int m * (of_int c / of_int d :: real) \<in> \<int> \<longleftrightarrow> d dvd m * c"
    using d(1) by (simp flip: of_int_mult add: of_int_div_of_int_in_Ints_iff)
  define a where "a = m * c div d"
  define b where "b = m * c mod d"
  have N: "m * c = a * d + b" "0 \<le> b" "b < d" using d(1) by (simp_all add: a_def b_def)
  have r: "(m * pw mod P) * d = P * b + (pw * d - P * c) * m"
  proof -
    have "m * pw mod P = m * pw - P * a" unfolding a_def q[symmetric] by (rule minus_mult_div_eq_mod[symmetric])
    then have "(m * pw mod P) * d = m * pw * d - P * (a * d)" by (simp only: left_diff_distrib mult.assoc)
    moreover have "P * (m * c) = P * (a * d) + P * b" unfolding N(1) by (rule distrib_left)
    ultimately show ?thesis using e by linarith
  qed
  have "m * pw mod P < Q \<longleftrightarrow> b = 0"
  proof
    assume "b = 0"
    then have "(m * pw mod P) * d < Q * d" using r er d(4) by simp
    then show "m * pw mod P < Q" using d(1) by simp
  next
    assume lt: "m * pw mod P < Q"
    show "b = 0"
    proof (rule ccontr)
      assume "b \<noteq> 0"
      then have "P * 1 \<le> P * b" using N(2) assms(4) by (intro mult_left_mono) simp_all
      then have "Q * d \<le> (m * pw mod P) * d" using r nn d(2) by linarith
      then show False using lt d(1) by simp
    qed
  qed
  then show ?thesis unfolding exact_product_def fl int q b_def by (simp add: dvd_eq_mod_eq_0)
qed

text \<open>
  The second: between two neighbouring fractions with denominators \<open>b\<close> and \<open>b'\<close> around the factor, the products
  with a multiplier below \<open>b + b'\<close> come no nearer to an integer from above than a multiple of the one with \<open>b\<close>.
\<close>

lemma neighbours_apart:
  fixes P pw a b a' b' m s :: int
  assumes "0 < P" "0 < b" "a' * b - a * b' = 1" "a * P \<le> b * pw" "b' * pw < a' * P"
    and "m < b + b'" "(s - 1) * b < m" "0 < b'"
  shows "s * (b * pw - a * P) \<le> m * pw mod P"
proof -
  define n where "n = m * pw div P"
  define x where "x = a' * m - b' * n"
  define y where "y = b * n - a * m"
  define al where "al = b * pw - a * P"
  define al' where "al' = a' * P - b' * pw"
  have al: "0 \<le> al" "0 < al'" using assms(4,5) by (simp_all add: al_def al'_def)
  have m: "m = x * b + y * b'"
  proof -
    have "x * b + y * b' = m * (a' * b - a * b')" by (simp add: x_def y_def algebra_simps)
    then show ?thesis using assms(3) by simp
  qed
  have n: "n = x * a + y * a'"
  proof -
    have "x * a + y * a' = n * (a' * b - a * b')" by (simp add: x_def y_def algebra_simps)
    then show ?thesis using assms(3) by simp
  qed
  have fr: "m * pw mod P = x * al - y * al'"
  proof -
    have "m * pw mod P = m * pw - n * P" by (simp add: n_def minus_div_mult_eq_mod)
    also have "\<dots> = x * al - y * al'" unfolding m n al_def al'_def by (simp add: algebra_simps)
    finally show ?thesis .
  qed
  have nn: "0 \<le> x * al - y * al'" unfolding fr[symmetric] using assms(1) by simp
  have y: "y \<le> 0"
  proof (rule ccontr)
    assume "\<not> y \<le> 0"
    then have y1: "1 \<le> y" by simp
    show False
    proof (cases "1 \<le> x")
      case True
      then have "1 * b \<le> x * b" "1 * b' \<le> y * b'" using y1 assms(2,8) by (simp_all only: mult_right_mono less_imp_le)
      then show False using m assms(6) by linarith
    next
      case False
      then have "x * al \<le> 0" "1 * al' \<le> y * al'" using al y1 by (simp_all add: mult_nonpos_nonneg mult_right_mono)
      then show False using nn al by linarith
    qed
  qed
  then have "y * b' \<le> 0" "y * al' \<le> 0" using al assms(8) by (simp_all add: mult_nonpos_nonneg)
  then have "(s - 1) * b < x * b" using m assms(7) by linarith
  then have "s \<le> x" using assms(2) by simp
  then have "s * al \<le> x * al" using al by (intro mult_right_mono) simp_all
  then show ?thesis unfolding fr al_def[symmetric] using \<open>y * al' \<le> 0\<close> by linarith
qed

lemma apart_floor:
  fixes P pw m t :: int and h :: real
  assumes "0 < P" "t \<le> m * pw mod P"
    and "of_int m * h \<le> of_int (m * pw) / of_int P" "of_int (m * pw) / of_int P - of_int m * h < of_int t / of_int P"
  shows "\<lfloor>of_int m * h\<rfloor> = m * pw div P" "of_int m * h \<notin> \<int>"
proof -
  define n where "n = m * pw div P"
  have P: "0 < real_of_int P" using assms(1) by simp
  have w: "m * pw = n * P + m * pw mod P" "m * pw mod P < P" using assms(1) by (simp_all add: n_def)
  have v: "of_int (m * pw) / of_int P = of_int n + of_int (m * pw mod P) / real_of_int P"
    using P by (subst w(1)) (simp add: add_divide_distrib)
  have "of_int t / real_of_int P \<le> of_int (m * pw mod P) / of_int P" "of_int (m * pw mod P) / real_of_int P < 1"
    using assms(2) w(2) P by (simp_all add: divide_right_mono)
  then have b: "of_int n < of_int m * h" "of_int m * h < of_int n + 1" using assms(3,4) unfolding v by linarith+
  then have "\<lfloor>of_int m * h\<rfloor> = n" by linarith
  then show "\<lfloor>of_int m * h\<rfloor> = m * pw div P" by (simp only: n_def)
  show "of_int m * h \<notin> \<int>"
  proof
    assume "of_int m * h \<in> \<int>"
    then obtain i where "of_int m * h = of_int i" by (elim Ints_cases)
    then have "n < i \<and> i < n + 1" using b by linarith
    then show False by linarith
  qed
qed

lemma apart_exact:
  fixes P Q pw m t :: int and h :: real
  assumes "0 < P" "t \<le> m * pw mod P" "Q \<le> t"
    and "of_int m * h \<le> of_int (m * pw) / of_int P" "of_int (m * pw) / of_int P - of_int m * h < of_int t / of_int P"
  shows "exact_product P Q pw h m"
  using apart_floor[OF assms(1,2,4,5)] assms(2,3) by (simp add: exact_product_def)

end
