(* ===== verification/Fmt_Dragonbox_Words.thy ===== *)
theory Fmt_Dragonbox_Words
  imports Fmt_Dragonbox_Products
begin

text \<open>
  The products that the templates compute with the carrier words, as numbers: the quotient and the smallness of the rest of
  the multiplier, shifted by \<open>beta\<close>, times the cached power.
\<close>

section \<open>Shifted products\<close>

lemma shifted_div: "b \<le> n \<Longrightarrow> x * 2 ^ b div 2 ^ n = x div 2 ^ (n - b)" for x :: nat
proof -
  assume "b \<le> n"
  then have p: "(2 :: nat) ^ n = 2 ^ (n - b) * 2 ^ b" by (simp flip: power_add)
  show ?thesis unfolding p by simp
qed

lemma shifted_mod_less: "b \<le> k \<Longrightarrow> k \<le> n \<Longrightarrow> x * 2 ^ b mod 2 ^ n < 2 ^ k \<longleftrightarrow> x mod 2 ^ (n - b) < 2 ^ (k - b)" for x :: nat
proof -
  assume "b \<le> k" "k \<le> n"
  then have p: "(2 :: nat) ^ n = 2 ^ (n - b) * 2 ^ b" "(2 :: nat) ^ k = 2 ^ (k - b) * 2 ^ b" by (simp_all flip: power_add)
  show ?thesis unfolding p by (simp flip: mod_mult_mult2)
qed

lemma mod_split: "x mod 2 ^ (a + b) = 2 ^ a * (x div 2 ^ a mod 2 ^ b) + x mod 2 ^ a" for x :: nat
  by (simp add: power_add mod_mult2_eq)

lemma mod_split_div: "x mod 2 ^ (a + b) div 2 ^ a = x div 2 ^ a mod 2 ^ b" for x :: nat
  unfolding mod_split by simp

lemma mod_mod_power: "a \<le> b \<Longrightarrow> x mod 2 ^ b mod 2 ^ a = x mod 2 ^ a" for x :: nat
  by (simp add: mod_mod_cancel le_imp_power_dvd)

lemma div_div_power: "x div 2 ^ a div 2 ^ b = x div 2 ^ (a + b)" for x :: nat
  by (simp add: power_add div_mult2_eq)

lemma mod_less_iff: "x mod 2 ^ (a + b) < 2 ^ a \<longleftrightarrow> x div 2 ^ a mod 2 ^ b = 0" for x :: nat
proof -
  have "x mod 2 ^ a < 2 ^ a" by simp
  moreover have "2 ^ a \<le> 2 ^ a * y" if "y \<noteq> 0" for y :: nat using that by simp
  ultimately show ?thesis unfolding mod_split by (metis add_lessD1 less_irrefl order_less_le_trans mult_0_right add_0)
qed

lemma odd_mod_div: "j < k \<Longrightarrow> odd (x mod 2 ^ k div 2 ^ j) \<longleftrightarrow> odd (x div 2 ^ j)" for x :: nat
  by (simp add: bit_take_bit_iff flip: take_bit_eq_mod bit_iff_odd)

section \<open>For \<open>double\<close>\<close>

lemma halves_of_val: "unat (u_hi n) = u_val n div 2 ^ 64" "unat (u_lo n) = u_val n mod 2 ^ 64"
  using u64_bound[of "u_lo n"] by (simp_all add: u_val_def)

lemma and_one_odd: "w AND 1 \<noteq> 0 \<longleftrightarrow> odd (unat w)" for w :: "'a::len word"
  using odd_xor[of w 0] by simp

lemma of_nat_unat_word: "unat w = n \<Longrightarrow> ucast w = of_nat n" for w :: "'a::len word"
  by auto

lemma wide_low96: "unat (umul96_lower64 t c) = unat t * unat c mod 2 ^ 64"
proof -
  have e: "umul96_lower64 t c = of_nat (unat t * unat c)" by (simp add: umul96_lower64_def)
  show ?thesis unfolding e unat_of_nat by simp
qed

lemma compute_mul64_val:
  "compute_mul64 u c = (of_nat (unat u * u_val c div 2 ^ 128), unat u * u_val c mod 2 ^ 128 < 2 ^ 64)"
proof -
  let ?r = "umul192_upper128 u c" and ?x = "unat u * u_val c"
  have hi: "unat (u_hi ?r) = ?x div 2 ^ 128"
    by (simp add: halves_of_val umul192_upper128_val flip: div_mult2_eq)
  have "u_hi ?r = of_nat (unat (u_hi ?r))" by simp
  then have "u_hi ?r = of_nat (?x div 2 ^ 128)" unfolding hi .
  moreover have "u_lo ?r = 0 \<longleftrightarrow> ?x mod 2 ^ (64 + 64) < 2 ^ 64"
    unfolding mod_less_iff word_unat_eq_iff halves_of_val umul192_upper128_val unat_0 ..
  ultimately show ?thesis by (simp add: compute_mul64_def Let_def)
qed

lemma compute_delta64_val:
  assumes "0 \<le> be" "be < 64"
  shows "unat (compute_delta64 c be) = 2 * 2 ^ nat be * u_val c div 2 ^ 128 mod 2 ^ 32"
proof -
  have e: "nat (63 - be) = 63 - nat be" "64 + (63 - nat be) = 128 - Suc (nat be)" "nat be < 64" using assms by simp_all
  have "unat (compute_delta64 c be) = u_val c div 2 ^ 64 div 2 ^ (63 - nat be) mod 2 ^ 32"
    by (simp add: compute_delta64_def e(1) unat_drop_bit halves_of_val unsigned_ucast_eq take_bit_eq_mod)
  also have "u_val c div 2 ^ 64 div 2 ^ (63 - nat be) = u_val c div 2 ^ (128 - Suc (nat be))"
    by (simp only: div_div_power e(2))
  also have "\<dots> = u_val c * 2 ^ Suc (nat be) div 2 ^ 128" using e(3) by (intro shifted_div[symmetric]) simp
  finally show ?thesis by (simp add: mult.commute)
qed

lemma compute_mul_parity64_val:
  assumes "1 \<le> be" "be < 64"
  shows "compute_mul_parity64 t c be =
    Some (odd (unat t * 2 ^ nat be * u_val c div 2 ^ 128), unat t * 2 ^ nat be * u_val c mod 2 ^ 128 < 2 ^ 64)"
proof -
  define b where "b = nat be"
  have b: "1 \<le> b" "b < 64" "nat (64 - be) = 64 - b" using assms by (simp_all add: b_def)
  let ?r = "umul192_lower128 t c"
  define x where "x = unat t * u_val c"
  have x: "unat t * 2 ^ b * u_val c = x * 2 ^ b" by (simp add: x_def)
  have r: "u_val ?r = x mod 2 ^ 128" by (simp only: umul192_lower128_val x_def)
  have hi: "unat (u_hi ?r) = x div 2 ^ 64 mod 2 ^ 64"
    unfolding halves_of_val r using mod_split_div[of x 64 64] by simp
  have lo: "unat (u_lo ?r) = x mod 2 ^ 64"
    unfolding halves_of_val r using mod_mod_power[of 64 128 x] by simp
  have "odd (unat (u_hi ?r) div 2 ^ (64 - b)) \<longleftrightarrow> odd (x div 2 ^ 64 div 2 ^ (64 - b))" unfolding hi using b by (intro odd_mod_div) simp
  also have "x div 2 ^ 64 div 2 ^ (64 - b) = x div 2 ^ (128 - b)"
    unfolding div_div_power by (rule arg_cong[where f = "\<lambda>n. x div 2 ^ n"]) (use b in simp)
  also have "\<dots> = x * 2 ^ b div 2 ^ 128" using b by (intro shifted_div[symmetric]) simp
  finally have parity: "drop_bit (64 - b) (u_hi ?r) AND 1 \<noteq> 0 \<longleftrightarrow> odd (x * 2 ^ b div 2 ^ 128)"
    unfolding and_one_odd unat_drop_bit .
  have "x * 2 ^ b mod 2 ^ 128 < 2 ^ 64 \<longleftrightarrow> x mod 2 ^ (128 - b) < 2 ^ (64 - b)" using b by (intro shifted_mod_less) simp_all
  also have "128 - b = 64 - b + 64" using b by simp
  also have "x mod 2 ^ (64 - b + 64) < 2 ^ (64 - b) \<longleftrightarrow> x div 2 ^ (64 - b) mod 2 ^ 64 = 0" by (rule mod_less_iff)
  finally have small: "x * 2 ^ b mod 2 ^ 128 < 2 ^ 64 \<longleftrightarrow> x div 2 ^ (64 - b) mod 2 ^ 64 = 0" .
  have "unat (push_bit b (u_hi ?r) OR drop_bit (64 - b) (u_lo ?r)) = x div 2 ^ (64 - b) mod 2 ^ 64"
  proof -
    have "unat (push_bit b (u_hi ?r) OR drop_bit (64 - b) (u_lo ?r)) =
        x mod 2 ^ 64 div 2 ^ (64 - b) + x div 2 ^ 64 mod 2 ^ 64 mod 2 ^ (64 - b) * 2 ^ b"
      using shift_in_val[of "64 - b" "u_lo ?r" "u_hi ?r"] b unfolding lo hi by (simp add: or.commute)
    also have "x mod 2 ^ 64 div 2 ^ (64 - b) = x div 2 ^ (64 - b) mod 2 ^ b"
      using mod_split_div[of x "64 - b" b] b by simp
    also have "x div 2 ^ 64 mod 2 ^ 64 mod 2 ^ (64 - b) = x div 2 ^ (64 - b) div 2 ^ b mod 2 ^ (64 - b)"
      using b by (simp add: mod_mod_power div_div_power del: power_numeral)
    also have "x div 2 ^ (64 - b) mod 2 ^ b + x div 2 ^ (64 - b) div 2 ^ b mod 2 ^ (64 - b) * 2 ^ b = x div 2 ^ (64 - b) mod 2 ^ (b + (64 - b))"
      by (simp only: mod_split add.commute mult.commute)
    finally show ?thesis using b by simp
  qed
  then have "push_bit b (u_hi ?r) OR drop_bit (64 - b) (u_lo ?r) = 0 \<longleftrightarrow> x * 2 ^ b mod 2 ^ 128 < 2 ^ 64"
    unfolding small word_unat_eq_iff unat_0 by simp
  then show ?thesis using assms parity unfolding b_def[symmetric] x by (simp add: compute_mul_parity64_def Let_def b_def[symmetric] b(3))
qed

section \<open>For \<open>float\<close>\<close>

lemma compute_mul32_val:
  "compute_mul32 u c = (of_nat (unat u * unat c div 2 ^ 64), unat u * unat c mod 2 ^ 64 < 2 ^ 32)"
proof -
  let ?x = "unat u * unat c"
  define r where "r = umul96_upper64 u c"
  have r: "unat r = ?x div 2 ^ 32" by (simp only: r_def umul96_upper64_val)
  have "unat (drop_bit 32 r) = ?x div 2 ^ 64" unfolding unat_drop_bit r div_div_power by simp
  then have hi: "(ucast (drop_bit 32 r) :: u32) = of_nat (?x div 2 ^ 64)" by (metis of_nat_unat_word)
  have "unat (ucast r :: u32) = ?x div 2 ^ 32 mod 2 ^ 32" using r by (simp add: unsigned_ucast_eq take_bit_eq_mod)
  then have "(ucast r :: u32) = 0 \<longleftrightarrow> ?x mod 2 ^ (32 + 32) < 2 ^ 32"
    unfolding mod_less_iff word_unat_eq_iff unat_0 by (rule arg_cong)
  then show ?thesis using hi by (simp add: compute_mul32_def Let_def r_def)
qed

lemma compute_delta32_val:
  assumes "0 \<le> be" "be < 64"
  shows "unat (compute_delta32 c be) = 2 * 2 ^ nat be * unat c div 2 ^ 64 mod 2 ^ 32"
proof -
  have e: "nat (63 - be) = 64 - Suc (nat be)" "nat be < 64" using assms by simp_all
  have "unat (compute_delta32 c be) = unat c div 2 ^ (64 - Suc (nat be)) mod 2 ^ 32"
    by (simp add: compute_delta32_def e(1) unat_drop_bit unsigned_ucast_eq take_bit_eq_mod)
  also have "unat c div 2 ^ (64 - Suc (nat be)) = unat c * 2 ^ Suc (nat be) div 2 ^ 64" using e(2) by (intro shifted_div[symmetric]) simp
  finally show ?thesis by (simp add: mult.commute)
qed

lemma compute_mul_parity32_val:
  assumes "1 \<le> be" "be < 32"
  shows "compute_mul_parity32 t c be =
    Some (odd (unat t * 2 ^ nat be * unat c div 2 ^ 64), unat t * 2 ^ nat be * unat c mod 2 ^ 64 < 2 ^ 32)"
proof -
  define b where "b = nat be"
  have b: "1 \<le> b" "b < 32" "nat (64 - be) = 64 - b" "nat (32 - be) = 32 - b" using assms by (simp_all add: b_def)
  define r where "r = umul96_lower64 t c"
  define x where "x = unat t * unat c"
  have x: "unat t * 2 ^ b * unat c = x * 2 ^ b" by (simp add: x_def)
  have r: "unat r = x mod 2 ^ 64" using wide_low96[of t c] by (simp add: r_def x_def)
  have "odd (unat r div 2 ^ (64 - b)) \<longleftrightarrow> odd (x div 2 ^ (64 - b))" unfolding r using b by (intro odd_mod_div) simp
  also have "x div 2 ^ (64 - b) = x * 2 ^ b div 2 ^ 64" using b by (intro shifted_div[symmetric]) simp
  finally have parity: "drop_bit (64 - b) r AND 1 \<noteq> 0 \<longleftrightarrow> odd (x * 2 ^ b div 2 ^ 64)" unfolding and_one_odd unat_drop_bit .
  have "x * 2 ^ b mod 2 ^ 64 < 2 ^ 32 \<longleftrightarrow> x mod 2 ^ (64 - b) < 2 ^ (32 - b)" using b by (intro shifted_mod_less) simp_all
  also have "64 - b = 32 - b + 32" using b by simp
  also have "x mod 2 ^ (32 - b + 32) < 2 ^ (32 - b) \<longleftrightarrow> x div 2 ^ (32 - b) mod 2 ^ 32 = 0" by (rule mod_less_iff)
  finally have small: "x * 2 ^ b mod 2 ^ 64 < 2 ^ 32 \<longleftrightarrow> x div 2 ^ (32 - b) mod 2 ^ 32 = 0" .
  have "unat (ucast (drop_bit (32 - b) r) :: u32) = x mod 2 ^ 64 div 2 ^ (32 - b) mod 2 ^ 32"
    by (simp add: unsigned_ucast_eq take_bit_eq_mod unat_drop_bit r)
  also have "x mod 2 ^ 64 div 2 ^ (32 - b) = x div 2 ^ (32 - b) mod 2 ^ (32 + b)"
    using mod_split_div[of x "32 - b" "32 + b"] b by simp
  finally have "unat (ucast (drop_bit (32 - b) r) :: u32) = x div 2 ^ (32 - b) mod 2 ^ 32" by (simp add: mod_mod_power del: power_numeral)
  then have "(ucast (drop_bit (32 - b) r) :: u32) = 0 \<longleftrightarrow> x * 2 ^ b mod 2 ^ 64 < 2 ^ 32"
    unfolding small word_unat_eq_iff unat_0 by simp
  then show ?thesis using assms parity unfolding b_def[symmetric] x
    by (simp add: compute_mul_parity32_def Let_def b_def[symmetric] b(3,4) r_def)
qed

end
