(* ===== verification/Fmt_Dragonbox_Exact.thy ===== *)
theory Fmt_Dragonbox_Exact
  imports Fmt_Dragonbox_Words
begin

text \<open>
  For which exponents the products with the cached powers are exact, and the certificates that are checked for it.
\<close>

section \<open>Exactness for all significands of an exponent\<close>

text \<open>
  For the multipliers from \<open>L\<close> below \<open>M\<close>; \<open>h\<close> is half the length of the interval, and the small divisor is at most
  that length, the big one above it.
\<close>

definition products_exact :: "int \<Rightarrow> int \<Rightarrow> int \<Rightarrow> int \<Rightarrow> int \<Rightarrow> int \<Rightarrow> real \<Rightarrow> bool" where
  "products_exact P Q L M small pw h \<longleftrightarrow>
     2 * pw div P = \<lfloor>2 * h\<rfloor> \<and> of_int small \<le> 2 * h \<and> 2 * h < of_int (10 * small) \<and>
     (\<forall>m. L \<le> m \<and> m < M \<longrightarrow> exact_product P Q pw h m)"

text \<open>By the accuracy of the power, with \<open>h\<close> as a fraction.\<close>

definition half_delta :: "int \<Rightarrow> int \<Rightarrow> int \<times> int" where
  "half_delta e k =
     (if k < 0 then (2 ^ nat (e - 1 + k), 5 ^ nat (- k))
      else if e - 1 + k \<ge> 0 then (5 ^ nat k * 2 ^ nat (e - 1 + k), 1)
      else (5 ^ nat k, 2 ^ nat (1 - e - k)))"

definition accurate_ok :: "int \<Rightarrow> int \<Rightarrow> int \<Rightarrow> int \<Rightarrow> int \<Rightarrow> int \<Rightarrow> int \<Rightarrow> bool" where
  "accurate_ok P Q M small pw e k \<longleftrightarrow>
     (k < 0 \<longrightarrow> 0 \<le> e - 1 + k) \<and> accurate P Q M pw (half_delta e k) \<and>
     (case half_delta e k of (c, d) \<Rightarrow> small * d \<le> 2 * c \<and> 2 * c < 10 * small * d)"

lemma powi_positive: "0 \<le> k \<Longrightarrow> x powi k = x ^ nat k" for x :: real
  by (simp add: power_int_def)

lemma powi_negative: "k < 0 \<Longrightarrow> x powi k = 1 / x ^ nat (- k)" for x :: real
  by (simp add: power_int_def power_inverse inverse_eq_divide power_one_over)

lemma half_delta_val:
  assumes "k < 0 \<longrightarrow> 0 \<le> e - 1 + k" "half_delta e k = (c, d)"
  shows "of_int c / of_int d = (2 :: real) powi (e - 1) * 10 powi k" "0 < d"
proof -
  have p: "(10 :: real) powi k = 5 powi k * 2 powi k" by (simp flip: power_int_mult_distrib)
  have e: "(2 :: real) powi (e - 1) * 10 powi k = 5 powi k * 2 powi (e - 1 + k)"
  proof -
    have "(2 :: real) powi (e - 1 + k) = 2 powi (e - 1) * 2 powi k" by (rule power_int_add) simp
    then show ?thesis unfolding p by (simp only: mult.assoc mult.commute mult.left_commute)
  qed
  show "of_int c / of_int d = (2 :: real) powi (e - 1) * 10 powi k"
  proof (cases "k < 0")
    case True
    then have "(5 :: real) powi k = 1 / 5 ^ nat (- k)" "(2 :: real) powi (e - 1 + k) = 2 ^ nat (e - 1 + k)"
      using assms(1) by (simp_all add: powi_negative powi_positive)
    then show ?thesis using True assms(2) e by (auto simp: half_delta_def)
  next
    case k: False
    then have f: "(5 :: real) powi k = 5 ^ nat k" by (simp add: powi_positive)
    show ?thesis
    proof (cases "0 \<le> e - 1 + k")
      case True
      then have "(2 :: real) powi (e - 1 + k) = 2 ^ nat (e - 1 + k)" by (rule powi_positive)
      then show ?thesis using True k assms(2) e f by (auto simp: half_delta_def)
    next
      case False
      then have "(2 :: real) powi (e - 1 + k) = 1 / 2 ^ nat (1 - e - k)"
        using powi_negative[of "e - 1 + k" 2] by (simp add: algebra_simps)
      then show ?thesis using False k assms(2) e f by (auto simp: half_delta_def)
    qed
  qed
  show "0 < d" using assms(2) by (auto simp: half_delta_def split: if_splits)
qed

lemma accurate_products:
  assumes "accurate_ok P Q M small pw e k" "0 < P" "0 < Q" "2 \<le> M" "0 \<le> L"
  shows "products_exact P Q L M small pw (2 powi (e - 1) * 10 powi k)"
proof -
  obtain c d where cd: "half_delta e k = (c, d)" by fastforce
  have a: "k < 0 \<longrightarrow> 0 \<le> e - 1 + k" "accurate P Q M pw (c, d)" "small * d \<le> 2 * c" "2 * c < 10 * small * d"
    using assms(1) by (simp_all add: accurate_ok_def cd)
  note h = half_delta_val[OF a(1) cd]
  have d: "0 < real_of_int d" using h(2) by simp
  have exact: "exact_product P Q pw (of_int c / of_int d) m" if "0 \<le> m" "m \<le> M" for m
    by (rule accurate_exact[OF a(2) that assms(2,3)])
  have "real_of_int (small * d) \<le> of_int (2 * c)" "real_of_int (2 * c) < of_int (10 * small * d)"
    using a(3,4) by (simp_all only: of_int_le_iff of_int_less_iff)
  then have "of_int small \<le> 2 * (of_int c / real_of_int d)" "2 * (of_int c / real_of_int d) < of_int (10 * small)"
    using d by (simp_all add: field_simps)
  moreover have "2 * pw div P = \<lfloor>2 * (of_int c / real_of_int d)\<rfloor>"
    using exact[of 2] assms(4) by (simp add: exact_product_def)
  ultimately show ?thesis unfolding products_exact_def h(1)[symmetric] using exact assms(5) by auto
qed

text \<open>By neighbouring fractions, for \<open>n\<close> exponents that share a power of ten.\<close>

definition neighbours_ok :: "int \<Rightarrow> int \<Rightarrow> int \<Rightarrow> int \<Rightarrow> int \<Rightarrow> int \<Rightarrow> int \<Rightarrow> int \<Rightarrow> int \<times> int \<times> int \<times> int \<times> int \<Rightarrow> bool" where
  "neighbours_ok P Q L M small pw er R = (\<lambda>(s, b, a, b', a').
     let al = b * pw - a * P
     in 0 < b \<and> 0 < b' \<and> a' * b - a * b' = 1 \<and> 0 \<le> al \<and> b' * pw < a' * P \<and> M * R < b + b' \<and>
        (s - 1) * b < L \<and> Q \<le> s * al \<and> er * M * R \<le> s * al \<and> 2 * er * R \<le> al \<and>
        small * P + 2 * er \<le> 2 * pw \<and> 2 * pw * R < 10 * small * P)"

lemma mult_strict_mono_mono: "x < y \<Longrightarrow> 0 \<le> x \<Longrightarrow> 1 \<le> t \<Longrightarrow> t \<le> u \<Longrightarrow> x * t < y * u" for x y t u :: int
  by (meson less_le_trans mult_left_mono mult_strict_right_mono le_less_trans less_imp_le zero_less_one order_less_le_trans)

lemma neighbours_exact:
  fixes h :: real
  assumes ok: "neighbours_ok P Q L M small pw er R (s, b, a, b', a')" and pos: "0 < P" "0 < er" "1 \<le> R"
    and h: "of_int P * h \<le> of_int pw" "of_int pw < of_int P * h + of_int er"
    and m: "(s' - 1) * b < m" "m < M * R" "0 < m" "er * m \<le> s' * (b * pw - a * P)"
  shows "s' * (b * pw - a * P) \<le> m * pw mod P" "of_int m * h \<le> of_int (m * pw) / of_int P"
    "of_int (m * pw) / of_int P - of_int m * h < of_int (s' * (b * pw - a * P)) / of_int P"
proof -
  let ?al = "b * pw - a * P"
  have c: "0 < b" "0 < b'" "a' * b - a * b' = 1" "0 \<le> ?al" "b' * pw < a' * P" "M * R < b + b'"
    using ok unfolding neighbours_ok_def by (simp_all add: Let_def)
  show "s' * ?al \<le> m * pw mod P" by (rule neighbours_apart[OF pos(1) c(1,3) _ c(5) _ m(1) c(2)]) (use c(4,6) m(2) in simp_all)
  have P: "0 < real_of_int P" using pos(1) by simp
  have m': "0 < real_of_int m" using m(3) by simp
  have "of_int m * (of_int P * h) \<le> of_int m * of_int pw" using h(1) m' by simp
  then show "of_int m * h \<le> of_int (m * pw) / of_int P" using P by (simp add: field_simps)
  have "of_int m * of_int pw < of_int m * (of_int P * h + of_int er)" using h(2) m' by simp
  moreover have "real_of_int (er * m) \<le> of_int (s' * ?al)" using m(4) by (simp only: of_int_le_iff)
  ultimately have lt: "of_int m * of_int pw - of_int m * (of_int P * h) < real_of_int (s' * ?al)"
    unfolding distrib_left of_int_mult by (simp only: mult.commute)
  have "of_int (m * pw) / of_int P - of_int m * h = (of_int m * of_int pw - of_int m * (of_int P * h)) / of_int P"
    using P by (simp add: diff_divide_distrib)
  then show "of_int (m * pw) / of_int P - of_int m * h < of_int (s' * ?al) / of_int P"
    using divide_strict_right_mono[OF lt P] by (simp only:)
qed

lemma neighbours_products:
  fixes h :: real
  assumes ok: "neighbours_ok P Q L M small pw er R (s, b, a, b', a')" and pos: "0 < P" "0 < er" "1 \<le> L" "2 < M" "0 < small"
    and h: "of_int P * h \<le> of_int pw" "of_int pw < of_int P * h + of_int er" and t: "1 \<le> t" "t \<le> R"
  shows "products_exact P Q L M small (pw * t) (h * of_int t)"
proof -
  let ?al = "b * pw - a * P"
  have c: "(s - 1) * b < L" "Q \<le> s * ?al" "er * M * R \<le> s * ?al" "2 * er * R \<le> ?al"
    "small * P + 2 * er \<le> 2 * pw" "2 * pw * R < 10 * small * P"
    using ok unfolding neighbours_ok_def by (simp_all add: Let_def)
  have R: "1 \<le> R" using t by simp
  have P: "0 < real_of_int P" using pos(1) by simp
  have exact: "exact_product P Q (pw * t) (h * of_int t) m" if "L \<le> m" "m < M" for m
  proof -
    have m: "0 < m" "m * 1 \<le> m * t" using that(1) pos(3) t(1) by (simp_all only: mult_left_mono)
    have lt: "m * t < M * R" using that(2) t m(1) by (intro mult_strict_mono_mono) simp_all
    then have "er * (m * t) \<le> er * (M * R)" using pos(2) by simp
    then have er: "er * (m * t) \<le> s * ?al" using c(3) by (simp only: mult.assoc order.trans)
    have "(s - 1) * b < m * t" "0 < m * t" using c(1) that(1) m by linarith+
    note n = neighbours_exact[OF ok pos(1,2) R h this(1) lt this(2) er]
    show ?thesis using apart_exact[OF pos(1) n(1) c(2) n(2,3)] by (simp add: exact_product_def mult.assoc mult.left_commute mult.commute)
  qed
  have lt: "2 * t < M * R" using pos(4) t by (intro mult_strict_mono_mono) simp_all
  have "er * (2 * t) \<le> er * (2 * R)" using pos(2) t by simp
  then have "er * (2 * t) \<le> 1 * ?al" using c(4) by (simp only: mult.assoc mult.left_commute mult_1)
  note n = neighbours_exact[OF ok pos(1,2) R h _ lt _ this]
  have fl: "2 * (pw * t) div P = \<lfloor>2 * (h * of_int t)\<rfloor>"
    using apart_floor(1)[OF pos(1) n(1) n(2,3)] t(1) by (simp add: mult.assoc mult.left_commute mult.commute)
  have "real_of_int (small * P + 2 * er) \<le> of_int (2 * pw)" "real_of_int (2 * pw * R) < of_int (10 * small * P)"
    using c(5,6) by (simp_all only: of_int_le_iff of_int_less_iff)
  then have lo: "of_int small * of_int P < 2 * (of_int P * h)" and hi: "2 * of_int pw * of_int R < of_int (10 * small) * real_of_int P"
    using h(2) by simp_all
  have "of_int small < 2 * h" using lo P by (simp add: mult.commute mult.left_commute)
  moreover have "2 * h * 1 \<le> 2 * h * of_int t" using calculation pos(5) t(1) by (intro mult_left_mono) simp_all
  moreover have "2 * h * of_int t < of_int (10 * small)"
  proof -
    have "0 < small * P" using pos by simp
    then have "0 \<le> pw" using c(5) pos(2) by linarith
    then have "2 * (of_int P * h) * of_int t \<le> 2 * of_int pw * of_int R"
      using h(1) t P calculation(1) pos(5) by (intro mult_mono) simp_all
    then have "of_int P * (2 * h * of_int t) < of_int P * of_int (10 * small)" using hi by (simp only: mult.assoc mult.left_commute mult.commute)
    then show ?thesis using P by (simp only: mult_less_cancel_left_pos)
  qed
  ultimately show ?thesis unfolding products_exact_def using exact fl by (simp add: mult.assoc)
qed

end
