(* ===== verification/Fmt_Dragonbox_Table.thy ===== *)
theory Fmt_Dragonbox_Table
  imports Fmt_Dragonbox_Exact
begin

text \<open>
  The exponents of \<open>double\<close> and \<open>float\<close> for which the products are exact, with their certificates: all of them.
\<close>

section \<open>Checking certificates\<close>

definition scale64 :: "int \<Rightarrow> int" where
  "scale64 e = 2 - floor_log10_pow2 e"

definition beta64 :: "int \<Rightarrow> int" where
  "beta64 e = e + floor_log2_pow10 (scale64 e)"

text \<open>The smallest multiplier: subnormal numbers have the smallest exponent.\<close>

definition least64 :: "int \<Rightarrow> int" where
  "least64 e = (if e = - 1074 then 1 else 0x1FFFFFFFFFFFFF)"

definition range64 :: "int \<Rightarrow> bool" where
  "range64 e \<longleftrightarrow> - 1074 \<le> e \<and> - 292 \<le> scale64 e \<and> scale64 e \<le> 341 \<and> 1 \<le> beta64 e \<and> beta64 e \<le> 9"

definition exact64 :: "int \<Rightarrow> bool" where
  "exact64 e \<longleftrightarrow> range64 e \<and>
     products_exact (2 ^ 128) (2 ^ 64) (least64 e) (2 ^ 54) 100 (cache64 (scale64 e) * 2 ^ nat (beta64 e))
       (2 powi (e - 1) * 10 powi scale64 e)"

type_synonym certificate = "nat \<times> int \<times> int \<times> int \<times> int \<times> int"

definition step64 :: "int \<Rightarrow> certificate \<Rightarrow> int option" where
  "step64 e = (\<lambda>(n, cert).
     let last = e + int n - 1; b = nat (beta64 e)
      in if 0 < n \<and> scale64 last = scale64 e \<and> range64 e \<and> beta64 last \<le> 9 \<and>
            neighbours_ok 0x100000000000000000000000000000000 0x10000000000000000 (least64 e) 0x40000000000000 100
              (push_bit b (cache64 (scale64 e))) (push_bit b 3) (push_bit (n - 1) 1) cert
         then Some (last + 1) else None)"

fun chain :: "(int \<Rightarrow> 'c \<Rightarrow> int option) \<Rightarrow> int \<Rightarrow> 'c list \<Rightarrow> int option" where
  "chain step e [] = Some e"
| "chain step e (c # cs) = (case step e c of None \<Rightarrow> None | Some e' \<Rightarrow> chain step e' cs)"

definition covers :: "(int \<Rightarrow> bool) \<Rightarrow> int \<Rightarrow> int \<Rightarrow> bool" where
  "covers G a b \<longleftrightarrow> (\<forall>x. a \<le> x \<and> x < b \<longrightarrow> G x)"

lemma covers_join: "covers G a b \<Longrightarrow> covers G b c \<Longrightarrow> covers G a c"
  unfolding covers_def by (metis linorder_not_less)

lemma chain_covers:
  assumes "chain step e cs = Some e'" "\<And>e c e'. step e c = Some e' \<Longrightarrow> covers G e e'"
  shows "covers G e e'"
  using assms(1)
proof (induction cs arbitrary: e)
  case (Cons c cs)
  then obtain m where m: "step e c = Some m" "chain step m cs = Some e'" by (auto split: option.splits)
  show ?case by (rule covers_join[OF assms(2)[OF m(1)] Cons.IH[OF m(2)]])
qed (auto simp: covers_def)

lemma cache64_code [code]:
  "cache64 k =
     (let i = nat ((k + 292) div 27); off = nat ((k + 292) mod 27); base = base_powers ! i
      in if off = 0 then base else drop_bit (nat (offset_shift (k - int off) off)) (base * 5 ^ off) + 1)"
  by (rule cache64_def)

declare base_powers_code [code]

lemma floor_log10_mono: "a \<le> b \<Longrightarrow> floor_log10_pow2 a \<le> floor_log10_pow2 b"
  by (simp add: floor_log10_pow2_def zdiv_mono1)

lemma power_of_ten_scaled: "power_of_ten w k * 2 powi (e + floor_log2_pow10 k) = 2 powi int w * (2 powi (e - 1) * 10 powi k)"
proof -
  have "(2 :: real) powi (int w - 1 - floor_log2_pow10 k) * 2 powi (e + floor_log2_pow10 k) = 2 powi (int w) * 2 powi (e - 1)"
  proof -
    have "(2 :: real) powi (int w - 1 - floor_log2_pow10 k) * 2 powi (e + floor_log2_pow10 k) =
        2 powi (int w - 1 - floor_log2_pow10 k + (e + floor_log2_pow10 k))" by (rule power_int_add[symmetric]) simp
    also have "int w - 1 - floor_log2_pow10 k + (e + floor_log2_pow10 k) = int w + (e - 1)" by simp
    also have "(2 :: real) powi (int w + (e - 1)) = 2 powi (int w) * 2 powi (e - 1)" by (rule power_int_add) simp
    finally show ?thesis .
  qed
  then show ?thesis by (simp only: power_of_ten_def mult.assoc) (simp only: mult.left_commute mult.commute)
qed

text \<open>The scaled interval and the rounded power, shifted by \<open>beta\<close>.\<close>

lemma rounded_scaled:
  fixes c :: int and u :: nat
  assumes "power_of_ten w k \<le> of_int c" "of_int c < power_of_ten w k + real u" "e + floor_log2_pow10 k = int b"
  shows "of_int (2 ^ w) * (2 powi (e - 1) * 10 powi k) \<le> real_of_int (c * 2 ^ b)"
    "real_of_int (c * 2 ^ b) < of_int (2 ^ w) * (2 powi (e - 1) * 10 powi k) + of_int (int u * 2 ^ b :: int)"
proof -
  have s: "power_of_ten w k * 2 ^ b = of_int (2 ^ w) * (2 powi (e - 1) * 10 powi k)"
    using power_of_ten_scaled[of w k e] unfolding assms(3) by simp
  have "power_of_ten w k * 2 ^ b \<le> of_int c * 2 ^ b" "of_int c * 2 ^ b < (power_of_ten w k + real u) * 2 ^ b"
    using assms(1,2) by simp_all
  then show "of_int (2 ^ w) * (2 powi (e - 1) * 10 powi k) \<le> real_of_int (c * 2 ^ b)"
    "real_of_int (c * 2 ^ b) < of_int (2 ^ w) * (2 powi (e - 1) * 10 powi k) + of_int (int u * 2 ^ b :: int)"
    unfolding s[symmetric] by (simp_all add: distrib_right)
qed

lemma products_exact_mono: "products_exact P Q L M small pw h \<Longrightarrow> L \<le> L' \<Longrightarrow> products_exact P Q L' M small pw h"
  by (auto simp: products_exact_def)

lemma cache64_bounds:
  assumes "range64 e"
  shows "power_of_ten 128 (scale64 e) \<le> of_int (cache64 (scale64 e))" "of_int (cache64 (scale64 e)) < power_of_ten 128 (scale64 e) + 3"
  using get_cached_power64_val[of "scale64 e"] assms by (auto simp: range64_def)

lemma step64_exact:
  assumes "step64 e (n, s, b, a, b', a') = Some e'"
  shows "covers exact64 e e'"
  unfolding covers_def
proof (intro allI impI)
  fix x
  assume x: "e \<le> x \<and> x < e'"
  let ?k = "scale64 e" and ?b = "nat (beta64 e)" and ?last = "e + int n - 1"
  have ok: "0 < n" "scale64 ?last = ?k" "range64 e" "beta64 ?last \<le> 9" "e' = ?last + 1"
    "neighbours_ok (2 ^ 128) (2 ^ 64) (least64 e) (2 ^ 54) 100 (push_bit ?b (cache64 ?k)) (push_bit ?b 3) (push_bit (n - 1) 1)
      (s, b, a, b', a')"
    using assms by (auto simp: step64_def Let_def split: if_splits)
  define j where "j = nat (x - e)"
  have j: "x = e + int j" "j \<le> n - 1" using x ok(1,5) by (auto simp: j_def)
  have k: "scale64 x = ?k"
    using floor_log10_mono[of e x] floor_log10_mono[of x ?last] x ok(2,5) by (simp add: scale64_def)
  have be: "beta64 x = beta64 e + int j" unfolding beta64_def k using j(1) by simp
  have "beta64 x \<le> beta64 ?last" using x ok(2,5) by (simp add: beta64_def k)
  then have rg: "range64 x" using ok(3,4) be k j(1) by (simp add: range64_def)
  have b0: "0 \<le> beta64 e" using ok(3) by (simp add: range64_def)
  have nb: "e + floor_log2_pow10 ?k = int ?b" using b0 by (simp add: beta64_def)
  note r = rounded_scaled[OF cache64_bounds(1)[OF ok(3)] _ nb, of 3]
  have "products_exact (2 ^ 128) (2 ^ 64) (least64 e) (2 ^ 54) 100 (cache64 ?k * 2 ^ ?b * 2 ^ j)
      (2 powi (e - 1) * 10 powi ?k * of_int (2 ^ j))"
  proof (rule neighbours_products)
    show "neighbours_ok (2 ^ 128) (2 ^ 64) (least64 e) (2 ^ 54) 100 (cache64 ?k * 2 ^ ?b) (3 * 2 ^ ?b) (2 ^ (n - 1))
      (s, b, a, b', a')" using ok(6) by (simp add: push_bit_eq_mult)
    show "of_int (2 ^ 128) * (2 powi (e - 1) * 10 powi ?k) \<le> real_of_int (cache64 ?k * 2 ^ ?b)"
      "real_of_int (cache64 ?k * 2 ^ ?b) < of_int (2 ^ 128) * (2 powi (e - 1) * 10 powi ?k) + of_int (3 * 2 ^ ?b)"
      using r cache64_bounds(2)[OF ok(3)] by simp_all
    show "(2 :: int) ^ j \<le> 2 ^ (n - 1)" using j(2) by (intro power_increasing) simp_all
  qed (simp_all add: least64_def)
  moreover have "(2 :: real) powi (e - 1) * 10 powi ?k * of_int (2 ^ j) = 2 powi (x - 1) * 10 powi ?k"
  proof -
    have e1: "x - 1 = e - 1 + int j" using j(1) by simp
    have "(2 :: real) powi (x - 1) = 2 powi (e - 1) * 2 powi int j" unfolding e1 by (rule power_int_add) simp
    then show ?thesis by simp
  qed
  moreover have "cache64 ?k * 2 ^ ?b * 2 ^ j = cache64 ?k * 2 ^ nat (beta64 x)"
    using b0 by (simp add: be nat_add_distrib power_add mult.assoc)
  moreover have "least64 e \<le> least64 x" using x ok(3) by (simp add: least64_def range64_def)
  ultimately have "products_exact (2 ^ 128) (2 ^ 64) (least64 x) (2 ^ 54) 100 (cache64 ?k * 2 ^ nat (beta64 x))
      (2 powi (x - 1) * 10 powi ?k)" by (simp only: products_exact_mono)
  then show "exact64 x" unfolding exact64_def k using rg by (intro conjI)
qed

text \<open>The exponents with an accurate enough power.\<close>

definition accurate64 :: "int \<Rightarrow> bool" where
  "accurate64 e \<longleftrightarrow> range64 e \<and> accurate_ok 0x100000000000000000000000000000000 0x10000000000000000 0x40000000000000 100
     (push_bit (nat (beta64 e)) (cache64 (scale64 e))) e (scale64 e)"

lemma accurate64_exact: "accurate64 e \<Longrightarrow> exact64 e"
proof -
  assume "accurate64 e"
  then have "range64 e" "accurate_ok (2 ^ 128) (2 ^ 64) (2 ^ 54) 100 (cache64 (scale64 e) * 2 ^ nat (beta64 e)) e (scale64 e)"
    by (simp_all add: accurate64_def push_bit_eq_mult)
  then show ?thesis unfolding exact64_def by (intro conjI accurate_products) (simp_all add: least64_def)
qed

section \<open>The certificates for \<open>double\<close>\<close>

text \<open>
  For a number of exponents: the factor \<open>s\<close> and the two fractions, lower \<open>a / b\<close> and upper \<open>a' / b'\<close>.
\<close>

definition low_certificates1 :: "certificate list" where
  "low_certificates1 =
    [(2, 1, 35192194001642290, 8693627028995920327, 10435797644015877, 2577984551429631682),
     (3, 1, 38467692288852899, 3801113046942889411, 52178988220079385, 5155969102859263364),
     (3, 1, 56368440680866069, 4455953608008974314, 22661670127233071, 1791416429960430555),
     (3, 1, 53464298255657783, 3381103750032715981, 22661670127233071, 1433133143968344444),
     (4, 1, 75685667413805391, 3829113666736900973, 113308350636165355, 5732532575873377776),
     (3, 1, 42545669109697691, 3443974715216816139, 47028354027949955, 3806837818272953606),
     (3, 1, 39183655421008493, 2537461910339770431, 44787011568823823, 2900325013395907898),
     (4, 1, 104963333737290395, 5437786923735678329, 86772345063739981, 4495374780210997650),
     (3, 1, 33062454186904004, 2740562055609079739, 53709890876835977, 4452037592728516501),
     (3, 1, 41328067733630005, 2740562055609079739, 45444277330109976, 3013517663060997253),
     (4, 1, 94017204799787504, 4987602821586727033, 75411275731212487, 4000560242323862143),
     (3, 1, 58760752999867190, 4987602821586727033, 40154823931292173, 3408334694766143209),
     (3, 1, 71480750480157929, 4853819252925887788, 5387223715679289, 365813313589111877),
     (4, 1, 124991277092869026, 6789912675800118569, 92306224254711499, 5014359535318894882),
     (3, 1, 59354692814186078, 5158928725022292031, 14905292854138493, 1295522557935068478),
     (3, 1, 7386026776477273, 513576721830431015, 67140437494215192, 4668513509909842897),
     (4, 1, 120855680750155355, 6722820397231566957, 113469653973678082, 6311959019767222145),
     (3, 1, 51783653710725872, 4608898166789022911, 56734826986839041, 5049567215813777716),
     (3, 1, 69680740414520509, 4961433406008826755, 4951173276113169, 352535239219803844),
     (4, 1, 69680740414520509, 3969146724807061404, 128130262320552352, 7298542007632161301),
     (3, 1, 37648174834382421, 3431217956638433726, 42433239115962799, 3867324050993727575),
     (3, 1, 57668528321968726, 4204682766837179241, 42433239115962799, 3093859240794982060),
     (4, 1, 50869040844479508, 2967139070519186417, 93302279960442307, 5442226463155172065),
     (3, 1, 63586301055599385, 5934278141038372834, 14857989452421461, 1386642100004951235),
     (3, 1, 60910389503972405, 4547636041033421599, 14857989452421461, 1109313680003960988),
     (4, 1, 131855447326545985, 7875577081045304563, 41229078917730658, 2462566360212229703),
     (3, 1, 42201601983029834, 4033046504787460129, 48424766425785493, 4627770648545459647),
     (3, 1, 64518056806168721, 4932596134192844759, 13661982717135288, 1044498958460691833),
     (4, 1, 143074457429696627, 8750772116273458239, 17077478396419110, 1044498958460691833),
     (3, 1, 33633929557871768, 3291409054817244929, 42693695991047775, 4177995833842767332),
     (3, 1, 42042411947339710, 3291409054817244929, 67919143159451601, 5317242099964560823),
     (3, 1, 60635855301788547, 3797639458685216543, 44470174566560728, 2785178650949273315),
     (4, 1, 136416121884340005, 6835021881893046227, 11117543641640182, 557035730189854663),
     (3, 1, 57728810709570388, 4627930235402724345, 27793859104100455, 2228142920759418652),
     (3, 1, 14432202677392597, 925586047080544869, 66808282133539290, 4284641447634950263),
     (4, 1, 91132951776340033, 4675731929711723686, 100618920971028557, 5162425800406495791),
     (3, 1, 70128141579153371, 5756870758365956751, 2371492298672131, 194677548277908842),
     (3, 1, 57254531397546537, 3760053298597169833, 69111992890907192, 4538763491708805201),
     (4, 1, 131787061017819872, 6923837976097232773, 109088526065726931, 5731300733903018987),
     (3, 1, 6225152324865457, 523291992291295503, 69916608486406506, 5877253991514641767),
     (3, 1, 26816880608899812, 1803401189052482957, 49324880202372151, 3317035597992266859),
     (4, 1, 96254421267946822, 5178390143067289627, 62733320506822057, 3374988954014806670),
     (3, 1, 13109022912350221, 1128403398249521623, 62733320506822057, 5399982326423690672),
     (3, 1, 51733143135668622, 3562483941433685705, 37921171709586139, 2611354289869284918),
     (4, 1, 107736215057882503, 5935205368025306977, 81869643490048192, 4510211791451832695),
     (3, 1, 67930625221635411, 5987694462845595022, 10233705436256024, 902042358290366539),
     (3, 1, 62813772503507399, 4429338626960329402, 12792131795320030, 902042358290366539),
     (4, 1, 124149841767823917, 7003581128868257687, 31980329488300075, 1804084716580733078),
     (3, 1, 19516271407015499, 1761533169089798153, 62320290406422880, 5625011887196873859),
     (3, 1, 23452470212425278, 1693450693104302273, 50676416610226939, 3659231290150588066),
     (4, 1, 121033827247502773, 6991666695570795908, 31201325858219789, 1802382654681095681),
     (3, 1, 42430388531880162, 3921669055667693135, 71145852227338621, 6575723126113379178),
     (3, 1, 21215194265940081, 1568667622267077254, 61181062105676107, 4523774329757833459),
     (4, 1, 106075971329700405, 6274670489068309016, 63029452624784209, 3728356586032305749),
     (3, 1, 69180430179193776, 6547524733076249173, 15372281798048531, 1454896927004242639),
     (3, 1, 19217933291548357, 1455092351627105558, 67257604432443863, 5092432381449143615),
     (4, 1, 108094422154990275, 6547524733076249173, 67257604432443863, 4073945905159314892),
     (3, 1, 69361017723450042, 6722167083211159907, 18314995570267027, 1775009427377291345),
     (3, 1, 59228778798912012, 4592155770358410293, 18314995570267027, 1420007541901833076),
     (4, 1, 47929384969723033, 2972868341664830578, 117681566380252117, 7299317596300912019),
     (3, 1, 63175054778268414, 6269594169068377099, 50121760513809923, 4974164226113513327),
     (3, 1, 65266471322292455, 5181719771819455088, 9267116562337858, 735746856631729911),
     (3, 1, 53484247926406408, 3397032250664895875, 23167791405844645, 1471493713263459822),
     (4, 1, 13371061981601602, 679406450132979175, 142581080992426429, 7244787753319797638),
     (3, 1, 6685530990800801, 543525160106383340, 69586472640020020, 5657291654910866001),
     (3, 1, 6685530990800801, 434820128085106672, 66926497827622622, 4352831270655545985),
     (4, 1, 100300761841915668, 5218767534982175917, 66873106887911663, 3479487022641749229),
     (3, 1, 4176232246762544, 347670902875906167, 71084933094481513, 5917813332577571663),
     (3, 1, 5220290308453180, 347670902875906167, 70040875032790877, 4664716485486876097),
     (4, 1, 130074213580002447, 6930345494847837614, 123548850694435972, 6582674591971931447),
     (3, 1, 18706287779587734, 1594671640695111223, 60904624470106295, 5191990980468306779),
     (3, 1, 46765719448969335, 3189343281390222446, 25775740290156214, 1757862064048300467),
     (4, 1, 132195049333172991, 7212383727082316474, 115256124681227377, 6288218827335887589),
     (3, 1, 8469462325972807, 739331919797143108, 69962360499272160, 6107283356446772983),
     (3, 1, 68307364080654882, 4770249886315641515, 25960052450790847, 1812922207127069083),
     (4, 1, 34153682040327441, 1908099954526256606, 116130654187468279, 6487994346043523075)]"

lemma low_certificates1_ok: "chain step64 (- 1074) low_certificates1 = Some (- 823)"
  by code_simp

definition low_certificates2 :: "certificate list" where
  "low_certificates2 =
    [(3, 1, 71724766097276371, 6411397647469922442, 22202944045095954, 1984696653099857239),
     (3, 1, 30311647037364197, 2167619728367997529, 55507360112739885, 3969393306199714478),
     (4, 1, 114947659880612866, 6576028415211248703, 36610575306208119, 2094450498260741413),
     (3, 1, 65247610579825266, 5972389752250171709, 13089473994579481, 1198134914870639955),
     (3, 1, 61925302232912361, 4534627854405403763, 13089473994579481, 958507931896511964),
     (4, 1, 141342663135385508, 8280122717643011649, 116044232081222807, 6798092387624023718),
     (3, 1, 71287364257553287, 6681839565504371613, 5018617364841838, 470400279513411985),
     (3, 1, 71572791640994160, 5366874379280739481, 2509308682420919, 188160111805364794),
     (4, 1, 115756236524664381, 6943970364183529469, 128302779936768976, 7696610811404988645),
     (3, 1, 65570062876246001, 6293453720476308424, 16037847492096122, 1539322162280997729),
     (3, 1, 44813417057195092, 3440974785559122007, 40094618730240305, 3078644324561995458),
     (4, 1, 142690564719318461, 8765136293172437902, 28891264465941532, 1774720502537771965),
     (3, 1, 71425175197123524, 7019961232592954561, 7222816116485383, 709888201015108786),
     (3, 1, 61193190498193179, 4811455611391113085, 36114080582426915, 2839552804060435144),
     (3, 1, 61193190498193179, 3849164489112890468, 29844303103485349, 1877261681782212527),
     (4, 1, 123890965287608839, 6234376083019397080, 22759373400419632, 1145285234179020599),
     (3, 1, 66992531786559759, 5393860796114952932, 14224608375262270, 1145285234179020599),
     (3, 1, 65501634737619987, 4219057739968218251, 35561520938155675, 2290570468358041198),
     (4, 1, 43046549388021753, 2218153829008468369, 134761055302756622, 6944128044423696423),
     (3, 1, 65031911509180406, 5361666775064409917, 12166989131678279, 1003128154562703874),
     (3, 1, 22341472443134241, 1473584616837963533, 60834945658391395, 4012512618250815496),
     (4, 1, 87818521854784132, 4633822527428868285, 63929681493897059, 3373306587505882438),
     (3, 1, 21954630463696033, 1853529010971547314, 61028366648110499, 5152345800651566839),
     (3, 1, 45118142113136466, 3047294664007090723, 64655010205343699, 4366821379879098533),
     (4, 1, 66166111687524199, 3575105350355893847, 85702979779731432, 4630726723053500095),
     (3, 1, 63008746625960270, 5447209187579650301, 10712872472466429, 926145344610700019),
     (3, 1, 31821495365189711, 2200816251048770083, 53564362362332145, 3704581378442800076),
     (4, 1, 138950220089854001, 7687983206347496188, 32217897930451681, 1782585576855926029),
     (3, 1, 66707701349626450, 5905397629491570159, 58900978470302261, 5214295974766109710),
     (3, 1, 53934137451881932, 3819679239585126275, 58900978470302261, 4171436779812887768),
     (4, 1, 13483534362970483, 763935847917025255, 132702479995865509, 7518516944247248012),
     (3, 1, 13483534362970483, 1222297356667240408, 64399190248331529, 5837858078829792451),
     (3, 1, 59921284241736952, 4345544743100783551, 52424896668621489, 3801900059532605470),
     (4, 1, 74901605302171190, 4345544743100783551, 127326501970792679, 7387064790726867927),
     (3, 1, 52432680472244419, 4867154621290663221, 29955971838694718, 2780715108531144541),
     (3, 1, 71160027748692949, 5284442523842566957, 48683319115143248, 3615290913634952013),
     (4, 1, 119843346863836197, 7119786749982015176, 60854148893929060, 3615290913634952013),
     (3, 1, 37101367596694701, 3526654851804640933, 38966318520716624, 3703926975465263093),
     (3, 1, 46842947226873857, 3562109276536765365, 48707898150895780, 3703926975465263093),
     (4, 1, 46842947226873857, 2849687421229412292, 107727819915493582, 6553614396694675385),
     (3, 1, 18155751565282228, 1767206204442019353, 72019661523029019, 7010097721797759661),
     (3, 1, 22694689456602785, 1767206204442019353, 58402847849067348, 4547754454772996117),
     (4, 1, 81097537305670133, 5051968527372012376, 73003559811334185, 4547754454772996117),
     (2, 1, 10117471867919935, 1008428145198032518, 29419549598123138, 2932303862179774131),
     (1, 1, 12413623333490752, 4949160152575839167, 14709774799061569, 5864607724359548262),
     (3, 1, 64364268133024577, 5132249666932580986, 66660419598595394, 5315339181289322805),
     (3, 1, 44254936035019503, 2823024480060110045, 33330209799297697, 2126135672515729122),
     (4, 1, 52726496257876997, 2690740568527751131, 113924552738611488, 5813802121535165357),
     (3, 1, 66967065350203433, 5467945333951434881, 71202845461632180, 5813802121535165357),
     (3, 1, 31365642619387343, 2048835418547081762, 57637914207652882, 3764966702988083595),
     (4, 1, 121642542204208019, 6356650858887013681, 28818957103826441, 1505986681195233438),
     (3, 1, 42013583688599702, 3512793179093161521, 62036123069243969, 5186895542885009675),
     (3, 1, 21498918076127643, 1438034961939157651, 62036123069243969, 4149516434308007740),
     (4, 1, 42382678362470546, 2267938248800759199, 104418801431714515, 5587551396247165391),
     (3, 1, 65111912018167669, 5574722558329394248, 10211195972002174, 874257609218410637),
     (3, 1, 50425548960087639, 3453849676237532591, 25527989930005435, 1748515218436821274),
     (4, 1, 37976769445046537, 2080945957869741546, 120785128992583393, 6618449373678254867),
     (3, 1, 65602493946650967, 5751526382021470283, 58678859331930751, 5144514898914991802),
     (3, 1, 70795219907691129, 4965427995481063315, 62140676639290859, 4358416512374584834),
     (4, 1, 95374650776036356, 5351502111470797497, 119954081644381583, 6730661826556744342),
     (3, 1, 47319441300850109, 4248174339402040021, 71898872169195336, 6454829883539554973),
     (3, 1, 70059451733354991, 5031754507733252072, 6604712826046393, 474358458602100967),
     (4, 1, 64102836245597431, 3683154546682892597, 96478303037540563, 5543350673713324752),
     (3, 1, 67177623587157073, 6175716002391582475, 8093866697985783, 744078450812172862),
     (3, 1, 26911739269271497, 1979221651290489357, 67381072759200412, 4955535454539180805),
     (4, 1, 134558696346357485, 7916886605161957428, 16845268189800103, 991107090907836161),
     (3, 1, 10502861472119647, 988713066487689789, 63220618004761221, 5951430594287309710),
     (3, 1, 28933731341339864, 2178999185345151731, 63220618004761221, 4761144475429847768),
     (4, 1, 36167164176674830, 2178999185345151731, 121088080687440949, 7295314276896120984),
     (3, 1, 56999243230472723, 5494544342277892214, 16709333605607176, 1610726199551357355),
     (3, 1, 71952212680872121, 5548770133687723835, 4177333401401794, 322145239910271471),
     (4, 1, 135187774623728668, 8340267611770247483, 10443333503504485, 644290479820542942),
     (3, 1, 11676805076213841, 1152621138497615143, 63893472593736266, 6306944977061958679),
     (3, 1, 58384025381069205, 4610484553990460572, 21811770686540987, 1722437450811437793),
     (3, 1, 20048949016902548, 1266584400960379673, 68960955398899839, 4356581001324991826),
     (4, 1, 129107802449607483, 6525067363364904676, 104046616178479298, 5258482962404525003)]"

lemma low_certificates2_ok: "chain step64 (- 823) low_certificates2 = Some (- 574)"
  by code_simp

definition low_certificates3 :: "certificate list" where
  "low_certificates3 =
    [(3, 1, 45282777634711783, 3661723537826866871, 33702652272639330, 2725314160483765657),
     (3, 1, 14215725749196059, 919626583033993617, 70040904932402266, 4531001737933537697),
     (4, 1, 67265266355286773, 3481154780081889667, 130717170319880024, 6764958008109694533),
     (3, 1, 34585973775316767, 2863864444887145654, 47112257674608248, 3901093563222548879),
     (3, 1, 46364038193968829, 3071310268554226299, 58890322093260310, 3901093563222548879),
     (4, 1, 122173237434567813, 6474533854975781630, 67349760666929647, 3569180245355219847),
     (3, 1, 64807982338415807, 5495167151610874435, 57365255096152006, 4864087016350376173),
     (3, 1, 64807982338415807, 4396133721288699548, 39302577700982104, 2666020155706026399),
     (4, 1, 84459271188906859, 4583315039313370198, 133587493315134489, 7249335195019396597),
     (3, 1, 20357259031230968, 1767549829187607279, 54511691126010337, 4733060093733106718),
     (3, 1, 64690320641625821, 4493468006661528286, 39243746852587111, 2725918177473921007),
     (4, 1, 116657354388732287, 6482528878983402346, 129917584367766165, 7219386184135449293),
     (3, 1, 27506809849803837, 2445640090562951549, 60657384797388532, 5393069311171139337),
     (3, 1, 39849273500260541, 2834410282666494611, 57835502248498103, 4113739796918816974),
     (4, 1, 125982785689733722, 7168751082914791493, 24421193937189661, 1389630015917062317),
     (3, 1, 34063743664108961, 3101306235683433079, 53978482357730383, 4914427655969632378),
     (3, 1, 46116930822758086, 3358943198762879835, 31967925852270547, 2328395346445092811),
     (4, 1, 23058465411379043, 1343577279505151934, 137565978159123975, 8015733891653065457),
     (3, 1, 20274259023600448, 1890154148382781937, 54469549986093871, 5078155790892869661),
     (3, 1, 69675244253794207, 5196617121743964891, 44332420474293647, 3306462973361182954),
     (4, 1, 88682362088419627, 5291386186424841075, 57003832364043927, 3401232038042059138),
     (3, 1, 64140262121944626, 6123263097522654797, 24542099966475001, 2342954800757090923),
     (3, 1, 35834146608220969, 2736775938210756509, 52848215480198658, 4036198380413040067),
     (4, 1, 31129127174160149, 1901950051366910617, 132120538700496645, 8072396760826080134),
     (3, 1, 56376980055744273, 5511298765970724794, 63119632203960310, 6170446709459169517),
     (3, 1, 43968398078862214, 3438608848280123821, 69862284352176347, 5463675722358091392),
     (3, 1, 63997753501351808, 4004025637960986321, 45923241695803727, 2873192058599261321),
     (4, 1, 141919871947831439, 7103384412432592642, 61922680071141679, 3099358774471606321),
     (3, 1, 49998244922931100, 4004025637960986321, 31923733117383019, 2556558656377978321),
     (3, 1, 62497806153663875, 4004025637960986321, 44423294348115794, 2846052052694579921),
     (4, 1, 82640885643466864, 4235620355014267601, 64566373837918783, 3309241486801142481),
     (3, 1, 51650553527166790, 4235620355014267601, 33576041721618709, 2753414165873267409),
     (3, 1, 21949894284565738, 1440006546659253597, 63276700964219761, 4151221070050774411),
     (4, 1, 133327366444319683, 6997474449383884329, 26150876910968446, 1372487118688459045),
     (3, 1, 71862279253138987, 6034523610374706197, 13075438455484223, 1097989694950767236),
     (3, 1, 27772148654897914, 1865698539045401581, 65377192277421115, 4391958779803068944),
     (4, 1, 81289856284781907, 4368761466584789791, 93149340932319029, 5006125855078776420),
     (3, 1, 15875157328369056, 1365085953537523939, 61399026275580917, 5279629461050994394),
     (3, 1, 19843946660461320, 1365085953537523939, 65367815607673181, 4496720759548300303),
     (4, 1, 124899655589057141, 6873582896128697696, 100094722263480491, 5508496942591173757),
     (3, 1, 52929230557143854, 4660553493404012593, 43846127800346083, 3860763172657929430),
     (3, 1, 44238474296256776, 3116248224340840821, 43846127800346083, 3088610538126343544),
     (4, 1, 88084602096602859, 4963887009973747492, 120871111322884748, 6811525795606654163),
     (3, 1, 28933412132940836, 2608804448857667161, 64288652754783427, 5796638244640306843),
     (3, 1, 36166765166176045, 2608804448857667161, 49821946688313009, 3593788816169178610),
     (4, 1, 115327886259596617, 6655124424183005766, 82574916473954813, 4765077738559174327),
     (3, 1, 53569821906593083, 4946090202221638325, 66198431581133911, 6112087033195613772),
     (3, 1, 53569821906593083, 3956872161777310660, 69355583999769118, 5122868992751286107),
     (4, 1, 53569821906593083, 3165497729421848528, 113479390953007939, 6705617857462210371),
     (3, 1, 31103733514187512, 2940724290250740539, 68547214168196797, 6480844418291102382),
     (3, 1, 38879666892734390, 2940724290250740539, 52995347411103041, 4008385818532585690),
     (3, 1, 22101909910366467, 1337369962837706263, 52995347411103041, 3206708654826068552),
     (1, 1, 1663797789999545, 805401233687050237, 17110516540367832, 8282756001640499393),
     (3, 1, 18774314330367377, 1817631447065509926, 66778268371471783, 6465124554574989467),
     (3, 1, 16160482985274964, 1251659114976716003, 61550605681286957, 4767207558308607698),
     (4, 1, 85791330159199403, 5315756984618945362, 65590726427605698, 4064097869642229359),
     (3, 1, 26497983472698277, 2626966439838264546, 68739416298157984, 6814712519365326445),
     (3, 1, 63750501065333401, 5056095743860797028, 17184854074539496, 1362942503873065289),
     (3, 1, 50861860509428779, 3227111092764798449, 21481067593174370, 1362942503873065289),
     (4, 1, 95244399932531092, 4834494947175889131, 53702668982935925, 2725885007746130578),
     (3, 1, 56487515449496743, 4587584919849340321, 62567984466167122, 5081404974502437941),
     (3, 1, 69089277057703334, 4488820908918720797, 6080469016670379, 395056043722478096),
     (4, 1, 130026938375986403, 6758416524953182831, 115794853619895759, 6018674760658429910),
     (3, 1, 66792479782504532, 5554681572821496849, 49002373837391227, 4075198044231991007),
     (3, 1, 67884465781991704, 4516395766564502783, 15606133946138961, 1038285806256994066),
     (4, 1, 134403949064624443, 7153582718195899149, 49548366837134813, 2637186951631396366),
     (3, 1, 22994039487719907, 1958153933965459103, 63789518283914809, 5432264141327498104),
     (3, 1, 1298150044811228, 88439532113775841, 70833095915017783, 4825671643993457818),
     (4, 1, 113996584904991114, 6213028869421203625, 112373897348977079, 6124589337307427784),
     (3, 1, 56998292452495557, 4970423095536962900, 40720359894354124, 3550938257425170493),
     (3, 1, 56998292452495557, 3976338476429570320, 50900449867942655, 3550938257425170493),
     (4, 1, 56998292452495557, 3181070781143656256, 134873427900547765, 7527276733854740813),
     (3, 1, 66732684383502083, 5958954440372066921, 48671959655032630, 4346205952711084557),
     (3, 1, 21198352277992884, 1514340585606609857, 58084842303602923, 4149390148602339543),
     (4, 1, 26497940347491105, 1514340585606609857, 132279075276578017, 7559665758580379234),
     (3, 1, 39773238828846346, 3636824839346397667, 52943224079762833, 4841075006160083522)]"

lemma low_certificates3_ok: "chain step64 (- 574) low_certificates3 = Some (- 325)"
  by code_simp

definition low_certificates4 :: "certificate list" where
  "low_certificates4 =
    [(3, 1, 56301541161516176, 4118524906071872009, 69471526412432663, 5081925039522820693),
     (4, 1, 70376926451895220, 4118524906071872009, 97622296993190751, 5712949994047005358),
     (3, 1, 65551356987734357, 6137804760549262937, 22419801077134668, 2099245051594481081),
     (3, 1, 48736506179883356, 3650696777482721701, 28024751346418335, 2099245051594481081),
     (4, 1, 141338388507632543, 8469767571026980111, 40208877891389174, 2409535396772129205),
     (3, 1, 71124681169644097, 6819486475611017561, 20104438945694587, 1927628317417703364),
     (3, 1, 22807280028834671, 1749422958605744185, 54907634670803593, 4211667352459325086),
     (4, 1, 22807280028834671, 1399538366884595348, 142758203432217172, 8760167044834259967),
     (3, 1, 68948452241904678, 6769487926862532779, 6441135414609811, 632402715459175715),
     (3, 1, 70082726765856320, 5504682495944181349, 6441135414609811, 505922172367340572),
     (3, 1, 30402952520683702, 1910411974976581185, 62608629593732757, 3934100664445943473),
     (4, 1, 15201476260341851, 764164789990632474, 133719359593819116, 6721954143905938235),
     (3, 1, 54718610600082017, 4401049988743717543, 33429839898454779, 2688781657562375294),
     (3, 1, 32681497975447818, 2102873661733755467, 44822567172275359, 2884084322838581903),
     (4, 1, 79603905043171361, 4097656855562690415, 77504065147723177, 3989566387657869896),
     (3, 1, 1312399934655115, 108090467904820519, 71729505435240671, 5907708161471381550),
     (3, 1, 39145752554258123, 2579264200398193658, 55437628994749397, 3652715364787649449),
     (4, 1, 15499907167006243, 817015447281386305, 133729134103265643, 7048995012467229412),
     (3, 1, 15499907167006243, 1307224715650218088, 58393359668155882, 4924754849535625019),
     (3, 1, 55151242334489123, 3721058006433660113, 22348293500542092, 1507840856167212239),
     (4, 1, 122196122836115399, 6595664459948237464, 27935366875677615, 1507840856167212239),
     (3, 1, 11782594495054723, 1017564720756205045, 68981267408059737, 5957338524800467642),
     (3, 1, 11782594495054723, 814051776604964036, 65607043893728906, 4532747915741780579),
     (4, 1, 127064277907302237, 7023030536568482062, 34075652716014311, 1883411715074312959),
     (3, 1, 3104664969907413, 274559078269108637, 71028984543034339, 6281403215983027288),
     (3, 1, 65103386926846633, 4605901398079730829, 49580062077309568, 3507665085003296281),
     (4, 1, 114683449004156201, 6490853186466421688, 61975077596636960, 3507665085003296281),
     (3, 1, 44961486707939621, 4071567945340341395, 38734423497898100, 3507665085003296281),
     (3, 1, 44961486707939621, 3257254356272273116, 48418029372372625, 3507665085003296281),
     (4, 1, 143578680925522511, 8321295724945856962, 864135666108251, 50082145746204633),
     (3, 1, 59874434965884593, 5552165561109828490, 32097556648212924, 2976411363539732777),
     (3, 1, 59874434965884593, 4441732448887862792, 40121945810266155, 2976411363539732777),
     (4, 1, 9876244577809219, 586128434139252006, 134871720547997654, 8004272246566847575),
     (3, 1, 62922200927760644, 5974820216218612557, 67435860273998827, 6403417797253478060),
     (3, 1, 11216890885701978, 852085978415830109, 67435860273998827, 5122734237802782448),
     (4, 1, 36522152858424908, 2219510890804279001, 118046384219444687, 7173871606385455786),
     (3, 1, 45652691073031135, 4439021781608558002, 63588461217025457, 6182999463269220429),
     (3, 1, 63995094073548122, 4978030601598137117, 36278173144511309, 2821995321639820657),
     (4, 1, 66135407127416746, 4115616489614810533, 104553893325796679, 6506404755262967898),
     (3, 1, 31730007905040483, 3159301183355547587, 70148494103420416, 6984562408392599371),
     (3, 1, 45922892284225862, 3657969411690356265, 66804254956750691, 5321265910041477818),
     (3, 1, 22961446142112931, 1463187764676142506, 63684129752368538, 4058186879040314359),
     (4, 1, 50363201651261531, 2567462693419433879, 137008777545743000, 6984562408392599371),
     (3, 1, 16111007264825781, 1314115346114054458, 69519478701263594, 5670447062278544913),
     (3, 1, 66981753880283359, 4370763378693905098, 60195112658360586, 3927914375812748731),
     (4, 1, 18442098775551533, 962722476315012293, 132045682870349932, 6893106275310485169),
     (3, 1, 44168858522121041, 3689155198218126537, 40296081688605458, 3365685784134281267),
     (3, 1, 56179267361030197, 3753849081034895591, 52306490527514614, 3495073549767819375),
     (4, 1, 127371545770696839, 6808683452116227307, 26153245263757307, 1398029419907127750),
     (3, 1, 50184815184958554, 4292230496283397357, 26153245263757307, 2236847071851404400),
     (3, 1, 49654396349319539, 3397491667542835597, 26153245263757307, 1789477657481123520),
     (4, 1, 133989419911982018, 7334342514001307341, 26153245263757307, 1431582125984898816),
     (3, 1, 70574840683561747, 6181025991865231197, 2866256458820228, 251030048381617111),
     (3, 1, 72007968912971861, 5045232812844831802, 3582820573525285, 251030048381617111),
     (4, 1, 59292318184400283, 3323449376722341698, 97895528710413637, 5487234161846746769),
     (3, 1, 19995356460696803, 1793245587328111330, 58251691387865094, 5224192363912865807),
     (3, 1, 19995356460696803, 1434596469862489064, 62816936004482966, 4506894128981621275),
     (4, 1, 65692625152862749, 3770571765521302383, 97101093155104232, 5573329417113950893),
     (3, 1, 29279715219698662, 2688917174565713277, 60688183221940145, 5573329417113950893),
     (3, 1, 64814982853050579, 4761852887025274163, 8384305196196076, 615981462106152391),
     (4, 1, 92063974740687826, 5411034111096215547, 102544356235932921, 6027015573202367938),
     (3, 1, 17775802937549409, 1671628474753564306, 70640461081986260, 6642997035308520329),
     (3, 1, 115687667052844, 8703372741147379, 71988615298031821, 5415821478806739890),
     (4, 1, 88618717436878146, 5333545048277340497, 88474107853062091, 5324841675536193118),
     (3, 1, 11113492075563782, 1070190358751927051, 65957904534302417, 6351515170582383274),
     (3, 1, 27783730188909455, 2140380717503854102, 52427563399387827, 4038872570485651181),
     (4, 1, 107995023777206737, 6655707204394687508, 46266605096768234, 2851399685792161529),
     (3, 1, 65564163162795427, 6465125637832614618, 25051174789562579, 2470236552668015749),
     (3, 1, 50641235466541060, 3994889085164598869, 35179421882870791, 2775167059167332373),
     (3, 1, 60500039616141321, 3818089281399705446, 57698534899106317, 3641289477634812023),
     (4, 1, 120299703053023891, 6073582889486550029, 58398911078365068, 2948391542860828303),
     (3, 1, 9050804332942511, 731118151584080399, 63947834515013824, 5165664934137576207),
     (3, 1, 43139371627580989, 2787816550629308199, 41024721590449423, 2651160494922294802),
     (3, 1, 22098348323073386, 1142457831393125959, 61008419876391243, 3154061382765351083)]"

lemma low_certificates4_ok: "chain step64 (- 325) low_certificates4 = Some (- 80)"
  by code_simp

definition high_certificates1 :: "certificate list" where
  "high_certificates1 =
    [(2, 1, 18470676794486069, 1429099397287102879, 22663291186418487, 1753487223853182146),
     (1, 1, 8187184799259930, 2533810968008126491, 10283491995226139, 3182586621140285025),
     (4, 1, 143770843948561040, 8898984210288696541, 10283491995226139, 636517324228057005),
     (3, 1, 69289793477398372, 6862128772758914125, 10283491995226139, 1018427718764891208),
     (3, 1, 17322448369349593, 1372425754551782825, 68739908345480288, 5446136629611347657),
     (3, 1, 17322448369349593, 1097940603641426260, 68602437062500767, 4348196025969921397),
     (4, 1, 142051003528512136, 7202841595437629673, 124728555159162543, 6324489112524488665),
     (3, 1, 52835199251477627, 4286500610836077482, 35946677953842458, 2916340984601552191),
     (3, 1, 35404269114199428, 2297868441254741431, 54462425770406717, 3534813527948362951),
     (4, 1, 44255336392749285, 2297868441254741431, 107568829441705859, 5585292951864380078),
     (3, 1, 6299294934135499, 523324948759937686, 69692923909992469, 5789861598079370765),
     (3, 1, 25297349645167491, 1681297268375811839, 69692923909992469, 4631889278463496612),
     (4, 1, 126486748225837455, 6725189073503247356, 124936966969459954, 6642788568170459575),
     (3, 1, 48788589184019359, 4150474151567851307, 62468483484729977, 5314230854536367660),
     (3, 1, 14134373866476716, 961935638846030711, 62468483484729977, 4251384683629094128),
     (4, 1, 73069263884587514, 3978269130210893729, 128470560436079133, 6994602621575756747),
     (3, 1, 67753249094237065, 5902140407902955151, 22983982123446344, 2002187222588123953),
     (3, 1, 50515262501652307, 3520399992769489749, 28729977654307930, 2002187222588123953),
     (4, 1, 89900080973018996, 5012096997766419015, 71824944135769825, 4004374445176247906),
     (3, 1, 22475020243254749, 2004838799106567606, 55949749001523443, 4990884385618869791),
     (3, 1, 47818868418569699, 3412468480910674775, 64556232797704046, 4606886715515595649),
     (4, 1, 104604725206414907, 5971874107879865559, 56785856787845208, 3241899323151325739),
     (3, 1, 47818868418569699, 4367959655565663712, 35491160492403255, 3241899323151325739),
     (3, 1, 44736941437028088, 3269155657969663375, 29327306529320033, 2143095325555325402),
     (4, 1, 11184235359257022, 653831131593932675, 135452297287343143, 7918550170627368933),
     (3, 1, 5592117679628511, 523064905275146140, 67259223955958603, 6291165819983320811),
     (3, 1, 5592117679628511, 418451924220116912, 71491765165784104, 5349648990488057759),
     (4, 1, 27960588398142555, 1673807696880467648, 140899530243273268, 8434683664371669203),
     (3, 1, 31592735479480436, 3025982890378707959, 49753470886169841, 4765435767228506570),
     (3, 1, 39490919349350545, 3025982890378707959, 49753470886169841, 3812348613782805256),
     (4, 1, 76416200814496266, 4684299479925113275, 121038395932256459, 7419632081589718561),
     (3, 1, 38208100407248133, 3747439583940090620, 46225718795388208, 4533805307344187917),
     (3, 1, 38208100407248133, 2997951667152072496, 57782148494235260, 4533805307344187917),
     (3, 1, 9317026160130503, 584839210783982830, 62910659457663572, 3948966096560205087),
     (4, 1, 115906428962601477, 5820451571068950143, 106589402802470974, 5352580202441763879),
     (3, 1, 42300282590959241, 3398696668915932833, 54972094051381230, 4416837465187391351),
     (3, 1, 7407117782634313, 476111174528894863, 70766175084744258, 4548674359614728935),
     (4, 1, 109454265368715259, 5628359140077050478, 36209338227771847, 1861957220980735513),
     (3, 1, 18311231785235853, 1506560767638525986, 63056497891575838, 5187987732465153073),
     (3, 1, 66636418560667379, 4386021217005662935, 24919740365511886, 1640221853548441009),
     (4, 1, 64467884737223547, 3394630340350706183, 126767235651003262, 6675074047447588201),
     (3, 1, 271066727930479, 22837326650764833, 71873767078355139, 6055352897498943772),
     (3, 1, 1355333639652395, 91349306603059332, 71571887217841007, 4823935655650785335),
     (4, 1, 140498306077311206, 7575653677338633457, 39174277708051491, 2112272875466432798),
     (3, 1, 38843594163255140, 3351107926405767861, 46942996540702519, 4049858186027446049),
     (3, 1, 48554492704068925, 3351107926405767861, 37232097999888734, 2569664963540803267),
     (4, 1, 123018688703846393, 6792350282789899516, 108049466851784114, 5965840104935753025),
     (3, 1, 32217710671550863, 2846188376695443587, 54024733425892057, 4772672083948602420),
     (3, 1, 53778321695911593, 3800722793485164071, 54024733425892057, 3818137667158881936),
     (4, 1, 144084067244452949, 8146384361350177386, 61602932495116, 3482974734743573),
     (3, 1, 72018932522540806, 6515017704239295765, 77003665618895, 6965949469487146),
     (3, 1, 33597975418461439, 2431487354904776805, 67580969165017353, 4890838507687502194),
     (4, 1, 126473680729348490, 7322325862592278999, 92875705310887051, 5377135978668457555),
     (3, 1, 9389271472677518, 869762688190129933, 64707890892854497, 5994129501299142289),
     (3, 1, 53479806259951664, 3963224639261890795, 30006627578257869, 2223699262881630929),
     (4, 1, 13369951564987916, 792644927852378159, 136663186326301429, 8102152123674145557),
     (3, 1, 16712439456234895, 1585289855704756318, 56632885543786288, 5372018799945987023),
     (3, 1, 52691536438993008, 3998523778266022813, 30870660842181467, 2342635644553002459),
     (4, 1, 136253733720167483, 8271746560868038468, 70389313171426223, 4273222782602015655),
     (3, 1, 5970606257250176, 579945552184410289, 70389313171426223, 6837156452163225048),
     (3, 1, 7463257821562720, 579945552184410289, 65911358478488591, 5121757830419933865),
     (4, 1, 75240430755441991, 4677351816520357381, 141151789233930582, 8774758080856304473),
     (3, 1, 5830670173095875, 579945552184410289, 67077492513107766, 6671839133374397405),
     (3, 1, 64884794817570512, 5162994584393459021, 33538746256553883, 2668735653349758962),
     (3, 1, 65981143665339139, 4200186356437190778, 50856293808715138, 3237378128480922535),
     (4, 1, 126810638806811494, 6457945835785828035, 25428146904357569, 1294951251392369014),
     (3, 1, 63405319403405747, 5166356668628662428, 47636513481298398, 3881491669941903635),
     (3, 1, 51331143175592972, 3346028331361898313, 23818256740649199, 1552596667976761454)]"

lemma high_certificates1_ok: "chain step64 (87) high_certificates1 = Some (309)"
  by code_simp

definition high_certificates2 :: "certificate list" where
  "high_certificates2 =
    [(4, 1, 60469299275196641, 3153360335035197989, 119091283703245995, 6210386671907045816),
     (3, 1, 38947883826464955, 3249694333198548151, 44890145744610659, 3745498802776897522),
     (3, 1, 40433449306001381, 2698916360474508395, 47861276703683511, 3194720830052857766),
     (4, 1, 110368407512106115, 5893637190527366161, 69934958206104734, 3734504102147759445),
     (3, 1, 59283681408264818, 5065166997188765321, 34967479103052367, 2987603281718207556),
     (3, 1, 61946500607724797, 4234141511000542215, 37630298302512346, 2572090538624096003),
     (4, 1, 61946500607724797, 3387313208800433772, 139957623789727628, 7653060351824746661),
     (3, 1, 67392736650732225, 5896192483376988427, 21510858617285462, 1881985644054500979),
     (3, 1, 28318653671044747, 1982079864539895175, 53777146543213655, 3763971288109001958),
     (4, 1, 116779077103345376, 6538883098464855203, 88460423432300629, 4953219206832939063),
     (3, 1, 28318653671044747, 2537062226611065824, 44668269518546113, 4001820871853789379),
     (3, 1, 66709230215736526, 4781172724173586937, 8174807923750683, 585903458097089422),
     (4, 1, 103823557579047365, 5952979640367765781, 49704230955369629, 2849914622624777850),
     (3, 1, 33824579139798585, 3103065017742987931, 49704230955369629, 4559863396199644560),
     (3, 1, 29854666185905824, 2191092338503059019, 49704230955369629, 3647890716959715648),
     (4, 1, 64631564048322541, 3794749508968996126, 91944795364262802, 5398406679434933233),
     (3, 1, 55301980865226971, 5195162278949170194, 31978022907488046, 3004069940446111175),
     (3, 1, 66304400621219324, 4982998665095340273, 15989011453744023, 1201627976178444470),
     (4, 1, 130847535137756224, 7866905807923607001, 15989011453744023, 961302380942755576),
     (3, 1, 33078814222914561, 3182059675245755279, 48700895238183079, 4684846132677851722),
     (3, 1, 12633886857640151, 972266578611882823, 64322976253451597, 4950106072087958532),
     (4, 1, 140126297399292503, 8626964435007404376, 19239215777772937, 1184474530139968271),
     (3, 1, 39159904924906117, 3857447041253423763, 57036173963958568, 5618349199866322405),
     (3, 1, 67468133205623807, 5316759605254314723, 14259043490989642, 1123669839973264481),
     (3, 1, 65816914457538598, 4149309554053601955, 35647608727474105, 2247339679946528962),
     (4, 1, 32908457228769299, 1659723821621440782, 138481707661839211, 6984265092325219097),
     (3, 1, 58969035710776583, 4758524539845480952, 13196656304133739, 1064908254140755663),
     (3, 1, 51033063764061928, 3294503067078758649, 65983281520668695, 4259633016563022652),
     (4, 1, 63791329705077410, 3294503067078758649, 104258079343715141, 5384408253497673311),
     (3, 1, 69025306148722980, 5703698828398446623, 4285542393049513, 354122922303628270),
     (3, 1, 69139463113705673, 4570505477026836159, 4285542393049513, 283298337842902616),
     (4, 1, 123922824831315330, 6553593841927154471, 29070107359312579, 1537357438659752987),
     (3, 1, 22757879943742561, 1925661743849332089, 54319017021592651, 4596212533880695540),
     (3, 1, 71762295533636441, 4857742724771857159, 42027104185076364, 2844904250625471197),
     (4, 1, 92775847626174623, 5024155880067674206, 52533880231345455, 2844904250625471197),
     (3, 1, 25151229621768230, 2179251629442203009, 57564126155699101, 4987697126889194517),
     (3, 1, 62878074054420575, 4358503258884406018, 22494255672407493, 1559228524867237205),
     (4, 1, 129209667830942578, 7165114603645432987, 22494255672407493, 1247382819893789764),
     (3, 1, 43549544793939391, 3863952097373205006, 34460866784049037, 3057555230888556553),
     (3, 1, 24046941899442284, 1706860212246211693, 49419130673600967, 3507786903769338173),
     (4, 1, 30058677374302855, 1706860212246211693, 115548220897067248, 6561321989957136263),
     (3, 1, 58945732598569667, 5355505135576793214, 13271905462097363, 1205816854380343049),
     (3, 1, 11418456784118076, 829937656239290033, 66359527310486815, 4823267417521372196),
     (4, 1, 14273070980147595, 829937656239290033, 143434110603283828, 8340277277709263935),
     (3, 1, 53611941275779466, 4987806080499012919, 35858527650820957, 3336110911083705574),
     (3, 1, 58138219782245078, 4327128012732889981, 40384806157286569, 3005771877200644105),
     (4, 1, 52480371649163063, 3124819261852632339, 92865177806449632, 5529436763613147623),
     (3, 1, 64088518874969267, 6105598171686841267, 58040736129031020, 5529436763613147623),
     (3, 1, 49578334842711512, 3778591184626843489, 22972585318577263, 1750845578986304134),
     (4, 1, 97340087582644531, 5934985884741255494, 132707256611899672, 8091380584855667499),
     (3, 1, 47574866353182154, 4641149064672608291, 35367169029255141, 3450231520183059208),
     (3, 1, 66828354545967097, 5215532973096898357, 5789867926332032, 451862795138702025),
     (4, 1, 143076131160878429, 8932954100725859968, 1447466981583008, 90372559027740405),
     (3, 1, 71981582490745089, 7190668825277903708, 180933372697876, 18074511805548081),
     (3, 1, 71891115804396151, 5745305255500103734, 226166715872345, 18074511805548081),
     (3, 1, 71178498860068199, 4550684172904169591, 1130833579361725, 72298047222192324),
     (4, 1, 142469026839647231, 7286824599578196895, 5654167896808625, 289192188888769296),
     (3, 1, 42684966580922589, 3493114217608817350, 35477903032482857, 2903325864359485859),
     (3, 1, 42684966580922589, 2794491374087053880, 33676137145372924, 2204703020837722389),
     (4, 1, 127465104593561333, 6675889219377008597, 84780138012638744, 4440296120107365493),
     (3, 1, 53282483832502432, 4465008182852902065, 52987586257899215, 4440296120107365493),
     (3, 1, 13320620958125608, 893001636570580413, 65128616917611955, 4366159931870755777),
     (4, 1, 16650776197657010, 893001636570580413, 128401566468708593, 6886334164464810191),
     (3, 1, 41626940494142525, 3572006546282321652, 54995208888955537, 4719137266241200985),
     (3, 1, 38284873395439272, 2628179093034081455, 54995208888955537, 3775309812992960788),
     (4, 1, 9571218348859818, 525635818606816291, 140978987560740233, 7742337791476415078),
     (3, 1, 23928045872149545, 2102543274427265164, 57976390468727126, 5094351227296467937),
     (3, 1, 66723988254234617, 4690397987248661350, 26458120553256554, 1859887555230199653)]"

lemma high_certificates2_ok: "chain step64 (309) high_certificates2 = Some (535)"
  by code_simp

definition high_certificates3 :: "certificate list" where
  "high_certificates3 =
    [(4, 1, 132579946201829386, 7455821860590063499, 66145301383141385, 3719775110460399306),
     (3, 1, 66181469312584712, 5954894504670491867, 66000629665368077, 5938622865001226980),
     (3, 1, 16726206975362813, 1203996212669510283, 66000629665368077, 4750898292000981584),
     (4, 1, 99453043616093703, 5727112573872001720, 53682023992866761, 3091338217734491007),
     (3, 1, 3743626360493413, 344929326588710025, 69504032732146399, 6403945505485522552),
     (3, 1, 3743626360493413, 275943461270968020, 69097815702839287, 5093214064448424457),
     (4, 1, 3743626360493413, 220754769016774416, 143462571626073657, 8459724291954234301),
     (3, 1, 61753670375826124, 5826400789829573595, 34929736316395061, 3295587809174983954),
     (3, 1, 15438417593956531, 1165280157965914719, 66579758424279588, 5025390130938532783),
     (4, 1, 124713862763765614, 7530646910796828983, 47521774793982959, 2869526278933170107),
     (3, 1, 51230563940957921, 4949560916879169925, 32686618206083111, 3157966563948681156),
     (3, 1, 51230563940957921, 3959648733503335940, 53665913742843369, 4147878747324515141),
     (4, 1, 51230563940957921, 3167718986802668752, 105505315134272652, 6523667987426516705),
     (3, 1, 62135587893474395, 6147207959784158303, 26376328783568163, 2609467194970606682),
     (3, 1, 44255958338521279, 3502670061901905994, 43812842789659768, 3467599358990260367),
     (3, 1, 11396326246276453, 721576434127368575, 66162379733351163, 4189175793117628942),
     (4, 1, 96948382474534520, 4910752227244997517, 85552056228258067, 4333491079943102657),
     (3, 1, 60592739046584075, 4910752227244997517, 49196412800307622, 3987134391561965741),
     (3, 1, 42595472723368943, 2761727769210392155, 37800086554031169, 2450813244703147172),
     (4, 1, 42595472723368943, 2209382215368313724, 143089921820119083, 7421923229281853051),
     (3, 1, 60067333172550351, 4985006683613188186, 16387682049596831, 1360018836053472617),
     (3, 1, 49147420391811971, 3263007777378607435, 43695276879932042, 2901027707197499301),
     (4, 1, 49147420391811971, 2610406221902885948, 128340226687633009, 6816637040051828223),
     (3, 1, 51535174702787334, 4379566280175983441, 39596403147910519, 3364984654519153820),
     (3, 1, 44620766804528908, 3033572418368321913, 39596403147910519, 2691987723615323056),
     (4, 1, 61906786550174973, 3367019146239587210, 129944401144863784, 7067485020350439717),
     (3, 1, 61906786550174973, 5387230633983339536, 19308464165364892, 1680254386367100181),
     (3, 1, 42598322384810081, 2965580998092991484, 66733902591516196, 4645835384460091665),
     (4, 1, 129574233684655160, 7216488607911874271, 16683475647879049, 929167076892018333),
     (3, 1, 32880254858460944, 2929965044609604187, 50537123380934301, 4503371570526542477),
     (3, 1, 41100318573076180, 2929965044609604187, 58757187095549537, 4188690265343154819),
     (4, 1, 130682744598432852, 7452903274727969717, 79307346382087627, 4522938230118365530),
     (3, 1, 42023042182976719, 3834552690633277293, 37284304199110908, 3402148477556107555),
     (3, 1, 70299070168217690, 5131765329864786507, 9321076049777727, 680429695511221511),
     (4, 1, 59519609766054194, 3475899969813354741, 106124990014942829, 6197618751858240785),
     (3, 1, 10668508600048164, 996852469070058427, 63450955614750173, 5928780126692951548),
     (3, 1, 13335635750060205, 996852469070058427, 60783828464738132, 4543653607540349553),
     (4, 1, 70398821482549681, 4209907368784280046, 142657964331223690, 8531063483820583261),
     (3, 1, 71096441994846304, 6802601037806061975, 1162700853827705, 111248746252023169),
     (3, 1, 17774110498711576, 1360520207561212395, 59135835765273253, 4526555607691729861),
     (3, 3, 4443527624677894, 272104041512242479, 69059269967793671, 4228916313642553015),
     (1, 1, 2221763812338947, 1088416166048969916, 16709376538863681, 8185728585772863551),
     (3, 1, 11108819061694735, 1088416166048969916, 70031708034998409, 6861543314189628307),
     (3, 1, 55544095308473675, 4353664664195879664, 53611588959257491, 4202190694565247443),
     (3, 1, 57476601657689859, 3604110907061209508, 55060968721169629, 3452636937430577287),
     (4, 1, 28134392594714872, 1411349568898357359, 134632880632273785, 6753799905230522353),
     (3, 1, 17583995371696795, 1411349568898357359, 60780100071147246, 4878411658995734857),
     (3, 1, 63932954154848766, 4105176116234939521, 23987022703635209, 1540222159358489915),
     (4, 1, 139883749452648980, 7185620434951919351, 23987022703635209, 1232177727486791932),
     (3, 1, 40462894692925763, 3325630078981718065, 53466002737033936, 4394350632958684507),
     (3, 1, 40462894692925763, 2660504063185374452, 66832503421292420, 4394350632958684507),
     (4, 1, 57171020548248868, 3007273377140036463, 140711649824864393, 7401624010098720970),
     (3, 1, 71463775685311085, 6014546754280072926, 34623937069776654, 2914025830938940313),
     (3, 1, 46603773655857483, 3137819941821571073, 44387872110099706, 2988623867899817233),
     (4, 1, 56592790910503521, 3048302297468518769, 110969680275249265, 5977247735799634466),
     (3, 1, 49795679739910303, 4291494588283406891, 33985555852966090, 2928945438331115697),
     (3, 1, 16401450906713629, 1130808747647139617, 68562438725701596, 4727082129015091777),
     (4, 1, 115549315121707173, 6373298414509288517, 33542060588139028, 1850063423920730049),
     (3, 1, 70352930281405722, 6208676785959868843, 41927575735173785, 3700126847841460098),
     (3, 1, 28425354546231937, 2006839950494726996, 45303131032409247, 3198416860217778349),
     (4, 1, 18432121394660296, 1041051362142501069, 134355048188744755, 7588410630158608051),
     (3, 1, 11520075871662685, 1041051362142501069, 60626562610103571, 5478728290541766040),
     (3, 1, 57600379358313425, 4164205448570004276, 29556735492104249, 2136797020250854277),
     (4, 1, 50589468391761131, 2925882673192173421, 116713850342521923, 6750239591257370264),
     (3, 1, 42323920647916032, 3916540893494438105, 41327738719225495, 3824356918065196843),
     (3, 1, 10580980161979008, 783308178698887621, 69085951490400371, 5114421349175248299),
     (4, 1, 13226225202473760, 783308178698887621, 132571832462274419, 7851416337094859220),
     (3, 1, 8266390751546100, 783308178698887621, 66440706449905619, 6295800709760673784)]"

lemma high_certificates3_ok: "chain step64 (535) high_certificates3 = Some (758)"
  by code_simp

definition high_certificates4 :: "certificate list" where
  "high_certificates4 =
    [(3, 1, 10332988439432625, 783308178698887621, 64374108762019094, 4879978932068761503),
     (4, 1, 51664942197163125, 3133232714795550484, 124589905804547336, 7555784487484408317),
     (3, 1, 36091203971594708, 3502015446175999111, 41777487156247377, 4053769041308409206),
     (3, 1, 45114004964493385, 3502015446175999111, 50800288149146054, 3943418322281927187),
     (4, 1, 9856930444960179, 612122514014014207, 136857650817825314, 8498959158577868581),
     (3, 1, 19571438963468209, 1944640837321179399, 68143981556008359, 6770864911814962738),
     (3, 1, 17214022797067276, 1368324189886658611, 63429149223206493, 5041914969511400374),
     (3, 1, 21517528496334095, 1368324189886658611, 59125643523939674, 3759867137631788577),
     (4, 1, 127700875645759830, 6496515517405105799, 131723522278577701, 6701159268976800070),
     (3, 1, 55805144557244173, 4542352408894662972, 18979594430333382, 1544875605367054285),
     (3, 1, 68339382279360250, 4450078001688163089, 9489797215166691, 617950242146821714),
     (4, 1, 50299135822923481, 2620276278348733417, 97748121898756936, 5092077246936020273),
     (3, 1, 25862105348234247, 2155611146583565358, 61092576186723085, 5092077246936020273),
     (3, 1, 55847645660963408, 3723929073096639733, 17615235419244419, 1174586440140981966),
     (4, 1, 45539058249726123, 2429240781351441466, 112346675922700232, 5993034052309126131),
     (3, 1, 3409054778713536, 290964818776830667, 70216672451687645, 5993034052309126131),
     (3, 1, 4261318473391920, 290964818776830667, 68512145062330877, 4678041314336568638),
     (4, 1, 72773463535722797, 3975204906490719444, 140220278979705694, 7659444994204608221),
     (3, 1, 41047548848133811, 3587514671480138489, 34389238733458936, 3005585033926477155),
     (3, 1, 67680789306833311, 4732186577355827060, 8597309683364734, 601117006785295431),
     (4, 1, 130560128591269913, 7302927692009989703, 21493274208411835, 1202234013570590862),
     (3, 1, 38013350699920437, 3402064682232232226, 34726510171069369, 3107903713166247335),
     (3, 1, 38835060832133204, 2780483939598982759, 34726510171069369, 2486322970532997868),
     (4, 1, 102687866627302476, 5881735891864974157, 54144040587135971, 3101251952265991398),
     (3, 1, 71415685423507391, 6544854249970755166, 14236036965155176, 1304654383439798287),
     (3, 1, 64297666940929803, 4714021646600684818, 17795046206443970, 1304654383439798287),
     (4, 1, 63290164331741849, 3712124795455991529, 107777779847851774, 6321433562335588103),
     (3, 1, 4700637203907981, 441126411430557982, 71263622557056974, 6687660570358643449),
     (3, 1, 38968773056850158, 2925587195221737425, 54434360094160411, 4086668744721242922),
     (4, 1, 19484386528425079, 1170234878088694970, 126343706971188488, 7588220050398138359),
     (3, 1, 19484386528425079, 1872375804941911952, 59480430328567726, 5715844245456226407),
     (3, 1, 14356472210495687, 1103682116839049061, 68708988221134021, 5282138986089549686),
     (4, 1, 76655567534217968, 4714438355228398497, 103831825539537135, 6385821102928598747),
     (3, 1, 47909729708886230, 4714438355228398497, 27176258005319167, 2674212396320320400),
     (3, 1, 46299033133448204, 3644753396700270337, 27176258005319167, 2139369917056256320),
     (3, 1, 57873791416810255, 3644753396700270337, 27176258005319167, 1711495933645005056),
     (4, 1, 142923840838939677, 7200802181636436584, 34850641358191939, 1755848239527057101),
     (3, 1, 22221810274641452, 1791330084232698737, 63144155417752435, 5090135495052963123),
     (3, 1, 27777262843301815, 1791330084232698737, 57588702849092072, 3713842379195830751),
     (4, 1, 97728964242178463, 5041960677997643119, 56571614267847851, 2918601019064491290),
     (3, 1, 54009150867880558, 4458240474184744861, 56571614267847851, 4669761630503186064),
     (3, 1, 12221056016986493, 807039632309572491, 61696541067782437, 4074243154512054776),
     (4, 1, 98211893873029423, 5188480642559779335, 110580765135728409, 5841921347000275792),
     (3, 1, 65928375865585201, 5572736066631238745, 32283518007444222, 2728832961464408191),
     (3, 1, 65928375865585201, 4458188853304990996, 7390209576512677, 499738534811912693),
     (4, 1, 139246961307683079, 7532892993137515748, 22024751148780808, 1191480891548145815),
     (3, 1, 71282492691759968, 6169911468814305983, 2753093893597601, 238296178309629163),
     (3, 1, 61870125470501608, 4284173376126114483, 13765469467988005, 953184713238516652),
     (4, 1, 142760880378792241, 7908338419811361941, 70529409239577422, 3907025757588476183),
     (3, 1, 46208458149282635, 4095599566857295333, 44506396249645238, 3944740519442240013),
     (3, 1, 56484026261875246, 4005084138408262141, 54781964362237849, 3884396900476217885),
     (4, 1, 97996015008462982, 5558842898598749295, 54781964362237849, 3107517520380974308),
     (3, 1, 48998007504231491, 4447074318878999436, 31728949824623693, 2879729301602699039),
     (3, 1, 63354383531233291, 4600050758648940489, 20181739332213796, 1465360724096339695),
     (4, 1, 140181698499295740, 8142677965921384091, 5045434833053449, 293072144819267939),
     (3, 1, 65454343226419733, 6083232194437149491, 25227174165267245, 2344577158554143512),
     (3, 1, 55397550961131611, 4118854748373118397, 60511140595822612, 4499054460863230815),
     (4, 1, 140837688465057178, 8377120963938658121, 15127785148955653, 899810892172646163),
     (3, 1, 13822764770893234, 1315499835918673159, 61816160973885031, 5882987301462496145),
     (3, 1, 48186536450559058, 3668694756503671617, 61816160973885031, 4706389841169996916),
     (4, 1, 139327787500700396, 8486206498174607677, 18861446374302751, 1148816985167264443),
     (3, 1, 7985250250436174, 778187711501109981, 70351481120205233, 6855972746834785601),
     (3, 1, 19963125626090435, 1556375423002219962, 61127803874020182, 4765677148636800191),
     (4, 1, 25263513781550263, 1575685598928248023, 127555995903500192, 7955668698345352359),
     (1, 1, 9319014293612739, 929963218616126365, 14489397384398447, 1445926168032467804)]"

lemma high_certificates4_ok: "chain step64 (758) high_certificates4 = Some (972)"
  by code_simp

lemma accurate_range64: "list_all accurate64 [- 80..86]"
  by code_simp

text \<open>Every exponent of a \<open>double\<close>.\<close>

lemma chain64_covers: "chain step64 e cs = Some e' \<Longrightarrow> covers exact64 e e'"
proof (rule chain_covers)
  show "covers exact64 e e'" if "step64 e c = Some e'" for e c e' using that step64_exact by (cases c) blast
qed

lemma all_exact64:
  assumes "- 1074 \<le> e" "e \<le> 971"
  shows "exact64 e"
proof -
  have mid: "covers exact64 (- 80) 87" unfolding covers_def
  proof (intro allI impI)
    fix x
    assume "- 80 \<le> x \<and> x < (87 :: int)"
    then have "x \<in> set [- 80..86]" unfolding set_upto atLeastAtMost_iff by linarith
    then show "exact64 x" by (intro accurate64_exact) (rule bspec[OF accurate_range64[unfolded list_all_iff]])
  qed
  note c = chain64_covers[OF low_certificates1_ok] chain64_covers[OF low_certificates2_ok] chain64_covers[OF low_certificates3_ok] chain64_covers[OF low_certificates4_ok]
    chain64_covers[OF high_certificates1_ok] chain64_covers[OF high_certificates2_ok] chain64_covers[OF high_certificates3_ok] chain64_covers[OF high_certificates4_ok]
  note low = covers_join[OF covers_join[OF c(1,2)] covers_join[OF c(3,4)]]
  note high = covers_join[OF covers_join[OF c(5,6)] covers_join[OF c(7,8)]]
  have "covers exact64 (- 1074) 972" by (rule covers_join[OF covers_join[OF low mid] high])
  then show ?thesis unfolding covers_def using assms by simp
qed

end
