(* ===== verification/Fmt_Dragonbox_Double.thy ===== *)
theory Fmt_Dragonbox_Double
  imports Fmt_Dragonbox_Regular Fmt_Dragonbox_Table
begin

text \<open>
  Dragonbox for \<open>double\<close>: the products of every number are exact, so the algorithm gives the shortest decimal number
  that is read back as the number, the nearest one of these.
\<close>

section \<open>The contract of the products\<close>

text \<open>The significands of an exponent: a normal number has its highest bit set.\<close>

definition double_number :: "nat \<Rightarrow> int \<Rightarrow> bool" where
  "double_number f e \<longleftrightarrow> 0 < f \<and> f < 2 ^ 53 \<and> - 1074 \<le> e \<and> e \<le> 971 \<and> (e = - 1074 \<or> 2 ^ 52 \<le> f)"

lemma scale_double: "scale float64_info e = scale64 e" "beta float64_info e = beta64 e" "kappa float64_info = 2"
  by (simp_all add: scale_def scale64_def beta_def beta64_def float64_info_def)

lemma double_products:
  assumes "double_number f e"
  obtains c where "get_cached_power64 (scale64 e) = Some c" "1 \<le> beta64 e" "beta64 e \<le> 9"
    "products_exact (2 ^ 128) (2 ^ 64) (2 * int f - 1) (2 ^ 54) 100 (int (u_val c) * 2 ^ nat (beta64 e)) (delta float64_info e / 2)"
proof -
  have ex: "exact64 e" using assms by (intro all_exact64) (simp_all add: double_number_def)
  then have rg: "range64 e" by (simp add: exact64_def)
  obtain c where c: "get_cached_power64 (scale64 e) = Some c" "int (u_val c) = cache64 (scale64 e)"
    using get_cached_power64_val[of "scale64 e"] rg by (auto simp: range64_def)
  have h: "delta float64_info e / 2 = 2 powi (e - 1) * 10 powi scale64 e"
    by (simp add: delta_def scale_double power_int_diff)
  have "least64 e \<le> 2 * int f - 1" using assms by (auto simp: least64_def double_number_def)
  moreover have "products_exact (2 ^ 128) (2 ^ 64) (least64 e) (2 ^ 54) 100 (cache64 (scale64 e) * 2 ^ nat (beta64 e))
      (2 powi (e - 1) * 10 powi scale64 e)" using ex unfolding exact64_def by (rule conjunct2)
  ultimately have "products_exact (2 ^ 128) (2 ^ 64) (2 * int f - 1) (2 ^ 54) 100 (int (u_val c) * 2 ^ nat (beta64 e)) (delta float64_info e / 2)"
    unfolding c(2) h by (rule products_exact_mono[rotated])
  then show ?thesis using that c(1) rg by (simp add: range64_def)
qed

text \<open>A product with an odd or even multiple of the significand, as the words give it.\<close>

lemma double_product:
  assumes "double_number f e" "get_cached_power float64_info (scale float64_info e) = Some c"
    and "2 * f - 1 \<le> m" "m < 2 ^ 54"
  shows "m * 2 ^ nat (beta64 e) * u_val c div 2 ^ 128 = nat \<lfloor>real m / 2 * delta float64_info e\<rfloor>"
    "odd (m * 2 ^ nat (beta64 e) * u_val c div 2 ^ 128) \<longleftrightarrow> odd \<lfloor>real m / 2 * delta float64_info e\<rfloor>"
    "m * 2 ^ nat (beta64 e) * u_val c mod 2 ^ 128 < 2 ^ 64 \<longleftrightarrow> real m / 2 * delta float64_info e \<in> \<int>"
proof -
  let ?w = "m * 2 ^ nat (beta64 e) * u_val c" and ?pw = "int (u_val c) * 2 ^ nat (beta64 e)" and ?h = "delta float64_info e / 2"
  obtain c' where c': "get_cached_power64 (scale64 e) = Some c'"
    "products_exact (2 ^ 128) (2 ^ 64) (2 * int f - 1) (2 ^ 54) 100 (int (u_val c') * 2 ^ nat (beta64 e)) ?h"
    using double_products[OF assms(1)] by metis
  have "c' = c" using assms(2) c'(1) by (simp add: scale_double) (simp add: float64_info_def)
  then have ex: "exact_product (2 ^ 128) (2 ^ 64) ?pw ?h (int m)"
    using c'(2) assms(1,3,4) unfolding products_exact_def double_number_def by (auto simp: of_nat_diff)
  have w: "int m * ?pw = int ?w" by simp
  have r: "real_of_int (int m) * ?h = real m / 2 * delta float64_info e" by simp
  have fl: "\<lfloor>real m / 2 * delta float64_info e\<rfloor> = int (?w div 2 ^ 128)"
    using ex unfolding exact_product_def w r by (simp add: zdiv_int)
  then show "?w div 2 ^ 128 = nat \<lfloor>real m / 2 * delta float64_info e\<rfloor>" by simp
  show "odd (?w div 2 ^ 128) \<longleftrightarrow> odd \<lfloor>real m / 2 * delta float64_info e\<rfloor>" unfolding fl by (simp only: even_of_nat)
  have "int (?w mod 2 ^ 128) < int (2 ^ 64) \<longleftrightarrow> real m / 2 * delta float64_info e \<in> \<int>"
    using ex unfolding exact_product_def w r by (simp add: zmod_int)
  then show "?w mod 2 ^ 128 < 2 ^ 64 \<longleftrightarrow> real m / 2 * delta float64_info e \<in> \<int>" by (simp only: of_nat_less_iff)
qed

lemma double_delta:
  assumes "double_number f e" "get_cached_power float64_info (scale float64_info e) = Some c"
  shows "unat (compute_delta float64_info c (beta float64_info e)) = nat \<lfloor>delta float64_info e\<rfloor>"
    "100 \<le> delta float64_info e" "delta float64_info e < 1000"
proof -
  obtain c' where c': "get_cached_power64 (scale64 e) = Some c'" and b: "1 \<le> beta64 e" "beta64 e \<le> 9"
    and ex: "products_exact (2 ^ 128) (2 ^ 64) (2 * int f - 1) (2 ^ 54) 100 (int (u_val c') * 2 ^ nat (beta64 e)) (delta float64_info e / 2)"
    using double_products[OF assms(1)] by metis
  have c: "c' = c" using assms(2) c' by (simp add: scale_double) (simp add: float64_info_def)
  show range: "100 \<le> delta float64_info e" "delta float64_info e < 1000" using ex by (simp_all add: products_exact_def)
  have "2 * (int (u_val c') * 2 ^ nat (beta64 e)) div 2 ^ 128 = \<lfloor>delta float64_info e\<rfloor>" using ex by (simp add: products_exact_def)
  moreover have "2 * (int (u_val c') * 2 ^ nat (beta64 e)) div 2 ^ 128 = int (2 * 2 ^ nat (beta64 e) * u_val c div 2 ^ 128)"
    unfolding c by (simp add: zdiv_int mult.commute mult.left_commute)
  ultimately have d: "2 * 2 ^ nat (beta64 e) * u_val c div 2 ^ 128 = nat \<lfloor>delta float64_info e\<rfloor>" by simp
  have "unat (compute_delta float64_info c (beta64 e)) = 2 * 2 ^ nat (beta64 e) * u_val c div 2 ^ 128 mod 2 ^ 32"
    using compute_delta64_val[of "beta64 e" c] b by (simp add: float64_info_def)
  moreover have "nat \<lfloor>delta float64_info e\<rfloor> < 2 ^ 32" using range by (simp add: floor_less_iff nat_less_iff)
  ultimately show "unat (compute_delta float64_info c (beta float64_info e)) = nat \<lfloor>delta float64_info e\<rfloor>"
    unfolding d scale_double by simp
qed

interpretation double: exact_products float64_info double_number
proof
  show "32 \<le> LENGTH(64)" by simp
  show "kappa float64_info = 1 \<or> kappa float64_info = 2" by (simp add: float64_info_def)
  show "small_divisor float64_info = 10 ^ kappa float64_info" "big_divisor float64_info = 10 ^ (kappa float64_info + 1)"
    by (simp_all add: float64_info_def)
  show "unat (divide_by_10_to_kappa_plus_1 float64_info n) = unat n div 10 ^ (kappa float64_info + 1)"
    if "unat n < 2 ^ (LENGTH(64) - 1)" for n
    using divide_by_1000_val[of n] that by (simp add: float64_info_def)
  show "\<exists>n' t. remove_trailing_zeros float64_info n = Some (n', int t) \<and> unat n = unat n' * 10 ^ t \<and> \<not> 10 dvd unat n'"
    if "n \<noteq> 0" "unat n * 10 ^ (kappa float64_info + 1) < 2 ^ (LENGTH(64) - 1)" for n
    using remove_trailing_zeros64_val[of n] that by (simp add: float64_info_def)
next
  fix f :: nat and e :: int
  assume ok: "double_number f e"
  obtain c where c: "get_cached_power64 (scale64 e) = Some c" and b: "1 \<le> beta64 e" "beta64 e \<le> 9"
    using double_products[OF ok] by metis
  have c': "get_cached_power float64_info (scale float64_info e) = Some c" using c by (simp add: scale_double) (simp add: float64_info_def)
  show "get_cached_power float64_info (scale float64_info e) \<noteq> None" using c' by simp
  show "10 ^ kappa float64_info \<le> delta float64_info e \<and> delta float64_info e < 10 ^ (kappa float64_info + 1)"
    using double_delta(2,3)[OF ok c'] by (simp add: scale_double)
  have "(2 :: nat) ^ nat (beta64 e) \<le> 2 ^ 9" using b by (intro power_increasing) simp_all
  then have "(2 * f + 1) * 2 ^ nat (beta64 e) \<le> (2 ^ 54 - 1) * 2 ^ 9"
    using ok by (intro mult_le_mono) (simp_all add: double_number_def)
  then show "0 < f \<and> (2 * f + 1) * 10 ^ (kappa float64_info + 1) < 2 ^ LENGTH(64) \<and>
      (2 * f + 1) * 2 ^ nat (beta float64_info e) < 2 ^ LENGTH(64)"
    using ok by (simp add: double_number_def scale_double)
next
  fix f :: nat and e :: int and c
  assume ok: "double_number f e" and c: "get_cached_power float64_info (scale float64_info e) = Some c"
  show "unat (compute_delta float64_info c (beta float64_info e)) = nat \<lfloor>delta float64_info e\<rfloor>" by (rule double_delta(1)[OF ok c])
  obtain b: "1 \<le> beta64 e" "beta64 e \<le> 9" using double_products[OF ok] by metis
  have f: "0 < f" "f < 2 ^ 53" using ok by (simp_all add: double_number_def)
  have half: "real (2 * f + 1) / 2 = real f + 1 / 2" "real (2 * f - 1) / 2 = real f - 1 / 2" "real (2 * f) / 2 = real f"
    using f(1) by (simp_all add: of_nat_diff field_simps)
  note up = double_product[OF ok c, of "2 * f + 1", unfolded half] and low = double_product[OF ok c, of "2 * f - 1", unfolded half]
    and mid = double_product[OF ok c, of "2 * f", unfolded half]
  have "(2 :: nat) ^ nat (beta64 e) \<le> 2 ^ 9" using b by (intro power_increasing) simp_all
  then have "(2 * f + 1) * 2 ^ nat (beta64 e) \<le> (2 ^ 54 - 1) * 2 ^ 9" using f by (intro mult_le_mono) simp_all
  then have u: "unat (of_nat ((2 * f + 1) * 2 ^ nat (beta64 e)) :: u64) = (2 * f + 1) * 2 ^ nat (beta64 e)"
    by (subst unat_of_nat, intro mod_less) simp
  have m: "unat (of_nat m :: u64) = m" if "m < 2 ^ 54" for m using that by (subst unat_of_nat, intro mod_less) simp
  have "compute_mul float64_info (of_nat ((2 * f + 1) * 2 ^ nat (beta64 e))) c =
      (of_nat (nat \<lfloor>(real f + 1 / 2) * delta float64_info e\<rfloor>), (real f + 1 / 2) * delta float64_info e \<in> \<int>)"
    using compute_mul64_val[of "of_nat ((2 * f + 1) * 2 ^ nat (beta64 e))" c] up(1,3) f(2) unfolding u by (simp add: float64_info_def)
  then show "compute_mul float64_info (of_nat ((2 * f + 1) * 2 ^ nat (beta float64_info e))) c =
      (of_nat (nat \<lfloor>(real f + 1 / 2) * delta float64_info e\<rfloor>), (real f + 1 / 2) * delta float64_info e \<in> \<int>)"
    unfolding scale_double .
  have parity: "compute_mul_parity float64_info (of_nat m) c (beta float64_info e) =
      Some (odd (m * 2 ^ nat (beta64 e) * u_val c div 2 ^ 128), m * 2 ^ nat (beta64 e) * u_val c mod 2 ^ 128 < 2 ^ 64)"
    if "m < 2 ^ 54" for m
    using compute_mul_parity64_val[of "beta64 e" "of_nat m" c] b unfolding m[OF that] scale_double by (simp add: float64_info_def)
  show "compute_mul_parity float64_info (of_nat (2 * f - 1)) c (beta float64_info e) =
      Some (odd \<lfloor>(real f - 1 / 2) * delta float64_info e\<rfloor>, (real f - 1 / 2) * delta float64_info e \<in> \<int>)"
    using parity[of "2 * f - 1"] low(2,3) f(2) by simp
  show "compute_mul_parity float64_info (of_nat (2 * f)) c (beta float64_info e) =
      Some (odd \<lfloor>real f * delta float64_info e\<rfloor>, real f * delta float64_info e \<in> \<int>)"
    using parity[of "2 * f"] mid(2,3) f(2) by simp
qed

section \<open>The numbers of the format\<close>

text \<open>The fields of a bit pattern and the number they stand for, its sign aside: \<open>significand * 2 powi exponent\<close>.\<close>

definition fraction64 :: "u64 \<Rightarrow> nat" where
  "fraction64 br = unat br mod 2 ^ 52"

definition biased64 :: "u64 \<Rightarrow> nat" where
  "biased64 br = unat br div 2 ^ 52 mod 2 ^ 11"

definition significand64 :: "u64 \<Rightarrow> nat" where
  "significand64 br = (if biased64 br = 0 then fraction64 br else 2 ^ 52 + fraction64 br)"

definition exponent64 :: "u64 \<Rightarrow> int" where
  "exponent64 br = (if biased64 br = 0 then - 1074 else int (biased64 br) - 1075)"

lemma mask_fields:
  "(br :: u64) AND (push_bit 52 1 - 1) = of_nat (fraction64 br)"
  "unat (drop_bit 52 ((br :: u64) AND push_bit 52 (push_bit 11 1 - 1))) = biased64 br"
proof -
  have m: "(push_bit n 1 - 1 :: u64) = mask n" for n by (simp add: mask_eq_exp_minus_1 push_bit_eq_mult)
  have "br AND mask 52 = take_bit 52 br" by (simp only: take_bit_eq_mask)
  also have "\<dots> = of_nat (unat (take_bit 52 br))" by simp
  also have "unat (take_bit 52 br) = fraction64 br" by (simp only: unsigned_take_bit_eq take_bit_eq_mod[of 52 "unat br"] fraction64_def)
  finally show "br AND (push_bit 52 1 - 1) = of_nat (fraction64 br)" unfolding m .
  have "drop_bit 52 (br AND push_bit 52 (mask 11)) = take_bit 11 (drop_bit 52 br)"
    by (rule bit_word_eqI) (auto simp: bit_simps)
  then show "unat (drop_bit 52 (br AND push_bit 52 (push_bit 11 1 - 1))) = biased64 br"
    unfolding m by (simp only: unsigned_take_bit_eq unat_drop_bit biased64_def take_bit_eq_mod[of 11 "_ :: nat"])
qed

lemma or_bit_add: "\<not> bit x k \<Longrightarrow> x OR push_bit k 1 = x + push_bit k 1" for x :: "'a::len word"
  by (intro disjunctive_add [symmetric]) (auto simp: bit_simps)

lemma hidden_bit: "(of_nat f :: u64) OR push_bit 52 1 = of_nat (2 ^ 52 + f)" if "f < 2 ^ 52"
proof -
  have t: "take_bit 52 (of_nat f :: u64) = of_nat f"
    using that by (simp add: take_bit_of_nat take_bit_nat_eq_self)
  have "\<not> bit (of_nat f :: u64) 52" by (subst t[symmetric]) (simp add: bit_simps)
  then have "(of_nat f :: u64) OR push_bit 52 1 = of_nat f + push_bit 52 1"
    by (rule or_bit_add)
  then show ?thesis by (simp add: push_bit_eq_mult)
qed

lemma to_decimal64_regular:
  assumes "fraction64 br \<noteq> 0"
  shows "to_decimal float64_info br = regular_case float64_info (of_nat (significand64 br)) (exponent64 br)"
proof -
  have fr: "fraction64 br < 2 ^ 52" by (simp add: fraction64_def)
  then have nz: "(of_nat (fraction64 br) :: u64) \<noteq> 0" using assms by (simp add: word_unat_eq_iff unat_of_nat)
  have i: "significand_bits float64_info = 52" "exponent_bits float64_info = 11" "exponent_bias float64_info = 1023"
    "min_exponent float64_info = - 1021" by (simp_all add: float64_info_def)
  show ?thesis
    unfolding to_decimal_def Let_def i mask_fields hidden_bit[OF fr] using nz
    by (simp add: significand64_def exponent64_def)
qed

text \<open>C6: For every finite \<open>double\<close> that is not zero or a power of two, normal or subnormal, Dragonbox returns, without a failed
  assertion, the decimal number with the largest exponent of those that are read back as the number, and the nearest to it
  of those with this exponent.\<close>

theorem to_decimal_shortest:
  assumes "fraction64 br \<noteq> 0" "biased64 br \<noteq> 2047"
  shows "\<exists>n E. to_decimal float64_info br = Some (n, E) \<and>
    shortest_nearest (significand64 br) (exponent64 br) (unat n) E"
proof -
  have "biased64 br < 2 ^ 11" "fraction64 br < 2 ^ 52" by (simp_all add: biased64_def fraction64_def)
  then have "double_number (significand64 br) (exponent64 br)"
    using assms by (auto simp: double_number_def significand64_def exponent64_def)
  from double.regular_case_shortest[OF this] show ?thesis unfolding to_decimal64_regular[OF assms(1)] .
qed

theorem to_decimal_shortest_witness:
  "to_decimal float64_info 0x3FB999999999999A = Some (1, - 1) \<and> shortest_nearest 0x1999999999999A (- 56) 1 (- 1)"
proof -
  have d: "to_decimal float64_info 0x3FB999999999999A = Some (1, - 1)" by code_simp
  have f: "fraction64 0x3FB999999999999A = 0x999999999999A" "biased64 0x3FB999999999999A = 1019"
    by (simp_all add: fraction64_def biased64_def)
  have "significand64 0x3FB999999999999A = 0x1999999999999A" "exponent64 0x3FB999999999999A = - 56"
    by (simp_all add: significand64_def exponent64_def f)
  then show ?thesis using to_decimal_shortest[of "0x3FB999999999999A"] d by (simp add: f)
qed

end
