(* ===== verification/Fmt_Output.thy ===== *)
theory Fmt_Output
  imports Fmt_Template Fmt_Buffer
begin

text \<open>
  Where formatted text goes: the calls writers make on a buffer, the buffers over iterators, arrays
  and containers, the counting buffer, and the formatting functions that use them
  (\<open>fmt/base.h\<close>, \<open>fmt/format.h\<close>).
\<close>

section \<open>The calls a writer makes\<close>

text \<open>\<open>to_pointer\<close> on a buffer: the offset of \<open>n\<close> bytes to write to, when the buffer has room for them.\<close>

definition to_pointer ::
    "('a buffer_scheme \<Rightarrow> nat \<Rightarrow> 'a buffer_scheme) \<Rightarrow> nat \<Rightarrow> 'a buffer_scheme \<Rightarrow> 'a buffer_scheme \<times> nat option" where
  "to_pointer grow n b =
     (let b = try_reserve grow (b_size b + n) b; size = b_size b
      in if b_cap b < size + n then (b, None) else (try_resize grow (size + n) b, Some size))"

text \<open>\<open>reserve\<close> makes room and leaves the size alone.\<close>

definition reserve_buf ::
    "('a buffer_scheme \<Rightarrow> nat \<Rightarrow> 'a buffer_scheme) \<Rightarrow> nat \<Rightarrow> 'a buffer_scheme \<Rightarrow> 'a buffer_scheme" where
  "reserve_buf grow n b = try_reserve grow (b_size b + n) b"

text \<open>\<open>fill_n\<close> and the plain \<open>copy\<close> through an appender.\<close>

definition push_all ::
    "('a buffer_scheme \<Rightarrow> nat \<Rightarrow> 'a buffer_scheme) \<Rightarrow> string \<Rightarrow> 'a buffer_scheme \<Rightarrow> 'a buffer_scheme" where
  "push_all grow s b = fold (buf_push_back grow) s b"

text \<open>
  A writer hands over its text by \<open>append\<close>, by \<open>push_back\<close>, through \<open>to_pointer\<close> (and by \<open>append\<close> when it
  gets no pointer), or in single characters after \<open>reserve\<close>.
\<close>

datatype buf_op =
    Op_append string
  | Op_push char
  | Op_pointer string
  | Op_reserved string

fun run_buf_op ::
    "('a buffer_scheme \<Rightarrow> nat \<Rightarrow> 'a buffer_scheme) \<Rightarrow> buf_op \<Rightarrow> 'a buffer_scheme \<Rightarrow> 'a buffer_scheme option" where
  "run_buf_op grow (Op_append s) b = buf_append grow s b"
| "run_buf_op grow (Op_push c) b = Some (buf_push_back grow c b)"
| "run_buf_op grow (Op_pointer s) b =
     (case to_pointer grow (length s) b of
        (b, Some off) \<Rightarrow> Some (b\<lparr>b_data := patch off s (b_data b)\<rparr>)
      | (b, None) \<Rightarrow> buf_append grow s b)"
| "run_buf_op grow (Op_reserved s) b = Some (push_all grow s (reserve_buf grow (length s) b))"

fun op_text :: "buf_op \<Rightarrow> string" where
  "op_text (Op_append s) = s"
| "op_text (Op_push c) = [c]"
| "op_text (Op_pointer s) = s"
| "op_text (Op_reserved s) = s"

fun run_buf_ops ::
    "('a buffer_scheme \<Rightarrow> nat \<Rightarrow> 'a buffer_scheme) \<Rightarrow> buf_op list \<Rightarrow> 'a buffer_scheme \<Rightarrow> 'a buffer_scheme option" where
  "run_buf_ops grow [] b = Some b"
| "run_buf_ops grow (c # cs) b = (case run_buf_op grow c b of None \<Rightarrow> None | Some b \<Rightarrow> run_buf_ops grow cs b)"

context growing
begin

lemma try_reserve_spec:
  assumes "inv b"
  shows "inv (try_reserve grow n b) \<and> out (try_reserve grow n b) = out b"
  using assms by (simp add: try_reserve_def grow_inv grow_out)

lemma push_all_correct: "inv b \<Longrightarrow> inv (push_all grow s b) \<and> out (push_all grow s b) = snoc (out b) s"
proof (induction s arbitrary: b)
  case Nil
  then show ?case by (simp add: push_all_def snoc_Nil)
next
  case (Cons c s)
  from Cons.IH[of "buf_push_back grow c b"] push_back_correct[OF Cons.prems, of c] show ?case
    by (simp add: push_all_def snoc_append)
qed

lemma to_pointer_correct:
  assumes "inv b" "to_pointer grow (length s) b = (b', Some off)"
  shows "inv (b'\<lparr>b_data := patch off s (b_data b')\<rparr>) \<and> out (b'\<lparr>b_data := patch off s (b_data b')\<rparr>) = snoc (out b) s"
proof -
  let ?b = "try_reserve grow (b_size b + length s) b"
  have room: "b_size ?b + length s \<le> b_cap ?b" and b': "off = b_size ?b"
    "b' = try_resize grow (b_size ?b + length s) ?b"
    using assms(2) by (auto simp: to_pointer_def Let_def split: if_splits)
  then have "b'\<lparr>b_data := patch off s (b_data b')\<rparr> = buf_put s ?b"
    by (simp add: try_resize_def try_reserve_def buf_put_def Let_def)
  then show ?thesis using put_inv[OF _ room] put_out[OF _ room] try_reserve_spec[OF assms(1)] by simp
qed

lemma to_pointer_none:
  assumes "inv b" "to_pointer grow n b = (b', None)"
  shows "inv b' \<and> out b' = out b"
  using assms try_reserve_spec[OF assms(1), of "b_size b + n"] by (simp add: to_pointer_def Let_def split: if_splits)

lemma run_buf_op_correct:
  assumes "inv b"
  shows "\<exists>b'. run_buf_op grow c b = Some b' \<and> inv b' \<and> out b' = snoc (out b) (op_text c)"
proof (cases c)
  case (Op_pointer s)
  obtain b' r where p: "to_pointer grow (length s) b = (b', r)" by force
  show ?thesis
  proof (cases r)
    case None
    with p to_pointer_none[OF assms] have "inv b'" "out b' = out b" by auto
    with append_total[of b' s] p None Op_pointer show ?thesis by simp
  next
    case (Some off)
    with p to_pointer_correct[OF assms, of s b' off] Op_pointer show ?thesis by simp
  qed
next
  case (Op_reserved s)
  have "inv (reserve_buf grow (length s) b)" "out (reserve_buf grow (length s) b) = out b"
    using try_reserve_spec[OF assms] by (simp_all add: reserve_buf_def)
  then show ?thesis using push_all_correct[of "reserve_buf grow (length s) b" s] Op_reserved by simp
qed (use assms append_total push_back_correct in auto)

text \<open>Whatever calls hand over a text, the destination has got the text.\<close>

lemma run_buf_ops_correct:
  "inv b \<Longrightarrow> \<exists>b'. run_buf_ops grow cs b = Some b' \<and> inv b' \<and> out b' = snoc (out b) (concat (map op_text cs))"
proof (induction cs arbitrary: b)
  case Nil
  then show ?case by (simp add: snoc_Nil)
next
  case (Cons c cs)
  obtain b1 where b1: "run_buf_op grow c b = Some b1" "inv b1" "out b1 = snoc (out b) (op_text c)"
    using run_buf_op_correct[OF Cons.prems] by blast
  from Cons.IH[OF b1(2)] show ?case using b1 by (auto simp: snoc_append)
qed

end

section \<open>A buffer over an output iterator\<close>

text \<open>The traits a buffer inherits from: \<open>buffer_traits\<close>, or \<open>fixed_buffer_traits\<close> with its count and limit.\<close>

datatype traits =
    No_limit
  | Fixed nat nat

fun traits_count :: "traits \<Rightarrow> nat" where
  "traits_count No_limit = 0"
| "traits_count (Fixed count limit) = count"

definition fixed_limit :: "nat \<Rightarrow> nat \<Rightarrow> nat \<Rightarrow> nat" where
  "fixed_limit sz count limit = (let n = (if limit > count then limit - count else 0) in min sz n)"

fun traits_limit :: "nat \<Rightarrow> traits \<Rightarrow> nat \<times> traits" where
  "traits_limit sz No_limit = (sz, No_limit)"
| "traits_limit sz (Fixed count limit) = (fixed_limit sz count limit, Fixed (count + sz) limit)"

definition out_buffer_size :: nat where
  "out_buffer_size = 256"

text \<open>\<open>it_written\<close> is what has been stored through the iterator.\<close>

record iterbuf = buffer +
  it_traits :: traits
  it_written :: string

definition ib_flush :: "iterbuf \<Rightarrow> iterbuf" where
  "ib_flush b =
     (let size = b_size b; (n, tr) = traits_limit size (it_traits b)
      in (buf_clear b)\<lparr>it_traits := tr, it_written := it_written b @ take n (b_data b)\<rparr>)"

definition ib_grow :: "iterbuf \<Rightarrow> nat \<Rightarrow> iterbuf" where
  "ib_grow b n = (if b_size b = out_buffer_size then ib_flush b else b)"

definition ib_new :: "traits \<Rightarrow> iterbuf" where
  "ib_new tr = \<lparr>b_data = replicate out_buffer_size (CHR 0x00), b_size = 0, b_cap = out_buffer_size,
     it_traits = tr, it_written = []\<rparr>"

text \<open>The move constructor starts with an empty \<open>data_\<close>: what the other buffer had not flushed is dropped.\<close>

definition ib_move :: "iterbuf \<Rightarrow> iterbuf" where
  "ib_move other = (ib_new (it_traits other))\<lparr>it_written := it_written other\<rparr>"

definition ib_out :: "iterbuf \<Rightarrow> iterbuf" where
  "ib_out b = ib_flush b"

definition ib_count :: "iterbuf \<Rightarrow> nat" where
  "ib_count b = traits_count (it_traits b) + b_size b"

text \<open>What has reached the iterator or will at the next flush, and the number of characters given
  to a limited buffer.\<close>

definition cut :: "nat option \<Rightarrow> nat \<Rightarrow> string \<Rightarrow> string" where
  "cut lim n s = (case lim of None \<Rightarrow> s | Some l \<Rightarrow> take (l - n) s)"

definition limit_of :: "traits \<Rightarrow> nat option" where
  "limit_of tr = (case tr of No_limit \<Rightarrow> None | Fixed c l \<Rightarrow> Some l)"

definition ib_view :: "iterbuf \<Rightarrow> string \<times> nat" where
  "ib_view b = (it_written b @ cut (limit_of (it_traits b)) (traits_count (it_traits b)) (take (b_size b) (b_data b)),
     if it_traits b = No_limit then 0 else ib_count b)"

definition ib_snoc :: "nat option \<Rightarrow> string \<times> nat \<Rightarrow> string \<Rightarrow> string \<times> nat" where
  "ib_snoc lim p s = (fst p @ cut lim (length (fst p)) s, if lim = None then snd p else snd p + length s)"

definition ib_inv :: "nat option \<Rightarrow> iterbuf \<Rightarrow> bool" where
  "ib_inv lim b \<longleftrightarrow> length (b_data b) = b_cap b \<and> b_cap b = out_buffer_size \<and> b_size b \<le> b_cap b \<and>
     limit_of (it_traits b) = lim \<and>
     (case it_traits b of No_limit \<Rightarrow> True | Fixed c l \<Rightarrow> length (it_written b) = min c l)"

lemma cut_snoc:
  assumes "length w = min c l"
  shows "w @ take (l - c) (d @ s) = (w @ take (l - c) d) @ take (l - length (w @ take (l - c) d)) s"
proof -
  have "l - c - length d = l - (min c l + min (length d) (l - c))" by (simp add: min_def)
  with assms show ?thesis by simp
qed

lemma ib_flush_spec:
  assumes "ib_inv lim b"
  shows "ib_inv lim (ib_flush b)" "b_size (ib_flush b) = 0" "ib_view (ib_flush b) = ib_view b"
    "it_written (ib_flush b) = fst (ib_view b)" "ib_count (ib_flush b) = snd (ib_view b)"
proof -
  show "b_size (ib_flush b) = 0" by (simp add: ib_flush_def buf_clear_def split: prod.split)
  show w: "it_written (ib_flush b) = fst (ib_view b)"
    by (cases "it_traits b")
      (simp_all add: ib_flush_def ib_view_def limit_of_def fixed_limit_def cut_def Let_def min.commute)
  show c: "ib_count (ib_flush b) = snd (ib_view b)"
    by (cases "it_traits b") (simp_all add: ib_flush_def ib_view_def ib_count_def buf_clear_def Let_def)
  show "ib_view (ib_flush b) = ib_view b"
    using w c by (cases "it_traits b") (simp_all add: ib_flush_def ib_view_def cut_def buf_clear_def Let_def split: option.split)
  show "ib_inv lim (ib_flush b)"
  proof (cases "it_traits b")
    case (Fixed c l)
    then have "length (it_written (ib_flush b)) = min (c + b_size b) l"
      using assms unfolding w by (auto simp: ib_inv_def ib_view_def limit_of_def cut_def min_def)
    with Fixed assms show ?thesis by (simp add: ib_inv_def ib_flush_def buf_clear_def limit_of_def Let_def)
  qed (use assms in \<open>simp add: ib_inv_def ib_flush_def buf_clear_def limit_of_def Let_def\<close>)
qed

lemma ib_move_view:
  "ib_inv lim b \<Longrightarrow> ib_inv lim (ib_move b) \<and> ib_view (ib_move b) = ib_view (b\<lparr>b_size := 0\<rparr>)"
  by (cases "it_traits b") (simp_all add: ib_inv_def ib_move_def ib_new_def ib_view_def ib_count_def cut_def)

lemma ib_grow_spec:
  assumes "ib_inv lim b"
  shows "ib_inv lim (ib_grow b n)" "b_size (ib_grow b n) < b_cap (ib_grow b n)" "ib_view (ib_grow b n) = ib_view b"
  using assms ib_flush_spec[OF assms] by (auto simp: ib_grow_def) (auto simp: ib_inv_def out_buffer_size_def)

interpretation ib: growing ib_grow "ib_inv lim" ib_view "ib_snoc lim" for lim
proof unfold_locales
  fix b :: iterbuf and n
  assume b: "ib_inv lim b"
  then show "ib_inv lim (ib_grow b n)" "b_size (ib_grow b n) < b_cap (ib_grow b n)" "ib_view (ib_grow b n) = ib_view b"
    by (rule ib_grow_spec)+
next
  fix b :: iterbuf and s :: string
  assume b: "ib_inv lim b" "b_size b + length s \<le> b_cap b"
  then show "ib_inv lim (buf_put s b)"
    by (cases "it_traits b") (simp_all add: ib_inv_def buf_put_def)
  have v: "take (b_size b + length s) (patch (b_size b) s (b_data b)) = take (b_size b) (b_data b) @ s"
    using b by (simp add: ib_inv_def take_patch_end)
  show "ib_view (buf_put s b) = ib_snoc lim (ib_view b) s"
  proof (cases "it_traits b")
    case No_limit
    with b v show ?thesis by (simp add: ib_inv_def ib_view_def ib_snoc_def ib_count_def buf_put_def limit_of_def cut_def)
  next
    case (Fixed c l)
    let ?d = "take (b_size b) (b_data b)"
    have "length (it_written b) = min c l" and l: "lim = Some l" using b Fixed by (auto simp: ib_inv_def limit_of_def)
    from cut_snoc[OF this(1), of ?d s] show ?thesis using b(1) v Fixed l
      by (simp add: ib_inv_def ib_view_def ib_snoc_def ib_count_def buf_put_def limit_of_def cut_def del: take_append)
  qed
next
  fix p :: "string \<times> nat" and s t :: string
  show "ib_snoc lim (ib_snoc lim p s) t = ib_snoc lim p (s @ t)"
    by (cases lim) (auto simp: ib_snoc_def cut_def min_def)
qed (simp_all add: ib_inv_def ib_snoc_def cut_def split: option.split)

lemma ib_new_inv: "ib_inv (limit_of tr) (ib_new tr) \<and> ib_view (ib_new tr) = ([], traits_count tr)"
  if "tr = No_limit \<or> tr = Fixed 0 l"
  using that by (auto simp: ib_inv_def ib_new_def ib_view_def ib_count_def limit_of_def cut_def)

section \<open>A buffer over an array\<close>

text \<open>
  The specialization for a pointer with a limit.  \<open>p_array\<close> is the caller's array from \<open>out\<close> on,
  \<open>p_direct\<close> says that \<open>data() == out_\<close> (the buffer is the array), and \<open>p_pos\<close> is how far \<open>out_\<close> has
  moved.  After the first flush the buffer is \<open>data_\<close>, whose bytes are thrown away.
\<close>

record ptrbuf = buffer +
  p_array :: string
  p_direct :: bool
  p_pos :: nat
  p_count :: nat
  p_limit :: nat

definition pb_flush :: "ptrbuf \<Rightarrow> ptrbuf" where
  "pb_flush b =
     (let n = fixed_limit (b_size b) (p_count b) (p_limit b);
          b = b\<lparr>p_count := p_count b + b_size b\<rparr>;
          b = (if p_direct b
               then buf_set (replicate out_buffer_size (CHR 0x00)) out_buffer_size
                      (b\<lparr>p_array := b_data b, p_pos := p_pos b + n, p_direct := False\<rparr>)
               else b)
      in buf_clear b)"

definition pb_grow :: "ptrbuf \<Rightarrow> nat \<Rightarrow> ptrbuf" where
  "pb_grow b n = (if b_size b = b_cap b then pb_flush b else b)"

text \<open>The constructor, for an array of as many bytes as the limit says.\<close>

definition pb_new :: "string \<Rightarrow> ptrbuf" where
  "pb_new mem = \<lparr>b_data = mem, b_size = 0, b_cap = length mem, p_array = mem, p_direct = True, p_pos = 0,
     p_count = 0, p_limit = length mem\<rparr>"

text \<open>The move constructor keeps what is in the array; what \<open>data_\<close> holds is dropped.\<close>

definition pb_move :: "ptrbuf \<Rightarrow> ptrbuf" where
  "pb_move other =
     (if p_direct other then other
      else buf_clear (buf_set (replicate out_buffer_size (CHR 0x00)) out_buffer_size other))"

definition pb_out :: "ptrbuf \<Rightarrow> ptrbuf" where
  "pb_out b = pb_flush b"

definition pb_count :: "ptrbuf \<Rightarrow> nat" where
  "pb_count b = p_count b + b_size b"

text \<open>The position in the array, the array, and the total count.\<close>

definition pb_view :: "ptrbuf \<Rightarrow> nat \<times> string \<times> nat" where
  "pb_view b = (if p_direct b then (b_size b, b_data b, b_size b) else (p_pos b, p_array b, pb_count b))"

definition pb_snoc :: "nat \<times> string \<times> nat \<Rightarrow> string \<Rightarrow> nat \<times> string \<times> nat" where
  "pb_snoc = (\<lambda>(k, mem, c) s. let u = take (length mem - k) s in (k + length u, patch k u mem, c + length s))"

definition pb_inv :: "nat \<Rightarrow> ptrbuf \<Rightarrow> bool" where
  "pb_inv n b \<longleftrightarrow> length (b_data b) = b_cap b \<and> b_size b \<le> b_cap b \<and> p_limit b = n \<and> length (p_array b) = n \<and>
     (if p_direct b then b_cap b = n \<and> p_count b = 0 \<and> p_pos b = 0
      else b_cap b = out_buffer_size \<and> n \<le> p_count b \<and> p_pos b = n)"

lemma pb_grow_spec:
  assumes "pb_inv n b"
  shows "pb_inv n (pb_grow b k)" "b_size (pb_grow b k) < b_cap (pb_grow b k)" "pb_view (pb_grow b k) = pb_view b"
  using assms
  by (auto simp: pb_inv_def pb_grow_def pb_flush_def buf_clear_def buf_set_def pb_view_def pb_count_def fixed_limit_def
      out_buffer_size_def Let_def)

interpretation pb: growing pb_grow "pb_inv n" pb_view pb_snoc for n
proof unfold_locales
  fix b :: ptrbuf and k
  assume b: "pb_inv n b"
  then show "pb_inv n (pb_grow b k)" "b_size (pb_grow b k) < b_cap (pb_grow b k)" "pb_view (pb_grow b k) = pb_view b"
    by (rule pb_grow_spec)+
next
  fix b :: ptrbuf and s :: string
  assume b: "pb_inv n b" "b_size b + length s \<le> b_cap b"
  then show "pb_inv n (buf_put s b)" by (simp add: pb_inv_def buf_put_def split: if_splits)
  have "take (b_cap b - b_size b) s = s" using b(2) by simp
  with b show "pb_view (buf_put s b) = pb_snoc (pb_view b) s"
    by (simp add: pb_inv_def pb_view_def pb_snoc_def pb_count_def buf_put_def Let_def split: if_splits)
next
  fix p :: "nat \<times> string \<times> nat" and s t :: string
  obtain k mem c where p: "p = (k, mem, c)" by (cases p)
  show "pb_snoc (pb_snoc p s) t = pb_snoc p (s @ t)"
  proof (cases "k \<le> length mem")
    case True
    let ?u = "take (length mem - k) s"
    let ?v = "take (length mem - k - length s) t"
    have v: "take (length mem - k) (s @ t) = ?u @ ?v" by simp
    have "patch (k + length ?u) ?v (patch k ?u mem) = patch k (?u @ ?v) mem"
      by (rule patch_patch_adjacent) (use True in \<open>auto simp: min_def\<close>)
    moreover have "length (patch k ?u mem) = length mem" using True by simp
    moreover have "take (length mem - (k + length ?u)) t = ?v" by (auto simp: min_def)
    ultimately show ?thesis unfolding p pb_snoc_def by (simp only: prod.case Let_def v length_append add.assoc)
  qed (simp add: p pb_snoc_def Let_def)
qed (auto simp: pb_inv_def pb_snoc_def split: if_splits)

text \<open>After the text is in, \<open>out()\<close> gives the array, the position and the count.\<close>

lemma pb_out_spec:
  assumes "pb_inv n b"
  shows "pb_view b = (p_pos (pb_out b), p_array (pb_out b), pb_count (pb_out b))"
  using assms
  by (auto simp: pb_inv_def pb_out_def pb_flush_def buf_clear_def buf_set_def pb_view_def pb_count_def fixed_limit_def Let_def)

lemma pb_new_inv: "pb_inv (length mem) (pb_new mem) \<and> pb_view (pb_new mem) = (0, mem, 0)"
  by (simp add: pb_inv_def pb_new_def pb_view_def)

text \<open>A buffer that is moved after its array is full forgets the characters it has not counted yet.\<close>

lemma pb_move_view:
  assumes "pb_inv n b"
  shows "pb_inv n (pb_move b)" "pb_view (pb_move b) = (fst (pb_view b), fst (snd (pb_view b)),
    if p_direct b then snd (snd (pb_view b)) else p_count b)"
  using assms by (auto simp: pb_inv_def pb_move_def pb_view_def pb_count_def buf_clear_def buf_set_def)

section \<open>A buffer that counts\<close>

record countbuf = buffer +
  cb_count :: nat

definition cb_grow :: "countbuf \<Rightarrow> nat \<Rightarrow> countbuf" where
  "cb_grow b n =
     (if b_size b \<noteq> out_buffer_size then b else buf_clear (b\<lparr>cb_count := cb_count b + b_size b\<rparr>))"

definition cb_new :: countbuf where
  "cb_new = \<lparr>b_data = replicate out_buffer_size (CHR 0x00), b_size = 0, b_cap = out_buffer_size, cb_count = 0\<rparr>"

definition cb_total :: "countbuf \<Rightarrow> nat" where
  "cb_total b = cb_count b + b_size b"

definition cb_inv :: "countbuf \<Rightarrow> bool" where
  "cb_inv b \<longleftrightarrow> length (b_data b) = b_cap b \<and> b_size b \<le> b_cap b \<and> b_cap b = out_buffer_size"

interpretation cb: growing cb_grow cb_inv cb_total "\<lambda>c s. c + length s"
  by unfold_locales (auto simp: cb_inv_def cb_grow_def cb_total_def buf_clear_def buf_put_def out_buffer_size_def)

lemma cb_new_inv: "cb_inv cb_new \<and> cb_total cb_new = 0"
  by (simp add: cb_inv_def cb_new_def cb_total_def)

section \<open>A buffer over a container\<close>

text \<open>
  \<open>container_buffer\<close> writes to the container's own storage, here \<open>b_data\<close>; \<open>resize\<close> pads with zeros.
  The container holds the text exactly when nothing is left of what it was resized to.
\<close>

definition container_grow :: "buffer \<Rightarrow> nat \<Rightarrow> buffer" where
  "container_grow b capacity =
     buf_set (take capacity (b_data b) @ replicate (capacity - length (b_data b)) (CHR 0x00)) capacity b"

definition container_new :: "string \<Rightarrow> buffer" where
  "container_new c = \<lparr>b_data = c, b_size = length c, b_cap = length c\<rparr>"

definition plain_inv :: "buffer \<Rightarrow> bool" where
  "plain_inv b \<longleftrightarrow> length (b_data b) = b_cap b \<and> b_size b \<le> b_cap b"

definition plain_view :: "buffer \<Rightarrow> string" where
  "plain_view b = take (b_size b) (b_data b)"

interpretation ct: growing container_grow plain_inv plain_view "(@)"
proof unfold_locales
  fix b :: buffer and k
  assume b: "plain_inv b" "b_cap b < k"
  then show "plain_inv (container_grow b k)" "plain_view (container_grow b k) = plain_view b"
    "b_size (container_grow b k) < b_cap (container_grow b k)"
    by (simp_all add: plain_inv_def container_grow_def buf_set_def plain_view_def)
next
  fix b :: buffer and s :: string
  assume b: "plain_inv b" "b_size b + length s \<le> b_cap b"
  then show "plain_inv (buf_put s b)" by (simp add: plain_inv_def buf_put_def)
  show "plain_view (buf_put s b) = plain_view b @ s"
    using b buf_put_view[of b s] by (simp add: plain_inv_def plain_view_def)
qed (simp_all add: plain_inv_def)

text \<open>Every call asks for exactly the room it needs, so the container never keeps more.\<close>

lemma container_room:
  "b_size b = b_cap b \<Longrightarrow> n > 0 \<Longrightarrow> b_cap (container_grow b (b_size b + n)) = b_size b + n \<and>
     b_size (container_grow b (b_size b + n)) = b_size b"
  by (simp add: container_grow_def buf_set_def)

lemma push_all_room:
  "b_size b + length s \<le> b_cap b \<Longrightarrow> b_size (push_all grow s b) = b_size b + length s \<and> b_cap (push_all grow s b) = b_cap b"
proof (induction s arbitrary: b)
  case Nil
  then show ?case by (simp add: push_all_def)
next
  case (Cons c s)
  have "b_size (buf_push_back grow c b) = b_size b + 1" "b_cap (buf_push_back grow c b) = b_cap b"
    using Cons.prems by (simp_all add: buf_push_back_def try_reserve_def Let_def)
  with Cons.IH[of "buf_push_back grow c b"] Cons.prems show ?case by (simp add: push_all_def)
qed

lemma container_op_exact:
  assumes "run_buf_op container_grow c b = Some b'" "b_size b = b_cap b"
  shows "b_size b' = b_cap b'"
proof -
  have app: "b_size b1 = b_cap b1" if "buf_append container_grow s b = Some b1" for s b1
  proof (cases "s = []")
    case False
    then have n: "length s > 0" by simp
    with that assms(2) container_room[OF assms(2) n] False show ?thesis
      by (subst (asm) buf_append.simps) (auto simp: Let_def buf_put_def buf_append.simps[of _ "[]"])
  qed (use that assms(2) in \<open>simp add: buf_append.simps\<close>)
  show ?thesis
  proof (cases c)
    case (Op_append s)
    with app assms(1) show ?thesis by simp
  next
    case (Op_push d)
    with assms container_room[OF assms(2), of 1] show ?thesis
      by (auto simp: buf_push_back_def try_reserve_def Let_def)
  next
    case (Op_pointer s)
    show ?thesis
    proof (cases "s = []")
      case False
      with Op_pointer assms container_room[OF assms(2), of "length s"] show ?thesis
        by (auto simp: to_pointer_def try_reserve_def try_resize_def Let_def)
    qed (use Op_pointer assms in \<open>auto simp: to_pointer_def try_reserve_def try_resize_def Let_def\<close>)
  next
    case (Op_reserved s)
    let ?b = "reserve_buf container_grow (length s) b"
    have "b_size ?b = b_size b" "b_cap ?b = b_size b + length s"
      using container_room[OF assms(2), of "length s"] assms(2)
      by (cases "s = []"; simp add: reserve_buf_def try_reserve_def)+
    with push_all_room[of ?b s container_grow] assms(1) Op_reserved show ?thesis by auto
  qed
qed

lemma container_exact:
  "run_buf_ops container_grow cs b = Some b' \<Longrightarrow> b_size b = b_cap b \<Longrightarrow> b_size b' = b_cap b'"
proof (induction cs arbitrary: b)
  case (Cons c cs)
  then show ?case using container_op_exact[of c b] by (auto split: option.splits)
qed simp

section \<open>Formatting into a buffer\<close>

text \<open>
  \<open>detail::vformat_to\<close> on a buffer.  The calls in which the writers hand over the text are the
  parameter \<open>calls\<close>: any, as long as their pieces make up the text.
\<close>

definition splits :: "(string \<Rightarrow> buf_op list) \<Rightarrow> bool" where
  "splits calls \<longleftrightarrow> (\<forall>t. concat (map op_text (calls t)) = t)"

definition vformat_into ::
    "('a buffer_scheme \<Rightarrow> nat \<Rightarrow> 'a buffer_scheme) \<Rightarrow> (string \<Rightarrow> buf_op list) \<Rightarrow> env \<Rightarrow> string \<Rightarrow> format_args \<Rightarrow>
     'a buffer_scheme \<Rightarrow> (exn option \<times> 'a buffer_scheme) option" where
  "vformat_into grow calls env fmt args b =
     (case vformat_to env fmt args of
        None \<Rightarrow> None
      | Some (t, e) \<Rightarrow> map_option (Pair e) (run_buf_ops grow (calls t) b))"

text \<open>\<open>vformat_to_n\<close> with a pointer to \<open>n\<close> bytes: the bytes afterwards, and the position and the total
  size returned.  When formatting throws, the buffer's destructor still flushes.\<close>

definition vformat_to_n ::
    "(string \<Rightarrow> buf_op list) \<Rightarrow> env \<Rightarrow> string \<Rightarrow> string \<Rightarrow> format_args \<Rightarrow> (string \<times> (exn + nat \<times> nat)) option" where
  "vformat_to_n calls env mem fmt args =
     (case vformat_into pb_grow calls env fmt args (pb_new mem) of
        None \<Rightarrow> None
      | Some (Some e, b) \<Rightarrow> Some (p_array (pb_flush b), Inl e)
      | Some (None, b) \<Rightarrow> (let b = pb_out b in Some (p_array b, Inr (p_pos b, pb_count b))))"

text \<open>\<open>vformat_to\<close> on an array, with the result's position and truncation flag, and the conversion of
  the result to a pointer.\<close>

definition vformat_to_array ::
    "(string \<Rightarrow> buf_op list) \<Rightarrow> env \<Rightarrow> string \<Rightarrow> string \<Rightarrow> format_args \<Rightarrow> (string \<times> (exn + nat \<times> bool)) option" where
  "vformat_to_array calls env mem fmt args =
     (case vformat_to_n calls env mem fmt args of
        None \<Rightarrow> None
      | Some (mem', Inl e) \<Rightarrow> Some (mem', Inl e)
      | Some (mem', Inr (out, n)) \<Rightarrow> Some (mem', Inr (out, n > length mem)))"

definition result_pointer :: "nat \<times> bool \<Rightarrow> exn + nat" where
  "result_pointer r = (if snd r then fail ''output is truncated'' else Inr (fst r))"

definition formatted_size :: "(string \<Rightarrow> buf_op list) \<Rightarrow> env \<Rightarrow> string \<Rightarrow> format_args \<Rightarrow> (exn + nat) option" where
  "formatted_size calls env fmt args =
     (case vformat_into cb_grow calls env fmt args cb_new of
        None \<Rightarrow> None
      | Some (Some e, b) \<Rightarrow> Some (Inl e)
      | Some (None, b) \<Rightarrow> Some (Inr (cb_total b)))"

text \<open>\<open>vformat_to\<close> and \<open>vformat_to_n\<close> on other iterators, and on one that appends to a container.\<close>

definition vformat_to_iterator ::
    "(string \<Rightarrow> buf_op list) \<Rightarrow> env \<Rightarrow> string \<Rightarrow> format_args \<Rightarrow> (string \<times> exn option) option" where
  "vformat_to_iterator calls env fmt args =
     map_option (\<lambda>(e, b). (it_written (ib_out b), e)) (vformat_into ib_grow calls env fmt args (ib_new No_limit))"

definition vformat_to_n_iterator ::
    "(string \<Rightarrow> buf_op list) \<Rightarrow> env \<Rightarrow> nat \<Rightarrow> string \<Rightarrow> format_args \<Rightarrow> (string \<times> (exn + nat)) option" where
  "vformat_to_n_iterator calls env n fmt args =
     (case vformat_into ib_grow calls env fmt args (ib_new (Fixed 0 n)) of
        None \<Rightarrow> None
      | Some (Some e, b) \<Rightarrow> Some (it_written (ib_flush b), Inl e)
      | Some (None, b) \<Rightarrow> (let b = ib_out b in Some (it_written b, Inr (ib_count b))))"

definition vformat_to_container ::
    "(string \<Rightarrow> buf_op list) \<Rightarrow> env \<Rightarrow> string \<Rightarrow> string \<Rightarrow> format_args \<Rightarrow> (string \<times> exn option) option" where
  "vformat_to_container calls env c fmt args =
     map_option (\<lambda>(e, b). (b_data b, e)) (vformat_into container_grow calls env fmt args (container_new c))"

section \<open>What arrives\<close>

lemma vformat_into_run:
  assumes "vformat_to env fmt args = Some (t, e)" "run_buf_ops grow (calls t) b = Some b'"
  shows "vformat_into grow calls env fmt args b = Some (e, b')"
  using assms by (simp add: vformat_into_def)

lemma pieces: "splits calls \<Longrightarrow> concat (map op_text (calls t)) = t"
  by (simp add: splits_def)

lemma vformat_to_n_text:
  assumes "vformat_to env fmt args = Some (t, e)" "splits calls"
  shows "vformat_to_n calls env mem fmt args = Some (patch 0 (take (length mem) t) mem,
    case e of Some e \<Rightarrow> Inl e | None \<Rightarrow> Inr (min (length t) (length mem), length t))"
proof -
  obtain b where b: "run_buf_ops pb_grow (calls t) (pb_new mem) = Some b" "pb_inv (length mem) b"
    "pb_view b = pb_snoc (0, mem, 0) t"
    using pb.run_buf_ops_correct[of "length mem" "pb_new mem" "calls t"] pb_new_inv[of mem] pieces[OF assms(2)] by auto
  from pb_out_spec[OF b(2)] b(3) have "p_pos (pb_out b) = min (length t) (length mem)" "pb_count (pb_out b) = length t"
    "p_array (pb_out b) = patch 0 (take (length mem) t) mem"
    by (auto simp: pb_snoc_def Let_def min.commute)
  then show ?thesis using vformat_into_run[where calls = calls, OF assms(1) b(1)]
    by (simp add: vformat_to_n_def pb_out_def Let_def split: option.split)
qed

lemma formatted_size_text:
  assumes "vformat_to env fmt args = Some (t, e)" "splits calls"
  shows "formatted_size calls env fmt args = Some (case e of Some e \<Rightarrow> Inl e | None \<Rightarrow> Inr (length t))"
proof -
  obtain b where b: "run_buf_ops cb_grow (calls t) cb_new = Some b" "cb_total b = length t"
    using cb.run_buf_ops_correct[of cb_new "calls t"] cb_new_inv pieces[OF assms(2)] by auto
  then show ?thesis using vformat_into_run[where calls = calls, OF assms(1) b(1)] by (simp add: formatted_size_def split: option.split)
qed

lemma vformat_to_iterator_text:
  assumes "vformat_to env fmt args = Some (t, e)" "splits calls"
  shows "vformat_to_iterator calls env fmt args = Some (t, e)"
    "vformat_to_n_iterator calls env n fmt args =
      Some (take n t, case e of Some e \<Rightarrow> Inl e | None \<Rightarrow> Inr (length t))"
proof -
  obtain b where b: "run_buf_ops ib_grow (calls t) (ib_new No_limit) = Some b" "ib_inv None b" "ib_view b = (t, 0)"
    using ib.run_buf_ops_correct[of None "ib_new No_limit" "calls t"] ib_new_inv[of No_limit] pieces[OF assms(2)]
    by (auto simp: limit_of_def ib_snoc_def cut_def)
  show "vformat_to_iterator calls env fmt args = Some (t, e)"
    using vformat_into_run[where calls = calls, OF assms(1) b(1)] ib_flush_spec(4)[OF b(2)] b(3) by (simp add: vformat_to_iterator_def ib_out_def)
  obtain b where b: "run_buf_ops ib_grow (calls t) (ib_new (Fixed 0 n)) = Some b" "ib_inv (Some n) b"
    "ib_view b = (take n t, length t)"
    using ib.run_buf_ops_correct[of "Some n" "ib_new (Fixed 0 n)" "calls t"] ib_new_inv[of "Fixed 0 n" n] pieces[OF assms(2)]
    by (auto simp: limit_of_def ib_snoc_def cut_def)
  then show "vformat_to_n_iterator calls env n fmt args =
      Some (take n t, case e of Some e \<Rightarrow> Inl e | None \<Rightarrow> Inr (length t))"
    using vformat_into_run[where calls = calls, OF assms(1) b(1)] ib_flush_spec(4,5)[OF b(2)]
    by (simp add: vformat_to_n_iterator_def ib_out_def Let_def split: option.split)
qed

lemma vformat_to_container_text:
  assumes "vformat_to env fmt args = Some (t, e)" "splits calls"
  shows "vformat_to_container calls env c fmt args = Some (c @ t, e)"
proof -
  have i: "plain_inv (container_new c)" "plain_view (container_new c) = c"
    by (simp_all add: plain_inv_def plain_view_def container_new_def)
  obtain b where b: "run_buf_ops container_grow (calls t) (container_new c) = Some b" "plain_inv b" "plain_view b = c @ t"
    using ct.run_buf_ops_correct[OF i(1), of "calls t"] i(2) pieces[OF assms(2)] by auto
  have "b_size b = b_cap b" using container_exact[OF b(1)] by (simp add: container_new_def)
  then have "b_data b = c @ t" using b(2,3) by (simp add: plain_inv_def plain_view_def)
  then show ?thesis using vformat_into_run[where calls = calls, OF assms(1) b(1)] by (simp add: vformat_to_container_def)
qed

section \<open>Properties\<close>

text \<open>C15: every way to receive formatted text agrees with the text: \<open>format_to\<close> passes it whole to an
  iterator or appends exactly it to a container, \<open>format_to_n\<close> stores the first \<open>n\<close> characters and
  leaves the bytes behind them alone, and \<open>formatted_size\<close> and the size \<open>format_to_n\<close> returns are its
  whole length, however the writers cut the text into calls.\<close>

theorem formatted_outputs_agree:
  assumes "vformat_to env fmt args = Some (t, None)" and "splits calls"
  shows "vformat_to_iterator calls env fmt args = Some (t, None) \<and>
    vformat_to_container calls env c fmt args = Some (c @ t, None) \<and>
    vformat_to_n calls env mem fmt args =
      Some (take (length mem) t @ drop (length t) mem, Inr (min (length t) (length mem), length t)) \<and>
    vformat_to_n_iterator calls env n fmt args = Some (take n t, Inr (length t)) \<and>
    formatted_size calls env fmt args = Some (Inr (length t))"
  using vformat_to_iterator_text[OF assms] vformat_to_container_text[OF assms] vformat_to_n_text[OF assms]
    formatted_size_text[OF assms] by (simp add: patch_def min_def)

text \<open>C18: formatting into an array never writes past it and never truncates in silence: when the text
  does not fit, the result refuses to be used as a pointer; when it does, the pointer is its end.\<close>

theorem format_to_array_checked:
  assumes "vformat_to env fmt args = Some (t, None)" and "splits calls"
  shows "\<exists>mem' r. vformat_to_array calls env mem fmt args = Some (mem', Inr r) \<and> length mem' = length mem \<and>
    (if length t \<le> length mem then result_pointer r = Inr (length t) \<and> take (length t) mem' = t
     else result_pointer r = Inl (Format_error ''output is truncated'') \<and> mem' = take (length mem) t)"
  using vformat_to_n_text[OF assms, of mem]
  by (simp add: vformat_to_array_def result_pointer_def fail_def patch_def min_def)

definition char_calls :: "string \<Rightarrow> buf_op list" where
  "char_calls t = map Op_push t"

lemma char_calls_split: "splits char_calls"
proof -
  have "concat (map op_text (map Op_push t)) = t" for t by (induction t) simp_all
  then show ?thesis by (simp add: splits_def char_calls_def)
qed

lemma sample_text:
  obtains args where "make_format_args [(None, V_int (-42))] = Inr args" "vformat_to plain_env ''a{}!'' args = Some (''a-42!'', None)"
proof -
  have d: "dec_string 42 = ''42''" by (simp add: dec_string_step)
  have v: "map plain_text [V_int (-42)] = map Some [''-42'']" by (simp add: int_string_def d)
  obtain args where a: "make_format_args (map (Pair None) [V_int (-42)]) = Inr args"
    by (simp add: make_format_args_def)
  have t: "template_text [Literal ''a'', Field, Literal ''!''] = ''a{}!''"
    by (simp add: template_text_def double_brace.simps)
  show ?thesis using that a template_formats[OF a _ v, of plain_env "[Literal ''a'', Field, Literal ''!'']"]
    unfolding t by simp
qed

theorem formatted_outputs_agree_witness:
  "\<exists>args. make_format_args [(None, V_int (-42))] = Inr args \<and>
     vformat_to_n char_calls plain_env ''....'' ''a{}!'' args = Some (''a-42'', Inr (4, 5)) \<and>
     vformat_to_n char_calls plain_env ''.......'' ''a{}!'' args = Some (''a-42!..'', Inr (5, 5)) \<and>
     formatted_size char_calls plain_env ''a{}!'' args = Some (Inr 5)"
proof -
  obtain args where a: "make_format_args [(None, V_int (-42))] = Inr args"
    "vformat_to plain_env ''a{}!'' args = Some (''a-42!'', None)" by (rule sample_text)
  show ?thesis
    using a(1) formatted_outputs_agree[OF a(2) char_calls_split, of _ "''....''"]
      formatted_outputs_agree[OF a(2) char_calls_split, of _ "''.......''"]
    by (intro exI[of _ args]) simp
qed

theorem format_to_array_checked_witness:
  "\<exists>args mem r. make_format_args [(None, V_int (-42))] = Inr args \<and>
     vformat_to_array char_calls plain_env ''....'' ''a{}!'' args = Some (mem, Inr r) \<and> mem = ''a-42'' \<and>
     result_pointer r = Inl (Format_error ''output is truncated'')"
proof -
  obtain args where a: "make_format_args [(None, V_int (-42))] = Inr args"
    "vformat_to plain_env ''a{}!'' args = Some (''a-42!'', None)" by (rule sample_text)
  show ?thesis using a(1) format_to_array_checked[OF a(2) char_calls_split, of "''....''"] by auto
qed

end
