(* ===== verification/Formatter.thy ===== *)
theory Formatter
  imports Common Calendar
begin

text \<open>
  \<open>include/spdlite/formatter.h\<close>: the digit writers, the thread-id source, and the
  \<open>formatter\<close> with its cached header.  \<open>format_header\<close> patches the fractional digits, the
  thread id and the level tag on every call and the date and time only when the second
  changes; the lemmas show that the result is nevertheless always the header a fresh
  rendering would give.
\<close>

section \<open>Digit writers\<close>

text \<open>
  \<open>dst\<close> is the offset into the header; the arithmetic is C's (division truncates), and
  every stored value is cut to a \<open>char\<close>.
\<close>

definition put2 :: "nat \<Rightarrow> int \<Rightarrow> string \<Rightarrow> string" where
  "put2 dst n h = h[dst := digit_char (n sdiv 10), dst + 1 := digit_char (n smod 10)]"

definition put3 :: "nat \<Rightarrow> int \<Rightarrow> string \<Rightarrow> string" where
  "put3 dst n h = h[dst := digit_char (n sdiv 100), dst + 1 := digit_char ((n sdiv 10) smod 10),
                    dst + 2 := digit_char (n smod 10)]"

definition put4 :: "nat \<Rightarrow> int \<Rightarrow> string \<Rightarrow> string" where
  "put4 dst n h = h[dst := digit_char (n sdiv 1000), dst + 1 := digit_char ((n sdiv 100) smod 10),
                    dst + 2 := digit_char ((n sdiv 10) smod 10), dst + 3 := digit_char (n smod 10)]"

text \<open>\<open>static_cast<int>\<close> of a \<open>uint64_t\<close>: the low 32 bits read as two's complement.\<close>

definition int_of_u64 :: "u64 \<Rightarrow> int" where
  "int_of_u64 w = sint (ucast w :: u32)"

definition put6 :: "nat \<Rightarrow> u64 \<Rightarrow> string \<Rightarrow> string" where
  "put6 dst n h = put3 (dst + 3) (int_of_u64 (n mod 1000)) (put3 dst (int_of_u64 (n div 1000)) h)"

definition put9 :: "nat \<Rightarrow> u64 \<Rightarrow> string \<Rightarrow> string" where
  "put9 dst n h = put3 (dst + 6) (int_of_u64 (n mod 1000))
     (put3 (dst + 3) (int_of_u64 ((n div 1000) mod 1000))
       (put3 dst (int_of_u64 (n div 1000000)) h))"

text \<open>What they should write: a number in exactly w decimal digits.\<close>

fun dec_digits :: "nat \<Rightarrow> int \<Rightarrow> string" where
  "dec_digits 0 n = []"
| "dec_digits (Suc w) n = dec_digits w (n div 10) @ [digit_char (n mod 10)]"

lemma length_dec_digits [simp]: "length (dec_digits w n) = w"
  by (induction w arbitrary: n) auto

lemma dec_digits_is_digit: "c \<in> set (dec_digits w n) \<Longrightarrow> is_digit c"
proof (induction w arbitrary: n)
  case (Suc w)
  have "0 \<le> n mod 10" "n mod 10 \<le> 9" by auto
  with Suc show ?case by auto
qed simp

lemma dec_val_dec_digits: "0 \<le> n \<Longrightarrow> n < 10 ^ w \<Longrightarrow> int (dec_val (dec_digits w n)) = n"
proof (induction w arbitrary: n)
  case (Suc w)
  have "n div 10 < 10 ^ w" using Suc.prems by (simp add: div_less_iff_less_mult mult.commute)
  with Suc.IH[of "n div 10"] Suc.prems
  have "int (dec_val (dec_digits w (n div 10))) = n div 10" by simp
  moreover have "0 \<le> n mod 10" "n mod 10 \<le> 9" by auto
  ultimately show ?case by (simp add: dec_val_append dec_val_Cons)
qed simp

lemma dec_digits_split:
  "dec_digits (u + w) n = dec_digits u (n div 10 ^ w) @ dec_digits w (n mod 10 ^ w)"
proof (induction w arbitrary: n)
  case 0
  then show ?case by simp
next
  case (Suc w)
  have "n mod (10 * 10 ^ w) div 10 = n div 10 mod 10 ^ w"
    by (simp add: mod_mult2_eq div_mult2_eq zmod_zmult2_eq)
  moreover have "n mod (10 * 10 ^ w) mod 10 = n mod 10"
    by (simp add: mod_mod_cancel)
  ultimately show ?case
    using Suc[of "n div 10"] by (simp add: div_mult2_eq[symmetric] zdiv_zmult2_eq[symmetric])
qed


lemma sdiv_nonneg: "0 \<le> (n::int) \<Longrightarrow> 0 < k \<Longrightarrow> n sdiv k = n div k"
  by (cases "n = 0") (auto simp: signed_divide_int_def)

lemma smod_nonneg: "0 \<le> (n::int) \<Longrightarrow> 0 < k \<Longrightarrow> n smod k = n mod k"
  by (cases "n = 0") (auto simp: signed_modulo_int_def)

lemma dec_digits_2: "dec_digits 2 n = [digit_char (n div 10 mod 10), digit_char (n mod 10)]"
  by (simp add: numeral_2_eq_2)

lemma dec_digits_3: "dec_digits 3 n =
    [digit_char (n div 100 mod 10), digit_char (n div 10 mod 10), digit_char (n mod 10)]"
  by (simp add: numeral_3_eq_3 zdiv_zmult2_eq[symmetric])

lemma dec_digits_4: "dec_digits 4 n =
    [digit_char (n div 1000 mod 10), digit_char (n div 100 mod 10),
     digit_char (n div 10 mod 10), digit_char (n mod 10)]"
  by (simp add: eval_nat_numeral zdiv_zmult2_eq[symmetric])

lemma two_updates: "i + 1 < length h \<Longrightarrow> h[i := a, i + 1 := b] = patch i [a, b] h"
  by (simp add: list_update_patch patch_patch_adjacent)

lemma put2_patch:
  assumes "0 \<le> n" "n < 100" "dst + 2 \<le> length h"
  shows "put2 dst n h = patch dst (dec_digits 2 n) h"
proof -
  have "n div 10 mod 10 = n div 10" using assms by simp
  then show ?thesis
    using assms by (simp add: put2_def sdiv_nonneg smod_nonneg dec_digits_2 two_updates[simplified])
qed

lemma put3_patch:
  assumes "0 \<le> n" "n < 1000" "dst + 3 \<le> length h"
  shows "put3 dst n h = patch dst (dec_digits 3 n) h"
proof -
  have "n div 100 mod 10 = n div 100" using assms by simp
  then show ?thesis
    using assms
    by (simp add: put3_def sdiv_nonneg smod_nonneg pos_imp_zdiv_nonneg_iff dec_digits_3
        list_update_patch patch_patch_adjacent)
qed

lemma put4_patch:
  assumes "0 \<le> n" "n < 10000" "dst + 4 \<le> length h"
  shows "put4 dst n h = patch dst (dec_digits 4 n) h"
proof -
  have "n div 1000 mod 10 = n div 1000" using assms by simp
  then show ?thesis
    using assms
    by (simp add: put4_def sdiv_nonneg smod_nonneg pos_imp_zdiv_nonneg_iff dec_digits_4
        list_update_patch patch_patch_adjacent)
qed

lemma int_of_u64_small: "uint w < 2 ^ 31 \<Longrightarrow> int_of_u64 w = uint w"
proof -
  assume "uint w < 2 ^ 31"
  then have "signed_take_bit 31 (uint w) = uint w"
    by (intro signed_take_bit_int_eq_self) (auto intro: order_trans[of _ 0])
  moreover have "ucast w = (word_of_int (uint w) :: u32)" by simp
  ultimately show ?thesis by (simp only: int_of_u64_def sint_sbintrunc') simp
qed

lemma put6_patch:
  assumes "uint n < 1000000" "dst + 6 \<le> length h"
  shows "put6 dst n h = patch dst (dec_digits 6 (uint n)) h"
proof -
  have "dec_digits 6 (uint n) = dec_digits 3 (uint n div 1000) @ dec_digits 3 (uint n mod 1000)"
    using dec_digits_split[of 3 3 "uint n"] by simp
  then show ?thesis
    using assms
    by (simp add: put6_def int_of_u64_small uint_div uint_mod put3_patch patch_patch_adjacent
        div_int_pos_iff)
qed

lemma put9_patch:
  assumes "uint n < 1000000000" "dst + 9 \<le> length h"
  shows "put9 dst n h = patch dst (dec_digits 9 (uint n)) h"
proof -
  have "dec_digits 9 (uint n) = dec_digits 3 (uint n div 1000000) @
      dec_digits 3 (uint n div 1000 mod 1000) @ dec_digits 3 (uint n mod 1000)"
  proof -
    have e1: "uint n mod 1000000 div 1000 = uint n div 1000 mod 1000"
      using zmod_zmult2_eq[of 1000 "uint n" 1000] by simp
    have e2: "uint n mod 1000000 mod 1000 = uint n mod 1000"
      by (simp add: mod_mod_cancel)
    have d9: "dec_digits 9 (uint n) =
        dec_digits 3 (uint n div 1000000) @ dec_digits 6 (uint n mod 1000000)"
      using dec_digits_split[of 3 6 "uint n"] by simp
    have d6: "dec_digits 6 m = dec_digits 3 (m div 1000) @ dec_digits 3 (m mod 1000)" for m
      using dec_digits_split[of 3 3 m] by simp
    show ?thesis unfolding d9 d6 e1 e2 by (rule refl)
  qed
  then show ?thesis
    using assms
    by (simp add: put9_def int_of_u64_small uint_div uint_mod put3_patch patch_patch_adjacent
        div_int_pos_iff)
qed

section \<open>Thread id\<close>

definition this_thread_id_log :: "u64 \<Rightarrow> u32" where
  "this_thread_id_log raw = ucast (raw mod 1000000)"

lemma this_thread_id_bound: "uint (this_thread_id_log raw) < 1000000"
proof -
  have "uint (raw mod 1000000) < 1000000" by (simp add: uint_mod)
  moreover have "take_bit 32 (uint (raw mod 1000000)) \<le> uint (raw mod 1000000)"
    by (simp add: take_bit_int_less_eq_self_iff)
  ultimately show ?thesis by (simp add: this_thread_id_log_def unsigned_ucast_eq)
qed

section \<open>The formatter\<close>

datatype time_precision = P_none | P_ms | P_us | P_ns

record format_options =
  o_utc :: bool
  o_show_date :: bool
  o_show_thread_id :: bool
  o_precision :: time_precision

definition default_format_options :: format_options where
  "default_format_options =
     \<lparr>o_utc = False, o_show_date = True, o_show_thread_id = False, o_precision = P_ms\<rparr>"

text \<open>The members \<open>opts_\<close>, \<open>header_\<close>, \<open>frac_offset_\<close>, \<open>tid_offset_\<close>,
  \<open>level_offset_\<close>, \<open>last_secs_\<close>.\<close>

record formatter =
  f_opts :: format_options
  f_header :: string
  f_frac_offset :: nat
  f_tid_offset :: nat
  f_level_offset :: nat
  f_last_secs :: int

text \<open>What the calls to the operating system return: the zone offset of an instant and the
  raw id of the calling thread.\<close>

record clock_env =
  e_tz :: "int \<Rightarrow> int"
  e_tid :: u64

fun frac_width :: "time_precision \<Rightarrow> nat" where
  "frac_width P_ms = 3"
| "frac_width P_us = 6"
| "frac_width P_ns = 9"
| "frac_width P_none = 0"

definition rebuild_header :: "string \<Rightarrow> formatter \<Rightarrow> formatter" where
  "rebuild_header logger_name f =
     (let o1 = f_opts f;
          h0 = (if o_show_date o1 then ''[0000-00-00 00:00:00'' else ''[00:00:00'');
          (h1, frac) = (if o_precision o1 \<noteq> P_none
                        then (h0 @ ''.'' @ replicate (frac_width (o_precision o1)) (CHR ''0''),
                              length h0 + 1)
                        else (h0, f_frac_offset f));
          h2 = h1 @ ''] '';
          (h3, tid) = (if o_show_thread_id o1
                       then (h2 @ ''['' @ ''000000] '', length (h2 @ ''[''))
                       else (h2, f_tid_offset f));
          h4 = (if logger_name \<noteq> [] then h3 @ ''['' @ logger_name @ ''] '' else h3);
          h5 = h4 @ ''['';
          lev = length h5
      in f\<lparr>f_header := h5 @ ''INF] '', f_frac_offset := frac, f_tid_offset := tid,
           f_level_offset := lev, f_last_secs := 0\<rparr>)"

definition mk_formatter :: "string \<Rightarrow> format_options \<Rightarrow> formatter" where
  "mk_formatter logger_name opts =
     rebuild_header logger_name
       \<lparr>f_opts = opts, f_header = [], f_frac_offset = 0, f_tid_offset = 0, f_level_offset = 0,
        f_last_secs = 0\<rparr>"

definition set_logger_name :: "string \<Rightarrow> formatter \<Rightarrow> formatter" where
  "set_logger_name name f = rebuild_header name f"

definition broken_down :: "clock_env \<Rightarrow> bool \<Rightarrow> int \<Rightarrow> tm" where
  "broken_down env utc t = (if utc then gmtime_r t else localtime_r (e_tz env) t)"

definition rebuild_timestamp :: "clock_env \<Rightarrow> int \<Rightarrow> formatter \<Rightarrow> formatter" where
  "rebuild_timestamp env t f =
     (let m = broken_down env (o_utc (f_opts f)) t;
          off = 1;
          (h, off) = (if o_show_date (f_opts f)
                      then (put2 (off + 8) (tm_mday m)
                             (put2 (off + 5) (tm_mon m + 1)
                               (put4 off (tm_year m + 1900) (f_header f))), off + 11)
                      else (f_header f, off))
      in f\<lparr>f_header := put2 (off + 6) (tm_sec m) (put2 (off + 3) (tm_min m)
                          (put2 off (tm_hour m) h))\<rparr>)"

text \<open>
  \<open>time\<close> is the clock reading in nanoseconds; \<open>duration_cast\<close> truncates.  The result is
  the updated formatter and the bytes appended to \<open>dest\<close>; \<open>None\<close> is the failed assertion
  of \<open>to_string_view\<close>.
\<close>

definition put_frac :: "int \<Rightarrow> formatter \<Rightarrow> string \<Rightarrow> string" where
  "put_frac frac_ns f h =
     (case o_precision (f_opts f) of
        P_ms \<Rightarrow> put3 (f_frac_offset f) (frac_ns sdiv 1000000) h
      | P_us \<Rightarrow> put6 (f_frac_offset f) (word_of_int (frac_ns sdiv 1000)) h
      | P_ns \<Rightarrow> put9 (f_frac_offset f) (word_of_int frac_ns) h
      | P_none \<Rightarrow> h)"

definition format_header ::
    "clock_env \<Rightarrow> int \<Rightarrow> level \<Rightarrow> formatter \<Rightarrow> (formatter \<times> string) option" where
  "format_header env time lvl f =
     (let secs = time sdiv 1000000000;
          f1 = (if secs \<noteq> f_last_secs f
                then rebuild_timestamp env secs (f\<lparr>f_last_secs := secs\<rparr>) else f);
          h1 = put_frac (time - secs * 1000000000) f1 (f_header f1);
          h2 = (if o_show_thread_id (f_opts f1)
                then put6 (f_tid_offset f1) (ucast (this_thread_id_log (e_tid env))) h1 else h1)
      in case to_string_view lvl of
           None \<Rightarrow> None
         | Some tag \<Rightarrow>
             let h3 = patch (f_level_offset f1) (take level_width tag) h2
             in Some (f1\<lparr>f_header := h3\<rparr>, h3))"

section \<open>The layout of the header\<close>

text \<open>The variable fields of a header line, and the line they make under given options.\<close>

record hdr =
  h_year :: string
  h_mon :: string
  h_day :: string
  h_hour :: string
  h_min :: string
  h_sec :: string
  h_frac :: string
  h_tid :: string
  h_tag :: string

definition layout :: "format_options \<Rightarrow> string \<Rightarrow> hdr \<Rightarrow> string" where
  "layout opts name r =
     ''['' @ (if o_show_date opts
              then h_year r @ ''-'' @ h_mon r @ ''-'' @ h_day r @ '' '' else []) @
     h_hour r @ '':'' @ h_min r @ '':'' @ h_sec r @
     (if o_precision opts \<noteq> P_none then ''.'' @ h_frac r else []) @ ''] '' @
     (if o_show_thread_id opts then ''['' @ h_tid r @ ''] '' else []) @
     (if name \<noteq> [] then ''['' @ name @ ''] '' else []) @ ''['' @ h_tag r @ ''] ''"

definition hdr_ok :: "format_options \<Rightarrow> hdr \<Rightarrow> bool" where
  "hdr_ok opts r \<longleftrightarrow> length (h_year r) = 4 \<and> length (h_mon r) = 2 \<and> length (h_day r) = 2 \<and>
     length (h_hour r) = 2 \<and> length (h_min r) = 2 \<and> length (h_sec r) = 2 \<and>
     length (h_frac r) = frac_width (o_precision opts) \<and> length (h_tid r) = 6 \<and>
     length (h_tag r) = level_width"

definition date_w :: "format_options \<Rightarrow> nat" where
  "date_w opts = (if o_show_date opts then 11 else 0)"

definition frac_w :: "format_options \<Rightarrow> nat" where
  "frac_w opts = (if o_precision opts \<noteq> P_none then 1 + frac_width (o_precision opts) else 0)"

definition tid_w :: "format_options \<Rightarrow> nat" where
  "tid_w opts = (if o_show_thread_id opts then 9 else 0)"

definition name_w :: "string \<Rightarrow> nat" where
  "name_w name = (if name \<noteq> [] then length name + 3 else 0)"

definition level_off :: "format_options \<Rightarrow> string \<Rightarrow> nat" where
  "level_off opts name = 12 + date_w opts + frac_w opts + tid_w opts + name_w name"

lemmas widths = date_w_def frac_w_def tid_w_def name_w_def level_off_def level_width_def

lemma length_layout:
  "hdr_ok opts r \<Longrightarrow> length (layout opts name r) = level_off opts name + 5"
  by (simp add: layout_def hdr_ok_def widths)

lemma patchI:
  "xs = a @ t @ b \<Longrightarrow> length a = off \<Longrightarrow> length t = length s \<Longrightarrow> ys = a @ s @ b \<Longrightarrow>
   patch off s xs = ys"
  using patch_middle[of t s a b] by simp

text \<open>The layout cut in front of the fraction, the thread id and the tag.\<close>

definition lay_time :: "format_options \<Rightarrow> hdr \<Rightarrow> string" where
  "lay_time opts r =
     ''['' @ (if o_show_date opts
              then h_year r @ ''-'' @ h_mon r @ ''-'' @ h_day r @ '' '' else []) @
     h_hour r @ '':'' @ h_min r @ '':'' @ h_sec r"

definition lay_frac :: "format_options \<Rightarrow> hdr \<Rightarrow> string" where
  "lay_frac opts r = (if o_precision opts \<noteq> P_none then ''.'' @ h_frac r else []) @ ''] ''"

definition lay_tid :: "format_options \<Rightarrow> hdr \<Rightarrow> string" where
  "lay_tid opts r = (if o_show_thread_id opts then ''['' @ h_tid r @ ''] '' else [])"

definition lay_name :: "string \<Rightarrow> string" where
  "lay_name name = (if name \<noteq> [] then ''['' @ name @ ''] '' else []) @ ''[''"

lemma layout_parts:
  "layout opts name r = lay_time opts r @ lay_frac opts r @ lay_tid opts r @ lay_name name @
     h_tag r @ ''] ''"
  by (simp add: layout_def lay_time_def lay_frac_def lay_tid_def lay_name_def)

lemma lay_lengths:
  assumes "hdr_ok opts r"
  shows "length (lay_time opts r) = 9 + date_w opts"
    "length (lay_frac opts r) = frac_w opts + 2"
    "length (lay_tid opts r) = tid_w opts" "length (lay_name name) = name_w name + 1"
  using assms
  by (simp_all add: lay_time_def lay_frac_def lay_tid_def lay_name_def hdr_ok_def widths)

lemma patch_at: "length xs = off \<Longrightarrow> length t = length s \<Longrightarrow> patch off s (xs @ t @ ys) = xs @ s @ ys"
  using patch_middle[of t s xs ys] by simp

text \<open>Patching a field at its offset replaces that field and nothing else.\<close>

lemma patch_year:
  "hdr_ok opts r \<Longrightarrow> o_show_date opts \<Longrightarrow> length v = 4 \<Longrightarrow>
   patch 1 v (layout opts name r) = layout opts name (r\<lparr>h_year := v\<rparr>)"
  by (simp add: layout_def hdr_ok_def patch_def)

lemma patch_mon:
  "hdr_ok opts r \<Longrightarrow> o_show_date opts \<Longrightarrow> length v = 2 \<Longrightarrow>
   patch 6 v (layout opts name r) = layout opts name (r\<lparr>h_mon := v\<rparr>)"
  by (simp add: layout_def hdr_ok_def patch_def)

lemma patch_day:
  "hdr_ok opts r \<Longrightarrow> o_show_date opts \<Longrightarrow> length v = 2 \<Longrightarrow>
   patch 9 v (layout opts name r) = layout opts name (r\<lparr>h_day := v\<rparr>)"
  by (simp add: layout_def hdr_ok_def patch_def)

lemma patch_hour:
  "hdr_ok opts r \<Longrightarrow> length v = 2 \<Longrightarrow>
   patch (1 + date_w opts) v (layout opts name r) = layout opts name (r\<lparr>h_hour := v\<rparr>)"
  by (simp add: layout_def hdr_ok_def patch_def date_w_def)

lemma patch_min:
  "hdr_ok opts r \<Longrightarrow> length v = 2 \<Longrightarrow>
   patch (4 + date_w opts) v (layout opts name r) = layout opts name (r\<lparr>h_min := v\<rparr>)"
  by (simp add: layout_def hdr_ok_def patch_def date_w_def)

lemma patch_sec:
  "hdr_ok opts r \<Longrightarrow> length v = 2 \<Longrightarrow>
   patch (7 + date_w opts) v (layout opts name r) = layout opts name (r\<lparr>h_sec := v\<rparr>)"
  by (simp add: layout_def hdr_ok_def patch_def date_w_def)

lemma patch_frac:
  "hdr_ok opts r \<Longrightarrow> o_precision opts \<noteq> P_none \<Longrightarrow> length v = frac_width (o_precision opts) \<Longrightarrow>
   patch (10 + date_w opts) v (layout opts name r) = layout opts name (r\<lparr>h_frac := v\<rparr>)"
  by (rule patchI[where a = "lay_time opts r @ ''.''" and t = "h_frac r" and
        b = "''] '' @ lay_tid opts r @ lay_name name @ h_tag r @ ''] ''"])
    (simp_all add: layout_parts lay_lengths, simp_all add: lay_frac_def lay_time_def lay_tid_def hdr_ok_def)

lemma patch_tid:
  "hdr_ok opts r \<Longrightarrow> o_show_thread_id opts \<Longrightarrow> length v = 6 \<Longrightarrow>
   patch (12 + date_w opts + frac_w opts) v (layout opts name r) = layout opts name (r\<lparr>h_tid := v\<rparr>)"
  by (rule patchI[where a = "lay_time opts r @ lay_frac opts r @ ''[''" and t = "h_tid r" and
        b = "''] '' @ lay_name name @ h_tag r @ ''] ''"])
    (simp_all add: layout_parts lay_lengths, simp_all add: lay_frac_def lay_time_def lay_tid_def hdr_ok_def)

lemma patch_tag:
  "hdr_ok opts r \<Longrightarrow> length v = 3 \<Longrightarrow>
   patch (level_off opts name) v (layout opts name r) = layout opts name (r\<lparr>h_tag := v\<rparr>)"
  by (rule patchI[where a = "lay_time opts r @ lay_frac opts r @ lay_tid opts r @ lay_name name" and
        t = "h_tag r" and b = "''] ''"])
    (simp_all add: layout_parts lay_lengths level_off_def,
     simp_all add: lay_frac_def lay_time_def lay_tid_def hdr_ok_def level_width_def)

lemma hdr_ok_updates:
  "hdr_ok opts r \<Longrightarrow> length v = 2 \<Longrightarrow> hdr_ok opts (r\<lparr>h_mon := v\<rparr>)"
  "hdr_ok opts r \<Longrightarrow> length v = 2 \<Longrightarrow> hdr_ok opts (r\<lparr>h_day := v\<rparr>)"
  "hdr_ok opts r \<Longrightarrow> length v = 2 \<Longrightarrow> hdr_ok opts (r\<lparr>h_hour := v\<rparr>)"
  "hdr_ok opts r \<Longrightarrow> length v = 2 \<Longrightarrow> hdr_ok opts (r\<lparr>h_min := v\<rparr>)"
  "hdr_ok opts r \<Longrightarrow> length v = 2 \<Longrightarrow> hdr_ok opts (r\<lparr>h_sec := v\<rparr>)"
  "hdr_ok opts r \<Longrightarrow> length v = 4 \<Longrightarrow> hdr_ok opts (r\<lparr>h_year := v\<rparr>)"
  "hdr_ok opts r \<Longrightarrow> length v = frac_width (o_precision opts) \<Longrightarrow> hdr_ok opts (r\<lparr>h_frac := v\<rparr>)"
  "hdr_ok opts r \<Longrightarrow> length v = 6 \<Longrightarrow> hdr_ok opts (r\<lparr>h_tid := v\<rparr>)"
  "hdr_ok opts r \<Longrightarrow> length v = 3 \<Longrightarrow> hdr_ok opts (r\<lparr>h_tag := v\<rparr>)"
  by (simp_all add: hdr_ok_def level_width_def)

text \<open>The date and time fields of an instant, and the whole header of a call.\<close>

definition set_time :: "tm \<Rightarrow> hdr \<Rightarrow> hdr" where
  "set_time m r = r\<lparr>h_year := dec_digits 4 (tm_year m + 1900), h_mon := dec_digits 2 (tm_mon m + 1),
     h_day := dec_digits 2 (tm_mday m), h_hour := dec_digits 2 (tm_hour m),
     h_min := dec_digits 2 (tm_min m), h_sec := dec_digits 2 (tm_sec m)\<rparr>"

definition frac_value :: "time_precision \<Rightarrow> int \<Rightarrow> int" where
  "frac_value p frac_ns =
     (case p of P_ms \<Rightarrow> frac_ns div 1000000 | P_us \<Rightarrow> frac_ns div 1000 | _ \<Rightarrow> frac_ns)"

definition header_fields :: "clock_env \<Rightarrow> format_options \<Rightarrow> int \<Rightarrow> string \<Rightarrow> hdr" where
  "header_fields env opts time tag =
     set_time (broken_down env (o_utc opts) (time div 1000000000))
       \<lparr>h_year = [], h_mon = [], h_day = [], h_hour = [], h_min = [], h_sec = [],
        h_frac = dec_digits (frac_width (o_precision opts))
                   (frac_value (o_precision opts) (time mod 1000000000)),
        h_tid = dec_digits 6 (uint (e_tid env) mod 1000000), h_tag = tag\<rparr>"

definition header_spec ::
    "clock_env \<Rightarrow> format_options \<Rightarrow> string \<Rightarrow> int \<Rightarrow> level \<Rightarrow> string option" where
  "header_spec env opts name time lvl =
     map_option (\<lambda>tag. layout opts name (header_fields env opts time tag)) (to_string_view lvl)"

lemma set_time_ok: "hdr_ok opts r \<Longrightarrow> hdr_ok opts (set_time m r)"
  by (simp add: set_time_def hdr_ok_def)

section \<open>The cached header is coherent\<close>

definition year_ok :: "clock_env \<Rightarrow> format_options \<Rightarrow> int \<Rightarrow> bool" where
  "year_ok env opts secs \<longleftrightarrow>
     (o_show_date opts \<longrightarrow> 0 \<le> tm_year (broken_down env (o_utc opts) secs) + 1900 \<and>
        tm_year (broken_down env (o_utc opts) secs) + 1900 < 10000)"

text \<open>
  The invariant: the offsets are those of the layout, the header is a layout with fields of
  the right width, and its date and time are those of \<open>last_secs_\<close>, unless that is 0,
  the value \<open>rebuild_header\<close> uses to force a rebuild.
\<close>

definition formatter_inv :: "clock_env \<Rightarrow> string \<Rightarrow> formatter \<Rightarrow> bool" where
  "formatter_inv env name f \<longleftrightarrow>
     (o_precision (f_opts f) \<noteq> P_none \<longrightarrow> f_frac_offset f = 10 + date_w (f_opts f)) \<and>
     (o_show_thread_id (f_opts f) \<longrightarrow>
        f_tid_offset f = 12 + date_w (f_opts f) + frac_w (f_opts f)) \<and>
     f_level_offset f = level_off (f_opts f) name \<and>
     (\<exists>r. hdr_ok (f_opts f) r \<and> f_header f = layout (f_opts f) name r \<and>
        (f_last_secs f \<noteq> 0 \<longrightarrow>
           set_time (broken_down env (o_utc (f_opts f)) (f_last_secs f)) r = r))"

lemma broken_down_valid: "tm_valid (broken_down env utc t)"
  by (simp add: broken_down_def gmtime_valid localtime_valid)

lemma layout_hide_date: "\<not> o_show_date opts \<Longrightarrow> layout opts name (set_time m r) =
    layout opts name (r\<lparr>h_hour := dec_digits 2 (tm_hour m), h_min := dec_digits 2 (tm_min m),
      h_sec := dec_digits 2 (tm_sec m)\<rparr>)"
  by (simp add: layout_def set_time_def)

lemma rebuild_header_inv: "formatter_inv env name (rebuild_header name f)"
proof -
  let ?o = "f_opts f"
  let ?r = "\<lparr>h_year = ''0000'', h_mon = ''00'', h_day = ''00'', h_hour = ''00'', h_min = ''00'',
    h_sec = ''00'', h_frac = replicate (frac_width (o_precision ?o)) (CHR ''0''),
    h_tid = ''000000'', h_tag = ''INF''\<rparr>"
  have "hdr_ok ?o ?r" by (simp add: hdr_ok_def level_width_def)
  moreover have "f_header (rebuild_header name f) = layout ?o name ?r"
    by (simp add: rebuild_header_def layout_def Let_def)
  ultimately show ?thesis
    by (auto simp: formatter_inv_def rebuild_header_def Let_def widths)
qed

lemma rebuild_header_opts [simp]: "f_opts (rebuild_header name f) = f_opts f"
  by (simp add: rebuild_header_def Let_def split: prod.split)

lemma put_time_layout:
  assumes ok: "hdr_ok opts r" and v: "tm_valid m"
  shows "put2 (date_w opts + 7) (tm_sec m) (put2 (date_w opts + 4) (tm_min m)
           (put2 (date_w opts + 1) (tm_hour m) (layout opts name r))) =
         layout opts name (r\<lparr>h_hour := dec_digits 2 (tm_hour m), h_min := dec_digits 2 (tm_min m),
           h_sec := dec_digits 2 (tm_sec m)\<rparr>)"
proof -
  let ?r1 = "r\<lparr>h_hour := dec_digits 2 (tm_hour m)\<rparr>"
  let ?r2 = "?r1\<lparr>h_min := dec_digits 2 (tm_min m)\<rparr>"
  have ok1: "hdr_ok opts ?r1" and ok2: "hdr_ok opts ?r2"
    using ok by (simp_all add: hdr_ok_def)
  have len: "hdr_ok opts r' \<Longrightarrow> date_w opts + 9 \<le> length (layout opts name r')" for r'
    by (simp add: length_layout level_off_def)
  have "put2 (date_w opts + 1) (tm_hour m) (layout opts name r) = layout opts name ?r1"
    using v len[OF ok] patch_hour[OF ok, of "dec_digits 2 (tm_hour m)" name]
    by (simp add: put2_patch tm_valid_def)
  moreover have "put2 (date_w opts + 4) (tm_min m) (layout opts name ?r1) = layout opts name ?r2"
    using v len[OF ok1] patch_min[OF ok1, of "dec_digits 2 (tm_min m)" name]
    by (simp add: put2_patch tm_valid_def add.commute)
  moreover have "put2 (date_w opts + 7) (tm_sec m) (layout opts name ?r2) =
      layout opts name (?r2\<lparr>h_sec := dec_digits 2 (tm_sec m)\<rparr>)"
    using v len[OF ok2] patch_sec[OF ok2, of "dec_digits 2 (tm_sec m)" name]
    by (simp add: put2_patch tm_valid_def add.commute)
  ultimately show ?thesis by simp
qed

lemma put_date_layout:
  assumes ok: "hdr_ok opts r" and v: "tm_valid m" and d: "o_show_date opts"
    and y: "0 \<le> tm_year m + 1900" "tm_year m + 1900 < 10000"
  shows "put2 9 (tm_mday m) (put2 6 (tm_mon m + 1) (put4 1 (tm_year m + 1900)
           (layout opts name r))) =
         layout opts name (r\<lparr>h_year := dec_digits 4 (tm_year m + 1900),
           h_mon := dec_digits 2 (tm_mon m + 1), h_day := dec_digits 2 (tm_mday m)\<rparr>)"
proof -
  let ?r1 = "r\<lparr>h_year := dec_digits 4 (tm_year m + 1900)\<rparr>"
  let ?r2 = "?r1\<lparr>h_mon := dec_digits 2 (tm_mon m + 1)\<rparr>"
  have ok1: "hdr_ok opts ?r1" and ok2: "hdr_ok opts ?r2"
    using ok by (simp_all add: hdr_ok_def)
  have len: "hdr_ok opts r' \<Longrightarrow> 11 \<le> length (layout opts name r')" for r'
    by (simp add: length_layout level_off_def)
  have "put4 1 (tm_year m + 1900) (layout opts name r) = layout opts name ?r1"
    using y len[OF ok] patch_year[OF ok d, of "dec_digits 4 (tm_year m + 1900)" name]
    by (simp add: put4_patch)
  moreover have "put2 6 (tm_mon m + 1) (layout opts name ?r1) = layout opts name ?r2"
    using v len[OF ok1] patch_mon[OF ok1 d, of "dec_digits 2 (tm_mon m + 1)" name]
    by (simp add: put2_patch tm_valid_def)
  moreover have "put2 9 (tm_mday m) (layout opts name ?r2) =
      layout opts name (?r2\<lparr>h_day := dec_digits 2 (tm_mday m)\<rparr>)"
    using v len[OF ok2] patch_day[OF ok2 d, of "dec_digits 2 (tm_mday m)" name]
    by (simp add: put2_patch tm_valid_def)
  ultimately show ?thesis by simp
qed

lemma rebuild_timestamp_layout:
  assumes ok: "hdr_ok (f_opts f) r" and h: "f_header f = layout (f_opts f) name r"
    and y: "year_ok env (f_opts f) t"
  shows "rebuild_timestamp env t f =
     f\<lparr>f_header := layout (f_opts f) name (set_time (broken_down env (o_utc (f_opts f)) t) r)\<rparr>"
proof -
  let ?m = "broken_down env (o_utc (f_opts f)) t"
  show ?thesis
  proof (cases "o_show_date (f_opts f)")
    case True
    let ?r = "r\<lparr>h_year := dec_digits 4 (tm_year ?m + 1900),
           h_mon := dec_digits 2 (tm_mon ?m + 1), h_day := dec_digits 2 (tm_mday ?m)\<rparr>"
    have "hdr_ok (f_opts f) ?r" using ok by (simp add: hdr_ok_def)
    from put_time_layout[OF this broken_down_valid[of env "o_utc (f_opts f)" t], of name]
    show ?thesis
      using True y put_date_layout[OF ok broken_down_valid True, of env "o_utc (f_opts f)" t name]
      by (simp add: rebuild_timestamp_def year_ok_def Let_def h set_time_def date_w_def)
  next
    case False
    from put_time_layout[OF ok broken_down_valid[of env "o_utc (f_opts f)" t], of name]
    show ?thesis
      using False by (simp add: rebuild_timestamp_def Let_def h layout_hide_date date_w_def)
  qed
qed

text \<open>The three patches of a call, on a laid-out header.\<close>

lemma put_frac_layout:
  assumes ok: "hdr_ok (f_opts f) r" and ns: "0 \<le> ns" "ns < 1000000000"
    and off: "o_precision (f_opts f) \<noteq> P_none \<longrightarrow> f_frac_offset f = 10 + date_w (f_opts f)"
  shows "put_frac ns f (layout (f_opts f) name r) =
    layout (f_opts f) name (r\<lparr>h_frac := dec_digits (frac_width (o_precision (f_opts f)))
      (frac_value (o_precision (f_opts f)) ns)\<rparr>)"
proof (cases "o_precision (f_opts f) = P_none")
  case True
  then show ?thesis by (simp add: put_frac_def layout_def)
next
  case False
  let ?v = "dec_digits (frac_width (o_precision (f_opts f))) (frac_value (o_precision (f_opts f)) ns)"
  have len: "10 + date_w (f_opts f) + frac_width (o_precision (f_opts f))
      \<le> length (layout (f_opts f) name r)"
    using False by (simp add: length_layout[OF ok] level_off_def frac_w_def)
  have w: "uint (word_of_int (ns div 1000) :: u64) = ns div 1000" "uint (word_of_int ns :: u64) = ns"
    using ns by (simp_all add: uint_word_of_int)
  have "put_frac ns f (layout (f_opts f) name r) = patch (10 + date_w (f_opts f)) ?v
      (layout (f_opts f) name r)"
    using False off len ns w
    by (cases "o_precision (f_opts f)")
      (simp_all add: put_frac_def frac_value_def sdiv_nonneg put3_patch put6_patch put9_patch
        pos_imp_zdiv_nonneg_iff)
  also have "\<dots> = layout (f_opts f) name (r\<lparr>h_frac := ?v\<rparr>)"
    using False by (intro patch_frac[OF ok]) simp_all
  finally show ?thesis .
qed

lemma put_tid_layout:
  assumes ok: "hdr_ok opts r"
    and off: "o_show_thread_id opts \<longrightarrow> tid_off = 12 + date_w opts + frac_w opts"
  shows "(if o_show_thread_id opts
          then put6 tid_off (ucast (this_thread_id_log raw)) (layout opts name r)
          else layout opts name r) =
         layout opts name (r\<lparr>h_tid := dec_digits 6 (uint raw mod 1000000)\<rparr>)"
proof (cases "o_show_thread_id opts")
  case False
  then show ?thesis by (simp add: layout_def)
next
  case True
  have u: "uint (ucast (this_thread_id_log raw) :: u64) = uint raw mod 1000000"
  proof -
    have "uint (ucast (this_thread_id_log raw) :: u64) = uint (this_thread_id_log raw)"
      by (simp add: unsigned_ucast_eq take_bit_int_eq_self_iff order.strict_trans[OF this_thread_id_bound])
    also have "\<dots> = uint (raw mod 1000000)"
    proof -
      have "uint (raw mod 1000000) < 2 ^ 32"
        using pos_mod_bound[of 1000000 "uint raw"] by (simp add: uint_mod)
      then show ?thesis
        by (simp add: this_thread_id_log_def unsigned_ucast_eq take_bit_int_eq_self_iff)
    qed
    finally show ?thesis by (simp add: uint_mod)
  qed
  have len: "12 + date_w opts + frac_w opts + 6 \<le> length (layout opts name r)"
    using True by (simp add: length_layout[OF ok] level_off_def tid_w_def)
  have "uint raw mod 1000000 < 1000000" by simp
  with True off len u show ?thesis
    by (simp add: put6_patch patch_tid[OF ok True])
qed

lemma format_header_layout:
  assumes inv: "formatter_inv env name f" and t: "0 \<le> time"
    and new: "time div 1000000000 \<noteq> 0 \<or> f_last_secs f \<noteq> 0"
    and y: "year_ok env (f_opts f) (time div 1000000000)"
    and tag: "to_string_view lvl = Some tag"
  obtains f' where "format_header env time lvl f =
      Some (f', layout (f_opts f) name (header_fields env (f_opts f) time tag))"
    "f_header f' = layout (f_opts f) name (header_fields env (f_opts f) time tag)"
    "f_opts f' = f_opts f" "f_frac_offset f' = f_frac_offset f" "f_tid_offset f' = f_tid_offset f"
    "f_level_offset f' = f_level_offset f" "f_last_secs f' = time div 1000000000"
proof -
  let ?o = "f_opts f" and ?s = "time div 1000000000"
  let ?m = "broken_down env (o_utc ?o) ?s"
  obtain r where ok: "hdr_ok ?o r" and h: "f_header f = layout ?o name r"
    and cached: "f_last_secs f \<noteq> 0 \<longrightarrow> set_time (broken_down env (o_utc ?o) (f_last_secs f)) r = r"
    using inv by (auto simp: formatter_inv_def)
  define f1 where "f1 = (if ?s \<noteq> f_last_secs f
    then rebuild_timestamp env ?s (f\<lparr>f_last_secs := ?s\<rparr>) else f)"
  let ?r1 = "set_time ?m r"
  have f1: "f1 = f\<lparr>f_last_secs := ?s, f_header := layout ?o name ?r1\<rparr>"
  proof (cases "?s = f_last_secs f")
    case True
    with cached new h show ?thesis by (auto simp: f1_def)
  next
    case False
    then show ?thesis
      using rebuild_timestamp_layout[of "f\<lparr>f_last_secs := ?s\<rparr>" r name env ?s] ok h y
      by (simp add: f1_def)
  qed
  have secs: "time sdiv 1000000000 = ?s" using t by (simp add: sdiv_nonneg)
  have ns: "time - ?s * 1000000000 = time mod 1000000000" by (simp add: minus_div_mult_eq_mod)
  let ?r2 = "?r1\<lparr>h_frac := dec_digits (frac_width (o_precision ?o))
    (frac_value (o_precision ?o) (time mod 1000000000))\<rparr>"
  let ?r3 = "?r2\<lparr>h_tid := dec_digits 6 (uint (e_tid env) mod 1000000)\<rparr>"
  have ok2: "hdr_ok ?o ?r2" and ok3: "hdr_ok ?o ?r3"
    using set_time_ok[OF ok] by (simp_all add: hdr_ok_def)
  have h1: "put_frac (time mod 1000000000) f1 (f_header f1) = layout ?o name ?r2"
    using put_frac_layout[of f1 ?r1 "time mod 1000000000" name] set_time_ok[OF ok] inv
    by (simp add: f1 formatter_inv_def)
  have h2: "(if o_show_thread_id ?o then put6 (f_tid_offset f1) (ucast (this_thread_id_log (e_tid env)))
      (layout ?o name ?r2) else layout ?o name ?r2) = layout ?o name ?r3"
    using inv by (intro put_tid_layout[OF ok2]) (simp add: f1 formatter_inv_def)
  have tl: "length tag = 3" using to_string_view_width[OF tag] by (simp add: level_width_def)
  have h3: "patch (f_level_offset f1) (take level_width tag) (layout ?o name ?r3) =
      layout ?o name (header_fields env ?o time tag)"
  proof -
    have "patch (level_off ?o name) tag (layout ?o name ?r3) = layout ?o name (?r3\<lparr>h_tag := tag\<rparr>)"
      by (rule patch_tag[OF ok3 tl])
    also have "?r3\<lparr>h_tag := tag\<rparr> = header_fields env ?o time tag"
      by (simp add: header_fields_def set_time_def)
    finally show ?thesis using inv tl by (simp add: f1 formatter_inv_def level_width_def)
  qed
  have o1: "f_opts f1 = ?o" by (simp add: f1)
  define h2' where "h2' = (if o_show_thread_id (f_opts f1)
      then put6 (f_tid_offset f1) (ucast (this_thread_id_log (e_tid env)))
        (put_frac (time mod 1000000000) f1 (f_header f1))
      else put_frac (time mod 1000000000) f1 (f_header f1))"
  have "format_header env time lvl f =
      (let h3 = patch (f_level_offset f1) (take level_width tag) h2'
       in Some (f1\<lparr>f_header := h3\<rparr>, h3))"
    by (simp only: format_header_def secs ns tag Let_def f1_def[symmetric] h2'_def[symmetric]
        option.case)
  moreover have "h2' = layout ?o name ?r3"
    unfolding h2'_def h1 o1 by (rule h2)
  ultimately have "format_header env time lvl f =
      Some (f1\<lparr>f_header := layout ?o name (header_fields env ?o time tag)\<rparr>,
        layout ?o name (header_fields env ?o time tag))"
    by (simp only: h3 Let_def)
  then show thesis by (rule that) (simp_all add: f1)
qed

lemma header_fields_ok: "to_string_view lvl = Some tag \<Longrightarrow> hdr_ok opts (header_fields env opts time tag)"
  by (simp add: header_fields_def set_time_def hdr_ok_def to_string_view_width)

lemma set_time_header_fields:
  "set_time (broken_down env (o_utc opts) (time div 1000000000)) (header_fields env opts time tag) =
   header_fields env opts time tag"
  by (simp add: header_fields_def set_time_def)

lemma formatter_inv_env:
  "e_tz env = e_tz env' \<Longrightarrow> formatter_inv env name f = formatter_inv env' name f"
  by (simp add: formatter_inv_def broken_down_def)

lemma mk_formatter_inv [simp]: "formatter_inv env name (mk_formatter name opts)"
  by (simp add: mk_formatter_def rebuild_header_inv)

lemma mk_formatter_opts [simp]: "f_opts (mk_formatter name opts) = opts"
  by (simp add: mk_formatter_def)

lemma format_header_step:
  assumes "formatter_inv env name f" "0 \<le> time"
    and "time div 1000000000 \<noteq> 0 \<or> f_last_secs f \<noteq> 0"
    and "year_ok env (f_opts f) (time div 1000000000)" and "lvl \<noteq> N_levels"
  shows "\<exists>f' h. format_header env time lvl f = Some (f', h) \<and>
    header_spec env (f_opts f) name time lvl = Some h \<and> formatter_inv env name f' \<and>
    f_opts f' = f_opts f \<and> f_last_secs f' = time div 1000000000 \<and>
    f_level_offset f' = level_off (f_opts f) name"
proof -
  obtain tag where tag: "to_string_view lvl = Some tag"
    using assms(5) to_string_view_None_iff by (cases "to_string_view lvl") auto
  let ?h = "layout (f_opts f) name (header_fields env (f_opts f) time tag)"
  obtain f' where f': "format_header env time lvl f = Some (f', ?h)" "f_header f' = ?h"
    "f_opts f' = f_opts f" "f_frac_offset f' = f_frac_offset f" "f_tid_offset f' = f_tid_offset f"
    "f_level_offset f' = f_level_offset f" "f_last_secs f' = time div 1000000000"
    using format_header_layout[OF assms(1-4) tag] by metis
  have "formatter_inv env name f'"
    using assms(1) f' header_fields_ok[OF tag] set_time_header_fields
    unfolding formatter_inv_def by metis
  with f' assms(1) tag show ?thesis by (simp add: header_spec_def formatter_inv_def)
qed

text \<open>A UTC timestamp before the year 10000 has a four-digit year.\<close>

lemma utc_year_ok:
  assumes "0 \<le> t" "t < 253402300800" and "o_utc opts"
  shows "year_ok env opts t"
proof -
  define z where "z = t div 86400 + 719468"
  obtain y doy where cy: "civil_year z = (y, doy)" by fastforce
  have z: "719468 \<le> z" "z \<le> 3652364" using assms(1,2) unfolding z_def by linarith+
  note r = civil_year_day[OF cy] and e = civil_year_days[OF cy]
  have lo: "1969 \<le> y" using z r e by linarith
  have hi: "y \<le> 9999" using z r e by linarith
  have top: "doy \<le> 305" if "y = 9999" using that z e by simp
  have "10 \<le> civil_month doy \<Longrightarrow> 306 \<le> doy" unfolding civil_month_def by linarith
  with top hi have "\<not> civil_month doy < 10 \<longrightarrow> y < 9999" by force
  with lo hi civil_month_range[OF r]
  show ?thesis
    using assms(3)
    by (auto simp: year_ok_def broken_down_def gmtime_r_def z_def[symmetric] cy Let_def)
qed

section \<open>Properties\<close>

text \<open>
  What happens to a logger's formatter between two lines: a header is asked for, the logger is renamed, or it gets new
  options, which makes a new formatter with the logger's name.  The run returns the headers.
\<close>

datatype fmt_action = Header int level | Rename string | Reconfigure format_options

fun formatter_run ::
    "clock_env \<Rightarrow> string \<Rightarrow> formatter \<Rightarrow> fmt_action list \<Rightarrow> string list option" where
  "formatter_run env name f [] = Some []"
| "formatter_run env name f (Header time lvl # acts) =
     (case format_header env time lvl f of
        None \<Rightarrow> None
      | Some (f', h) \<Rightarrow> map_option ((#) h) (formatter_run env name f' acts))"
| "formatter_run env name f (Rename name' # acts) = formatter_run env name' (set_logger_name name' f) acts"
| "formatter_run env name f (Reconfigure opts # acts) = formatter_run env name (mk_formatter name opts) acts"

text \<open>The headers rendered from scratch, each with the name and the options of its moment.\<close>

fun fresh_headers :: "clock_env \<Rightarrow> string \<Rightarrow> format_options \<Rightarrow> fmt_action list \<Rightarrow> string list" where
  "fresh_headers env name opts [] = []"
| "fresh_headers env name opts (Header time lvl # acts) =
     the (header_spec env opts name time lvl) # fresh_headers env name opts acts"
| "fresh_headers env name opts (Rename name' # acts) = fresh_headers env name' opts acts"
| "fresh_headers env name opts (Reconfigure opts' # acts) = fresh_headers env name opts' acts"

definition call_ok :: "clock_env \<Rightarrow> format_options \<Rightarrow> int \<times> level \<Rightarrow> bool" where
  "call_ok env opts c \<longleftrightarrow> 1000000000 \<le> fst c \<and> year_ok env opts (fst c div 1000000000) \<and>
     snd c \<noteq> N_levels"

fun actions_ok :: "clock_env \<Rightarrow> format_options \<Rightarrow> fmt_action list \<Rightarrow> bool" where
  "actions_ok env opts [] = True"
| "actions_ok env opts (Header time lvl # acts) \<longleftrightarrow> call_ok env opts (time, lvl) \<and> actions_ok env opts acts"
| "actions_ok env opts (Rename name # acts) \<longleftrightarrow> actions_ok env opts acts"
| "actions_ok env opts (Reconfigure opts' # acts) \<longleftrightarrow> actions_ok env opts' acts"

lemma formatter_run_fresh:
  assumes "formatter_inv env name f" and "actions_ok env (f_opts f) acts"
  shows "formatter_run env name f acts = Some (fresh_headers env name (f_opts f) acts)"
  using assms
proof (induction acts arbitrary: name f)
  case Nil
  then show ?case by simp
next
  case (Cons act acts)
  show ?case
  proof (cases act)
    case (Header time lvl)
    with Cons.prems have ok: "1000000000 \<le> time" "year_ok env (f_opts f) (time div 1000000000)" "lvl \<noteq> N_levels"
      by (auto simp: call_ok_def)
    have "time div 1000000000 \<noteq> 0" "0 \<le> time" using ok(1) by auto
    then obtain f' h where "format_header env time lvl f = Some (f', h)"
        "header_spec env (f_opts f) name time lvl = Some h" "formatter_inv env name f'"
        "f_opts f' = f_opts f"
      using format_header_step[OF Cons.prems(1) _ _ ok(2,3)] by blast
    with Cons.IH[of name f'] Cons.prems(2) show ?thesis by (simp add: Header)
  next
    case (Rename name')
    then show ?thesis using Cons.IH[of name' "set_logger_name name' f"] Cons.prems(2)
      by (simp add: set_logger_name_def rebuild_header_inv)
  next
    case (Reconfigure opts)
    then show ?thesis using Cons.IH[of name "mk_formatter name opts"] Cons.prems(2) by simp
  qed
qed

text \<open>C3: the cached header is never stale.  Whatever headers a formatter has served, in whatever time order, and however
  often the logger was renamed or got other options in between, every header is the one rendered from scratch for
  the call's time and level and the name and options of that moment (for times from one second after the epoch whose
  year has four digits).\<close>

theorem format_headers_fresh:
  assumes "actions_ok env opts acts"
  shows "formatter_run env name (mk_formatter name opts) acts = Some (fresh_headers env name opts acts)"
  using formatter_run_fresh[of env name "mk_formatter name opts" acts] assms by simp

definition utc_env :: clock_env where
  "utc_env = \<lparr>e_tz = (\<lambda>_. 0), e_tid = 77\<rparr>"

lemma utc_tm_examples:
  "gmtime_r 1775817045 = \<lparr>tm_year = 126, tm_mon = 3, tm_mday = 10, tm_hour = 10, tm_min = 30, tm_sec = 45\<rparr>"
  "gmtime_r 1775817044 = \<lparr>tm_year = 126, tm_mon = 3, tm_mday = 10, tm_hour = 10, tm_min = 30, tm_sec = 44\<rparr>"
  by code_simp+

lemmas header_eval = header_spec_def layout_def header_fields_def set_time_def broken_down_def
  localtime_r_def default_format_options_def frac_value_def dec_digits_2 dec_digits_3 dec_digits_4
  utc_tm_examples utc_env_def year_ok_def call_ok_def

theorem format_headers_fresh_witness:
  "formatter_run utc_env ''app'' (mk_formatter ''app'' default_format_options)
     [Header 1775817045123000000 Warn, Rename ''db'', Header 1775817045124000000 Info,
      Reconfigure (default_format_options\<lparr>o_show_date := False, o_precision := P_none\<rparr>), Header 1775817045124000000 Err] =
   Some [''[2026-04-10 10:30:45.123] [app] [WRN] '', ''[2026-04-10 10:30:45.124] [db] [INF] '',
         ''[10:30:45] [db] [ERR] '']"
proof -
  have ok: "actions_ok utc_env default_format_options
     [Header 1775817045123000000 Warn, Rename ''db'', Header 1775817045124000000 Info,
      Reconfigure (default_format_options\<lparr>o_show_date := False, o_precision := P_none\<rparr>), Header 1775817045124000000 Err]"
    by (simp add: header_eval)
  show ?thesis
    unfolding format_headers_fresh[OF ok] by (simp add: header_eval)
qed

text \<open>The level tag is found at \<open>level_offset()\<close>: the three bytes there, which the colour
  sinks wrap, are the tag of the message's level, and the header ends two bytes later.\<close>

theorem level_offset_points_at_tag:
  assumes "formatter_inv env name f" "0 \<le> time"
    and "time div 1000000000 \<noteq> 0 \<or> f_last_secs f \<noteq> 0"
    and "year_ok env (f_opts f) (time div 1000000000)" and "lvl \<noteq> N_levels"
    and "format_header env time lvl f = Some (f', h)"
  shows "to_string_view lvl = Some (take level_width (drop (f_level_offset f') h)) \<and>
    length h = f_level_offset f' + level_width + 2"
proof -
  obtain tag where tag: "to_string_view lvl = Some tag"
    using assms(5) to_string_view_None_iff by (cases "to_string_view lvl") auto
  let ?r = "header_fields env (f_opts f) time tag"
  have h: "h = layout (f_opts f) name ?r" and l: "f_level_offset f' = level_off (f_opts f) name"
    using format_header_step[OF assms(1-5)] assms(6) tag by (auto simp: header_spec_def)
  note ok = header_fields_ok[OF tag, of "f_opts f" env time]
  have "length (lay_time (f_opts f) ?r @ lay_frac (f_opts f) ?r @ lay_tid (f_opts f) ?r @ lay_name name)
      = level_off (f_opts f) name"
    using ok by (simp add: lay_lengths level_off_def)
  then have "drop (level_off (f_opts f) name) h = h_tag ?r @ ''] ''"
    by (simp add: h layout_parts)
  moreover have "h_tag ?r = tag" by (simp add: header_fields_def set_time_def)
  ultimately show ?thesis
    using to_string_view_width[OF tag] tag l length_layout[OF ok, of name]
    by (simp add: h level_width_def)
qed

theorem level_offset_points_at_tag_witness:
  "\<exists>f' h. format_header utc_env 1775817045123000000 Warn (mk_formatter ''app'' default_format_options) = Some (f', h) \<and>
     take level_width (drop (f_level_offset f') h) = ''WRN'' \<and> length h = f_level_offset f' + level_width + 2"
proof -
  let ?f = "mk_formatter ''app'' default_format_options"
  have y: "year_ok utc_env (f_opts ?f) (1775817045123000000 div 1000000000)"
    by (simp add: header_eval)
  obtain f' h where h: "format_header utc_env 1775817045123000000 Warn ?f = Some (f', h)"
    using format_header_step[OF mk_formatter_inv, of 1775817045123000000 "''app''"
        default_format_options utc_env Warn] y by auto
  have "to_string_view Warn = Some (take level_width (drop (f_level_offset f') h)) \<and>
      length h = f_level_offset f' + level_width + 2"
    by (rule level_offset_points_at_tag[OF mk_formatter_inv _ _ y _ h]) simp_all
  moreover have "to_string_view Warn = Some ''WRN''" by code_simp
  ultimately show ?thesis using h by auto
qed

end
