(* ===== verification/Rotating.thy ===== *)
theory Rotating
  imports Sinks
begin

text \<open>
  \<open>include/spdlite/sinks/rotating_file_sink.h\<close>: the size-bounded log file with numbered
  archives.  \<open>std::size_t\<close> values are naturals below \<open>2^64\<close> with the wrap-around written
  out.  An operation that may throw returns the exception beside the sink it leaves behind.
\<close>

section \<open>State\<close>

definition size_max :: nat where "size_max = 2 ^ 64 - 1"

definition sz_add :: "nat \<Rightarrow> nat \<Rightarrow> nat" where
  "sz_add a b = (a + b) mod 2 ^ 64"

definition sz_sub :: "nat \<Rightarrow> nat \<Rightarrow> nat" where
  "sz_sub a b = (a + 2 ^ 64 - b) mod 2 ^ 64"

lemma sz_add_small [simp]: "a + b < 2 ^ 64 \<Longrightarrow> sz_add a b = a + b"
  by (simp add: sz_add_def)

lemma sz_sub_small [simp]: "b \<le> a \<Longrightarrow> a < 2 ^ 64 \<Longrightarrow> sz_sub a b = a - b"
proof -
  assume "b \<le> a" "a < 2 ^ 64"
  then have "a + 2 ^ 64 - b = (a - b) + 2 ^ 64" "a - b < 2 ^ 64" by simp_all
  then show ?thesis by (simp only: sz_sub_def mod_add_self2 mod_less)
qed

definition max_files_limit :: nat where "max_files_limit = 1000"

record rotating_sink =
  r_base :: string
  r_max_size :: nat
  r_max_files :: nat
  r_current_size :: nat
  r_next_index :: nat
  r_file :: "nat option"

section \<open>Archive names\<close>

definition archive_name :: "string \<Rightarrow> nat \<Rightarrow> string" where
  "archive_name base n = path_stem base @ [dot] @ dec_string n @ path_extension base"

definition archive_path :: "string \<Rightarrow> nat \<Rightarrow> string" where
  "archive_path base n =
     (let dir = path_parent base; name = archive_name base n
      in if dir = [] then name else path_join dir name)"

text \<open>The digit loop, with its overflow guard.\<close>

fun parse_digits :: "string \<Rightarrow> nat \<Rightarrow> nat option" where
  "parse_digits [] value = Some value"
| "parse_digits (c # cs) value =
     (if \<not> is_digit c then None
      else let digit = digit_val c
           in if value > (size_max - digit) div 10 then None
              else parse_digits cs (value * 10 + digit))"

definition parse_archive_index :: "string \<Rightarrow> string \<Rightarrow> string \<Rightarrow> nat option" where
  "parse_archive_index filepath base_stem base_ext =
     (if base_ext \<noteq> [] \<and> path_extension filepath \<noteq> base_ext then None
      else let inner = (if base_ext = [] then filepath else path_stem filepath)
           in if path_stem inner \<noteq> base_stem then None
              else let dot_digits = path_extension inner
                   in if length dot_digits < 2 \<or> dot_digits ! 0 \<noteq> dot then None
                      else case parse_digits (drop 1 dot_digits) 0 of
                             None \<Rightarrow> None
                           | Some value \<Rightarrow>
                               if value = 0 \<or> value = size_max then None else Some value)"

text \<open>The loop accepts exactly the digit strings whose value fits a \<open>size_t\<close>.\<close>

lemma parse_digits_eq:
  "v \<le> size_max \<Longrightarrow> parse_digits s v =
    (if list_all is_digit s \<and> v * 10 ^ length s + dec_val s \<le> size_max
     then Some (v * 10 ^ length s + dec_val s) else None)"
proof (induction s arbitrary: v)
  case Nil
  then show ?case by simp
next
  case (Cons c s)
  show ?case
  proof (cases "is_digit c")
    case False
    then show ?thesis by simp
  next
    case True
    note d = digit_val_le[OF True]
    have sm: "9 \<le> size_max" by (simp add: size_max_def)
    have guard: "v > (size_max - digit_val c) div 10 \<longleftrightarrow> v * 10 + digit_val c > size_max"
      using d sm by linarith
    have eq: "v * 10 ^ length (c # s) + dec_val (c # s) =
        (v * 10 + digit_val c) * 10 ^ length s + dec_val s"
      by (simp add: dec_val_Cons algebra_simps)
    have "v * 10 + digit_val c \<le> (v * 10 + digit_val c) * 10 ^ length s + dec_val s"
      by (metis le_add1 mult_le_mono2 nat_mult_1_right one_le_numeral one_le_power order_trans)
    with Cons.IH[of "v * 10 + digit_val c"] True guard show ?thesis
      unfolding eq by (auto simp: Let_def)
  qed
qed

lemma archive_name_no_slash: "slash \<notin> set (archive_name base n)"
proof -
  have "slash \<notin> set (path_stem base @ path_extension base)"
    unfolding stem_ext_append by (rule slash_not_in_filename)
  moreover have "slash \<notin> set (dec_string n)"
    using dec_string_digits[of slash n] by (auto simp: is_digit_iff slash_def)
  ultimately show ?thesis by (auto simp: archive_name_def slash_def dot_def)
qed

lemma archive_key: "fs_key (archive_path base n) = (fs_dir (path_parent base), archive_name base n)"
proof -
  have "archive_path base n = path_join (path_parent base) (archive_name base n)"
    by (simp add: archive_path_def Let_def path_join_def)
  then show ?thesis by (simp add: fs_key_beside archive_name_no_slash)
qed

lemma archive_key_inj [simp]:
  "fs_key (archive_path base m) = fs_key (archive_path base n) \<longleftrightarrow> m = n"
  by (simp add: archive_key archive_name_def)

lemma archive_key_base [simp]: "fs_key (archive_path base n) \<noteq> fs_key base"
proof
  assume "fs_key (archive_path base n) = fs_key base"
  then have "archive_name base n = path_filename base"
    unfolding archive_key fs_key_def[of base] by simp
  then have "length (archive_name base n) = length (path_stem base @ path_extension base)"
    unfolding stem_ext_append by (rule arg_cong)
  then show False by (simp add: archive_name_def)
qed

lemma base_key_archive [simp]: "fs_key base \<noteq> fs_key (archive_path base n)"
  by (rule archive_key_base[symmetric])

lemma digits_no_dot: "dot \<notin> set (dec_string n)"
  using dec_string_digits[of dot n] by (auto simp: is_digit_iff dot_def)

lemma name_cut:
  assumes "s \<noteq> []" "dot \<notin> set e" "e \<noteq> []" "slash \<notin> set (s @ dot # e)"
  shows "path_stem (s @ dot # e) = s" "path_extension (s @ dot # e) = dot # e"
  using assms name_stem_len_append[of s e]
  by (simp_all add: path_stem_def path_extension_def path_filename_no_slash)

lemma archive_name_parses:
  assumes "path_filename base \<noteq> []" and "0 < n" and "n < size_max"
  shows "parse_archive_index (archive_name base n) (path_stem base) (path_extension base) = Some n"
proof -
  let ?s = "path_stem base" and ?e = "path_extension base" and ?inner = "path_stem base @ dot # dec_string n"
  have stem: "?s \<noteq> []"
    using assms(1) by (auto simp: path_stem_def name_stem_len_def Let_def)
  have ns: "slash \<notin> set (?inner @ ?e)"
    using archive_name_no_slash[of base n] by (simp add: archive_name_def)
  have name: "archive_name base n = ?inner @ ?e" by (simp add: archive_name_def)
  have in_s: "path_stem ?inner = ?s" "path_extension ?inner = dot # dec_string n"
    using ns by (intro name_cut stem digits_no_dot dec_string_not_Nil; simp)+
  have digits: "parse_digits (dec_string n) 0 = Some n"
    using assms(3) dec_string_digits by (simp add: parse_digits_eq list_all_iff)
  have len: "\<not> length (dot # dec_string n) < 2"
    using dec_string_not_Nil[of n] by (cases "dec_string n") simp_all
  have inner: "(if ?e = [] then archive_name base n else path_stem (archive_name base n)) = ?inner \<and>
      (?e \<noteq> [] \<longrightarrow> path_extension (archive_name base n) = ?e)"
  proof (cases "?e = []")
    case True
    then show ?thesis by (simp add: name)
  next
    case False
    then obtain e where e: "?e = dot # e" "dot \<notin> set e"
      using path_extension_cases[of base] by auto
    have st: "name_stem_len (?inner @ dot # e) = length ?inner"
      using e(2) stem by (intro name_stem_len_append) (auto simp: append_eq_Cons_conv)
    have fn: "path_filename (?inner @ dot # e) = ?inner @ dot # e"
      using ns unfolding e(1) by (rule path_filename_no_slash)
    have "path_stem (?inner @ dot # e) = ?inner" "path_extension (?inner @ dot # e) = dot # e"
      unfolding path_stem_def[of "?inner @ dot # e"] path_extension_def[of "?inner @ dot # e"] fn st
      by simp_all
    with False show ?thesis unfolding name e(1) by simp
  qed
  then show ?thesis
    using assms(2,3) in_s digits len by (auto simp: parse_archive_index_def Let_def)
qed

text \<open>C28: the name of an archive parses back to its number: what \<open>archive_path_\<close> creates is
  what \<open>scan_and_prune_archives_\<close> recognises after a restart, for every base file and
  every number the sink can use.\<close>

theorem archive_name_roundtrip:
  assumes "path_filename base \<noteq> []" and "0 < n" and "n < size_max"
  shows "parse_archive_index (archive_name base n) (path_stem base) (path_extension base) = Some n"
  using assms by (rule archive_name_parses)

theorem archive_name_roundtrip_witness:
  "parse_archive_index (archive_name ''logs/app.txt'' 12) ''app'' ''.txt'' = Some 12"
proof -
  have "path_filename ''logs/app.txt'' \<noteq> []" "path_stem ''logs/app.txt'' = ''app''"
    "path_extension ''logs/app.txt'' = ''.txt''"
    by (simp_all add: path_filename_def slash_def dot_def path_stem_def path_extension_def
        name_stem_len_def)
  with archive_name_roundtrip[of "''logs/app.txt''" 12] show ?thesis
    by (simp add: size_max_def)
qed

section \<open>Operations\<close>

type_synonym 'a outcome = "exn option \<times> 'a \<times> world"

text \<open>\<open>open_\<close>; \<open>file_.reset(fp)\<close> closes the stream held before.\<close>

definition rot_open :: "bool \<Rightarrow> rotating_sink \<Rightarrow> world \<Rightarrow> rotating_sink outcome" where
  "rot_open trunc s w =
     (case fopen (r_base s) trunc w of
        (None, w) \<Rightarrow> (Some (Runtime_error (''spdlite: failed to open file: '' @ r_base s)), s, w)
      | (Some fp, w) \<Rightarrow> (None, s\<lparr>r_file := Some fp\<rparr>, file_closer (r_file s) w))"

definition max_attempts :: nat where "max_attempts = 5"

fun rename_attempts :: "nat \<Rightarrow> string \<Rightarrow> string \<Rightarrow> world \<Rightarrow> bool \<times> world" where
  "rename_attempts 0 src dst w = (False, w)"
| "rename_attempts (Suc attempts) src dst w =
     (let w = snd (fs_remove dst w);
          (ok, w) = fs_rename src dst w
      in if ok then (True, w) else rename_attempts attempts src dst w)"

definition try_rename :: "string \<Rightarrow> string \<Rightarrow> world \<Rightarrow> bool \<times> world" where
  "try_rename src dst w = rename_attempts max_attempts src dst w"

definition rotate :: "rotating_sink \<Rightarrow> world \<Rightarrow> rotating_sink outcome" where
  "rotate s w =
     (let w = file_closer (r_file s) w;
          s = s\<lparr>r_file := None\<rparr>;
          archive = archive_path (r_base s) (r_next_index s);
          (renamed, w) = try_rename (r_base s) archive w
      in if \<not> renamed then
           (case rot_open True s w of
              (Some e, s, w) \<Rightarrow> (Some e, s, w)
            | (None, s, w) \<Rightarrow> (None, s\<lparr>r_current_size := 0\<rparr>, w))
         else
           let s = s\<lparr>r_next_index := sz_add (r_next_index s) 1\<rparr>;
               w = (if r_next_index s > sz_add (r_max_files s) 1
                    then snd (fs_remove (archive_path (r_base s)
                           (sz_sub (sz_sub (r_next_index s) (r_max_files s)) 1)) w)
                    else w)
           in case rot_open False s w of
                (Some e, s, w) \<Rightarrow> (Some e, s, w)
              | (None, s, w) \<Rightarrow> (None, s\<lparr>r_current_size := 0\<rparr>, w))"

text \<open>The last part of \<open>write\<close>: the record goes to the active file, and counts if it was
  accepted whole.\<close>

definition rot_store :: "string \<Rightarrow> nat \<Rightarrow> nat \<Rightarrow> rotating_sink \<Rightarrow> world \<Rightarrow> rotating_sink outcome" where
  "rot_store line new_size fp s w =
     (case fwrite_bytes line fp w of
        (ok, w) \<Rightarrow> (None, if ok then s\<lparr>r_current_size := new_size\<rparr> else s, w))"

definition rot_write :: "log_msg \<Rightarrow> rotating_sink \<Rightarrow> world \<Rightarrow> rotating_sink outcome" where
  "rot_write m s w =
     (case r_file s of
        None \<Rightarrow> (None, s, w)
      | Some fp \<Rightarrow>
          let bytes = length (m_formatted m);
              new_size = sz_add (r_current_size s) bytes
          in if new_size > r_max_size s \<and> r_current_size s > 0 then
               (case rotate s (fflush fp w) of
                  (Some e, s, w) \<Rightarrow> (Some e, s, w)
                | (None, s, w) \<Rightarrow>
                    (case r_file s of
                       None \<Rightarrow> (None, s, w)
                     | Some fp \<Rightarrow> rot_store (m_formatted m) bytes fp s w))
             else rot_store (m_formatted m) new_size fp s w)"

definition rot_flush :: "rotating_sink \<Rightarrow> world \<Rightarrow> world" where
  "rot_flush s w = (case r_file s of None \<Rightarrow> w | Some fp \<Rightarrow> fflush fp w)"

subsection \<open>Start-up\<close>

text \<open>
  The two passes of \<open>scan_and_prune_archives_\<close>.  A link or a directory is passed over.  The
  second pass shares one \<open>error_code\<close> between the iteration and the removals: after a removal
  that failed it stops.  Opening the directory may fail.  Once it is open, its entries and their types come from
  one listing, so the increments of the iterator and the questions for the type of an entry do
  not fail in the model; what they may throw, when an entry goes away meanwhile, is left out.
\<close>

fun highest_index :: "string \<Rightarrow> string \<Rightarrow> (string \<times> node) list \<Rightarrow> nat \<Rightarrow> nat" where
  "highest_index stem ext [] highest = highest"
| "highest_index stem ext ((name, nd) # entries) highest =
     (case nd of
        Regular c \<Rightarrow>
          (case parse_archive_index name stem ext of
             Some n \<Rightarrow> highest_index stem ext entries (if n > highest then n else highest)
           | None \<Rightarrow> highest_index stem ext entries highest)
      | Symlink k \<Rightarrow> highest_index stem ext entries highest
      | Directory \<Rightarrow> highest_index stem ext entries highest)"

fun prune :: "string \<Rightarrow> string \<Rightarrow> string \<Rightarrow> nat \<Rightarrow> (string \<times> node) list \<Rightarrow> bool \<Rightarrow> world \<Rightarrow> world" where
  "prune parent stem ext lowest_keep [] ec w = w"
| "prune parent stem ext lowest_keep ((name, nd) # entries) ec w =
     (if ec then w
      else case nd of
        Regular c \<Rightarrow>
          (case parse_archive_index name stem ext of
             Some n \<Rightarrow>
               if n < lowest_keep then
                 (let (ok, w) = fs_remove (path_join parent name) w
                  in prune parent stem ext lowest_keep entries (\<not> ok) w)
               else prune parent stem ext lowest_keep entries ec w
           | None \<Rightarrow> prune parent stem ext lowest_keep entries ec w)
      | Symlink k \<Rightarrow> prune parent stem ext lowest_keep entries ec w
      | Directory \<Rightarrow> prune parent stem ext lowest_keep entries ec w)"

text \<open>Opening the directory for a pass may fail, which is an empty pass.\<close>

definition open_dir :: "string \<Rightarrow> world \<Rightarrow> (string \<times> node) list \<times> world" where
  "open_dir d w = (let (ok, w) = ask w in (if ok then dir_entries w d else [], w))"

definition scan_and_prune_archives :: "string \<Rightarrow> nat \<Rightarrow> world \<Rightarrow> nat \<times> world" where
  "scan_and_prune_archives base max_files w =
     (let parent = (if path_parent base = [] then [dot] else path_parent base)
      in if \<not> fs_exists parent w then (0, w)
         else let stem = path_stem base; ext = path_extension base;
                  (entries, w) = open_dir parent w;
                  highest = highest_index stem ext entries 0
              in if highest = 0 then (0, w)
                 else if highest > max_files then
                   let lowest_keep = sz_add (sz_sub highest max_files) 1;
                       (entries, w) = open_dir parent w
                   in (highest, prune parent stem ext lowest_keep entries False w)
                 else (highest, w))"

definition mk_rotating_sink :: "string \<Rightarrow> nat \<Rightarrow> nat \<Rightarrow> world \<Rightarrow> (exn + rotating_sink) \<times> world" where
  "mk_rotating_sink base max_size max_files w =
     (if base = [] then (Inl (Invalid_argument ''rotating_file_sink: base_filename must not be empty''), w)
      else if max_size = 0 then (Inl (Invalid_argument ''rotating_file_sink: max_size must be > 0''), w)
      else if max_files > max_files_limit then
        (Inl (Invalid_argument ''rotating_file_sink: max_files exceeds max_files_limit (1000)''), w)
      else
        let parent = path_parent base;
            (r, w) = (if parent \<noteq> [] then create_directories parent w else (Inr (), w))
        in case r of
             Inl e \<Rightarrow> (Inl e, w)
           | Inr _ \<Rightarrow>
               let (highest, w) = scan_and_prune_archives base max_files w;
                   (sz, w) = file_size base w;
                   s = \<lparr>r_base = base, r_max_size = max_size, r_max_files = max_files,
                        r_current_size = (case sz of None \<Rightarrow> 0 | Some n \<Rightarrow> n mod 2 ^ 64),
                        r_next_index = sz_add highest 1, r_file = None\<rparr>
               in case rot_open False s w of
                    (Some e, s, w) \<Rightarrow> (Inl e, w)
                  | (None, s, w) \<Rightarrow> (Inr s, w))"

end
