(* ===== verification/Logger.thy ===== *)
theory Logger
  imports Formatter Console Rotating
begin

text \<open>
  \<open>include/spdlite/logger.h\<close> and \<open>sinks/shared_sink.h\<close> (POSIX build, bundled fmt): the logger's
  state and all its operations.  \<open>std::tuple<Sinks...>\<close> is a list of sinks, visited in order.
  \<open>None\<close> is a call whose behaviour is undefined: a failed assertion or a null \<open>FILE*\<close>.
\<close>

section \<open>Sinks of a logger\<close>

text \<open>\<open>Moved_sink\<close> is what is left of a sink whose \<open>unique_ptr\<close> was moved out.\<close>

datatype base_sink =
    Null_sink
  | Stdout_sink stdout_sink
  | File_sink file_sink
  | Console_sink console_sink
  | Rotating_sink rotating_sink
  | Moved_sink

datatype sink = Own base_sink | Shared_sink nat

text \<open>The sinks behind the \<open>shared_ptr\<close>s of \<open>shared_sink\<close>, by address.\<close>

record system =
  y_world :: world
  y_shared :: "(nat \<times> base_sink) list"

fun base_write :: "log_msg \<Rightarrow> base_sink \<Rightarrow> world \<Rightarrow> base_sink outcome option" where
  "base_write m Null_sink w = (let (s, w) = null_write m () w in Some (None, Null_sink, w))"
| "base_write m (Stdout_sink s) w = (let (s, w) = stdout_write m s w in Some (None, Stdout_sink s, w))"
| "base_write m (File_sink s) w = (let (s, w) = file_write m s w in Some (None, File_sink s, w))"
| "base_write m (Console_sink s) w = (let (s, w) = console_write m s w in Some (None, Console_sink s, w))"
| "base_write m (Rotating_sink s) w = (let (e, s, w) = rot_write m s w in Some (e, Rotating_sink s, w))"
| "base_write m Moved_sink w = None"

fun base_flush :: "base_sink \<Rightarrow> world \<Rightarrow> world option" where
  "base_flush Null_sink w = Some (null_flush () w)"
| "base_flush (Stdout_sink s) w = Some (stdout_flush s w)"
| "base_flush (File_sink s) w = Some (file_flush s w)"
| "base_flush (Console_sink s) w = Some (console_flush s w)"
| "base_flush (Rotating_sink s) w = Some (rot_flush s w)"
| "base_flush Moved_sink w = None"

text \<open>\<open>shared_sink::write\<close> and \<open>flush\<close>: through the pointer, under the sink's own lock.\<close>

definition shared_write :: "log_msg \<Rightarrow> nat \<Rightarrow> system \<Rightarrow> (exn option \<times> system) option" where
  "shared_write m p y =
     (case map_of (y_shared y) p of
        None \<Rightarrow> None
      | Some b \<Rightarrow>
          (case base_write m b (y_world y) of
             None \<Rightarrow> None
           | Some (e, b, w) \<Rightarrow> Some (e, y\<lparr>y_world := w, y_shared := AList.update p b (y_shared y)\<rparr>)))"

definition shared_flush :: "nat \<Rightarrow> system \<Rightarrow> system option" where
  "shared_flush p y =
     (case map_of (y_shared y) p of
        None \<Rightarrow> None
      | Some b \<Rightarrow>
          (case base_flush b (y_world y) of None \<Rightarrow> None | Some w \<Rightarrow> Some (y\<lparr>y_world := w\<rparr>)))"

fun sink_write :: "log_msg \<Rightarrow> sink \<Rightarrow> system \<Rightarrow> (exn option \<times> sink \<times> system) option" where
  "sink_write m (Own b) y =
     (case base_write m b (y_world y) of
        None \<Rightarrow> None
      | Some (e, b, w) \<Rightarrow> Some (e, Own b, y\<lparr>y_world := w\<rparr>))"
| "sink_write m (Shared_sink p) y =
     (case shared_write m p y of None \<Rightarrow> None | Some (e, y) \<Rightarrow> Some (e, Shared_sink p, y))"

fun sink_flush :: "sink \<Rightarrow> system \<Rightarrow> system option" where
  "sink_flush (Own b) y =
     (case base_flush b (y_world y) of None \<Rightarrow> None | Some w \<Rightarrow> Some (y\<lparr>y_world := w\<rparr>))"
| "sink_flush (Shared_sink p) y = shared_flush p y"

text \<open>\<open>(s.write(msg), ...)\<close>: an exception leaves the remaining sinks out.\<close>

fun write_sinks :: "log_msg \<Rightarrow> sink list \<Rightarrow> system \<Rightarrow> (exn option \<times> sink list \<times> system) option" where
  "write_sinks m [] y = Some (None, [], y)"
| "write_sinks m (s # ss) y =
     (case sink_write m s y of
        None \<Rightarrow> None
      | Some (Some e, s, y) \<Rightarrow> Some (Some e, s # ss, y)
      | Some (None, s, y) \<Rightarrow>
          (case write_sinks m ss y of None \<Rightarrow> None | Some (e, ss, y) \<Rightarrow> Some (e, s # ss, y)))"

fun flush_sinks :: "sink list \<Rightarrow> system \<Rightarrow> system option" where
  "flush_sinks [] y = Some y"
| "flush_sinks (s # ss) y = (case sink_flush s y of None \<Rightarrow> None | Some y \<Rightarrow> flush_sinks ss y)"

section \<open>State\<close>

record logger =
  g_name :: string
  g_level :: level
  g_flush_level :: level
  g_formatter :: formatter
  g_buf :: membuf
  g_sinks :: "sink list"

definition mk_logger :: "string \<Rightarrow> sink list \<Rightarrow> logger" where
  "mk_logger name sinks =
     \<lparr>g_name = name, g_level = Info, g_flush_level = Off,
      g_formatter = mk_formatter name default_format_options, g_buf = mb_new memory_buf_size,
      g_sinks = sinks\<rparr>"

fun moved_from :: "sink \<Rightarrow> sink" where
  "moved_from (Own (File_sink s)) = Own Moved_sink"
| "moved_from (Own (Rotating_sink s)) = Own (Rotating_sink (s\<lparr>r_file := None\<rparr>))"
| "moved_from (Shared_sink p) = Own Moved_sink"
| "moved_from s = s"

text \<open>The move constructor: the new logger and the one moved from.\<close>

definition move_logger :: "logger \<Rightarrow> logger \<times> logger" where
  "move_logger g =
     (let (new_buf, old_buf) = mb_move memory_buf_size (g_buf g)
      in (g\<lparr>g_buf := new_buf\<rparr>,
          g\<lparr>g_name := [], g_formatter := (g_formatter g)\<lparr>f_header := []\<rparr>, g_buf := old_buf,
            g_sinks := map moved_from (g_sinks g), g_level := Off\<rparr>))"

definition should_log :: "level \<Rightarrow> logger \<Rightarrow> bool" where
  "should_log lvl g \<longleftrightarrow> lvl \<ge> g_level g"

definition should_flush :: "level \<Rightarrow> logger \<Rightarrow> bool" where
  "should_flush lvl g \<longleftrightarrow> lvl \<ge> g_flush_level g"

definition set_log_level :: "level \<Rightarrow> logger \<Rightarrow> logger" where
  "set_log_level lvl g = g\<lparr>g_level := lvl\<rparr>"

definition set_flush_level :: "level \<Rightarrow> logger \<Rightarrow> logger" where
  "set_flush_level lvl g = g\<lparr>g_flush_level := lvl\<rparr>"

definition set_name :: "string \<Rightarrow> logger \<Rightarrow> logger" where
  "set_name new_name g =
     g\<lparr>g_name := new_name, g_formatter := set_logger_name new_name (g_formatter g)\<rparr>"

definition set_format_options :: "format_options \<Rightarrow> logger \<Rightarrow> logger" where
  "set_format_options opts g = g\<lparr>g_formatter := mk_formatter (g_name g) opts\<rparr>"

definition flush_logger :: "logger \<Rightarrow> system \<Rightarrow> system option" where
  "flush_logger g y = flush_sinks (g_sinks g) y"

section \<open>Logging a line\<close>

fun exn_what :: "exn \<Rightarrow> string" where
  "exn_what (Runtime_error s) = s"
| "exn_what (Invalid_argument s) = s"
| "exn_what (Filesystem_error s) = s"
| "exn_what (Format_error s) = s"

text \<open>The \<open>catch\<close> clause.\<close>

definition report :: "exn \<Rightarrow> system \<Rightarrow> system" where
  "report e y = y\<lparr>y_world :=
     snd (fwrite (''spdlite: log error: '' @ exn_what e @ ''\<newline>'') stderr_h (y_world y))\<rparr>"

text \<open>From the end of the payload on: newline, descriptor, sinks, flush.  \<open>start\<close> is
  \<open>payload_start\<close>.\<close>

definition deliver ::
    "int \<Rightarrow> level \<Rightarrow> nat \<Rightarrow> logger \<Rightarrow> system \<Rightarrow> (exn option \<times> logger \<times> system) option" where
  "deliver now lvl start g y =
     (let payload_end = b_size (g_buf g);
          b = mb_push_back (CHR 0x0A) (g_buf g);
          formatted = mb_view b;
          payload = take (payload_end - start) (drop start formatted);
          msg = mk_log_msg now (g_name g) lvl formatted payload (f_level_offset (g_formatter g))
      in case write_sinks msg (g_sinks g) y of
           None \<Rightarrow> None
         | Some (e, ss, y) \<Rightarrow>
             let g = g\<lparr>g_buf := b, g_sinks := ss\<rparr>
             in if e = None \<and> should_flush lvl g
                then (case flush_sinks ss y of None \<Rightarrow> None | Some y \<Rightarrow> Some (None, g, y))
                else Some (e, g, y))"

definition catch :: "(exn option \<times> logger \<times> system) option \<Rightarrow> (logger \<times> system) option" where
  "catch r = (case r of
      None \<Rightarrow> None
    | Some (None, g, y) \<Rightarrow> Some (g, y)
    | Some (Some e, g, y) \<Rightarrow> Some (g, report e y))"

definition log_sv :: "clock_env \<Rightarrow> int \<Rightarrow> level \<Rightarrow> string \<Rightarrow> logger \<Rightarrow> system \<Rightarrow> (logger \<times> system) option" where
  "log_sv env now lvl sv g y =
     catch (let b = buf_clear (g_buf g)
            in case format_header env now lvl (g_formatter g) of
                 None \<Rightarrow> None
               | Some (f, h) \<Rightarrow>
                   let b = mb_app h b; payload_start = b_size b; b = mb_app sv b
                   in deliver now lvl payload_start (g\<lparr>g_formatter := f, g_buf := b\<rparr>) y)"

text \<open>
  \<open>vformat\<close> is \<open>fmt::vformat_to\<close>: what it appends for a format string and its arguments, and the
  exception that ended it, if any.
\<close>

definition log_fmt_args ::
    "(string \<Rightarrow> 'arg list \<Rightarrow> string \<times> exn option) \<Rightarrow> clock_env \<Rightarrow> int \<Rightarrow> level \<Rightarrow> string \<Rightarrow> 'arg list \<Rightarrow>
     logger \<Rightarrow> system \<Rightarrow> (logger \<times> system) option" where
  "log_fmt_args vformat env now lvl fmt args g y =
     catch (let b = buf_clear (g_buf g)
            in case format_header env now lvl (g_formatter g) of
                 None \<Rightarrow> None
               | Some (f, h) \<Rightarrow>
                   let b = mb_app h b; payload_start = b_size b; (text, e) = vformat fmt args;
                       b = mb_app text b; g = g\<lparr>g_formatter := f, g_buf := b\<rparr>
                   in case e of
                        Some x \<Rightarrow> Some (Some x, g, y)
                      | None \<Rightarrow> deliver now lvl payload_start g y)"

text \<open>The public entry points.\<close>

definition log_text :: "clock_env \<Rightarrow> int \<Rightarrow> level \<Rightarrow> string \<Rightarrow> logger \<Rightarrow> system \<Rightarrow> (logger \<times> system) option" where
  "log_text env now lvl msg g y = (if should_log lvl g then log_sv env now lvl msg g y else Some (g, y))"

definition log_fmt ::
    "(string \<Rightarrow> 'arg list \<Rightarrow> string \<times> exn option) \<Rightarrow> clock_env \<Rightarrow> int \<Rightarrow> level \<Rightarrow> string \<Rightarrow> 'arg list \<Rightarrow>
     logger \<Rightarrow> system \<Rightarrow> (logger \<times> system) option" where
  "log_fmt vformat env now lvl fmt args g y =
     (if should_log lvl g then log_fmt_args vformat env now lvl fmt args g y else Some (g, y))"

section \<open>The compile-time gate\<close>

text \<open>\<open>SPDLITE_TRACE\<close> ... \<open>SPDLITE_CRITICAL\<close> under \<open>SPDLITE_ACTIVE_LEVEL\<close>: the call, or nothing.
  Numbers of the macros are those of the levels.\<close>

definition gate :: "nat \<Rightarrow> level \<Rightarrow> bool" where
  "gate active lvl \<longleftrightarrow> active \<le> level_code lvl"

definition gated_log ::
    "nat \<Rightarrow> clock_env \<Rightarrow> int \<Rightarrow> level \<Rightarrow> string \<Rightarrow> logger \<Rightarrow> system \<Rightarrow> (logger \<times> system) option" where
  "gated_log active env now lvl msg g y =
     (if gate active lvl then log_text env now lvl msg g y else Some (g, y))"

end
