(* ===== verification/Logger_Props.thy ===== *)
theory Logger_Props
  imports Logger
begin

text \<open>
  Properties of the logger: the line every sink gets, the end-to-end content of the streams after a
  run of calls, what an exception does, and the level gates.
\<close>

section \<open>Streams beside the one written\<close>

definition stream_target :: "world \<Rightarrow> nat \<Rightarrow> target option" where
  "stream_target w h = map_option st_target (map_of (w_streams w) h)"

lemma stream_open_target:
  "stream_open w h \<longleftrightarrow> (case stream_target w h of None \<Rightarrow> False | Some t \<Rightarrow> target_open w t)"
  by (simp add: stream_open_def stream_target_def split: option.split)

lemma stream_text_eq:
  "map_of (w_streams w) h = Some st \<Longrightarrow> stream_text h w = target_content w (st_target st) @ st_buf st"
  by (simp add: stream_text_def stream_content_def)

lemma target_content_fs: "w_fs w' = w_fs w \<Longrightarrow> w_tty w' = w_tty w \<Longrightarrow> target_content w' t = target_content w t"
  by (cases t) (simp_all add: target_content_def fs_get_def)

lemma fwrite_bytes_other:
  assumes "fwrite_bytes s h w = (ok, w')"
  shows "h' \<noteq> h \<Longrightarrow> stream_text h' w' = stream_text h' w" "stream_target w' h' = stream_target w h'"
    "stream_open w' h' = stream_open w h'"
proof -
  have fs: "w_fs w' = w_fs w" "w_tty w' = w_tty w"
    using assms by (auto simp: fwrite_bytes_def fwrite_def ask_def Let_def split: prod.splits option.splits)
  have t: "target_content w' = target_content w" using target_content_fs[OF fs] by blast
  show "h' \<noteq> h \<Longrightarrow> stream_text h' w' = stream_text h' w"
    using fwrite_bytes_frame(5)[OF assms] by (simp add: stream_text_def stream_content_def t)
  show tg: "stream_target w' h' = stream_target w h'"
    using assms
    by (auto simp: stream_target_def fwrite_bytes_def fwrite_def ask_def Let_def update_conv
        split: prod.splits option.splits)
  have "target_open w' q = target_open w q" for q using fs by (cases q) (simp_all add: fs_get_def)
  then show "stream_open w' h' = stream_open w h'" unfolding stream_open_target tg by (simp split: option.split)
qed

lemma drain_other:
  assumes "stream_open w h" "stream_target w h' \<noteq> stream_target w h"
  shows "stream_text h' (drain h w) = stream_text h' w"
proof -
  obtain st where st: "map_of (w_streams w) h = Some st" "target_open w (st_target st)"
    using assms(1) by (rule stream_openE)
  have ne: "h' \<noteq> h" using assms(2) by auto
  have content: "q \<noteq> st_target st \<Longrightarrow> target_content (drain h w) q = target_content w q" for q
    using st
    by (cases q; cases "st_target st")
      (auto simp: target_content_def drain_def Let_def split: option.splits node.splits)
  have "map_of (w_streams (drain h w)) h' = map_of (w_streams w) h'"
    using st ne by (auto simp: drain_def Let_def update_conv split: target.splits option.splits node.splits)
  with content assms(2) st show ?thesis
    by (auto simp: stream_text_def stream_content_def stream_target_def split: option.split)
qed

lemma drain_targets:
  "stream_target (drain h w) h' = stream_target w h'"
  "stream_open w h \<Longrightarrow> stream_open w h' \<Longrightarrow> stream_open (drain h w) h'"
proof -
  show tg: "stream_target (drain h w) h' = stream_target w h'"
    by (auto simp: stream_target_def drain_def Let_def update_conv split: option.splits target.splits node.splits)
  assume o: "stream_open w h" "stream_open w h'"
  then obtain st where st: "map_of (w_streams w) h = Some st" "target_open w (st_target st)"
    by (auto elim: stream_openE)
  have "target_open w q \<Longrightarrow> target_open (drain h w) q" for q
    using st
    by (cases q; cases "st_target st") (auto simp: drain_def Let_def split: option.splits node.splits)
  with o(2) show "stream_open (drain h w) h'"
    unfolding stream_open_target tg by (simp split: option.splits)
qed

lemma stream_frame_tick [simp]:
  "stream_text h (w\<lparr>w_tick := t\<rparr>) = stream_text h w" "stream_target (w\<lparr>w_tick := t\<rparr>) h = stream_target w h"
  by (simp_all add: stream_text_def stream_target_def)

lemma fflush_other:
  assumes "stream_open w h" "stream_target w h' \<noteq> stream_target w h"
  shows "stream_text h' (fflush h w) = stream_text h' w"
  using assms drain_other[of "w\<lparr>w_tick := w_tick w + 1\<rparr>" h h'] by (simp add: fflush_def ask_def)

lemma fflush_targets:
  "stream_target (fflush h w) h' = stream_target w h'"
  "stream_open w h \<Longrightarrow> stream_open w h' \<Longrightarrow> stream_open (fflush h w) h'"
  by (simp_all add: fflush_def ask_def drain_targets)

lemma fflush_all_ok: "all_ok w \<Longrightarrow> all_ok (fflush h w)"
proof -
  have "w_oracle (drain h v) = w_oracle v \<and> w_tick (drain h v) = w_tick v" for v
    by (auto simp: drain_def Let_def split: option.splits target.splits node.splits)
  then show "all_ok w \<Longrightarrow> all_ok (fflush h w)" by (simp add: fflush_def ask_def all_ok_def)
qed

section \<open>Sinks that keep everything\<close>

fun sink_handle :: "base_sink \<Rightarrow> nat option" where
  "sink_handle (Stdout_sink s) = Some (so_file s)"
| "sink_handle (File_sink s) = Some (fs_file s)"
| "sink_handle (Console_sink s) = Some (cs_file s)"
| "sink_handle _ = None"

fun sink_render :: "base_sink \<Rightarrow> log_msg \<Rightarrow> string" where
  "sink_render (Console_sink s) m = console_render s m"
| "sink_render _ m = m_formatted m"

fun sink_ready :: "base_sink \<Rightarrow> world \<Rightarrow> bool" where
  "sink_ready Null_sink w = True"
| "sink_ready (Stdout_sink s) w = stream_open w (so_file s)"
| "sink_ready (File_sink s) w = stream_open w (fs_file s)"
| "sink_ready (Console_sink s) w = console_ready s w"
| "sink_ready _ w = False"

definition sink_text :: "base_sink \<Rightarrow> world \<Rightarrow> string" where
  "sink_text b w = (case sink_handle b of None \<Rightarrow> [] | Some h \<Rightarrow> stream_text h w)"

lemma base_write_ready:
  assumes "sink_ready b w"
  obtains b' w' where "base_write m b w = Some (None, b', w')" "sink_handle b' = sink_handle b"
    "sink_render b' = sink_render b" "sink_ready b' w'"
    "sink_handle b = None \<longrightarrow> w' = w"
    "\<forall>h. sink_handle b = Some h \<longrightarrow> (\<exists>ok. fwrite_bytes (sink_render b m) h w = (ok, w'))"
proof (cases b)
  case Null_sink
  with that show ?thesis by (simp add: null_write_def)
next
  case (Stdout_sink s)
  obtain ok w' where f: "fwrite_bytes (m_formatted m) (so_file s) w = (ok, w')" by fastforce
  with assms Stdout_sink fwrite_bytes_text(1)[OF _ f] show ?thesis
    by (intro that[of b w']) (simp_all add: stdout_write_def)
next
  case (File_sink s)
  obtain ok w' where f: "fwrite_bytes (m_formatted m) (fs_file s) w = (ok, w')" by fastforce
  with assms File_sink fwrite_bytes_text(1)[OF _ f] show ?thesis
    by (intro that[of b w']) (simp_all add: file_write_def)
next
  case (Console_sink s)
  then have rd: "console_ready s w" using assms by simp
  obtain c where c: "mb_inv memory_buf_size c"
    "console_write m s w = (s\<lparr>cs_cbuf := c\<rparr>, snd (fwrite_bytes (console_render s m) (cs_file s) w))"
    using console_write_eq[OF rd] by blast
  obtain ok w' where f: "fwrite_bytes (console_render s m) (cs_file s) w = (ok, w')" by fastforce
  have "console_render (s\<lparr>cs_cbuf := c\<rparr>) = console_render s" by (rule ext) (simp add: console_render_def)
  then have "sink_render (Console_sink (s\<lparr>cs_cbuf := c\<rparr>)) = sink_render (Console_sink s)"
    by (intro ext) simp
  with Console_sink rd c f fwrite_bytes_text(1)[OF _ f] show ?thesis
    by (intro that[of "Console_sink (s\<lparr>cs_cbuf := c\<rparr>)" w']) (simp_all add: console_ready_def)
qed (use assms in simp_all)

text \<open>Two sinks that do not write to the same place.\<close>

definition apart :: "world \<Rightarrow> base_sink \<Rightarrow> base_sink \<Rightarrow> bool" where
  "apart w b b' \<longleftrightarrow> (\<forall>h h'. sink_handle b = Some h \<longrightarrow> sink_handle b' = Some h' \<longrightarrow>
     h \<noteq> h' \<and> stream_target w h \<noteq> stream_target w h')"

definition sinks_ok :: "base_sink list \<Rightarrow> world \<Rightarrow> bool" where
  "sinks_ok bs w \<longleftrightarrow> list_all (\<lambda>b. sink_ready b w) bs \<and> sorted_wrt (apart w) bs"

definition same_sink :: "base_sink \<Rightarrow> base_sink \<Rightarrow> bool" where
  "same_sink b b' \<longleftrightarrow> sink_handle b' = sink_handle b \<and> sink_render b' = sink_render b"

definition sink_out :: "base_sink \<Rightarrow> log_msg \<Rightarrow> string" where
  "sink_out b m = (if sink_handle b = None then [] else sink_render b m)"

lemma sink_ready_open: "sink_ready b w \<Longrightarrow> sink_handle b = Some h \<Longrightarrow> stream_open w h"
  by (cases b) (auto simp: console_ready_def)

lemma sink_ready_mono:
  "sink_ready b w \<Longrightarrow> (\<And>h. stream_open w h \<Longrightarrow> stream_open w' h) \<Longrightarrow> sink_ready b w'"
  by (cases b) (auto simp: console_ready_def)

lemma apart_cong:
  "(\<And>h. stream_target w' h = stream_target w h) \<Longrightarrow> sorted_wrt (apart w') bs = sorted_wrt (apart w) bs"
proof -
  assume "\<And>h. stream_target w' h = stream_target w h"
  then have "apart w' = apart w" by (simp add: apart_def fun_eq_iff)
  then show ?thesis by simp
qed

lemma same_apart: "list_all2 same_sink bs bs' \<Longrightarrow> sorted_wrt (apart w) bs' = sorted_wrt (apart w) bs"
proof (induction bs bs' rule: list_all2_induct)
  case (Cons x xs y ys)
  have "(\<forall>b\<in>set ys. apart w y b) \<longleftrightarrow> (\<forall>b\<in>set xs. apart w x b)"
    using Cons.hyps by (auto simp: same_sink_def apart_def list_all2_conv_all_nth all_set_conv_all_nth)
  with Cons.IH show ?case by simp
qed simp

lemma base_write_spec:
  assumes "sink_ready b w" "all_ok w"
  obtains b' w' where "base_write m b w = Some (None, b', w')" "same_sink b b'" "sink_ready b' w'"
    "all_ok w'" "sink_text b w' = sink_text b w @ sink_out b m"
    "\<forall>c. apart w b c \<longrightarrow> sink_text c w' = sink_text c w"
    "\<forall>h. stream_target w' h = stream_target w h" "\<forall>h. stream_open w h \<longrightarrow> stream_open w' h"
proof -
  obtain b' w' where 1: "base_write m b w = Some (None, b', w')" "sink_handle b' = sink_handle b"
    "sink_render b' = sink_render b" "sink_ready b' w'" "sink_handle b = None \<longrightarrow> w' = w"
    "\<forall>h. sink_handle b = Some h \<longrightarrow> (\<exists>ok. fwrite_bytes (sink_render b m) h w = (ok, w'))"
    by (rule base_write_ready[OF assms(1), of m])
  show thesis
  proof (cases "sink_handle b")
    case None
    then show thesis
      using 1 assms(2) by (intro that[of b' w']) (simp_all add: same_sink_def sink_text_def sink_out_def)
  next
    case (Some h)
    then obtain ok where f: "fwrite_bytes (sink_render b m) h w = (ok, w')" using 1(6) by blast
    note t = fwrite_bytes_text(2)[OF sink_ready_open[OF assms(1) Some] f all_ok_next[OF assms(2)]]
    show thesis
    proof (rule that[OF 1(1)])
      show "same_sink b b'" using 1 by (simp add: same_sink_def)
      show "sink_ready b' w'" by fact
      show "all_ok w'" by (rule fwrite_bytes_all_ok[OF assms(2) f])
      show "sink_text b w' = sink_text b w @ sink_out b m"
        using t Some by (simp add: sink_text_def sink_out_def)
      show "\<forall>c. apart w b c \<longrightarrow> sink_text c w' = sink_text c w"
        using Some fwrite_bytes_other(1)[OF f]
        by (auto simp: sink_text_def apart_def split: option.split)
      show "\<forall>h. stream_target w' h = stream_target w h" using fwrite_bytes_other(2)[OF f] by simp
      show "\<forall>h. stream_open w h \<longrightarrow> stream_open w' h" using fwrite_bytes_other(3)[OF f] by simp
    qed
  qed
qed

lemma write_sinks_spec:
  assumes "all_ok (y_world y)" "sinks_ok bs (y_world y)"
  shows "\<exists>bs' w'. write_sinks m (map Own bs) y = Some (None, map Own bs', y\<lparr>y_world := w'\<rparr>) \<and>
    all_ok w' \<and> sinks_ok bs' w' \<and> list_all2 same_sink bs bs' \<and>
    (\<forall>b \<in> set bs. sink_text b w' = sink_text b (y_world y) @ sink_out b m) \<and>
    (\<forall>c. (\<forall>b \<in> set bs. apart (y_world y) b c) \<longrightarrow> sink_text c w' = sink_text c (y_world y)) \<and>
    (\<forall>h. stream_target w' h = stream_target (y_world y) h) \<and>
    (\<forall>h. stream_open (y_world y) h \<longrightarrow> stream_open w' h)"
  using assms
proof (induction bs arbitrary: y)
  case Nil
  then show ?case by (intro exI[of _ "[]"] exI[of _ "y_world y"]) simp
next
  case (Cons b bs)
  let ?w = "y_world y"
  from Cons.prems have rd: "sink_ready b ?w" "list_all (\<lambda>b. sink_ready b ?w) bs"
    and ap: "\<forall>c \<in> set bs. apart ?w b c" "sorted_wrt (apart ?w) bs" by (simp_all add: sinks_ok_def)
  obtain b' w1 where 1: "base_write m b ?w = Some (None, b', w1)" "same_sink b b'" "sink_ready b' w1"
    "all_ok w1" "sink_text b w1 = sink_text b ?w @ sink_out b m"
    "\<forall>c. apart ?w b c \<longrightarrow> sink_text c w1 = sink_text c ?w"
    "\<forall>h. stream_target w1 h = stream_target ?w h" "\<forall>h. stream_open ?w h \<longrightarrow> stream_open w1 h"
    by (rule base_write_spec[OF rd(1) Cons.prems(1), of m])
  have "sinks_ok bs w1"
    using rd(2) ap(2) sink_ready_mono[of _ ?w w1] 1(8) apart_cong[of w1 ?w bs] 1(7)
    by (auto simp: sinks_ok_def list_all_iff)
  with Cons.IH[of "y\<lparr>y_world := w1\<rparr>"] 1(4) obtain bs' w' where
    2: "write_sinks m (map Own bs) (y\<lparr>y_world := w1\<rparr>) = Some (None, map Own bs', y\<lparr>y_world := w'\<rparr>)"
    "all_ok w'" "sinks_ok bs' w'" "list_all2 same_sink bs bs'"
    "\<forall>b \<in> set bs. sink_text b w' = sink_text b w1 @ sink_out b m"
    "\<forall>c. (\<forall>b \<in> set bs. apart w1 b c) \<longrightarrow> sink_text c w' = sink_text c w1"
    "\<forall>h. stream_target w' h = stream_target w1 h" "\<forall>h. stream_open w1 h \<longrightarrow> stream_open w' h"
    by auto
  have ap1: "apart w1 = apart ?w" using 1(7) by (simp add: apart_def fun_eq_iff)
  have ap': "apart w' = apart ?w" using 1(7) 2(7) by (simp add: apart_def fun_eq_iff)
  have sym: "apart ?w c b" if "c \<in> set bs" for c
    using ap(1) that by (auto simp: apart_def)
  have all: "list_all2 same_sink (b # bs) (b' # bs')" using 1(2) 2(4) by simp
  have "sinks_ok (b' # bs') w'"
    using 1(3) 2(3,8) sink_ready_mono[of b' w1 w'] same_apart[OF all, of w'] ap ap'
    by (simp add: sinks_ok_def)
  moreover have "sink_text b w' = sink_text b ?w @ sink_out b m" using 2(6) sym 1(5) by (simp add: ap1)
  moreover have "\<forall>c \<in> set bs. sink_text c w' = sink_text c ?w @ sink_out c m"
    using 2(5) 1(6) ap(1) by simp
  ultimately show ?case
    using 1(1,6,7,8) 2(1,2,6,7,8) all
    by (intro exI[of _ "b' # bs'"] exI[of _ w']) (simp add: ap1)
qed

text \<open>Nothing is left in the stream's buffer: what was accepted is in the file.\<close>

definition sink_durable :: "base_sink \<Rightarrow> world \<Rightarrow> bool" where
  "sink_durable b w \<longleftrightarrow> (\<forall>h. sink_handle b = Some h \<longrightarrow>
     (\<exists>st. map_of (w_streams w) h = Some st \<and> st_buf st = []))"

lemma fflush_buf:
  assumes "stream_open w h" "all_ok w"
  shows "\<exists>st. map_of (w_streams (fflush h w)) h = Some st \<and> st_buf st = []"
    "h' \<noteq> h \<Longrightarrow> map_of (w_streams (fflush h w)) h' = map_of (w_streams w) h'"
proof -
  obtain st where "map_of (w_streams w) h = Some st" using assms(1) by (rule stream_openE)
  then show "\<exists>st. map_of (w_streams (fflush h w)) h = Some st \<and> st_buf st = []"
    using assms(2)
    by (auto simp: fflush_def ask_def all_ok_def drain_def Let_def update_conv
        split: target.split option.split node.split)
  show "h' \<noteq> h \<Longrightarrow> map_of (w_streams (fflush h w)) h' = map_of (w_streams w) h'"
    by (auto simp: fflush_def ask_def drain_def Let_def update_conv
        split: target.split option.split node.split)
qed

lemma base_flush_spec:
  assumes "sink_ready b w" "all_ok w"
  obtains w' where "base_flush b w = Some w'" "all_ok w'" "sink_text b w' = sink_text b w" "sink_durable b w'"
    "\<forall>c. apart w b c \<longrightarrow> sink_text c w' = sink_text c w \<and> (sink_durable c w \<longrightarrow> sink_durable c w')"
    "\<forall>h. stream_target w' h = stream_target w h" "\<forall>h. stream_open w h \<longrightarrow> stream_open w' h"
proof (cases "sink_handle b")
  case None
  then have "b = Null_sink" using assms(1) by (cases b) simp_all
  then show ?thesis using assms(2)
    by (intro that[of w]) (simp_all add: null_flush_def sink_durable_def)
next
  case (Some h)
  then have fl: "base_flush b w = Some (fflush h w)"
    using assms(1) by (cases b) (simp_all add: stdout_flush_def file_flush_def console_flush_def)
  have op: "stream_open w h" using assms(1) Some by (rule sink_ready_open)
  show ?thesis
  proof (rule that[OF fl])
    show "all_ok (fflush h w)" using assms(2) by (rule fflush_all_ok)
    show "sink_text b (fflush h w) = sink_text b w" by (simp add: sink_text_def Some fflush_text[OF op])
    show "sink_durable b (fflush h w)" using fflush_buf(1)[OF op assms(2)] by (simp add: sink_durable_def Some)
    show "\<forall>c. apart w b c \<longrightarrow> sink_text c (fflush h w) = sink_text c w \<and>
        (sink_durable c w \<longrightarrow> sink_durable c (fflush h w))"
    proof (intro allI impI)
      fix c assume ap: "apart w b c"
      show "sink_text c (fflush h w) = sink_text c w \<and> (sink_durable c w \<longrightarrow> sink_durable c (fflush h w))"
      proof (cases "sink_handle c")
        case (Some h')
        with ap \<open>sink_handle b = Some h\<close> have "h' \<noteq> h" "stream_target w h' \<noteq> stream_target w h"
          by (auto simp: apart_def)
        with Some show ?thesis
          using fflush_other[OF op] fflush_buf(2)[OF op assms(2)] by (simp add: sink_text_def sink_durable_def)
      qed (simp add: sink_text_def sink_durable_def)
    qed
  qed (use fflush_targets op in auto)
qed

lemma flush_sinks_spec:
  assumes "all_ok (y_world y)" "sinks_ok bs (y_world y)"
  shows "\<exists>w'. flush_sinks (map Own bs) y = Some (y\<lparr>y_world := w'\<rparr>) \<and> all_ok w' \<and> sinks_ok bs w' \<and>
    (\<forall>b \<in> set bs. sink_text b w' = sink_text b (y_world y) \<and> sink_durable b w') \<and>
    (\<forall>c. (\<forall>b \<in> set bs. apart (y_world y) b c) \<longrightarrow> sink_text c w' = sink_text c (y_world y) \<and>
       (sink_durable c (y_world y) \<longrightarrow> sink_durable c w')) \<and>
    (\<forall>h. stream_target w' h = stream_target (y_world y) h) \<and>
    (\<forall>h. stream_open (y_world y) h \<longrightarrow> stream_open w' h)"
  using assms
proof (induction bs arbitrary: y)
  case Nil
  then show ?case by (intro exI[of _ "y_world y"]) simp
next
  case (Cons b bs)
  let ?w = "y_world y"
  from Cons.prems have rd: "sink_ready b ?w" "list_all (\<lambda>b. sink_ready b ?w) bs"
    and ap: "\<forall>c \<in> set bs. apart ?w b c" "sorted_wrt (apart ?w) bs" by (simp_all add: sinks_ok_def)
  obtain w1 where 1: "base_flush b ?w = Some w1" "all_ok w1" "sink_text b w1 = sink_text b ?w" "sink_durable b w1"
    "\<forall>c. apart ?w b c \<longrightarrow> sink_text c w1 = sink_text c ?w \<and> (sink_durable c ?w \<longrightarrow> sink_durable c w1)"
    "\<forall>h. stream_target w1 h = stream_target ?w h" "\<forall>h. stream_open ?w h \<longrightarrow> stream_open w1 h"
    by (rule base_flush_spec[OF rd(1) Cons.prems(1)])
  have ap1: "apart w1 = apart ?w" using 1(6) by (simp add: apart_def fun_eq_iff)
  have "sinks_ok bs w1"
    using rd(2) ap(2) sink_ready_mono[of _ ?w w1] 1(7) by (auto simp: sinks_ok_def list_all_iff ap1)
  with Cons.IH[of "y\<lparr>y_world := w1\<rparr>"] 1(2) obtain w' where
    2: "flush_sinks (map Own bs) (y\<lparr>y_world := w1\<rparr>) = Some (y\<lparr>y_world := w'\<rparr>)"
    "all_ok w'" "sinks_ok bs w'"
    "\<forall>b \<in> set bs. sink_text b w' = sink_text b w1 \<and> sink_durable b w'"
    "\<forall>c. (\<forall>b \<in> set bs. apart w1 b c) \<longrightarrow> sink_text c w' = sink_text c w1 \<and> (sink_durable c w1 \<longrightarrow> sink_durable c w')"
    "\<forall>h. stream_target w' h = stream_target w1 h" "\<forall>h. stream_open w1 h \<longrightarrow> stream_open w' h"
    by auto
  have ap': "apart w' = apart ?w" using 1(6) 2(6) by (simp add: apart_def fun_eq_iff)
  have sym: "apart ?w c b" if "c \<in> set bs" for c
    using ap(1) that by (auto simp: apart_def)
  have "sinks_ok (b # bs) w'"
    using rd(1) 1(7) 2(3,7) sink_ready_mono[of b ?w w'] ap ap' by (simp add: sinks_ok_def)
  moreover have "sink_text b w' = sink_text b ?w \<and> sink_durable b w'" using 2(5) sym 1(3,4) by (simp add: ap1)
  moreover have "\<forall>c \<in> set bs. sink_text c w' = sink_text c ?w \<and> sink_durable c w'"
    using 2(4) 1(5) ap(1) by simp
  ultimately show ?case
    using 1(1,5,6,7) 2(1,2,5,6,7) by (intro exI[of _ w']) (simp add: ap1)
qed

section \<open>The line\<close>

definition logger_ok :: "(int \<Rightarrow> int) \<Rightarrow> logger \<Rightarrow> bool" where
  "logger_ok tz g \<longleftrightarrow> formatter_inv \<lparr>e_tz = tz, e_tid = 0\<rparr> (g_name g) (g_formatter g) \<and>
     mb_inv memory_buf_size (g_buf g)"

definition line_of :: "clock_env \<Rightarrow> logger \<Rightarrow> int \<Rightarrow> level \<Rightarrow> string \<Rightarrow> string" where
  "line_of env g now lvl tx =
     the (header_spec env (f_opts (g_formatter g)) (g_name g) now lvl) @ tx @ ''\<newline>''"

definition msg_of :: "clock_env \<Rightarrow> logger \<Rightarrow> int \<Rightarrow> level \<Rightarrow> string \<Rightarrow> log_msg" where
  "msg_of env g now lvl tx =
     mk_log_msg now (g_name g) lvl (line_of env g now lvl tx) tx
       (level_off (f_opts (g_formatter g)) (g_name g))"

definition finish ::
    "level \<Rightarrow> logger \<Rightarrow> (exn option \<times> sink list \<times> system) option \<Rightarrow> (exn option \<times> logger \<times> system) option" where
  "finish lvl g r =
     (case r of
        None \<Rightarrow> None
      | Some (e, ss, y) \<Rightarrow>
          if e = None \<and> should_flush lvl g
          then (case flush_sinks ss y of None \<Rightarrow> None | Some y \<Rightarrow> Some (None, g\<lparr>g_sinks := ss\<rparr>, y))
          else Some (e, g\<lparr>g_sinks := ss\<rparr>, y))"

lemma logger_ok_env: "logger_ok (e_tz env) g \<longleftrightarrow>
    formatter_inv env (g_name g) (g_formatter g) \<and> mb_inv memory_buf_size (g_buf g)"
  using formatter_inv_env[of "\<lparr>e_tz = e_tz env, e_tid = 0\<rparr>" env] by (simp add: logger_ok_def)

lemma deliver_eq:
  assumes "mb_inv memory_buf_size (g_buf g)" "mb_view (g_buf g) = h @ p"
  shows "\<exists>b. mb_inv memory_buf_size b \<and>
    deliver now lvl (length h) g y =
      finish lvl (g\<lparr>g_buf := b\<rparr>)
        (write_sinks (mk_log_msg now (g_name g) lvl (h @ p @ ''\<newline>'') p (f_level_offset (g_formatter g)))
          (g_sinks g) y)"
proof -
  let ?b = "mb_push_back (CHR 0x0A) (g_buf g)"
  have b: "mb_inv memory_buf_size ?b" "mb_view ?b = h @ p @ ''\<newline>''"
    using mbb.inv_push_back[OF assms(1)] mbb.view_push_back[OF assms(1)] assms(2) by auto
  have sz: "b_size (g_buf g) = length h + length p" using mb_size_view[OF assms(1)] assms(2) by simp
  have "deliver now lvl (length h) g y =
      finish lvl (g\<lparr>g_buf := ?b\<rparr>)
        (write_sinks (mk_log_msg now (g_name g) lvl (h @ p @ ''\<newline>'') p (f_level_offset (g_formatter g)))
          (g_sinks g) y)"
    by (simp add: deliver_def Let_def b sz finish_def should_flush_def split: option.split prod.split)
  with b(1) show ?thesis by blast
qed

text \<open>What the call makes of formatter and buffer, and the message it hands to the sinks.\<close>

lemma log_sv_message_lemma:
  assumes "logger_ok (e_tz env) g" "call_ok env (f_opts (g_formatter g)) (now, lvl)"
  shows "\<exists>f b. logger_ok (e_tz env) (g\<lparr>g_formatter := f, g_buf := b\<rparr>) \<and>
    f_opts f = f_opts (g_formatter g) \<and>
    log_sv env now lvl tx g y =
      catch (finish lvl (g\<lparr>g_formatter := f, g_buf := b\<rparr>)
        (write_sinks (msg_of env g now lvl tx) (g_sinks g) y))"
proof -
  from assms have inv: "formatter_inv env (g_name g) (g_formatter g)" "mb_inv memory_buf_size (g_buf g)"
    by (simp_all add: logger_ok_env)
  have t: "0 \<le> now" "now div 1000000000 \<noteq> 0 \<or> f_last_secs (g_formatter g) \<noteq> 0"
    "year_ok env (f_opts (g_formatter g)) (now div 1000000000)" "lvl \<noteq> N_levels"
    using assms(2) by (auto simp: call_ok_def)
  obtain f h where f: "format_header env now lvl (g_formatter g) = Some (f, h)"
    "header_spec env (f_opts (g_formatter g)) (g_name g) now lvl = Some h" "formatter_inv env (g_name g) f"
    "f_opts f = f_opts (g_formatter g)" "f_level_offset f = level_off (f_opts (g_formatter g)) (g_name g)"
    using format_header_step[OF inv(1) t] by blast
  note c = mb_clear_spec[OF inv(2)]
  have b1: "mb_inv memory_buf_size (mb_app h (buf_clear (g_buf g)))" "mb_view (mb_app h (buf_clear (g_buf g))) = h"
    using mb_app_spec[of memory_buf_size "buf_clear (g_buf g)" h] c by simp_all
  have b2: "mb_inv memory_buf_size (mb_app tx (mb_app h (buf_clear (g_buf g))))"
    "mb_view (mb_app tx (mb_app h (buf_clear (g_buf g)))) = h @ tx"
    using mb_app_spec[OF b1(1), of tx] b1(2) by simp_all
  let ?g = "g\<lparr>g_formatter := f, g_buf := mb_app tx (mb_app h (buf_clear (g_buf g)))\<rparr>"
  have start: "b_size (mb_app h (buf_clear (g_buf g))) = length h" using mb_size_view[OF b1(1)] b1(2) by simp
  obtain b where b: "mb_inv memory_buf_size b" "deliver now lvl (length h) ?g y =
      finish lvl (?g\<lparr>g_buf := b\<rparr>)
        (write_sinks (mk_log_msg now (g_name g) lvl (h @ tx @ ''\<newline>'') tx (f_level_offset f)) (g_sinks g) y)"
    using deliver_eq[of ?g h tx now lvl y] b2 by auto
  have "log_sv env now lvl tx g y = catch (deliver now lvl (length h) ?g y)"
    by (simp add: log_sv_def f(1) Let_def start)
  moreover have "msg_of env g now lvl tx =
      mk_log_msg now (g_name g) lvl (h @ tx @ ''\<newline>'') tx (f_level_offset f)"
    by (simp add: msg_of_def line_of_def f(2,5))
  ultimately have "log_sv env now lvl tx g y =
      catch (finish lvl (g\<lparr>g_formatter := f, g_buf := b\<rparr>) (write_sinks (msg_of env g now lvl tx) (g_sinks g) y))"
    using b(2) by simp
  then show ?thesis using f(3,4) b(1) by (intro exI[of _ f] exI[of _ b]) (simp add: logger_ok_env)
qed

section \<open>Runs of calls\<close>

type_synonym log_call = "u64 \<times> int \<times> level \<times> string"

abbreviation env_at :: "(int \<Rightarrow> int) \<Rightarrow> u64 \<Rightarrow> clock_env" where
  "env_at tz tid \<equiv> \<lparr>e_tz = tz, e_tid = tid\<rparr>"

fun log_run :: "(int \<Rightarrow> int) \<Rightarrow> log_call list \<Rightarrow> logger \<Rightarrow> system \<Rightarrow> (logger \<times> system) option" where
  "log_run tz [] g y = Some (g, y)"
| "log_run tz ((tid, now, lvl, tx) # cs) g y =
     (case log_text (env_at tz tid) now lvl tx g y of
        None \<Rightarrow> None
      | Some (g, y) \<Rightarrow> log_run tz cs g y)"

definition calls_ok :: "(int \<Rightarrow> int) \<Rightarrow> logger \<Rightarrow> log_call list \<Rightarrow> bool" where
  "calls_ok tz g cs \<longleftrightarrow>
     list_all (\<lambda>(tid, now, lvl, tx). call_ok (env_at tz tid) (f_opts (g_formatter g)) (now, lvl)) cs"

definition shown :: "(int \<Rightarrow> int) \<Rightarrow> logger \<Rightarrow> log_call list \<Rightarrow> base_sink \<Rightarrow> string" where
  "shown tz g cs b =
     concat (map (\<lambda>(tid, now, lvl, tx). sink_out b (msg_of (env_at tz tid) g now lvl tx))
       (filter (\<lambda>(tid, now, lvl, tx). should_log lvl g) cs))"

definition same_logger :: "logger \<Rightarrow> logger \<Rightarrow> bool" where
  "same_logger g g' \<longleftrightarrow> g_name g' = g_name g \<and> g_level g' = g_level g \<and>
     g_flush_level g' = g_flush_level g \<and> f_opts (g_formatter g') = f_opts (g_formatter g)"

lemma same_logger_line:
  assumes "same_logger g g'"
  shows "msg_of env g' now lvl tx = msg_of env g now lvl tx" "should_log lvl g' = should_log lvl g"
    "calls_ok tz g' cs = calls_ok tz g cs"
  using assms by (simp_all add: same_logger_def msg_of_def line_of_def should_log_def calls_ok_def)

lemma same_sink_out: "same_sink b b' \<Longrightarrow> sink_out b' = sink_out b \<and> sink_text b' = sink_text b"
  by (auto simp: same_sink_def sink_out_def sink_text_def fun_eq_iff)

lemma list_all2_partner:
  assumes "list_all2 P xs ys" "x \<in> set xs"
  obtains y where "y \<in> set ys" "P x y"
  using assms by (induction xs ys rule: list_all2_induct) auto

text \<open>One call on sinks that keep everything.\<close>

lemma log_sv_delivers:
  assumes "logger_ok tz g" "g_sinks g = map Own bs" "sinks_ok bs (y_world y)" "all_ok (y_world y)"
    "call_ok (env_at tz tid) (f_opts (g_formatter g)) (now, lvl)"
  shows "\<exists>g' bs' w'. log_sv (env_at tz tid) now lvl tx g y = Some (g', y\<lparr>y_world := w'\<rparr>) \<and>
    logger_ok tz g' \<and> same_logger g g' \<and> g_sinks g' = map Own bs' \<and> list_all2 same_sink bs bs' \<and>
    sinks_ok bs' w' \<and> all_ok w' \<and>
    (\<forall>b \<in> set bs. sink_text b w' = sink_text b (y_world y) @ sink_out b (msg_of (env_at tz tid) g now lvl tx) \<and>
      (should_flush lvl g \<longrightarrow> sink_durable b w'))"
proof -
  let ?env = "env_at tz tid" and ?m = "msg_of (env_at tz tid) g now lvl tx"
  from log_sv_message_lemma[of ?env g now lvl tx y] assms(1,5) obtain f b where
    f: "logger_ok tz (g\<lparr>g_formatter := f, g_buf := b\<rparr>)" "f_opts f = f_opts (g_formatter g)"
    "log_sv ?env now lvl tx g y =
      catch (finish lvl (g\<lparr>g_formatter := f, g_buf := b\<rparr>) (write_sinks ?m (map Own bs) y))"
    by (auto simp: assms(2))
  obtain bs1 w1 where 1: "write_sinks ?m (map Own bs) y = Some (None, map Own bs1, y\<lparr>y_world := w1\<rparr>)"
    "all_ok w1" "sinks_ok bs1 w1" "list_all2 same_sink bs bs1"
    "\<forall>b \<in> set bs. sink_text b w1 = sink_text b (y_world y) @ sink_out b ?m"
    using write_sinks_spec[OF assms(4,3), of ?m] by blast
  let ?g = "g\<lparr>g_formatter := f, g_buf := b, g_sinks := map Own bs1\<rparr>"
  have g: "logger_ok tz ?g" "same_logger g ?g" "g_sinks ?g = map Own bs1"
    using f(1,2) by (simp_all add: logger_ok_def same_logger_def)
  have eq: "log_sv ?env now lvl tx g y =
      catch (finish lvl (g\<lparr>g_formatter := f, g_buf := b\<rparr>) (Some (None, map Own bs1, y\<lparr>y_world := w1\<rparr>)))"
    using f(3) 1(1) by simp
  show ?thesis
  proof (cases "should_flush lvl g")
    case False
    then have "log_sv ?env now lvl tx g y = Some (?g, y\<lparr>y_world := w1\<rparr>)"
      unfolding eq by (simp add: finish_def catch_def should_flush_def)
    with g 1 False show ?thesis by blast
  next
    case True
    obtain w2 where 2: "flush_sinks (map Own bs1) (y\<lparr>y_world := w1\<rparr>) = Some (y\<lparr>y_world := w2\<rparr>)" "all_ok w2"
      "sinks_ok bs1 w2" "\<forall>b \<in> set bs1. sink_text b w2 = sink_text b w1 \<and> sink_durable b w2"
      using flush_sinks_spec[of "y\<lparr>y_world := w1\<rparr>" bs1] 1(2,3) by auto
    have "log_sv ?env now lvl tx g y = Some (?g, y\<lparr>y_world := w2\<rparr>)"
      unfolding eq using True 2(1) by (simp add: finish_def catch_def should_flush_def)
    moreover have "\<forall>b \<in> set bs. sink_text b w2 = sink_text b w1 \<and> sink_durable b w2"
    proof
      fix b assume "b \<in> set bs"
      from list_all2_partner[OF 1(4) this] obtain b' where "b' \<in> set bs1" "same_sink b b'"
        by blast
      with 2(4) show "sink_text b w2 = sink_text b w1 \<and> sink_durable b w2"
        using same_sink_out[of b b'] by (auto simp: sink_durable_def same_sink_def)
    qed
    ultimately show ?thesis using g 1(4,5) 2(2,3) by metis
  qed
qed

lemma log_text_delivers:
  assumes "logger_ok tz g" "g_sinks g = map Own bs" "sinks_ok bs (y_world y)" "all_ok (y_world y)"
    "call_ok (env_at tz tid) (f_opts (g_formatter g)) (now, lvl)" "should_log lvl g"
  shows "\<exists>g' bs' w'. log_text (env_at tz tid) now lvl tx g y = Some (g', y\<lparr>y_world := w'\<rparr>) \<and>
    logger_ok tz g' \<and> same_logger g g' \<and> g_sinks g' = map Own bs' \<and> list_all2 same_sink bs bs' \<and>
    sinks_ok bs' w' \<and> all_ok w' \<and>
    (\<forall>b \<in> set bs. sink_text b w' = sink_text b (y_world y) @ sink_out b (msg_of (env_at tz tid) g now lvl tx) \<and>
      (should_flush lvl g \<longrightarrow> sink_durable b w'))"
  using log_sv_delivers[OF assms(1-5), of tx] assms(6) by (simp add: log_text_def)

lemma same_sink_trans: "list_all2 same_sink xs ys \<Longrightarrow> list_all2 same_sink ys zs \<Longrightarrow> list_all2 same_sink xs zs"
  by (rule list_all2_trans[of same_sink same_sink same_sink]) (auto simp: same_sink_def)

lemma log_run_delivers:
  assumes "logger_ok tz g" "g_sinks g = map Own bs" "sinks_ok bs (y_world y)" "all_ok (y_world y)"
    "calls_ok tz g cs"
  shows "\<exists>g' bs' w'. log_run tz cs g y = Some (g', y\<lparr>y_world := w'\<rparr>) \<and> logger_ok tz g' \<and>
    same_logger g g' \<and> g_sinks g' = map Own bs' \<and> list_all2 same_sink bs bs' \<and>
    sinks_ok bs' w' \<and> all_ok w' \<and> (\<forall>b \<in> set bs. sink_text b w' = sink_text b (y_world y) @ shown tz g cs b)"
  using assms
proof (induction cs arbitrary: g bs y)
  case Nil
  have "list_all2 same_sink bs bs" by (simp add: list_all2_conv_all_nth same_sink_def)
  with Nil show ?case
    by (intro exI[of _ g] exI[of _ bs] exI[of _ "y_world y"]) (simp add: same_logger_def shown_def)
next
  case (Cons c cs)
  obtain tid now lvl tx where c: "c = (tid, now, lvl, tx)" using prod_cases4 by blast
  from Cons.prems(5) have ok: "call_ok (env_at tz tid) (f_opts (g_formatter g)) (now, lvl)" "calls_ok tz g cs"
    by (simp_all add: calls_ok_def c)
  show ?case
  proof (cases "should_log lvl g")
    case False
    with Cons.IH[OF Cons.prems(1-4) ok(2)] show ?thesis by (simp add: c log_text_def shown_def)
  next
    case True
    obtain g1 bs1 w1 where 1: "log_text (env_at tz tid) now lvl tx g y = Some (g1, y\<lparr>y_world := w1\<rparr>)"
      "logger_ok tz g1" "same_logger g g1" "g_sinks g1 = map Own bs1" "list_all2 same_sink bs bs1"
      "sinks_ok bs1 w1" "all_ok w1"
      "\<forall>b \<in> set bs. sink_text b w1 = sink_text b (y_world y) @ sink_out b (msg_of (env_at tz tid) g now lvl tx)"
      using log_text_delivers[OF Cons.prems(1-4) ok(1) True, of tx] by metis
    have ok1: "calls_ok tz g1 cs" using ok(2) same_logger_line(3)[OF 1(3)] by simp
    obtain g2 bs2 w2 where 2: "log_run tz cs g1 (y\<lparr>y_world := w1\<rparr>) = Some (g2, y\<lparr>y_world := w2\<rparr>)"
      "logger_ok tz g2" "same_logger g1 g2" "g_sinks g2 = map Own bs2" "list_all2 same_sink bs1 bs2"
      "sinks_ok bs2 w2" "all_ok w2" "\<forall>b \<in> set bs1. sink_text b w2 = sink_text b w1 @ shown tz g1 cs b"
      using Cons.IH[OF 1(2,4), of "y\<lparr>y_world := w1\<rparr>"] 1(6,7) ok1 by auto
    have sh: "shown tz g1 cs = shown tz g cs" using same_logger_line[OF 1(3)] by (simp add: shown_def fun_eq_iff)
    have "\<forall>b \<in> set bs. sink_text b w2 = sink_text b (y_world y) @ shown tz g (c # cs) b"
    proof
      fix b assume b: "b \<in> set bs"
      from list_all2_partner[OF 1(5) b] obtain b' where b': "b' \<in> set bs1" "same_sink b b'"
        by blast
      have "shown tz g cs b' = shown tz g cs b" using same_sink_out[OF b'(2)] by (simp add: shown_def)
      moreover have "sink_text b' w2 = sink_text b' w1 @ shown tz g1 cs b'" using 2(8) b'(1) by blast
      ultimately have "sink_text b w2 = sink_text b w1 @ shown tz g cs b"
        using sh same_sink_out[OF b'(2)] by simp
      with 1(8) b True show "sink_text b w2 = sink_text b (y_world y) @ shown tz g (c # cs) b"
        by (simp add: c shown_def)
    qed
    moreover have "same_logger g g2" using 1(3) 2(3) by (simp add: same_logger_def)
    moreover have "list_all2 same_sink bs bs2" using 1(5) 2(5) by (rule same_sink_trans)
    ultimately show ?thesis using 1(1) 2 by (simp add: c) blast
  qed
qed

section \<open>Failures\<close>

fun sink_alive :: "(nat \<times> base_sink) list \<Rightarrow> sink \<Rightarrow> bool" where
  "sink_alive sh (Own b) \<longleftrightarrow> b \<noteq> Moved_sink"
| "sink_alive sh (Shared_sink p) \<longleftrightarrow>
     (case map_of sh p of None \<Rightarrow> False | Some b \<Rightarrow> b \<noteq> Moved_sink)"

definition alive :: "sink list \<Rightarrow> system \<Rightarrow> bool" where
  "alive ss y \<longleftrightarrow> (\<forall>s \<in> set ss. sink_alive (y_shared y) s)"

definition grows :: "system \<Rightarrow> system \<Rightarrow> bool" where
  "grows y y' \<longleftrightarrow> (\<forall>s. sink_alive (y_shared y) s \<longrightarrow> sink_alive (y_shared y') s)"

lemma base_write_alive:
  "b \<noteq> Moved_sink \<Longrightarrow> \<exists>e b' w'. base_write m b w = Some (e, b', w') \<and> b' \<noteq> Moved_sink"
  by (cases b) (auto split: prod.split)

lemma base_flush_alive: "b \<noteq> Moved_sink \<Longrightarrow> \<exists>w'. base_flush b w = Some w'"
  by (cases b) auto

lemma sink_write_alive:
  assumes "sink_alive (y_shared y) s"
  shows "\<exists>e s' y'. sink_write m s y = Some (e, s', y') \<and> sink_alive (y_shared y') s' \<and> grows y y'"
proof (cases s)
  case (Own b)
  with assms base_write_alive[of b m "y_world y"] show ?thesis by (auto simp: grows_def)
next
  case (Shared_sink p)
  with assms obtain b where b: "map_of (y_shared y) p = Some b" "b \<noteq> Moved_sink" by (auto split: option.splits)
  obtain e b' w' where w: "base_write m b (y_world y) = Some (e, b', w')" "b' \<noteq> Moved_sink"
    using base_write_alive[OF b(2)] by blast
  have "sink_alive (y_shared y) t \<Longrightarrow> sink_alive (AList.update p b' (y_shared y)) t" for t
    using w(2) by (cases t) (auto simp: update_conv)
  with Shared_sink b w show ?thesis by (auto simp: shared_write_def grows_def update_conv)
qed

lemma sink_flush_alive:
  assumes "sink_alive (y_shared y) s"
  shows "\<exists>y'. sink_flush s y = Some y' \<and> y_shared y' = y_shared y"
proof (cases s)
  case (Own b)
  with assms base_flush_alive[of b "y_world y"] show ?thesis by auto
next
  case (Shared_sink p)
  with assms obtain b where b: "map_of (y_shared y) p = Some b" "b \<noteq> Moved_sink" by (auto split: option.splits)
  with Shared_sink base_flush_alive[OF b(2), of "y_world y"] show ?thesis by (auto simp: shared_flush_def)
qed

lemma write_sinks_alive:
  assumes "alive ss y"
  shows "\<exists>e ss' y'. write_sinks m ss y = Some (e, ss', y') \<and> alive ss' y' \<and> grows y y'"
  using assms
proof (induction ss arbitrary: y)
  case Nil
  then show ?case by (simp add: grows_def)
next
  case (Cons s ss)
  obtain e s' y' where 1: "sink_write m s y = Some (e, s', y')" "sink_alive (y_shared y') s'" "grows y y'"
    using sink_write_alive[of y s m] Cons.prems by (auto simp: alive_def)
  have rest: "alive ss y'" using Cons.prems 1(3) by (auto simp: alive_def grows_def)
  show ?case
  proof (cases e)
    case (Some x)
    with 1 rest show ?thesis by (auto simp: alive_def)
  next
    case None
    obtain e2 ss2 y2 where 2: "write_sinks m ss y' = Some (e2, ss2, y2)" "alive ss2 y2" "grows y' y2"
      using Cons.IH[OF rest] by blast
    with None 1 show ?thesis by (auto simp: alive_def grows_def)
  qed
qed

lemma flush_sinks_alive: "alive ss y \<Longrightarrow> \<exists>y'. flush_sinks ss y = Some y' \<and> y_shared y' = y_shared y"
proof (induction ss arbitrary: y)
  case (Cons s ss)
  obtain y' where 1: "sink_flush s y = Some y'" "y_shared y' = y_shared y"
    using sink_flush_alive[of y s] Cons.prems by (auto simp: alive_def)
  have "alive ss y'" using Cons.prems 1(2) by (simp add: alive_def)
  from Cons.IH[OF this] 1 show ?case by auto
qed simp

lemma finish_alive:
  assumes "alive ss y"
  shows "\<exists>g' y'. catch (finish lvl g (Some (e, ss, y))) = Some (g', y') \<and> g' = g\<lparr>g_sinks := ss\<rparr> \<and>
    y_shared y' = y_shared y"
  using flush_sinks_alive[OF assms]
  by (cases e) (auto simp: finish_def catch_def report_def)

section \<open>Properties\<close>

text \<open>C1: end to end, for any number of sinks of any of the kinds that keep what they get and any
  run of calls: every stream ends with exactly the lines of the calls at or above the logger's
  level, in call order, each with a header rendered for that call, nothing lost, doubled or mixed.
  This holds while no file operation fails, for calls with plain text and sinks the logger owns
  that write to different targets and do not rotate.\<close>

theorem logger_run_delivers:
  assumes "logger_ok tz g" and "g_sinks g = map Own bs" and "sinks_ok bs (y_world y)"
    and "all_ok (y_world y)" and "calls_ok tz g cs" and "b \<in> set bs"
  shows "\<exists>g' y'. log_run tz cs g y = Some (g', y') \<and>
    sink_text b (y_world y') = sink_text b (y_world y) @
      concat (map (\<lambda>(tid, now, lvl, tx). sink_out b (msg_of (env_at tz tid) g now lvl tx))
        (filter (\<lambda>(tid, now, lvl, tx). should_log lvl g) cs))"
  using log_run_delivers[OF assms(1-5)] assms(6) unfolding shown_def by fastforce

text \<open>C24: a call at or above the flush level leaves nothing in the stdio buffers, as long as the operating system
  accepts what is written: on a logger that owns its sinks (null, stdout, file and console sinks, each with a stream of its
  own), when no \<open>fwrite\<close> or \<open>fflush\<close> fails from the call on, the call with a string at a level that is shown and reaches the flush
  level returns, the line is then the last line of every sink's stream, and no stream has buffered bytes.\<close>

theorem flush_level_durable:
  assumes "logger_ok tz g" and "g_sinks g = map Own bs" and "sinks_ok bs (y_world y)"
    and "all_ok (y_world y)" and "call_ok (env_at tz tid) (f_opts (g_formatter g)) (now, lvl)"
    and "should_log lvl g" and "should_flush lvl g" and "b \<in> set bs"
  shows "\<exists>g' y'. log_text (env_at tz tid) now lvl tx g y = Some (g', y') \<and> sink_durable b (y_world y') \<and>
    sink_text b (y_world y') = sink_text b (y_world y) @ sink_out b (msg_of (env_at tz tid) g now lvl tx)"
  using log_text_delivers[OF assms(1-6), of tx] assms(7,8) by fastforce

lemma log_text_returns:
  assumes "logger_ok (e_tz env) g" and "alive (g_sinks g) y"
    and "call_ok env (f_opts (g_formatter g)) (now, lvl)"
  shows "\<exists>g' y'. log_text env now lvl tx g y = Some (g', y') \<and> logger_ok (e_tz env) g' \<and>
    alive (g_sinks g') y' \<and> same_logger g g'"
proof (cases "should_log lvl g")
  case False
  with assms show ?thesis by (simp add: log_text_def same_logger_def)
next
  case True
  obtain f b where f: "logger_ok (e_tz env) (g\<lparr>g_formatter := f, g_buf := b\<rparr>)"
    "f_opts f = f_opts (g_formatter g)"
    "log_sv env now lvl tx g y = catch (finish lvl (g\<lparr>g_formatter := f, g_buf := b\<rparr>)
        (write_sinks (msg_of env g now lvl tx) (g_sinks g) y))"
    using log_sv_message_lemma[OF assms(1,3), of tx y] by blast
  obtain e ss y1 where w: "write_sinks (msg_of env g now lvl tx) (g_sinks g) y = Some (e, ss, y1)" "alive ss y1"
    using write_sinks_alive[OF assms(2)] by blast
  obtain g' y' where r: "catch (finish lvl (g\<lparr>g_formatter := f, g_buf := b\<rparr>) (Some (e, ss, y1))) = Some (g', y')"
    "g' = g\<lparr>g_formatter := f, g_buf := b, g_sinks := ss\<rparr>" "y_shared y' = y_shared y1"
    using finish_alive[OF w(2)] by fastforce
  have "log_text env now lvl tx g y = Some (g', y')" using True f(3) w(1) r(1) by (simp add: log_text_def)
  moreover have "logger_ok (e_tz env) g'" "same_logger g g'" "alive (g_sinks g') y'"
    using f(1,2) r(2,3) w(2) by (simp_all add: logger_ok_def same_logger_def alive_def)
  ultimately show ?thesis by blast
qed

lemma format_error_report:
  assumes "logger_ok (e_tz env) g" and "call_ok env (f_opts (g_formatter g)) (now, lvl)"
    and "should_log lvl g" and "vformat fmt args = (out, Some x)"
  shows "\<exists>g'. log_fmt vformat env now lvl fmt args g y = Some (g', report x y) \<and>
    logger_ok (e_tz env) g' \<and> same_logger g g' \<and> g_sinks g' = g_sinks g"
proof -
  from assms(1) have inv: "formatter_inv env (g_name g) (g_formatter g)" "mb_inv memory_buf_size (g_buf g)"
    by (simp_all add: logger_ok_env)
  have t: "0 \<le> now" "now div 1000000000 \<noteq> 0 \<or> f_last_secs (g_formatter g) \<noteq> 0"
    "year_ok env (f_opts (g_formatter g)) (now div 1000000000)" "lvl \<noteq> N_levels"
    using assms(2) by (auto simp: call_ok_def)
  obtain f h where f: "format_header env now lvl (g_formatter g) = Some (f, h)"
    "formatter_inv env (g_name g) f" "f_opts f = f_opts (g_formatter g)"
    using format_header_step[OF inv(1) t] by blast
  let ?b = "mb_app out (mb_app h (buf_clear (g_buf g)))"
  have b: "mb_inv memory_buf_size ?b" using inv(2) mb_clear_spec mb_app_spec by blast
  have "log_fmt vformat env now lvl fmt args g y = Some (g\<lparr>g_formatter := f, g_buf := ?b\<rparr>, report x y)"
    using assms(3) by (simp add: log_fmt_def log_fmt_args_def f(1) assms(4) Let_def catch_def)
  with f(2,3) b show ?thesis by (simp add: logger_ok_env same_logger_def)
qed

lemma log_fmt_text: "vformat fmt args = (t, None) \<Longrightarrow> log_fmt vformat env now lvl fmt args g y = log_text env now lvl t g y"
  by (cases "format_header env now lvl (g_formatter g)")
    (auto simp: log_fmt_def log_fmt_args_def log_text_def log_sv_def Let_def)

lemma log_fmt_returns:
  assumes "logger_ok (e_tz env) g" and "alive (g_sinks g) y"
    and "call_ok env (f_opts (g_formatter g)) (now, lvl)"
  shows "\<exists>g' y'. log_fmt vformat env now lvl fmt args g y = Some (g', y') \<and> logger_ok (e_tz env) g' \<and>
    alive (g_sinks g') y' \<and> same_logger g g'"
proof (cases "should_log lvl g")
  case False
  with assms show ?thesis by (simp add: log_fmt_def same_logger_def)
next
  case True
  obtain t e where v: "vformat fmt args = (t, e)" by fastforce
  show ?thesis
  proof (cases e)
    case None
    with log_text_returns[OF assms, of t] v show ?thesis by (simp add: log_fmt_text)
  next
    case (Some x)
    then show ?thesis
      using format_error_report[OF assms(1,3) True, of vformat fmt args t x y] v assms(2) by (auto simp: alive_def report_def)
  qed
qed

text \<open>C8: neither logging function lets an exception out, and none spoils the logger: in every world, with sinks that throw
  or not, shared or owned, the call with a string and the call with a format string and packed arguments, whatever the
  formatting throws, return, keep the logger's invariant and its configuration, and leave every sink usable for the next
  call.  (Packing the arguments is done before, outside the function.)\<close>

theorem log_never_throws:
  assumes "logger_ok (e_tz env) g" and "alive (g_sinks g) y"
    and "call_ok env (f_opts (g_formatter g)) (now, lvl)"
  shows "(\<exists>g' y'. log_text env now lvl tx g y = Some (g', y') \<and> logger_ok (e_tz env) g' \<and>
      alive (g_sinks g') y' \<and> same_logger g g') \<and>
    (\<exists>g' y'. log_fmt vformat env now lvl fmt args g y = Some (g', y') \<and> logger_ok (e_tz env) g' \<and>
      alive (g_sinks g') y' \<and> same_logger g g')"
  using log_text_returns[OF assms, of tx] log_fmt_returns[OF assms, of vformat fmt args] by (rule conjI)

text \<open>C25: a formatting error reaches no sink: the partly formatted text is dropped, the error goes to
  \<open>stderr\<close>, and the logger's configuration and invariant stand.\<close>

theorem format_error_isolated:
  assumes "logger_ok (e_tz env) g" and "call_ok env (f_opts (g_formatter g)) (now, lvl)"
    and "should_log lvl g" and "vformat fmt args = (out, Some x)"
  shows "\<exists>g'. log_fmt vformat env now lvl fmt args g y = Some (g', report x y) \<and>
    logger_ok (e_tz env) g' \<and> same_logger g g' \<and> g_sinks g' = g_sinks g"
  using assms by (rule format_error_report)

text \<open>The compile-time gate never hides a line the logger would show, as long as the active
  level is not above the logger's: the macro and the call behave alike.\<close>

theorem gate_transparent:
  assumes "active \<le> level_code (g_level g)"
  shows "gated_log active env now lvl msg g y = log_text env now lvl msg g y"
  using assms
  by (auto simp: gated_log_def gate_def log_text_def should_log_def less_eq_level_def)

text \<open>Moving a logger: the new one is in its invariant with the old one's name, levels, sinks and
  options, and the old one is silent for every level below \<open>off\<close>, so it never touches the
  sinks that moved away.\<close>

theorem move_logger_silences:
  assumes "logger_ok tz g" and "move_logger g = (new, old)"
  shows "logger_ok tz new \<and> same_logger g new \<and> g_sinks new = g_sinks g \<and>
    (lvl < Off \<longrightarrow> log_text env now lvl msg old y = Some (old, y))"
proof -
  obtain nb ob where b: "mb_move memory_buf_size (g_buf g) = (nb, ob)" by fastforce
  have "mb_inv memory_buf_size nb" using mb_move_spec[OF _ b] assms(1) by (simp add: logger_ok_def)
  with assms b show ?thesis
    by (auto simp: move_logger_def logger_ok_def same_logger_def log_text_def should_log_def)
qed

lemma set_name_ok: "logger_ok tz g \<Longrightarrow> logger_ok tz (set_name n g)"
  by (simp add: logger_ok_def set_name_def set_logger_name_def rebuild_header_inv)

lemma set_format_options_ok: "logger_ok tz g \<Longrightarrow> logger_ok tz (set_format_options o' g)"
  by (simp add: logger_ok_def set_format_options_def)

lemma mk_logger_ok [simp]: "logger_ok tz (mk_logger name ss)"
  by (simp add: logger_ok_def mk_logger_def)

section \<open>Examples\<close>

text \<open>A logger with a plain and a coloured sink on the two terminals, at level \<open>info\<close>.\<close>

definition two_sinks :: "base_sink list" where
  "two_sinks = [Stdout_sink mk_stdout_sink, Console_sink (mk_console_err_sink C_always clean_world)]"

definition sample_logger :: logger where
  "sample_logger = (mk_logger ''app'' (map Own two_sinks))\<lparr>g_flush_level := Err\<rparr>"

definition sample_system :: system where
  "sample_system = \<lparr>y_world = clean_world, y_shared = []\<rparr>"

definition sample_calls :: "log_call list" where
  "sample_calls = [(77, 1775817045123000000, Warn, ''one''), (77, 1775817045124000000, Debug, ''two''),
     (77, 1775817044999000000, Err, ''three'')]"

lemma sample_logger_ok:
  "logger_ok (\<lambda>_. 0) sample_logger" "g_sinks sample_logger = map Own two_sinks"
  "sinks_ok two_sinks (y_world sample_system)" "all_ok (y_world sample_system)"
  "calls_ok (\<lambda>_. 0) sample_logger sample_calls" "Stdout_sink mk_stdout_sink \<in> set two_sinks"
  "alive (g_sinks sample_logger) sample_system"
proof -
  show "logger_ok (\<lambda>_. 0) sample_logger" by (simp add: logger_ok_def sample_logger_def mk_logger_def)
  show "g_sinks sample_logger = map Own two_sinks" by (simp add: sample_logger_def mk_logger_def)
  show "all_ok (y_world sample_system)" by (simp add: sample_system_def all_ok_def clean_world_def)
  show "Stdout_sink mk_stdout_sink \<in> set two_sinks" by (simp add: two_sinks_def)
  show "alive (g_sinks sample_logger) sample_system"
    by (simp add: alive_def sample_logger_def mk_logger_def two_sinks_def)
  show "sinks_ok two_sinks (y_world sample_system)"
    by (simp add: sinks_ok_def two_sinks_def sample_system_def apart_def mk_stdout_sink_def
        mk_console_err_sink_def mk_console_def update_should_color_def console_ready_def stream_open_def
        stream_target_def clean_world_def stdout_h_def stderr_h_def)
  have tm: "gmtime_r 1775817045 = \<lparr>tm_year = 126, tm_mon = 3, tm_mday = 10, tm_hour = 10, tm_min = 30, tm_sec = 45\<rparr>"
    by (rule utc_tm_examples)
  show "calls_ok (\<lambda>_. 0) sample_logger sample_calls"
    by (simp add: calls_ok_def sample_calls_def sample_logger_def mk_logger_def header_eval)
qed

theorem logger_run_delivers_witness:
  "\<exists>g' y'. log_run (\<lambda>_. 0) sample_calls sample_logger sample_system = Some (g', y') \<and>
     stream_text stdout_h (y_world y') =
       ''[2026-04-10 10:30:45.123] [app] [WRN] one\<newline>[2026-04-10 10:30:44.999] [app] [ERR] three\<newline>''"
proof -
  have "filter (\<lambda>(tid, now, lvl, tx). should_log lvl sample_logger) sample_calls =
      [(77, 1775817045123000000, Warn, ''one''), (77, 1775817044999000000, Err, ''three'')]"
    by (simp add: sample_calls_def should_log_def sample_logger_def mk_logger_def less_eq_level_def)
  moreover have "sink_text (Stdout_sink mk_stdout_sink) (y_world sample_system) = []"
    by (simp add: sink_text_def mk_stdout_sink_def stream_text_def stream_content_def sample_system_def
        clean_world_def stdout_h_def)
  ultimately show ?thesis
    using logger_run_delivers[OF sample_logger_ok(1-6)]
    by (simp add: sink_text_def mk_stdout_sink_def sink_out_def msg_of_def mk_log_msg_def line_of_def
        sample_logger_def mk_logger_def header_eval)
qed

theorem flush_level_durable_witness:
  "\<exists>g' y'. log_text (env_at (\<lambda>_. 0) 77) 1775817044999000000 Err ''three'' sample_logger sample_system = Some (g', y') \<and>
     sink_durable (Stdout_sink mk_stdout_sink) (y_world y')"
proof -
  have c: "call_ok (env_at (\<lambda>_. 0) 77) (f_opts (g_formatter sample_logger)) (1775817044999000000, Err)"
    using sample_logger_ok(5) by (simp add: calls_ok_def sample_calls_def)
  have l: "should_log Err sample_logger" "should_flush Err sample_logger"
    by (simp_all add: should_log_def should_flush_def sample_logger_def mk_logger_def less_eq_level_def)
  from flush_level_durable[OF sample_logger_ok(1-4) c l sample_logger_ok(6)] show ?thesis by blast
qed

text \<open>A formatting function that stops at a missing second argument.\<close>

definition sample_vformat :: "string \<Rightarrow> string list \<Rightarrow> string \<times> exn option" where
  "sample_vformat f as = (case as of
     [a] \<Rightarrow> (a, Some (Format_error ''argument not found'')) | _ \<Rightarrow> (concat as, None))"

theorem log_never_throws_witness:
  "\<exists>g' y'. log_fmt sample_vformat (env_at (\<lambda>_. 0) 77) 1775817044999000000 Err ''{} {}'' [''12''] sample_logger
      (sample_system\<lparr>y_world := clean_world\<lparr>w_oracle := (\<lambda>_. False)\<rparr>\<rparr>) = Some (g', y')"
proof -
  let ?broken = "clean_world\<lparr>w_oracle := (\<lambda>_. False)\<rparr>"
  have c: "call_ok (env_at (\<lambda>_. 0) 77) (f_opts (g_formatter sample_logger)) (1775817044999000000, Err)"
    using sample_logger_ok(5) by (simp add: calls_ok_def sample_calls_def)
  have a: "alive (g_sinks sample_logger) (sample_system\<lparr>y_world := ?broken\<rparr>)"
    using sample_logger_ok(7) by (simp add: alive_def sample_system_def)
  have g: "logger_ok (e_tz (env_at (\<lambda>_. 0) 77)) sample_logger" using sample_logger_ok(1) by simp
  show ?thesis using log_never_throws[where vformat = sample_vformat, OF g a c] by blast
qed

theorem format_error_isolated_witness:
  "\<exists>g'. log_fmt sample_vformat (env_at (\<lambda>_. 0) 77)
      1775817044999000000 Err ''{} {}'' [''12''] sample_logger sample_system =
    Some (g', report (Format_error ''argument not found'') sample_system)"
proof -
  have c: "call_ok (env_at (\<lambda>_. 0) 77) (f_opts (g_formatter sample_logger)) (1775817044999000000, Err)"
    using sample_logger_ok(5) by (simp add: calls_ok_def sample_calls_def)
  have l: "should_log Err sample_logger"
    by (simp add: should_log_def sample_logger_def mk_logger_def less_eq_level_def)
  have g: "logger_ok (e_tz (env_at (\<lambda>_. 0) 77)) sample_logger" using sample_logger_ok(1) by simp
  have v: "sample_vformat ''{} {}'' [''12''] = (''12'', Some (Format_error ''argument not found''))"
    by (simp add: sample_vformat_def)
  show ?thesis using format_error_isolated[where vformat = sample_vformat, OF g c l v] by blast
qed

theorem gate_transparent_witness:
  "gated_log 2 utc_env 0 Debug ''x'' sample_logger sample_system = log_text utc_env 0 Debug ''x'' sample_logger sample_system"
  by (rule gate_transparent) (simp add: sample_logger_def mk_logger_def)

theorem move_logger_silences_witness:
  "log_text utc_env 1775817044999000000 Critical ''x'' (snd (move_logger sample_logger)) sample_system =
     Some (snd (move_logger sample_logger), sample_system)"
proof -
  obtain a b where m: "move_logger sample_logger = (a, b)" by fastforce
  have "Critical < Off" by (simp add: less_level_def)
  with move_logger_silences[OF sample_logger_ok(1) m] m show ?thesis by auto
qed

end
