(* ===== verification/Logger_Format.thy ===== *)
theory Logger_Format
  imports Logger_Props Fmt_Checker
begin

text \<open>
  The logger with the formatting library: a logging call with a format string and arguments, down to
  the bytes in the files behind the sinks.
\<close>

section \<open>Calls with arguments\<close>

text \<open>
  \<open>dispatch_fmt_\<close> and \<open>log\<close>.  The argument list is made outside the \<open>try\<close> block of a \<open>noexcept\<close>
  function: when it throws (two arguments of one name), the program is terminated, which is \<open>None\<close>
  here.
\<close>

definition dispatch_fmt ::
    "env \<Rightarrow> clock_env \<Rightarrow> int \<Rightarrow> level \<Rightarrow> string \<Rightarrow> (string option \<times> arg_value) list \<Rightarrow>
     logger \<Rightarrow> system \<Rightarrow> (logger \<times> system) option" where
  "dispatch_fmt fenv env now lvl fmt_str args g y =
     (case make_format_args args of
        Inl e \<Rightarrow> None
      | Inr fargs \<Rightarrow>
          (case vformat_to fenv fmt_str fargs of
             None \<Rightarrow> None
           | Some r \<Rightarrow> log_fmt_args (\<lambda>_ _. r) env now lvl fmt_str [fargs] g y))"

definition log_formatted ::
    "env \<Rightarrow> clock_env \<Rightarrow> int \<Rightarrow> level \<Rightarrow> string \<Rightarrow> (string option \<times> arg_value) list \<Rightarrow>
     logger \<Rightarrow> system \<Rightarrow> (logger \<times> system) option" where
  "log_formatted fenv env now lvl fmt_str args g y =
     (if should_log lvl g then dispatch_fmt fenv env now lvl fmt_str args g y else Some (g, y))"

lemma plain_args_made: "length vs < 2 ^ 31 \<Longrightarrow> \<exists>args. make_format_args (map (Pair None) vs) = Inr args"
proof -
  assume "length vs < 2 ^ 31"
  moreover have "arg_names (map (Pair None) vs) = []" by (induction vs) (auto simp: arg_names_def map_filter_simps)
  ultimately show ?thesis using format_args_get[of "map (Pair None) vs"] by (auto split: sum.splits)
qed

text \<open>When formatting succeeds, the call is one with the text.\<close>

lemma log_formatted_text:
  assumes "make_format_args args = Inr fargs" "vformat_to fenv fmt_str fargs = Some (t, None)"
  shows "log_formatted fenv env now lvl fmt_str args g y = log_text env now lvl t g y"
  by (cases "format_header env now lvl (g_formatter g)")
    (auto simp: log_formatted_def dispatch_fmt_def assms log_text_def log_sv_def log_fmt_args_def Let_def)

lemma log_formatted_throws:
  assumes "make_format_args args = Inr fargs" "vformat_to fenv fmt_str fargs = Some (t, Some x)"
  shows "log_formatted fenv env now lvl fmt_str args g y = log_fmt (\<lambda>_ _. (t, Some x)) env now lvl fmt_str [fargs] g y"
  by (simp add: log_formatted_def dispatch_fmt_def assms log_fmt_def)

text \<open>C9: From the format string to the files: a logging call with a template and its arguments appends to
  every sink the header and the text with the arguments in place; with an argument too few, it
  appends nothing anywhere and reports the error on \<open>stderr\<close>.  This holds while no file operation
  fails, for a call the level lets through, arguments of plain types, and sinks the logger owns that write to different
  targets and do not rotate.\<close>

theorem log_template_delivers:
  assumes "logger_ok tz g" "g_sinks g = map Own bs" "sinks_ok bs (y_world y)" "all_ok (y_world y)"
    "call_ok (env_at tz tid) (f_opts (g_formatter g)) (now, lvl)" "should_log lvl g"
    "length vs < 2 ^ 31" "map plain_text vs = map Some ts"
  shows "\<exists>g' y'. log_formatted fenv (env_at tz tid) now lvl (template_text ps) (map (Pair None) vs) g y = Some (g', y') \<and>
    (if fields ps \<le> length vs
     then \<forall>b\<in>set bs. sink_text b (y_world y') =
       sink_text b (y_world y) @ sink_out b (msg_of (env_at tz tid) g now lvl (render ps ts))
     else y' = report (Format_error ''argument not found'') y)"
proof -
  obtain args where a: "make_format_args (map (Pair None) vs) = Inr args" using plain_args_made[OF assms(7)] by blast
  note v = template_formats[OF a assms(7,8), of fenv ps]
  show ?thesis
  proof (cases "fields ps \<le> length vs")
    case True
    then have "vformat_to fenv (template_text ps) args = Some (render ps ts, None)" using v by simp
    from log_formatted_text[OF a this] show ?thesis
      using log_text_delivers[OF assms(1-6), of "render ps ts"] True by fastforce
  next
    case False
    then have "vformat_to fenv (template_text ps) args = Some (render ps ts, Some (Format_error ''argument not found''))"
      using v by simp
    note f = log_formatted_throws[OF a this]
    have "logger_ok (e_tz (env_at tz tid)) g" using assms(1) by simp
    from format_error_report[OF this assms(5,6) refl] show ?thesis using f False by fastforce
  qed
qed

theorem log_template_delivers_witness:
  "\<exists>g' y'. log_formatted plain_env (env_at (\<lambda>_. 0) 77) 1775817044999000000 Err ''{} of {{}}''
      [(None, V_string ''one'')] sample_logger sample_system = Some (g', y') \<and>
    sink_text (Stdout_sink mk_stdout_sink) (y_world y') = sink_text (Stdout_sink mk_stdout_sink) (y_world sample_system) @
      sink_out (Stdout_sink mk_stdout_sink)
        (msg_of (env_at (\<lambda>_. 0) 77) sample_logger 1775817044999000000 Err ''one of {}'')"
proof -
  have c: "call_ok (env_at (\<lambda>_. 0) 77) (f_opts (g_formatter sample_logger)) (1775817044999000000, Err)"
    using sample_logger_ok(5) by (simp add: calls_ok_def sample_calls_def)
  have l: "should_log Err sample_logger"
    by (simp add: should_log_def sample_logger_def mk_logger_def less_eq_level_def)
  have t: "template_text [Field, Literal '' of {}''] = ''{} of {{}}''"
    by (simp add: template_text_def double_brace.simps)
  have v: "map plain_text [V_string ''one''] = map Some [''one'']" by simp
  show ?thesis
    using log_template_delivers[OF sample_logger_ok(1-4) c l _ v, of plain_env "[Field, Literal '' of {}'']"]
      sample_logger_ok(6) unfolding t by (simp, blast)
qed

end
