(* ===== verification/Logger_Threads.thy ===== *)
theory Logger_Threads
  imports Logger_Props
begin

text \<open>
  One logger used by many threads: the steps of a logging call, before and under the logger's
  mutex, and the operations that change the logger, in any interleaving.
\<close>

section \<open>The steps of a call\<close>

text \<open>\<open>log_sv_\<close> up to the header, and the payload; \<open>deliver\<close> is the rest.\<close>

definition header_stage :: "clock_env \<Rightarrow> int \<Rightarrow> level \<Rightarrow> logger \<Rightarrow> (logger \<times> nat) option" where
  "header_stage env now lvl g =
     (case format_header env now lvl (g_formatter g) of
        None \<Rightarrow> None
      | Some (f, h) \<Rightarrow>
          let b = mb_app h (buf_clear (g_buf g)) in Some (g\<lparr>g_formatter := f, g_buf := b\<rparr>, b_size b))"

definition payload_stage :: "string \<Rightarrow> logger \<Rightarrow> logger" where
  "payload_stage sv g = g\<lparr>g_buf := mb_app sv (g_buf g)\<rparr>"

lemma log_sv_stages:
  "log_sv env now lvl sv g y =
     (case header_stage env now lvl g of
        None \<Rightarrow> None
      | Some (g, start) \<Rightarrow> catch (deliver now lvl start (payload_stage sv g) y))"
  by (cases "format_header env now lvl (g_formatter g)")
    (auto simp: log_sv_def header_stage_def payload_stage_def Let_def catch_def)

section \<open>Operations, one after another\<close>

datatype log_op =
    Line_op u64 int level string
  | Name_op string
  | Options_op format_options
  | Flush_op
  | Level_op level
  | Flush_level_op level

fun run_op :: "(int \<Rightarrow> int) \<Rightarrow> log_op \<Rightarrow> logger \<times> system \<Rightarrow> (logger \<times> system) option" where
  "run_op tz (Line_op tid now lvl sv) (g, y) = log_sv (env_at tz tid) now lvl sv g y"
| "run_op tz (Name_op n) (g, y) = Some (set_name n g, y)"
| "run_op tz (Options_op opts) (g, y) = Some (set_format_options opts g, y)"
| "run_op tz Flush_op (g, y) = map_option (Pair g) (flush_logger g y)"
| "run_op tz (Level_op lvl) (g, y) = Some (set_log_level lvl g, y)"
| "run_op tz (Flush_level_op lvl) (g, y) = Some (set_flush_level lvl g, y)"

fun run_ops :: "(int \<Rightarrow> int) \<Rightarrow> log_op list \<Rightarrow> logger \<times> system \<Rightarrow> (logger \<times> system) option" where
  "run_ops tz [] p = Some p"
| "run_ops tz (c # cs) p = (case run_op tz c p of None \<Rightarrow> None | Some p \<Rightarrow> run_ops tz cs p)"

lemma run_ops_snoc: "run_ops tz (cs @ [c]) p = (case run_ops tz cs p of None \<Rightarrow> None | Some p \<Rightarrow> run_op tz c p)"
  by (induction cs arbitrary: p) (auto split: option.splits)

section \<open>Threads\<close>

text \<open>
  Where a thread is: outside, with the level checked, with the time taken, and then under the lock.
  The operations that take the lock as a whole wait for it and hold it.
\<close>

datatype thread_pc =
    Idle
  | Checked level string
  | Stamped int level string
  | Locked int level string
  | Headed int level string nat
  | Filled int level string nat
  | Wants log_op
  | Holds log_op
  | Finished

fun inside :: "thread_pc \<Rightarrow> bool" where
  "inside (Locked now lvl sv) = True"
| "inside (Headed now lvl sv start) = True"
| "inside (Filled now lvl sv start) = True"
| "inside (Holds c) = True"
| "inside Finished = True"
| "inside _ = False"

fun takes_lock :: "log_op \<Rightarrow> bool" where
  "takes_lock (Name_op n) = True"
| "takes_lock (Options_op opts) = True"
| "takes_lock Flush_op = True"
| "takes_lock _ = False"

fun stores_level :: "log_op \<Rightarrow> bool" where
  "stores_level (Level_op lvl) = True"
| "stores_level (Flush_level_op lvl) = True"
| "stores_level _ = False"

text \<open>The shared state; \<open>c_done\<close> is the list of the operations in the order they took effect.\<close>

record conc =
  c_logger :: logger
  c_system :: system
  c_mutex :: "nat option"
  c_threads :: "nat \<Rightarrow> thread_pc"
  c_done :: "log_op list"

definition at_pc :: "nat \<Rightarrow> thread_pc \<Rightarrow> conc \<Rightarrow> conc" where
  "at_pc t p s = s\<lparr>c_threads := (c_threads s)(t := p)\<rparr>"

text \<open>A time that the header can show, in whatever format it is asked for.\<close>

definition stamp_ok :: "(int \<Rightarrow> int) \<Rightarrow> int \<Rightarrow> level \<Rightarrow> bool" where
  "stamp_ok tz now lvl \<longleftrightarrow> (\<forall>tid opts. call_ok (env_at tz tid) opts (now, lvl))"

inductive conc_step :: "(int \<Rightarrow> int) \<Rightarrow> conc \<Rightarrow> conc \<Rightarrow> bool" for tz where
  call: "c_threads s t = Idle \<Longrightarrow> should_log lvl (c_logger s) \<Longrightarrow> lvl \<noteq> N_levels \<Longrightarrow>
    conc_step tz s (at_pc t (Checked lvl sv) s)"
| stamp: "c_threads s t = Checked lvl sv \<Longrightarrow> stamp_ok tz now lvl \<Longrightarrow>
    conc_step tz s (at_pc t (Stamped now lvl sv) s)"
| acquire: "c_threads s t = Stamped now lvl sv \<Longrightarrow> c_mutex s = None \<Longrightarrow>
    conc_step tz s (at_pc t (Locked now lvl sv) (s\<lparr>c_mutex := Some t\<rparr>))"
| header: "c_threads s t = Locked now lvl sv \<Longrightarrow>
    header_stage (env_at tz (of_nat t)) now lvl (c_logger s) = Some (g, start) \<Longrightarrow>
    conc_step tz s (at_pc t (Headed now lvl sv start) (s\<lparr>c_logger := g\<rparr>))"
| payload: "c_threads s t = Headed now lvl sv start \<Longrightarrow>
    conc_step tz s (at_pc t (Filled now lvl sv start) (s\<lparr>c_logger := payload_stage sv (c_logger s)\<rparr>))"
| deliver: "c_threads s t = Filled now lvl sv start \<Longrightarrow>
    catch (deliver now lvl start (c_logger s) (c_system s)) = Some (g, y) \<Longrightarrow>
    conc_step tz s (at_pc t Finished
      (s\<lparr>c_logger := g, c_system := y, c_done := c_done s @ [Line_op (of_nat t) now lvl sv]\<rparr>))"
| request: "c_threads s t = Idle \<Longrightarrow> takes_lock c \<Longrightarrow> conc_step tz s (at_pc t (Wants c) s)"
| enter: "c_threads s t = Wants c \<Longrightarrow> c_mutex s = None \<Longrightarrow>
    conc_step tz s (at_pc t (Holds c) (s\<lparr>c_mutex := Some t\<rparr>))"
| perform: "c_threads s t = Holds c \<Longrightarrow> run_op tz c (c_logger s, c_system s) = Some (g, y) \<Longrightarrow>
    conc_step tz s (at_pc t Finished (s\<lparr>c_logger := g, c_system := y, c_done := c_done s @ [c]\<rparr>))"
| release: "c_threads s t = Finished \<Longrightarrow> conc_step tz s (at_pc t Idle (s\<lparr>c_mutex := None\<rparr>))"
| store: "stores_level c \<Longrightarrow> run_op tz c (c_logger s, c_system s) = Some (g, y) \<Longrightarrow>
    conc_step tz s (s\<lparr>c_logger := g, c_done := c_done s @ [c]\<rparr>)"


inductive_cases conc_stepE: "conc_step tz s s'"

definition conc_start :: "logger \<Rightarrow> system \<Rightarrow> conc" where
  "conc_start g y = \<lparr>c_logger = g, c_system = y, c_mutex = None, c_threads = (\<lambda>_. Idle), c_done = []\<rparr>"

definition reachable :: "(int \<Rightarrow> int) \<Rightarrow> logger \<Rightarrow> system \<Rightarrow> conc \<Rightarrow> bool" where
  "reachable tz g y s \<longleftrightarrow> (conc_step tz)\<^sup>*\<^sup>* (conc_start g y) s"

lemma at_pc_simps [simp]:
  "c_logger (at_pc t p s) = c_logger s" "c_system (at_pc t p s) = c_system s" "c_mutex (at_pc t p s) = c_mutex s"
  "c_done (at_pc t p s) = c_done s" "c_threads (at_pc t p s) = (c_threads s)(t := p)"
  by (simp_all add: at_pc_def)

section \<open>The critical section\<close>

text \<open>What a thread under the lock has made of the state that the finished operations left.\<close>

fun staged :: "(int \<Rightarrow> int) \<Rightarrow> nat \<Rightarrow> thread_pc \<Rightarrow> logger \<times> system \<Rightarrow> logger \<times> system \<Rightarrow> bool" where
  "staged tz t (Headed now lvl sv start) (g0, y0) (g, y) \<longleftrightarrow>
     y = y0 \<and> header_stage (env_at tz (of_nat t)) now lvl g0 = Some (g, start)"
| "staged tz t (Filled now lvl sv start) (g0, y0) (g, y) \<longleftrightarrow>
     y = y0 \<and> (\<exists>g1. header_stage (env_at tz (of_nat t)) now lvl g0 = Some (g1, start) \<and> g = payload_stage sv g1)"
| "staged tz t _ p q \<longleftrightarrow> q = p"

definition serial :: "(int \<Rightarrow> int) \<Rightarrow> logger \<Rightarrow> system \<Rightarrow> conc \<Rightarrow> bool" where
  "serial tz g y s \<longleftrightarrow> (\<exists>p. run_ops tz (c_done s) (g, y) = Some p \<and>
     (case c_mutex s of
        None \<Rightarrow> (c_logger s, c_system s) = p \<and> (\<forall>t. \<not> inside (c_threads s t))
      | Some t \<Rightarrow> staged tz t (c_threads s t) p (c_logger s, c_system s) \<and> inside (c_threads s t) \<and>
          (\<forall>t'. t' \<noteq> t \<longrightarrow> \<not> inside (c_threads s t'))))"

lemma serial_freeI:
  "run_ops tz (c_done s) (g, y) = Some (c_logger s, c_system s) \<Longrightarrow> c_mutex s = None \<Longrightarrow>
   (\<And>t. \<not> inside (c_threads s t)) \<Longrightarrow> serial tz g y s"
  by (simp add: serial_def)

lemma serial_heldI:
  "run_ops tz (c_done s) (g, y) = Some p \<Longrightarrow> c_mutex s = Some t \<Longrightarrow>
   staged tz t (c_threads s t) p (c_logger s, c_system s) \<Longrightarrow> inside (c_threads s t) \<Longrightarrow>
   (\<And>t'. t' \<noteq> t \<Longrightarrow> \<not> inside (c_threads s t')) \<Longrightarrow> serial tz g y s"
  by (simp add: serial_def)

lemma serial_freeD:
  assumes "serial tz g y s" "c_mutex s = None"
  shows "run_ops tz (c_done s) (g, y) = Some (c_logger s, c_system s)" "\<not> inside (c_threads s t)"
  using assms by (auto simp: serial_def)

lemma serial_heldE:
  assumes "serial tz g y s" "inside (c_threads s t)"
  obtains g0 y0 where "run_ops tz (c_done s) (g, y) = Some (g0, y0)"
    "staged tz t (c_threads s t) (g0, y0) (c_logger s, c_system s)" "c_mutex s = Some t"
    "\<And>t'. t' \<noteq> t \<Longrightarrow> \<not> inside (c_threads s t')"
proof (cases "c_mutex s")
  case None
  then show ?thesis using serial_freeD(2)[OF assms(1)] assms(2) by blast
next
  case (Some u)
  obtain g0 y0 where p: "run_ops tz (c_done s) (g, y) = Some (g0, y0)"
    "staged tz u (c_threads s u) (g0, y0) (c_logger s, c_system s)" "\<forall>t'. t' \<noteq> u \<longrightarrow> \<not> inside (c_threads s t')"
    using assms(1) Some by (auto simp: serial_def)
  have "u = t" using p(3) assms(2) by metis
  with that p Some show ?thesis by blast
qed

lemma serial_outside:
  assumes "serial tz g y s" "\<not> inside (c_threads s t)" "\<not> inside p"
  shows "serial tz g y (at_pc t p s)"
proof (cases "c_mutex s")
  case None
  then show ?thesis using serial_freeD[OF assms(1)] assms(3) by (intro serial_freeI) auto
next
  case (Some u)
  then have u: "inside (c_threads s u)" using assms(1) by (auto simp: serial_def)
  then have "u \<noteq> t" using assms(2) by blast
  with serial_heldE[OF assms(1) u] Some assms(3) show ?thesis
    by (metis at_pc_simps fun_upd_apply serial_heldI u)
qed

text \<open>The levels are stored without the lock, which no stage notices.\<close>

lemma header_stage_levels:
  "header_stage env now lvl (set_log_level l g) = map_option (\<lambda>(g, n). (set_log_level l g, n)) (header_stage env now lvl g)"
  "header_stage env now lvl (set_flush_level l g) = map_option (\<lambda>(g, n). (set_flush_level l g, n)) (header_stage env now lvl g)"
  by (auto simp: header_stage_def set_log_level_def set_flush_level_def Let_def split: option.splits)

lemma payload_stage_levels:
  "payload_stage sv (set_log_level l g) = set_log_level l (payload_stage sv g)"
  "payload_stage sv (set_flush_level l g) = set_flush_level l (payload_stage sv g)"
  by (simp_all add: payload_stage_def set_log_level_def set_flush_level_def)

lemma staged_levels:
  assumes "staged tz t p (g0, y0) (g, y)"
  shows "staged tz t p (set_log_level l g0, y0) (set_log_level l g, y)"
    "staged tz t p (set_flush_level l g0, y0) (set_flush_level l g, y)"
  using assms by (cases p; force simp: header_stage_levels payload_stage_levels)+

lemma staged_store:
  assumes "stores_level c" "run_op tz c (g, y) = Some (g', y')" "staged tz t p (g0, y0) (g, y)"
  shows "\<exists>g1. run_op tz c (g0, y0) = Some (g1, y0) \<and> staged tz t p (g1, y0) (g', y) \<and> y' = y"
  using assms staged_levels[OF assms(3)] by (cases c) auto

lemma conc_step_serial: "conc_step tz s s' \<Longrightarrow> serial tz g y s \<Longrightarrow> serial tz g y s'"
proof (induction rule: conc_step.induct)
  case (acquire s t now lvl sv)
  then show ?case using serial_freeD[OF acquire(3,2)] by (intro serial_heldI[where t = t]) auto
next
  case (header s t now lvl sv g1 start)
  then have "inside (c_threads s t)" by simp
  with header(3) obtain g0 y0 where "run_ops tz (c_done s) (g, y) = Some (g0, y0)"
    "staged tz t (c_threads s t) (g0, y0) (c_logger s, c_system s)" "c_mutex s = Some t"
    "\<And>t'. t' \<noteq> t \<Longrightarrow> \<not> inside (c_threads s t')" by (rule serial_heldE) blast
  then show ?case using header(1,2) by (intro serial_heldI[where t = t]) auto
next
  case (payload s t now lvl sv start)
  then have "inside (c_threads s t)" by simp
  with payload(2) obtain g0 y0 where "run_ops tz (c_done s) (g, y) = Some (g0, y0)"
    "staged tz t (c_threads s t) (g0, y0) (c_logger s, c_system s)" "c_mutex s = Some t"
    "\<And>t'. t' \<noteq> t \<Longrightarrow> \<not> inside (c_threads s t')" by (rule serial_heldE) blast
  then show ?case using payload(1) by (intro serial_heldI[where t = t]) auto
next
  case (deliver s t now lvl sv start g1 y1)
  then have "inside (c_threads s t)" by simp
  with deliver(3) obtain g0 y0 where "run_ops tz (c_done s) (g, y) = Some (g0, y0)"
    "staged tz t (c_threads s t) (g0, y0) (c_logger s, c_system s)" "c_mutex s = Some t"
    "\<And>t'. t' \<noteq> t \<Longrightarrow> \<not> inside (c_threads s t')" by (rule serial_heldE) blast
  then show ?case using deliver(1,2) by (intro serial_heldI[where t = t]) (auto simp: run_ops_snoc log_sv_stages)
next
  case (enter s t c)
  then show ?case using serial_freeD[OF enter(3,2)] by (intro serial_heldI[where t = t]) auto
next
  case (perform s t c g1 y1)
  then have "inside (c_threads s t)" by simp
  with perform(3) obtain g0 y0 where "run_ops tz (c_done s) (g, y) = Some (g0, y0)"
    "staged tz t (c_threads s t) (g0, y0) (c_logger s, c_system s)" "c_mutex s = Some t"
    "\<And>t'. t' \<noteq> t \<Longrightarrow> \<not> inside (c_threads s t')" by (rule serial_heldE) blast
  then show ?case using perform(1,2) by (intro serial_heldI[where t = t]) (auto simp: run_ops_snoc)
next
  case (release s t)
  then have "inside (c_threads s t)" by simp
  with release(2) obtain g0 y0 where "run_ops tz (c_done s) (g, y) = Some (g0, y0)"
    "staged tz t (c_threads s t) (g0, y0) (c_logger s, c_system s)" "c_mutex s = Some t"
    "\<And>t'. t' \<noteq> t \<Longrightarrow> \<not> inside (c_threads s t')" by (rule serial_heldE) blast
  then show ?case using release(1) by (intro serial_freeI) auto
next
  case (store c s g1 y1)
  show ?case
  proof (cases "c_mutex s")
    case None
    then show ?thesis using store staged_store[OF store(1,2), of _ Idle "c_logger s" "c_system s"]
      serial_freeD[OF store(3) None] by (intro serial_freeI) (auto simp: run_ops_snoc)
  next
    case (Some t)
    then have i: "inside (c_threads s t)" using store(3) by (auto simp: serial_def)
    with store(3) obtain g0 y0 where p: "run_ops tz (c_done s) (g, y) = Some (g0, y0)"
      "staged tz t (c_threads s t) (g0, y0) (c_logger s, c_system s)"
      "\<And>t'. t' \<noteq> t \<Longrightarrow> \<not> inside (c_threads s t')" by (rule serial_heldE) blast
    from staged_store[OF store(1,2) p(2)] obtain g2 where
      "run_op tz c (g0, y0) = Some (g2, y0)" "staged tz t (c_threads s t) (g2, y0) (g1, c_system s)" by blast
    then show ?thesis using Some i p by (intro serial_heldI[where t = t]) (auto simp: run_ops_snoc)
  qed
qed (auto intro: serial_outside)

lemma reachable_serial: "reachable tz g y s \<Longrightarrow> serial tz g y s"
  unfolding reachable_def
proof (induction rule: rtranclp_induct)
  case base
  show ?case by (simp add: serial_def conc_start_def)
next
  case (step s s')
  then show ?case using conc_step_serial by blast
qed

section \<open>What every operation keeps\<close>

fun pc_ok :: "(int \<Rightarrow> int) \<Rightarrow> thread_pc \<Rightarrow> bool" where
  "pc_ok tz (Checked lvl sv) \<longleftrightarrow> lvl \<noteq> N_levels"
| "pc_ok tz (Stamped now lvl sv) \<longleftrightarrow> stamp_ok tz now lvl"
| "pc_ok tz (Locked now lvl sv) \<longleftrightarrow> stamp_ok tz now lvl"
| "pc_ok tz (Headed now lvl sv start) \<longleftrightarrow> stamp_ok tz now lvl"
| "pc_ok tz (Filled now lvl sv start) \<longleftrightarrow> stamp_ok tz now lvl"
| "pc_ok tz (Wants c) \<longleftrightarrow> takes_lock c"
| "pc_ok tz (Holds c) \<longleftrightarrow> takes_lock c"
| "pc_ok tz _ \<longleftrightarrow> True"

fun op_ok :: "(int \<Rightarrow> int) \<Rightarrow> log_op \<Rightarrow> bool" where
  "op_ok tz (Line_op tid now lvl sv) \<longleftrightarrow> stamp_ok tz now lvl"
| "op_ok tz _ \<longleftrightarrow> True"

definition conc_ok :: "(int \<Rightarrow> int) \<Rightarrow> conc \<Rightarrow> bool" where
  "conc_ok tz s \<longleftrightarrow> logger_ok tz (c_logger s) \<and> alive (g_sinks (c_logger s)) (c_system s) \<and>
     (\<forall>t. pc_ok tz (c_threads s t)) \<and> list_all (op_ok tz) (c_done s)"

lemma header_stage_keeps:
  assumes "logger_ok tz g" "stamp_ok tz now lvl"
  shows "\<exists>g' start. header_stage (env_at tz tid) now lvl g = Some (g', start) \<and> logger_ok tz g' \<and> g_sinks g' = g_sinks g"
proof -
  let ?env = "env_at tz tid"
  have inv: "formatter_inv ?env (g_name g) (g_formatter g)" "mb_inv memory_buf_size (g_buf g)"
    using assms(1) logger_ok_env[of ?env g] by simp_all
  have "call_ok ?env (f_opts (g_formatter g)) (now, lvl)" using assms(2) by (simp add: stamp_ok_def)
  then have t: "0 \<le> now" "now div 1000000000 \<noteq> 0 \<or> f_last_secs (g_formatter g) \<noteq> 0"
    "year_ok ?env (f_opts (g_formatter g)) (now div 1000000000)" "lvl \<noteq> N_levels"
    by (auto simp: call_ok_def)
  obtain f h where f: "format_header ?env now lvl (g_formatter g) = Some (f, h)" "formatter_inv ?env (g_name g) f"
    using format_header_step[OF inv(1) t] by blast
  let ?b = "mb_app h (buf_clear (g_buf g))"
  have "mb_inv memory_buf_size ?b" using inv(2) mb_clear_spec mb_app_spec by blast
  then have "logger_ok tz (g\<lparr>g_formatter := f, g_buf := ?b\<rparr>)" using f(2) logger_ok_env[of ?env] by simp
  then show ?thesis using f(1) by (simp add: header_stage_def Let_def)
qed

lemma payload_stage_keeps: "logger_ok tz g \<Longrightarrow> logger_ok tz (payload_stage sv g) \<and> g_sinks (payload_stage sv g) = g_sinks g"
  using mb_app_spec[of memory_buf_size "g_buf g" sv] by (simp add: logger_ok_def payload_stage_def)

lemma deliver_keeps:
  assumes "logger_ok tz g" "alive (g_sinks g) y"
  shows "\<exists>g' y'. catch (deliver now lvl start g y) = Some (g', y') \<and> logger_ok tz g' \<and> alive (g_sinks g') y'"
proof -
  let ?b = "mb_push_back (CHR 0x0A) (g_buf g)"
  have b: "mb_inv memory_buf_size ?b" using mbb.inv_push_back assms(1) by (simp add: logger_ok_def)
  define m where "m = mk_log_msg now (g_name g) lvl (mb_view ?b) (take (b_size (g_buf g) - start) (drop start (mb_view ?b)))
    (f_level_offset (g_formatter g))"
  have d: "deliver now lvl start g y = finish lvl (g\<lparr>g_buf := ?b\<rparr>) (write_sinks m (g_sinks g) y)"
    by (simp add: deliver_def Let_def finish_def should_flush_def m_def split: option.split prod.split)
  obtain e ss y1 where w: "write_sinks m (g_sinks g) y = Some (e, ss, y1)" "alive ss y1"
    using write_sinks_alive[OF assms(2)] by blast
  obtain g' y' where r: "catch (finish lvl (g\<lparr>g_buf := ?b\<rparr>) (Some (e, ss, y1))) = Some (g', y')"
    "g' = g\<lparr>g_buf := ?b, g_sinks := ss\<rparr>" "y_shared y' = y_shared y1"
    using finish_alive[OF w(2), of lvl "g\<lparr>g_buf := ?b\<rparr>" e] by auto
  have "alive ss y'" using w(2) r(3) by (simp add: alive_def)
  then show ?thesis using d w(1) r(1,2) b assms(1) by (simp add: logger_ok_def)
qed

lemma run_op_keeps:
  assumes "logger_ok tz g" "alive (g_sinks g) y" "takes_lock c \<or> stores_level c"
  shows "\<exists>g' y'. run_op tz c (g, y) = Some (g', y') \<and> logger_ok tz g' \<and> alive (g_sinks g') y'"
proof (cases c)
  case Flush_op
  obtain y' where "flush_sinks (g_sinks g) y = Some y'" "y_shared y' = y_shared y"
    using flush_sinks_alive[OF assms(2)] by blast
  then show ?thesis using Flush_op assms(1,2) by (simp add: flush_logger_def alive_def)
qed (use assms set_name_ok set_format_options_ok in
    \<open>auto simp: set_name_def set_format_options_def set_log_level_def set_flush_level_def logger_ok_def\<close>)

lemma conc_step_ok: "conc_step tz s s' \<Longrightarrow> conc_ok tz s \<Longrightarrow> conc_ok tz s'"
proof (induction rule: conc_step.induct)
  case (header s t now lvl sv g start)
  then have "stamp_ok tz now lvl" unfolding conc_ok_def by (metis pc_ok.simps(3))
  with header show ?case using header_stage_keeps[of tz "c_logger s" now lvl "of_nat t"] by (auto simp: conc_ok_def)
next
  case (payload s t now lvl sv start)
  then have "stamp_ok tz now lvl" unfolding conc_ok_def by (metis pc_ok.simps(4))
  with payload show ?case using payload_stage_keeps[of tz "c_logger s" sv] by (auto simp: conc_ok_def)
next
  case (deliver s t now lvl sv start g y)
  then have "stamp_ok tz now lvl" unfolding conc_ok_def by (metis pc_ok.simps(5))
  with deliver show ?case using deliver_keeps[of tz "c_logger s" "c_system s" now lvl start] by (auto simp: conc_ok_def)
next
  case (enter s t c)
  then have "takes_lock c" unfolding conc_ok_def by (metis pc_ok.simps(6))
  with enter show ?case by (auto simp: conc_ok_def)
next
  case (perform s t c g y)
  then have "takes_lock c" unfolding conc_ok_def by (metis pc_ok.simps(7))
  moreover then have "op_ok tz c" by (cases c) auto
  ultimately show ?case using perform run_op_keeps[of tz "c_logger s" "c_system s" c] by (auto simp: conc_ok_def)
next
  case (store c s g y)
  then have "op_ok tz c" by (cases c) auto
  moreover have "y = c_system s" using store(1,2) by (cases c) auto
  ultimately show ?case using store run_op_keeps[of tz "c_logger s" "c_system s" c] by (auto simp: conc_ok_def)
next
  case (acquire s t now lvl sv)
  then have "stamp_ok tz now lvl" unfolding conc_ok_def by (metis pc_ok.simps(2))
  with acquire show ?case by (auto simp: conc_ok_def)
qed (auto simp: conc_ok_def)

lemma reachable_ok:
  assumes "reachable tz g y s" "logger_ok tz g" "alive (g_sinks g) y"
  shows "conc_ok tz s"
  using assms(1) unfolding reachable_def
proof (induction rule: rtranclp_induct)
  case base
  show ?case using assms(2,3) by (simp add: conc_ok_def conc_start_def)
next
  case (step s s')
  then show ?case using conc_step_ok by blast
qed

section \<open>What the sinks hold\<close>

text \<open>The lines of a list of operations, one whole line after another.\<close>

fun ops_text :: "(int \<Rightarrow> int) \<Rightarrow> log_op list \<Rightarrow> logger \<Rightarrow> base_sink \<Rightarrow> string" where
  "ops_text tz [] g b = []"
| "ops_text tz (Line_op tid now lvl sv # cs) g b = sink_out b (msg_of (env_at tz tid) g now lvl sv) @ ops_text tz cs g b"
| "ops_text tz (Name_op n # cs) g b = ops_text tz cs (set_name n g) b"
| "ops_text tz (Options_op opts # cs) g b = ops_text tz cs (set_format_options opts g) b"
| "ops_text tz (Flush_op # cs) g b = ops_text tz cs g b"
| "ops_text tz (Level_op lvl # cs) g b = ops_text tz cs (set_log_level lvl g) b"
| "ops_text tz (Flush_level_op lvl # cs) g b = ops_text tz cs (set_flush_level lvl g) b"

lemma same_logger_set:
  assumes "same_logger g g'"
  shows "same_logger (set_name n g) (set_name n g')" "same_logger (set_format_options opts g) (set_format_options opts g')"
    "same_logger (set_log_level l g) (set_log_level l g')" "same_logger (set_flush_level l g) (set_flush_level l g')"
  using assms by (simp_all add: same_logger_def set_name_def set_format_options_def set_log_level_def set_flush_level_def
      set_logger_name_def Let_def)

lemma ops_text_cong: "same_logger g g' \<Longrightarrow> ops_text tz cs g' b = ops_text tz cs g b"
  by (induction tz cs g b arbitrary: g' rule: ops_text.induct)
    (simp_all add: same_logger_line same_logger_set)

lemma ops_text_sink: "same_sink b b' \<Longrightarrow> ops_text tz cs g b' = ops_text tz cs g b"
  by (induction tz cs g b rule: ops_text.induct) (simp_all add: same_sink_out)

lemma run_ops_delivers:
  assumes "logger_ok tz g" "g_sinks g = map Own bs" "sinks_ok bs (y_world y)" "all_ok (y_world y)"
    "list_all (op_ok tz) cs"
  shows "\<exists>g' w'. run_ops tz cs (g, y) = Some (g', y\<lparr>y_world := w'\<rparr>) \<and>
    (\<forall>b \<in> set bs. sink_text b w' = sink_text b (y_world y) @ ops_text tz cs g b)"
  using assms
proof (induction cs arbitrary: g bs y)
  case Nil
  show ?case by (intro exI[of _ g] exI[of _ "y_world y"]) simp
next
  case (Cons c cs)
  have ok: "list_all (op_ok tz) cs" using Cons.prems(5) by simp
  have set: ?case if "run_op tz c (g, y) = Some (g1, y)" "logger_ok tz g1" "g_sinks g1 = g_sinks g"
    "\<And>b. ops_text tz (c # cs) g b = ops_text tz cs g1 b" for g1
    using Cons.IH[OF that(2) _ Cons.prems(3,4) ok] that Cons.prems(2) by simp
  show ?case
  proof (cases c)
    case (Line_op tid now lvl sv)
    then have "call_ok (env_at tz tid) (f_opts (g_formatter g)) (now, lvl)"
      using Cons.prems(5) by (simp add: stamp_ok_def)
    from log_sv_delivers[OF Cons.prems(1-4) this, of sv] obtain g1 bs1 w1 where
      1: "log_sv (env_at tz tid) now lvl sv g y = Some (g1, y\<lparr>y_world := w1\<rparr>)" "logger_ok tz g1" "same_logger g g1"
      "g_sinks g1 = map Own bs1" "list_all2 same_sink bs bs1" "sinks_ok bs1 w1" "all_ok w1"
      "\<forall>b \<in> set bs. sink_text b w1 = sink_text b (y_world y) @ sink_out b (msg_of (env_at tz tid) g now lvl sv)"
      by blast
    obtain g2 w2 where 2: "run_ops tz cs (g1, y\<lparr>y_world := w1\<rparr>) = Some (g2, y\<lparr>y_world := w2\<rparr>)"
      "\<forall>b \<in> set bs1. sink_text b w2 = sink_text b w1 @ ops_text tz cs g1 b"
      using Cons.IH[OF 1(2,4) _ _ ok, of "y\<lparr>y_world := w1\<rparr>"] 1(6,7) by auto
    have "sink_text b w2 = sink_text b (y_world y) @ ops_text tz (c # cs) g b" if b: "b \<in> set bs" for b
    proof -
      from list_all2_partner[OF 1(5) b] obtain b' where b': "b' \<in> set bs1" "same_sink b b'" by blast
      have "sink_text b' w2 = sink_text b' w1 @ ops_text tz cs g1 b'" using 2(2) b'(1) by blast
      then have "sink_text b w2 = sink_text b w1 @ ops_text tz cs g b"
        using same_sink_out[OF b'(2)] ops_text_sink[OF b'(2)] ops_text_cong[OF 1(3)] by simp
      then show ?thesis using 1(8) b Line_op by simp
    qed
    then show ?thesis using 1(1) 2(1) Line_op by (intro exI[of _ g2] exI[of _ w2]) simp
  next
    case Flush_op
    obtain w1 where 1: "flush_sinks (map Own bs) y = Some (y\<lparr>y_world := w1\<rparr>)" "all_ok w1" "sinks_ok bs w1"
      "\<forall>b \<in> set bs. sink_text b w1 = sink_text b (y_world y)"
      using flush_sinks_spec[OF Cons.prems(4,3)] by blast
    obtain g2 w2 where "run_ops tz cs (g, y\<lparr>y_world := w1\<rparr>) = Some (g2, y\<lparr>y_world := w2\<rparr>)"
      "\<forall>b \<in> set bs. sink_text b w2 = sink_text b w1 @ ops_text tz cs g b"
      using Cons.IH[OF Cons.prems(1,2) _ _ ok, of "y\<lparr>y_world := w1\<rparr>"] 1(2,3) by auto
    then show ?thesis using 1(1,4) Flush_op Cons.prems(2) by (intro exI[of _ g2] exI[of _ w2]) (simp add: flush_logger_def)
  next
    case (Name_op n)
    show ?thesis by (rule set[of "set_name n g"])
      (use Name_op set_name_ok[OF Cons.prems(1)] in \<open>simp_all add: set_name_def\<close>)
  next
    case (Options_op opts)
    show ?thesis by (rule set[of "set_format_options opts g"])
      (use Options_op set_format_options_ok[OF Cons.prems(1)] in \<open>simp_all add: set_format_options_def\<close>)
  next
    case (Level_op l)
    show ?thesis by (rule set[of "set_log_level l g"])
      (use Level_op Cons.prems(1) in \<open>simp_all add: set_log_level_def logger_ok_def\<close>)
  next
    case (Flush_level_op l)
    show ?thesis by (rule set[of "set_flush_level l g"])
      (use Flush_level_op Cons.prems(1) in \<open>simp_all add: set_flush_level_def logger_ok_def\<close>)
  qed
qed

lemma sinks_ok_alive: "sinks_ok bs w \<Longrightarrow> alive (map Own bs) y"
  by (auto simp: sinks_ok_def alive_def list_all_iff)

section \<open>Finishing\<close>

text \<open>How many steps a thread is from the end of its call.\<close>

fun steps_left :: "thread_pc \<Rightarrow> nat" where
  "steps_left (Checked lvl sv) = 6"
| "steps_left (Stamped now lvl sv) = 5"
| "steps_left (Locked now lvl sv) = 4"
| "steps_left (Headed now lvl sv start) = 3"
| "steps_left (Filled now lvl sv start) = 2"
| "steps_left (Wants c) = 3"
| "steps_left (Holds c) = 2"
| "steps_left Finished = 1"
| "steps_left Idle = 0"

text \<open>A call that has begun and not yet taken effect.\<close>

definition pending :: "thread_pc \<Rightarrow> bool" where
  "pending p \<longleftrightarrow> p \<noteq> Idle \<and> p \<noteq> Finished"

definition clock_ok :: "(int \<Rightarrow> int) \<Rightarrow> bool" where
  "clock_ok tz \<longleftrightarrow> (\<forall>lvl. lvl \<noteq> N_levels \<longrightarrow> (\<exists>now. stamp_ok tz now lvl))"

definition advanced :: "nat \<Rightarrow> conc \<Rightarrow> conc \<Rightarrow> bool" where
  "advanced t s s' \<longleftrightarrow> (\<exists>p cs. c_threads s' = (c_threads s)(t := p) \<and> steps_left p < steps_left (c_threads s t) \<and>
     (c_mutex s' = None \<or> inside p) \<and> c_done s' = c_done s @ cs \<and>
     length cs = of_bool (pending (c_threads s t)) - of_bool (pending p) \<and> (pending p \<longrightarrow> pending (c_threads s t)))"

lemma advancedI:
  assumes "conc_step tz s (at_pc t p s1)" "steps_left p < steps_left (c_threads s t)" "c_mutex (at_pc t p s1) = None \<or> inside p"
    "c_threads s1 = c_threads s" "c_done s1 = c_done s @ cs"
    "length cs = of_bool (pending (c_threads s t)) - of_bool (pending p)" "pending p \<longrightarrow> pending (c_threads s t)"
  shows "\<exists>s'. conc_step tz s s' \<and> advanced t s s'"
  using assms unfolding advanced_def by (intro exI[of _ "at_pc t p s1"] conjI exI[of _ p] exI[of _ cs]) simp_all

lemma thread_advances:
  assumes "conc_ok tz s" "clock_ok tz" "c_threads s t \<noteq> Idle" "c_mutex s = None \<or> inside (c_threads s t)"
  shows "\<exists>s'. conc_step tz s s' \<and> advanced t s s'"
proof (cases "c_threads s t")
  case (Checked lvl sv)
  then have "lvl \<noteq> N_levels" using assms(1) unfolding conc_ok_def by (metis pc_ok.simps(1))
  then obtain now where "stamp_ok tz now lvl" using assms(2) by (auto simp: clock_ok_def)
  from conc_step.stamp[OF Checked this] show ?thesis
    by (rule advancedI; use Checked assms(4) in \<open>simp add: pending_def\<close>)
next
  case (Stamped now lvl sv)
  then have "c_mutex s = None" using assms(4) by simp
  from conc_step.acquire[OF Stamped this] show ?thesis
    by (rule advancedI; use Stamped in \<open>simp add: pending_def\<close>)
next
  case (Locked now lvl sv)
  then have "stamp_ok tz now lvl" using assms(1) unfolding conc_ok_def by (metis pc_ok.simps(3))
  then obtain g start where "header_stage (env_at tz (of_nat t)) now lvl (c_logger s) = Some (g, start)"
    using header_stage_keeps assms(1) unfolding conc_ok_def by blast
  from conc_step.header[OF Locked this] show ?thesis
    by (rule advancedI; use Locked in \<open>simp add: pending_def\<close>)
next
  case (Headed now lvl sv start)
  from conc_step.payload[OF Headed] show ?thesis
    by (rule advancedI; use Headed in \<open>simp add: pending_def\<close>)
next
  case (Filled now lvl sv start)
  obtain g y where "catch (deliver now lvl start (c_logger s) (c_system s)) = Some (g, y)"
    using deliver_keeps assms(1) unfolding conc_ok_def by blast
  from conc_step.deliver[OF Filled this] show ?thesis
    by (rule advancedI[where cs = "[Line_op (of_nat t) now lvl sv]"]; use Filled in \<open>simp add: pending_def\<close>)
next
  case (Wants c)
  then have "c_mutex s = None" using assms(4) by simp
  from conc_step.enter[OF Wants this] show ?thesis
    by (rule advancedI; use Wants in \<open>simp add: pending_def\<close>)
next
  case (Holds c)
  then have "takes_lock c" using assms(1) unfolding conc_ok_def by (metis pc_ok.simps(7))
  then obtain g y where "run_op tz c (c_logger s, c_system s) = Some (g, y)"
    using run_op_keeps assms(1) unfolding conc_ok_def by blast
  from conc_step.perform[OF Holds this] show ?thesis
    by (rule advancedI[where cs = "[c]"]; use Holds in \<open>simp add: pending_def\<close>)
next
  case Finished
  from conc_step.release[OF Finished, of tz] show ?thesis
    by (rule advancedI; use Finished in \<open>simp add: pending_def\<close>)
qed (use assms(3) in simp)

lemma advancedE:
  assumes "advanced t s s'"
  obtains p cs where "c_threads s' = (c_threads s)(t := p)" "steps_left p < steps_left (c_threads s t)"
    "c_mutex s' = None \<or> inside p" "c_done s' = c_done s @ cs"
    "length cs + of_bool (pending p) = of_bool (pending (c_threads s t))"
proof -
  obtain p cs where *: "c_threads s' = (c_threads s)(t := p)" "steps_left p < steps_left (c_threads s t)"
    "c_mutex s' = None \<or> inside p" "c_done s' = c_done s @ cs"
    "length cs = of_bool (pending (c_threads s t)) - of_bool (pending p)" "pending p \<longrightarrow> pending (c_threads s t)"
    using assms unfolding advanced_def by blast
  have "length cs + of_bool (pending p) = of_bool (pending (c_threads s t))" using *(5,6) by (cases "pending p") simp_all
  with that *(1-4) show ?thesis by blast
qed

lemma thread_finishes:
  assumes "conc_ok tz s" "clock_ok tz" "c_mutex s = None \<or> inside (c_threads s t)"
    "c_threads s t = Idle \<longrightarrow> c_mutex s = None"
  shows "\<exists>s' cs. (conc_step tz)\<^sup>*\<^sup>* s s' \<and> conc_ok tz s' \<and> c_threads s' = (c_threads s)(t := Idle) \<and> c_mutex s' = None \<and>
    c_done s' = c_done s @ cs \<and> length cs = of_bool (pending (c_threads s t))"
  using assms
proof (induction "steps_left (c_threads s t)" arbitrary: s rule: less_induct)
  case less
  show ?case
  proof (cases "c_threads s t = Idle")
    case True
    then have "c_threads s = (c_threads s)(t := Idle)" by auto
    with True less.prems show ?thesis by (intro exI[of _ s] exI[of _ "[]"]) (simp add: pending_def)
  next
    case False
    obtain s1 where s1: "conc_step tz s s1" "advanced t s s1"
      using thread_advances[OF less.prems(1,2) False less.prems(3)] by blast
    from advancedE[OF s1(2)] obtain p cs where p: "c_threads s1 = (c_threads s)(t := p)"
      "steps_left p < steps_left (c_threads s t)" "c_mutex s1 = None \<or> inside p" "c_done s1 = c_done s @ cs"
      "length cs + of_bool (pending p) = of_bool (pending (c_threads s t))" by metis
    have t: "c_threads s1 t = p" using p(1) by simp
    have "p = Idle \<longrightarrow> c_mutex s1 = None" using p(3) by auto
    then obtain s2 ds where s2: "(conc_step tz)\<^sup>*\<^sup>* s1 s2" "conc_ok tz s2" "c_threads s2 = (c_threads s1)(t := Idle)"
      "c_mutex s2 = None" "c_done s2 = c_done s1 @ ds" "length ds = of_bool (pending p)"
      using less.hyps[of s1] t p(2,3) conc_step_ok[OF s1(1) less.prems(1)] less.prems(2) by auto
    have "(conc_step tz)\<^sup>*\<^sup>* s s2" using s1(1) s2(1) by (rule converse_rtranclp_into_rtranclp)
    moreover have "length (cs @ ds) = of_bool (pending (c_threads s t))" using p(5) s2(6) by simp
    ultimately show ?thesis using s2(2-5) p(1,4) by (intro exI[of _ s2] exI[of _ "cs @ ds"]) simp
  qed
qed

text \<open>Only finitely many threads are ever busy.\<close>

lemma busy_upd: "finite {u. pcs u \<noteq> Idle} \<Longrightarrow> finite {u. (pcs(t := p)) u \<noteq> Idle}"
  by (rule finite_subset[of _ "insert t {u. pcs u \<noteq> Idle}"]) auto

lemma conc_step_busy: "conc_step tz s s' \<Longrightarrow> finite {u. c_threads s u \<noteq> Idle} \<Longrightarrow> finite {u. c_threads s' u \<noteq> Idle}"
  by (induction rule: conc_step.induct) (simp_all add: busy_upd del: fun_upd_apply)

lemma reachable_busy: "reachable tz g y s \<Longrightarrow> finite {u. c_threads s u \<noteq> Idle}"
  unfolding reachable_def
proof (induction rule: rtranclp_induct)
  case base
  show ?case by (simp add: conc_start_def)
next
  case (step s s')
  then show ?case using conc_step_busy by blast
qed

lemma all_finish:
  assumes "finite {u. c_threads s u \<noteq> Idle}" "conc_ok tz s" "clock_ok tz" "c_mutex s = None"
  shows "\<exists>s' cs. (conc_step tz)\<^sup>*\<^sup>* s s' \<and> c_mutex s' = None \<and> (\<forall>u. c_threads s' u = Idle) \<and>
    c_done s' = c_done s @ cs \<and> length cs = card {u. pending (c_threads s u)}"
  using assms
proof (induction "card {u. c_threads s u \<noteq> Idle}" arbitrary: s)
  case 0
  then have i: "\<forall>u. c_threads s u = Idle" by simp
  then have "card {u. pending (c_threads s u)} = 0" by (simp add: pending_def)
  with i 0 show ?case by (intro exI[of _ s] exI[of _ "[]"]) simp
next
  case (Suc n)
  then obtain t where t: "c_threads s t \<noteq> Idle" by fastforce
  obtain s1 cs where 1: "(conc_step tz)\<^sup>*\<^sup>* s s1" "conc_ok tz s1" "c_threads s1 = (c_threads s)(t := Idle)" "c_mutex s1 = None"
    "c_done s1 = c_done s @ cs" "length cs = of_bool (pending (c_threads s t))"
    using thread_finishes[OF Suc.prems(2,3), of t] Suc.prems(4) by blast
  have b: "{u. c_threads s1 u \<noteq> Idle} = {u. c_threads s u \<noteq> Idle} - {t}" using 1(3) by auto
  have fp: "finite {u. pending (c_threads s u)}" by (rule finite_subset[OF _ Suc.prems(1)]) (auto simp: pending_def)
  have "{u. pending (c_threads s1 u)} = {u. pending (c_threads s u)} - {t}" using 1(3) by (auto simp: pending_def)
  then have c: "length cs + card {u. pending (c_threads s1 u)} = card {u. pending (c_threads s u)}"
    using fp 1(6) card_Suc_Diff1[OF fp, of t] by (cases "pending (c_threads s t)") simp_all
  have "n = card {u. c_threads s1 u \<noteq> Idle}" unfolding b using Suc.hyps(2) Suc.prems(1) t by simp
  from Suc.hyps(1)[OF this _ 1(2) Suc.prems(3) 1(4)] obtain s2 ds where 2: "(conc_step tz)\<^sup>*\<^sup>* s1 s2" "c_mutex s2 = None"
    "\<forall>u. c_threads s2 u = Idle" "c_done s2 = c_done s1 @ ds" "length ds = card {u. pending (c_threads s1 u)}"
    using b Suc.prems(1) by auto
  have "(conc_step tz)\<^sup>*\<^sup>* s s2" using 1(1) 2(1) by (rule rtranclp_trans)
  moreover have "length (cs @ ds) = card {u. pending (c_threads s u)}" using c 2(5) by simp
  ultimately show ?case using 2(2-4) 1(5) by (intro exI[of _ s2] exI[of _ "cs @ ds"]) simp
qed

lemma finish_from:
  assumes "serial tz g y s" "finite {u. c_threads s u \<noteq> Idle}" "conc_ok tz s" "clock_ok tz"
  shows "\<exists>s' cs. (conc_step tz)\<^sup>*\<^sup>* s s' \<and> c_mutex s' = None \<and> (\<forall>u. c_threads s' u = Idle) \<and>
    c_done s' = c_done s @ cs \<and> length cs = card {u. pending (c_threads s u)}"
proof (cases "c_mutex s")
  case None
  then show ?thesis using all_finish assms(2-4) by blast
next
  case (Some t)
  then have i: "inside (c_threads s t)" using assms(1) by (auto simp: serial_def)
  then have "c_threads s t \<noteq> Idle" by auto
  then obtain s1 cs where 1: "(conc_step tz)\<^sup>*\<^sup>* s s1" "conc_ok tz s1" "c_threads s1 = (c_threads s)(t := Idle)" "c_mutex s1 = None"
    "c_done s1 = c_done s @ cs" "length cs = of_bool (pending (c_threads s t))"
    using thread_finishes[OF assms(3,4), of t] i by blast
  have f1: "finite {u. c_threads s1 u \<noteq> Idle}" unfolding 1(3) using assms(2) by (rule busy_upd)
  obtain s2 ds where 2: "(conc_step tz)\<^sup>*\<^sup>* s1 s2" "c_mutex s2 = None" "\<forall>u. c_threads s2 u = Idle"
    "c_done s2 = c_done s1 @ ds" "length ds = card {u. pending (c_threads s1 u)}"
    using all_finish[OF f1 1(2) assms(4) 1(4)] by blast
  have fp: "finite {u. pending (c_threads s u)}" by (rule finite_subset[OF _ assms(2)]) (auto simp: pending_def)
  have "{u. pending (c_threads s1 u)} = {u. pending (c_threads s u)} - {t}" using 1(3) by (auto simp: pending_def)
  then have "length (cs @ ds) = card {u. pending (c_threads s u)}"
    using fp 1(6) 2(5) card_Suc_Diff1[OF fp, of t] by (cases "pending (c_threads s t)") simp_all
  moreover have "(conc_step tz)\<^sup>*\<^sup>* s s2" using 1(1) 2(1) by (rule rtranclp_trans)
  ultimately show ?thesis using 2(2-4) 1(5) by (intro exI[of _ s2] exI[of _ "cs @ ds"]) simp
qed

section \<open>Properties\<close>

text \<open>C10: threads on one logger exclude each other and serialize: in every reachable state at most
  one thread is between the lock and the unlock, and whenever the lock is free the logger and its
  world are those of the operations done so far, run one after another in the order of the lock.\<close>

theorem threads_serialize:
  assumes "reachable tz g y s"
  shows "(inside (c_threads s t) \<longrightarrow> inside (c_threads s t') \<longrightarrow> t = t') \<and>
    (c_mutex s = None \<longrightarrow> run_ops tz (c_done s) (g, y) = Some (c_logger s, c_system s))"
  using serial_heldE[OF reachable_serial[OF assms]] serial_freeD[OF reachable_serial[OF assms]] by metis

text \<open>C5: lines of different threads never mix: whenever the lock is free, every sink holds what it
  held, followed by the whole lines of the calls that took effect, in the order of the lock, each
  under the name and the options in force when it took effect.  This holds while no file operation
  fails, for sinks the logger owns that write to different targets and do not rotate.\<close>

theorem threads_lines_whole:
  assumes "reachable tz g y s" and "c_mutex s = None" and "logger_ok tz g" and "g_sinks g = map Own bs"
    and "sinks_ok bs (y_world y)" and "all_ok (y_world y)" and "b \<in> set bs"
  shows "sink_text b (y_world (c_system s)) = sink_text b (y_world y) @ ops_text tz (c_done s) g b"
proof -
  have "alive (g_sinks g) y" unfolding assms(4) using assms(5) by (rule sinks_ok_alive)
  from reachable_ok[OF assms(1,3) this] have "list_all (op_ok tz) (c_done s)" by (simp add: conc_ok_def)
  from run_ops_delivers[OF assms(3-6) this] serial_freeD(1)[OF reachable_serial[OF assms(1)] assms(2)] assms(7)
  show ?thesis by auto
qed

text \<open>C11: no deadlock and no lost call: from every reachable state the threads can all run to the end
  of their calls, the lock ends free, and the calls done then are those done before and one for every call that had begun.\<close>

theorem threads_can_finish:
  assumes "reachable tz g y s" and "logger_ok tz g" and "alive (g_sinks g) y" and "clock_ok tz"
  shows "\<exists>s' cs. (conc_step tz)\<^sup>*\<^sup>* s s' \<and> c_mutex s' = None \<and> (\<forall>u. c_threads s' u = Idle) \<and>
    c_done s' = c_done s @ cs \<and> length cs = card {u. pending (c_threads s u)}"
  using finish_from[OF reachable_serial[OF assms(1)] reachable_busy[OF assms(1)] reachable_ok[OF assms(1-3)] assms(4)] .

section \<open>Two threads\<close>

text \<open>A thread that has its time stamp and finds the lock free can write its line.\<close>

lemma line_runs:
  assumes "conc_ok tz s" "c_mutex s = None" "c_threads s t = Stamped now lvl sv"
  shows "\<exists>s'. (conc_step tz)\<^sup>*\<^sup>* s s' \<and> c_mutex s' = None \<and> c_threads s' = (c_threads s)(t := Idle) \<and>
    c_done s' = c_done s @ [Line_op (of_nat t) now lvl sv]"
proof -
  have st: "stamp_ok tz now lvl" using assms(1,3) unfolding conc_ok_def by (metis pc_ok.simps(2))
  obtain g1 start where h: "header_stage (env_at tz (of_nat t)) now lvl (c_logger s) = Some (g1, start)"
    "logger_ok tz g1" "g_sinks g1 = g_sinks (c_logger s)"
    using header_stage_keeps[OF _ st] assms(1) unfolding conc_ok_def by blast
  have "alive (g_sinks (payload_stage sv g1)) (c_system s)"
    using payload_stage_keeps[OF h(2)] h(3) assms(1) by (simp add: conc_ok_def)
  then obtain g2 y2 where d: "catch (deliver now lvl start (payload_stage sv g1) (c_system s)) = Some (g2, y2)"
    using deliver_keeps payload_stage_keeps[OF h(2)] by blast
  let ?s1 = "at_pc t (Locked now lvl sv) (s\<lparr>c_mutex := Some t\<rparr>)"
  let ?s2 = "at_pc t (Headed now lvl sv start) (?s1\<lparr>c_logger := g1\<rparr>)"
  let ?s3 = "at_pc t (Filled now lvl sv start) (?s2\<lparr>c_logger := payload_stage sv (c_logger ?s2)\<rparr>)"
  let ?s4 = "at_pc t Finished
    (?s3\<lparr>c_logger := g2, c_system := y2, c_done := c_done ?s3 @ [Line_op (of_nat t) now lvl sv]\<rparr>)"
  have "conc_step tz s ?s1" using assms(3,2) by (rule conc_step.acquire)
  moreover have "conc_step tz ?s1 ?s2" using h(1) by (intro conc_step.header) simp_all
  moreover have "conc_step tz ?s2 ?s3" by (intro conc_step.payload) simp
  moreover have "conc_step tz ?s3 ?s4" using d by (intro conc_step.deliver) simp_all
  moreover have "conc_step tz ?s4 (at_pc t Idle (?s4\<lparr>c_mutex := None\<rparr>))" by (intro conc_step.release) simp
  ultimately have "(conc_step tz)\<^sup>*\<^sup>* s (at_pc t Idle (?s4\<lparr>c_mutex := None\<rparr>))"
    by (meson converse_rtranclp_into_rtranclp rtranclp.rtrancl_refl)
  then show ?thesis by (intro exI[of _ "at_pc t Idle (?s4\<lparr>c_mutex := None\<rparr>)"]) simp
qed

text \<open>Both threads have read the clock and wait for the lock; the later one may get it first.\<close>

definition two_waiting :: conc where
  "two_waiting = (let s = conc_start sample_logger sample_system;
      s = at_pc 1 (Checked Warn ''one'') s; s = at_pc 1 (Stamped 1775817045123000000 Warn ''one'') s;
      s = at_pc 2 (Checked Err ''two'') s in at_pc 2 (Stamped 1775817045124000000 Err ''two'') s)"

lemma sample_stamps:
  "lvl \<noteq> N_levels \<Longrightarrow> stamp_ok (\<lambda>_. 0) 1775817045123000000 lvl"
  "lvl \<noteq> N_levels \<Longrightarrow> stamp_ok (\<lambda>_. 0) 1775817045124000000 lvl"
  by (simp_all add: stamp_ok_def header_eval)

lemma two_waiting_reachable: "reachable (\<lambda>_. 0) sample_logger sample_system two_waiting"
proof -
  have l: "should_log Warn sample_logger" "should_log Err sample_logger"
    by (simp_all add: should_log_def sample_logger_def mk_logger_def less_eq_level_def)
  let ?s0 = "conc_start sample_logger sample_system"
  let ?s1 = "at_pc 1 (Checked Warn ''one'') ?s0"
  let ?s2 = "at_pc 1 (Stamped 1775817045123000000 Warn ''one'') ?s1"
  let ?s3 = "at_pc 2 (Checked Err ''two'') ?s2"
  have "conc_step (\<lambda>_. 0) ?s0 ?s1" using l by (intro conc_step.call) (simp_all add: conc_start_def)
  moreover have "conc_step (\<lambda>_. 0) ?s1 ?s2" by (intro conc_step.stamp sample_stamps) simp_all
  moreover have "conc_step (\<lambda>_. 0) ?s2 ?s3" using l by (intro conc_step.call) (simp_all add: conc_start_def)
  moreover have "conc_step (\<lambda>_. 0) ?s3 two_waiting"
    unfolding two_waiting_def Let_def by (intro conc_step.stamp sample_stamps) simp_all
  ultimately show ?thesis unfolding reachable_def by (meson converse_rtranclp_into_rtranclp rtranclp.rtrancl_refl)
qed

lemma two_waiting_pcs:
  "c_threads two_waiting = (\<lambda>_. Idle)(1 := Stamped 1775817045123000000 Warn ''one'', 2 := Stamped 1775817045124000000 Err ''two'')"
  "c_mutex two_waiting = None" "c_done two_waiting = []"
  by (simp_all add: two_waiting_def Let_def conc_start_def)

lemma overtaken:
  obtains s where "reachable (\<lambda>_. 0) sample_logger sample_system s" "c_mutex s = None"
    "c_done s = [Line_op 2 1775817045124000000 Err ''two'', Line_op 1 1775817045123000000 Warn ''one'']"
proof -
  note ok = reachable_ok[OF _ sample_logger_ok(1,7)]
  obtain s1 where 1: "(conc_step (\<lambda>_. 0))\<^sup>*\<^sup>* two_waiting s1" "c_mutex s1 = None"
    "c_threads s1 = (c_threads two_waiting)(2 := Idle)" "c_done s1 = [Line_op 2 1775817045124000000 Err ''two'']"
    using line_runs[OF ok[OF two_waiting_reachable] two_waiting_pcs(2), of 2] two_waiting_pcs(1,3) by auto
  have r1: "reachable (\<lambda>_. 0) sample_logger sample_system s1"
    using two_waiting_reachable 1(1) unfolding reachable_def by (rule rtranclp_trans)
  obtain s2 where 2: "(conc_step (\<lambda>_. 0))\<^sup>*\<^sup>* s1 s2" "c_mutex s2 = None"
    "c_done s2 = [Line_op 2 1775817045124000000 Err ''two'', Line_op 1 1775817045123000000 Warn ''one'']"
    using line_runs[OF ok[OF r1] 1(2), of 1] 1(3,4) two_waiting_pcs(1) by auto
  have "reachable (\<lambda>_. 0) sample_logger sample_system s2"
    using r1 2(1) unfolding reachable_def by (rule rtranclp_trans)
  with 2(2,3) that show ?thesis by blast
qed

theorem threads_serialize_witness:
  "\<exists>s :: conc. c_done s = [Line_op 2 1775817045124000000 Err ''two'', Line_op 1 1775817045123000000 Warn ''one''] \<and>
     run_ops (\<lambda>_. 0) (c_done s) (sample_logger, sample_system) = Some (c_logger s, c_system s)"
proof -
  obtain s where s: "reachable (\<lambda>_. 0) sample_logger sample_system s" "c_mutex s = None"
    "c_done s = [Line_op 2 1775817045124000000 Err ''two'', Line_op 1 1775817045123000000 Warn ''one'']"
    by (rule overtaken)
  from threads_serialize[OF s(1)] s(2) have "run_ops (\<lambda>_. 0) (c_done s) (sample_logger, sample_system) =
    Some (c_logger s, c_system s)" by blast
  with s(3) show ?thesis by blast
qed

theorem threads_lines_whole_witness:
  "\<exists>s. reachable (\<lambda>_. 0) sample_logger sample_system s \<and>
     stream_text stdout_h (y_world (c_system s)) =
       ''[2026-04-10 10:30:45.124] [app] [ERR] two\<newline>[2026-04-10 10:30:45.123] [app] [WRN] one\<newline>''"
proof -
  obtain s where s: "reachable (\<lambda>_. 0) sample_logger sample_system s" "c_mutex s = None"
    "c_done s = [Line_op 2 1775817045124000000 Err ''two'', Line_op 1 1775817045123000000 Warn ''one'']"
    by (rule overtaken)
  have "sink_text (Stdout_sink mk_stdout_sink) (y_world sample_system) = []"
    by (simp add: sink_text_def mk_stdout_sink_def stream_text_def stream_content_def sample_system_def
        clean_world_def stdout_h_def)
  with threads_lines_whole[OF s(1,2) sample_logger_ok(1-4,6)] s(3) show ?thesis
    by (intro exI[of _ s] conjI s(1)) (simp add: sink_text_def mk_stdout_sink_def sink_out_def msg_of_def mk_log_msg_def
        line_of_def sample_logger_def mk_logger_def header_eval)
qed

theorem threads_can_finish_witness:
  "\<exists>s'. (conc_step (\<lambda>_. 0))\<^sup>*\<^sup>* two_waiting s' \<and> c_mutex s' = None \<and> (\<forall>u. c_threads s' u = Idle) \<and>
     length (c_done s') = 2"
proof -
  have "clock_ok (\<lambda>_. 0)" unfolding clock_ok_def using sample_stamps(1) by blast
  from threads_can_finish[OF two_waiting_reachable sample_logger_ok(1,7) this] obtain s' cs where
    s: "(conc_step (\<lambda>_. 0))\<^sup>*\<^sup>* two_waiting s'" "c_mutex s' = None" "\<forall>u. c_threads s' u = Idle"
    "c_done s' = c_done two_waiting @ cs" "length cs = card {u. pending (c_threads two_waiting u)}" by blast
  have "{u. pending (c_threads two_waiting u)} = {1, 2}" by (auto simp: two_waiting_pcs(1) pending_def)
  then have "length cs = 2" using s(5) by simp
  with s two_waiting_pcs(3) show ?thesis by auto
qed

end
