(* ===== verification/Rotating_Log.thy ===== *)
theory Rotating_Log
  imports Rotating
begin

text \<open>
  The contract of the rotating sink: a log cut into an active part and numbered archives, of
  which the newest \<open>max_files\<close> are kept, and the proof that \<open>write\<close> implements it on the file
  system.
\<close>

section \<open>The abstract log\<close>

record rot_log =
  l_next :: nat
  l_arch :: "nat \<Rightarrow> string option"
  l_cur :: string

definition log_rotate :: "nat \<Rightarrow> rot_log \<Rightarrow> rot_log" where
  "log_rotate max_files l =
     (let arch = (l_arch l)(l_next l \<mapsto> l_cur l)
      in \<lparr>l_next = l_next l + 1,
          l_arch = (if l_next l > max_files then arch(l_next l - max_files := None) else arch),
          l_cur = []\<rparr>)"

definition log_write :: "nat \<Rightarrow> nat \<Rightarrow> string \<Rightarrow> rot_log \<Rightarrow> rot_log" where
  "log_write max_size max_files line l =
     (if length (l_cur l) + length line > max_size \<and> l_cur l \<noteq> [] then
        (log_rotate max_files l)\<lparr>l_cur := line\<rparr>
      else l\<lparr>l_cur := l_cur l @ line\<rparr>)"

definition node_text :: "node option \<Rightarrow> string option" where
  "node_text nd = (case nd of Some (Regular c) \<Rightarrow> Some c | _ \<Rightarrow> None)"

definition rot_abs :: "rotating_sink \<Rightarrow> world \<Rightarrow> rot_log" where
  "rot_abs s w =
     \<lparr>l_next = r_next_index s,
      l_arch = (\<lambda>n. node_text (fs_get w (fs_key (archive_path (r_base s) n)))),
      l_cur = (case r_file s of None \<Rightarrow> [] | Some h \<Rightarrow> stream_text h w)\<rparr>"

section \<open>File-system calls that succeed\<close>

lemma fs_get_put_fun: "fs_get (fs_put k n w) = (fs_get w)(k \<mapsto> n)"
  by (rule ext) simp

lemma fs_get_del_fun: "fs_get (fs_del k w) = (fs_get w)(k := None)"
  by (rule ext) simp

lemma fs_get_frame_fun [simp]:
  "fs_get (w\<lparr>w_tick := t\<rparr>) = fs_get w" "fs_get (w\<lparr>w_streams := ss\<rparr>) = fs_get w"
  "fs_get (w\<lparr>w_next := m\<rparr>) = fs_get w"
  by (rule ext, simp)+

lemma fflush_spec:
  assumes "all_ok w" "map_of (w_streams w) h = Some st" "st_target st = Disk k"
    "fs_get w k = Some (Regular c)"
  shows "all_ok (fflush h w)" "map_of (w_streams (fflush h w)) h = Some (st\<lparr>st_buf := []\<rparr>)"
    "fs_get (fflush h w) = (fs_get w)(k \<mapsto> Regular (c @ st_buf st))"
  using assms
  by (auto simp: fflush_def ask_def drain_def all_ok_def Let_def update_conv fs_get_put_fun)

lemma fclose_spec:
  assumes "all_ok w" "map_of (w_streams w) h = Some st" "st_target st = Disk k"
    "fs_get w k = Some (Regular c)"
  shows "all_ok (fclose h w)" "fs_get (fclose h w) = (fs_get w)(k \<mapsto> Regular (c @ st_buf st))"
  using assms
  by (auto simp: fclose_def ask_def drain_def all_ok_def Let_def update_conv fs_get_put_fun)

lemma fs_remove_spec:
  assumes "all_ok w" "fs_get w (fs_key p) \<noteq> Some Directory" "fs_remove p w = (ok, w')"
  shows "all_ok w'" "ok" "fs_get w' = (fs_get w)(fs_key p := None)"
  using assms
  by (auto simp: fs_remove_def ask_def all_ok_def fs_get_del_fun fun_upd_idem_iff split: option.splits)

lemma fs_rename_spec:
  assumes "all_ok w" "fs_get w (fs_key a) = Some (Regular c)" "fs_get w (fs_key b) \<noteq> Some Directory"
    "fs_key a \<noteq> fs_key b" "fs_rename a b w = (ok, w')"
  shows "all_ok w'" "ok" "fs_get w' = (fs_get w)(fs_key a := None, fs_key b \<mapsto> Regular c)"
  using assms
  by (auto simp: fs_rename_def ask_def all_ok_def fs_get_put_fun fs_get_del_fun split: if_splits)

lemma try_rename_spec:
  assumes "all_ok w" "fs_get w (fs_key a) = Some (Regular c)" "fs_get w (fs_key b) \<noteq> Some Directory"
    "fs_key a \<noteq> fs_key b" "try_rename a b w = (ok, w')"
  shows "all_ok w'" "ok" "fs_get w' = (fs_get w)(fs_key a := None, fs_key b \<mapsto> Regular c)"
proof -
  obtain ok1 w1 where 1: "fs_remove b w = (ok1, w1)" by fastforce
  note r = fs_remove_spec[OF assms(1,3) 1]
  obtain ok2 w2 where 2: "fs_rename a b w1 = (ok2, w2)" by fastforce
  have pre: "fs_get w1 (fs_key a) = Some (Regular c)" "fs_get w1 (fs_key b) \<noteq> Some Directory"
    using r(3) assms(2,4) by simp_all
  note s = fs_rename_spec[OF r(1) pre assms(4) 2]
  have n: "max_attempts = Suc 4" by (simp add: max_attempts_def)
  have "(ok, w') = (True, w2)"
    using assms(5) 1 2 s(2) unfolding try_rename_def n rename_attempts.simps by simp
  then show "all_ok w'" "ok" "fs_get w' = (fs_get w)(fs_key a := None, fs_key b \<mapsto> Regular c)"
    using s r(3) by (auto simp: fun_upd_twist)
qed

lemma is_directory_cong: "fs_get w' (fs_key d) = fs_get w (fs_key d) \<Longrightarrow> is_directory w' d = is_directory w d"
  by (simp add: is_directory_def)

lemma is_directory_upd:
  assumes "is_directory w d" "\<And>k. fs_get w k = Some Directory \<Longrightarrow> fs_get w' k = Some Directory"
  shows "is_directory w' d"
  using assms(1) assms(2)[of "fs_key d"] by (auto simp: is_directory_def)

lemma fopen_spec:
  assumes "all_ok w" "is_directory w (fst (fs_key p))" "snd (fs_key p) \<noteq> []"
    "fs_get w (fs_key p) = None \<or> fs_get w (fs_key p) = Some (Regular c)"
  obtains w' where "fopen p trunc w = (Some (w_next w), w')" "all_ok w'"
    "map_of (w_streams w') (w_next w) = Some \<lparr>st_target = Disk (fs_key p), st_buf = []\<rparr>"
    "fs_get w' = (fs_get w)(fs_key p \<mapsto> Regular (if trunc then [] else regular_at w (fs_key p)))"
proof -
  let ?w1 = "w\<lparr>w_tick := w_tick w + 1\<rparr>"
  have "resolve ?w1 (fs_key p) = fs_key p" using assms(4) by (auto simp: resolve_def)
  moreover have "openable ?w1 (fs_key p)"
    using assms by (auto simp: openable_def is_directory_def)
  moreover have "w_oracle w (w_tick w)" using assms(1) by (simp add: all_ok_def)
  moreover have "regular_at ?w1 k = regular_at w k" for k by (simp add: regular_at_def)
  moreover have "resolve w (fs_key p) = fs_key p" using assms(4) by (auto simp: resolve_def)
  ultimately have "\<exists>w'. fopen p trunc w = (Some (w_next w), w')"
    by (simp add: fopen_def ask_def Let_def)
  then obtain w' where f: "fopen p trunc w = (Some (w_next w), w')" ..
  note F = fopen_Some[OF f]
  have res: "resolve w (fs_key p) = fs_key p" by fact
  show thesis
  proof (rule that[OF f])
    show "all_ok w'" using assms(1) F(7,8) by (simp add: all_ok_def)
    show "map_of (w_streams w') (w_next w) = Some \<lparr>st_target = Disk (fs_key p), st_buf = []\<rparr>"
      using F(5) res by simp
    show "fs_get w' = (fs_get w)(fs_key p \<mapsto> Regular (if trunc then [] else regular_at w (fs_key p)))"
      using F(3,4) res by (auto simp: fun_eq_iff)
  qed
qed

section \<open>\<open>write\<close> implements the abstract log\<close>

text \<open>The state between two calls: the active file is open and nothing but regular files stands
  at the paths the sink uses.\<close>

definition rot_place :: "rotating_sink \<Rightarrow> world \<Rightarrow> bool" where
  "rot_place s w \<longleftrightarrow> path_filename (r_base s) \<noteq> [] \<and> is_directory w (fs_dir (path_parent (r_base s))) \<and>
     (\<forall>n. fs_get w (fs_key (archive_path (r_base s) n)) \<noteq> Some Directory)"

definition rot_config :: "rotating_sink \<Rightarrow> bool" where
  "rot_config s \<longleftrightarrow> 0 < r_max_size s \<and> r_max_files s \<le> max_files_limit \<and> 1 \<le> r_next_index s"

definition rot_active :: "rotating_sink \<Rightarrow> world \<Rightarrow> nat \<Rightarrow> stream \<Rightarrow> string \<Rightarrow> bool" where
  "rot_active s w h st c \<longleftrightarrow>
     r_file s = Some h \<and> map_of (w_streams w) h = Some st \<and> st_target st = Disk (fs_key (r_base s)) \<and>
     fs_get w (fs_key (r_base s)) = Some (Regular c)"

definition rot_ok :: "rotating_sink \<Rightarrow> world \<Rightarrow> bool" where
  "rot_ok s w \<longleftrightarrow> all_ok w \<and> rot_config s \<and> rot_place s w \<and>
     (\<exists>h st c. rot_active s w h st c \<and> r_current_size s = length (c @ st_buf st))"

lemma rot_active_text:
  assumes "rot_active s w h st c"
  shows "stream_text h w = c @ st_buf st" "stream_open w h" "r_file s = Some h"
  using assms by (simp_all add: rot_active_def stream_text_def stream_content_def stream_open_def)

text \<open>The file system a rotation leaves: the content of the active file under the next number,
  an empty active file, and the archive that left the window gone.\<close>

definition rotated :: "string \<Rightarrow> nat \<Rightarrow> nat \<Rightarrow> string \<Rightarrow> (fs_key \<Rightarrow> node option) \<Rightarrow> fs_key \<Rightarrow> node option" where
  "rotated base n max_files text G =
     (let a = (\<lambda>i. fs_key (archive_path base i)); G = G(a n \<mapsto> Regular text)
      in (if n > max_files then G(a (n - max_files) := None) else G)(fs_key base \<mapsto> Regular []))"

lemma rotate_index:
  assumes "n < size_max" "max_files \<le> max_files_limit"
  shows "sz_add n 1 = n + 1" "sz_add max_files 1 = max_files + 1"
    "n > max_files \<Longrightarrow> sz_sub (sz_sub (n + 1) max_files) 1 = n - max_files"
  using assms by (simp_all add: size_max_def max_files_limit_def)

lemma rotate_spec:
  assumes ok: "all_ok w" and act: "rot_active s w h st c" and pl: "rot_place s w"
    and cfg: "rot_config s" and idx: "r_next_index s < size_max"
  obtains h' w' where
    "rotate s w = (None, s\<lparr>r_next_index := r_next_index s + 1, r_file := Some h', r_current_size := 0\<rparr>, w')"
    "all_ok w'" "map_of (w_streams w') h' = Some \<lparr>st_target = Disk (fs_key (r_base s)), st_buf = []\<rparr>"
    "fs_get w' = rotated (r_base s) (r_next_index s) (r_max_files s) (c @ st_buf st) (fs_get w)"
proof -
  let ?b = "r_base s" and ?n = "r_next_index s" and ?k = "r_max_files s" and ?t = "c @ st_buf st"
  let ?arch = "\<lambda>i. fs_key (archive_path ?b i)"
  note ix = rotate_index[OF idx, of ?k]
  have k: "?k \<le> max_files_limit" using cfg by (simp add: rot_config_def)
  define w1 where "w1 = fclose h w"
  have 1: "all_ok w1" "fs_get w1 = (fs_get w)(fs_key ?b \<mapsto> Regular ?t)"
    using fclose_spec[OF ok] act by (auto simp: w1_def rot_active_def)
  have nd: "fs_get w (?arch i) \<noteq> Some Directory" for i using pl by (simp add: rot_place_def)
  obtain r2 w2 where 2: "try_rename ?b (archive_path ?b ?n) w1 = (r2, w2)" by fastforce
  have t2: "all_ok w2" "r2" "fs_get w2 = (fs_get w1)(fs_key ?b := None, ?arch ?n \<mapsto> Regular ?t)"
    using try_rename_spec[OF 1(1) _ _ _ 2, of ?t] nd[of ?n] by (simp_all add: 1(2))
  define w3 where "w3 = (if ?n > ?k then snd (fs_remove (archive_path ?b (?n - ?k)) w2) else w2)"
  have t3: "all_ok w3 \<and> fs_get w3 = (if ?n > ?k then (fs_get w2)(?arch (?n - ?k) := None) else fs_get w2)"
  proof (cases "?n > ?k")
    case True
    obtain r w' where r: "fs_remove (archive_path ?b (?n - ?k)) w2 = (r, w')" by fastforce
    have "fs_get w2 (?arch (?n - ?k)) \<noteq> Some Directory" using nd by (simp add: t2(3) 1(2))
    from fs_remove_spec[OF t2(1) this r] r True show ?thesis by (simp add: w3_def)
  qed (simp add: w3_def t2(1))
  have dir: "is_directory w3 (fs_dir (path_parent ?b))"
  proof (rule is_directory_upd)
    show "is_directory w (fs_dir (path_parent ?b))" using pl by (simp add: rot_place_def)
    fix k
    assume "fs_get w k = Some Directory"
    moreover then have "k \<noteq> fs_key ?b" "k \<noteq> ?arch i" for i
      using act nd[of i] by (auto simp: rot_active_def)
    ultimately show "fs_get w3 k = Some Directory" using t3 by (simp add: t2(3) 1(2))
  qed
  have none: "fs_get w3 (fs_key ?b) = None"
    using t3 archive_key_base[of ?b] by (simp add: t2(3))
  have nonempty: "snd (fs_key ?b) \<noteq> []" using pl by (simp add: rot_place_def fs_key_def)
  have dir': "is_directory w3 (fst (fs_key ?b))" using dir by (simp add: fs_key_def)
  obtain w4 where 4: "fopen ?b False w3 = (Some (w_next w3), w4)" "all_ok w4"
    "map_of (w_streams w4) (w_next w3) = Some \<lparr>st_target = Disk (fs_key ?b), st_buf = []\<rparr>"
    "fs_get w4 = (fs_get w3)(fs_key ?b \<mapsto> Regular (regular_at w3 (fs_key ?b)))"
    using fopen_spec[where trunc = False, of w3 ?b] t3 dir' nonempty none by auto
  have empty: "regular_at w3 (fs_key ?b) = []" by (simp add: regular_at_def none)
  show thesis
  proof (rule that)
    have f: "r_file s = Some h" using act by (simp add: rot_active_def)
    show "rotate s w = (None, s\<lparr>r_next_index := ?n + 1, r_file := Some (w_next w3), r_current_size := 0\<rparr>, w4)"
      using 2 t2(2) 4(1) k ix
      by (cases "?n > ?k")
        (simp_all add: rotate_def Let_def f w1_def[symmetric] w3_def rot_open_def file_closer_def)
    show "fs_get w4 = rotated ?b ?n ?k ?t (fs_get w)"
      using t3 by (auto simp: 4(4) empty t2(3) 1(2) rotated_def fun_eq_iff)
  qed (use 4 in auto)
qed

lemma fwrite_bytes_spec:
  assumes "all_ok w" "map_of (w_streams w) h = Some st"
  obtains w' where "fwrite_bytes s h w = (True, w')" "all_ok w'"
    "map_of (w_streams w') h = Some (st\<lparr>st_buf := st_buf st @ s\<rparr>)" "fs_get w' = fs_get w"
  using assms that
  by (auto simp: fwrite_bytes_def fwrite_def ask_def all_ok_def Let_def update_conv)

lemma rot_store_spec:
  assumes "all_ok w" "rot_active s w h st c" "rot_config s" "rot_place s w"
    "n = length (c @ st_buf st @ line)"
  obtains w' where "rot_store line n h s w = (None, s\<lparr>r_current_size := n\<rparr>, w')"
    "rot_ok (s\<lparr>r_current_size := n\<rparr>) w'" "fs_get w' = fs_get w"
    "stream_text h w' = stream_text h w @ line"
proof -
  have st: "map_of (w_streams w) h = Some st" using assms(2) by (simp add: rot_active_def)
  obtain w' where f: "fwrite_bytes line h w = (True, w')" "all_ok w'"
    "map_of (w_streams w') h = Some (st\<lparr>st_buf := st_buf st @ line\<rparr>)" "fs_get w' = fs_get w"
    by (rule fwrite_bytes_spec[OF assms(1) st])
  let ?s = "s\<lparr>r_current_size := n\<rparr>" and ?st = "st\<lparr>st_buf := st_buf st @ line\<rparr>"
  have act: "rot_active ?s w' h ?st c" using assms(2) f(3,4) by (simp add: rot_active_def)
  show thesis
  proof (rule that)
    show "rot_store line n h s w = (None, ?s, w')" by (simp add: rot_store_def f(1))
    have pl: "rot_place ?s w'"
      using assms(4) f(4) by (simp add: rot_place_def is_directory_def)
    have cfg: "rot_config ?s" using assms(3) by (simp add: rot_config_def)
    show "rot_ok ?s w'"
      unfolding rot_ok_def
      by (intro conjI exI[of _ h] exI[of _ ?st] exI[of _ c] f(2) pl cfg act) (simp add: assms(5))
    show "stream_text h w' = stream_text h w @ line"
      using rot_active_text(1)[OF act] rot_active_text(1)[OF assms(2)] by simp
  qed (rule f(4))
qed

lemma rot_place_rotated:
  assumes "rot_place s w" "rot_active s w h st c" "fs_get w' = rotated (r_base s) n k t (fs_get w)"
  shows "rot_place (s\<lparr>r_next_index := i, r_file := f, r_current_size := z\<rparr>) w'"
proof -
  have nd: "fs_get w (fs_key (archive_path (r_base s) j)) \<noteq> Some Directory" for j
    using assms(1) by (simp add: rot_place_def)
  have "is_directory w' (fs_dir (path_parent (r_base s)))"
  proof (rule is_directory_upd)
    show "is_directory w (fs_dir (path_parent (r_base s)))" using assms(1) by (simp add: rot_place_def)
    fix q assume "fs_get w q = Some Directory"
    moreover then have "q \<noteq> fs_key (r_base s)" "q \<noteq> fs_key (archive_path (r_base s) j)" for j
      using assms(2) nd[of j] by (auto simp: rot_active_def)
    ultimately show "fs_get w' q = Some Directory" by (simp add: assms(3) rotated_def Let_def)
  qed
  then show ?thesis using assms(1) by (simp add: rot_place_def assms(3) rotated_def Let_def)
qed

definition rot_room :: "rotating_sink \<Rightarrow> string \<Rightarrow> bool" where
  "rot_room s line \<longleftrightarrow> r_next_index s < size_max \<and> r_current_size s + length line < 2 ^ 64"

lemma rot_write_spec:
  assumes inv: "rot_ok s w" and room: "rot_room s (m_formatted m)"
  obtains s' w' where "rot_write m s w = (None, s', w')" "rot_ok s' w'"
    "rot_abs s' w' = log_write (r_max_size s) (r_max_files s) (m_formatted m) (rot_abs s w)"
    "r_base s' = r_base s" "r_max_size s' = r_max_size s" "r_max_files s' = r_max_files s"
    "r_current_size s' = length (l_cur (rot_abs s' w'))"
proof -
  from inv obtain h st c where ok: "all_ok w" and cfg: "rot_config s" and pl: "rot_place s w"
    and act: "rot_active s w h st c" and len: "r_current_size s = length (c @ st_buf st)"
    by (auto simp: rot_ok_def)
  let ?line = "m_formatted m" and ?t = "c @ st_buf st"
  note tx = rot_active_text[OF act]
  have new: "sz_add (r_current_size s) (length ?line) = r_current_size s + length ?line"
    using room by (simp add: rot_room_def)
  have cur: "l_cur (rot_abs s w) = ?t" by (simp add: rot_abs_def tx)
  show thesis
  proof (cases "r_current_size s + length ?line > r_max_size s \<and> r_current_size s > 0")
    case False
    have n: "r_current_size s + length ?line = length (c @ st_buf st @ ?line)" using len by simp
    obtain w' where w': "rot_store ?line (r_current_size s + length ?line) h s w =
        (None, s\<lparr>r_current_size := r_current_size s + length ?line\<rparr>, w')"
      "rot_ok (s\<lparr>r_current_size := r_current_size s + length ?line\<rparr>) w'" "fs_get w' = fs_get w"
      "stream_text h w' = stream_text h w @ ?line"
      by (rule rot_store_spec[OF ok act cfg pl n])
    show thesis
    proof (rule that)
      show "rot_write m s w =
          (None, s\<lparr>r_current_size := r_current_size s + length ?line\<rparr>, w')"
        using False w'(1) tx(3) by (auto simp: rot_write_def Let_def new)
      show "rot_abs (s\<lparr>r_current_size := r_current_size s + length ?line\<rparr>) w' =
          log_write (r_max_size s) (r_max_files s) ?line (rot_abs s w)"
        using False len by (auto simp: rot_abs_def log_write_def tx w'(3,4))
    qed (use w' tx len in \<open>simp_all add: rot_abs_def\<close>)
  next
    case True
    have fl: "all_ok (fflush h w)" "map_of (w_streams (fflush h w)) h = Some (st\<lparr>st_buf := []\<rparr>)"
      "fs_get (fflush h w) = (fs_get w)(fs_key (r_base s) \<mapsto> Regular ?t)"
      using fflush_spec[OF ok] act by (auto simp: rot_active_def)
    have act1: "rot_active s (fflush h w) h (st\<lparr>st_buf := []\<rparr>) ?t"
      using act fl by (simp add: rot_active_def)
    have pl1: "rot_place s (fflush h w)"
      using pl act by (auto simp: rot_place_def fl(3) is_directory_def rot_active_def)
    have idx: "r_next_index s < size_max" using room by (simp add: rot_room_def)
    obtain h' w1 where r: "rotate s (fflush h w) =
        (None, s\<lparr>r_next_index := r_next_index s + 1, r_file := Some h', r_current_size := 0\<rparr>, w1)"
      "all_ok w1" "map_of (w_streams w1) h' = Some \<lparr>st_target = Disk (fs_key (r_base s)), st_buf = []\<rparr>"
      "fs_get w1 = rotated (r_base s) (r_next_index s) (r_max_files s)
        (?t @ st_buf (st\<lparr>st_buf := []\<rparr>)) (fs_get (fflush h w))"
      by (rule rotate_spec[OF fl(1) act1 pl1 cfg idx])
    let ?s1 = "s\<lparr>r_next_index := r_next_index s + 1, r_file := Some h', r_current_size := 0\<rparr>"
    have fs1: "fs_get w1 = rotated (r_base s) (r_next_index s) (r_max_files s) ?t (fs_get w)"
      unfolding r(4) fl(3) rotated_def Let_def by (rule ext) simp
    have act2: "rot_active ?s1 w1 h' \<lparr>st_target = Disk (fs_key (r_base s)), st_buf = []\<rparr> []"
      using r(3) fs1 by (simp add: rot_active_def rotated_def Let_def)
    have pl2: "rot_place ?s1 w1" by (rule rot_place_rotated[OF pl act fs1])
    have cfg2: "rot_config ?s1" using cfg by (simp add: rot_config_def)
    have n: "length ?line = length ([] @ st_buf \<lparr>st_target = Disk (fs_key (r_base s)), st_buf = []\<rparr> @ ?line)"
      by simp
    obtain w' where w': "rot_store ?line (length ?line) h' ?s1 w1 =
        (None, ?s1\<lparr>r_current_size := length ?line\<rparr>, w')"
      "rot_ok (?s1\<lparr>r_current_size := length ?line\<rparr>) w'" "fs_get w' = fs_get w1"
      "stream_text h' w' = stream_text h' w1 @ ?line"
      by (rule rot_store_spec[OF r(2) act2 cfg2 pl2 n])
    have t: "stream_text h' w' = ?line" using w'(4) rot_active_text(1)[OF act2] by simp
    show thesis
    proof (rule that)
      show "rot_write m s w = (None, ?s1\<lparr>r_current_size := length ?line\<rparr>, w')"
        using True w'(1) tx(3) r(1) by (simp add: rot_write_def Let_def new)
      have guard: "length (l_cur (rot_abs s w)) + length ?line > r_max_size s" "l_cur (rot_abs s w) \<noteq> []"
        using True unfolding cur len by auto
      show "rot_abs (?s1\<lparr>r_current_size := length ?line\<rparr>) w' =
          log_write (r_max_size s) (r_max_files s) ?line (rot_abs s w)"
        using guard
        by (simp add: log_write_def log_rotate_def Let_def)
          (auto simp: rot_abs_def t w'(3) fs1 rotated_def node_text_def fun_eq_iff Let_def tx(1,3))
    qed (use w' t in \<open>simp_all add: rot_abs_def\<close>)
  qed
qed

end
