(* ===== verification/Rotating_Props.thy ===== *)
theory Rotating_Props
  imports Rotating_Log
begin

text \<open>
  Properties of the rotating sink: what a run of writes leaves on disk, what survives
  failures of the file system, and what start-up does with the archives it finds.
\<close>

section \<open>A run of writes on the abstract log\<close>

fun log_writes :: "nat \<Rightarrow> nat \<Rightarrow> string list \<Rightarrow> rot_log \<Rightarrow> rot_log" where
  "log_writes max_size max_files [] l = l"
| "log_writes max_size max_files (x # xs) l =
     log_writes max_size max_files xs (log_write max_size max_files x l)"

text \<open>
  \<open>pieces\<close> are the chunks the rotations cut off, oldest first; the rest is active.  Of the
  archives exactly the newest \<open>max_files\<close> are there, each a chunk.
\<close>

definition log_cut :: "nat \<Rightarrow> nat \<Rightarrow> rot_log \<Rightarrow> string \<Rightarrow> string list \<Rightarrow> rot_log \<Rightarrow> bool" where
  "log_cut bound max_files l0 written pieces l \<longleftrightarrow>
     concat pieces @ l_cur l = l_cur l0 @ written \<and>
     l_next l = l_next l0 + length pieces \<and>
     (\<forall>i < length pieces. l_arch l (l_next l0 + i) =
        (if length pieces \<le> i + max_files then Some (pieces ! i) else None)) \<and>
     (\<forall>n. 0 < n \<and> n < l_next l0 \<longrightarrow> l_arch l n =
        (if l_next l0 + length pieces \<le> n + max_files \<or> n + max_files < l_next l0
         then l_arch l0 n else None)) \<and>
     (\<forall>p \<in> set pieces. p \<noteq> [] \<and> length p \<le> bound) \<and> length (l_cur l) \<le> bound"

lemma log_cut_start: "length (l_cur l) \<le> bound \<Longrightarrow> log_cut bound max_files l [] [] l"
  by (auto simp: log_cut_def)

lemma log_cut_rotate:
  assumes "log_cut bound k l0 done_text ps l" "l_cur l \<noteq> []" "length x \<le> bound" "1 \<le> l_next l0"
  shows "log_cut bound k l0 (done_text @ x) (ps @ [l_cur l]) ((log_rotate k l)\<lparr>l_cur := x\<rparr>)"
proof -
  let ?l = "(log_rotate k l)\<lparr>l_cur := x\<rparr>" and ?qs = "ps @ [l_cur l]"
  from assms(1) have nx: "l_next l = l_next l0 + length ps" by (simp add: log_cut_def)
  have arch: "l_arch ?l = (if k < l_next l then (l_arch l)(l_next l \<mapsto> l_cur l, l_next l - k := None)
      else (l_arch l)(l_next l \<mapsto> l_cur l))"
    by (simp add: log_rotate_def Let_def)
  have new: "\<forall>i < length ?qs. l_arch ?l (l_next l0 + i) =
      (if length ?qs \<le> i + k then Some (?qs ! i) else None)"
  proof (intro allI impI)
    fix i assume i: "i < length ?qs"
    have old: "i < length ps \<Longrightarrow> l_arch l (l_next l0 + i) = (if length ps \<le> i + k then Some (ps ! i) else None)"
      using assms(1) by (simp add: log_cut_def)
    show "l_arch ?l (l_next l0 + i) = (if length ?qs \<le> i + k then Some (?qs ! i) else None)"
    proof (cases "i = length ps")
      case True
      then show ?thesis unfolding arch using assms(4) by (cases k) (auto simp: nx)
    next
      case False
      with i have lt: "i < length ps" by simp
      show ?thesis
        unfolding arch using old[OF lt] lt assms(4) by (auto simp: nx nth_append)
    qed
  qed
  have kept: "\<forall>n. 0 < n \<and> n < l_next l0 \<longrightarrow> l_arch ?l n =
      (if l_next l0 + length ?qs \<le> n + k \<or> n + k < l_next l0 then l_arch l0 n else None)"
  proof (intro allI impI)
    fix n assume n: "0 < n \<and> n < l_next l0"
    have old: "l_arch l n = (if l_next l0 + length ps \<le> n + k \<or> n + k < l_next l0 then l_arch l0 n else None)"
      using assms(1) n by (simp add: log_cut_def)
    show "l_arch ?l n = (if l_next l0 + length ?qs \<le> n + k \<or> n + k < l_next l0 then l_arch l0 n else None)"
      unfolding arch using old n by (auto simp: nx)
  qed
  have done_text: "concat ?qs @ l_cur ?l = l_cur l0 @ done_text @ x"
    using assms(1) by (simp add: log_cut_def flip: append_assoc)
  have sz: "(\<forall>p \<in> set ?qs. p \<noteq> [] \<and> length p \<le> bound) \<and> length (l_cur ?l) \<le> bound"
    using assms by (auto simp: log_cut_def)
  have "l_next ?l = l_next l0 + length ?qs" by (simp add: log_rotate_def Let_def nx)
  with new kept done_text sz show ?thesis unfolding log_cut_def by blast
qed

lemma log_write_cut:
  assumes "log_cut bound k l0 done_text ps l" "length x \<le> bound" "m \<le> bound" "1 \<le> l_next l0"
  shows "\<exists>qs. log_cut bound k l0 (done_text @ x) qs (log_write m k x l)"
proof (cases "length (l_cur l) + length x > m \<and> l_cur l \<noteq> []")
  case True
  then show ?thesis
    unfolding log_write_def using log_cut_rotate[OF assms(1) _ assms(2,4)] by auto
next
  case False
  have "log_cut bound k l0 (done_text @ x) ps (l\<lparr>l_cur := l_cur l @ x\<rparr>)"
    using assms False by (auto simp: log_cut_def simp flip: append_assoc)
  with False show ?thesis by (auto simp: log_write_def)
qed

lemma log_writes_cut:
  assumes "log_cut bound k l0 done_text ps l" "\<forall>x \<in> set xs. length x \<le> bound" "m \<le> bound" "1 \<le> l_next l0"
  shows "\<exists>qs. log_cut bound k l0 (done_text @ concat xs) qs (log_writes m k xs l)"
  using assms
proof (induction xs arbitrary: done_text ps l)
  case Nil
  then show ?case by auto
next
  case (Cons x xs)
  then obtain qs where "log_cut bound k l0 (done_text @ x) qs (log_write m k x l)"
    using log_write_cut[OF Cons.prems(1)] by fastforce
  with Cons.IH[OF this] Cons.prems show ?case by simp
qed

section \<open>A run of writes on the sink\<close>

text \<open>The exceptions thrown, one entry for each record; the caller goes on after an exception.\<close>

fun rot_write_all :: "log_msg list \<Rightarrow> rotating_sink \<Rightarrow> world \<Rightarrow> exn option list \<times> rotating_sink \<times> world" where
  "rot_write_all [] s w = ([], s, w)"
| "rot_write_all (m # ms) s w =
     (let (e, s, w) = rot_write m s w; (es, s, w) = rot_write_all ms s w in (e # es, s, w))"

abbreviation total_size :: "log_msg list \<Rightarrow> nat" where
  "total_size ms \<equiv> sum_list (map (\<lambda>m. length (m_formatted m)) ms)"

definition rot_room_all :: "rotating_sink \<Rightarrow> log_msg list \<Rightarrow> bool" where
  "rot_room_all s ms \<longleftrightarrow> r_next_index s + length ms \<le> size_max \<and>
     r_current_size s + total_size ms < 2 ^ 64"

lemma log_write_next: "l_next (log_write m k x l) \<le> l_next l + 1"
  by (simp add: log_write_def log_rotate_def Let_def)

lemma log_write_cur: "length (l_cur (log_write m k x l)) \<le> length (l_cur l) + length x"
  by (simp add: log_write_def)

lemma rot_ok_size: "rot_ok s w \<Longrightarrow> r_current_size s = length (l_cur (rot_abs s w))"
  by (auto simp: rot_ok_def rot_abs_def rot_active_text)

lemma rot_write_all_spec:
  assumes "rot_ok s w" "rot_room_all s ms" "rot_write_all ms s w = (es, s', w')"
  shows "rot_ok s' w'" "es = replicate (length ms) None" "r_base s' = r_base s"
    "rot_abs s' w' = log_writes (r_max_size s) (r_max_files s) (map m_formatted ms) (rot_abs s w)"
proof -
  have "rot_ok s' w' \<and> es = replicate (length ms) None \<and> r_base s' = r_base s \<and>
    rot_abs s' w' = log_writes (r_max_size s) (r_max_files s) (map m_formatted ms) (rot_abs s w)"
    using assms
  proof (induction ms arbitrary: s w es)
    case Nil
    then show ?case by simp
  next
    case (Cons m ms)
    have room: "rot_room s (m_formatted m)"
      using Cons.prems(2) by (simp add: rot_room_all_def rot_room_def)
    obtain s1 w1 where 1: "rot_write m s w = (None, s1, w1)" "rot_ok s1 w1"
      "rot_abs s1 w1 = log_write (r_max_size s) (r_max_files s) (m_formatted m) (rot_abs s w)"
      "r_base s1 = r_base s" "r_max_size s1 = r_max_size s" "r_max_files s1 = r_max_files s"
      "r_current_size s1 = length (l_cur (rot_abs s1 w1))"
      by (rule rot_write_spec[OF Cons.prems(1) room])
    obtain es' where es: "rot_write_all ms s1 w1 = (es', s', w')" "es = None # es'"
      using Cons.prems(3) 1(1) by (auto split: prod.splits)
    have "l_next (rot_abs s1 w1) \<le> r_next_index s + 1" "l_next (rot_abs s1 w1) = r_next_index s1"
      unfolding 1(3)[symmetric] using log_write_next[of "r_max_size s" "r_max_files s" "m_formatted m" "rot_abs s w"]
      by (simp_all add: 1(3)[symmetric]) (simp_all add: rot_abs_def)
    moreover have "length (l_cur (rot_abs s1 w1)) \<le> r_current_size s + length (m_formatted m)"
      using log_write_cur[of "r_max_size s" "r_max_files s" "m_formatted m" "rot_abs s w"]
      by (simp add: 1(3) rot_ok_size[OF Cons.prems(1)])
    ultimately have "rot_room_all s1 ms"
      using Cons.prems(2) 1(7) by (simp add: rot_room_all_def)
    from Cons.IH[OF 1(2) this es(1)] show ?case by (simp add: es(2) 1(3-6))
  qed
  then show "rot_ok s' w'" "es = replicate (length ms) None" "r_base s' = r_base s"
    "rot_abs s' w' = log_writes (r_max_size s) (r_max_files s) (map m_formatted ms) (rot_abs s w)"
    by auto
qed

text \<open>C2: \<open>write\<close> implements the abstract log: while the file system does what it is asked and
  the counters have room, a call throws nothing, keeps the sink's invariant (the active file is
  open and \<open>current_size_\<close> is its size), and changes active file and archives as the contract
  says - rename, new number, removal of the archive that left the window, fresh active file.\<close>

theorem rotating_write_refines:
  assumes "rot_ok s w" and "rot_room s (m_formatted m)" and "rot_write m s w = (e, s', w')"
  shows "e = None \<and> rot_ok s' w' \<and>
    rot_abs s' w' = log_write (r_max_size s) (r_max_files s) (m_formatted m) (rot_abs s w)"
proof -
  obtain s1 w1 where "rot_write m s w = (None, s1, w1)" "rot_ok s1 w1"
    "rot_abs s1 w1 = log_write (r_max_size s) (r_max_files s) (m_formatted m) (rot_abs s w)"
    by (rule rot_write_spec[OF assms(1,2)])
  with assms(3) show ?thesis by simp
qed

text \<open>C4: as long as no file operation fails (\<open>rot_ok\<close> says so of every one from the start of the run on), a run of
  writes loses nothing but whole old archives: active file and archives are a cut of the stream of records into chunks, in
  order; the newest \<open>max_files\<close> chunks are in the archives with consecutive numbers, each a non-empty chunk no longer than any
  bound of \<open>max_size\<close>, of the records and of the active file the run starts with, and the older ones are gone.\<close>

theorem rotating_log_retained:
  assumes "rot_ok s w" and "rot_room_all s ms" and "rot_write_all ms s w = (es, s', w')"
    and "\<forall>m \<in> set ms. length (m_formatted m) \<le> bound" and "r_max_size s \<le> bound"
    and "r_current_size s \<le> bound"
  shows "\<exists>chunks. log_cut bound (r_max_files s) (rot_abs s w) (concat (map m_formatted ms)) chunks (rot_abs s' w')"
proof -
  have "1 \<le> l_next (rot_abs s w)" using assms(1) by (simp add: rot_abs_def rot_ok_def rot_config_def)
  then show ?thesis
    using log_writes_cut[OF log_cut_start, of "rot_abs s w" bound "map m_formatted ms" "r_max_size s"]
      rot_write_all_spec(4)[OF assms(1-3)] assms(4-6) rot_ok_size[OF assms(1)] by simp
qed

text \<open>A concrete sink: \<open>app.txt\<close> with twelve bytes in the active file, a limit of 16 bytes and
  one archive kept, on a file system that never fails.\<close>

definition sample_world :: world where
  "sample_world =
     \<lparr>w_fs = [(fs_key ''app.txt'', Regular ''0123456789a\<newline>'')],
      w_streams = [(7, \<lparr>st_target = Disk (fs_key ''app.txt''), st_buf = []\<rparr>)],
      w_tty = (\<lambda>_. []), w_isatty = (\<lambda>_. False), w_next = 8, w_oracle = (\<lambda>_. True),
      w_short = (\<lambda>_. 0), w_tick = 0\<rparr>"

definition sample_rot :: rotating_sink where
  "sample_rot = \<lparr>r_base = ''app.txt'', r_max_size = 16, r_max_files = 1, r_current_size = 12,
     r_next_index = 1, r_file = Some 7\<rparr>"

lemma sample_path [simp]: "path_filename ''app.txt'' = ''app.txt''" "path_parent ''app.txt'' = []"
  by (simp_all add: path_filename_def path_parent_def slash_def)

lemma sample_rot_ok: "rot_ok sample_rot sample_world"
proof -
  have g: "fs_get sample_world k = (if k = fs_key ''app.txt'' then Some (Regular ''0123456789a\<newline>'') else None)" for k
    by (simp add: fs_get_def sample_world_def)
  have "rot_place sample_rot sample_world"
    using archive_key_base[of "''app.txt''"]
    by (simp add: rot_place_def sample_rot_def g is_directory_def fs_dir_def)
  moreover have "rot_active sample_rot sample_world 7 \<lparr>st_target = Disk (fs_key ''app.txt''), st_buf = []\<rparr>
      ''0123456789a\<newline>''"
    unfolding rot_active_def g by (simp add: sample_world_def sample_rot_def)
  ultimately show ?thesis
    unfolding rot_ok_def
    by (intro conjI exI) (auto simp: all_ok_def sample_world_def sample_rot_def rot_config_def max_files_limit_def)
qed


definition sample_line :: "nat \<Rightarrow> log_msg" where
  "sample_line n = mk_log_msg 0 [] Info (replicate n CHR ''x'' @ ''\<newline>'') (replicate n CHR ''x'') 0"

lemma sample_line [simp]: "m_formatted (sample_line n) = replicate n CHR ''x'' @ ''\<newline>''"
  by (simp add: sample_line_def mk_log_msg_def)

theorem rotating_write_refines_witness:
  "\<exists>s w. rot_write (sample_line 9) sample_rot sample_world = (None, s, w) \<and>
     rot_abs s w = log_write 16 1 (replicate 9 CHR ''x'' @ ''\<newline>'') (rot_abs sample_rot sample_world)"
proof -
  obtain e s w where r: "rot_write (sample_line 9) sample_rot sample_world = (e, s, w)"
    using prod_cases3 by blast
  have "rot_room sample_rot (m_formatted (sample_line 9))"
    by (simp add: rot_room_def sample_rot_def size_max_def)
  from rotating_write_refines[OF sample_rot_ok this r] r show ?thesis
    by (auto simp: sample_rot_def)
qed

theorem rotating_log_retained_witness:
  "\<exists>es s w chunks. rot_write_all [sample_line 9, sample_line 9] sample_rot sample_world = (es, s, w) \<and>
     log_cut 16 1 (rot_abs sample_rot sample_world)
       (concat (map m_formatted [sample_line 9, sample_line 9])) chunks (rot_abs s w)"
proof -
  obtain es s w where r: "rot_write_all [sample_line 9, sample_line 9] sample_rot sample_world = (es, s, w)"
    using prod_cases3 by blast
  have room: "rot_room_all sample_rot [sample_line 9, sample_line 9]"
    by (simp add: rot_room_all_def sample_rot_def size_max_def)
  have len: "\<forall>m \<in> set [sample_line 9, sample_line 9]. length (m_formatted m) \<le> 16" by simp
  have cfg: "r_max_files sample_rot = 1" "r_max_size sample_rot \<le> 16" "r_current_size sample_rot \<le> 16"
    by (simp_all add: sample_rot_def)
  show ?thesis
    using rotating_log_retained[OF sample_rot_ok room r len cfg(2,3)] r unfolding cfg(1) by blast
qed

section \<open>When the file system fails\<close>

lemma rot_open_cases:
  assumes "rot_open t s w = (e, s', w')"
  shows "(e = None \<and> (\<exists>h. s' = s\<lparr>r_file := Some h\<rparr>)) \<or>
    (e = Some (Runtime_error (''spdlite: failed to open file: '' @ r_base s)) \<and> s' = s)"
  using assms by (auto simp: rot_open_def split: prod.splits option.splits)

lemma rotate_cases:
  assumes "rotate s w = (e, s', w')"
  shows "r_base s' = r_base s"
    "(e = None \<and> r_file s' \<noteq> None \<and> r_current_size s' = 0) \<or>
     (e = Some (Runtime_error (''spdlite: failed to open file: '' @ r_base s)) \<and> r_file s' = None)"
  using assms
  by (auto simp: rotate_def Let_def split: prod.splits option.splits if_splits dest!: rot_open_cases)

text \<open>C23: in every world, whatever fails: a call that throws leaves the sink closed, throws the
  error of \<open>open_\<close>, and from then on every record is dropped without a trace; a call that does
  not throw leaves a sink that had a file with a file, so the check after \<open>rotate_\<close> never fires.\<close>

theorem rotating_write_failure:
  assumes "rot_write m s w = (e, s', w')"
  shows "(\<forall>x. e = Some x \<longrightarrow> x = Runtime_error (''spdlite: failed to open file: '' @ r_base s) \<and>
      (\<forall>m' v. rot_write m' s' v = (None, s', v) \<and> rot_flush s' v = v)) \<and>
    (e = None \<longrightarrow> (r_file s' = None \<longleftrightarrow> r_file s = None))"
proof -
  have store: "fst (rot_store l n h t v) = None" "r_file (fst (snd (rot_store l n h t v))) = r_file t"
    for l n h t v
    by (simp_all add: rot_store_def split: prod.split)
  show ?thesis
  proof (cases "r_file s")
    case None
    then show ?thesis using assms by (simp add: rot_write_def)
  next
    case (Some fp)
    let ?n = "sz_add (r_current_size s) (length (m_formatted m))"
    show ?thesis
    proof (cases "?n > r_max_size s \<and> r_current_size s > 0")
      case False
      then have "(e, s', w') = rot_store (m_formatted m) ?n fp s w"
        using assms Some by (auto simp: rot_write_def Let_def)
      then show ?thesis using store Some by (metis fst_conv snd_conv option.distinct(1))
    next
      case True
      obtain e1 s1 w1 where r: "rotate s (fflush fp w) = (e1, s1, w1)" using prod_cases3 by blast
      have eq: "(e, s', w') = (case e1 of Some x \<Rightarrow> (Some x, s1, w1) | None \<Rightarrow>
          (case r_file s1 of None \<Rightarrow> (None, s1, w1)
           | Some fp \<Rightarrow> rot_store (m_formatted m) (length (m_formatted m)) fp s1 w1))"
        using assms Some True r by (cases e1; cases "r_file s1") (auto simp: rot_write_def Let_def)
      from rotate_cases(2)[OF r] show ?thesis
      proof
        assume e1: "e1 = None \<and> r_file s1 \<noteq> None \<and> r_current_size s1 = 0"
        then obtain fp1 where "r_file s1 = Some fp1" by auto
        with e1 eq have "(e, s', w') = rot_store (m_formatted m) (length (m_formatted m)) fp1 s1 w1" by simp
        then have "e = None" "r_file s' = r_file s1" using store by (metis fst_conv snd_conv)+
        with e1 Some show ?thesis by simp
      next
        assume "e1 = Some (Runtime_error (''spdlite: failed to open file: '' @ r_base s)) \<and> r_file s1 = None"
        with eq show ?thesis by (simp add: rot_write_def rot_flush_def)
      qed
    qed
  qed
qed

definition broken_world :: world where
  "broken_world = sample_world\<lparr>w_oracle := (\<lambda>_. False)\<rparr>"

lemma rename_attempts_broken:
  "w_oracle u = (\<lambda>_. False) \<Longrightarrow> rename_attempts n a b u = (r, u') \<Longrightarrow> \<not> r \<and> w_oracle u' = (\<lambda>_. False)"
proof (induction n arbitrary: u)
  case (Suc n)
  have 1: "w_oracle (snd (fs_remove b u)) = (\<lambda>_. False)"
    using Suc.prems(1) by (simp add: fs_remove_def ask_def split: option.split)
  obtain x y where xy: "fs_rename a b (snd (fs_remove b u)) = (x, y)" by fastforce
  have "\<not> x \<and> w_oracle y = (\<lambda>_. False)"
    using 1 xy by (auto simp: fs_rename_def ask_def split: option.splits)
  moreover from this have "rename_attempts n a b y = (r, u')"
    using Suc.prems(2) xy by (simp add: Let_def)
  ultimately show ?case using Suc.IH by blast
qed simp

lemma rotate_broken:
  assumes "w_oracle w = (\<lambda>_. False)"
  shows "fst (rotate s w) \<noteq> None"
proof -
  let ?w = "file_closer (r_file s) w" and ?s = "s\<lparr>r_file := None\<rparr>"
  have w: "w_oracle ?w = (\<lambda>_. False)"
    using assms by (cases "r_file s") (simp_all add: file_closer_def fclose_def ask_def)
  obtain r u where ru: "try_rename (r_base s) (archive_path (r_base s) (r_next_index s)) ?w = (r, u)"
    by fastforce
  have u: "\<not> r" "w_oracle u = (\<lambda>_. False)"
    using rename_attempts_broken[OF w ru[unfolded try_rename_def]] by auto
  have "fst (rot_open True ?s u) \<noteq> None" using u(2) by (simp add: rot_open_def fopen_def ask_def)
  then show ?thesis using u(1) ru by (auto simp: rotate_def Let_def split: prod.splits option.splits)
qed

theorem rotating_write_failure_witness:
  "\<exists>s w. rot_write (sample_line 9) sample_rot broken_world =
      (Some (Runtime_error ''spdlite: failed to open file: app.txt''), s, w) \<and>
    rot_write (sample_line 1) s sample_world = (None, s, sample_world)"
proof -
  obtain e s w where r: "rot_write (sample_line 9) sample_rot broken_world = (e, s, w)"
    using prod_cases3 by blast
  have "w_oracle (fflush 7 broken_world) = (\<lambda>_. False)"
    by (simp add: broken_world_def fflush_def ask_def)
  then have "fst (rotate sample_rot (fflush 7 broken_world)) \<noteq> None" by (rule rotate_broken)
  then have "e \<noteq> None"
    using r by (auto simp: rot_write_def sample_rot_def Let_def split: prod.splits option.splits)
  with rotating_write_failure[OF r] r show ?thesis by (auto simp: sample_rot_def)
qed

end
