(* ===== verification/Rotating_Files.thy ===== *)
theory Rotating_Files
  imports Rotating_Props
begin

text \<open>
  The files beside the log: which entries a write may touch, in any world.
\<close>

section \<open>Frame\<close>

definition rot_keys :: "string \<Rightarrow> fs_key set" where
  "rot_keys b = insert (fs_key b) (range (\<lambda>n. fs_key (archive_path b n)))"

definition nolink :: "string \<Rightarrow> world \<Rightarrow> bool" where
  "nolink b w \<longleftrightarrow> (case fs_get w (fs_key b) of Some (Symlink k) \<Rightarrow> False | _ \<Rightarrow> True)"

definition keeps :: "string \<Rightarrow> world \<Rightarrow> world \<Rightarrow> bool" where
  "keeps b w w' \<longleftrightarrow> (\<forall>k. k \<notin> rot_keys b \<longrightarrow> fs_get w' k = fs_get w k) \<and> (nolink b w \<longrightarrow> nolink b w')"

lemma keeps_refl [simp]: "keeps b w w" by (simp add: keeps_def)

lemma keeps_trans: "keeps b u v \<Longrightarrow> keeps b v w \<Longrightarrow> keeps b u w" by (simp add: keeps_def)

lemma rot_keys_intros [simp]: "fs_key b \<in> rot_keys b" "fs_key (archive_path b n) \<in> rot_keys b"
  by (simp_all add: rot_keys_def)

lemma keeps_same_fs: "fs_get w' = fs_get w \<Longrightarrow> keeps b w w'"
  by (simp add: keeps_def nolink_def)

lemma keeps_upd:
  assumes "fs_get w' = (fs_get w)(k := v)" "k \<in> rot_keys b" "k = fs_key b \<Longrightarrow> \<forall>q. v \<noteq> Some (Symlink q)"
  shows "keeps b w w'"
  using assms by (auto simp: keeps_def nolink_def split: option.splits node.splits)

definition tied :: "string \<Rightarrow> nat option \<Rightarrow> world \<Rightarrow> bool" where
  "tied b f w \<longleftrightarrow> (\<forall>h. f = Some h \<longrightarrow>
     (\<exists>st. map_of (w_streams w) h = Some st \<and> st_target st = Disk (fs_key b)))"

lemma drain_keeps:
  assumes "tied b (Some h) w"
  shows "keeps b w (drain h w)" "tied b (Some h) (drain h w)"
proof -
  obtain st where st: "map_of (w_streams w) h = Some st" "st_target st = Disk (fs_key b)"
    using assms by (auto simp: tied_def)
  have "fs_get (drain h w) = fs_get w \<or>
      (\<exists>c. fs_get (drain h w) = (fs_get w)(fs_key b := Some (Regular c)))"
    using st by (auto simp: drain_def Let_def fs_get_put_fun split: option.splits node.splits)
  then show "keeps b w (drain h w)" by (auto intro: keeps_same_fs keeps_upd)
  show "tied b (Some h) (drain h w)"
    using st by (auto simp: tied_def drain_def Let_def update_conv split: option.splits node.splits)
qed

lemma tied_tick [simp]: "tied b f (w\<lparr>w_tick := t\<rparr>) = tied b f w"
  by (simp add: tied_def)

lemma keeps_tick [simp]:
  "keeps b (w\<lparr>w_tick := t\<rparr>) v = keeps b w v" "keeps b v (w\<lparr>w_tick := t\<rparr>) = keeps b v w"
  "keeps b v (w\<lparr>w_streams := ss\<rparr>) = keeps b v w"
  by (simp_all add: keeps_def nolink_def)

lemma fflush_keeps:
  assumes "tied b (Some h) w"
  shows "keeps b w (fflush h w)" "tied b (Some h) (fflush h w)"
  using assms drain_keeps[of b h "w\<lparr>w_tick := w_tick w + 1\<rparr>"]
  by (auto simp: fflush_def ask_def intro: keeps_same_fs)

lemma fclose_keeps: "tied b f w \<Longrightarrow> keeps b w (file_closer f w)"
proof (cases f)
  case (Some h)
  assume t: "tied b f w"
  let ?w = "w\<lparr>w_tick := w_tick w + 1\<rparr>"
  have "keeps b ?w (if w_oracle w (w_tick w) then drain h ?w else ?w)"
    using t Some drain_keeps(1)[of b h ?w] by auto
  then show ?thesis
    using Some by (auto simp: file_closer_def fclose_def ask_def Let_def)
qed (simp add: file_closer_def)

lemma fs_remove_keeps: "keeps b w (snd (fs_remove (archive_path b n) w))"
proof -
  have "fs_get (snd (fs_remove (archive_path b n) w)) = fs_get w \<or>
      fs_get (snd (fs_remove (archive_path b n) w)) = (fs_get w)(fs_key (archive_path b n) := None)"
    by (auto simp: fs_remove_def ask_def fs_get_del_fun split: option.splits)
  then show ?thesis by (auto intro: keeps_same_fs keeps_upd)
qed

lemma fs_rename_keeps: "keeps b w (snd (fs_rename b (archive_path b n) w))"
proof -
  let ?a = "fs_key (archive_path b n)" and ?w' = "snd (fs_rename b (archive_path b n) w)"
  have "fs_get ?w' = fs_get w \<or> (\<exists>nd. fs_get ?w' = (fs_get w)(fs_key b := None, ?a := Some nd))"
    by (auto simp: fs_rename_def ask_def fs_get_del_fun fs_get_put_fun split: option.splits)
  moreover have "fs_get ?w' = (fs_get w)(fs_key b := None, ?a := v) \<Longrightarrow> keeps b w ?w'" for v
    by (auto simp: keeps_def nolink_def rot_keys_def)
  ultimately show ?thesis by (auto intro: keeps_same_fs)
qed

lemma rename_attempts_keeps: "keeps b w (snd (rename_attempts i b (archive_path b n) w))"
proof (induction i arbitrary: w)
  case (Suc i)
  let ?a = "archive_path b n"
  obtain r v where rv: "fs_rename b ?a (snd (fs_remove ?a w)) = (r, v)" by fastforce
  have "keeps b w v"
    using fs_remove_keeps[of b w n] fs_rename_keeps[of b "snd (fs_remove ?a w)" n]
    by (simp add: rv) (rule keeps_trans)
  with Suc[of v] keeps_trans show ?case by (auto simp: rv Let_def)
qed simp

lemma fwrite_bytes_tied:
  "tied b (Some h) w \<Longrightarrow> fwrite_bytes s h w = (ok, w') \<Longrightarrow> tied b (Some h) w' \<and> keeps b w w'"
  by (auto simp: tied_def fwrite_bytes_def fwrite_def ask_def Let_def update_conv
      split: prod.splits intro!: keeps_same_fs)

lemma rot_open_keeps:
  assumes "rot_open t s w = (e, s', w')" "nolink (r_base s) w" "r_file s = None"
  shows "keeps (r_base s) w w'" "tied (r_base s) (r_file s') w'"
proof -
  obtain f v where f: "fopen (r_base s) t w = (f, v)" by fastforce
  have "keeps (r_base s) w w' \<and> tied (r_base s) (r_file s') w'"
  proof (cases f)
    case None
    with f assms show ?thesis
      by (auto simp: rot_open_def tied_def dest!: fopen_None intro: keeps_same_fs)
  next
    case (Some h)
    with f have F: "fopen (r_base s) t w = (Some h, v)" by simp
    have res: "resolve w (fs_key (r_base s)) = fs_key (r_base s)"
      using assms(2) by (auto simp: resolve_def nolink_def split: option.splits node.splits)
    note spec = fopen_Some[OF F, unfolded res]
    have "fs_get v = (fs_get w)(fs_key (r_base s) :=
        Some (Regular (if t then [] else regular_at w (fs_key (r_base s)))))"
      using spec(3,4) by (auto simp: fun_eq_iff)
    then have "keeps (r_base s) w v" by (rule keeps_upd) simp_all
    moreover have "s' = s\<lparr>r_file := Some h\<rparr>" "w' = v"
      using assms(1,3) F by (auto simp: rot_open_def file_closer_def)
    ultimately show ?thesis using spec(5) by (simp add: tied_def)
  qed
  then show "keeps (r_base s) w w'" "tied (r_base s) (r_file s') w'" by auto
qed

lemma rotate_keeps:
  assumes "rotate s w = (e, s', w')" "tied (r_base s) (r_file s) w" "nolink (r_base s) w"
  shows "keeps (r_base s) w w'" "tied (r_base s) (r_file s') w'"
proof -
  let ?b = "r_base s" and ?a = "archive_path (r_base s) (r_next_index s)"
  let ?w1 = "file_closer (r_file s) w" and ?s = "s\<lparr>r_file := None\<rparr>"
  let ?s1 = "?s\<lparr>r_next_index := sz_add (r_next_index s) 1\<rparr>"
  have k1: "keeps ?b w ?w1" by (rule fclose_keeps[OF assms(2)])
  obtain r w2 where r: "try_rename ?b ?a ?w1 = (r, w2)" by fastforce
  have k2: "keeps ?b w w2"
    using rename_attempts_keeps[of ?b ?w1 max_attempts "r_next_index s"] r k1
    by (auto simp: try_rename_def intro: keeps_trans)
  define w3 where "w3 = (if r \<and> r_next_index ?s1 > sz_add (r_max_files s) 1
    then snd (fs_remove (archive_path ?b (sz_sub (sz_sub (r_next_index ?s1) (r_max_files s)) 1)) w2) else w2)"
  have k3: "keeps ?b w w3"
    using k2 fs_remove_keeps by (auto simp: w3_def intro: keeps_trans)
  have nl: "nolink ?b w3" using k3 assms(3) by (simp add: keeps_def)
  obtain e4 s4 w4 where o: "rot_open (\<not> r) (if r then ?s1 else ?s) w3 = (e4, s4, w4)"
    using prod_cases3 by blast
  have "r_file s' = r_file s4 \<and> w' = w4"
    using assms(1) r o by (cases r; cases e4) (auto simp: rotate_def Let_def w3_def split: if_splits)
  moreover have "keeps ?b w3 w4" "tied ?b (r_file s4) w4"
    using rot_open_keeps[OF o] nl by (cases r; simp)+
  ultimately show "keeps ?b w w'" "tied ?b (r_file s') w'" using k3 by (auto intro: keeps_trans)
qed

text \<open>C26: in every world, whatever fails and in whatever state the directory is: a \<open>write\<close> leaves
  every entry alone that is neither the base file nor one of its archive paths, provided the base
  is not a link, and the sink's stream stays on the base file.\<close>

theorem rotating_write_frame:
  assumes "tied (r_base s) (r_file s) w" and "nolink (r_base s) w" and "rot_write m s w = (e, s', w')"
  shows "(\<forall>k. k \<notin> rot_keys (r_base s) \<longrightarrow> fs_get w' k = fs_get w k) \<and>
    tied (r_base s) (r_file s') w' \<and> nolink (r_base s) w'"
proof -
  have "keeps (r_base s) w w' \<and> tied (r_base s) (r_file s') w'"
  proof (cases "r_file s")
    case None
    with assms show ?thesis by (simp add: rot_write_def)
  next
    case (Some fp)
    have st: "tied (r_base s) (Some h) v \<Longrightarrow> r_file t = Some h \<Longrightarrow> rot_store l n h t v = (e', t', v') \<Longrightarrow>
        keeps (r_base s) v v' \<and> tied (r_base s) (r_file t') v'" for h v l n t e' t' v'
      using fwrite_bytes_tied by (fastforce simp: rot_store_def split: prod.splits)
    let ?n = "sz_add (r_current_size s) (length (m_formatted m))"
    show ?thesis
    proof (cases "?n > r_max_size s \<and> r_current_size s > 0")
      case False
      then have "rot_store (m_formatted m) ?n fp s w = (e, s', w')"
        using assms(3) Some by (auto simp: rot_write_def Let_def)
      from st[OF _ Some this] assms(1) Some show ?thesis by simp
    next
      case True
      note fl = fflush_keeps[OF assms(1)[unfolded Some]]
      obtain e1 s1 w1 where r: "rotate s (fflush fp w) = (e1, s1, w1)" using prod_cases3 by blast
      have "nolink (r_base s) (fflush fp w)" using fl(1) assms(2) by (simp add: keeps_def)
      with fl(2) Some have k: "keeps (r_base s) w w1" "tied (r_base s) (r_file s1) w1"
        using rotate_keeps[OF r] fl(1) by (auto intro: keeps_trans)
      show ?thesis
      proof (cases "e1 = None \<and> r_file s1 \<noteq> None")
        case False
        then have "s' = s1 \<and> w' = w1"
          using assms(3) Some True r by (cases e1) (auto simp: rot_write_def Let_def)
        with k show ?thesis by simp
      next
        case True': True
        then obtain h where h: "r_file s1 = Some h" by auto
        with True' have "rot_store (m_formatted m) (length (m_formatted m)) h s1 w1 = (e, s', w')"
          using assms(3) Some True r by (simp add: rot_write_def Let_def)
        from st[OF _ h this] k h show ?thesis by (auto intro: keeps_trans)
      qed
    qed
  qed
  with assms(2) show ?thesis by (auto simp: keeps_def)
qed

theorem rotating_write_frame_witness:
  "\<exists>e s w. rot_write (sample_line 9) sample_rot broken_world = (e, s, w) \<and>
     tied ''app.txt'' (r_file s) w \<and> nolink ''app.txt'' w"
proof -
  obtain e s w where r: "rot_write (sample_line 9) sample_rot broken_world = (e, s, w)"
    using prod_cases3 by blast
  have "tied (r_base sample_rot) (r_file sample_rot) broken_world" "nolink (r_base sample_rot) broken_world"
    by (simp_all add: tied_def nolink_def sample_rot_def broken_world_def sample_world_def fs_get_def)
  from rotating_write_frame[OF this r] r show ?thesis by (auto simp: sample_rot_def)
qed

end
