(* ===== verification/Rotating_Start.thy ===== *)
theory Rotating_Start
  imports Rotating_Files
begin

text \<open>
  Start-up of the rotating sink: the scan of the directory, the removal of stale archives and
  the constructor.
\<close>

section \<open>The scan\<close>

definition archive_index :: "string \<Rightarrow> string \<Rightarrow> string \<times> node \<Rightarrow> nat option" where
  "archive_index stem ext e = (case snd e of Regular c \<Rightarrow> parse_archive_index (fst e) stem ext | _ \<Rightarrow> None)"

lemma highest_index_Cons:
  "highest_index stem ext (e # es) h =
     highest_index stem ext es (case archive_index stem ext e of Some n \<Rightarrow> max n h | None \<Rightarrow> h)"
  by (cases e) (auto simp: archive_index_def max_def split: node.split option.split)

lemma highest_index_bounds:
  "h \<le> highest_index stem ext es h"
  "e \<in> set es \<Longrightarrow> archive_index stem ext e = Some n \<Longrightarrow> n \<le> highest_index stem ext es h"
proof -
  have "h \<le> highest_index stem ext es h \<and>
    (\<forall>e n. e \<in> set es \<longrightarrow> archive_index stem ext e = Some n \<longrightarrow> n \<le> highest_index stem ext es h)"
  proof (induction es arbitrary: h)
    case (Cons a es)
    show ?case
    proof (cases "archive_index stem ext a")
      case None
      then show ?thesis using Cons[of h] by (auto simp: highest_index_Cons)
    next
      case (Some n)
      then show ?thesis using Cons[of "max n h"] by (auto simp: highest_index_Cons)
    qed
  qed simp
  then show "h \<le> highest_index stem ext es h"
    "e \<in> set es \<Longrightarrow> archive_index stem ext e = Some n \<Longrightarrow> n \<le> highest_index stem ext es h" by blast+
qed

lemma highest_index_attained:
  "highest_index stem ext es h = h \<or>
   (\<exists>e \<in> set es. archive_index stem ext e = Some (highest_index stem ext es h))"
proof (induction es arbitrary: h)
  case (Cons a es)
  show ?case
  proof (cases "archive_index stem ext a")
    case None
    then show ?thesis using Cons[of h] by (auto simp: highest_index_Cons)
  next
    case (Some n)
    then show ?thesis using Cons[of "max n h"] by (auto simp: highest_index_Cons max_def)
  qed
qed simp

lemma parse_archive_index_range: "parse_archive_index p s e = Some n \<Longrightarrow> 0 < n \<and> n < size_max"
proof -
  have le: "parse_digits ds 0 = Some n \<Longrightarrow> n \<le> size_max" for ds
    by (simp add: parse_digits_eq split: if_splits)
  assume "parse_archive_index p s e = Some n"
  then obtain ds where "parse_digits ds 0 = Some n" "n \<noteq> 0" "n \<noteq> size_max"
    by (auto simp: parse_archive_index_def Let_def split: if_splits option.splits)
  with le[of ds] show ?thesis by simp
qed

lemma highest_index_range: "highest_index stem ext es 0 < size_max"
proof -
  consider "highest_index stem ext es 0 = 0"
    | e where "archive_index stem ext e = Some (highest_index stem ext es 0)"
    using highest_index_attained[of stem ext es 0] by metis
  then show ?thesis
    by cases (auto simp: size_max_def archive_index_def dest: parse_archive_index_range split: node.splits)
qed

section \<open>The directory\<close>

definition fs_wf :: "world \<Rightarrow> bool" where
  "fs_wf w \<longleftrightarrow> distinct (map fst (w_fs w)) \<and> list_all (\<lambda>e. slash \<notin> set (snd (fst e))) (w_fs w)"

lemma dir_entries_get:
  assumes "fs_wf w"
  shows "(name, nd) \<in> set (dir_entries w d) \<longleftrightarrow> fs_get w (d, name) = Some nd"
proof -
  have "((d, name), nd) \<in> set (w_fs w) \<longleftrightarrow> map_of (w_fs w) (d, name) = Some nd"
    using assms by (simp add: fs_wf_def)
  then show ?thesis by (force simp: dir_entries_def fs_get_def)
qed

lemma dir_entries_slash: "fs_wf w \<Longrightarrow> (name, nd) \<in> set (dir_entries w d) \<Longrightarrow> slash \<notin> set name"
  by (auto simp: fs_wf_def dir_entries_def list_all_iff)

definition base_dir :: "string \<Rightarrow> string" where
  "base_dir base = (if path_parent base = [] then [dot] else path_parent base)"

lemma base_dir_fs: "base_dir base = fs_dir (path_parent base)"
  by (simp add: base_dir_def fs_dir_def)

lemma base_dir_key:
  assumes "slash \<notin> set name"
  shows "fs_key (path_join (base_dir base) name) = (base_dir base, name)"
proof -
  have ne: "base_dir base \<noteq> []" "base_dir base = [slash] \<or> last (base_dir base) \<noteq> slash"
    using path_parent_shape[of base] by (auto simp: base_dir_def dot_def slash_def)
  then show ?thesis
    by (simp add: fs_key_def path_filename_join[OF assms] path_parent_join[OF assms] fs_dir_def)
qed

text \<open>The second pass in any world: what it removed was a regular file with a number below the
  bound.\<close>

lemma prune_removes:
  assumes "\<forall>(name, nd) \<in> set es. slash \<notin> set name"
    and "fs_get (prune (base_dir base) stem ext lo es ec w) k \<noteq> fs_get w k"
  shows "fs_get (prune (base_dir base) stem ext lo es ec w) k = None \<and>
    (\<exists>nd n. (snd k, nd) \<in> set es \<and> fst k = base_dir base \<and> archive_index stem ext (snd k, nd) = Some n \<and> n < lo)"
  using assms
proof (induction es arbitrary: ec w)
  case Nil
  then show ?case by simp
next
  case (Cons e es)
  obtain name nd where e: "e = (name, nd)" by fastforce
  show ?case
  proof (cases "\<not> ec \<and> (\<exists>n. archive_index stem ext e = Some n \<and> n < lo)")
    case False
    have p: "prune (base_dir base) stem ext lo (e # es) ec w = (if ec then w else prune (base_dir base) stem ext lo es ec w)"
      using False by (auto simp: e archive_index_def split: node.splits option.splits)
    with Cons.prems(2) have "\<not> ec" by (cases ec) auto
    with p have p: "prune (base_dir base) stem ext lo (e # es) ec w = prune (base_dir base) stem ext lo es ec w"
      by simp
    have "fs_get (prune (base_dir base) stem ext lo es ec w) k \<noteq> fs_get w k" using Cons.prems(2) unfolding p .
    from Cons.IH[OF _ this] Cons.prems(1) show ?thesis unfolding p by auto
  next
    case True
    then obtain n where n: "\<not> ec" "archive_index stem ext e = Some n" "n < lo" by blast
    obtain ok w1 where r: "fs_remove (path_join (base_dir base) name) w = (ok, w1)" by fastforce
    have p: "prune (base_dir base) stem ext lo (e # es) ec w = prune (base_dir base) stem ext lo es (\<not> ok) w1"
      using n r by (auto simp: e archive_index_def split: node.splits)
    have key: "fs_key (path_join (base_dir base) name) = (base_dir base, name)"
      using Cons.prems(1) by (intro base_dir_key) (auto simp: e)
    have w1: "fs_get w1 = fs_get w \<or> fs_get w1 = (fs_get w)((base_dir base, name) := None)"
      using r by (auto simp: fs_remove_def ask_def fs_get_del_fun key split: option.splits if_splits)
    show ?thesis
    proof (cases "fs_get (prune (base_dir base) stem ext lo es (\<not> ok) w1) k = fs_get w1 k")
      case True
      then have "fs_get w1 k \<noteq> fs_get w k" using Cons.prems(2) p by simp
      with w1 have "k = (base_dir base, name)" "fs_get w1 k = None" by (auto split: if_splits)
      with True p n e show ?thesis by auto
    next
      case False
      with Cons.IH[OF _ False] Cons.prems(1) p show ?thesis by auto
    qed
  qed
qed

text \<open>When no call fails, the second pass removes all of them.\<close>

lemma prune_complete:
  assumes "\<forall>(name, nd) \<in> set es. slash \<notin> set name" "all_ok w"
    and "\<forall>(name, nd) \<in> set es. fs_get w (base_dir base, name) \<noteq> Some Directory \<or> nd = Directory"
    and "(name, nd) \<in> set es" "archive_index stem ext (name, nd) = Some n" "n < lo"
  shows "fs_get (prune (base_dir base) stem ext lo es False w) (base_dir base, name) = None"
  using assms
proof (induction es arbitrary: w)
  case Nil
  then show ?case by simp
next
  case (Cons e es)
  obtain name1 nd1 where e: "e = (name1, nd1)" by fastforce
  let ?P = "\<lambda>w. prune (base_dir base) stem ext lo es False w"
  have mono: "fs_get u k = None \<Longrightarrow> fs_get (?P u) k = None" for u k
    using prune_removes[of es base stem ext lo False u k] Cons.prems(1) by force
  show ?case
  proof (cases "\<exists>i. archive_index stem ext e = Some i \<and> i < lo")
    case False
    then have p: "prune (base_dir base) stem ext lo (e # es) False w = ?P w"
      by (auto simp: e archive_index_def split: node.splits option.splits)
    have "(name, nd) \<in> set es" using Cons.prems(4-6) False by (auto simp: e)
    with Cons show ?thesis unfolding p by (intro Cons.IH) auto
  next
    case True
    then obtain i where i: "archive_index stem ext e = Some i" "i < lo" by blast
    then have nd1: "nd1 \<noteq> Directory" by (auto simp: e archive_index_def)
    obtain ok w1 where r: "fs_remove (path_join (base_dir base) name1) w = (ok, w1)" by fastforce
    have key: "fs_key (path_join (base_dir base) name1) = (base_dir base, name1)"
      using Cons.prems(1) by (intro base_dir_key) (auto simp: e)
    have "fs_get w (fs_key (path_join (base_dir base) name1)) \<noteq> Some Directory"
      using Cons.prems(3) nd1 unfolding key by (auto simp: e)
    note w1 = fs_remove_spec[OF Cons.prems(2) this r, unfolded key]
    have p: "prune (base_dir base) stem ext lo (e # es) False w = ?P w1"
      using i r w1(2) by (auto simp: e archive_index_def split: node.splits)
    show ?thesis
    proof (cases "name = name1")
      case True
      have "fs_get w1 (base_dir base, name) = None" by (simp add: w1(3) True)
      then show ?thesis unfolding p by (rule mono)
    next
      case False
      with Cons.prems(4) e have "(name, nd) \<in> set es" by auto
      then show ?thesis
        unfolding p using Cons.prems w1 by (intro Cons.IH) (auto simp: w1(3) split: if_splits)
    qed
  qed
qed

section \<open>\<open>scan_and_prune_archives_\<close>\<close>

definition archive_at :: "string \<Rightarrow> world \<Rightarrow> fs_key \<Rightarrow> nat option" where
  "archive_at base w k =
     (if fst k \<noteq> base_dir base then None
      else case fs_get w k of
             Some nd \<Rightarrow> archive_index (path_stem base) (path_extension base) (snd k, nd)
           | None \<Rightarrow> None)"

lemma archive_at_tick [simp]: "archive_at base (w\<lparr>w_tick := t\<rparr>) = archive_at base w"
  by (simp add: archive_at_def fun_eq_iff)

lemma archive_at_cong: "fs_get w' k = fs_get w k \<Longrightarrow> archive_at base w' k = archive_at base w k"
  by (simp add: archive_at_def)

lemma dir_entries_tick [simp]: "dir_entries (w\<lparr>w_tick := t\<rparr>) d = dir_entries w d"
  by (simp add: dir_entries_def)

lemma fs_wf_tick [simp]: "fs_wf (w\<lparr>w_tick := t\<rparr>) = fs_wf w"
  by (simp add: fs_wf_def)

lemma entries_archive_at:
  assumes "fs_wf w"
  shows "(\<exists>nd. (snd k, nd) \<in> set (dir_entries w (base_dir base)) \<and> fst k = base_dir base \<and>
      archive_index (path_stem base) (path_extension base) (snd k, nd) = Some n) \<longleftrightarrow>
    archive_at base w k = Some n"
  by (cases k) (auto simp: archive_at_def dir_entries_get[OF assms] split: option.splits)

lemma scan_low_bound:
  assumes "0 < h" "h < size_max" "m < h"
  shows "sz_add (sz_sub h m) 1 = h - m + 1"
  using assms by (simp add: size_max_def)

lemma scan_cases:
  assumes "scan_and_prune_archives base m w = (highest, w')"
  obtains (empty) "highest = 0" "fs_get w' = fs_get w"
  | (keep) "highest = highest_index (path_stem base) (path_extension base) (dir_entries w (base_dir base)) 0"
      "0 < highest" "highest \<le> m" "fs_get w' = fs_get w"
  | (prune) es ok where "highest = highest_index (path_stem base) (path_extension base) (dir_entries w (base_dir base)) 0"
      "m < highest" "es = (if ok then dir_entries w (base_dir base) else [])"
      "w' = prune (base_dir base) (path_stem base) (path_extension base) (highest - m + 1) es False
         (w\<lparr>w_tick := w_tick w + 2\<rparr>)" "all_ok w \<longrightarrow> ok"
proof -
  let ?h = "highest_index (path_stem base) (path_extension base) (dir_entries w (base_dir base)) 0"
  note range = highest_index_range[of "path_stem base" "path_extension base" "dir_entries w (base_dir base)"]
  show thesis
  proof (cases "fs_exists (base_dir base) w \<and> w_oracle w (w_tick w) \<and> 0 < ?h")
    case False
    then have "highest = 0 \<and> fs_get w' = fs_get w"
      using assms
      by (auto simp: scan_and_prune_archives_def base_dir_def[symmetric] open_dir_def ask_def Let_def
          split: if_splits)
    then show thesis using empty by blast
  next
    case True
    show thesis
    proof (cases "?h > m")
      case False
      then have "highest = ?h \<and> fs_get w' = fs_get w"
        using assms True
        by (auto simp: scan_and_prune_archives_def base_dir_def[symmetric] open_dir_def ask_def Let_def)
      with True False show thesis using keep by auto
    next
      case lt: True
      let ?ok = "w_oracle w (w_tick w + 1)"
      have "highest = ?h \<and> w' = prune (base_dir base) (path_stem base) (path_extension base) (?h - m + 1)
          (if ?ok then dir_entries w (base_dir base) else []) False (w\<lparr>w_tick := w_tick w + 2\<rparr>)"
        using assms True lt scan_low_bound[OF _ range lt]
        by (cases ?ok)
          (auto simp: scan_and_prune_archives_def base_dir_def[symmetric] open_dir_def ask_def Let_def)
      with lt show thesis using prune[of _ ?ok] by (auto simp: all_ok_def)
    qed
  qed
qed

lemma scan_removes:
  assumes "fs_wf w" and "scan_and_prune_archives base max_files w = (highest, w')"
  shows "highest < size_max \<and>
    (\<forall>k. fs_get w' k = fs_get w k \<or>
      (fs_get w' k = None \<and> (\<exists>n. archive_at base w k = Some n \<and> n + max_files \<le> highest)))"
proof -
  note range = highest_index_range[of "path_stem base" "path_extension base" "dir_entries w (base_dir base)"]
  show ?thesis
    using assms(2)
  proof (cases rule: scan_cases)
    case empty
    then show ?thesis by (simp add: size_max_def)
  next
    case keep
    with range show ?thesis by simp
  next
    case (prune es ok)
    have sl: "\<forall>(name, nd) \<in> set es. slash \<notin> set name"
      using dir_entries_slash[OF assms(1)] by (auto simp: prune(3))
    have "fs_get w' k = None \<and> (\<exists>n. archive_at base w k = Some n \<and> n + max_files \<le> highest)"
      if "fs_get w' k \<noteq> fs_get w k" for k
    proof -
      from that have "fs_get w' k \<noteq> fs_get (w\<lparr>w_tick := w_tick w + 2\<rparr>) k" by simp
      note r = prune_removes[OF sl this[unfolded prune(4)], folded prune(4)]
      then obtain nd n where "(snd k, nd) \<in> set (dir_entries w (base_dir base))" "fst k = base_dir base"
        "archive_index (path_stem base) (path_extension base) (snd k, nd) = Some n" "n < highest - max_files + 1"
        by (auto simp: prune(3) split: if_splits)
      with entries_archive_at[OF assms(1), of k base n] r prune(2) show ?thesis by auto
    qed
    with range prune(1) show ?thesis by blast
  qed
qed

text \<open>The number the first pass finds is that of the highest archive.\<close>

abbreviation scan_index :: "string \<Rightarrow> world \<Rightarrow> nat" where
  "scan_index base w \<equiv> highest_index (path_stem base) (path_extension base) (dir_entries w (base_dir base)) 0"

lemma scan_index_archive:
  assumes "fs_wf w"
  shows "archive_at base w k = Some n \<Longrightarrow> n \<le> scan_index base w"
    "0 < scan_index base w \<Longrightarrow> \<exists>k. archive_at base w k = Some (scan_index base w)"
proof -
  show "n \<le> scan_index base w" if "archive_at base w k = Some n"
    using that entries_archive_at[OF assms, of k base n] highest_index_bounds(2) by blast
  assume "0 < scan_index base w"
  then obtain name nd where "(name, nd) \<in> set (dir_entries w (base_dir base))"
    "archive_index (path_stem base) (path_extension base) (name, nd) = Some (scan_index base w)"
    using highest_index_attained[of "path_stem base" "path_extension base" "dir_entries w (base_dir base)" 0] by auto
  then show "\<exists>k. archive_at base w k = Some (scan_index base w)"
    using entries_archive_at[OF assms, of "(base_dir base, name)" base "scan_index base w"] by auto
qed

lemma scan_highest:
  assumes "fs_wf w" and "scan_and_prune_archives base max_files w = (highest, w')" and "highest \<noteq> 0"
  shows "\<exists>k. archive_at base w k = Some highest" "archive_at base w k = Some n \<Longrightarrow> n \<le> highest"
proof -
  have h: "highest = scan_index base w" using assms(2) by (cases rule: scan_cases) (use assms(3) in simp_all)
  show "\<exists>k. archive_at base w k = Some highest" using scan_index_archive(2)[OF assms(1), of base] assms(3) unfolding h by simp
  show "archive_at base w k = Some n \<Longrightarrow> n \<le> highest" unfolding h by (rule scan_index_archive(1)[OF assms(1)])
qed

text \<open>C13: start-up removes nothing but stale archives, in every world: the number it returns is zero or that of the
  highest archive on disk, and an entry that is gone afterwards was a regular file in the log's directory - never a link
  or a directory - whose name parses as an archive of this base with a number below the window of the highest archive;
  every other entry is as it was.  A link or a directory named like an archive does not count, whatever its number.\<close>

theorem scan_prunes_only_stale:
  assumes "fs_wf w" and "scan_and_prune_archives base max_files w = (highest, w')"
  shows "(highest = 0 \<or> (\<exists>k. archive_at base w k = Some highest) \<and>
      (\<forall>k n. archive_at base w k = Some n \<longrightarrow> n \<le> highest)) \<and>
    (\<forall>k. fs_get w' k = fs_get w k \<or>
      (fs_get w' k = None \<and> (\<exists>n. archive_at base w k = Some n \<and> n + max_files \<le> highest)))"
  using scan_removes[OF assms] scan_highest[OF assms] by blast

lemma scan_keeps_window:
  assumes "fs_wf w" and "all_ok w" and "fs_exists (base_dir base) w"
    and "scan_and_prune_archives base max_files w = (highest, w')"
  shows "(\<forall>k n. archive_at base w k = Some n \<longrightarrow> n \<le> highest) \<and>
    (0 < highest \<longrightarrow> (\<exists>k. archive_at base w k = Some highest)) \<and>
    (\<forall>k n. archive_at base w' k = Some n \<longrightarrow> n \<le> highest \<and> highest < n + max_files)"
proof -
  let ?es = "dir_entries w (base_dir base)" and ?h = "scan_index base w"
  note bound = scan_index_archive(1)[OF assms(1), of base] and att = scan_index_archive(2)[OF assms(1), of base]
  have h: "highest = ?h"
    using assms(2-4)
    by (auto simp: scan_and_prune_archives_def base_dir_def[symmetric] open_dir_def ask_def Let_def all_ok_def
        split: if_splits)
  have pos: "archive_at base w k = Some n \<Longrightarrow> 0 < n" for k n
    by (auto simp: archive_at_def archive_index_def dest: parse_archive_index_range split: if_splits option.splits node.splits)
  have window: "n \<le> ?h \<and> ?h < n + max_files" if a: "archive_at base w' k = Some n" for k n
    using assms(4)
  proof (cases rule: scan_cases)
    case empty
    with a archive_at_cong[of w' k w base] have "archive_at base w k = Some n" by simp
    with bound[OF this] pos[OF this] empty(1) h show ?thesis by simp
  next
    case keep
    with a archive_at_cong[of w' k w base] have "archive_at base w k = Some n" by simp
    with bound[OF this] pos[OF this] keep(3) h show ?thesis by simp
  next
    case (prune es ok)
    have es: "es = ?es" using prune(3,5) assms(2) by simp
    have sl: "\<forall>(name, nd) \<in> set es. slash \<notin> set name"
      using dir_entries_slash[OF assms(1)] by (auto simp: es)
    have ne: "fs_get w' k \<noteq> None" using a by (auto simp: archive_at_def split: if_splits option.splits)
    have same: "fs_get w' k = fs_get w k"
      using prune_removes[OF sl, of base "path_stem base" "path_extension base" "highest - max_files + 1" False
          "w\<lparr>w_tick := w_tick w + 2\<rparr>" k, folded prune(4)] ne by auto
    with a archive_at_cong[of w' k w base] have aw: "archive_at base w k = Some n" by simp
    obtain nd where nd: "(snd k, nd) \<in> set es" "fst k = base_dir base"
      "archive_index (path_stem base) (path_extension base) (snd k, nd) = Some n"
      using entries_archive_at[OF assms(1), of k base n] aw es by auto
    have ok2: "all_ok (w\<lparr>w_tick := w_tick w + 2\<rparr>)" using assms(2) by (simp add: all_ok_def)
    have dirs: "\<forall>(name, nd) \<in> set es. fs_get (w\<lparr>w_tick := w_tick w + 2\<rparr>) (base_dir base, name) \<noteq> Some Directory \<or> nd = Directory"
      using dir_entries_get[OF assms(1)] by (auto simp: es)
    have "\<not> n < highest - max_files + 1"
    proof
      assume "n < highest - max_files + 1"
      from prune_complete[OF sl ok2 dirs nd(1,3) this] prune(4) nd(2) ne show False by (cases k) simp
    qed
    with bound[OF aw] h prune(2) show ?thesis by simp
  qed
  show ?thesis using bound att window unfolding h by blast
qed

text \<open>When the file system does what it is asked, start-up resumes from the highest archive
  on disk and leaves exactly the window: every archive that is left has a number among the newest
  \<open>max_files\<close> up to it.\<close>

theorem scan_window:
  assumes "fs_wf w" and "all_ok w" and "fs_exists (base_dir base) w"
    and "scan_and_prune_archives base max_files w = (highest, w')"
  shows "(\<forall>k n. archive_at base w k = Some n \<longrightarrow> n \<le> highest) \<and>
    (0 < highest \<longrightarrow> (\<exists>k. archive_at base w k = Some highest)) \<and>
    (\<forall>k n. archive_at base w' k = Some n \<longrightarrow> n \<le> highest \<and> highest < n + max_files)"
  using assms by (rule scan_keeps_window)

section \<open>The constructor\<close>

text \<open>The constructor rejects exactly the three invalid arguments before it touches the
  file system, and otherwise never reports an invalid argument.\<close>

theorem mk_rotating_sink_rejects:
  "(base = [] \<or> max_size = 0 \<or> max_files > max_files_limit \<longleftrightarrow>
     (\<exists>e. fst (mk_rotating_sink base max_size max_files w) = Inl (Invalid_argument e))) \<and>
   (base = [] \<or> max_size = 0 \<or> max_files > max_files_limit \<longrightarrow>
     snd (mk_rotating_sink base max_size max_files w) = w)"
proof -
  have dirs: "fst (make_dirs ds v) \<noteq> Inl (Invalid_argument e)" for ds v e
    by (induction ds v rule: make_dirs.induct) (auto simp: ask_def)
  have op: "rot_open t s v = (e, s', v') \<Longrightarrow> e \<noteq> Some (Invalid_argument x)" for t s v e s' v' x
    by (auto dest: rot_open_cases)
  show ?thesis
  proof (cases "base = [] \<or> max_size = 0 \<or> max_files > max_files_limit")
    case True
    then show ?thesis by (auto simp: mk_rotating_sink_def)
  next
    case False
    let ?parent = "path_parent base"
    obtain r w1 where 1: "(if ?parent \<noteq> [] then create_directories ?parent w else (Inr (), w)) = (r, w1)"
      by fastforce
    have r: "r \<noteq> Inl (Invalid_argument e)" for e
      using 1 dirs[of "ancestors ?parent" w e] by (auto simp: create_directories_def split: if_splits)
    obtain h w2 where 2: "scan_and_prune_archives base max_files w1 = (h, w2)" by fastforce
    obtain z w3 where 3: "file_size base w2 = (z, w3)" by fastforce
    let ?s = "\<lparr>r_base = base, r_max_size = max_size, r_max_files = max_files,
      r_current_size = (case z of None \<Rightarrow> 0 | Some n \<Rightarrow> n mod 2 ^ 64),
      r_next_index = sz_add h 1, r_file = None\<rparr>"
    obtain e4 s4 w4 where 4: "rot_open False ?s w3 = (e4, s4, w4)" using prod_cases3 by blast
    have "fst (mk_rotating_sink base max_size max_files w) =
        (case r of Inl e \<Rightarrow> Inl e | Inr _ \<Rightarrow> (case e4 of Some e \<Rightarrow> Inl e | None \<Rightarrow> Inr s4))"
      using False 1 2 3 4
      by (cases r; cases e4) (simp_all add: mk_rotating_sink_def Let_def)
    moreover have "e4 \<noteq> Some (Invalid_argument e)" for e by (rule op[OF 4])
    ultimately show ?thesis using False r by (cases r; cases e4) auto
  qed
qed

theorem mk_rotating_sink_rejects_witness:
  "\<forall>w. (\<exists>e. fst (mk_rotating_sink ''app.log'' 1024 1001 w) = Inl (Invalid_argument e)) \<and>
     snd (mk_rotating_sink ''app.log'' 1024 1001 w) = w"
  using mk_rotating_sink_rejects[of "''app.log''" 1024 1001] by (simp add: max_files_limit_def)

lemma archive_at_path:
  assumes "path_filename base \<noteq> []" "0 < n" "n < size_max"
    and "fs_get w (fs_key (archive_path base n)) = Some (Regular c)"
  shows "archive_at base w (fs_key (archive_path base n)) = Some n"
  using assms archive_name_parses[OF assms(1-3)]
  by (simp add: archive_at_def archive_key archive_index_def base_dir_fs)

definition dirs_exist :: "string \<Rightarrow> world \<Rightarrow> bool" where
  "dirs_exist base w \<longleftrightarrow> list_all (is_directory w) (ancestors (path_parent base)) \<or> path_parent base = []"

lemma make_dirs_present: "list_all (is_directory w) ds \<Longrightarrow> make_dirs ds w = (Inr (), w)"
  by (induction ds) auto

lemma dirs_exist_base:
  assumes "dirs_exist base w"
  shows "is_directory w (base_dir base)"
    "(if path_parent base \<noteq> [] then create_directories (path_parent base) w else (Inr (), w)) = (Inr (), w)"
proof -
  have "path_parent base \<noteq> [] \<Longrightarrow> list_all (is_directory w) (ancestors (path_parent base))"
    using assms by (simp add: dirs_exist_def)
  then show "is_directory w (base_dir base)"
    "(if path_parent base \<noteq> [] then create_directories (path_parent base) w else (Inr (), w)) = (Inr (), w)"
    by (auto simp: base_dir_def is_directory_def ancestors_def create_directories_def make_dirs_present)
qed

definition later :: "world \<Rightarrow> world \<Rightarrow> bool" where
  "later w w' \<longleftrightarrow> w_oracle w' = w_oracle w \<and> w_tick w \<le> w_tick w'"

lemma later_refl [simp]: "later w w" by (simp add: later_def)

lemma later_trans: "later u v \<Longrightarrow> later v w \<Longrightarrow> later u w" by (simp add: later_def)

lemma later_tick [simp]: "w_tick w \<le> t \<Longrightarrow> later w (w\<lparr>w_tick := t\<rparr>)" by (simp add: later_def)

lemma later_all_ok: "later w w' \<Longrightarrow> all_ok w \<Longrightarrow> all_ok w'"
  by (auto simp: later_def all_ok_def)

lemma later_remove: "fs_remove p w = (ok, w') \<Longrightarrow> later w w'"
  by (auto simp: later_def fs_remove_def ask_def split: option.splits if_splits)

lemma prune_later: "later w (prune d st ex lo es ec w)"
proof (induction es arbitrary: ec w)
  case (Cons e es)
  obtain name nd where e: "e = (name, nd)" by fastforce
  obtain ok v where r: "fs_remove (path_join d name) w = (ok, v)" by fastforce
  have "prune d st ex lo (e # es) ec w \<in>
      {w, prune d st ex lo es ec w, prune d st ex lo es (\<not> ok) v}"
    by (simp add: e r split: node.split option.split)
  then show ?case using Cons later_trans[OF later_remove[OF r] Cons] by auto
qed simp

lemma scan_later:
  assumes "scan_and_prune_archives base m w = (h, w')"
  shows "later w w'"
proof -
  have "w' \<in> {w, w\<lparr>w_tick := w_tick w + 1\<rparr>, w\<lparr>w_tick := w_tick w + 2\<rparr>} \<or>
      (\<exists>es lo. w' = prune (base_dir base) (path_stem base) (path_extension base) lo es False
         (w\<lparr>w_tick := w_tick w + 2\<rparr>))"
    using assms
    by (simp add: scan_and_prune_archives_def base_dir_def[symmetric] open_dir_def ask_def Let_def
        split: if_split_asm) blast+
  then show ?thesis
  proof
    assume "\<exists>es lo. w' = prune (base_dir base) (path_stem base) (path_extension base) lo es False
         (w\<lparr>w_tick := w_tick w + 2\<rparr>)"
    then show ?thesis
      using later_trans[OF _ prune_later] later_tick[of w "w_tick w + 2"] by (metis le_add1)
  qed auto
qed

lemma file_size_later: "file_size p w = (z, w') \<Longrightarrow> later w w' \<and> fs_get w' = fs_get w"
  by (auto simp: file_size_def ask_def Let_def)

lemma file_size_spec:
  assumes "all_ok w" "fs_get w (fs_key p) = None \<or> fs_get w (fs_key p) = Some (Regular c)"
    "file_size p w = (z, w')"
  shows "(case z of None \<Rightarrow> 0 | Some n \<Rightarrow> n) = length (regular_at w (fs_key p))"
  using assms
  by (auto simp: file_size_def ask_def resolve_def regular_at_def all_ok_def Let_def)

lemma archive_at_range: "archive_at base w k = Some n \<Longrightarrow> 0 < n \<and> n < size_max"
  by (auto simp: archive_at_def archive_index_def dest: parse_archive_index_range
      split: if_splits option.splits node.splits)

lemma base_not_archive: "archive_at base w (fs_key base) = None"
proof (rule ccontr)
  assume "archive_at base w (fs_key base) \<noteq> None"
  then obtain n where p: "parse_archive_index (path_filename base) (path_stem base) (path_extension base) = Some n"
    by (auto simp: archive_at_def archive_index_def fs_key_def split: if_splits option.splits node.splits)
  have fn: "path_filename (path_filename base) = path_filename base"
    by (rule path_filename_no_slash[OF slash_not_in_filename])
  then have st: "path_stem (path_filename base) = path_stem base"
    "path_extension (path_filename base) = path_extension base"
    by (simp_all add: path_stem_def path_extension_def)
  let ?inner = "if path_extension base = [] then path_filename base else path_stem base"
  have stem: "path_filename (path_stem base) = path_stem base"
  proof (rule path_filename_no_slash)
    show "slash \<notin> set (path_stem base)"
      using slash_not_in_filename[of base] unfolding stem_ext_append[of base, symmetric] by simp
  qed
  have i: "path_stem ?inner = path_stem base" "2 \<le> length (path_extension ?inner)"
    using p st by (auto simp: parse_archive_index_def Let_def split: if_splits)
  have "path_filename ?inner = ?inner" using fn stem by simp
  then have "length (path_stem ?inner) + length (path_extension ?inner) = length ?inner"
    using stem_ext_append[of ?inner] by (metis length_append)
  moreover have "length ?inner = length (path_stem base)"
    using stem_ext_append[of base] by (cases "path_extension base = []") auto
  ultimately show False using i by simp
qed

text \<open>C12: a restart loses nothing: with the directory in place and a file system that does what it
  is asked, the constructor returns a sink in its invariant whose active part is what the base
  file held, whose archives are the old ones inside the window, and whose next number no archive
  on disk has.\<close>

theorem mk_rotating_sink_resumes:
  assumes "fs_wf w" and "all_ok w" and "dirs_exist base w" and "path_filename base \<noteq> []"
    and "0 < max_size" and "max_files \<le> max_files_limit"
    and "fs_get w (fs_key base) = None \<or> fs_get w (fs_key base) = Some (Regular c)"
    and "length c < 2 ^ 64"
    and "\<forall>n. case fs_get w (fs_key (archive_path base n)) of Some (Regular s) \<Rightarrow> True | None \<Rightarrow> True | _ \<Rightarrow> False"
  shows "\<exists>s w'. mk_rotating_sink base max_size max_files w = (Inr s, w') \<and> rot_ok s w' \<and>
    r_base s = base \<and> r_max_size s = max_size \<and> r_max_files s = max_files \<and>
    l_cur (rot_abs s w') = regular_at w (fs_key base) \<and>
    (\<forall>n. 0 < n \<and> n < size_max \<longrightarrow>
       l_arch (rot_abs s w') n =
         (if n < r_next_index s \<and> r_next_index s \<le> n + max_files
          then node_text (fs_get w (fs_key (archive_path base n))) else None)) \<and>
    (\<forall>n. 0 < n \<and> n < size_max \<and> fs_get w (fs_key (archive_path base n)) \<noteq> None \<longrightarrow> n < r_next_index s)"
proof -
  let ?k = "fs_key base" and ?a = "\<lambda>n. fs_key (archive_path base n)"
  note dir = dirs_exist_base[OF assms(3)]
  obtain h w1 where 1: "scan_and_prune_archives base max_files w = (h, w1)" by fastforce
  have ex: "fs_exists (base_dir base) w" using dir(1) by (simp add: fs_exists_def)
  note win = scan_keeps_window[OF assms(1,2) ex 1] and rem = scan_removes[OF assms(1) 1]
  have ok1: "all_ok w1" using scan_later[OF 1] assms(2) by (rule later_all_ok)
  have k1: "fs_get w1 ?k = fs_get w ?k" using rem base_not_archive[of base w] by (metis option.distinct(1))
  obtain z w2 where 2: "file_size base w1 = (z, w2)" by fastforce
  have ok2: "all_ok w2" and fs2: "fs_get w2 = fs_get w1"
    using file_size_later[OF 2] ok1 later_all_ok by blast+
  have k1': "fs_get w1 ?k = None \<or> fs_get w1 ?k = Some (Regular c)" using assms(7) k1 by simp
  have reg: "regular_at w2 ?k = regular_at w ?k" "regular_at w1 ?k = regular_at w ?k"
    using fs2 k1 by (simp_all add: regular_at_def)
  have len: "length (regular_at w ?k) < 2 ^ 64" using assms(7,8) by (auto simp: regular_at_def)
  have z: "(case z of None \<Rightarrow> 0 | Some n \<Rightarrow> n mod 2 ^ 64) = length (regular_at w ?k)"
    using file_size_spec[OF ok1 k1' 2] len reg(2) by (auto split: option.splits)
  let ?s = "\<lparr>r_base = base, r_max_size = max_size, r_max_files = max_files,
      r_current_size = length (regular_at w ?k), r_next_index = h + 1, r_file = None\<rparr>"
  have nx: "sz_add h 1 = h + 1" using rem by (simp add: size_max_def)
  have "is_directory w2 (base_dir base)"
  proof (rule is_directory_upd[OF dir(1)])
    fix k assume d: "fs_get w k = Some Directory"
    then have "archive_at base w k = None" by (simp add: archive_at_def archive_index_def)
    with rem d show "fs_get w2 k = Some Directory" unfolding fs2 by (metis option.distinct(1))
  qed
  then have d2: "is_directory w2 (fst (fs_key base))" by (simp add: fs_key_def base_dir_fs)
  have n2: "snd ?k \<noteq> []" using assms(4) by (simp add: fs_key_def)
  have k2: "fs_get w2 ?k = None \<or> fs_get w2 ?k = Some (Regular c)" using k1' fs2 by simp
  obtain w3 where 3: "fopen base False w2 = (Some (w_next w2), w3)" "all_ok w3"
    "map_of (w_streams w3) (w_next w2) = Some \<lparr>st_target = Disk ?k, st_buf = []\<rparr>"
    "fs_get w3 = (fs_get w2)(?k \<mapsto> Regular (if False then [] else regular_at w2 ?k))"
    by (rule fopen_spec[OF ok2 d2 n2 k2])
  let ?t = "?s\<lparr>r_file := Some (w_next w2)\<rparr>"
  have fs3: "fs_get w3 = (fs_get w1)(?k \<mapsto> Regular (regular_at w ?k))" using 3(4) fs2 reg(1) by simp
  have base_ne: "base \<noteq> []" using assms(4) by (auto simp: path_filename_def)
  have mk: "mk_rotating_sink base max_size max_files w = (Inr ?t, w3)"
    using assms(5,6) base_ne 1 2 3(1) dir(2) nx z
    by (simp add: mk_rotating_sink_def rot_open_def file_closer_def)
  have act: "rot_active ?t w3 (w_next w2) \<lparr>st_target = Disk ?k, st_buf = []\<rparr> (regular_at w ?k)"
    using 3(3) fs3 by (simp add: rot_active_def)
  have nodir: "fs_get w (?a n) \<noteq> Some Directory" for n
    using assms(9)[rule_format, of n] by (auto split: option.splits)
  have cases1: "fs_get w1 k = fs_get w k \<or>
      (fs_get w1 k = None \<and> (\<exists>n. archive_at base w k = Some n \<and> n + max_files \<le> h))" for k
    using rem by blast
  have place: "rot_place ?t w3"
  proof -
    have "is_directory w3 (base_dir base)"
    proof (rule is_directory_upd[OF \<open>is_directory w2 (base_dir base)\<close>])
      fix k assume "fs_get w2 k = Some Directory"
      moreover then have "k \<noteq> ?k" using k2 by auto
      ultimately show "fs_get w3 k = Some Directory" by (simp add: fs3 fs2)
    qed
    moreover have "fs_get w3 (?a n) \<noteq> Some Directory" for n
      using cases1[of "?a n"] nodir[of n] by (auto simp: fs3)
    ultimately show ?thesis using assms(4) by (simp add: rot_place_def base_dir_fs)
  qed
  have "rot_config ?t" using assms(5,6) by (simp add: rot_config_def)
  then have rok: "rot_ok ?t w3"
    unfolding rot_ok_def using 3(2) place act by (intro conjI exI) (assumption | simp)+
  have kept: "fs_get w1 (?a n) = (if n \<le> h \<and> h < n + max_files then fs_get w (?a n) else None) \<and>
      (fs_get w (?a n) \<noteq> None \<longrightarrow> n \<le> h)" if n: "0 < n" "n < size_max" for n
  proof (cases "fs_get w (?a n)")
    case None
    then show ?thesis using cases1[of "?a n"] by auto
  next
    case (Some nd)
    then obtain s where s: "fs_get w (?a n) = Some (Regular s)"
      using assms(9)[rule_format, of n] by (cases nd) auto
    have at: "archive_at base w (?a n) = Some n" by (rule archive_at_path[OF assms(4) n s])
    show ?thesis
    proof (cases "fs_get w1 (?a n) = fs_get w (?a n)")
      case True
      then have "archive_at base w1 (?a n) = Some n" using at archive_at_cong by metis
      with win have "n \<le> h \<and> h < n + max_files" by blast
      with True show ?thesis by simp
    next
      case False
      with cases1[of "?a n"] at win show ?thesis by fastforce
    qed
  qed
  have cur: "l_cur (rot_abs ?t w3) = regular_at w ?k"
    using rot_active_text(1)[OF act] by (simp add: rot_abs_def)
  have arch: "l_arch (rot_abs ?t w3) n =
      (if n < h + 1 \<and> h + 1 \<le> n + max_files then node_text (fs_get w (?a n)) else None)"
    if "0 < n" "n < size_max" for n
    using kept[OF that] by (auto simp: rot_abs_def fs3 node_text_def)
  show ?thesis
    using mk rok cur arch kept by (intro exI[of _ ?t] exI[of _ w3]) (simp add: less_Suc_eq_le)
qed

section \<open>Examples\<close>

text \<open>A directory with archives 3 and 5 of \<open>app.txt\<close>, a link planted under the name of archive 9,
  and another program's file.\<close>

definition restart_world :: world where
  "restart_world = sample_world\<lparr>w_fs :=
     [((''.'', ''app.txt''), Regular ''old''), ((''.'', ''app.3.txt''), Regular ''three''),
      ((''.'', ''app.9.txt''), Symlink (''.'', ''passwd'')), ((''.'', ''app.5.txt''), Regular ''five''),
      ((''.'', ''app.log''), Regular ''other'')], w_streams := []\<rparr>"

lemma restart_world_ok: "fs_wf restart_world" "all_ok restart_world"
  "fs_exists (base_dir ''app.txt'') restart_world" "dirs_exist ''app.txt'' restart_world"
  by (simp_all add: restart_world_def sample_world_def fs_wf_def all_ok_def slash_def fs_exists_def
      is_directory_def base_dir_def dirs_exist_def)

theorem scan_prunes_only_stale_witness:
  "\<exists>h w. scan_and_prune_archives ''app.txt'' 1 restart_world = (h, w) \<and>
     fs_get w (''.'', ''app.9.txt'') = Some (Symlink (''.'', ''passwd''))"
proof -
  obtain h w where r: "scan_and_prune_archives ''app.txt'' 1 restart_world = (h, w)" by fastforce
  have "archive_at ''app.txt'' restart_world (''.'', ''app.9.txt'') = None"
    by (simp add: archive_at_def archive_index_def restart_world_def fs_get_def)
  moreover have "fs_get restart_world (''.'', ''app.9.txt'') = Some (Symlink (''.'', ''passwd''))"
    by (simp add: restart_world_def fs_get_def)
  ultimately show ?thesis
    using scan_prunes_only_stale[OF restart_world_ok(1) r] r by (metis option.distinct(1))
qed

lemma restart_archive: "archive_at ''app.txt'' restart_world (''.'', ''app.5.txt'') = Some 5"
  by (simp add: archive_at_def archive_index_def restart_world_def fs_get_def base_dir_def dot_def
      parse_archive_index_def path_stem_def path_extension_def path_filename_def slash_def
      name_stem_len_def Let_def is_digit_def digit_val_def size_max_def)

theorem scan_window_witness:
  "\<exists>h w. scan_and_prune_archives ''app.txt'' 1 restart_world = (h, w) \<and> 5 \<le> h \<and>
     (\<forall>k n. archive_at ''app.txt'' w k = Some n \<longrightarrow> n = h)"
proof -
  obtain h w where r: "scan_and_prune_archives ''app.txt'' 1 restart_world = (h, w)" by fastforce
  note s = scan_window[OF restart_world_ok(1-3) r]
  have "5 \<le> h" using s restart_archive by blast
  moreover have "n = h" if a: "archive_at ''app.txt'' w k = Some n" for k n
    using s[THEN conjunct2, THEN conjunct2, rule_format, OF a] by simp
  ultimately show ?thesis using r by blast
qed

theorem mk_rotating_sink_resumes_witness:
  "\<exists>s w. mk_rotating_sink ''app.txt'' 16 1 sample_world = (Inr s, w) \<and> rot_ok s w \<and>
     l_cur (rot_abs s w) = ''0123456789a\<newline>''"
proof -
  have g: "fs_get sample_world k = (if k = fs_key ''app.txt'' then Some (Regular ''0123456789a\<newline>'') else None)" for k
    by (simp add: fs_get_def sample_world_def)
  have "fs_wf sample_world" "all_ok sample_world" "dirs_exist ''app.txt'' sample_world"
    by (simp_all add: sample_world_def fs_wf_def all_ok_def dirs_exist_def fs_key_def slash_def)
  from mk_rotating_sink_resumes[OF this, of 16 1 "''0123456789a\<newline>''"] show ?thesis
    by (simp add: g max_files_limit_def regular_at_def) blast
qed

end
