(* ===== verification/Spec2Isabelle.thy ===== *)
theory Spec2Isabelle
  imports Calendar Common Console Fmt_Args Fmt_Args_Props Fmt_Bigint Fmt_Buffer Fmt_Checker Fmt_Digits Fmt_Dragon Fmt_Dragonbox Fmt_Dragonbox_Cache Fmt_Dragonbox_Double Fmt_Dragonbox_Exact Fmt_Dragonbox_Products Fmt_Dragonbox_Props Fmt_Dragonbox_Regular Fmt_Dragonbox_Shortest Fmt_Dragonbox_Table Fmt_Dragonbox_Words Fmt_Float Fmt_Format Fmt_Format_Props Fmt_Output Fmt_Parse Fmt_Parse_Run Fmt_Printable Fmt_Specs Fmt_Template Fmt_Uint128 Fmt_Utf8 Fmt_Utf8_Spec Fmt_Write Fmt_Write_Props Formatter Logger Logger_Format Logger_Props Logger_Threads Prelude Rotating Rotating_Files Rotating_Log Rotating_Props Rotating_Start Sinks Stdio
begin

text \<open>
  A verification development for \<open>spdlite\<close>, a header-only C++ logging library, and for the copy of the
  \<open>fmt\<close> library it bundles.  Paths below are relative to \<open>src/include/spdlite/\<close>.

  The program.  A \<^emph>\<open>logger\<close> (\<open>logger.h\<close>) takes a message and its level, puts a cached header with time, name
  and level (\<open>formatter.h\<close>) and the text into one buffer, and hands the line to each of its \<^emph>\<open>sinks\<close>
  (\<open>sinks/*.h\<close>): nothing, standard output, a file, a colouring console, or a file that is rotated into
  numbered archives.  The text comes from \<open>fmt\<close> (\<open>fmt/base.h\<close>, \<open>fmt/format.h\<close>, \<open>fmt/format-inl.h\<close>): a parser of
  format strings drives a handler that checks the string when the program is compiled, or one that
  formats the arguments when it runs, through writers for each type of argument, into an output buffer.

  How the code is modelled.  A class is a record, an enumeration a datatype, a method a function that
  takes the state and returns it changed.  Words are words where the code shifts, masks or may wrap
  around, and integers or naturals where it only counts.  A byte is a \<open>char\<close>, a byte array a list that is
  overwritten in place (\<open>patch\<close>).  An exception is the left of a sum, or stands beside the state that the
  throwing call leaves behind.  \<open>None\<close> is a call that does not return or whose behaviour is not defined; that a
  call returns is always part of the theorem about it.

  \<^bold>\<open>Theories, by the code they model\<close>

  \<^item> \<open>Prelude\<close>: bytes, in-place writes, decimal digits, word arithmetic without overflow; the collections
    \<open>layout_simps\<close> and \<open>buf_simps\<close>.
  \<^item> \<open>Calendar\<close>, \<open>Stdio\<close>: what is used of \<open><ctime>\<close>, \<open><cstdio>\<close> and \<open><filesystem>\<close>.  A world holds files, streams and
    an oracle that is asked whenever a call may fail, so a theorem about any world is one about any
    pattern of failures.
  \<^item> \<open>Common\<close> (\<open>common.h\<close>): levels, \<open>stack_buf\<close>, \<open>log_msg\<close>.  \<open>Formatter\<close> (\<open>formatter.h\<close>): the header, its cache and the
    proof that the cache never shows, renames and changed options included.
  \<^item> \<open>Sinks\<close> (\<open>sinks/null_sink.h\<close>, \<open>stdout_sink.h\<close>, \<open>file_sink.h\<close>) and \<open>Console\<close> (\<open>console_sink.h\<close>), with what
    a console shows under each colour mode.
  \<^item> \<open>Rotating\<close> (\<open>sinks/rotating_file_sink.h\<close>): the whole class.  \<open>Rotating_Log\<close> states what it promises, a log
    cut into an active part and archives; \<open>Rotating_Props\<close> shows the refinement and what failures do,
    \<open>Rotating_Files\<close> which files a call may touch, \<open>Rotating_Start\<close> what start-up keeps and removes.
  \<^item> \<open>Logger\<close> (\<open>logger.h\<close>, \<open>sinks/shared_sink.h\<close>): all operations.  \<open>Logger_Props\<close>: delivery to every sink,
    exceptions, gates.  \<open>Logger_Format\<close> joins the logger to \<open>fmt\<close>: from a format string to the bytes in the
    files.  \<open>Logger_Threads\<close>: the steps of calls of many threads on one logger, as an inductive relation with
    invariants by rule induction.
  \<^item> \<open>Fmt_Buffer\<close>, \<open>Fmt_Output\<close>: \<open>detail::buffer\<close> and the buffers over memory, iterators, arrays and containers,
    and \<open>format_to\<close>, \<open>format_to_n\<close>, \<open>formatted_size\<close> on them.
  \<^item> \<open>Fmt_Specs\<close>, \<open>Fmt_Args\<close>, \<open>Fmt_Parse\<close>: the packed specifiers, the argument lists, the parser of specifiers;
    \<open>Fmt_Args_Props\<close> and \<open>Fmt_Parse_Run\<close> hold properties.
  \<^item> \<open>Fmt_Digits\<close>, \<open>Fmt_Utf8\<close>, \<open>Fmt_Printable\<close>, \<open>Fmt_Write\<close>, \<open>Fmt_Float\<close>: the writers of one argument;
    \<open>Fmt_Write_Props\<close> what they write.  \<open>Fmt_Utf8_Spec\<close>: UTF-8 as RFC 3629 defines it, independent of the decoder, and
    that the decoder accepts exactly this.
  \<^item> \<open>Fmt_Format\<close>: the parser of format strings, its two handlers, \<open>vformat_to\<close>.  \<open>Fmt_Format_Props\<close>: it
    returns.  \<open>Fmt_Template\<close>: what it prints.  \<open>Fmt_Checker\<close>: what the check at compile time excludes.
  \<^item> \<open>Fmt_Bigint\<close>, \<open>Fmt_Dragon\<close>: the exact conversion of floating-point numbers, \<open>bigint\<close> and \<open>format_dragon\<close>.
  \<^item> \<open>Fmt_Uint128\<close>: \<open>uint128_fallback\<close> and the wide products.  \<open>Fmt_Dragonbox\<close>: the shortest conversion, \<open>to_decimal\<close>,
    with its tables and divisions.  \<open>Fmt_Dragonbox_Props\<close>: the divisions and trailing zeros.  \<open>Fmt_Dragonbox_Cache\<close>: how exact
    the cached powers of ten are.  \<open>Fmt_Dragonbox_Shortest\<close>, \<open>Fmt_Dragonbox_Regular\<close>: the rounding interval and the algorithm over
    exact products.  \<open>Fmt_Dragonbox_Products\<close>, \<open>_Words\<close>, \<open>_Exact\<close>, \<open>_Table\<close>: that the products are exact, by the accuracy of the
    power for small exponents and by a checked pair of fractions for each group of the others.
    \<open>Fmt_Dragonbox_Double\<close>: the result for \<open>double\<close>.

  \<^bold>\<open>Interfaces\<close>

  Where one part relies on another the contract is a locale, and the model's definitions interpret it.
  \<open>byte_buffer\<close> (\<open>Common\<close>): a buffer is the text appended to it; by \<open>stack_buf\<close> and by fmt's memory
  buffer, so the logger does not depend on which build is used.  \<open>growing\<close> (\<open>Fmt_Buffer\<close>): what a
  \<open>grow\<close> function must keep for \<open>append\<close> to end and to append; by all five buffers.  \<open>text_sink\<close> (\<open>Sinks\<close>): what the
  logger expects of a sink; by each of them.  \<open>format_handler_contract\<close> (\<open>Fmt_Format_Props\<close>): what the parser
  expects of a handler; by both handlers, and \<open>handlers_in_step\<close> (\<open>Fmt_Checker\<close>) extends it to two handlers of which
  one checks for the other.  \<open>exact_products\<close> (\<open>Fmt_Dragonbox_Shortest\<close>): what Dragonbox needs of its multiplications; by those of
  \<open>double\<close>.

  \<^bold>\<open>Loops and bounds\<close>

  There is no fuel.  Loops without an evident bound are \<open>partial_function (option)\<close>, and that they return is
  proved: \<open>buffer::append\<close> because a full buffer grows or is flushed, the parser of format strings because every
  handler keeps the rest of the text from growing, the loops over digit groups because a group is not empty,
  \<open>divmod_assign\<close> because the remainder falls by the divisor.  The theorems about the header are for the
  years 0 to 9999, which its four digits can show, and from one second after the epoch; those about archives
  for numbers below \<open>2 ^ 64\<close>.

  \<^bold>\<open>Assertions and undefined behaviour\<close>

  A failed assertion of \<open>uint128_fallback\<close>, of Dragonbox's tables and of \<open>bigint\<close>'s subtraction and division, and an overflow
  of the \<open>int\<close> that counts a quotient, are the value \<open>None\<close>.  The ranges asserted by the logarithms of Dragonbox are shown to hold
  (\<open>log_asserts\<close>); the room asserted by the decimal writer is a condition of the facts about it.  The exponent of \<open>bigint\<close> is a
  natural number without a bound.  An argument keeps the member of its union that was written; reading it under
  another type than that of the descriptor is an undefined value.

  \<^bold>\<open>Not modelled\<close>

  The fast path of \<open>format_float\<close> for a given precision and \<open>format_hexfloat\<close>; the writers of floating-point numbers take the
  digits as a parameter.  The full table of powers of ten, for builds that ask for it.  Wide
  characters, the mapping of C++ types to argument types when the program is compiled, and printing to a \<open>FILE\<close>,
  which the logger does not use.  Locale facets and formatters of user-defined types are parameters.  Destructors that only
  free memory, tests, benchmarks and the example.  In \<open>Logger_Threads\<close> the calls carry text, formatted before; the
  report of an error to standard error is one step with the delivery that failed.  Errors while the directory of the archives
  is listed, after it was opened, and of the questions for the types of its entries.  The packing of arguments, which
  throws for two named arguments of one name, happens before the part of a logging call that cannot throw.
\<close>

end
